(* ===== verification/Dinv_Prelude.thy ===== *)
theory Dinv_Prelude
  imports
    Main
    "HOL-Library.Word"
    "HOL-Library.Multiset"
    "HOL-Library.Char_ord"
    "HOL-Library.List_Lexorder"
    "HOL-Library.AList"
begin

text \<open>
  Shared vocabulary of the development: the Go types the sources use, run-time failures as
  values, Go maps, string primitives of the standard library (decimal printing and parsing,
  splitting), and the generic lemmas the component theories rely on.

  Conventions.
  \<^item> \<open>uint64\<close> is \<open>64 word\<close>, with wrap-around; a Go \<open>int\<close> used as an index or a length is
    \<open>nat\<close> or \<open>int\<close>, a Go \<open>string\<close> is a list of bytes.
  \<^item> A run-time panic, a failed type assertion, \<open>log.Fatal\<close> and \<open>os.Exit\<close> are values of
    \<open>go_error\<close>; a function that can fail returns \<open>go_error + 'a\<close>.
  \<^item> A Go map is an association list without duplicate keys. Its order in the model carries
    no meaning: wherever the source ranges over a map and the order can be observed, the
    definition takes the iteration order as a parameter.
\<close>

section \<open>Collections of rules\<close>

named_theorems go_bind \<open>inversion rules for computations that may fail\<close>
named_theorems gomap_simps \<open>lookups in Go maps after updates\<close>

section \<open>Machine integers and failures\<close>

type_synonym u64 = "64 word"
type_synonym bytes = "8 word list"

datatype go_error =
    IndexOutOfRange
  | NilPointer
  | TypeAssertion
  | Panic string
  | Fatal string
  | Exit int

type_synonym 'a go = "go_error + 'a"

fun rbind :: "'a go \<Rightarrow> ('a \<Rightarrow> 'b go) \<Rightarrow> 'b go" where
  "rbind (Inl e) f = Inl e"
| "rbind (Inr x) f = f x"

fun traverse :: "('a \<Rightarrow> 'b go) \<Rightarrow> 'a list \<Rightarrow> 'b list go" where
  "traverse f [] = Inr []"
| "traverse f (x # xs) = rbind (f x) (\<lambda>y. rbind (traverse f xs) (\<lambda>ys. Inr (y # ys)))"

fun foldR :: "('s \<Rightarrow> 'a \<Rightarrow> 's go) \<Rightarrow> 's \<Rightarrow> 'a list \<Rightarrow> 's go" where
  "foldR f s [] = Inr s"
| "foldR f s (x # xs) = rbind (f s x) (\<lambda>s'. foldR f s' xs)"

definition index_go :: "'a list \<Rightarrow> nat \<Rightarrow> 'a go" where
  "index_go xs i = (if i < length xs then Inr (xs ! i) else Inl IndexOutOfRange)"

definition update_go :: "'a list \<Rightarrow> nat \<Rightarrow> 'a \<Rightarrow> 'a list go" where
  "update_go xs i x = (if i < length xs then Inr (xs[i := x]) else Inl IndexOutOfRange)"

text \<open>Conversion \<open>int(x)\<close> of a \<open>uint64\<close>: the same 64 bits read as two's complement.\<close>

definition int_of_u64 :: "u64 \<Rightarrow> int" where
  "int_of_u64 w = sint w"

section \<open>Go maps\<close>

type_synonym ('k, 'v) gomap = "('k \<times> 'v) list"

abbreviation gomap_get :: "('k, 'v) gomap \<Rightarrow> 'k \<Rightarrow> 'v option" where
  "gomap_get \<equiv> map_of"

abbreviation gomap_set :: "'k \<Rightarrow> 'v \<Rightarrow> ('k, 'v) gomap \<Rightarrow> ('k, 'v) gomap" where
  "gomap_set \<equiv> AList.update"

text \<open>Indexing a map yields the zero value when the key is absent.\<close>

definition gomap_get0 :: "('k, 'v::zero) gomap \<Rightarrow> 'k \<Rightarrow> 'v" where
  "gomap_get0 m k = (case map_of m k of None \<Rightarrow> 0 | Some v \<Rightarrow> v)"

definition gomap_wf :: "('k, 'v) gomap \<Rightarrow> bool" where
  "gomap_wf m \<longleftrightarrow> distinct (map fst m)"

section \<open>Strings\<close>

abbreviation (input) dquote :: char where
  "dquote \<equiv> CHR 0x22"

abbreviation (input) newline :: char where
  "newline \<equiv> CHR 0x0A"

definition digit_char :: "nat \<Rightarrow> char" where
  "digit_char d = char_of (48 + d)"

definition is_digit :: "char \<Rightarrow> bool" where
  "is_digit c \<longleftrightarrow> 48 \<le> (of_char c :: nat) \<and> (of_char c :: nat) \<le> 57"

definition digit_val :: "char \<Rightarrow> nat" where
  "digit_val c = of_char c - 48"

text \<open>\<open>fmt.Sprintf("%d", n)\<close> for a non-negative number.\<close>

fun show_nat :: "nat \<Rightarrow> string" where
  "show_nat n = (if n < 10 then [digit_char n] else show_nat (n div 10) @ [digit_char (n mod 10)])"

declare show_nat.simps [simp del]

definition show_int :: "int \<Rightarrow> string" where
  "show_int i = (if i < 0 then CHR ''-'' # show_nat (nat (- i)) else show_nat (nat i))"

definition digits_val :: "string \<Rightarrow> nat" where
  "digits_val s = foldl (\<lambda>a c. 10 * a + digit_val c) 0 s"

text \<open>
  \<open>strconv.Atoi\<close> on a string of decimal digits (the only strings the parsers hand to it):
  an error outside the range of a 64-bit \<open>int\<close>.
\<close>

definition atoi_digits :: "string \<Rightarrow> int option" where
  "atoi_digits s =
     (let n = digits_val s
      in if s \<noteq> [] \<and> list_all is_digit s \<and> n < 2 ^ 63 then Some (int n) else None)"

section \<open>Computations that may fail\<close>

lemma rbind_eq_Inr [go_bind]: "rbind m f = Inr y \<longleftrightarrow> (\<exists>x. m = Inr x \<and> f x = Inr y)"
  by (cases m) auto

lemma rbind_eq_Inl [go_bind]:
  "rbind m f = Inl e \<longleftrightarrow> m = Inl e \<or> (\<exists>x. m = Inr x \<and> f x = Inl e)"
  by (cases m) auto

lemma index_go_Inr [go_bind]: "index_go xs i = Inr x \<longleftrightarrow> i < length xs \<and> x = xs ! i"
  by (auto simp: index_go_def)

lemma update_go_Inr [go_bind]: "update_go xs i x = Inr ys \<longleftrightarrow> i < length xs \<and> ys = xs[i := x]"
  by (auto simp: update_go_def)

lemma index_go_ok [simp]: "i < length xs \<Longrightarrow> index_go xs i = Inr (xs ! i)"
  by (simp add: index_go_def)

lemma update_go_ok [simp]: "i < length xs \<Longrightarrow> update_go xs i x = Inr (xs[i := x])"
  by (simp add: update_go_def)

lemma traverse_Inr_iff:
  "traverse f xs = Inr ys \<longleftrightarrow> length ys = length xs \<and> (\<forall>i < length xs. f (xs ! i) = Inr (ys ! i))"
proof (induction xs arbitrary: ys)
  case (Cons x xs)
  show ?case
    by (cases ys) (auto simp: go_bind Cons.IH nth_Cons less_Suc_eq_0_disj)
qed auto

lemma traverse_pure: "(\<And>x. x \<in> set xs \<Longrightarrow> f x = Inr (g x)) \<Longrightarrow> traverse f xs = Inr (map g xs)"
  by (induction xs) auto

lemma foldR_pure: "(\<And>s x. x \<in> set xs \<Longrightarrow> f s x = Inr (g s x)) \<Longrightarrow> foldR f s xs = Inr (foldl g s xs)"
  by (induction xs arbitrary: s) auto

lemma foldR_append: "foldR f s (xs @ ys) = rbind (foldR f s xs) (\<lambda>s'. foldR f s' ys)"
proof (induction xs arbitrary: s)
  case (Cons x xs)
  then show ?case by (cases "f s x") auto
qed simp

section \<open>Lemmas on Go maps\<close>

lemma gomap_get_set [gomap_simps]: "map_of (AList.update k v m) k' = (if k' = k then Some v else map_of m k')"
  by (simp add: AList.update_conv')

lemma gomap_wf_Nil [simp]: "gomap_wf []"
  by (simp add: gomap_wf_def)

lemma gomap_wf_set [simp]: "gomap_wf m \<Longrightarrow> gomap_wf (AList.update k v m)"
  by (simp add: gomap_wf_def distinct_update)

lemma gomap_wf_in_iff: "gomap_wf m \<Longrightarrow> (k, v) \<in> set m \<longleftrightarrow> map_of m k = Some v"
  by (simp add: gomap_wf_def)

lemma gomap_get0_set [gomap_simps]: "gomap_get0 (AList.update k v m) k' = (if k' = k then v else gomap_get0 m k')"
  by (simp add: gomap_get0_def gomap_simps)

section \<open>Decimal numbers\<close>

lemma of_char_digit_char: "d < 10 \<Longrightarrow> (of_char (digit_char d) :: nat) = 48 + d"
  by (simp add: digit_char_def)

lemma is_digit_digit_char [simp]: "d < 10 \<Longrightarrow> is_digit (digit_char d)"
  by (simp add: is_digit_def of_char_digit_char)

lemma digit_val_digit_char [simp]: "d < 10 \<Longrightarrow> digit_val (digit_char d) = d"
  by (simp add: digit_val_def of_char_digit_char)

lemma show_nat_nonempty [simp]: "show_nat n \<noteq> []"
  by (subst show_nat.simps) simp

lemma show_nat_digits: "list_all is_digit (show_nat n)"
proof (induction n rule: show_nat.induct)
  case (1 n)
  then show ?case by (subst show_nat.simps) auto
qed

lemma digits_val_snoc [simp]: "digits_val (s @ [c]) = 10 * digits_val s + digit_val c"
  by (simp add: digits_val_def)

lemma digits_val_single [simp]: "digits_val [c] = digit_val c"
  by (simp add: digits_val_def)

lemma digits_val_show_nat [simp]: "digits_val (show_nat n) = n"
proof (induction n rule: show_nat.induct)
  case (1 n)
  show ?case
  proof (cases "n < 10")
    case True
    then show ?thesis by (subst show_nat.simps) simp
  next
    case False
    with 1 have "digits_val (show_nat (n div 10)) = n div 10" by simp
    with False show ?thesis by (subst show_nat.simps) simp
  qed
qed

lemma show_nat_inject [simp]: "show_nat m = show_nat n \<longleftrightarrow> m = n"
  by (metis digits_val_show_nat)

lemma atoi_show_nat: "n < 2 ^ 63 \<Longrightarrow> atoi_digits (show_nat n) = Some (int n)"
  by (simp add: atoi_digits_def show_nat_digits Let_def)

section \<open>Lists\<close>

lemma takeWhile_append_stop:
  "list_all P xs \<Longrightarrow> ys = [] \<or> \<not> P (hd ys) \<Longrightarrow> takeWhile P (xs @ ys) = xs"
  by (induction xs) (auto simp: takeWhile_eq_Nil_iff)

lemma dropWhile_append_stop:
  "list_all P xs \<Longrightarrow> ys = [] \<or> \<not> P (hd ys) \<Longrightarrow> dropWhile P (xs @ ys) = ys"
  by (induction xs) (auto simp: dropWhile_eq_self_iff)

lemma sum_list_update_diff:
  fixes f :: "'a \<Rightarrow> nat"
  assumes "i < length xs"
  shows "sum_list (map f (xs[i := x])) + f (xs ! i) = sum_list (map f xs) + f x"
  using assms
proof (induction xs arbitrary: i)
  case (Cons y ys)
  then show ?case by (cases i) auto
qed simp

end
