(* ===== verification/Vclock.thy ===== *)
theory Vclock
  imports Dinv_Prelude
begin

text \<open>
  The vector clocks of \<open>github.com/DistributedClocks/GoVector/govec/vclock\<close>, which the log
  merger imports and whose code is not part of the repository. The package is a parameter of
  the model: the record \<open>vclock_ops\<close> has one field per operation the sources call, and the
  locale \<open>vclock_api\<close> states the documented behaviour the log merger relies on. The type of
  clocks is a type parameter. The association-list clocks at the end satisfy the interface
  and are the instance the concrete evaluations use.

  The sources also range over a clock (it is a Go map from host ids to ticks); the field
  \<open>RangeIds\<close> is the list of its keys in the order the range visits them.
\<close>

section \<open>The operations of the package\<close>

datatype vcond = Equal | Ancestor | Descendant | Concurrent

record 'c vclock_ops =
  New :: 'c
  Copy :: "'c \<Rightarrow> 'c"
  Tick :: "'c \<Rightarrow> string \<Rightarrow> 'c"
  SetTicks :: "'c \<Rightarrow> string \<Rightarrow> u64 \<Rightarrow> 'c"
  FindTicks :: "'c \<Rightarrow> string \<Rightarrow> u64 \<times> bool"
  MergeClock :: "'c \<Rightarrow> 'c \<Rightarrow> 'c"
  Compare :: "'c \<Rightarrow> 'c \<Rightarrow> vcond \<Rightarrow> bool"
  ReturnVCString :: "'c \<Rightarrow> string"
  Bytes :: "'c \<Rightarrow> bytes"
  FromBytes :: "bytes \<Rightarrow> 'c \<times> bool"
  RangeIds :: "'c \<Rightarrow> string list"

abbreviation ticks :: "('c, 'm) vclock_ops_scheme \<Rightarrow> 'c \<Rightarrow> string \<Rightarrow> u64" where
  "ticks V c i \<equiv> fst (FindTicks V c i)"

abbreviation has_id :: "('c, 'm) vclock_ops_scheme \<Rightarrow> 'c \<Rightarrow> string \<Rightarrow> bool" where
  "has_id V c i \<equiv> snd (FindTicks V c i)"

text \<open>The printed form of a clock: \<open>{"h1":6, "h2":4}\<close>, ids in ascending order.\<close>

definition render_entry :: "string \<times> u64 \<Rightarrow> string" where
  "render_entry e = dquote # fst e @ dquote # CHR '':'' # show_nat (unat (snd e))"

fun render_entries :: "(string \<times> u64) list \<Rightarrow> string" where
  "render_entries [] = []"
| "render_entries [e] = render_entry e"
| "render_entries (e # es) = render_entry e @ '', '' @ render_entries es"

definition vc_render :: "(string \<times> u64) list \<Rightarrow> string" where
  "vc_render es = CHR ''{'' # render_entries es @ ''}''"

section \<open>The interface\<close>

text \<open>
  \<open>FindTicks\<close> reports the entry of an id and whether there is one; \<open>Tick\<close>, \<open>Set\<close> and
  \<open>Merge\<close> act on single entries (merging takes the larger one); \<open>Compare a b cond\<close> says
  whether \<open>b\<close> is equal to \<open>a\<close>, an ancestor, or a descendant of it; \<open>Bytes\<close> and
  \<open>FromBytes\<close> are inverse to each other, and decoding the empty buffer reports an error and
  leaves the fresh clock; the printed form lists the entries by id.
\<close>

locale vclock_api =
  fixes V :: "'c vclock_ops"
  assumes find_New: "FindTicks V (New V) i = (0, False)"
    and find_Copy: "FindTicks V (Copy V c) i = FindTicks V c i"
    and find_Tick: "FindTicks V (Tick V c i) j = (if j = i then (ticks V c i + 1, True) else FindTicks V c j)"
    and find_Set: "FindTicks V (SetTicks V c i t) j = (if j = i then (t, True) else FindTicks V c j)"
    and find_absent: "\<not> has_id V c i \<Longrightarrow> ticks V c i = 0"
    and find_Merge: "FindTicks V (MergeClock V c d) i = (max (ticks V c i) (ticks V d i), has_id V c i \<or> has_id V d i)"
    and compare_Equal: "Compare V c d Equal \<longleftrightarrow> (\<forall>i. FindTicks V c i = FindTicks V d i)"
    and compare_Ancestor:
      "Compare V c d Ancestor \<longleftrightarrow> (\<forall>i. ticks V d i \<le> ticks V c i) \<and> (\<exists>i. ticks V d i < ticks V c i)"
    and compare_Descendant:
      "Compare V c d Descendant \<longleftrightarrow> (\<forall>i. ticks V c i \<le> ticks V d i) \<and> (\<exists>i. ticks V c i < ticks V d i)"
    and vcstring: "ReturnVCString V c = vc_render (map (\<lambda>i. (i, ticks V c i)) (sort (RangeIds V c)))"
    and range_ids: "set (RangeIds V c) = {i. has_id V c i}"
    and range_distinct: "distinct (RangeIds V c)"
    and bytes_roundtrip: "\<exists>d. FromBytes V (Bytes V c) = (d, False) \<and> (\<forall>i. FindTicks V d i = FindTicks V c i)"
    and bytes_nil: "\<exists>d. FromBytes V [] = (d, True) \<and> (\<forall>i. FindTicks V d i = (0, False))"
begin

lemma has_id_Tick [simp]: "has_id V (Tick V c i) j \<longleftrightarrow> j = i \<or> has_id V c j"
  by (simp add: find_Tick)

lemma ticks_Tick: "ticks V (Tick V c i) j = (if j = i then ticks V c i + 1 else ticks V c j)"
  by (simp add: find_Tick)

lemma find_fold_Set:
  "FindTicks V (foldl (\<lambda>c e. SetTicks V c (fst e) (snd e)) c es) i =
     (case map_of (rev es) i of None \<Rightarrow> FindTicks V c i | Some t \<Rightarrow> (t, True))"
  by (induction es rule: rev_induct) (auto simp: find_Set split: option.splits)

lemma same_entries_same_string:
  assumes "\<And>i. FindTicks V c i = FindTicks V d i"
  shows "ReturnVCString V c = ReturnVCString V d"
proof -
  have "set (RangeIds V c) = set (RangeIds V d)"
    using assms by (simp add: range_ids)
  then have "mset (RangeIds V c) = mset (RangeIds V d)"
    by (simp add: range_distinct set_eq_iff_mset_eq_distinct)
  then have "sort (RangeIds V c) = sort (RangeIds V d)"
    by (simp add: properties_for_sort)
  with assms show ?thesis by (simp add: vcstring)
qed

end

section \<open>Clocks as association lists\<close>

definition alist_find :: "(string \<times> u64) list \<Rightarrow> string \<Rightarrow> u64 \<times> bool" where
  "alist_find c i = (case map_of c i of None \<Rightarrow> (0, False) | Some t \<Rightarrow> (t, True))"

definition alist_merge :: "(string \<times> u64) list \<Rightarrow> (string \<times> u64) list \<Rightarrow> (string \<times> u64) list" where
  "alist_merge c d = map (\<lambda>i. (i, max (fst (alist_find c i)) (fst (alist_find d i)))) (remdups (map fst (c @ d)))"

definition alist_le :: "(string \<times> u64) list \<Rightarrow> (string \<times> u64) list \<Rightarrow> bool" where
  "alist_le c d \<longleftrightarrow> list_all (\<lambda>i. fst (alist_find c i) \<le> fst (alist_find d i)) (map fst (c @ d))"

fun alist_compare :: "(string \<times> u64) list \<Rightarrow> (string \<times> u64) list \<Rightarrow> vcond \<Rightarrow> bool" where
  "alist_compare c d Equal = list_all (\<lambda>i. alist_find c i = alist_find d i) (map fst (c @ d))"
| "alist_compare c d Ancestor = (alist_le d c \<and> \<not> alist_le c d)"
| "alist_compare c d Descendant = (alist_le c d \<and> \<not> alist_le d c)"
| "alist_compare c d Concurrent = (\<not> alist_le c d \<and> \<not> alist_le d c)"

fun enc_string :: "string \<Rightarrow> bytes" where
  "enc_string [] = [0]"
| "enc_string (c # cs) = 1 # of_nat (of_char c) # enc_string cs"

fun dec_string :: "bytes \<Rightarrow> (string \<times> bytes) option" where
  "dec_string [] = None"
| "dec_string [b] = (if b = 0 then Some ([], []) else None)"
| "dec_string (b # c # bs) =
     (if b = 0 then Some ([], c # bs) else map_option (\<lambda>(s, r). (char_of (unat c) # s, r)) (dec_string bs))"

fun enc_entries :: "(string \<times> u64) list \<Rightarrow> bytes" where
  "enc_entries [] = [0]"
| "enc_entries ((i, t) # es) = 1 # enc_string i @ enc_string (show_nat (unat t)) @ enc_entries es"

fun dec_entries :: "nat \<Rightarrow> bytes \<Rightarrow> (string \<times> u64) list option" where
  "dec_entries 0 bs = None"
| "dec_entries (Suc n) [] = None"
| "dec_entries (Suc n) (b # bs) =
     (if b = 0 then Some []
      else (case dec_string bs of None \<Rightarrow> None
        | Some (i, r) \<Rightarrow> (case dec_string r of None \<Rightarrow> None
            | Some (t, r') \<Rightarrow> map_option (\<lambda>es. (i, of_nat (digits_val t)) # es) (dec_entries n r'))))"

definition alist_from_bytes :: "bytes \<Rightarrow> (string \<times> u64) list \<times> bool" where
  "alist_from_bytes bs = (case dec_entries (length bs) bs of None \<Rightarrow> ([], True) | Some c \<Rightarrow> (c, False))"

definition alist_clock :: "(string \<times> u64) list vclock_ops" where
  "alist_clock = \<lparr>
     New = [],
     Copy = (\<lambda>c. c),
     Tick = (\<lambda>c i. AList.update i (fst (alist_find c i) + 1) c),
     SetTicks = (\<lambda>c i t. AList.update i t c),
     FindTicks = alist_find,
     MergeClock = alist_merge,
     Compare = alist_compare,
     ReturnVCString = (\<lambda>c. vc_render (map (\<lambda>i. (i, fst (alist_find c i))) (sort (remdups (map fst c))))),
     Bytes = enc_entries,
     FromBytes = alist_from_bytes,
     RangeIds = (\<lambda>c. remdups (map fst c))\<rparr>"

lemma alist_FindTicks: "FindTicks alist_clock = alist_find"
  by (simp add: alist_clock_def)

lemma alist_find_update:
  "alist_find (AList.update i t c) j = (if j = i then (t, True) else alist_find c j)"
  by (simp add: alist_find_def gomap_simps)

lemma alist_find_notin: "i \<notin> fst ` set c \<Longrightarrow> alist_find c i = (0, False)"
  using map_of_eq_None_iff [of c i] by (simp add: alist_find_def)

lemma alist_find_in: "snd (alist_find c i) \<longleftrightarrow> i \<in> fst ` set c"
  using map_of_eq_None_iff [of c i] by (auto simp: alist_find_def split: option.splits)

lemma alist_find_merge:
  "alist_find (alist_merge c d) i =
     (max (fst (alist_find c i)) (fst (alist_find d i)), snd (alist_find c i) \<or> snd (alist_find d i))"
proof (cases "i \<in> fst ` set (c @ d)")
  case True
  let ?g = "\<lambda>j. max (fst (alist_find c j)) (fst (alist_find d j))"
  have "map_of (alist_merge c d) i = Some (?g i)"
    unfolding alist_merge_def by (rule map_of_eq_Some_iff [THEN iffD2]) (use True in \<open>auto simp: comp_def\<close>)
  with True show ?thesis by (auto simp: alist_find_def [of "alist_merge c d"] alist_find_in)
next
  case False
  then have "map_of (alist_merge c d) i = None"
    by (auto simp: alist_merge_def map_of_eq_None_iff image_iff)
  with False show ?thesis by (simp add: alist_find_def [of "alist_merge c d"] alist_find_notin image_Un)
qed

lemma alist_le_iff: "alist_le c d \<longleftrightarrow> (\<forall>i. fst (alist_find c i) \<le> fst (alist_find d i))"
proof -
  have "fst (alist_find c i) \<le> fst (alist_find d i)" if "i \<notin> fst ` set (c @ d)" for i
    using that by (simp add: alist_find_notin image_Un)
  then show ?thesis
    unfolding alist_le_def list_all_iff by (metis set_map)
qed

lemma alist_compare_Equal_iff: "alist_compare c d Equal \<longleftrightarrow> (\<forall>i. alist_find c i = alist_find d i)"
proof -
  have "alist_find c i = alist_find d i" if "i \<notin> fst ` set (c @ d)" for i
    using that by (simp add: alist_find_notin image_Un)
  then show ?thesis
    unfolding alist_compare.simps list_all_iff by (metis set_map)
qed

lemma dec_enc_string: "dec_string (enc_string s @ bs) = Some (s, bs)"
proof (induction s)
  case Nil
  show ?case by (cases bs) simp_all
next
  case (Cons c cs)
  moreover have "unat (of_nat (of_char c) :: 8 word) = of_char c"
    by (simp add: unat_of_nat take_bit_eq_mod)
  ultimately show ?case by simp
qed

lemma dec_enc_entries: "length es < n \<Longrightarrow> dec_entries n (enc_entries es @ bs) = Some es"
proof (induction es arbitrary: n)
  case Nil
  then show ?case by (cases n) simp_all
next
  case (Cons e es)
  then obtain m where "n = Suc m" "length es < m" by (cases n) auto
  with Cons.IH [of m] show ?case by (cases e) (simp add: dec_enc_string)
qed

lemma length_enc_entries: "length es < length (enc_entries es)"
  by (induction es rule: enc_entries.induct) auto

lemma alist_bytes: "alist_from_bytes (enc_entries c) = (c, False)"
  using dec_enc_entries [OF length_enc_entries, of c "[]"] by (simp add: alist_from_bytes_def)

lemma alist_find_absent: "\<not> snd (alist_find c i) \<Longrightarrow> fst (alist_find c i) = 0"
  by (simp add: alist_find_def split: option.splits)

lemma alist_from_bytes_Nil: "alist_from_bytes [] = ([], True)"
  by (simp add: alist_from_bytes_def)

lemma alist_find_Nil: "alist_find [] i = (0, False)"
  by (simp add: alist_find_def)

interpretation alist: vclock_api alist_clock
proof
  fix c d :: "(string \<times> u64) list"
  show "Compare alist_clock c d Equal \<longleftrightarrow> (\<forall>i. FindTicks alist_clock c i = FindTicks alist_clock d i)"
    using alist_compare_Equal_iff by (simp add: alist_clock_def)
  show "Compare alist_clock c d Ancestor \<longleftrightarrow>
      (\<forall>i. ticks alist_clock d i \<le> ticks alist_clock c i) \<and> (\<exists>i. ticks alist_clock d i < ticks alist_clock c i)"
    by (simp add: alist_clock_def alist_le_iff not_le)
  show "Compare alist_clock c d Descendant \<longleftrightarrow>
      (\<forall>i. ticks alist_clock c i \<le> ticks alist_clock d i) \<and> (\<exists>i. ticks alist_clock c i < ticks alist_clock d i)"
    by (simp add: alist_clock_def alist_le_iff not_le)
  show "set (RangeIds alist_clock c) = {i. has_id alist_clock c i}"
    by (auto simp: alist_clock_def alist_find_in)
qed (simp_all add: alist_clock_def alist_find_update alist_find_merge alist_bytes
     alist_find_absent alist_from_bytes_Nil alist_find_Nil)

text \<open>
  A run of two hosts for the concrete instances: host \<open>a\<close> has two events, host \<open>b\<close> has two, and
  the second event of \<open>b\<close> receives a message \<open>a\<close> sent at its second event.
\<close>

definition ping_clocks :: "(string \<times> u64) list list list" where
  "ping_clocks = [[[(''a'', 1)], [(''a'', 2)]], [[(''b'', 1)], [(''a'', 2), (''b'', 2)]]]"

end
