(* ===== verification/Clock_Utils.thy ===== *)
theory Clock_Utils
  imports Vclock
begin

text \<open>
  The functions of \<open>logmerger/utils.go\<close> that work on logs of vector clocks: the owner of a log
  (\<open>getClockId\<close>, \<open>idClockMapper\<close>), binary search in a log (\<open>searchClockById\<close>), matching a send
  with its receive (\<open>matchSendAndReceive\<close>), the map view of the logs (\<open>clocksToMaps\<close>,
  \<open>fastSearchClockById\<close>), \<open>sumTime\<close>, and building a clock from ids and ticks or from its printed
  form (\<open>ConstructVclock\<close>, \<open>ClockFromString\<close>).
\<close>

section \<open>Definitions\<close>

subsection \<open>Owner of a log\<close>

text \<open>The character class \<open>HOSTNAMEREGEXP\<close>, \<open>A-Za-z0-9_:.\<close>.\<close>

definition is_hostchar :: "char \<Rightarrow> bool" where
  "is_hostchar c \<longleftrightarrow>
     (let n = (of_char c :: nat)
      in (65 \<le> n \<and> n \<le> 90) \<or> (97 \<le> n \<and> n \<le> 122) \<or> (48 \<le> n \<and> n \<le> 57) \<or> n = 95 \<or> n = 58 \<or> n = 46)"

text \<open>
  \<open>FindStringSubmatch\<close> for the expression \<open>{"([HOSTNAMEREGEXP]+)"\<close>: the match at one position
  and the leftmost match. The class does not contain the closing quote, so the greedy run of
  host characters is the only candidate at a position.
\<close>

fun match_id_at :: "string \<Rightarrow> string option" where
  "match_id_at (a # b # s) =
     (let h = takeWhile is_hostchar s; r = dropWhile is_hostchar s
      in if a = CHR ''{'' \<and> b = dquote \<and> h \<noteq> [] \<and> r \<noteq> [] \<and> hd r = dquote then Some h else None)"
| "match_id_at _ = None"

fun find_id :: "string \<Rightarrow> string option" where
  "find_id [] = None"
| "find_id (c # s) = (case match_id_at (c # s) of Some h \<Rightarrow> Some h | None \<Rightarrow> find_id s)"

definition getClockId :: "'c vclock_ops \<Rightarrow> 'c list \<Rightarrow> string go" where
  "getClockId V clocks =
     (case clocks of
        [] \<Rightarrow> Inr ''anon''
      | clock # _ \<Rightarrow>
          (case find_id (ReturnVCString V clock) of
             None \<Rightarrow> Inl IndexOutOfRange
           | Some h \<Rightarrow> Inr h))"

definition idClockMapper :: "'c vclock_ops \<Rightarrow> 'c list list \<Rightarrow> string list go" where
  "idClockMapper V clocks = traverse (getClockId V) clocks"

definition getClockIds :: "'c vclock_ops \<Rightarrow> 'c \<Rightarrow> string list" where
  "getClockIds V clock = RangeIds V clock"

subsection \<open>Binary search\<close>

text \<open>
  The loop of \<open>searchClockById\<close> and \<open>searchLogForClock\<close>: \<open>f m\<close> is the tick found at index \<open>m\<close>,
  \<open>b\<close> the tick searched for, \<open>lo\<close>, \<open>hi\<close> and \<open>mid\<close> the loop variables \<open>min\<close>, \<open>max\<close>, \<open>mid\<close>.
\<close>

function search_loop :: "(nat \<Rightarrow> u64) \<Rightarrow> u64 \<Rightarrow> int \<Rightarrow> int \<Rightarrow> int \<Rightarrow> bool \<times> nat" where
  "search_loop f b lo hi mid =
     (if hi \<ge> lo then
        let m = lo + (hi - lo) div 2; a = f (nat m)
        in if a = b then (True, nat m)
           else if a < b then search_loop f b (m + 1) hi m
           else search_loop f b lo (m - 1) m
      else (False, nat mid))"
  by pat_completeness auto
termination
  by (relation "measure (\<lambda>(f, b, lo, hi, mid). nat (hi - lo + 1))") auto

declare search_loop.simps [simp del]

definition searchClockById :: "'c vclock_ops \<Rightarrow> 'c list \<Rightarrow> 'c \<Rightarrow> string \<Rightarrow> bool \<times> nat" where
  "searchClockById V clocks keyClock i =
     search_loop (\<lambda>m. ticks V (clocks ! m) i) (ticks V keyClock i) 0 (int (length clocks) - 1) 0"

subsection \<open>Matching sends and receives\<close>

text \<open>The backtracking loop: the earliest index with the same tick in an unbroken run.\<close>

fun backtrack :: "(nat \<Rightarrow> u64) \<Rightarrow> nat \<Rightarrow> nat" where
  "backtrack f 0 = 0"
| "backtrack f (Suc e) = (if f (Suc e) = f e then backtrack f e else Suc e)"

text \<open>
  The state of the loop over the hosts is the clock of the best receive so far and its
  position; \<open>None\<close> stands for the initial \<open>receiver, receiverEvent, matched = -1, -1, false\<close>.
\<close>

definition match_step ::
  "'c vclock_ops \<Rightarrow> 'c \<Rightarrow> 'c list list \<Rightarrow> string \<Rightarrow> 'c \<times> (nat \<times> nat) option \<Rightarrow> nat
     \<Rightarrow> ('c \<times> (nat \<times> nat) option) go" where
  "match_step V sender clocks senderId st i =
     rbind (getClockId V (clocks ! i)) (\<lambda>cid.
       if cid \<noteq> senderId then
         let (found, event) = searchClockById V (clocks ! i) sender senderId
         in if found then
              let event = backtrack (\<lambda>e. ticks V (clocks ! i ! e) senderId) event
              in if snd st = None \<or> Compare V (fst st) (clocks ! i ! event) Ancestor
                 then Inr (Copy V (clocks ! i ! event), Some (i, event))
                 else Inr st
            else Inr st
       else Inr st)"

definition matchSendAndReceive ::
  "'c vclock_ops \<Rightarrow> 'c \<Rightarrow> 'c list list \<Rightarrow> string \<Rightarrow> (nat \<times> nat) option go" where
  "matchSendAndReceive V sender clocks senderId =
     rbind (foldR (match_step V sender clocks senderId) (New V, None) [0..<length clocks])
       (\<lambda>st. Inr (snd st))"

subsection \<open>Logs as maps\<close>

type_synonym clock_maps = "(string, (u64, (string, u64) gomap) gomap) gomap"

definition log_entry_map :: "'c vclock_ops \<Rightarrow> string list \<Rightarrow> 'c \<Rightarrow> (string, u64) gomap" where
  "log_entry_map V ids clock =
     foldl (\<lambda>m cid. if has_id V clock cid then gomap_set cid (ticks V clock cid) m else m) [] ids"

definition log_map :: "'c vclock_ops \<Rightarrow> string list \<Rightarrow> string \<Rightarrow> 'c list \<Rightarrow> (u64, (string, u64) gomap) gomap" where
  "log_map V ids i clocks =
     foldl (\<lambda>m clock. if has_id V clock i then gomap_set (ticks V clock i) (log_entry_map V ids clock) m else m)
       [] clocks"

definition clocksToMaps :: "'c vclock_ops \<Rightarrow> 'c list list \<Rightarrow> clock_maps go" where
  "clocksToMaps V clocks =
     rbind (idClockMapper V clocks) (\<lambda>ids.
       Inr (foldl (\<lambda>m (i, cs). gomap_set i (log_map V ids i cs) m) [] (zip ids clocks)))"

definition fastSearchClockById ::
  "'c vclock_ops \<Rightarrow> clock_maps \<Rightarrow> 'c \<Rightarrow> string \<Rightarrow> (string, u64) gomap option" where
  "fastSearchClockById V mClocks point i =
     (let clockValue = ticks V point i; found = has_id V point i
      in case (case gomap_get mClocks i of None \<Rightarrow> None | Some m \<Rightarrow> gomap_get m clockValue) of
           None \<Rightarrow> None
         | Some clock \<Rightarrow>
             if \<not> found then None
             else if gomap_get0 clock i \<noteq> clockValue then None
             else Some clock)"

subsection \<open>The number of lattice levels\<close>

definition max_step :: "'c vclock_ops \<Rightarrow> 'c \<Rightarrow> (string, u64) gomap \<Rightarrow> string \<Rightarrow> (string, u64) gomap" where
  "max_step V lst m i = (if ticks V lst i > gomap_get0 m i then gomap_set i (ticks V lst i) m else m)"

definition sumTime :: "'c vclock_ops \<Rightarrow> 'c list list \<Rightarrow> u64 go" where
  "sumTime V clockSet =
     rbind (idClockMapper V clockSet) (\<lambda>ids.
     rbind (foldR (\<lambda>m clocks.
              if clocks = [] then Inl IndexOutOfRange
              else Inr (foldl (max_step V (last clocks)) m ids)) [] clockSet) (\<lambda>maxMap.
       Inr (sum_list (map snd maxMap))))"

subsection \<open>Building and parsing clocks\<close>

text \<open>The result \<open>None\<close> of \<open>ConstructVclock\<close> is the nil clock.\<close>

fun construct_loop :: "'c vclock_ops \<Rightarrow> 'c \<Rightarrow> string list \<Rightarrow> int list \<Rightarrow> 'c option" where
  "construct_loop V clock (i # ids) (t # ts) =
     (if t < 0 then None else construct_loop V (SetTicks V clock i (of_int t)) ids ts)"
| "construct_loop V clock _ _ = Some clock"

definition ConstructVclock :: "'c vclock_ops \<Rightarrow> string list \<Rightarrow> int list \<Rightarrow> 'c option" where
  "ConstructVclock V ids ts =
     (if length ids \<noteq> length ts then None else construct_loop V (New V) ids ts)"

text \<open>
  \<open>FindAllStringSubmatch\<close> for \<open>"([HOSTNAMEREGEXP]+)":([0-9]+)\<close>: the match at one position with
  the unread rest, and all matches from left to right without overlap.
\<close>

definition match_entry_at :: "string \<Rightarrow> (string \<times> string \<times> string) option" where
  "match_entry_at s =
     (case s of
        [] \<Rightarrow> None
      | q # s1 \<Rightarrow>
          (let h = takeWhile is_hostchar s1; r = dropWhile is_hostchar s1
           in if q = dquote \<and> h \<noteq> [] then
                (case r of
                   a # b # r2 \<Rightarrow>
                     (let d = takeWhile is_digit r2
                      in if a = dquote \<and> b = CHR '':'' \<and> d \<noteq> [] then Some (h, d, dropWhile is_digit r2)
                         else None)
                 | _ \<Rightarrow> None)
              else None))"

lemma match_entry_at_rest: "match_entry_at s = Some (h, d, r) \<Longrightarrow> length r < length s"
proof -
  assume "match_entry_at s = Some (h, d, r)"
  then obtain q s1 a b r2 where s: "s = q # s1" "dropWhile is_hostchar s1 = a # b # r2"
    and r: "r = dropWhile is_digit r2"
    by (auto simp: match_entry_at_def Let_def split: list.splits if_splits)
  have "length (a # b # r2) \<le> length s1"
    using length_dropWhile_le [of is_hostchar s1] s(2) by simp
  moreover have "length r \<le> length r2" by (simp add: r length_dropWhile_le)
  ultimately show ?thesis using s(1) by simp
qed

function find_entries :: "string \<Rightarrow> (string \<times> string) list" where
  "find_entries [] = []"
| "find_entries (c # s) =
     (case match_entry_at (c # s) of
        None \<Rightarrow> find_entries s
      | Some (h, d, r) \<Rightarrow> (h, d) # find_entries r)"
  by pat_completeness auto
termination
  by (relation "measure length") (auto dest: match_entry_at_rest)

fun parse_matches :: "(string \<times> string) list \<Rightarrow> (string list \<times> int list) option" where
  "parse_matches [] = Some ([], [])"
| "parse_matches ((h, d) # ms) =
     (case atoi_digits d of
        None \<Rightarrow> None
      | Some t \<Rightarrow> map_option (\<lambda>(ids, ts). (h # ids, t # ts)) (parse_matches ms))"

text \<open>
  \<open>ClockFromString\<close> with the expression every caller passes; \<open>None\<close> is the nil clock with an
  error (a number out of range, or no clock constructed).
\<close>

definition ClockFromString :: "'c vclock_ops \<Rightarrow> string \<Rightarrow> 'c option" where
  "ClockFromString V clock =
     (case parse_matches (find_entries clock) of
        None \<Rightarrow> None
      | Some (ids, ts) \<Rightarrow> ConstructVclock V ids ts)"

section \<open>Binary search\<close>

lemma search_loop_bounds:
  assumes "0 \<le> lo" and "lo \<le> hi + 1" and "hi < int n" and "mid = 0 \<or> 0 \<le> mid \<and> mid < int n" and "0 < n"
  shows "snd (search_loop f b lo hi mid) < n"
  using assms
proof (induction f b lo hi mid rule: search_loop.induct)
  case (1 f b lo hi mid)
  show ?case
  proof (cases "lo \<le> hi")
    case True
    define m where "m = lo + (hi - lo) div 2"
    have m: "lo \<le> m" "m \<le> hi" using True by (auto simp: m_def)
    have "snd (search_loop f b (m + 1) hi m) < n" if "f (nat m) < b"
      using "1.IH"(1) [OF True m_def refl] "1.prems" m that by auto
    moreover have "snd (search_loop f b lo (m - 1) m) < n" if "\<not> f (nat m) \<le> b"
      using "1.IH"(2) [OF True m_def refl] "1.prems" m that by auto
    ultimately show ?thesis
      using True m "1.prems" by (subst search_loop.simps) (auto simp: Let_def m_def [symmetric])
  next
    case False
    with "1.prems" show ?thesis by (subst search_loop.simps) auto
  qed
qed

lemma search_loop_sound:
  assumes "search_loop f b lo hi mid = (True, m)" and "0 \<le> lo"
  shows "lo \<le> int m \<and> int m \<le> hi \<and> f m = b"
  using assms
proof (induction f b lo hi mid rule: search_loop.induct)
  case (1 f b lo hi mid)
  define k where "k = lo + (hi - lo) div 2"
  show ?case
  proof (cases "lo \<le> hi")
    case True
    then have k: "lo \<le> k" "k \<le> hi" by (auto simp: k_def)
    have "search_loop f b lo hi mid = (if f (nat k) = b then (True, nat k)
        else if f (nat k) < b then search_loop f b (k + 1) hi k else search_loop f b lo (k - 1) k)"
      using True by (subst search_loop.simps) (simp only: Let_def k_def if_True)
    with "1.prems"(1) consider "f (nat k) = b" "m = nat k"
      | "f (nat k) \<noteq> b" "f (nat k) < b" "search_loop f b (k + 1) hi k = (True, m)"
      | "f (nat k) \<noteq> b" "\<not> f (nat k) < b" "search_loop f b lo (k - 1) k = (True, m)"
      by (auto split: if_splits)
    then show ?thesis
    proof cases
      case 1
      with k \<open>0 \<le> lo\<close> show ?thesis by simp
    next
      case 2
      from "1.IH"(1) [OF True k_def refl] 2 k \<open>0 \<le> lo\<close> show ?thesis by auto
    next
      case 3
      from "1.IH"(2) [OF True k_def refl] 3 k \<open>0 \<le> lo\<close> show ?thesis by auto
    qed
  next
    case False
    with "1.prems" show ?thesis by (subst (asm) search_loop.simps) simp
  qed
qed

lemma search_loop_complete:
  assumes "\<And>i j. lo \<le> int i \<Longrightarrow> i \<le> j \<Longrightarrow> int j \<le> hi \<Longrightarrow> f i \<le> f j"
    and "0 \<le> lo" and "lo \<le> int j" and "int j \<le> hi" and "f j = b"
  shows "fst (search_loop f b lo hi mid)"
  using assms
proof (induction f b lo hi mid rule: search_loop.induct)
  case (1 f b lo hi mid)
  define m where "m = lo + (hi - lo) div 2"
  have le: "lo \<le> hi" using "1.prems" by simp
  have m: "lo \<le> m" "m \<le> hi" "0 \<le> m" using le \<open>0 \<le> lo\<close> by (auto simp: m_def)
  have "fst (search_loop f b (m + 1) hi m)" if lt: "f (nat m) < b"
  proof -
    have "\<not> j \<le> nat m" using "1.prems"(1) [of j "nat m"] lt \<open>f j = b\<close> m \<open>lo \<le> int j\<close> by auto
    then show ?thesis
      using lt m "1.prems" by (intro "1.IH"(1) [OF le m_def refl]) auto
  qed
  moreover have "fst (search_loop f b lo (m - 1) m)" if gt: "f (nat m) \<noteq> b" "\<not> f (nat m) < b"
  proof -
    have "\<not> nat m \<le> j" using "1.prems"(1) [of "nat m" j] gt \<open>f j = b\<close> m \<open>int j \<le> hi\<close> by auto
    then show ?thesis
      using gt m "1.prems" by (intro "1.IH"(2) [OF le m_def refl]) auto
  qed
  ultimately show ?case
    using le by (subst search_loop.simps) (simp add: Let_def m_def)
qed

text \<open>
  What the clients of a search in a log rely on: a hit is an entry with the tick searched for,
  and in a log ordered by the host's ticks no existing entry is missed.
\<close>

locale clock_search =
  fixes size_of :: "'l \<Rightarrow> nat"
    and tick_at :: "'l \<Rightarrow> nat \<Rightarrow> u64"
    and search :: "'l \<Rightarrow> u64 \<Rightarrow> bool \<times> nat"
  assumes search_hit: "search l b = (True, m) \<Longrightarrow> m < size_of l \<and> tick_at l m = b"
    and search_miss:
      "search l b = (False, m) \<Longrightarrow> (\<And>i j. i \<le> j \<Longrightarrow> j < size_of l \<Longrightarrow> tick_at l i \<le> tick_at l j) \<Longrightarrow>
       k < size_of l \<Longrightarrow> tick_at l k \<noteq> b"
    and search_index: "0 < size_of l \<Longrightarrow> snd (search l b) < size_of l"
begin

lemma found_iff:
  assumes "\<And>i j. i \<le> j \<Longrightarrow> j < size_of l \<Longrightarrow> tick_at l i \<le> tick_at l j"
  shows "fst (search l b) \<longleftrightarrow> (\<exists>k < size_of l. tick_at l k = b)"
  using search_hit [of l b "snd (search l b)"] search_miss [of l b "snd (search l b)"] assms
  by (metis prod.collapse)

lemma found_unique:
  assumes "\<And>i j. i < j \<Longrightarrow> j < size_of l \<Longrightarrow> tick_at l i < tick_at l j" and "k < size_of l"
  shows "search l (tick_at l k) = (True, k)"
proof -
  have mono: "tick_at l i \<le> tick_at l j" if "i \<le> j" "j < size_of l" for i j
    using assms(1) [of i j] that by (cases "i = j") (auto intro: less_imp_le)
  then have "fst (search l (tick_at l k))" using found_iff assms(2) by blast
  then obtain m where m: "search l (tick_at l k) = (True, m)" by (metis prod.collapse)
  then have "m < size_of l" "tick_at l m = tick_at l k" using search_hit by blast+
  with assms have "m = k" by (metis less_irrefl linorder_neqE_nat)
  with m show ?thesis by simp
qed

end

definition search_log :: "'c vclock_ops \<Rightarrow> 'c list \<times> string \<Rightarrow> u64 \<Rightarrow> bool \<times> nat" where
  "search_log V l b = search_loop (\<lambda>m. ticks V (fst l ! m) (snd l)) b 0 (int (length (fst l)) - 1) 0"

lemma searchClockById_eq: "searchClockById V clocks key i = search_log V (clocks, i) (ticks V key i)"
  by (simp add: searchClockById_def search_log_def)

interpretation by_clock: clock_search "\<lambda>l. length (fst l)" "\<lambda>l m. ticks V (fst l ! m) (snd l)" "search_log V"
  for V
proof
  fix l :: "'a list \<times> string" and b m
  assume "search_log V l b = (True, m)"
  then show "m < length (fst l) \<and> ticks V (fst l ! m) (snd l) = b"
    using search_loop_sound [of _ b 0 "int (length (fst l)) - 1" 0 m] by (auto simp: search_log_def)
next
  fix l :: "'a list \<times> string" and b m k
  assume "search_log V l b = (False, m)" and "k < length (fst l)"
    and "\<And>i j. i \<le> j \<Longrightarrow> j < length (fst l) \<Longrightarrow> ticks V (fst l ! i) (snd l) \<le> ticks V (fst l ! j) (snd l)"
  then show "ticks V (fst l ! k) (snd l) \<noteq> b"
    using search_loop_complete [of 0 "int (length (fst l)) - 1" "\<lambda>m. ticks V (fst l ! m) (snd l)" k b 0]
    by (auto simp: search_log_def)
next
  fix l :: "'a list \<times> string" and b
  assume "0 < length (fst l)"
  then show "snd (search_log V l b) < length (fst l)"
    by (auto simp: search_log_def intro: search_loop_bounds)
qed

lemma searchClockById_spec:
  assumes "\<And>i j. i \<le> j \<Longrightarrow> j < length clocks \<Longrightarrow> ticks V (clocks ! i) h \<le> ticks V (clocks ! j) h"
  shows "(fst (searchClockById V clocks key h) \<longleftrightarrow> (\<exists>k < length clocks. ticks V (clocks ! k) h = ticks V key h))
    \<and> (fst (searchClockById V clocks key h) \<longrightarrow>
        snd (searchClockById V clocks key h) < length clocks \<and>
        ticks V (clocks ! snd (searchClockById V clocks key h)) h = ticks V key h)"
proof -
  have "fst (search_log V (clocks, h) (ticks V key h)) \<longleftrightarrow> (\<exists>k < length clocks. ticks V (clocks ! k) h = ticks V key h)"
    using by_clock.found_iff [of "(clocks, h)" V] assms by simp
  moreover have "snd (search_log V (clocks, h) (ticks V key h)) < length clocks \<and>
      ticks V (clocks ! snd (search_log V (clocks, h) (ticks V key h))) h = ticks V key h"
    if "fst (search_log V (clocks, h) (ticks V key h))"
    using by_clock.search_hit [of V "(clocks, h)" "ticks V key h" "snd (search_log V (clocks, h) (ticks V key h))"]
      that by (simp add: prod_eq_iff)
  ultimately show ?thesis by (simp only: searchClockById_eq) blast
qed

text \<open>
  C12: \<open>searchClockById\<close> on a log in ascending order of the host's ticks finds an entry exactly when
  one has the tick of the key clock, and the index it returns is that of such an entry.
\<close>

theorem searchClockById_correct:
  assumes "sorted (map (\<lambda>c. ticks V c h) clocks)"
  shows "(fst (searchClockById V clocks key h) \<longleftrightarrow> (\<exists>k < length clocks. ticks V (clocks ! k) h = ticks V key h))
    \<and> (fst (searchClockById V clocks key h) \<longrightarrow>
        snd (searchClockById V clocks key h) < length clocks \<and>
        ticks V (clocks ! snd (searchClockById V clocks key h)) h = ticks V key h)"
proof (rule searchClockById_spec)
  fix i j
  assume "i \<le> j" "j < length clocks"
  then show "ticks V (clocks ! i) h \<le> ticks V (clocks ! j) h"
    using sorted_nth_mono [OF assms, of i j] by simp
qed

theorem searchClockById_correct_witness:
  "fst (searchClockById alist_clock (ping_clocks ! 0) [(''a'', 2)] ''a'')
    \<and> ticks alist_clock (ping_clocks ! 0 ! snd (searchClockById alist_clock (ping_clocks ! 0) [(''a'', 2)] ''a'')) ''a'' = 2"
proof -
  have s: "sorted (map (\<lambda>c. ticks alist_clock c ''a'') (ping_clocks ! 0))" by code_simp
  have "\<exists>k < length (ping_clocks ! 0). ticks alist_clock (ping_clocks ! 0 ! k) ''a'' = ticks alist_clock [(''a'', 2)] ''a''"
    by (rule exI [of _ 1]) code_simp
  with searchClockById_correct [OF s] show ?thesis by (simp add: alist_clock_def alist_find_def)
qed

section \<open>Printed clocks\<close>

definition hostname :: "string \<Rightarrow> bool" where
  "hostname h \<longleftrightarrow> h \<noteq> [] \<and> list_all is_hostchar h"

lemma special_chars [simp]:
  "\<not> is_hostchar dquote" "\<not> is_digit (CHR '','')" "\<not> is_digit (CHR ''}'')"
  by (simp_all add: is_hostchar_def is_digit_def)

lemma match_entry_at_render:
  assumes "hostname (fst e)" and "r = [] \<or> \<not> is_digit (hd r)"
  shows "match_entry_at (render_entry e @ r) = Some (fst e, show_nat (unat (snd e)), r)"
proof -
  let ?tl = "dquote # CHR '':'' # show_nat (unat (snd e)) @ r"
  have h: "takeWhile is_hostchar (fst e @ ?tl) = fst e" "dropWhile is_hostchar (fst e @ ?tl) = ?tl"
    using assms(1) by (auto simp: hostname_def intro!: takeWhile_append_stop dropWhile_append_stop)
  have d: "takeWhile is_digit (show_nat (unat (snd e)) @ r) = show_nat (unat (snd e))"
    "dropWhile is_digit (show_nat (unat (snd e)) @ r) = r"
    using assms(2) show_nat_digits by (auto intro!: takeWhile_append_stop dropWhile_append_stop)
  show ?thesis
    using assms(1) by (simp add: match_entry_at_def render_entry_def hostname_def Let_def h d)
qed

declare find_entries.simps(2) [simp del]

lemma match_entry_at_other: "c \<noteq> dquote \<Longrightarrow> match_entry_at (c # s) = None"
  by (simp add: match_entry_at_def Let_def)

lemma find_entries_other: "c \<noteq> dquote \<Longrightarrow> find_entries (c # s) = find_entries s"
  by (simp add: match_entry_at_other find_entries.simps(2))

lemma find_entries_entry:
  assumes "hostname (fst e)" and "r = [] \<or> \<not> is_digit (hd r)"
  shows "find_entries (render_entry e @ r) = (fst e, show_nat (unat (snd e))) # find_entries r"
proof -
  obtain s where "render_entry e @ r = dquote # s" by (auto simp: render_entry_def)
  with match_entry_at_render [OF assms] show ?thesis by (simp add: find_entries.simps(2))
qed

lemma find_entries_render:
  "(\<And>e. e \<in> set es \<Longrightarrow> hostname (fst e)) \<Longrightarrow>
   find_entries (render_entries es @ ''}'') = map (\<lambda>e. (fst e, show_nat (unat (snd e)))) es"
proof (induction es rule: render_entries.induct)
  case (2 e)
  then show ?case by (simp add: find_entries_entry find_entries_other)
next
  case (3 e e' es)
  then show ?case
    by (simp add: find_entries_entry find_entries_other)
qed (simp add: find_entries_other)

lemma parse_matches_shown:
  "(\<And>e. e \<in> set es \<Longrightarrow> unat (snd e) < 2 ^ 63) \<Longrightarrow>
   parse_matches (map (\<lambda>e. (fst e, show_nat (unat (snd e)))) es) =
     Some (map fst es, map (\<lambda>e. int (unat (snd e))) es)"
  by (induction es) (auto simp: atoi_show_nat)

lemma construct_loop_nonneg:
  "length ids = length ts \<Longrightarrow> list_all (\<lambda>t. 0 \<le> t) ts \<Longrightarrow>
   construct_loop V c ids ts = Some (foldl (\<lambda>c e. SetTicks V c (fst e) (snd e)) c (zip ids (map of_int ts)))"
  by (induction V c ids ts rule: construct_loop.induct) auto

lemma construct_loop_neg:
  "length ids = length ts \<Longrightarrow> \<not> list_all (\<lambda>t. 0 \<le> t) ts \<Longrightarrow> construct_loop V c ids ts = None"
  by (induction V c ids ts rule: construct_loop.induct) auto

context vclock_api
begin

abbreviation entries_of :: "'c \<Rightarrow> (string \<times> u64) list" where
  "entries_of c \<equiv> map (\<lambda>i. (i, ticks V c i)) (sort (RangeIds V c))"

lemma map_of_rev_entries: "map_of (rev (entries_of c)) i = (if has_id V c i then Some (ticks V c i) else None)"
proof -
  have "distinct (map fst (entries_of c))" by (simp add: comp_def range_distinct)
  then have "map_of (rev (entries_of c)) = map_of (entries_of c)"
    by (subst map_of_inject_set) (simp_all add: rev_map [symmetric])
  then show ?thesis by (simp add: map_of_map_restrict range_ids)
qed

lemma ConstructVclock_entries:
  "length ids = length ts \<Longrightarrow> list_all (\<lambda>t. 0 \<le> t) ts \<Longrightarrow>
   \<exists>d. ConstructVclock V ids ts = Some d \<and>
     (\<forall>i. FindTicks V d i = (case map_of (rev (zip ids (map of_int ts))) i of None \<Rightarrow> (0, False) | Some t \<Rightarrow> (t, True)))"
  by (simp add: ConstructVclock_def construct_loop_nonneg find_fold_Set find_New split: option.split)

lemma find_entries_vcstring:
  assumes "\<And>i. has_id V c i \<Longrightarrow> hostname i"
  shows "find_entries (ReturnVCString V c) = map (\<lambda>e. (fst e, show_nat (unat (snd e)))) (entries_of c)"
proof -
  have "hostname (fst e)" if "e \<in> set (entries_of c)" for e
    using that assms by (auto simp: range_ids)
  then have "find_entries (render_entries (entries_of c) @ ''}'') =
      map (\<lambda>e. (fst e, show_nat (unat (snd e)))) (entries_of c)"
    by (rule find_entries_render)
  then show ?thesis unfolding vcstring vc_render_def by (simp add: find_entries_other)
qed

lemma same_string_same_entries:
  assumes "\<And>i. has_id V c i \<Longrightarrow> hostname i" and "\<And>i. has_id V d i \<Longrightarrow> hostname i"
    and "ReturnVCString V c = ReturnVCString V d"
  shows "FindTicks V c i = FindTicks V d i"
proof -
  have "map (\<lambda>e. (fst e, show_nat (unat (snd e)))) (entries_of c) =
      map (\<lambda>e. (fst e, show_nat (unat (snd e)))) (entries_of d)"
    using find_entries_vcstring [of c] find_entries_vcstring [of d] assms by simp
  then have "entries_of c = entries_of d"
    by (rule map_inj_on) (auto simp: inj_on_def word_unat_eq_iff)
  then have "map_of (rev (entries_of c)) i = map_of (rev (entries_of d)) i" by (simp only:)
  then have "(if has_id V c i then Some (ticks V c i) else None) = (if has_id V d i then Some (ticks V d i) else None)"
    by (simp only: map_of_rev_entries)
  then show ?thesis
    using find_absent [of c i] find_absent [of d i] by (auto simp: prod_eq_iff split: if_splits)
qed

lemma clock_from_string_roundtrip:
  assumes "\<And>i. has_id V c i \<Longrightarrow> hostname i" and "\<And>i. unat (ticks V c i) < 2 ^ 63"
  shows "\<exists>d. ClockFromString V (ReturnVCString V c) = Some d \<and> (\<forall>i. FindTicks V d i = FindTicks V c i)"
proof -
  let ?es = "entries_of c"
  have "unat (snd e) < 2 ^ 63" if "e \<in> set ?es" for e using that assms(2) by auto
  then have "parse_matches (map (\<lambda>e. (fst e, show_nat (unat (snd e)))) ?es) =
      Some (map fst ?es, map (\<lambda>e. int (unat (snd e))) ?es)"
    by (rule parse_matches_shown)
  moreover have "find_entries (ReturnVCString V c) = map (\<lambda>e. (fst e, show_nat (unat (snd e)))) ?es"
    by (rule find_entries_vcstring) (rule assms(1))
  ultimately have parse: "parse_matches (find_entries (ReturnVCString V c)) =
      Some (map fst ?es, map (\<lambda>e. int (unat (snd e))) ?es)"
    by (simp only:)
  have zip: "zip (map fst ?es) (map of_int (map (\<lambda>e. int (unat (snd e))) ?es)) = ?es"
    by (simp add: comp_def zip_map2 zip_same_conv_map)
  obtain d where "ConstructVclock V (map fst ?es) (map (\<lambda>e. int (unat (snd e))) ?es) = Some d"
    and "\<forall>i. FindTicks V d i = (case map_of (rev ?es) i of None \<Rightarrow> (0, False) | Some t \<Rightarrow> (t, True))"
    using ConstructVclock_entries [of "map fst ?es" "map (\<lambda>e. int (unat (snd e))) ?es"]
    unfolding zip by (auto simp: list_all_iff)
  then show ?thesis
    unfolding map_of_rev_entries using parse find_absent [of c]
    by (auto simp: ClockFromString_def prod_eq_iff)
qed

lemma getClockId_first:
  assumes "\<And>i. has_id V c i \<Longrightarrow> hostname i" and "has_id V c i"
  shows "getClockId V (c # cs) = Inr (hd (sort (RangeIds V c)))"
proof -
  obtain j js where js: "sort (RangeIds V c) = j # js"
    using assms(2) range_ids [of c] by (metis empty_iff list.exhaust list.set(1) mem_Collect_eq set_sort)
  then have "hostname j" using assms(1) range_ids [of c] by (metis list.set_intros(1) mem_Collect_eq set_sort)
  obtain r where r: "ReturnVCString V c = CHR ''{'' # dquote # j @ dquote # r"
    unfolding vcstring js by (cases js) (auto simp: vc_render_def render_entry_def)
  have "takeWhile is_hostchar (j @ dquote # r) = j" "dropWhile is_hostchar (j @ dquote # r) = dquote # r"
    using \<open>hostname j\<close> by (auto simp: hostname_def intro!: takeWhile_append_stop dropWhile_append_stop)
  then have "find_id (ReturnVCString V c) = Some j"
    using \<open>hostname j\<close> by (simp add: r hostname_def Let_def)
  then show ?thesis by (simp add: getClockId_def js)
qed

lemma getClockId_owner:
  assumes "hostname h" and "\<And>i. has_id V c i \<longleftrightarrow> i = h"
  shows "getClockId V (c # cs) = Inr h"
proof -
  have "RangeIds V c = [h]"
    using range_ids [of c] range_distinct [of c] assms(2)
    by (cases "RangeIds V c" rule: remdups_adj.cases) auto
  then show ?thesis using getClockId_first [of c h cs] assms by simp
qed

end

text \<open>
  C11: parsing the printed form of a clock with \<open>ClockFromString\<close> gives back the clock, for clocks
  whose ids are host names and whose ticks fit a 64-bit \<open>int\<close>.
\<close>

theorem ClockFromString_ReturnVCString:
  assumes "vclock_api V" and "\<And>i. has_id V c i \<Longrightarrow> hostname i" and "\<And>i. unat (ticks V c i) < 2 ^ 63"
  shows "\<exists>d. ClockFromString V (ReturnVCString V c) = Some d \<and> (\<forall>i. FindTicks V d i = FindTicks V c i)"
  using assms by (rule vclock_api.clock_from_string_roundtrip)

theorem ClockFromString_ReturnVCString_witness:
  "\<exists>d. ClockFromString alist_clock (ReturnVCString alist_clock [(''b'', 7), (''a'', 12)]) = Some d \<and>
    (\<forall>i. FindTicks alist_clock d i = FindTicks alist_clock [(''b'', 7), (''a'', 12)] i)"
proof (rule ClockFromString_ReturnVCString [OF alist.vclock_api_axioms])
  have "hostname ''a'' \<and> hostname ''b''" by code_simp
  then show "hostname i" if "has_id alist_clock [(''b'', 7), (''a'', 12)] i" for i
    using that by (auto simp: alist_clock_def alist_find_def split: if_splits)
  show "unat (ticks alist_clock [(''b'', 7), (''a'', 12)] i) < 2 ^ 63" for i
    by (simp add: alist_clock_def alist_find_def)
qed

section \<open>Matching sends and receives\<close>

lemma backtrack_le: "backtrack f e \<le> e"
  by (induction e) auto

lemma backtrack_same: "f (backtrack f e) = f e"
  by (induction e) auto

lemma backtrack_stop: "backtrack f e = 0 \<or> f (backtrack f e - 1) \<noteq> f (backtrack f e)"
  by (induction e) auto

lemma backtrack_first:
  assumes mono: "\<And>i j. i \<le> j \<Longrightarrow> j \<le> e \<Longrightarrow> f i \<le> f j" and "k < backtrack f e"
  shows "f k < f e"
proof -
  let ?b = "backtrack f e"
  have "f (?b - 1) \<noteq> f ?b" using backtrack_stop [of f e] assms(2) by simp
  moreover have "f (?b - 1) \<le> f ?b" using mono [of "?b - 1" ?b] backtrack_le [of f e] by simp
  moreover have "f k \<le> f (?b - 1)" using mono [of k "?b - 1"] assms(2) backtrack_le [of f e] by simp
  ultimately show ?thesis by (simp add: backtrack_same)
qed

text \<open>
  A candidate receive of host \<open>i\<close> for the sender's tick: the first entry of the log of \<open>i\<close>
  that carries it.
\<close>

definition receive_candidate :: "'c vclock_ops \<Rightarrow> 'c \<Rightarrow> 'c list list \<Rightarrow> string \<Rightarrow> nat \<Rightarrow> nat \<Rightarrow> bool" where
  "receive_candidate V sender clocks senderId i e \<longleftrightarrow>
     i < length clocks \<and> getClockId V (clocks ! i) \<noteq> Inr senderId \<and> e < length (clocks ! i) \<and>
     ticks V (clocks ! i ! e) senderId = ticks V sender senderId \<and>
     (\<forall>k < e. ticks V (clocks ! i ! k) senderId < ticks V sender senderId)"

definition sender_sorted :: "'c vclock_ops \<Rightarrow> 'c list list \<Rightarrow> string \<Rightarrow> bool" where
  "sender_sorted V clocks senderId \<longleftrightarrow>
     list_all (\<lambda>cs. sorted (map (\<lambda>c. ticks V c senderId) cs)) clocks"

lemma sender_sortedD:
  "sender_sorted V clocks h \<Longrightarrow> i < length clocks \<Longrightarrow> a \<le> b \<Longrightarrow> b < length (clocks ! i) \<Longrightarrow>
   ticks V (clocks ! i ! a) h \<le> ticks V (clocks ! i ! b) h"
proof -
  assume a: "sender_sorted V clocks h" "i < length clocks" "a \<le> b" "b < length (clocks ! i)"
  then have "sorted (map (\<lambda>c. ticks V c h) (clocks ! i))"
    by (simp add: sender_sorted_def list_all_length)
  then show ?thesis using a sorted_nth_mono [of "map (\<lambda>c. ticks V c h) (clocks ! i)" a b] by simp
qed

lemma candidate_unique:
  assumes "receive_candidate V s clocks h i e" and "receive_candidate V s clocks h i e'"
  shows "e = e'"
proof (rule ccontr)
  assume "e \<noteq> e'"
  then consider "e < e'" | "e' < e" by linarith
  then show False using assms by cases (auto simp: receive_candidate_def)
qed

lemma search_candidate:
  assumes "sender_sorted V clocks h" and "i < length clocks" and "getClockId V (clocks ! i) \<noteq> Inr h"
  shows "case searchClockById V (clocks ! i) s h of
      (True, e) \<Rightarrow> receive_candidate V s clocks h i (backtrack (\<lambda>e. ticks V (clocks ! i ! e) h) e)
    | (False, e) \<Rightarrow> (\<forall>e. \<not> receive_candidate V s clocks h i e)"
proof -
  let ?f = "\<lambda>e. ticks V (clocks ! i ! e) h"
  have mono: "?f a \<le> ?f b" if "a \<le> b" "b < length (clocks ! i)" for a b
    using sender_sortedD assms(1,2) that by blast
  note cs = searchClockById_spec [of "clocks ! i" V h s, OF mono]
  show ?thesis
  proof (cases "searchClockById V (clocks ! i) s h")
    case (Pair found e)
    show ?thesis
    proof (cases found)
      case True
      with cs Pair have e: "e < length (clocks ! i)" "?f e = ticks V s h" by auto
      have "?f k < ticks V s h" if "k < backtrack ?f e" for k
        using backtrack_first [of e ?f k] mono e that by auto
      moreover have "?f (backtrack ?f e) = ticks V s h" using e backtrack_same [of ?f e] by simp
      ultimately show ?thesis
        using True Pair e backtrack_le [of ?f e] assms by (simp add: receive_candidate_def)
    next
      case False
      with cs Pair show ?thesis by (auto simp: receive_candidate_def)
    qed
  qed
qed

definition match_inv ::
  "'c vclock_ops \<Rightarrow> 'c \<Rightarrow> 'c list list \<Rightarrow> string \<Rightarrow> nat \<Rightarrow> 'c \<times> (nat \<times> nat) option \<Rightarrow> bool" where
  "match_inv V s clocks h n st \<longleftrightarrow>
     (case snd st of
        None \<Rightarrow> \<forall>i < n. \<forall>e. \<not> receive_candidate V s clocks h i e
      | Some (i, e) \<Rightarrow> i < n \<and> receive_candidate V s clocks h i e \<and>
          (\<forall>j. FindTicks V (fst st) j = FindTicks V (clocks ! i ! e) j) \<and>
          (\<forall>i' < n. \<forall>e'. receive_candidate V s clocks h i' e' \<longrightarrow>
             \<not> Compare V (clocks ! i ! e) (clocks ! i' ! e') Ancestor))"

context vclock_api
begin

lemma ancestor_irrefl: "(\<And>j. FindTicks V c j = FindTicks V d j) \<Longrightarrow> \<not> Compare V c d Ancestor"
  by (simp add: compare_Ancestor)

lemma ancestor_trans: "Compare V b a Ancestor \<Longrightarrow> Compare V c b Ancestor \<Longrightarrow> Compare V c a Ancestor"
  unfolding compare_Ancestor by (meson order.strict_trans2 order_trans)

lemma ancestor_cong:
  "(\<And>j. FindTicks V c j = FindTicks V c' j) \<Longrightarrow> Compare V c d Ancestor \<longleftrightarrow> Compare V c' d Ancestor"
  by (simp add: compare_Ancestor)

lemma match_step_inv:
  assumes "sender_sorted V clocks h" and "n < length clocks" and inv: "match_inv V s clocks h n st"
    and step: "match_step V s clocks h st n = Inr st'"
  shows "match_inv V s clocks h (Suc n) st'"
proof -
  let ?P = "\<lambda>e. receive_candidate V s clocks h n e"
  have keep: "match_inv V s clocks h (Suc n) st" if "\<And>e. \<not> ?P e"
    using inv that by (auto simp: match_inv_def less_Suc_eq split: option.splits)
  show ?thesis
  proof (cases "getClockId V (clocks ! n) = Inr h")
    case True
    then have "\<not> ?P e" for e by (simp add: receive_candidate_def)
    with keep step True show ?thesis by (simp add: match_step_def)
  next
    case False
    obtain found e0 where srch: "searchClockById V (clocks ! n) s h = (found, e0)" by force
    let ?e = "backtrack (\<lambda>e. ticks V (clocks ! n ! e) h) e0"
    note cand = search_candidate [OF assms(1,2) False, of s, unfolded srch]
    from step False srch have st': "st' = (if found \<and> (snd st = None \<or> Compare V (fst st) (clocks ! n ! ?e) Ancestor)
        then (Copy V (clocks ! n ! ?e), Some (n, ?e)) else st)"
      by (auto simp: match_step_def go_bind Let_def split: if_splits)
    show ?thesis
    proof (cases found)
      case False
      with cand keep st' show ?thesis by simp
    next
      case True
      with cand have P: "?P ?e" by simp
      have uniq: "e = ?e" if "?P e" for e using candidate_unique [OF that P] .
      show ?thesis
      proof (cases "snd st")
        case None
        with inv have none: "\<not> receive_candidate V s clocks h i e" if "i < n" for i e
          using that by (simp add: match_inv_def)
        have "\<not> Compare V (clocks ! n ! ?e) (clocks ! i' ! e') Ancestor"
          if "i' < Suc n" "receive_candidate V s clocks h i' e'" for i' e'
          using that none uniq ancestor_irrefl [OF refl] by (cases "i' = n") auto
        moreover have "st' = (Copy V (clocks ! n ! ?e), Some (n, ?e))" using None True st' by simp
        ultimately show ?thesis using P by (simp add: match_inv_def find_Copy)
      next
        case (Some p)
        obtain i e where p: "p = (i, e)" by force
        from inv Some p have i: "i < n" "receive_candidate V s clocks h i e"
          and c: "\<And>j. FindTicks V (fst st) j = FindTicks V (clocks ! i ! e) j"
          and min: "\<And>i' e'. i' < n \<Longrightarrow> receive_candidate V s clocks h i' e' \<Longrightarrow>
              \<not> Compare V (clocks ! i ! e) (clocks ! i' ! e') Ancestor"
          by (auto simp: match_inv_def)
        have cc: "Compare V (fst st) d Ancestor \<longleftrightarrow> Compare V (clocks ! i ! e) d Ancestor" for d
          using ancestor_cong c by blast
        show ?thesis
        proof (cases "Compare V (fst st) (clocks ! n ! ?e) Ancestor")
          case True2: True
          have "\<not> Compare V (clocks ! n ! ?e) (clocks ! i' ! e') Ancestor"
            if "i' < Suc n" "receive_candidate V s clocks h i' e'" for i' e'
          proof (cases "i' = n")
            case True
            with that uniq show ?thesis using ancestor_irrefl [OF refl] by blast
          next
            case False
            with that min have "\<not> Compare V (clocks ! i ! e) (clocks ! i' ! e') Ancestor" by simp
            with True2 show ?thesis unfolding cc by (blast dest: ancestor_trans)
          qed
          with True True2 st' P show ?thesis by (auto simp: match_inv_def find_Copy)
        next
          case False
          then have "st' = st" using st' Some by simp
          moreover have "\<not> Compare V (clocks ! i ! e) (clocks ! i' ! e') Ancestor"
            if "i' < Suc n" "receive_candidate V s clocks h i' e'" for i' e'
            using that min False uniq unfolding cc by (cases "i' = n") auto
          ultimately show ?thesis using Some p i c by (auto simp: match_inv_def)
        qed
      qed
    qed
  qed
qed

lemma match_fold_inv:
  assumes "sender_sorted V clocks h" and "n \<le> length clocks"
    and "foldR (match_step V s clocks h) (New V, None) [0..<n] = Inr st"
  shows "match_inv V s clocks h n st"
  using assms(2,3)
proof (induction n arbitrary: st)
  case 0
  then show ?case by (auto simp: match_inv_def)
next
  case (Suc n)
  then obtain st0 where "foldR (match_step V s clocks h) (New V, None) [0..<n] = Inr st0"
    and step: "match_step V s clocks h st0 n = Inr st"
    by (auto simp: foldR_append go_bind)
  with Suc.IH Suc.prems have "match_inv V s clocks h n st0" by simp
  with step Suc.prems show ?case using match_step_inv [OF assms(1)] by simp
qed

lemma match_fold_ok:
  assumes "idClockMapper V clocks = Inr ids" and "n \<le> length clocks"
  shows "\<exists>st. foldR (match_step V s clocks h) st0 [0..<n] = Inr st"
  using assms(2)
proof (induction n)
  case (Suc n)
  then obtain st where st: "foldR (match_step V s clocks h) st0 [0..<n] = Inr st" by auto
  obtain cid where "getClockId V (clocks ! n) = Inr cid"
    using assms(1) Suc.prems by (auto simp: idClockMapper_def traverse_Inr_iff)
  then have "\<exists>st'. match_step V s clocks h st n = Inr st'"
    by (auto simp: match_step_def Let_def split: prod.split)
  with st show ?case by (auto simp: foldR_append)
qed simp

lemma match_spec:
  assumes "sender_sorted V clocks h" and "idClockMapper V clocks = Inr ids"
  shows "\<exists>r. matchSendAndReceive V s clocks h = Inr r \<and>
    (case r of
       None \<Rightarrow> \<forall>i e. \<not> receive_candidate V s clocks h i e
     | Some (i, e) \<Rightarrow> receive_candidate V s clocks h i e \<and>
         (\<forall>i' e'. receive_candidate V s clocks h i' e' \<longrightarrow>
            \<not> Compare V (clocks ! i ! e) (clocks ! i' ! e') Ancestor))"
proof -
  obtain st where st: "foldR (match_step V s clocks h) (New V, None) [0..<length clocks] = Inr st"
    using match_fold_ok [OF assms(2) order_refl] by blast
  have "match_inv V s clocks h (length clocks) st" by (rule match_fold_inv [OF assms(1) order_refl st])
  moreover have "i < length clocks" if "receive_candidate V s clocks h i e" for i e
    using that by (simp add: receive_candidate_def)
  ultimately show ?thesis
    unfolding matchSendAndReceive_def st by (cases "snd st") (auto simp: match_inv_def)
qed

end

text \<open>
  C8: \<open>matchSendAndReceive\<close> on logs in ascending order of the sender's ticks reports no receive only
  when no other host's log carries the sender's tick; otherwise it reports the first entry of a host
  that carries it, and no other host received it causally earlier.
\<close>

theorem matchSendAndReceive_correct:
  assumes "vclock_api V" and "sender_sorted V clocks h" and "idClockMapper V clocks = Inr ids"
  shows "\<exists>r. matchSendAndReceive V s clocks h = Inr r \<and>
    (case r of
       None \<Rightarrow> \<forall>i e. \<not> receive_candidate V s clocks h i e
     | Some (i, e) \<Rightarrow> receive_candidate V s clocks h i e \<and>
         (\<forall>i' e'. receive_candidate V s clocks h i' e' \<longrightarrow>
            \<not> Compare V (clocks ! i ! e) (clocks ! i' ! e') Ancestor))"
  using assms by (rule vclock_api.match_spec)

lemma ping_ids: "idClockMapper alist_clock ping_clocks = Inr [''a'', ''b'']"
  by code_simp

theorem matchSendAndReceive_correct_witness:
  "\<exists>r. matchSendAndReceive alist_clock [(''a'', 2)] ping_clocks ''a'' = Inr r \<and>
    (case r of
       None \<Rightarrow> \<forall>i e. \<not> receive_candidate alist_clock [(''a'', 2)] ping_clocks ''a'' i e
     | Some (i, e) \<Rightarrow> receive_candidate alist_clock [(''a'', 2)] ping_clocks ''a'' i e \<and>
         (\<forall>i' e'. receive_candidate alist_clock [(''a'', 2)] ping_clocks ''a'' i' e' \<longrightarrow>
            \<not> Compare alist_clock (ping_clocks ! i ! e) (ping_clocks ! i' ! e') Ancestor))"
proof (rule matchSendAndReceive_correct [OF alist.vclock_api_axioms _ ping_ids])
  show "sender_sorted alist_clock ping_clocks ''a''" by code_simp
qed

section \<open>The map view of the logs\<close>

lemma log_entry_map_get:
  "gomap_get (log_entry_map V ids c) i = (if i \<in> set ids \<and> has_id V c i then Some (ticks V c i) else None)"
  unfolding log_entry_map_def by (induction ids rule: rev_induct) (auto simp: gomap_simps)

lemma log_entry_map_wf: "gomap_wf (log_entry_map V ids c)"
  unfolding log_entry_map_def by (induction ids rule: rev_induct) auto

lemma log_entry_map_all:
  "list_all (\<lambda>(i, t). Q i t) (log_entry_map V ids c) \<longleftrightarrow> (\<forall>i \<in> set ids. has_id V c i \<longrightarrow> Q i (ticks V c i))"
proof -
  have "e \<in> set (log_entry_map V ids c) \<longleftrightarrow> e \<in> (\<lambda>i. (i, ticks V c i)) ` {i \<in> set ids. has_id V c i}" for e
    by (cases e) (auto simp: gomap_wf_in_iff [OF log_entry_map_wf] log_entry_map_get)
  then have "set (log_entry_map V ids c) = (\<lambda>i. (i, ticks V c i)) ` {i \<in> set ids. has_id V c i}" by blast
  then show ?thesis by (simp add: list_all_iff) blast
qed

lemma log_map_get:
  "gomap_get (log_map V ids i cs) t =
     (case filter (\<lambda>c. has_id V c i \<and> ticks V c i = t) cs of
        [] \<Rightarrow> None | x # xs \<Rightarrow> Some (log_entry_map V ids (last (x # xs))))"
proof (induction cs rule: rev_induct)
  case Nil
  show ?case by (simp add: log_map_def)
next
  case (snoc c cs)
  then show ?case
    by (auto simp: log_map_def gomap_simps split: list.splits)
qed

lemma fold_set_zip_get:
  assumes "distinct ids" and "length ids = length cs" and "k < length ids"
  shows "gomap_get (foldl (\<lambda>m (i, c). gomap_set i (f i c) m) m0 (zip ids cs)) (ids ! k) = Some (f (ids ! k) (cs ! k))"
  using assms(2,1,3)
proof (induction ids cs arbitrary: m0 k rule: list_induct2)
  case (Cons i ids c cs)
  have notin: "gomap_get (foldl (\<lambda>m (i, c). gomap_set i (f i c) m) m1 (zip js ds)) i = gomap_get m1 i"
    if "i \<notin> set js" for m1 js ds
    using that by (induction js ds arbitrary: m1 rule: list_induct2') (auto simp: gomap_simps)
  show ?case
    using Cons by (cases k) (auto simp: notin gomap_simps)
qed simp

lemma clocksToMaps_get:
  assumes "idClockMapper V clocks = Inr ids" and "distinct ids" and "clocksToMaps V clocks = Inr m"
    and "k < length ids"
  shows "gomap_get m (ids ! k) = Some (log_map V ids (ids ! k) (clocks ! k))"
proof -
  have len: "length ids = length clocks"
    using assms(1) by (simp add: idClockMapper_def traverse_Inr_iff)
  from assms(1,3) have m: "m = foldl (\<lambda>m (i, cs). gomap_set i (log_map V ids i cs) m) [] (zip ids clocks)"
    by (simp add: clocksToMaps_def)
  show ?thesis unfolding m by (rule fold_set_zip_get) (use assms len in auto)
qed

section \<open>The level estimate\<close>

lemma sum_list_gomap:
  "gomap_wf m \<Longrightarrow> finite A \<Longrightarrow> fst ` set m \<subseteq> A \<Longrightarrow> sum_list (map snd m) = (\<Sum>i\<in>A. gomap_get0 m i)"
proof -
  assume wf: "gomap_wf m" and A: "finite A" "fst ` set m \<subseteq> A"
  have "sum_list (map snd m) = sum_list (map (gomap_get0 m \<circ> fst) m)"
    using wf by (intro arg_cong [where f = sum_list] map_cong) (auto simp: gomap_get0_def gomap_wf_def)
  also have "\<dots> = (\<Sum>i\<in>fst ` set m. gomap_get0 m i)"
    using wf by (subst sum.distinct_set_conv_list [where xs = "map fst m", simplified])
      (auto simp: gomap_wf_def comp_def)
  also have "\<dots> = (\<Sum>i\<in>A. gomap_get0 m i)"
    using A by (intro sum.mono_neutral_left)
      (force simp: gomap_get0_def split: option.splits dest!: map_of_SomeD)+
  finally show ?thesis .
qed

lemma max_step_fold:
  "gomap_get0 (foldl (max_step V l) m ids) i = (if i \<in> set ids then max (gomap_get0 m i) (ticks V l i) else gomap_get0 m i)"
  by (induction ids arbitrary: m) (auto simp: max_step_def gomap_simps max_def)

lemma max_step_wf: "gomap_wf m \<Longrightarrow> gomap_wf (foldl (max_step V l) m ids)"
  by (induction ids arbitrary: m) (auto simp: max_step_def)

lemma max_step_keys: "fst ` set (foldl (max_step V l) m ids) \<subseteq> fst ` set m \<union> set ids"
proof (induction ids arbitrary: m)
  case (Cons i ids)
  from Cons [of "max_step V l m i"] show ?case
    by (auto simp: max_step_def dom_update split: if_splits)
qed simp

text \<open>The largest tick of host \<open>i\<close> known at the end of any log.\<close>

definition last_tick :: "'c vclock_ops \<Rightarrow> 'c list list \<Rightarrow> string \<Rightarrow> u64" where
  "last_tick V clocks i = foldl (\<lambda>t cs. max t (ticks V (last cs) i)) 0 clocks"

lemma sumTime_eq:
  assumes "idClockMapper V clocks = Inr ids" and "\<And>cs. cs \<in> set clocks \<Longrightarrow> cs \<noteq> []"
  shows "sumTime V clocks = Inr (\<Sum>i\<in>set ids. last_tick V clocks i)"
proof -
  let ?step = "\<lambda>m cs. foldl (max_step V (last cs)) m ids"
  have "foldR (\<lambda>m cs. if cs = [] then Inl IndexOutOfRange else Inr (?step m cs)) [] clocks = Inr (foldl ?step [] clocks)"
    using assms(2) by (intro foldR_pure) auto
  moreover have wf: "gomap_wf m0 \<Longrightarrow> gomap_wf (foldl ?step m0 css) \<and> fst ` set (foldl ?step m0 css) \<subseteq> fst ` set m0 \<union> set ids"
    for m0 css
  proof (induction css arbitrary: m0)
    case (Cons cs css)
    from Cons.IH [OF max_step_wf [OF Cons.prems, of V "last cs" ids]] max_step_keys [of V "last cs" m0 ids]
    show ?case by (simp del: foldl_append) blast
  qed simp
  moreover have "gomap_get0 (foldl ?step m0 css) i = foldl (\<lambda>t cs. max t (ticks V (last cs) i)) (gomap_get0 m0 i) css"
    if "i \<in> set ids" for i m0 css
    using that by (induction css arbitrary: m0) (auto simp: max_step_fold)
  ultimately show ?thesis
    using assms(1) sum_list_gomap [of "foldl ?step [] clocks" "set ids"] wf [of "[]" clocks]
    by (simp add: sumTime_def last_tick_def gomap_get0_def [of "[]"] cong: sum.cong)
qed

lemma foldl_max_ge:
  "(t0 :: u64) \<le> foldl (\<lambda>t cs. max t (f cs)) t0 css \<and> (\<forall>cs \<in> set css. f cs \<le> foldl (\<lambda>t cs. max t (f cs)) t0 css)"
proof (induction css arbitrary: t0)
  case (Cons c css)
  from Cons [of "max t0 (f c)"] show ?case by auto
qed simp

lemma last_tick_ge: "cs \<in> set clocks \<Longrightarrow> ticks V (last cs) i \<le> last_tick V clocks i"
  using foldl_max_ge [of 0 "\<lambda>cs. ticks V (last cs) i" clocks] by (simp add: last_tick_def)

lemma unat_sum_u64:
  fixes f :: "'a \<Rightarrow> u64"
  assumes "finite A" and "(\<Sum>i\<in>A. unat (f i)) < 2 ^ 64"
  shows "unat (\<Sum>i\<in>A. f i) = (\<Sum>i\<in>A. unat (f i))"
  using assms
proof (induction A rule: finite_induct)
  case (insert a A)
  then have "unat (f a) + unat (\<Sum>i\<in>A. f i) < 2 ^ 64" by simp
  with insert show ?case by (simp add: unat_add_lem [THEN iffD1])
qed simp

end
