(* ===== verification/Consistent_Cuts.thy ===== *)
theory Consistent_Cuts
  imports Dinv_Prelude
begin

text \<open>
  Consistent cuts of an execution stamped with vector clocks, independent of the program: \<open>n\<close>
  hosts, \<open>len k\<close> events on host \<open>k\<close>, and \<open>T k j l\<close>, the number of events of host \<open>l\<close> that event
  \<open>j\<close> (from 0) of host \<open>k\<close> knows. The locale \<open>causal_system\<close> has the laws of vector clocks as its
  assumptions; in it, growing cuts one event at a time from the first event of every host
  reaches exactly the consistent cuts.
\<close>

definition cut_of :: "nat \<Rightarrow> (nat \<Rightarrow> nat) \<Rightarrow> (nat \<Rightarrow> nat \<Rightarrow> nat \<Rightarrow> nat) \<Rightarrow> nat list \<Rightarrow> bool" where
  "cut_of n len T q \<longleftrightarrow>
     length q = n \<and> (\<forall>k < n. 0 < q ! k \<and> q ! k \<le> len k \<and> (\<forall>l < n. T k (q ! k - 1) l \<le> q ! l))"

text \<open>Event number \<open>q ! k\<close> of host \<open>k\<close> can be added to the cut \<open>q\<close>.\<close>

definition can_grow :: "nat \<Rightarrow> (nat \<Rightarrow> nat) \<Rightarrow> (nat \<Rightarrow> nat \<Rightarrow> nat \<Rightarrow> nat) \<Rightarrow> nat list \<Rightarrow> nat \<Rightarrow> bool" where
  "can_grow n len T q k \<longleftrightarrow>
     k < n \<and> q ! k < len k \<and> (\<forall>l < n. T k (q ! k) l \<le> q[k := Suc (q ! k)] ! l)"

definition grow_all :: "nat \<Rightarrow> (nat \<Rightarrow> nat) \<Rightarrow> (nat \<Rightarrow> nat \<Rightarrow> nat \<Rightarrow> nat) \<Rightarrow> nat list set \<Rightarrow> nat list set" where
  "grow_all n len T S = {q[k := Suc (q ! k)] | q k. q \<in> S \<and> can_grow n len T q k}"

primrec cut_level :: "nat \<Rightarrow> (nat \<Rightarrow> nat) \<Rightarrow> (nat \<Rightarrow> nat \<Rightarrow> nat \<Rightarrow> nat) \<Rightarrow> nat \<Rightarrow> nat list set" where
  "cut_level n len T 0 = {replicate n 1}"
| "cut_level n len T (Suc m) = grow_all n len T (cut_level n len T m)"

locale causal_system =
  fixes n :: nat and len :: "nat \<Rightarrow> nat" and T :: "nat \<Rightarrow> nat \<Rightarrow> nat \<Rightarrow> nat"
  assumes nonempty: "k < n \<Longrightarrow> 0 < len k"
    and own: "k < n \<Longrightarrow> j < len k \<Longrightarrow> T k j k = Suc j"
    and local_mono: "k < n \<Longrightarrow> Suc j < len k \<Longrightarrow> l < n \<Longrightarrow> T k j l \<le> T k (Suc j) l"
    and first_event: "k < n \<Longrightarrow> l < n \<Longrightarrow> l \<noteq> k \<Longrightarrow> T k 0 l = 0"
    and known_event: "k < n \<Longrightarrow> j < len k \<Longrightarrow> l < n \<Longrightarrow> l \<noteq> k \<Longrightarrow> T k j l \<le> len l"
    and known_clock: "k < n \<Longrightarrow> j < len k \<Longrightarrow> l < n \<Longrightarrow> l \<noteq> k \<Longrightarrow> 0 < T k j l \<Longrightarrow> i < n \<Longrightarrow>
      T l (T k j l - 1) i \<le> T k j i"
    and acyclic: "k < n \<Longrightarrow> j < len k \<Longrightarrow> l < n \<Longrightarrow> l \<noteq> k \<Longrightarrow> 0 < T k j l \<Longrightarrow>
      T l (T k j l - 1) k < Suc j"
begin

abbreviation cut :: "nat list \<Rightarrow> bool" where
  "cut \<equiv> cut_of n len T"

lemma cutD:
  assumes "cut q" and "k < n"
  shows "length q = n" "0 < q ! k" "q ! k \<le> len k" "\<And>l. l < n \<Longrightarrow> T k (q ! k - 1) l \<le> q ! l"
  using assms by (auto simp: cut_of_def)

lemma start_cut: "cut (replicate n 1)"
  using nonempty own first_event by (auto simp: cut_of_def Suc_le_eq) (metis One_nat_def le0 order_refl)

lemma grow_cut:
  assumes "cut q" and "can_grow n len T q k"
  shows "cut (q[k := Suc (q ! k)])"
proof -
  let ?q = "q[k := Suc (q ! k)]"
  have k: "k < n" "q ! k < len k" "\<And>l. l < n \<Longrightarrow> T k (q ! k) l \<le> ?q ! l"
    using assms(2) by (auto simp: can_grow_def)
  have len: "length q = n" using assms(1) by (simp add: cut_of_def)
  have le: "q ! l \<le> ?q ! l" if "l < n" for l using that len by (cases "l = k") auto
  have "0 < ?q ! i \<and> ?q ! i \<le> len i \<and> (\<forall>l < n. T i (?q ! i - 1) l \<le> ?q ! l)" if "i < n" for i
  proof (cases "i = k")
    case True
    with k len show ?thesis by auto
  next
    case False
    then have "?q ! i = q ! i" by simp
    with cutD [OF assms(1) that] le show ?thesis by (auto intro: order_trans)
  qed
  with len show ?thesis by (simp add: cut_of_def)
qed

lemma sum_list_grow: "length q = n \<Longrightarrow> k < n \<Longrightarrow> sum_list (q[k := Suc (q ! k)]) = Suc (sum_list q)"
  using sum_list_update_diff [of k q "\<lambda>x. x" "Suc (q ! k)"] by simp

lemma cut_level_sound: "q \<in> cut_level n len T m \<Longrightarrow> cut q \<and> sum_list q = n + m"
proof (induction m arbitrary: q)
  case 0
  then show ?case using start_cut by (simp add: sum_list_replicate)
next
  case (Suc m)
  then obtain q' k where q: "q = q'[k := Suc (q' ! k)]" "q' \<in> cut_level n len T m" "can_grow n len T q' k"
    by (auto simp: grow_all_def)
  with Suc.IH have "cut q'" "sum_list q' = n + m" by auto
  with q show ?case using grow_cut sum_list_grow [of q' k] by (auto simp: can_grow_def cut_of_def)
qed

text \<open>The last event of host \<open>k\<close> in a cut, measured by how many events it knows.\<close>

definition weight :: "nat list \<Rightarrow> nat \<Rightarrow> nat" where
  "weight q k = (\<Sum>i < n. T k (q ! k - 1) i)"

lemma known_weight_less:
  assumes "cut q" and "k < n" and "i < n" and "i \<noteq> k" and "T i (q ! i - 1) k = q ! k"
  shows "weight q k < weight q i"
proof -
  have pos: "0 < q ! k" "0 < q ! i" and lt: "q ! i - 1 < len i"
    using cutD(2) [OF assms(1,2)] cutD(2,3) [OF assms(1,3)] by auto
  have pos': "0 < T i (q ! i - 1) k" using assms(5) pos by simp
  have le: "T k (q ! k - 1) j \<le> T i (q ! i - 1) j" if "j < n" for j
    using known_clock [OF assms(3) lt assms(2) _ pos' that] assms(4,5) by simp
  have "T k (q ! k - 1) i < Suc (q ! i - 1)"
    using acyclic [OF assms(3) lt assms(2) _ pos'] assms(4,5) by simp
  also have "\<dots> = T i (q ! i - 1) i" using own [OF assms(3) lt] by simp
  finally have "T k (q ! k - 1) i < T i (q ! i - 1) i" .
  with le assms(3) show ?thesis
    unfolding weight_def by (intro sum_strict_mono_ex1) auto
qed

lemma shrink_cut:
  assumes "cut q" and "q \<noteq> replicate n 1"
  obtains k where "k < n" "1 < q ! k" "cut (q[k := q ! k - 1])"
proof -
  let ?S = "{k. k < n \<and> 1 < q ! k}"
  have len: "length q = n" using assms(1) by (simp add: cut_of_def)
  have "?S \<noteq> {}"
  proof
    assume "?S = {}"
    then have "\<not> 1 < q ! k" if "k < n" for k using that by blast
    then have "q ! k = 1" if "k < n" for k
      using that cutD(2) [OF assms(1) that] by (metis One_nat_def Suc_lessI)
    with len have "q = replicate n 1" by (intro nth_equalityI) auto
    with assms(2) show False ..
  qed
  then have "Max (weight q ` ?S) \<in> weight q ` ?S" by (intro Max_in) auto
  then obtain k where k: "k \<in> ?S" and "weight q k = Max (weight q ` ?S)" by auto
  then have max: "weight q i \<le> weight q k" if "i \<in> ?S" for i
    using that by simp
  have k': "k < n" "1 < q ! k" using k by auto
  let ?q = "q[k := q ! k - 1]"
  have others: "T i (q ! i - 1) k \<le> q ! k - 1" if i: "i < n" "i \<noteq> k" for i
  proof (rule ccontr)
    assume "\<not> ?thesis"
    with cutD(4) [OF assms(1) i(1), of k] k have eq: "T i (q ! i - 1) k = q ! k" by auto
    have "q ! i \<noteq> 1"
      using first_event [of i k] eq i k by auto
    with cutD(2) [OF assms(1) i(1)] i have "i \<in> ?S" by simp
    then have "weight q i \<le> weight q k" by (rule max)
    with known_weight_less [OF assms(1) k'(1) i(1,2) eq] show False by simp
  qed
  have "0 < ?q ! i \<and> ?q ! i \<le> len i \<and> (\<forall>l < n. T i (?q ! i - 1) l \<le> ?q ! l)" if i: "i < n" for i
  proof (cases "i = k")
    case True
    define m where "m = q ! k - 2"
    then have m: "q ! k = Suc (Suc m)" using k' by simp
    have lt: "Suc m < len k" using cutD(3) [OF assms(1), of k] k m by auto
    have "T k m l \<le> ?q ! l" if "l < n" for l
    proof (cases "l = k")
      case True
      then show ?thesis using own [of k m] lt k m len by auto
    next
      case False
      then show ?thesis
        using local_mono [of k m l] cutD(4) [OF assms(1), of k l] lt k m that by auto
    qed
    with True k len m lt show ?thesis by auto
  next
    case False
    then have "?q ! i = q ! i" by simp
    moreover have "T i (q ! i - 1) l \<le> ?q ! l" if "l < n" for l
      using others [OF i False] cutD(4) [OF assms(1) i that] k len by (cases "l = k") auto
    ultimately show ?thesis using cutD [OF assms(1) i] by simp
  qed
  then have "cut ?q" using len by (simp add: cut_of_def)
  with k that show thesis by blast
qed

lemma cut_level_complete: "cut q \<Longrightarrow> sum_list q = n + m \<Longrightarrow> q \<in> cut_level n len T m"
proof (induction m arbitrary: q)
  case 0
  have len: "length q = n" using 0 by (simp add: cut_of_def)
  show ?case
  proof (rule ccontr)
    assume "q \<notin> cut_level n len T 0"
    then obtain k where k: "k < n" "1 < q ! k" "cut (q[k := q ! k - 1])"
      using shrink_cut [OF 0(1)] by auto
    have ge: "cut p \<Longrightarrow> n \<le> sum_list p" for p
    proof -
      assume "cut p"
      then have "n = (\<Sum>i<n. 1)" "length p = n" "\<And>i. i < n \<Longrightarrow> 1 \<le> p ! i" by (auto simp: cut_of_def)
      then show ?thesis by (metis (no_types, lifting) lessThan_iff sum_list_sum_nth sum_mono atLeast0LessThan)
    qed
    have "sum_list (q[k := q ! k - 1]) + q ! k = sum_list q + (q ! k - 1)"
      using sum_list_update_diff [of k q "\<lambda>x. x"] k len by simp
    with 0(2) k(2) ge [OF k(3)] show False by simp
  qed
next
  case (Suc m)
  have len: "length q = n" using Suc.prems by (simp add: cut_of_def)
  have "q \<noteq> replicate n 1" using Suc.prems(2) by (auto simp: sum_list_replicate)
  with Suc.prems(1) obtain k where k: "k < n" "1 < q ! k" "cut (q[k := q ! k - 1])"
    using shrink_cut by blast
  let ?p = "q[k := q ! k - 1]"
  have q: "q = ?p[k := Suc (?p ! k)]" using k len by simp
  have "sum_list ?p + q ! k = sum_list q + (q ! k - 1)"
    using sum_list_update_diff [of k q "\<lambda>x. x"] k len by simp
  with Suc.prems(2) k(2) have "sum_list ?p = n + m" by simp
  then have "?p \<in> cut_level n len T m" by (rule Suc.IH [OF k(3)])
  moreover have "can_grow n len T ?p k"
    unfolding can_grow_def q [symmetric]
    using k len cutD [OF Suc.prems(1) k(1)] by auto
  ultimately have "?p[k := Suc (?p ! k)] \<in> cut_level n len T (Suc m)"
    by (auto simp: grow_all_def simp del: list_update_overwrite)
  with q show ?case by simp
qed

lemma cut_level_eq: "cut_level n len T m = {q. cut q \<and> sum_list q = n + m}"
  using cut_level_sound cut_level_complete by blast

end

end
