(* ===== verification/Lattice.thy ===== *)
theory Lattice
  imports Clock_Utils Consistent_Cuts
begin

text \<open>
  \<open>logmerger/lattice.go\<close>: the lattice of global states of a distributed execution. The wrapper
  \<open>LatticeWrapper\<close> with its disk store (\<open>Push\<close>, \<open>Pop\<close>, \<open>Beginning\<close>, \<open>DiskDump\<close>, \<open>FetchDisk\<close>),
  the expansion of a level by the worker goroutines, and \<open>BuildLattice5\<close>, \<open>BuildLattice4\<close> and
  \<open>BuildLattice\<close> themselves.

  The abstract counterpart is the set of consistent cuts of the logs: vectors of event counts,
  one per host, in which the last event of every host knows no event beyond the cut. The main
  result is that the levels of the lattice are exactly the consistent cuts, sorted by their sum.
\<close>

section \<open>Definitions\<close>

definition THREAD_BOOST :: nat where
  "THREAD_BOOST = 1000"

definition POINT_DISK_LIMIT :: u64 where
  "POINT_DISK_LIMIT = 5000000"

text \<open>
  What the Go run time decides: the number of processors, the order in which a range visits the
  entries of a map, and the order in which the results of the goroutines of a level arrive on
  the channel. The only facts used are that both orders are permutations.
\<close>

record 'c go_runtime =
  NumCPU :: nat
  MapOrder :: "(string \<times> 'c) list \<Rightarrow> (string \<times> 'c) list"
  RecvOrder :: "nat list \<Rightarrow> nat list"

definition runtime_ok :: "'c go_runtime \<Rightarrow> bool" where
  "runtime_ok R \<longleftrightarrow> 0 < NumCPU R \<and> (\<forall>m. mset (MapOrder R m) = mset m) \<and> (\<forall>xs. mset (RecvOrder R xs) = mset xs)"

definition ThreadCount :: "'c go_runtime \<Rightarrow> nat \<Rightarrow> nat" where
  "ThreadCount R sz = (if sz < THREAD_BOOST then 1 else NumCPU R)"

subsection \<open>The wrapper\<close>

text \<open>
  A level of \<open>LatticeM\<close> is \<open>None\<close> while its slice is nil. The field \<open>disk\<close> holds the files the
  wrapper has written: one JSON document per level, in order, so a file is the list of levels.
\<close>

record 'c LatticeWrapper =
  LatticeM :: "'c list option list"
  LatticeD :: "string list"
  CurrentFile :: nat
  Points :: u64
  LevelM :: nat
  LevelD :: nat
  LevelEstimate :: nat
  disk :: "(string, 'c list option list) gomap"

definition NewLattice :: "'c LatticeWrapper" where
  "NewLattice = \<lparr>LatticeM = [], LatticeD = [], CurrentFile = 0, Points = 0, LevelM = 0, LevelD = 0,
     LevelEstimate = 0, disk = []\<rparr>"

abbreviation layer :: "'c list option \<Rightarrow> 'c list" where
  "layer l \<equiv> (case l of None \<Rightarrow> [] | Some xs \<Rightarrow> xs)"

definition Delete :: "'c LatticeWrapper \<Rightarrow> 'c LatticeWrapper" where
  "Delete lw = lw\<lparr>disk := filter (\<lambda>f. fst f \<notin> set (LatticeD lw)) (disk lw)\<rparr>"

definition FetchDisk :: "'c LatticeWrapper \<Rightarrow> 'c LatticeWrapper go" where
  "FetchDisk lw =
     rbind (index_go (LatticeD lw) (CurrentFile lw)) (\<lambda>name.
       case gomap_get (disk lw) name of
         None \<Rightarrow> Inl (Panic ''open: no such file or directory'')
       | Some lattice \<Rightarrow> Inr (lw\<lparr>LatticeM := lattice\<rparr>))"

definition Beginning :: "'c LatticeWrapper \<Rightarrow> 'c LatticeWrapper go" where
  "Beginning lw =
     (let lw1 = lw\<lparr>LevelM := 0, LevelD := 0, CurrentFile := 0\<rparr>
      in if length (LatticeD lw1) > 0 then FetchDisk lw1 else Inr lw1)"

definition DiskDump :: "'c LatticeWrapper \<Rightarrow> 'c LatticeWrapper" where
  "DiskDump lw =
     (let latticeFilename = CHR ''L'' # show_nat (length (LatticeD lw))
      in lw\<lparr>disk := gomap_set latticeFilename (take (LevelM lw - 1) (LatticeM lw)) (disk lw),
            LatticeD := LatticeD lw @ [latticeFilename]\<rparr>)"

definition Push :: "'c list \<Rightarrow> 'c LatticeWrapper \<Rightarrow> 'c LatticeWrapper go" where
  "Push lay lw =
     rbind (update_go (LatticeM lw) (LevelM lw) (Some lay)) (\<lambda>m0.
     let lw0 = lw\<lparr>LatticeM := m0\<rparr> in
     rbind
       (if Points lw0 > POINT_DISK_LIMIT * of_nat (length (LatticeD lw0) + 1) then
          let lw1 = DiskDump lw0; temp = layer (LatticeM lw1 ! LevelM lw1)
          in rbind (update_go (replicate (LevelEstimate lw1) None) 0 (Some temp)) (\<lambda>m1.
               Inr (lw1\<lparr>LatticeM := m1, LevelM := 0, CurrentFile := CurrentFile lw1 + 1\<rparr>))
        else Inr lw0) (\<lambda>lw2.
     Inr (lw2\<lparr>Points := Points lw2 + of_nat (length (layer (LatticeM lw2 ! LevelM lw2))),
              LevelM := LevelM lw2 + 1, LevelD := LevelD lw2 + 1\<rparr>)))"

definition Pop :: "'c LatticeWrapper \<Rightarrow> ('c list option \<times> 'c LatticeWrapper) go" where
  "Pop lw =
     (let lastLevel = (int (LevelM lw) = int (length (LatticeM lw)) - 1)
      in if int (CurrentFile lw) \<ge> int (length (LatticeD lw)) - 1 \<and> lastLevel then Inr (None, lw)
         else
           rbind (if lastLevel \<and> length (LatticeD lw) > 0
                  then rbind (FetchDisk (lw\<lparr>CurrentFile := CurrentFile lw + 1\<rparr>)) (\<lambda>l. Inr (l\<lparr>LevelM := 0\<rparr>))
                  else Inr lw) (\<lambda>lw1.
           rbind (index_go (LatticeM lw1) (LevelM lw1)) (\<lambda>ret.
             Inr (ret, lw1\<lparr>LevelM := LevelM lw1 + 1, LevelD := LevelD lw1 + 1\<rparr>))))"

subsection \<open>Expanding a level\<close>

definition fastCorrectLatticePoint :: "'c vclock_ops \<Rightarrow> clock_maps \<Rightarrow> 'c \<Rightarrow> string \<Rightarrow> bool" where
  "fastCorrectLatticePoint V mClocks point i =
     (case fastSearchClockById V mClocks point i of
        None \<Rightarrow> False
      | Some clock \<Rightarrow> list_all (\<lambda>(cid, loggedTicks). \<not> loggedTicks > ticks V point cid) clock)"

definition LatticeValidWithLog :: "'c vclock_ops \<Rightarrow> 'c \<Rightarrow> 'c \<Rightarrow> bool" where
  "LatticeValidWithLog V latticePoint loggedClock =
     list_all (\<lambda>i. \<not> ticks V loggedClock i > ticks V latticePoint i) (getClockIds V latticePoint)"

definition expand_point ::
  "'c vclock_ops \<Rightarrow> clock_maps \<Rightarrow> string list \<Rightarrow> (string, 'c) gomap \<Rightarrow> 'c \<Rightarrow> (string, 'c) gomap" where
  "expand_point V mClocks ids subMap p =
     foldl (\<lambda>m i.
       let pu = Tick V (Copy V p) i; vstring = ReturnVCString V pu
       in if gomap_get m vstring = None \<and> fastCorrectLatticePoint V mClocks pu i
          then gomap_set vstring pu m else m) subMap ids"

text \<open>The slice of a level that goroutine \<open>division\<close> of \<open>d\<close> works on.\<close>

definition level_slice :: "'a list \<Rightarrow> nat \<Rightarrow> nat \<Rightarrow> 'a list" where
  "level_slice level d division =
     map (\<lambda>j. level ! j) [length level div d * division ..< length level div d * (division + 1)]"

definition sub_map ::
  "'c vclock_ops \<Rightarrow> clock_maps \<Rightarrow> string list \<Rightarrow> 'c list \<Rightarrow> nat \<Rightarrow> nat \<Rightarrow> (string, 'c) gomap" where
  "sub_map V mClocks ids level d division =
     foldl (expand_point V mClocks ids) [] (level_slice level d division)"

definition next_map ::
  "'c go_runtime \<Rightarrow> 'c vclock_ops \<Rightarrow> clock_maps \<Rightarrow> string list \<Rightarrow> 'c list \<Rightarrow> (string, 'c) gomap" where
  "next_map R V mClocks ids level =
     (let d = ThreadCount R (length level)
      in foldl (\<lambda>m division. foldl (\<lambda>m (k, v). gomap_set k v m) m (sub_map V mClocks ids level d division))
           [] (RecvOrder R [0..<d]))"

definition mapToArray :: "'c go_runtime \<Rightarrow> (string, 'c) gomap \<Rightarrow> 'c list" where
  "mapToArray R vmap = map snd (MapOrder R vmap)"

subsection \<open>Building the lattice\<close>

definition start_point :: "'c vclock_ops \<Rightarrow> string list \<Rightarrow> 'c" where
  "start_point V ids = foldl (Tick V) (New V) ids"

definition make_levels :: "u64 \<Rightarrow> 'c list option list go" where
  "make_levels n =
     (if int_of_u64 n < 0 then Inl (Panic ''makeslice: len out of range'')
      else Inr (replicate (nat (int_of_u64 n)) None))"

partial_function (option) lattice_loop ::
  "'c go_runtime \<Rightarrow> 'c vclock_ops \<Rightarrow> clock_maps \<Rightarrow> string list \<Rightarrow> 'c LatticeWrapper \<Rightarrow> 'c LatticeWrapper go option" where
  "lattice_loop R V mClocks ids lw =
     (if LevelM lw = 0 then Some (Inl IndexOutOfRange)
      else case index_go (LatticeM lw) (LevelM lw - 1) of
        Inl e \<Rightarrow> Some (Inl e)
      | Inr l \<Rightarrow>
          (if length (layer l) > 0 then
             (case Push (mapToArray R (next_map R V mClocks ids (layer l))) lw of
                Inl e \<Rightarrow> Some (Inl e)
              | Inr lw' \<Rightarrow> lattice_loop R V mClocks ids lw')
           else Some (Inr lw)))"

definition init_lattice :: "'c vclock_ops \<Rightarrow> 'c list list \<Rightarrow> string list \<Rightarrow> 'c LatticeWrapper go" where
  "init_lattice V clocks ids =
     rbind (sumTime V clocks) (\<lambda>levels.
     rbind (make_levels levels) (\<lambda>m.
     rbind (update_go m 0 (Some [start_point V ids])) (\<lambda>m0.
       Push [start_point V ids] (NewLattice\<lparr>LevelEstimate := nat (int_of_u64 levels), LatticeM := m0\<rparr>))))"

definition BuildLattice5 ::
  "'c go_runtime \<Rightarrow> 'c vclock_ops \<Rightarrow> 'c list list \<Rightarrow> 'c LatticeWrapper go option" where
  "BuildLattice5 R V clocks =
     (case rbind (idClockMapper V clocks) (\<lambda>ids.
           rbind (clocksToMaps V clocks) (\<lambda>mClocks.
           rbind (init_lattice V clocks ids) (\<lambda>lw. Inr (ids, mClocks, lw)))) of
        Inl e \<Rightarrow> Some (Inl e)
      | Inr (ids, mClocks, lw) \<Rightarrow> lattice_loop R V mClocks ids lw)"

subsection \<open>The older constructions\<close>

partial_function (option) lattice4_loop ::
  "'c go_runtime \<Rightarrow> 'c vclock_ops \<Rightarrow> clock_maps \<Rightarrow> string list \<Rightarrow> nat \<Rightarrow> 'c list option list
     \<Rightarrow> 'c list option list go option" where
  "lattice4_loop R V mClocks ids level lattice =
     (case index_go lattice level of
        Inl e \<Rightarrow> Some (Inl e)
      | Inr l \<Rightarrow>
          (if length (layer l) > 0 then
             (case update_go lattice (level + 1) (Some (mapToArray R (next_map R V mClocks ids (layer l)))) of
                Inl e \<Rightarrow> Some (Inl e)
              | Inr lattice' \<Rightarrow> lattice4_loop R V mClocks ids (level + 1) lattice')
           else Some (Inr lattice)))"

definition BuildLattice4 ::
  "'c go_runtime \<Rightarrow> 'c vclock_ops \<Rightarrow> 'c list list \<Rightarrow> 'c list option list go option" where
  "BuildLattice4 R V clocks =
     (case rbind (idClockMapper V clocks) (\<lambda>ids.
           rbind (clocksToMaps V clocks) (\<lambda>mClocks.
           rbind (sumTime V clocks) (\<lambda>levels.
           rbind (make_levels (levels * levels)) (\<lambda>m.
           rbind (update_go m 0 (Some [start_point V ids])) (\<lambda>lattice. Inr (ids, mClocks, lattice)))))) of
        Inl e \<Rightarrow> Some (Inl e)
      | Inr (ids, mClocks, lattice) \<Rightarrow> lattice4_loop R V mClocks ids 0 lattice)"

text \<open>The points \<open>CompareLattice\<close> reports: those of \<open>a\<close> with no equal point on the same level of \<open>b\<close>.\<close>

definition CompareLattice :: "'c vclock_ops \<Rightarrow> 'c list option list \<Rightarrow> 'c list option list \<Rightarrow> 'c list go" where
  "CompareLattice V a b =
     foldR (\<lambda>out i.
       foldR (\<lambda>out p.
         rbind (index_go b i) (\<lambda>bl.
           Inr (if list_ex (\<lambda>q. Compare V p q Equal) (layer bl) then out else out @ [p])))
         out (layer (a ! i))) [] [0..<length a]"

text \<open>
  \<open>BuildLattice\<close> keeps its points in two queues of \<open>gopkg.in/eapache/queue.v1\<close>, which hold values
  of type \<open>interface{}\<close>: a clock is boxed either as a value or as a pointer. The queue package is
  a parameter; its interface is the locale \<open>fifo_api\<close>.
\<close>

datatype 'c boxed = BoxValue 'c | BoxPointer 'c

record ('q, 'a) fifo_ops =
  QNew :: 'q
  QAdd :: "'q \<Rightarrow> 'a \<Rightarrow> 'q"
  QLength :: "'q \<Rightarrow> nat"
  QPeek :: "'q \<Rightarrow> 'a go"
  QRemove :: "'q \<Rightarrow> 'q go"
  QGet :: "'q \<Rightarrow> nat \<Rightarrow> 'a go"

definition as_pointer :: "'c boxed \<Rightarrow> 'c go" where
  "as_pointer x = (case x of BoxPointer c \<Rightarrow> Inr c | BoxValue _ \<Rightarrow> Inl TypeAssertion)"

definition as_value :: "'c boxed \<Rightarrow> 'c go" where
  "as_value x = (case x of BoxValue c \<Rightarrow> Inr c | BoxPointer _ \<Rightarrow> Inl TypeAssertion)"

fun queue_scan :: "('q, 'c boxed) fifo_ops \<Rightarrow> 'c vclock_ops \<Rightarrow> 'q \<Rightarrow> 'c \<Rightarrow> nat list \<Rightarrow> bool go" where
  "queue_scan Q V q v [] = Inr False"
| "queue_scan Q V q v (i # is) =
     rbind (QGet Q q i) (\<lambda>x. rbind (as_value x) (\<lambda>check.
       if Compare V v check Equal then Inr True else queue_scan Q V q v is))"

definition queueContainsClock :: "('q, 'c boxed) fifo_ops \<Rightarrow> 'c vclock_ops \<Rightarrow> 'q \<Rightarrow> 'c \<Rightarrow> bool go" where
  "queueContainsClock Q V q v = queue_scan Q V q v [0..<QLength Q q]"

definition mapToQueue :: "'c go_runtime \<Rightarrow> ('q, 'c boxed) fifo_ops \<Rightarrow> (string, 'c) gomap \<Rightarrow> 'q" where
  "mapToQueue R Q vmap = foldl (QAdd Q) (QNew Q) (map (BoxPointer \<circ> snd) (MapOrder R vmap))"

definition nearestPrecedingClock ::
  "'c vclock_ops \<Rightarrow> 'c list \<Rightarrow> 'c \<Rightarrow> nat \<Rightarrow> string \<Rightarrow> (int \<times> bool) go" where
  "nearestPrecedingClock V clocks proposedClock index i =
     rbind (index_go clocks index) (\<lambda>c.
       let loggedTicks = ticks V c i; proposedTicks = ticks V proposedClock i
       in Inr (if index = 0 \<and> proposedTicks < loggedTicks then (0, False)
               else if int index \<ge> int (length clocks) - 1 \<and> proposedTicks > loggedTicks then (0, False)
               else if proposedTicks > loggedTicks then (int index, True)
               else (int index - 1, True)))"

definition correctLatticePoint :: "'c vclock_ops \<Rightarrow> 'c list \<Rightarrow> 'c \<Rightarrow> string \<Rightarrow> bool go" where
  "correctLatticePoint V loggedClocks latticePoint i =
     (let (found, index) = searchClockById V loggedClocks latticePoint i
      in rbind (if found then Inr (int index, True)
                else nearestPrecedingClock V loggedClocks latticePoint index i) (\<lambda>(index, found).
         if index < 0 then Inl IndexOutOfRange
         else rbind (index_go loggedClocks (nat index)) (\<lambda>hostClock.
           Inr (LatticeValidWithLog V latticePoint hostClock \<and> found))))"

definition queue_point ::
  "('q, 'c boxed) fifo_ops \<Rightarrow> 'c vclock_ops \<Rightarrow> 'c list list \<Rightarrow> string list \<Rightarrow> 'c \<Rightarrow> 'q \<Rightarrow> nat \<Rightarrow> 'q go" where
  "queue_point Q V clocks ids p nxt i =
     (let pu = Tick V (Copy V p) (ids ! i)
      in rbind (queueContainsClock Q V nxt pu) (\<lambda>seen.
         if seen then Inr nxt
         else rbind (correctLatticePoint V (clocks ! i) pu (ids ! i)) (\<lambda>ok.
           Inr (if ok then QAdd Q nxt (BoxValue pu) else nxt))))"

partial_function (option) queue_level ::
  "('q, 'c boxed) fifo_ops \<Rightarrow> 'c vclock_ops \<Rightarrow> 'c list list \<Rightarrow> string list \<Rightarrow> 'q \<Rightarrow> 'q \<Rightarrow> 'c list
     \<Rightarrow> ('q \<times> 'c list) go option" where
  "queue_level Q V clocks ids current nxt lay =
     (if QLength Q current > 0 then
        (case rbind (QPeek Q current) (\<lambda>x. rbind (as_pointer x) (\<lambda>p.
              rbind (QRemove Q current) (\<lambda>current'.
              rbind (foldR (queue_point Q V clocks ids p) nxt [0..<length ids]) (\<lambda>nxt'.
                Inr (current', nxt', Copy V p))))) of
           Inl e \<Rightarrow> Some (Inl e)
         | Inr (current', nxt', p) \<Rightarrow> queue_level Q V clocks ids current' nxt' (lay @ [p]))
      else Some (Inr (nxt, lay)))"

partial_function (option) queue_levels ::
  "('q, 'c boxed) fifo_ops \<Rightarrow> 'c vclock_ops \<Rightarrow> 'c list list \<Rightarrow> string list \<Rightarrow> 'q \<Rightarrow> 'c list list
     \<Rightarrow> 'c list list go option" where
  "queue_levels Q V clocks ids nxt lattice =
     (if QLength Q nxt > 0 then
        (case queue_level Q V clocks ids nxt (QNew Q) [] of
           None \<Rightarrow> None
         | Some (Inl e) \<Rightarrow> Some (Inl e)
         | Some (Inr (nxt', lay)) \<Rightarrow> queue_levels Q V clocks ids nxt' (lattice @ [lay]))
      else Some (Inr lattice))"

definition BuildLattice ::
  "('q, 'c boxed) fifo_ops \<Rightarrow> 'c vclock_ops \<Rightarrow> 'c list list \<Rightarrow> 'c list list go option" where
  "BuildLattice Q V clocks =
     (case rbind (idClockMapper V clocks) (\<lambda>ids. rbind (sumTime V clocks) (\<lambda>levels. Inr ids)) of
        Inl e \<Rightarrow> Some (Inl e)
      | Inr ids \<Rightarrow> queue_levels Q V clocks ids (QAdd Q (QNew Q) (BoxValue (start_point V ids))) [])"

subsection \<open>Consistent cuts\<close>

text \<open>The tick of host \<open>l\<close> known to entry \<open>j\<close> of the log of host \<open>k\<close>.\<close>

abbreviation tk :: "'c vclock_ops \<Rightarrow> string list \<Rightarrow> 'c list list \<Rightarrow> nat \<Rightarrow> nat \<Rightarrow> nat \<Rightarrow> nat" where
  "tk V ids clocks k j l \<equiv> unat (ticks V (clocks ! k ! j) (ids ! l))"

text \<open>
  Logs of a distributed execution stamped with vector clocks: entry \<open>j\<close> of a host carries the
  host's tick \<open>j + 1\<close>, the first entry knows no other host, and knowledge is causal: what an
  entry knows of another host \<open>l\<close> is the clock of an event of \<open>l\<close>, everything that event knew is
  known too, and that event did not know the entry.
\<close>

definition causal_entry :: "'c vclock_ops \<Rightarrow> string list \<Rightarrow> 'c list list \<Rightarrow> nat \<Rightarrow> nat \<Rightarrow> nat \<Rightarrow> bool" where
  "causal_entry V ids clocks k j l \<longleftrightarrow>
     (let m = tk V ids clocks k j l
      in l \<noteq> k \<longrightarrow> 0 < m \<longrightarrow>
           j \<noteq> 0 \<and> m \<le> length (clocks ! l) \<and> tk V ids clocks l (m - 1) k < j + 1 \<and>
           list_all (\<lambda>i. tk V ids clocks l (m - 1) i \<le> tk V ids clocks k j i) [0..<length ids])"

definition causal_logs :: "'c vclock_ops \<Rightarrow> string list \<Rightarrow> 'c list list \<Rightarrow> bool" where
  "causal_logs V ids clocks \<longleftrightarrow>
     distinct ids \<and> length ids = length clocks \<and>
     list_all (\<lambda>k. clocks ! k \<noteq> [] \<and> length (clocks ! k) < 2 ^ 63 \<and>
       list_all (\<lambda>j. FindTicks V (clocks ! k ! j) (ids ! k) = (of_nat (j + 1), True) \<and>
         list_all (\<lambda>l. causal_entry V ids clocks k j l \<and>
           (0 < j \<longrightarrow> tk V ids clocks k (j - 1) l \<le> tk V ids clocks k j l)) [0..<length ids])
       [0..<length (clocks ! k)]) [0..<length ids]"

abbreviation log_len :: "'c list list \<Rightarrow> nat \<Rightarrow> nat" where
  "log_len clocks k \<equiv> length (clocks ! k)"

definition consistent_cut :: "'c vclock_ops \<Rightarrow> string list \<Rightarrow> 'c list list \<Rightarrow> nat list \<Rightarrow> bool" where
  "consistent_cut V ids clocks q \<longleftrightarrow> cut_of (length ids) (log_len clocks) (tk V ids clocks) q"

definition grown :: "'c vclock_ops \<Rightarrow> string list \<Rightarrow> 'c list list \<Rightarrow> nat list set \<Rightarrow> nat list set" where
  "grown V ids clocks S = grow_all (length ids) (log_len clocks) (tk V ids clocks) S"

text \<open>A lattice point \<open>p\<close> stands for the vector \<open>q\<close>.\<close>

definition point_rep :: "'c vclock_ops \<Rightarrow> string list \<Rightarrow> 'c \<Rightarrow> nat list \<Rightarrow> bool" where
  "point_rep V ids p q \<longleftrightarrow>
     length q = length ids \<and> (\<forall>k < length ids. FindTicks V p (ids ! k) = (of_nat (q ! k), True) \<and> q ! k < 2 ^ 64) \<and>
     (\<forall>i. i \<notin> set ids \<longrightarrow> FindTicks V p i = (0, False))"

definition level_rep :: "'c vclock_ops \<Rightarrow> string list \<Rightarrow> 'c list \<Rightarrow> nat list set \<Rightarrow> bool" where
  "level_rep V ids ps S \<longleftrightarrow>
     (\<forall>p \<in> set ps. \<exists>q \<in> S. point_rep V ids p q) \<and> (\<forall>q \<in> S. \<exists>p \<in> set ps. point_rep V ids p q)"

section \<open>The map of a level\<close>

text \<open>
  A map of candidate points: every entry is filed under its printed form and satisfies \<open>P\<close>,
  and every point of \<open>C\<close> is present under its printed form.
\<close>

definition point_map :: "'c vclock_ops \<Rightarrow> ('c \<Rightarrow> bool) \<Rightarrow> 'c set \<Rightarrow> (string, 'c) gomap \<Rightarrow> bool" where
  "point_map V P C m \<longleftrightarrow>
     gomap_wf m \<and> (\<forall>e \<in> set m. fst e = ReturnVCString V (snd e) \<and> P (snd e)) \<and>
     ReturnVCString V ` C \<subseteq> fst ` set m"

lemma point_mapD:
  assumes "point_map V P C m"
  shows "gomap_wf m" "\<And>e. e \<in> set m \<Longrightarrow> fst e = ReturnVCString V (snd e)"
    "\<And>e. e \<in> set m \<Longrightarrow> P (snd e)" "ReturnVCString V ` C \<subseteq> fst ` set m"
  using assms unfolding point_map_def by blast+

lemma point_map_empty: "point_map V P {} []"
  by (simp add: point_map_def)

lemma set_gomap_set: "e \<in> set (gomap_set s v m) \<Longrightarrow> e = (s, v) \<or> e \<in> set m"
  by (induction m) (auto split: if_splits)

lemma point_map_set:
  assumes "point_map V P C m" and "P v" and "s = ReturnVCString V v"
  shows "point_map V P (insert v C) (gomap_set s v m)"
proof -
  have "fst ` set (gomap_set s v m) = insert s (fst ` set m)"
    by (simp add: dom_update)
  then have "ReturnVCString V ` insert v C \<subseteq> fst ` set (gomap_set s v m)"
    using point_mapD(4) [OF assms(1)] assms(3) by blast
  moreover have "fst e = ReturnVCString V (snd e) \<and> P (snd e)" if "e \<in> set (gomap_set s v m)" for e
  proof (cases "e = (s, v)")
    case True
    then show ?thesis using assms(2,3) by simp
  next
    case False
    then have "e \<in> set m" using set_gomap_set [OF that] by blast
    then show ?thesis using point_mapD(2,3) [OF assms(1)] by blast
  qed
  ultimately show ?thesis using point_mapD(1) [OF assms(1)] unfolding point_map_def by simp
qed

lemma gomap_get_key: "gomap_get m s = Some v \<Longrightarrow> s \<in> fst ` set m"
  using map_of_eq_None_iff [of m s] by auto

lemma point_map_keep:
  assumes "point_map V P C m" and "gomap_get m (ReturnVCString V v) \<noteq> None"
  shows "point_map V P (insert v C) m"
proof -
  have "ReturnVCString V v \<in> fst ` set m" using assms(2) by (auto dest: gomap_get_key)
  with assms(1) show ?thesis unfolding point_map_def by blast
qed

lemma point_map_try:
  "point_map V P C m \<Longrightarrow> P v \<Longrightarrow>
   point_map V P (insert v C) (if gomap_get m (ReturnVCString V v) = None then gomap_set (ReturnVCString V v) v m else m)"
  by (simp add: point_map_set point_map_keep)

definition next_of :: "'c vclock_ops \<Rightarrow> clock_maps \<Rightarrow> string list \<Rightarrow> 'c \<Rightarrow> 'c set" where
  "next_of V mClocks ids p =
     {Tick V (Copy V p) i | i. i \<in> set ids \<and> fastCorrectLatticePoint V mClocks (Tick V (Copy V p) i) i}"

lemma expand_point_map:
  assumes "point_map V P C m" and "\<And>v. v \<in> next_of V mClocks ids p \<Longrightarrow> P v"
  shows "point_map V P (C \<union> next_of V mClocks ids p) (expand_point V mClocks ids m p)"
proof -
  let ?f = "\<lambda>m i. let pu = Tick V (Copy V p) i; vstring = ReturnVCString V pu
       in if gomap_get m vstring = None \<and> fastCorrectLatticePoint V mClocks pu i
          then gomap_set vstring pu m else m"
  have "point_map V P (C \<union> next_of V mClocks js p) (foldl ?f m js)" if "set js \<subseteq> set ids" for js
    using that
  proof (induction js rule: rev_induct)
    case Nil
    then show ?case using assms(1) by (simp add: next_of_def)
  next
    case (snoc i js)
    let ?pu = "Tick V (Copy V p) i" and ?m = "foldl ?f m js"
    have IH: "point_map V P (C \<union> next_of V mClocks js p) ?m" using snoc by simp
    show ?case
    proof (cases "fastCorrectLatticePoint V mClocks ?pu i")
      case True
      then have eq: "next_of V mClocks (js @ [i]) p = insert ?pu (next_of V mClocks js p)"
        by (auto simp: next_of_def)
      have "P ?pu" using assms(2) True snoc.prems by (auto simp: next_of_def)
      then have "point_map V P (insert ?pu (C \<union> next_of V mClocks js p)) (?f ?m i)"
        using point_map_try [OF IH] True by (simp only: Let_def) (simp only: simp_thms)
      then show ?thesis by (simp add: eq)
    next
      case False
      then have "next_of V mClocks (js @ [i]) p = next_of V mClocks js p"
        by (auto simp: next_of_def)
      with IH False show ?thesis by simp
    qed
  qed
  then show ?thesis unfolding expand_point_def by blast
qed

lemma sub_map_points:
  assumes "\<And>p v. p \<in> set (level_slice level d k) \<Longrightarrow> v \<in> next_of V mClocks ids p \<Longrightarrow> P v"
  shows "point_map V P (\<Union>p \<in> set (level_slice level d k). next_of V mClocks ids p) (sub_map V mClocks ids level d k)"
proof -
  have "point_map V P (\<Union>p \<in> set ps. next_of V mClocks ids p) (foldl (expand_point V mClocks ids) [] ps)"
    if "set ps \<subseteq> set (level_slice level d k)" for ps
    using that
  proof (induction ps rule: rev_induct)
    case (snoc p ps)
    then have "point_map V P ((\<Union>p \<in> set ps. next_of V mClocks ids p) \<union> next_of V mClocks ids p)
        (expand_point V mClocks ids (foldl (expand_point V mClocks ids) [] ps) p)"
      using assms by (intro expand_point_map) auto
    then show ?case by (simp add: Un_commute)
  qed (simp add: point_map_empty)
  then show ?thesis unfolding sub_map_def by blast
qed

lemma merge_point_maps:
  assumes "point_map V P C m" and "point_map V P C' m'"
  shows "point_map V P (C \<union> C') (foldl (\<lambda>m (k, v). gomap_set k v m) m m')"
proof -
  let ?g = "\<lambda>m (k, v). gomap_set k v m"
  have ent: "s = ReturnVCString V v" "P v" if "(s, v) \<in> set m'" for s v
    using assms(2) that by (auto simp: point_map_def)
  have "point_map V P (C \<union> snd ` set es) (foldl ?g m es)" if "set es \<subseteq> set m'" for es
    using that
  proof (induction es rule: rev_induct)
    case (snoc e es)
    obtain s v where e: "e = (s, v)" by force
    with snoc ent [of s v] have "point_map V P (insert v (C \<union> snd ` set es)) (gomap_set s v (foldl ?g m es))"
      by (intro point_map_set) auto
    then show ?case by (simp add: e Un_assoc insert_commute)
  qed (simp add: assms(1))
  then have r: "point_map V P (C \<union> snd ` set m') (foldl ?g m m')" by blast
  have "ReturnVCString V ` C' \<subseteq> ReturnVCString V ` snd ` set m'"
  proof
    fix s
    assume "s \<in> ReturnVCString V ` C'"
    then obtain e where e: "e \<in> set m'" "s = fst e" using point_mapD(4) [OF assms(2)] by blast
    with point_mapD(2) [OF assms(2)] show "s \<in> ReturnVCString V ` snd ` set m'" by simp
  qed
  then have "ReturnVCString V ` (C \<union> C') \<subseteq> fst ` set (foldl ?g m m')"
    using point_mapD(4) [OF r] by blast
  with point_mapD(1-3) [OF r] show ?thesis unfolding point_map_def by blast
qed

text \<open>The points of a level that some goroutine works on.\<close>

definition processed :: "nat \<Rightarrow> 'a list \<Rightarrow> 'a set" where
  "processed d level = (\<Union>k \<in> {..<d}. set (level_slice level d k))"

lemma next_map_points:
  assumes "runtime_ok R"
    and "\<And>p v. p \<in> processed (ThreadCount R (length level)) level \<Longrightarrow> v \<in> next_of V mClocks ids p \<Longrightarrow> P v"
  shows "point_map V P (\<Union>p \<in> processed (ThreadCount R (length level)) level. next_of V mClocks ids p)
    (next_map R V mClocks ids level)"
proof -
  let ?d = "ThreadCount R (length level)"
  let ?h = "\<lambda>m k. foldl (\<lambda>m (k, v). gomap_set k v m) m (sub_map V mClocks ids level ?d k)"
  let ?N = "\<lambda>k. \<Union>p \<in> set (level_slice level ?d k). next_of V mClocks ids p"
  have "set_mset (mset (RecvOrder R [0..<?d])) = set_mset (mset [0..<?d])"
    using assms(1) by (simp only: runtime_ok_def)
  then have set: "set (RecvOrder R [0..<?d]) = {..<?d}"
    by (simp only: set_mset_mset set_upt atLeast0LessThan)
  have "point_map V P (\<Union>k \<in> set ks. ?N k) (foldl ?h [] ks)" if "set ks \<subseteq> {..<?d}" for ks
    using that
  proof (induction ks rule: rev_induct)
    case (snoc k ks)
    have "point_map V P (?N k) (sub_map V mClocks ids level ?d k)"
      using snoc.prems by (intro sub_map_points assms(2)) (auto simp: processed_def)
    with snoc have "point_map V P ((\<Union>k \<in> set ks. ?N k) \<union> ?N k) (?h (foldl ?h [] ks) k)"
      by (intro merge_point_maps) auto
    then show ?case by (simp add: Un_commute)
  qed (simp add: point_map_empty)
  from this [of "RecvOrder R [0..<?d]"] have
    "point_map V P (\<Union>k \<in> {..<?d}. ?N k) (next_map R V mClocks ids level)"
    unfolding next_map_def Let_def set by blast
  then show ?thesis unfolding processed_def UN_UN_flatten .
qed

section \<open>Slices of a level\<close>

lemma concat_level_slices:
  assumes "0 < d"
  shows "concat (map (level_slice level d) [0..<d]) = take (length level div d * d) level"
proof -
  let ?w = "length level div d"
  have "concat (map (level_slice level d) [0..<m]) = map ((!) level) [0..<?w * m]" for m
  proof (induction m)
    case (Suc m)
    have "[0..<?w * Suc m] = [0..<?w * m] @ [?w * m..<?w * (m + 1)]"
      by (metis Suc_eq_plus1 le_add1 mult_Suc_right add.commute upt_add_eq_append zero_le)
    with Suc show ?case by (simp add: level_slice_def)
  qed simp
  from this [of d] have "concat (map (level_slice level d) [0..<d]) = map ((!) level) [0..<?w * d]" .
  also have "\<dots> = take (?w * d) level"
    by (rule nth_equalityI) (use div_times_less_eq_dividend [of "length level" d] in auto)
  finally show ?thesis .
qed

lemma processed_eq: "0 < d \<Longrightarrow> processed d level = set (take (length level div d * d) level)"
  unfolding processed_def concat_level_slices [symmetric] by (auto simp: atLeast0LessThan)

lemma processed_dvd: "0 < d \<Longrightarrow> d dvd length level \<Longrightarrow> processed d level = set level"
  by (simp add: processed_eq)

section \<open>Points and cuts\<close>

lemma unat_of_nat_u64: "m < 2 ^ 64 \<Longrightarrow> unat (of_nat m :: u64) = m"
  by (simp add: unat_of_nat take_bit_nat_eq_self)

lemma of_nat_u64_inj: "m < 2 ^ 64 \<Longrightarrow> m' < 2 ^ 64 \<Longrightarrow> (of_nat m :: u64) = of_nat m' \<longleftrightarrow> m = m'"
  by (metis unat_of_nat_u64)

lemma causal_logsD:
  assumes "causal_logs V ids clocks"
  shows "distinct ids" "length ids = length clocks"
    "\<And>k. k < length ids \<Longrightarrow> clocks ! k \<noteq> []" "\<And>k. k < length ids \<Longrightarrow> log_len clocks k < 2 ^ 63"
    "\<And>k j. k < length ids \<Longrightarrow> j < log_len clocks k \<Longrightarrow> FindTicks V (clocks ! k ! j) (ids ! k) = (of_nat (j + 1), True)"
    "\<And>k j l. k < length ids \<Longrightarrow> j < log_len clocks k \<Longrightarrow> l < length ids \<Longrightarrow> causal_entry V ids clocks k j l"
    "\<And>k j l. k < length ids \<Longrightarrow> Suc j < log_len clocks k \<Longrightarrow> l < length ids \<Longrightarrow>
       tk V ids clocks k j l \<le> tk V ids clocks k (Suc j) l"
  using assms unfolding causal_logs_def by (auto simp: list_all_iff) force

lemma causal_system_logs:
  assumes "causal_logs V ids clocks"
  shows "causal_system (length ids) (log_len clocks) (tk V ids clocks)"
proof
  fix k j
  assume k: "k < length ids"
  then show "0 < log_len clocks k" using causal_logsD(3) [OF assms k] by simp
  assume j: "j < log_len clocks k"
  then show "tk V ids clocks k j k = Suc j"
    using causal_logsD(4,5) [OF assms k] by (simp add: unat_of_nat_u64 del: of_nat_Suc)
  fix l
  assume l: "l < length ids" "l \<noteq> k"
  from causal_logsD(6) [OF assms k j l(1)] show "tk V ids clocks k j l \<le> log_len clocks l"
    using l by (auto simp: causal_entry_def Let_def) 
  assume pos: "0 < tk V ids clocks k j l"
  from causal_logsD(6) [OF assms k j l(1)] show "tk V ids clocks l (tk V ids clocks k j l - 1) k < Suc j"
    using l pos by (simp add: causal_entry_def Let_def)
  fix i
  assume "i < length ids"
  with causal_logsD(6) [OF assms k j l(1)]
  show "tk V ids clocks l (tk V ids clocks k j l - 1) i \<le> tk V ids clocks k j i"
    using l pos by (simp add: causal_entry_def Let_def list_all_iff)
next
  fix k l
  assume "k < length ids" "l < length ids" "l \<noteq> k"
  then show "tk V ids clocks k 0 l = 0"
    using causal_logsD(6) [OF assms, of k 0 l] causal_logsD(3) [OF assms, of k]
    by (auto simp: causal_entry_def Let_def)
next
  fix k j l
  assume "k < length ids" "Suc j < log_len clocks k" "l < length ids"
  then show "tk V ids clocks k j l \<le> tk V ids clocks k (Suc j) l"
    by (rule causal_logsD(7) [OF assms])
qed

lemma log_map_dense:
  assumes logs: "causal_logs V ids clocks" and k: "k < length ids" and m: "m < 2 ^ 64"
  shows "gomap_get (log_map V ids (ids ! k) (clocks ! k)) (of_nat m) =
    (if 0 < m \<and> m \<le> log_len clocks k then Some (log_entry_map V ids (clocks ! k ! (m - 1))) else None)"
proof -
  let ?P = "\<lambda>c. has_id V c (ids ! k) \<and> ticks V c (ids ! k) = of_nat m"
  have own: "?P (clocks ! k ! j) \<longleftrightarrow> j + 1 = m" if "j < log_len clocks k" for j
    using causal_logsD(5) [OF logs k that] causal_logsD(4) [OF logs k] that m
    by (auto simp: of_nat_u64_inj simp del: of_nat_Suc of_nat_add)
  show ?thesis
  proof (cases "0 < m \<and> m \<le> log_len clocks k")
    case True
    then have "clocks ! k ! (m - 1) \<in> set (filter ?P (clocks ! k))" using own [of "m - 1"] by auto
    then obtain x xs where f: "filter ?P (clocks ! k) = x # xs" by (cases "filter ?P (clocks ! k)") auto
    then have "last (x # xs) \<in> set (filter ?P (clocks ! k))" by (metis last_in_set list.discI)
    then obtain j where "j < log_len clocks k" "last (x # xs) = clocks ! k ! j" "?P (clocks ! k ! j)"
      by (auto simp: in_set_conv_nth)
    then have "last (x # xs) = clocks ! k ! (m - 1)" using own by auto
    with True f show ?thesis by (simp add: log_map_get)
  next
    case False
    then have "filter ?P (clocks ! k) = []"
      using own by (auto simp: filter_empty_conv in_set_conv_nth)
    with False show ?thesis unfolding log_map_get by simp
  qed
qed

lemma getClockId_hostname:
  assumes "getClockId V cs = Inr h"
  shows "hostname h"
proof -
  have m: "match_id_at s = Some h \<Longrightarrow> hostname h" for s
    by (induction s rule: match_id_at.induct)
      (auto simp: Let_def hostname_def list_all_iff split: if_splits dest: set_takeWhileD)
  have "find_id s = Some h \<Longrightarrow> hostname h" for s
    by (induction s rule: find_id.induct) (auto split: option.splits dest: m)
  with assms show ?thesis
    by (auto simp: getClockId_def hostname_def is_hostchar_def split: list.splits option.splits)
qed

lemma idClockMapper_hostnames: "idClockMapper V clocks = Inr ids \<Longrightarrow> i \<in> set ids \<Longrightarrow> hostname i"
  by (auto simp: idClockMapper_def traverse_Inr_iff in_set_conv_nth dest: getClockId_hostname)

context vclock_api
begin

lemma point_rep_unique:
  assumes "point_rep V ids p q" and "point_rep V ids p q'"
  shows "q = q'"
proof (rule nth_equalityI)
  show "length q = length q'" using assms by (simp add: point_rep_def)
  fix k
  assume "k < length q"
  then have "(of_nat (q ! k) :: u64) = of_nat (q' ! k)" "q ! k < 2 ^ 64" "q' ! k < 2 ^ 64"
    using assms by (auto simp: point_rep_def)
  then show "q ! k = q' ! k" by (simp add: of_nat_u64_inj)
qed

lemma point_rep_same:
  assumes "point_rep V ids p q" and "point_rep V ids p' q"
  shows "FindTicks V p i = FindTicks V p' i"
proof (cases "i \<in> set ids")
  case True
  then obtain k where "k < length ids" "i = ids ! k" by (auto simp: in_set_conv_nth)
  with assms show ?thesis by (simp add: point_rep_def)
next
  case False
  with assms show ?thesis by (simp add: point_rep_def)
qed

lemma point_rep_cong:
  "point_rep V ids p q \<Longrightarrow> (\<And>i. FindTicks V p' i = FindTicks V p i) \<Longrightarrow> point_rep V ids p' q"
  by (simp add: point_rep_def)

lemma point_rep_ids: "point_rep V ids p q \<Longrightarrow> has_id V p i \<longleftrightarrow> i \<in> set ids"
  by (metis point_rep_def in_set_conv_nth snd_conv)

lemma point_rep_tick:
  assumes "point_rep V ids p q" and "distinct ids" and "k < length ids" and "Suc (q ! k) < 2 ^ 64"
  shows "point_rep V ids (Tick V (Copy V p) (ids ! k)) (q[k := Suc (q ! k)])"
proof -
  have "FindTicks V (Tick V (Copy V p) (ids ! k)) (ids ! l) = (of_nat (q[k := Suc (q ! k)] ! l), True)
      \<and> q[k := Suc (q ! k)] ! l < 2 ^ 64" if "l < length ids" for l
    using assms that by (cases "l = k") (auto simp: point_rep_def find_Tick find_Copy nth_eq_iff_index_eq)
  with assms show ?thesis by (auto simp: point_rep_def find_Tick find_Copy)
qed

lemma start_point_rep:
  assumes "distinct ids"
  shows "point_rep V ids (start_point V ids) (replicate (length ids) 1)"
proof -
  have "distinct js \<Longrightarrow> FindTicks V (foldl (Tick V) (New V) js) i = (if i \<in> set js then (1, True) else (0, False))" for js i
    by (induction js rule: rev_induct) (auto simp: find_Tick find_New)
  then show ?thesis using assms by (simp add: point_rep_def start_point_def)
qed

lemma fastCorrect_iff:
  assumes logs: "causal_logs V ids clocks" and "idClockMapper V clocks = Inr ids"
    and "clocksToMaps V clocks = Inr mClocks" and k: "k < length ids" and rep: "point_rep V ids p q"
  shows "fastCorrectLatticePoint V mClocks p (ids ! k) \<longleftrightarrow>
    0 < q ! k \<and> q ! k \<le> log_len clocks k \<and> (\<forall>l < length ids. tk V ids clocks k (q ! k - 1) l \<le> q ! l)"
proof -
  note get = clocksToMaps_get [OF assms(2) causal_logsD(1) [OF logs] assms(3) k]
  have p: "FindTicks V p (ids ! k) = (of_nat (q ! k), True)" and lt: "q ! k < 2 ^ 64"
    using rep k by (auto simp: point_rep_def)
  show ?thesis
  proof (cases "0 < q ! k \<and> q ! k \<le> log_len clocks k")
    case True
    let ?c = "clocks ! k ! (q ! k - 1)" and ?m = "log_entry_map V ids (clocks ! k ! (q ! k - 1))"
    have own: "FindTicks V ?c (ids ! k) = (of_nat (q ! k), True)"
      using causal_logsD(5) [OF logs k, of "q ! k - 1"] True by auto
    have "fastSearchClockById V mClocks p (ids ! k) = Some ?m"
      using True p own k by (simp add: fastSearchClockById_def get log_map_dense [OF logs k lt] Let_def
          gomap_get0_def log_entry_map_get)
    moreover have "list_all (\<lambda>(cid, t). \<not> t > ticks V p cid) ?m \<longleftrightarrow>
        (\<forall>l < length ids. has_id V ?c (ids ! l) \<longrightarrow> ticks V ?c (ids ! l) \<le> ticks V p (ids ! l))"
      unfolding log_entry_map_all by (auto simp: all_set_conv_all_nth not_less)
    moreover have "(has_id V ?c (ids ! l) \<longrightarrow> ticks V ?c (ids ! l) \<le> ticks V p (ids ! l)) \<longleftrightarrow>
        tk V ids clocks k (q ! k - 1) l \<le> q ! l" if "l < length ids" for l
      using rep that find_absent [of ?c "ids ! l"]
      by (auto simp: point_rep_def word_le_nat_alt unat_of_nat_u64)
    ultimately show ?thesis using True by (simp add: fastCorrectLatticePoint_def)
  next
    case False
    then have "fastSearchClockById V mClocks p (ids ! k) = None"
      using p by (auto simp: fastSearchClockById_def get log_map_dense [OF logs k lt] Let_def)
    with False show ?thesis by (auto simp: fastCorrectLatticePoint_def)
  qed
qed

lemma next_of_sound:
  assumes logs: "causal_logs V ids clocks" "idClockMapper V clocks = Inr ids" "clocksToMaps V clocks = Inr mClocks"
    and rep: "point_rep V ids p q" and cut: "consistent_cut V ids clocks q" and v: "v \<in> next_of V mClocks ids p"
  shows "\<exists>k. can_grow (length ids) (log_len clocks) (tk V ids clocks) q k \<and> point_rep V ids v (q[k := Suc (q ! k)])"
proof -
  obtain k where k: "k < length ids" "v = Tick V (Copy V p) (ids ! k)" "fastCorrectLatticePoint V mClocks v (ids ! k)"
    using v by (auto simp: next_of_def in_set_conv_nth)
  have "q ! k \<le> log_len clocks k" and len: "length q = length ids"
    using cut k by (auto simp: consistent_cut_def cut_of_def)
  then have "Suc (q ! k) < 2 ^ 64" using causal_logsD(4) [OF logs(1) k(1)] by simp
  with rep k have r: "point_rep V ids v (q[k := Suc (q ! k)])"
    using point_rep_tick causal_logsD(1) [OF logs(1)] by blast
  moreover have "can_grow (length ids) (log_len clocks) (tk V ids clocks) q k"
    using fastCorrect_iff [OF logs k(1) r] k len by (auto simp: can_grow_def)
  ultimately show ?thesis by blast
qed

lemma next_of_complete:
  assumes logs: "causal_logs V ids clocks" "idClockMapper V clocks = Inr ids" "clocksToMaps V clocks = Inr mClocks"
    and rep: "point_rep V ids p q" and len: "length q = length ids"
    and grow: "can_grow (length ids) (log_len clocks) (tk V ids clocks) q k"
  shows "Tick V (Copy V p) (ids ! k) \<in> next_of V mClocks ids p
    \<and> point_rep V ids (Tick V (Copy V p) (ids ! k)) (q[k := Suc (q ! k)])"
proof -
  have k: "k < length ids" "q ! k < log_len clocks k" using grow by (auto simp: can_grow_def)
  then have "Suc (q ! k) < 2 ^ 64" using causal_logsD(4) [OF logs(1) k(1)] by simp
  with rep k have r: "point_rep V ids (Tick V (Copy V p) (ids ! k)) (q[k := Suc (q ! k)])"
    using point_rep_tick causal_logsD(1) [OF logs(1)] by blast
  moreover have "fastCorrectLatticePoint V mClocks (Tick V (Copy V p) (ids ! k)) (ids ! k)"
    using fastCorrect_iff [OF logs k(1) r] grow k len by (simp add: can_grow_def)
  ultimately show ?thesis using k by (auto simp: next_of_def)
qed

lemma next_level_map:
  assumes logs: "causal_logs V ids clocks" "idClockMapper V clocks = Inr ids" "clocksToMaps V clocks = Inr mClocks"
    and R: "runtime_ok R" and rep: "\<forall>p \<in> set ps. \<exists>q \<in> S. point_rep V ids p q"
    and cuts: "\<forall>q \<in> S. consistent_cut V ids clocks q"
  shows "point_map V (\<lambda>v. \<exists>q \<in> grown V ids clocks S. point_rep V ids v q)
    (\<Union>p \<in> processed (ThreadCount R (length ps)) ps. next_of V mClocks ids p) (next_map R V mClocks ids ps)"
proof (rule next_map_points [OF R])
  fix p v
  assume p: "p \<in> processed (ThreadCount R (length ps)) ps" and v: "v \<in> next_of V mClocks ids p"
  have "0 < ThreadCount R (length ps)" using R by (simp add: ThreadCount_def runtime_ok_def)
  then have "p \<in> set ps" using p by (auto simp: processed_eq dest: in_set_takeD)
  with rep obtain q where q: "q \<in> S" "point_rep V ids p q" by blast
  with next_of_sound [OF logs q(2) _ v] cuts show "\<exists>q \<in> grown V ids clocks S. point_rep V ids v q"
    unfolding grown_def grow_all_def by blast
qed

lemma set_mapToArray: "runtime_ok R \<Longrightarrow> set (mapToArray R m) = snd ` set m"
  unfolding runtime_ok_def mapToArray_def by (metis list.set_map set_mset_mset)

lemma next_level_distinct:
  assumes "runtime_ok R" and "point_map V P C m"
  shows "distinct (map (ReturnVCString V) (mapToArray R m))"
proof -
  have perm: "mset (MapOrder R m) = mset m" using assms(1) by (simp add: runtime_ok_def)
  have "map (ReturnVCString V) (mapToArray R m) = map fst (MapOrder R m)"
    using point_mapD(2) [OF assms(2)] mset_eq_setD [OF perm] by (auto simp: mapToArray_def)
  moreover have "mset (map fst (MapOrder R m)) = mset (map fst m)" using perm by (simp only: mset_map)
  moreover have "distinct (map fst m)" using point_mapD(1) [OF assms(2)] by (simp add: gomap_wf_def)
  ultimately show ?thesis by (metis mset_eq_imp_distinct_iff)
qed

lemma next_level:
  assumes logs: "causal_logs V ids clocks" "idClockMapper V clocks = Inr ids" "clocksToMaps V clocks = Inr mClocks"
    and R: "runtime_ok R" and rep: "level_rep V ids ps S" and cuts: "\<forall>q \<in> S. consistent_cut V ids clocks q"
    and full: "ThreadCount R (length ps) dvd length ps"
  shows "level_rep V ids (mapToArray R (next_map R V mClocks ids ps)) (grown V ids clocks S)"
proof -
  let ?m = "next_map R V mClocks ids ps"
  have pos: "0 < ThreadCount R (length ps)" using R by (simp add: ThreadCount_def runtime_ok_def)
  have map: "point_map V (\<lambda>v. \<exists>q \<in> grown V ids clocks S. point_rep V ids v q)
      (\<Union>p \<in> set ps. next_of V mClocks ids p) ?m"
    using next_level_map [OF logs R _ cuts, of ps] rep unfolding processed_dvd [OF pos full]
    by (simp add: level_rep_def)
  have host: "hostname i" if "point_rep V ids v q" "has_id V v i" for v q i
    using that point_rep_ids idClockMapper_hostnames [OF logs(2)] by blast
  have "\<exists>p' \<in> set (mapToArray R ?m). point_rep V ids p' q'" if in': "q' \<in> grown V ids clocks S" for q'
  proof -
    obtain q k where q: "q \<in> S" "can_grow (length ids) (log_len clocks) (tk V ids clocks) q k"
      and q': "q' = q[k := Suc (q ! k)]"
      using in' by (auto simp: grown_def grow_all_def)
    obtain p where p: "p \<in> set ps" "point_rep V ids p q" using rep q(1) by (auto simp: level_rep_def)
    let ?v = "Tick V (Copy V p) (ids ! k)"
    have v: "?v \<in> next_of V mClocks ids p" "point_rep V ids ?v q'"
      using next_of_complete [OF logs p(2) _ q(2)] p(2) q' by (auto simp: point_rep_def)
    then have "ReturnVCString V ?v \<in> fst ` set ?m" using point_mapD(4) [OF map] p(1) by blast
    then obtain e where e: "e \<in> set ?m" "ReturnVCString V ?v = fst e" by auto
    obtain q'' where "point_rep V ids (snd e) q''" using point_mapD(3) [OF map e(1)] by auto
    then have "FindTicks V (snd e) i = FindTicks V ?v i" for i
      using same_string_same_entries [of "snd e" ?v i] host v(2) e point_mapD(2) [OF map e(1)] by metis
    then have "point_rep V ids (snd e) q'" using point_rep_cong [OF v(2)] by blast
    with e(1) show ?thesis using set_mapToArray [OF R] by blast
  qed
  moreover have "\<exists>q' \<in> grown V ids clocks S. point_rep V ids p' q'" if "p' \<in> set (mapToArray R ?m)" for p'
    using that set_mapToArray [OF R] point_mapD(3) [OF map] by auto
  ultimately show ?thesis by (simp add: level_rep_def)
qed

lemma level_length:
  assumes "finite S" and "\<forall>p \<in> set ps. \<exists>q \<in> S. point_rep V ids p q" and "distinct (map (ReturnVCString V) ps)"
  shows "length ps \<le> card S"
proof -
  define f where "f p = (SOME q. q \<in> S \<and> point_rep V ids p q)" for p
  have f: "f p \<in> S \<and> point_rep V ids p (f p)" if "p \<in> set ps" for p
    unfolding f_def by (rule someI_ex) (use assms(2) that in blast)
  have inj: "inj_on (ReturnVCString V) (set ps)" and dist: "distinct ps"
    using assms(3) by (auto simp: distinct_map)
  have "inj_on f (set ps)"
  proof (rule inj_onI)
    fix p p'
    assume p: "p \<in> set ps" "p' \<in> set ps" "f p = f p'"
    then have "ReturnVCString V p = ReturnVCString V p'"
      using f point_rep_same same_entries_same_string by metis
    with inj p show "p = p'" by (auto dest: inj_onD)
  qed
  then have "card (set ps) \<le> card S" using f assms(1) by (intro card_inj_on_le [of f]) auto
  then show ?thesis using dist by (simp add: distinct_card)
qed

end

end
