(* ===== verification/Lattice_Build.thy ===== *)
theory Lattice_Build
  imports Lattice
begin

text \<open>
  \<open>BuildLattice5\<close> of \<open>logmerger/lattice.go\<close> computes the consistent cuts of the logs, level by
  level: it ends without a run-time failure, level \<open>j\<close> of the result represents the consistent
  cuts with \<open>j\<close> events beyond the first ones, and no consistent cut lies above the last level.
\<close>

section \<open>The cuts of the logs\<close>

interpretation logs: causal_system "if causal_logs V ids clocks then length ids else 0" "log_len clocks" "tk V ids clocks"
  for V ids clocks
proof (cases "causal_logs V ids clocks")
  case True
  then show "causal_system (if causal_logs V ids clocks then length ids else 0) (log_len clocks) (tk V ids clocks)"
    by (simp add: causal_system_logs)
next
  case False
  then show "causal_system (if causal_logs V ids clocks then length ids else 0) (log_len clocks) (tk V ids clocks)"
    by unfold_locales simp_all
qed

abbreviation cuts_at :: "'c vclock_ops \<Rightarrow> string list \<Rightarrow> 'c list list \<Rightarrow> nat \<Rightarrow> nat list set" where
  "cuts_at V ids clocks m \<equiv> cut_level (length ids) (log_len clocks) (tk V ids clocks) m"

lemma cuts_at_eq:
  assumes "causal_logs V ids clocks"
  shows "cuts_at V ids clocks m = {q. consistent_cut V ids clocks q \<and> sum_list q = length ids + m}"
  using logs.cut_level_eq [of V ids clocks m] assms by (simp add: consistent_cut_def)

lemma cuts_at_Suc: "cuts_at V ids clocks (Suc m) = grown V ids clocks (cuts_at V ids clocks m)"
  by (simp add: grown_def)

text \<open>All vectors of event counts, the cuts among them.\<close>

abbreviation count_vectors :: "'c list list \<Rightarrow> nat list list" where
  "count_vectors clocks \<equiv> product_lists (map (\<lambda>cs. [1..<Suc (length cs)]) clocks)"

lemma cut_in_vectors:
  assumes "length ids = length clocks" and "consistent_cut V ids clocks q"
  shows "q \<in> set (count_vectors clocks)"
proof -
  have "length q = length clocks" "\<And>k. k < length clocks \<Longrightarrow> 0 < q ! k \<and> q ! k \<le> log_len clocks k"
    using assms by (auto simp: consistent_cut_def cut_of_def)
  then have "\<forall>k < length clocks. q ! k \<in> set [1..<Suc (log_len clocks k)]" "length q = length clocks"
    by (simp_all add: Suc_le_eq less_Suc_eq_le del: upt_Suc)
  then show ?thesis by (simp add: product_lists_set list_all2_conv_all_nth del: upt_Suc set_upt)
qed

lemma length_count_vectors: "length (count_vectors clocks) = prod_list (map length clocks)"
proof (induction clocks)
  case (Cons cs clocks)
  have *: "length (concat (map (\<lambda>x. map (Cons x) ys) xs)) = length xs * length ys" for xs and ys :: "nat list list"
    by (induction xs) simp_all
  show ?case unfolding list.map product_lists.simps * Cons by (simp del: upt_Suc)
qed simp

lemma finite_cuts:
  assumes "causal_logs V ids clocks"
  shows "finite {q. consistent_cut V ids clocks q}"
    and "card {q. consistent_cut V ids clocks q} \<le> prod_list (map length clocks)"
proof -
  let ?A = "set (count_vectors clocks)"
  have sub: "{q. consistent_cut V ids clocks q} \<subseteq> ?A"
    using cut_in_vectors [OF causal_logsD(2) [OF assms]] by blast
  then show "finite {q. consistent_cut V ids clocks q}" by (rule finite_subset) simp
  have "card {q. consistent_cut V ids clocks q} \<le> card ?A" using sub by (intro card_mono) auto
  also have "\<dots> \<le> prod_list (map length clocks)"
    using card_length [of "count_vectors clocks"] by (simp only: length_count_vectors)
  finally show "card {q. consistent_cut V ids clocks q} \<le> prod_list (map length clocks)" .
qed

lemma sum_card_levels:
  assumes "causal_logs V ids clocks"
  shows "finite (cuts_at V ids clocks j)"
    and "(\<Sum>j\<le>m. card (cuts_at V ids clocks j)) \<le> card {q. consistent_cut V ids clocks q}"
proof -
  have sub: "cuts_at V ids clocks j \<subseteq> {q. consistent_cut V ids clocks q}" for j
    by (auto simp: cuts_at_eq [OF assms])
  then show fin: "finite (cuts_at V ids clocks j)" for j using finite_cuts(1) [OF assms] finite_subset by blast
  have "(\<Sum>j\<le>m. card (cuts_at V ids clocks j)) = card (\<Union>j\<le>m. cuts_at V ids clocks j)"
    using fin by (intro card_UN_disjoint [symmetric]) (auto simp: cuts_at_eq [OF assms])
  also have "\<dots> \<le> card {q. consistent_cut V ids clocks q}"
    using sub finite_cuts(1) [OF assms] by (intro card_mono) auto
  finally show "(\<Sum>j\<le>m. card (cuts_at V ids clocks j)) \<le> card {q. consistent_cut V ids clocks q}" .
qed

lemma sum_cut_le:
  assumes "length ids = length clocks" and "consistent_cut V ids clocks q"
  shows "sum_list q \<le> sum_list (map length clocks)"
proof -
  have "length q = length clocks" "\<And>k. k < length clocks \<Longrightarrow> q ! k \<le> log_len clocks k"
    using assms by (auto simp: consistent_cut_def cut_of_def)
  then show ?thesis by (intro sum_list_mono2) simp_all
qed

section \<open>The height of the lattice\<close>

lemma int_of_u64_small: "unat w < 2 ^ 63 \<Longrightarrow> int_of_u64 w = int (unat w)"
proof -
  assume "unat w < 2 ^ 63"
  then have "int (unat w) < int (2 ^ 63)" by (simp only: of_nat_less_iff)
  then have "uint w < 2 ^ 63" by simp
  moreover have "- (2 ^ 63) \<le> uint w" by (rule order_trans [OF _ uint_ge_0]) simp
  ultimately have "signed_take_bit 63 (uint w) = uint w"
    by (intro signed_take_bit_int_eq_self) simp_all
  then show ?thesis by (simp add: int_of_u64_def sint_uint)
qed

definition height :: "'c vclock_ops \<Rightarrow> string list \<Rightarrow> 'c list list \<Rightarrow> nat" where
  "height V ids clocks = (\<Sum>i\<in>set ids. unat (last_tick V clocks i))"

lemma last_tick_own:
  assumes "causal_logs V ids clocks" and "k < length ids"
  shows "log_len clocks k \<le> unat (last_tick V clocks (ids ! k))"
proof -
  note D = causal_logsD [OF assms(1)]
  have ne: "clocks ! k \<noteq> []" using D(3) assms(2) by blast
  then have "FindTicks V (last (clocks ! k)) (ids ! k) = (of_nat (log_len clocks k), True)"
    using D(5) [of k "log_len clocks k - 1"] assms(2) by (simp add: last_conv_nth)
  then have "of_nat (log_len clocks k) \<le> last_tick V clocks (ids ! k)"
    using last_tick_ge [of "clocks ! k" clocks V "ids ! k"] D(2) assms(2) by simp
  moreover have "log_len clocks k < 2 ^ 64" using D(4) [of k] assms(2) by simp
  ultimately show ?thesis by (simp add: word_le_nat_alt unat_of_nat_u64)
qed

lemma sum_len_le_height:
  assumes "causal_logs V ids clocks"
  shows "sum_list (map length clocks) \<le> height V ids clocks"
proof -
  note D = causal_logsD [OF assms]
  have "sum_list (map length clocks) = (\<Sum>k<length ids. log_len clocks k)"
    using D(2) by (simp add: sum_list_sum_nth atLeast0LessThan)
  also have "\<dots> \<le> (\<Sum>k<length ids. unat (last_tick V clocks (ids ! k)))"
    using last_tick_own [OF assms] by (intro sum_mono) auto
  also have "\<dots> = height V ids clocks"
    unfolding height_def using D(1)
    by (simp add: sum_list_sum_nth atLeast0LessThan flip: sum_list_distinct_conv_sum_set)
  finally show ?thesis .
qed

lemma sumTime_height:
  assumes "causal_logs V ids clocks" and "idClockMapper V clocks = Inr ids" and "height V ids clocks < 2 ^ 63"
  shows "\<exists>w. sumTime V clocks = Inr w \<and> unat w = height V ids clocks \<and> int_of_u64 w = int (height V ids clocks)"
proof -
  let ?w = "\<Sum>i\<in>set ids. last_tick V clocks i"
  have "cs \<noteq> []" if "cs \<in> set clocks" for cs
    using that causal_logsD(2,3) [OF assms(1)] by (auto simp: in_set_conv_nth)
  then have "sumTime V clocks = Inr ?w" by (rule sumTime_eq [OF assms(2)])
  moreover have "unat ?w = height V ids clocks"
    using unat_sum_u64 [of "set ids" "last_tick V clocks"] assms(3) by (simp add: height_def)
  ultimately show ?thesis using int_of_u64_small [of ?w] assms(3) by auto
qed

section \<open>The levels\<close>

text \<open>The in-memory levels once level \<open>m\<close> is in place.\<close>

definition levels_built :: "'c vclock_ops \<Rightarrow> string list \<Rightarrow> 'c list list \<Rightarrow> nat \<Rightarrow> 'c list option list \<Rightarrow> bool" where
  "levels_built V ids clocks m M \<longleftrightarrow>
     m < length M \<and>
     (\<forall>j \<le> m. \<exists>ps. M ! j = Some ps \<and> level_rep V ids ps (cuts_at V ids clocks j) \<and>
        distinct (map (ReturnVCString V) ps)) \<and>
     (\<forall>j. m < j \<longrightarrow> j < length M \<longrightarrow> M ! j = None)"

lemma levels_builtD:
  assumes "levels_built V ids clocks m M"
  shows "m < length M"
    "\<And>j. j \<le> m \<Longrightarrow> \<exists>ps. M ! j = Some ps \<and> level_rep V ids ps (cuts_at V ids clocks j) \<and>
       distinct (map (ReturnVCString V) ps)"
    "\<And>j. m < j \<Longrightarrow> j < length M \<Longrightarrow> M ! j = None"
  using assms unfolding levels_built_def by blast+

text \<open>
  Every level is split among the goroutines without remainder: it is small enough for a
  single one, or its size is a multiple of the number of processors.
\<close>

definition even_split :: "'c go_runtime \<Rightarrow> 'c vclock_ops \<Rightarrow> string list \<Rightarrow> 'c list list \<Rightarrow> bool" where
  "even_split R V ids clocks \<longleftrightarrow>
     (\<forall>j. let c = card {q. consistent_cut V ids clocks q \<and> sum_list q = length ids + j}
          in c < THREAD_BOOST \<or> NumCPU R dvd c)"

lemma even_splitD:
  assumes "even_split R V ids clocks" and "causal_logs V ids clocks"
  shows "ThreadCount R (card (cuts_at V ids clocks m)) dvd card (cuts_at V ids clocks m)"
proof -
  let ?c = "card {q. consistent_cut V ids clocks q \<and> sum_list q = length ids + m}"
  have "?c < THREAD_BOOST \<or> NumCPU R dvd ?c" using assms(1) unfolding even_split_def Let_def by blast
  then show ?thesis unfolding cuts_at_eq [OF assms(2)] ThreadCount_def by auto
qed

lemma level_rep_empty: "level_rep V ids [] S \<longleftrightarrow> S = {}"
  by (auto simp: level_rep_def)

lemma level_in_use:
  assumes "causal_logs V ids clocks" and "level_rep V ids ps (cuts_at V ids clocks m)" and "ps \<noteq> []"
  shows "length ids + m \<le> sum_list (map length clocks)"
proof -
  obtain q where "q \<in> cuts_at V ids clocks m"
    using assms(2,3) by (auto simp: level_rep_def neq_Nil_conv)
  then show ?thesis
    using sum_cut_le [OF causal_logsD(2) [OF assms(1)], of V q] by (simp add: cuts_at_eq [OF assms(1)])
qed

lemma cuts_at_empty_mono: "m \<le> j \<Longrightarrow> cuts_at V ids clocks m = {} \<Longrightarrow> cuts_at V ids clocks j = {}"
  by (induction rule: dec_induct) (auto simp: grow_all_def)

lemma levels_final:
  assumes logs: "causal_logs V ids clocks" and built: "levels_built V ids clocks m M"
    and top: "cuts_at V ids clocks m = {}" and j: "j < length M"
  shows "level_rep V ids (layer (M ! j)) {q. consistent_cut V ids clocks q \<and> sum_list q = length ids + j}"
proof (cases "j \<le> m")
  case True
  then obtain ps where "M ! j = Some ps" "level_rep V ids ps (cuts_at V ids clocks j)"
    using levels_builtD(2) [OF built] by blast
  then show ?thesis by (simp add: cuts_at_eq [OF logs])
next
  case False
  with levels_builtD(3) [OF built] j cuts_at_empty_mono [OF _ top, of j]
  show ?thesis by (auto simp: level_rep_empty cuts_at_eq [OF logs])
qed

lemma clocksToMaps_total: "idClockMapper V clocks = Inr ids \<Longrightarrow> \<exists>mClocks. clocksToMaps V clocks = Inr mClocks"
  by (simp add: clocksToMaps_def)

lemma length_clocks_le: "causal_logs V ids clocks \<Longrightarrow> length clocks \<le> sum_list (map length clocks)"
proof -
  assume logs: "causal_logs V ids clocks"
  have "sum_list (map (\<lambda>_. 1) clocks) \<le> sum_list (map length clocks)"
    using causal_logsD(2,3) [OF logs] by (intro sum_list_mono) (auto simp: Suc_le_eq in_set_conv_nth)
  then show ?thesis by (simp add: sum_list_triv)
qed

context vclock_api
begin

lemma level_card:
  assumes "finite S" and "level_rep V ids ps S" and "distinct (map (ReturnVCString V) ps)"
  shows "length ps = card S"
proof (rule antisym)
  show "length ps \<le> card S" using level_length [OF assms(1) _ assms(3), of ids] assms(2) by (simp add: level_rep_def)
  have "S \<subseteq> (\<lambda>p. THE q. point_rep V ids p q) ` set ps"
  proof
    fix q
    assume "q \<in> S"
    then obtain p where p: "p \<in> set ps" "point_rep V ids p q" using assms(2) by (auto simp: level_rep_def)
    then have "(THE q. point_rep V ids p q) = q" using point_rep_unique by blast
    with p show "q \<in> (\<lambda>p. THE q. point_rep V ids p q) ` set ps" by force
  qed
  then have "card S \<le> card (set ps)" by (rule surj_card_le [rotated]) simp
  also have "\<dots> \<le> length ps" by (rule card_length)
  finally show "card S \<le> length ps" .
qed

lemma levels_start:
  assumes "causal_logs V ids clocks" and "0 < h"
  shows "levels_built V ids clocks 0 ((replicate h None)[0 := Some [start_point V ids]])"
  using assms(2) start_point_rep [OF causal_logsD(1) [OF assms(1)]]
  by (auto simp: levels_built_def level_rep_def)

lemma levels_step:
  assumes logs: "causal_logs V ids clocks" "idClockMapper V clocks = Inr ids" "clocksToMaps V clocks = Inr mClocks"
    and R: "runtime_ok R" and split: "even_split R V ids clocks"
    and built: "levels_built V ids clocks m M" and ps: "M ! m = Some ps" and room: "Suc m < length M"
  shows "levels_built V ids clocks (Suc m) (M[Suc m := Some (mapToArray R (next_map R V mClocks ids ps))])"
proof -
  note B = levels_builtD [OF built]
  let ?next = "mapToArray R (next_map R V mClocks ids ps)"
  have rep: "level_rep V ids ps (cuts_at V ids clocks m)" "distinct (map (ReturnVCString V) ps)"
    using B(2) [of m] ps by auto
  have cuts: "\<forall>q \<in> cuts_at V ids clocks m. consistent_cut V ids clocks q"
    by (auto simp: cuts_at_eq [OF logs(1)])
  have dvd: "ThreadCount R (length ps) dvd length ps"
    unfolding level_card [OF sum_card_levels(1) [OF logs(1)] rep] by (rule even_splitD [OF split logs(1)])
  have "level_rep V ids ?next (cuts_at V ids clocks (Suc m))"
    unfolding cuts_at_Suc by (rule next_level [OF logs R rep(1) cuts dvd])
  moreover have "distinct (map (ReturnVCString V) ?next)"
    using next_level_map [OF logs R _ cuts, of ps] rep(1) next_level_distinct [OF R] by (simp add: level_rep_def)
  ultimately show ?thesis
    unfolding levels_built_def using B room by (auto simp: nth_list_update le_Suc_eq)
qed

lemma levels_points:
  assumes "causal_logs V ids clocks" and "levels_built V ids clocks m M"
  shows "(\<Sum>j\<le>m. length (layer (M ! j))) \<le> card {q. consistent_cut V ids clocks q}"
proof -
  have "length (layer (M ! j)) = card (cuts_at V ids clocks j)" if "j \<le> m" for j
    using levels_builtD(2) [OF assms(2) that] level_card [OF sum_card_levels(1) [OF assms(1)]] by auto
  then have "(\<Sum>j\<le>m. length (layer (M ! j))) = (\<Sum>j\<le>m. card (cuts_at V ids clocks j))" by simp
  then show ?thesis using sum_card_levels(2) [OF assms(1)] by simp
qed

end

section \<open>The loop of \<open>BuildLattice5\<close>\<close>

text \<open>The wrapper after level \<open>m\<close> was pushed, nothing having been written to disk.\<close>

definition built :: "'c vclock_ops \<Rightarrow> string list \<Rightarrow> 'c list list \<Rightarrow> nat \<Rightarrow> 'c LatticeWrapper \<Rightarrow> bool" where
  "built V ids clocks m lw \<longleftrightarrow>
     LevelM lw = Suc m \<and> LatticeD lw = [] \<and> CurrentFile lw = 0 \<and> length (LatticeM lw) = height V ids clocks \<and>
     levels_built V ids clocks m (LatticeM lw) \<and>
     Points lw = of_nat (\<Sum>j\<le>m. length (layer (LatticeM lw ! j)))"

text \<open>Pushing while the points fit into memory.\<close>

lemma Push_in_memory:
  assumes "LatticeD lw = []" and "LevelM lw < length (LatticeM lw)" and "Points lw \<le> POINT_DISK_LIMIT"
  shows "Push lay lw = Inr (lw\<lparr>LatticeM := (LatticeM lw)[LevelM lw := Some lay],
    Points := Points lw + of_nat (length lay), LevelM := LevelM lw + 1, LevelD := LevelD lw + 1\<rparr>)"
proof -
  have "\<not> Points lw > POINT_DISK_LIMIT * of_nat (length (LatticeD lw) + 1)"
    using assms by (simp add: not_less)
  with assms show ?thesis by (simp add: Push_def Let_def)
qed

context vclock_api
begin

lemma built_step:
  assumes logs: "causal_logs V ids clocks" "idClockMapper V clocks = Inr ids" "clocksToMaps V clocks = Inr mClocks"
    and R: "runtime_ok R" and split: "even_split R V ids clocks"
    and mem: "card {q. consistent_cut V ids clocks q} \<le> 5000000"
    and built: "built V ids clocks m lw" and ps: "LatticeM lw ! m = Some ps" and room: "Suc m < length (LatticeM lw)"
  shows "\<exists>lw'. Push (mapToArray R (next_map R V mClocks ids ps)) lw = Inr lw' \<and> built V ids clocks (Suc m) lw'"
proof -
  let ?next = "mapToArray R (next_map R V mClocks ids ps)"
  have B: "LevelM lw = Suc m" "LatticeD lw = []" "levels_built V ids clocks m (LatticeM lw)"
    "Points lw = of_nat (\<Sum>j\<le>m. length (layer (LatticeM lw ! j)))"
    using built by (auto simp: built_def)
  let ?lw' = "lw\<lparr>LatticeM := (LatticeM lw)[Suc m := Some ?next], Points := Points lw + of_nat (length ?next),
     LevelM := Suc (Suc m), LevelD := LevelD lw + 1\<rparr>"
  have "(\<Sum>j\<le>m. length (layer (LatticeM lw ! j))) \<le> 5000000"
    using levels_points [OF logs(1) B(3)] mem by simp
  then have "Points lw \<le> POINT_DISK_LIMIT"
    by (simp add: B(4) POINT_DISK_LIMIT_def word_le_nat_alt unat_of_nat_u64 del: of_nat_sum)
  then have "Push ?next lw = Inr ?lw'" using Push_in_memory [of lw ?next] B(1,2) room by simp
  moreover have "built V ids clocks (Suc m) ?lw'"
    using built levels_step [OF logs R split B(3) ps room] room by (simp add: built_def)
  ultimately show ?thesis by blast
qed

lemma loop_step:
  assumes "built V ids clocks m lw" and "LatticeM lw ! m = Some ps"
  shows "lattice_loop R V mClocks ids lw =
    (if ps = [] then Some (Inr lw)
     else case Push (mapToArray R (next_map R V mClocks ids ps)) lw of
       Inl e \<Rightarrow> Some (Inl e) | Inr lw' \<Rightarrow> lattice_loop R V mClocks ids lw')"
  using assms by (subst lattice_loop.simps) (simp add: built_def levels_built_def)

lemma init_built:
  assumes logs: "causal_logs V ids clocks" "idClockMapper V clocks = Inr ids"
    and some: "clocks \<noteq> []" and height: "height V ids clocks < 2 ^ 63"
  shows "\<exists>lw. init_lattice V clocks ids = Inr lw \<and> built V ids clocks 0 lw"
proof -
  let ?h = "height V ids clocks"
  obtain w where w: "sumTime V clocks = Inr w" "unat w = ?h" "int_of_u64 w = int ?h"
    using sumTime_height [OF logs height] by blast
  have "0 < length clocks" using some by simp
  then have h: "0 < ?h" using sum_len_le_height [OF logs(1)] length_clocks_le [OF logs(1)] by linarith
  let ?m = "(replicate ?h None)[0 := Some [start_point V ids]]"
  let ?lw = "NewLattice\<lparr>LevelEstimate := ?h, LatticeM := ?m, Points := 1, LevelM := 1, LevelD := 1\<rparr>"
  have "init_lattice V clocks ids = Inr ?lw"
    using w h by (simp add: init_lattice_def make_levels_def Push_in_memory NewLattice_def POINT_DISK_LIMIT_def)
  moreover have "built V ids clocks 0 ?lw"
    using h levels_start [OF logs(1) h] by (simp add: built_def NewLattice_def)
  ultimately show ?thesis by blast
qed

lemma loop_ends:
  assumes logs: "causal_logs V ids clocks" "idClockMapper V clocks = Inr ids" "clocksToMaps V clocks = Inr mClocks"
    and R: "runtime_ok R" and split: "even_split R V ids clocks"
    and mem: "card {q. consistent_cut V ids clocks q} \<le> 5000000" and two: "2 \<le> length clocks"
  shows "built V ids clocks m lw \<Longrightarrow>
    \<exists>lw' m'. lattice_loop R V mClocks ids lw = Some (Inr lw') \<and> built V ids clocks m' lw' \<and> cuts_at V ids clocks m' = {}"
proof (induction "height V ids clocks - m" arbitrary: m lw rule: less_induct)
  case less
  have B: "levels_built V ids clocks m (LatticeM lw)" "length (LatticeM lw) = height V ids clocks"
    using less.prems by (auto simp: built_def)
  obtain ps where ps: "LatticeM lw ! m = Some ps" "level_rep V ids ps (cuts_at V ids clocks m)"
    using levels_builtD(2) [OF B(1), of m] by blast
  show ?case
  proof (cases "ps = []")
    case True
    with less.prems ps show ?thesis by (auto simp: level_rep_empty loop_step)
  next
    case False
    then have room: "Suc m < length (LatticeM lw)"
      using level_in_use [OF logs(1) ps(2)] sum_len_le_height [OF logs(1)] two causal_logsD(2) [OF logs(1)] B(2) by simp
    obtain lw' where lw': "Push (mapToArray R (next_map R V mClocks ids ps)) lw = Inr lw'" "built V ids clocks (Suc m) lw'"
      using built_step [OF logs R split mem less.prems ps(1) room] by blast
    then have "lattice_loop R V mClocks ids lw = lattice_loop R V mClocks ids lw'"
      using False loop_step [OF less.prems ps(1)] by simp
    with less.hyps [OF _ lw'(2)] B(2) room show ?thesis by simp
  qed
qed

lemma BuildLattice5_cuts:
  assumes logs: "causal_logs V ids clocks" "idClockMapper V clocks = Inr ids"
    and R: "runtime_ok R" and split: "even_split R V ids clocks"
    and mem: "card {q. consistent_cut V ids clocks q} \<le> 5000000" and two: "2 \<le> length clocks"
    and height: "height V ids clocks < 2 ^ 63"
  shows "\<exists>lw m. BuildLattice5 R V clocks = Some (Inr lw) \<and> built V ids clocks m lw \<and> cuts_at V ids clocks m = {}"
proof -
  obtain mClocks where maps: "clocksToMaps V clocks = Inr mClocks" using clocksToMaps_total [OF logs(2)] by blast
  have some: "clocks \<noteq> []" using two by auto
  obtain lw0 where lw0: "init_lattice V clocks ids = Inr lw0" "built V ids clocks 0 lw0"
    using init_built [OF logs some height] by blast
  then show ?thesis
    using loop_ends [OF logs maps R split mem two lw0(2)] logs(2) maps by (simp add: BuildLattice5_def)
qed

lemma BuildLattice5_levels:
  assumes logs: "causal_logs V ids clocks" "idClockMapper V clocks = Inr ids"
    and R: "runtime_ok R" and split: "even_split R V ids clocks"
    and mem: "card {q. consistent_cut V ids clocks q} \<le> 5000000" and two: "2 \<le> length clocks"
    and height: "height V ids clocks < 2 ^ 63"
  shows "\<exists>lw. BuildLattice5 R V clocks = Some (Inr lw) \<and> LatticeD lw = [] \<and>
    (\<forall>j < length (LatticeM lw). level_rep V ids (layer (LatticeM lw ! j))
       {q. consistent_cut V ids clocks q \<and> sum_list q = length ids + j}) \<and>
    (\<forall>q. consistent_cut V ids clocks q \<longrightarrow> sum_list q < length ids + length (LatticeM lw))"
proof -
  obtain lw m where lw: "BuildLattice5 R V clocks = Some (Inr lw)" "built V ids clocks m lw" "cuts_at V ids clocks m = {}"
    using BuildLattice5_cuts [OF assms] by blast
  then have B: "LatticeD lw = []" "levels_built V ids clocks m (LatticeM lw)" "length (LatticeM lw) = height V ids clocks"
    by (auto simp: built_def)
  have "sum_list q < length ids + length (LatticeM lw)" if "consistent_cut V ids clocks q" for q
    using sum_cut_le [OF causal_logsD(2) [OF logs(1)] that] sum_len_le_height [OF logs(1)] B(3) two
      causal_logsD(2) [OF logs(1)] by simp
  with lw(1) B(1) levels_final [OF logs(1) B(2) lw(3)] show ?thesis by blast
qed

lemma loop4_ends:
  assumes logs: "causal_logs V ids clocks" "idClockMapper V clocks = Inr ids" "clocksToMaps V clocks = Inr mClocks"
    and R: "runtime_ok R" and split: "even_split R V ids clocks" and big: "sum_list (map length clocks) + 1 < length M + length ids"
  shows "levels_built V ids clocks m M \<Longrightarrow>
    \<exists>M' m'. lattice4_loop R V mClocks ids m M = Some (Inr M') \<and> length M' = length M \<and>
      levels_built V ids clocks m' M' \<and> cuts_at V ids clocks m' = {}"
  using big
proof (induction "length M - m" arbitrary: m M rule: less_induct)
  case less
  note B = levels_builtD [OF less.prems(1)]
  obtain ps where ps: "M ! m = Some ps" "level_rep V ids ps (cuts_at V ids clocks m)" using B(2) [of m] by blast
  show ?case
  proof (cases "ps = []")
    case True
    with ps B(1) have "lattice4_loop R V mClocks ids m M = Some (Inr M)" by (subst lattice4_loop.simps) simp
    with less.prems ps True show ?thesis by (auto simp: level_rep_empty)
  next
    case False
    let ?M = "M[Suc m := Some (mapToArray R (next_map R V mClocks ids ps))]"
    have room: "Suc m < length M" using level_in_use [OF logs(1) ps(2) False] less.prems(2) by simp
    with ps(1) False have "lattice4_loop R V mClocks ids m M = lattice4_loop R V mClocks ids (Suc m) ?M"
      by (subst lattice4_loop.simps) simp
    moreover have "levels_built V ids clocks (Suc m) ?M"
      by (rule levels_step [OF logs R split less.prems(1) ps(1) room])
    ultimately show ?thesis using less.hyps [of ?M "Suc m"] less.prems(2) room by simp
  qed
qed

lemma BuildLattice4_levels:
  assumes logs: "causal_logs V ids clocks" "idClockMapper V clocks = Inr ids"
    and R: "runtime_ok R" and split: "even_split R V ids clocks" and some: "clocks \<noteq> []"
    and two: "2 \<le> sum_list (map length clocks)" and height: "height V ids clocks * height V ids clocks < 2 ^ 63"
  shows "\<exists>M. BuildLattice4 R V clocks = Some (Inr M) \<and>
    (\<forall>j < length M. level_rep V ids (layer (M ! j)) {q. consistent_cut V ids clocks q \<and> sum_list q = length ids + j}) \<and>
    (\<forall>q. consistent_cut V ids clocks q \<longrightarrow> sum_list q < length ids + length M)"
proof -
  let ?h = "height V ids clocks"
  have n: "1 \<le> length ids" using some causal_logsD(2) [OF logs(1)] by (simp add: Suc_le_eq)
  have h: "2 \<le> ?h" and sum: "sum_list (map length clocks) \<le> ?h" using two sum_len_le_height [OF logs(1)] by simp_all
  have "?h * 2 \<le> ?h * ?h" using h by simp
  then have sq: "?h + 2 \<le> ?h * ?h" using h by linarith
  have "?h < 2 ^ 63" using height sq by linarith
  then obtain w where w: "sumTime V clocks = Inr w" "unat w = ?h"
    using sumTime_height [OF logs] by blast
  have "unat (w * w) = ?h * ?h"
    using w(2) height by (simp add: unat_mult_lem [THEN iffD1])
  then have "int_of_u64 (w * w) = int (?h * ?h)" using int_of_u64_small [of "w * w"] height by simp
  then have ml: "make_levels (w * w) = Inr (replicate (?h * ?h) (None :: 'c list option))"
    by (simp add: make_levels_def nat_mult_distrib)
  obtain mClocks where maps: "clocksToMaps V clocks = Inr mClocks" using clocksToMaps_total [OF logs(2)] by blast
  let ?M = "(replicate (?h * ?h) None)[0 := Some [start_point V ids]]"
  have start: "levels_built V ids clocks 0 ?M" using levels_start [OF logs(1), of "?h * ?h"] h by simp
  have big: "sum_list (map length clocks) + 1 < length ?M + length ids" using n sq sum by simp
  obtain M m where M: "lattice4_loop R V mClocks ids 0 ?M = Some (Inr M)" "length M = ?h * ?h"
      "levels_built V ids clocks m M" "cuts_at V ids clocks m = {}"
    using loop4_ends [OF logs maps R split big start] by auto
  have "BuildLattice4 R V clocks = Some (Inr M)"
    using w(1) logs(2) ml maps M(1) h by (simp add: BuildLattice4_def)
  moreover have "sum_list q < length ids + length M" if "consistent_cut V ids clocks q" for q
    using sum_cut_le [OF causal_logsD(2) [OF logs(1)] that] sum sq M(2) n by simp
  ultimately show ?thesis using levels_final [OF logs(1) M(3,4)] by blast
qed

lemma single_host_cut:
  assumes logs: "causal_logs V [i] [cs]"
  shows "consistent_cut V [i] [cs] q \<longleftrightarrow> (\<exists>m < length cs. q = [Suc m])"
proof
  assume "consistent_cut V [i] [cs] q"
  then have "length q = 1" "0 < q ! 0" "q ! 0 \<le> length cs" by (auto simp: consistent_cut_def cut_of_def)
  then show "\<exists>m < length cs. q = [Suc m]" by (cases q) (auto intro!: exI [of _ "q ! 0 - 1"])
next
  assume "\<exists>m < length cs. q = [Suc m]"
  then obtain m where m: "m < length cs" "q = [Suc m]" by blast
  then have "tk V [i] [cs] 0 m 0 = Suc m" using causal_system.own [OF causal_system_logs [OF logs], of 0 m] by simp
  with m show "consistent_cut V [i] [cs] q" by (simp add: consistent_cut_def cut_of_def)
qed

lemma single_host_height: "causal_logs V [i] [cs] \<Longrightarrow> height V [i] [cs] = length cs"
  using causal_logsD(3,4,5) [of V "[i]" "[cs]" 0]
  by (cases cs rule: rev_cases) (force simp: height_def last_tick_def unat_of_nat_u64 nth_append simp del: of_nat_Suc)+

lemma single_host_loop:
  assumes logs: "causal_logs V [i] [cs]" "idClockMapper V [cs] = Inr [i]" "clocksToMaps V [cs] = Inr mClocks"
    and R: "runtime_ok R" and split: "even_split R V [i] [cs]"
    and mem: "card {q. consistent_cut V [i] [cs] q} \<le> 5000000"
  shows "built V [i] [cs] m lw \<Longrightarrow> lattice_loop R V mClocks [i] lw = Some (Inl IndexOutOfRange)"
proof (induction "length cs - m" arbitrary: m lw rule: less_induct)
  case less
  have B: "LevelM lw = Suc m" "levels_built V [i] [cs] m (LatticeM lw)" "length (LatticeM lw) = length cs"
    using less.prems single_host_height [OF logs(1)] by (auto simp: built_def)
  then have m: "m < length cs" using levels_builtD(1) by fastforce
  obtain ps where ps: "LatticeM lw ! m = Some ps" "level_rep V [i] ps (cuts_at V [i] [cs] m)"
    using levels_builtD(2) [OF B(2), of m] by blast
  have "[Suc m] \<in> cuts_at V [i] [cs] m"
    unfolding cuts_at_eq [OF logs(1)] using m by (simp add: single_host_cut [OF logs(1)])
  then have "ps \<noteq> []" using ps(2) level_rep_empty by blast
  note step = loop_step [OF less.prems ps(1), of R mClocks]
  show ?case
  proof (cases "Suc m < length (LatticeM lw)")
    case True
    then obtain lw' where "Push (mapToArray R (next_map R V mClocks [i] ps)) lw = Inr lw'" "built V [i] [cs] (Suc m) lw'"
      using built_step [OF logs R split mem less.prems ps(1)] by blast
    with step \<open>ps \<noteq> []\<close> less.hyps [of "Suc m" lw'] m show ?thesis by simp
  next
    case False
    then have "Push (mapToArray R (next_map R V mClocks [i] ps)) lw = Inl IndexOutOfRange"
      using B(1) by (simp add: Push_def update_go_def)
    with step \<open>ps \<noteq> []\<close> show ?thesis by simp
  qed
qed

lemma BuildLattice5_single_host:
  assumes logs: "causal_logs V [i] [cs]" "idClockMapper V [cs] = Inr [i]"
    and R: "runtime_ok R" and mem: "length cs \<le> 5000000"
  shows "BuildLattice5 R V [cs] = Some (Inl IndexOutOfRange)"
proof -
  have "{q. consistent_cut V [i] [cs] q \<and> sum_list q = length [i] + j} \<subseteq> {[Suc j]}" for j
    by (auto simp: single_host_cut [OF logs(1)])
  from card_mono [OF _ this] have "card {q. consistent_cut V [i] [cs] q \<and> sum_list q = length [i] + j} \<le> 1" for j
    by simp
  then have "card {q. consistent_cut V [i] [cs] q \<and> sum_list q = length [i] + j} < THREAD_BOOST" for j
    unfolding THREAD_BOOST_def by (rule le_less_trans) simp
  then have split: "even_split R V [i] [cs]" by (simp add: even_split_def Let_def)
  have card: "card {q. consistent_cut V [i] [cs] q} \<le> 5000000"
    using finite_cuts(2) [OF logs(1)] mem by simp
  have height: "height V [i] [cs] < 2 ^ 63" using single_host_height [OF logs(1)] mem by simp
  obtain mClocks where maps: "clocksToMaps V [cs] = Inr mClocks" using clocksToMaps_total [OF logs(2)] by blast
  obtain lw0 where "init_lattice V [cs] [i] = Inr lw0" "built V [i] [cs] 0 lw0"
    using init_built [OF logs _ height] by blast
  then show ?thesis
    using single_host_loop [OF logs maps R split card] logs(2) maps by (simp add: BuildLattice5_def)
qed

end

section \<open>Queues\<close>

text \<open>The documented behaviour of the queue package.\<close>

locale fifo_api =
  fixes Q :: "('q, 'a) fifo_ops" and contents :: "'q \<Rightarrow> 'a list"
  assumes q_new: "contents (QNew Q) = []"
    and q_add: "contents (QAdd Q q x) = contents q @ [x]"
    and q_length: "QLength Q q = length (contents q)"
    and q_peek: "contents q = x # xs \<Longrightarrow> QPeek Q q = Inr x"
    and q_remove: "contents q = x # xs \<Longrightarrow> \<exists>q'. QRemove Q q = Inr q' \<and> contents q' = xs"
    and q_get: "i < length (contents q) \<Longrightarrow> QGet Q q i = Inr (contents q ! i)"
begin

lemma contents_addAll: "contents (foldl (QAdd Q) q xs) = contents q @ xs"
  by (induction xs arbitrary: q) (simp_all add: q_add)

end

definition list_fifo :: "('a list, 'a) fifo_ops" where
  "list_fifo = \<lparr>QNew = [], QAdd = (\<lambda>q x. q @ [x]), QLength = length,
     QPeek = (\<lambda>q. case q of [] \<Rightarrow> Inl (Panic ''queue: Peek() called on empty queue'') | x # _ \<Rightarrow> Inr x),
     QRemove = (\<lambda>q. case q of [] \<Rightarrow> Inl (Panic ''queue: Remove() called on empty queue'') | _ # xs \<Rightarrow> Inr xs),
     QGet = (\<lambda>q i. if i < length q then Inr (q ! i) else Inl (Panic ''queue: Get() called with index out of range''))\<rparr>"

interpretation list_queue: fifo_api list_fifo "\<lambda>q. q"
  by unfold_locales (simp_all add: list_fifo_def)

lemma queue_scan_values:
  "(\<And>i. i \<in> set is \<Longrightarrow> QGet Q q i = Inr (BoxValue (f i))) \<Longrightarrow>
   queue_scan Q V q v is = Inr (list_ex (\<lambda>i. Compare V v (f i) Equal) is)"
  by (induction "is") (auto simp: as_value_def)

section \<open>Properties\<close>

definition one_cpu :: "'c go_runtime" where
  "one_cpu = \<lparr>NumCPU = 1, MapOrder = (\<lambda>m. m), RecvOrder = (\<lambda>xs. xs)\<rparr>"

lemma one_cpu_ok: "runtime_ok one_cpu"
  by (simp add: runtime_ok_def one_cpu_def)

lemma one_cpu_split: "even_split one_cpu V ids clocks"
  by (simp add: even_split_def one_cpu_def Let_def)

lemmas causal_eval = causal_logs_def causal_entry_def alist_clock_def alist_find_def upt_rec Let_def

lemma ping_causal: "causal_logs alist_clock [''a'', ''b''] ping_clocks"
  by (simp add: ping_clocks_def causal_eval)

lemma ping_height: "height alist_clock [''a'', ''b''] ping_clocks < 2 ^ 63"
  by (simp add: height_def last_tick_def ping_clocks_def alist_clock_def alist_find_def)

lemma ping_cuts: "card {q. consistent_cut alist_clock [''a'', ''b''] ping_clocks q} \<le> 5000000"
  by (rule order_trans [OF finite_cuts(2) [OF ping_causal]]) (simp add: ping_clocks_def)

text \<open>
  C2: \<open>BuildLattice5\<close> computes the lattice of consistent cuts. For the logs of an execution with
  at least two hosts, whose cuts fit into memory and whose levels are split evenly among the
  goroutines, it returns; slot \<open>j\<close> of the result holds a point for every consistent cut with
  \<open>j\<close> events beyond the first event of every host, and nothing else; every consistent cut has
  such a slot.
\<close>

theorem BuildLattice5_correct:
  assumes "vclock_api V" and "runtime_ok R" and "idClockMapper V clocks = Inr ids" and "causal_logs V ids clocks"
    and "2 \<le> length clocks" and "even_split R V ids clocks" and "height V ids clocks < 2 ^ 63"
    and "card {q. consistent_cut V ids clocks q} \<le> 5000000"
  shows "\<exists>lw. BuildLattice5 R V clocks = Some (Inr lw) \<and> LatticeD lw = [] \<and>
    (\<forall>j < length (LatticeM lw). level_rep V ids (layer (LatticeM lw ! j))
       {q. consistent_cut V ids clocks q \<and> sum_list q = length ids + j}) \<and>
    (\<forall>q. consistent_cut V ids clocks q \<longrightarrow> sum_list q < length ids + length (LatticeM lw))"
  by (rule vclock_api.BuildLattice5_levels [OF assms(1,4,3,2,6,8,5,7)])

theorem BuildLattice5_correct_witness:
  "\<exists>lw. BuildLattice5 one_cpu alist_clock ping_clocks = Some (Inr lw) \<and> LatticeD lw = [] \<and>
    (\<forall>j < length (LatticeM lw). level_rep alist_clock [''a'', ''b''] (layer (LatticeM lw ! j))
       {q. consistent_cut alist_clock [''a'', ''b''] ping_clocks q \<and> sum_list q = length [''a'', ''b''] + j}) \<and>
    (\<forall>q. consistent_cut alist_clock [''a'', ''b''] ping_clocks q \<longrightarrow>
       sum_list q < length [''a'', ''b''] + length (LatticeM lw))"
  by (rule BuildLattice5_correct [OF alist.vclock_api_axioms one_cpu_ok ping_ids ping_causal _ one_cpu_split
        ping_height ping_cuts]) (simp add: ping_clocks_def)

text \<open>
  The earlier construction \<open>BuildLattice4\<close> computes the same levels, and, with its larger
  array, also does so for a single host.
\<close>

theorem BuildLattice4_correct:
  assumes "vclock_api V" and "runtime_ok R" and "idClockMapper V clocks = Inr ids" and "causal_logs V ids clocks"
    and "clocks \<noteq> []" and "2 \<le> sum_list (map length clocks)" and "even_split R V ids clocks"
    and "height V ids clocks * height V ids clocks < 2 ^ 63"
  shows "\<exists>M. BuildLattice4 R V clocks = Some (Inr M) \<and>
    (\<forall>j < length M. level_rep V ids (layer (M ! j)) {q. consistent_cut V ids clocks q \<and> sum_list q = length ids + j}) \<and>
    (\<forall>q. consistent_cut V ids clocks q \<longrightarrow> sum_list q < length ids + length M)"
  by (rule vclock_api.BuildLattice4_levels [OF assms(1,4,3,2,7,5,6,8)])

definition solo_clocks :: "(string \<times> u64) list list list" where
  "solo_clocks = [[[(''a'', 1)], [(''a'', 2)]]]"

lemma solo_ids: "idClockMapper alist_clock [[[(''a'', 1)], [(''a'', 2)]]] = Inr [''a'']"
  by code_simp

lemma solo_causal: "causal_logs alist_clock [''a''] [[[(''a'', 1)], [(''a'', 2)]]]"
  by (simp add: causal_eval)

theorem BuildLattice4_correct_witness:
  "\<exists>M. BuildLattice4 one_cpu alist_clock solo_clocks = Some (Inr M) \<and>
    (\<forall>j < length M. level_rep alist_clock [''a''] (layer (M ! j))
       {q. consistent_cut alist_clock [''a''] solo_clocks q \<and> sum_list q = length [''a''] + j}) \<and>
    (\<forall>q. consistent_cut alist_clock [''a''] solo_clocks q \<longrightarrow> sum_list q < length [''a''] + length M)"
  unfolding solo_clocks_def
  by (rule BuildLattice4_correct [OF alist.vclock_api_axioms one_cpu_ok solo_ids solo_causal _ _ one_cpu_split])
    (simp_all add: height_def last_tick_def alist_clock_def alist_find_def)

text \<open>
  C9: on the log of a single host \<open>BuildLattice5\<close> never returns a lattice: the array of levels has
  one slot per event, the loop stops only at an empty level, and writing that level panics with
  an index out of range.
\<close>

theorem BuildLattice5_single_host_panics:
  assumes "vclock_api V" and "runtime_ok R" and "idClockMapper V [cs] = Inr [i]" and "causal_logs V [i] [cs]"
    and "length cs \<le> 5000000"
  shows "BuildLattice5 R V [cs] = Some (Inl IndexOutOfRange)"
  by (rule vclock_api.BuildLattice5_single_host [OF assms(1,4,3,2,5)])

theorem BuildLattice5_single_host_panics_witness:
  "BuildLattice5 one_cpu alist_clock solo_clocks = Some (Inl IndexOutOfRange)"
  unfolding solo_clocks_def
  by (rule BuildLattice5_single_host_panics [OF alist.vclock_api_axioms one_cpu_ok solo_ids solo_causal]) simp

text \<open>
  The oldest construction \<open>BuildLattice\<close> never returns a lattice. It enqueues clocks as
  values and asserts on dequeuing that they are pointers, so its first step fails.
\<close>

theorem BuildLattice_always_fails:
  assumes "fifo_api Q contents" and "idClockMapper V clocks = Inr ids" and "list_all (\<lambda>cs. cs \<noteq> []) clocks"
  shows "BuildLattice Q V clocks = Some (Inl TypeAssertion)"
proof -
  let ?q = "QAdd Q (QNew Q) (BoxValue (start_point V ids))"
  have c: "contents ?q = [BoxValue (start_point V ids)]"
    using assms(1) by (simp add: fifo_api.q_add fifo_api.q_new)
  then have "QLength Q ?q = 1" "QPeek Q ?q = Inr (BoxValue (start_point V ids))"
    using fifo_api.q_length [OF assms(1)] fifo_api.q_peek [OF assms(1) c] by simp_all
  then have "queue_levels Q V clocks ids ?q [] = Some (Inl TypeAssertion)"
    by (subst queue_levels.simps, subst queue_level.simps) (simp add: as_pointer_def)
  moreover have "\<exists>w. sumTime V clocks = Inr w"
    using sumTime_eq [OF assms(2)] assms(3) by (auto simp: list_all_iff)
  ultimately show ?thesis using assms(2) by (auto simp: BuildLattice_def)
qed

theorem BuildLattice_always_fails_witness:
  "BuildLattice list_fifo alist_clock ping_clocks = Some (Inl TypeAssertion)"
  by (rule BuildLattice_always_fails [OF list_queue.fifo_api_axioms ping_ids]) (simp add: ping_clocks_def)

text \<open>
  The goroutines of a level together work on its points in order up to the largest multiple
  of their number; with more than one goroutine the remaining points are never expanded.
\<close>

theorem level_slices_cover:
  assumes "0 < d"
  shows "concat (map (level_slice level d) [0..<d]) = take (length level - length level mod d) level"
  using concat_level_slices [OF assms, of level] by (simp add: minus_mod_eq_div_mult)

theorem level_slices_cover_witness:
  "concat (map (level_slice [1, 2, 3, 4, 5, 6, 7 :: nat] 3) [0..<3]) = [1, 2, 3, 4, 5, 6]"
  using level_slices_cover [of 3 "[1, 2, 3, 4, 5, 6, 7 :: nat]"] by simp

text \<open>
  When \<open>Push\<close> runs over the memory limit it writes all but the last of the completed levels to
  a new file and restarts the memory with the pushed level, so the level before the pushed one
  is kept neither in memory nor on disk.
\<close>

theorem Push_dump_drops_level:
  assumes "Points lw > POINT_DISK_LIMIT * of_nat (length (LatticeD lw) + 1)"
    and "LevelM lw < length (LatticeM lw)" and "0 < LevelEstimate lw"
  shows "\<exists>lw'. Push lay lw = Inr lw' \<and>
    LatticeD lw' = LatticeD lw @ [CHR ''L'' # show_nat (length (LatticeD lw))] \<and>
    gomap_get (disk lw') (last (LatticeD lw')) = Some (take (LevelM lw - 1) (LatticeM lw)) \<and>
    LatticeM lw' = Some lay # replicate (LevelEstimate lw - 1) None \<and> LevelM lw' = 1"
proof -
  obtain h where h: "LevelEstimate lw = Suc h" using assms(3) by (cases "LevelEstimate lw") auto
  have "take (LevelM lw - Suc 0) ((LatticeM lw)[LevelM lw := Some lay]) = take (LevelM lw - Suc 0) (LatticeM lw)"
    by (simp add: take_update_cancel)
  then show ?thesis using assms h by (simp add: Push_def DiskDump_def Let_def gomap_simps)
qed

definition full_wrapper :: "nat LatticeWrapper" where
  "full_wrapper = NewLattice\<lparr>LatticeM := [Some [1], Some [2], Some [3], None], Points := 5000001, LevelM := 3,
     LevelEstimate := 4\<rparr>"

theorem Push_dump_drops_level_witness:
  "\<exists>lw'. Push [4] full_wrapper = Inr lw' \<and> LatticeD lw' = [''L0''] \<and>
    gomap_get (disk lw') (last (LatticeD lw')) = Some [Some [1], Some [2]] \<and>
    LatticeM lw' = [Some [4], None, None, None] \<and> LevelM lw' = 1"
proof -
  have "Points full_wrapper > POINT_DISK_LIMIT * of_nat (length (LatticeD full_wrapper) + 1)" by code_simp
  moreover have "show_nat 0 = ''0''" by code_simp
  ultimately show ?thesis
    using Push_dump_drops_level [of full_wrapper "[4]"] by (simp add: full_wrapper_def NewLattice_def numeral_eq_Suc)
qed

end
