(* ===== verification/Cuts.thy ===== *)
theory Cuts
  imports Lattice_Build
begin

text \<open>
  \<open>logmerger/cuts.go\<close>: mining the consistent cuts of a lattice in which no message is in flight
  (\<open>enumerateCommunication\<close>, \<open>fillCommunicationDelta\<close>, \<open>mineConsistentCuts\<close>,
  \<open>mineConsistentCuts2\<close>), and the chains of communicating hosts inside a cut
  (\<open>totalOrderFromCut\<close>). The counters of \<open>deltaComm\<close> are Go ints; their absolute value is at most
  the number of log entries, so they are mathematical integers here.
\<close>

section \<open>Definitions\<close>

record 'c Cut =
  Clocks :: "'c list"

subsection \<open>Communication deltas\<close>

text \<open>\<open>m[i][j] += d\<close>\<close>

definition bump :: "int list list \<Rightarrow> nat \<Rightarrow> nat \<Rightarrow> int \<Rightarrow> int list list go" where
  "bump m i j d =
     rbind (index_go m i) (\<lambda>row. rbind (index_go row j) (\<lambda>x. Inr (m[i := row[j := x + d]])))"

fun fill_row :: "int \<Rightarrow> int list \<Rightarrow> int list" where
  "fill_row fill [] = []"
| "fill_row fill (d # ds) =
     (if d \<noteq> 0 then (d + fill) # fill_row (fill + d) ds else (d + fill) # fill_row fill ds)"

definition fillCommunicationDelta :: "int list list \<Rightarrow> int list list" where
  "fillCommunicationDelta commDelta = map (fill_row 0) commDelta"

definition enumerate_step ::
  "'c vclock_ops \<Rightarrow> 'c list list \<Rightarrow> string list \<Rightarrow> nat \<Rightarrow> 'c option \<times> int list list \<Rightarrow> nat
     \<Rightarrow> ('c option \<times> int list list) go" where
  "enumerate_step V clocks ids i st j =
     (let c = clocks ! i ! j
      in rbind (matchSendAndReceive V c clocks (ids ! i)) (\<lambda>m.
         case m of
           None \<Rightarrow> Inr st
         | Some (receiver, receiverEvent) \<Rightarrow>
             (if (case fst st of None \<Rightarrow> False | Some lastSend \<Rightarrow> Compare V c lastSend Equal) then Inr st
              else rbind (bump (snd st) i j 1) (\<lambda>d1.
                   rbind (bump d1 receiver receiverEvent (- 1)) (\<lambda>d2.
                   Inr (Some (Copy V c), d2))))))"

definition enumerateCommunication :: "'c vclock_ops \<Rightarrow> 'c list list \<Rightarrow> int list list go" where
  "enumerateCommunication V clocks =
     rbind (idClockMapper V clocks) (\<lambda>ids.
     rbind (foldR (\<lambda>d i.
              rbind (foldR (enumerate_step V clocks ids i) (None, d) [0..<length (clocks ! i)]) (\<lambda>st. Inr (snd st)))
              (map (\<lambda>cs. replicate (length cs) 0) clocks) [0..<length clocks]) (\<lambda>commDelta.
       Inr (fillCommunicationDelta commDelta)))"

subsection \<open>Mining cuts\<close>

text \<open>
  The loop over the hosts for one lattice point \<open>p\<close>: the delta so far and the clocks so far. It
  breaks at the first host that has no entry in the point or no matching log entry (reporting
  the entry at the index the search ended on).
\<close>

fun cut_scan ::
  "'c vclock_ops \<Rightarrow> 'c list list \<Rightarrow> int list list \<Rightarrow> 'c \<Rightarrow> nat \<Rightarrow> string list \<Rightarrow> int \<times> 'c list \<Rightarrow> (int \<times> 'c list) go" where
  "cut_scan V clocks deltaComm p k [] st = Inr st"
| "cut_scan V clocks deltaComm p k (i # is) st =
     (if \<not> has_id V p i then Inr st
      else rbind (index_go clocks k) (\<lambda>cs.
        let (found, index) = searchClockById V cs p i
        in rbind (index_go cs index) (\<lambda>c.
           if \<not> found then Inr st
           else rbind (index_go deltaComm k) (\<lambda>row. rbind (index_go row index) (\<lambda>d.
             cut_scan V clocks deltaComm p (Suc k) is (fst st + d, snd st @ [c]))))))"

definition mine_point ::
  "'c vclock_ops \<Rightarrow> 'c list list \<Rightarrow> int list list \<Rightarrow> string list \<Rightarrow> 'c Cut list \<Rightarrow> 'c \<Rightarrow> 'c Cut list go" where
  "mine_point V clocks deltaComm ids cuts p =
     rbind (cut_scan V clocks deltaComm p 0 ids (0, [])) (\<lambda>(communicationDelta, cs).
       Inr (if communicationDelta = 0 then cuts @ [\<lparr>Clocks = cs\<rparr>] else cuts))"

definition mineConsistentCuts ::
  "'c vclock_ops \<Rightarrow> 'c list option list \<Rightarrow> 'c list list \<Rightarrow> int list list \<Rightarrow> 'c Cut list go" where
  "mineConsistentCuts V lattice clocks deltaComm =
     rbind (idClockMapper V clocks) (\<lambda>ids.
       foldR (\<lambda>cuts level. foldR (mine_point V clocks deltaComm ids) cuts (layer level)) [] lattice)"

text \<open>
  The goroutines of one level. A failing goroutine ends the program, so a level fails when one of
  them does.
\<close>

definition mine_level ::
  "'c go_runtime \<Rightarrow> 'c vclock_ops \<Rightarrow> 'c list list \<Rightarrow> int list list \<Rightarrow> string list \<Rightarrow> 'c list \<Rightarrow> 'c Cut list go" where
  "mine_level R V clocks deltaComm ids level =
     (let d = ThreadCount R (length level)
      in rbind (traverse (\<lambda>division. foldR (mine_point V clocks deltaComm ids) [] (level_slice level d division)) [0..<d])
           (\<lambda>cuts. Inr (concat (map (\<lambda>division. cuts ! division) (RecvOrder R [0..<d])))))"

partial_function (option) mine_loop ::
  "'c go_runtime \<Rightarrow> 'c vclock_ops \<Rightarrow> 'c list list \<Rightarrow> int list list \<Rightarrow> string list \<Rightarrow> 'c LatticeWrapper \<Rightarrow> 'c Cut list
     \<Rightarrow> ('c Cut list \<times> 'c LatticeWrapper) go option" where
  "mine_loop R V clocks deltaComm ids lw consistentCuts =
     (case Pop lw of
        Inl e \<Rightarrow> Some (Inl e)
      | Inr (popped, lw') \<Rightarrow>
          (case popped of
             None \<Rightarrow> Some (Inr (consistentCuts, lw'))
           | Some level \<Rightarrow>
               (case mine_level R V clocks deltaComm ids level of
                  Inl e \<Rightarrow> Some (Inl e)
                | Inr cuts \<Rightarrow> mine_loop R V clocks deltaComm ids lw' (consistentCuts @ cuts))))"

definition mineConsistentCuts2 ::
  "'c go_runtime \<Rightarrow> 'c vclock_ops \<Rightarrow> 'c LatticeWrapper \<Rightarrow> 'c list list \<Rightarrow> int list list
     \<Rightarrow> ('c Cut list \<times> 'c LatticeWrapper) go option" where
  "mineConsistentCuts2 R V lw clocks deltaComm =
     (case rbind (idClockMapper V clocks) (\<lambda>ids. rbind (Beginning lw) (\<lambda>lw1. Inr (ids, lw1))) of
        Inl e \<Rightarrow> Some (Inl e)
      | Inr (ids, lw1) \<Rightarrow>
          map_option (\<lambda>r. rbind r (\<lambda>(cuts, lw2). Inr (cuts, Delete lw2)))
            (mine_loop R V clocks deltaComm ids lw1 []))"

subsection \<open>Chains of communicating hosts\<close>

definition countAncestors :: "'c vclock_ops \<Rightarrow> 'c Cut \<Rightarrow> nat list" where
  "countAncestors V ct =
     map (\<lambda>i. length (filter (\<lambda>j. i \<noteq> j \<and> Compare V (Clocks ct ! i) (Clocks ct ! j) Ancestor)
                      [0..<length (Clocks ct)]))
       [0..<length (Clocks ct)]"

text \<open>The state of the loop: \<open>maxAncestors\<close> (\<open>-1\<close> at first) and the host found so far.\<close>

definition findUnorderedHost :: "nat list \<Rightarrow> bool list \<Rightarrow> nat option go" where
  "findUnorderedHost ancestors ordered =
     rbind (foldR (\<lambda>(maxAncestors, host) i.
              if int (ancestors ! i) > maxAncestors
              then rbind (index_go ordered i) (\<lambda>marked.
                Inr (if \<not> marked then (int (ancestors ! i), Some i) else (maxAncestors, host)))
              else Inr (maxAncestors, host)) (- 1, None) [0..<length ancestors])
       (\<lambda>st. Inr (snd st))"

definition sender_step ::
  "'c vclock_ops \<Rightarrow> 'c Cut \<Rightarrow> 'c list list \<Rightarrow> bool list \<Rightarrow> string list \<Rightarrow> nat \<Rightarrow> int \<times> nat option \<Rightarrow> nat
     \<Rightarrow> (int \<times> nat option) go" where
  "sender_step V ct clocks ordered ids receiver st potentialSender =
     (if potentialSender = receiver then Inr st
      else rbind (index_go ordered potentialSender) (\<lambda>marked.
        if marked then Inr st
        else rbind (index_go ids potentialSender) (\<lambda>i.
          rbind (matchSendAndReceive V (Clocks ct ! potentialSender) clocks i) (\<lambda>m.
            Inr (case m of
                   None \<Rightarrow> st
                 | Some (matchedReceiver, event) \<Rightarrow>
                     if matchedReceiver = receiver \<and> int event > fst st then (int event, Some potentialSender)
                     else st)))))"

definition findSenderInCut ::
  "'c vclock_ops \<Rightarrow> 'c Cut \<Rightarrow> 'c list list \<Rightarrow> bool list \<Rightarrow> string list \<Rightarrow> nat \<Rightarrow> nat option go" where
  "findSenderInCut V ct clocks ordered ids receiver =
     rbind (foldR (sender_step V ct clocks ordered ids receiver) (- 1, None) [0..<length (Clocks ct)])
       (\<lambda>st. Inr (snd st))"

definition appendOrdering :: "nat list list \<Rightarrow> bool list \<Rightarrow> nat \<Rightarrow> nat list list \<times> bool list" where
  "appendOrdering orders ordered hostIndex =
     (butlast orders @ [last orders @ [hostIndex]], ordered[hostIndex := True])"

lemma sender_fold_unordered:
  "foldR (sender_step V ct clocks ordered ids receiver) st xs = Inr (d, Some s) \<Longrightarrow>
   snd st = Some s \<or> s \<in> set xs \<and> s < length ordered \<and> \<not> ordered ! s \<and> s \<noteq> receiver \<and>
     (\<exists>i e. index_go ids s = Inr i \<and> matchSendAndReceive V (Clocks ct ! s) clocks i = Inr (Some (receiver, e)))"
proof (induction xs arbitrary: st)
  case (Cons x xs)
  then obtain st' where st': "sender_step V ct clocks ordered ids receiver st x = Inr st'"
    "foldR (sender_step V ct clocks ordered ids receiver) st' xs = Inr (d, Some s)"
    by (auto simp: go_bind)
  have "st' = st \<or> x \<noteq> receiver \<and> x < length ordered \<and> \<not> ordered ! x \<and> x < length ids \<and>
    (\<exists>m. matchSendAndReceive V (Clocks ct ! x) clocks (ids ! x) = Inr m \<and>
       st' = (case m of None \<Rightarrow> st | Some (r, e) \<Rightarrow> if r = receiver \<and> int e > fst st then (int e, Some x) else st))"
    using st'(1) by (auto simp: sender_step_def go_bind split: if_splits)
  then have "st' = st \<or> snd st' = Some x \<and> x < length ordered \<and> \<not> ordered ! x \<and> x \<noteq> receiver \<and>
     (\<exists>i e. index_go ids x = Inr i \<and> matchSendAndReceive V (Clocks ct ! x) clocks i = Inr (Some (receiver, e)))"
    by (auto split: if_splits option.splits prod.splits)
  with Cons.IH [OF st'(2)] show ?case by auto
qed simp

lemma findSender_found:
  assumes "findSenderInCut V ct clocks ordered ids receiver = Inr (Some s)"
  shows "s < length (Clocks ct) \<and> s < length ordered \<and> \<not> ordered ! s \<and> s \<noteq> receiver \<and>
     (\<exists>i e. index_go ids s = Inr i \<and> matchSendAndReceive V (Clocks ct ! s) clocks i = Inr (Some (receiver, e)))"
  using assms sender_fold_unordered [of V ct clocks ordered ids receiver "(- 1, None)" "[0..<length (Clocks ct)]"]
  by (auto simp: findSenderInCut_def go_bind)

lemma count_unordered_less:
  "s < length ordered \<Longrightarrow> \<not> ordered ! s \<Longrightarrow> count_list (ordered[s := True]) False < count_list ordered False"
proof (induction ordered arbitrary: s)
  case (Cons b bs)
  then show ?case by (cases s) auto
qed simp

function chain_loop ::
  "'c vclock_ops \<Rightarrow> 'c Cut \<Rightarrow> 'c list list \<Rightarrow> string list \<Rightarrow> nat list list \<Rightarrow> bool list \<Rightarrow> nat
     \<Rightarrow> (nat list list \<times> bool list) go" where
  "chain_loop V ct clocks ids orders ordered rootHost =
     (case findSenderInCut V ct clocks ordered ids rootHost of
        Inl e \<Rightarrow> Inl e
      | Inr None \<Rightarrow> Inr (orders, ordered)
      | Inr (Some sendersIndex) \<Rightarrow>
          chain_loop V ct clocks ids (fst (appendOrdering orders ordered sendersIndex))
            (snd (appendOrdering orders ordered sendersIndex)) sendersIndex)"
  by pat_completeness auto
termination
  by (relation "measure (\<lambda>(V, ct, clocks, ids, orders, ordered, root). count_list ordered False)")
    (auto simp: appendOrdering_def dest!: findSender_found intro: count_unordered_less)

declare chain_loop.simps [simp del]

lemma unordered_fold:
  "foldR (\<lambda>(maxAncestors, host) i.
      if int (ancestors ! i) > maxAncestors
      then rbind (index_go ordered i) (\<lambda>marked.
        Inr (if \<not> marked then (int (ancestors ! i), Some i) else (maxAncestors, host)))
      else Inr (maxAncestors, host)) (mx, h) xs = Inr (d, Some s) \<Longrightarrow>
   h = Some s \<or> s \<in> set xs \<and> s < length ordered \<and> \<not> ordered ! s"
proof (induction xs arbitrary: mx h)
  case (Cons x xs)
  then show ?case by (fastforce simp: go_bind split: if_splits)
qed simp

lemma findUnordered_found:
  "findUnorderedHost ancestors ordered = Inr (Some s) \<Longrightarrow> s < length ancestors \<and> s < length ordered \<and> \<not> ordered ! s"
  unfolding findUnorderedHost_def by (auto simp: go_bind dest: unordered_fold)

lemma chain_loop_marks:
  "chain_loop V ct clocks ids orders ordered root = Inr (orders', ordered') \<Longrightarrow>
   count_list ordered' False \<le> count_list ordered False"
proof (induction V ct clocks ids orders ordered root rule: chain_loop.induct)
  case (1 V ct clocks ids orders ordered root)
  show ?case
  proof (cases "findSenderInCut V ct clocks ordered ids root")
    case (Inr r)
    show ?thesis
    proof (cases r)
      case None
      with "1.prems" Inr show ?thesis by (simp add: chain_loop.simps [of V ct clocks ids orders ordered root])
    next
      case (Some s)
      let ?ordered = "snd (appendOrdering orders ordered s)"
      have "chain_loop V ct clocks ids (fst (appendOrdering orders ordered s)) ?ordered s = Inr (orders', ordered')"
        using "1.prems" Inr Some by (simp add: chain_loop.simps [of V ct clocks ids orders ordered root])
      from "1.IH" [OF Inr Some this] have "count_list ordered' False \<le> count_list ?ordered False" .
      also have "\<dots> \<le> count_list ordered False"
        using Inr Some by (auto simp: appendOrdering_def dest!: findSender_found intro!: less_imp_le count_unordered_less)
      finally show ?thesis .
    qed
  qed (use "1.prems" in \<open>simp add: chain_loop.simps [of V ct clocks ids orders ordered root]\<close>)
qed

function order_loop ::
  "'c vclock_ops \<Rightarrow> 'c Cut \<Rightarrow> 'c list list \<Rightarrow> string list \<Rightarrow> nat list \<Rightarrow> nat list list \<Rightarrow> bool list
     \<Rightarrow> nat list list go" where
  "order_loop V ct clocks ids ancestors orders ordered =
     (case findUnorderedHost ancestors ordered of
        Inl e \<Rightarrow> Inl e
      | Inr None \<Rightarrow> Inr orders
      | Inr (Some rootHost) \<Rightarrow>
          (let (orders1, ordered1) = appendOrdering (orders @ [[]]) ordered rootHost
           in case chain_loop V ct clocks ids orders1 ordered1 rootHost of
                Inl e \<Rightarrow> Inl e
              | Inr (orders2, ordered2) \<Rightarrow> order_loop V ct clocks ids ancestors orders2 ordered2))"
  by pat_completeness auto
termination
proof (relation "measure (\<lambda>(V, ct, clocks, ids, ancestors, orders, ordered). count_list ordered False)")
  fix V :: "'c vclock_ops" and ct clocks ids ancestors and orders :: "nat list list" and ordered r root p orders1 ordered1 q orders2 ordered2
  assume a: "findUnorderedHost ancestors ordered = Inr r" "r = Some root" "p = appendOrdering (orders @ [[]]) ordered root"
    "(orders1, ordered1) = p" "chain_loop V ct clocks ids orders1 ordered1 root = Inr q" "(orders2, ordered2) = q"
  then have "count_list ordered2 False \<le> count_list ordered1 False" by (auto dest: chain_loop_marks)
  also have "\<dots> < count_list ordered False"
    using a by (auto simp: appendOrdering_def dest!: findUnordered_found intro: count_unordered_less)
  finally show "((V, ct, clocks, ids, ancestors, orders2, ordered2), (V, ct, clocks, ids, ancestors, orders, ordered))
      \<in> measure (\<lambda>(V, ct, clocks, ids, ancestors, orders, ordered). count_list ordered False)" by simp
qed simp

declare order_loop.simps [simp del]

definition totalOrderFromCut :: "'c vclock_ops \<Rightarrow> 'c Cut \<Rightarrow> 'c list list \<Rightarrow> nat list list go" where
  "totalOrderFromCut V ct clocks =
     rbind (idClockMapper V clocks) (\<lambda>ids.
       order_loop V ct clocks ids (countAncestors V ct) [] (replicate (length (Clocks ct)) False))"

subsection \<open>Operations on cuts\<close>

definition HappenedBefore :: "'c vclock_ops \<Rightarrow> 'c Cut \<Rightarrow> 'c Cut \<Rightarrow> bool" where
  "HappenedBefore V c other =
     list_all (\<lambda>beforeClock. list_all (\<lambda>afterClock. Compare V beforeClock afterClock Descendant) (Clocks other)) (Clocks c)"

definition Cut_String :: "'c vclock_ops \<Rightarrow> 'c Cut \<Rightarrow> string" where
  "Cut_String V c =
     foldl (\<lambda>catString clock. catString @ '' |(VC: '' @ ReturnVCString V clock @ '')'') ''{'' (Clocks c) @ ''}''"

end
