(* ===== verification/Point_Logs.thy ===== *)
theory Point_Logs
  imports Cuts
begin

text \<open>
  \<open>logmerger/logs.go\<close>, \<open>logmerger/state.go\<close> and the rest of \<open>logmerger/utils.go\<close>: program points and
  their values, the logs of points and of vector clocks, reading and writing them, filling the
  gaps of a point log, and renaming hosts.

  What comes from outside is an argument: the points a JSON decoder yields, the text of a log
  file, the replacement function of the regular expression package for the id of a host
  (\<open>regexp\<close> below), and the order in which a range visits a map (\<open>ord\<close>).
\<close>

section \<open>Definitions\<close>

subsection \<open>Values\<close>

text \<open>
  The dynamic values a dump can hold. A finite \<open>float64\<close> is \<open>m * 2 ^ e\<close> for integers \<open>m\<close> and \<open>e\<close>.
\<close>

datatype go_value =
    VBool bool
  | VInt int
  | VUint nat
  | VFloat int int
  | VInf bool
  | VNaN
  | VString string
  | VOther

text \<open>\<open>|m * 2 ^ e| * s\<close> rounded to an integer, ties to even, and truncated.\<close>

definition scaled_round :: "nat \<Rightarrow> int \<Rightarrow> int \<Rightarrow> nat" where
  "scaled_round s m e =
     (if e \<ge> 0 then nat \<bar>m\<bar> * 2 ^ nat e * s
      else let n = nat \<bar>m\<bar> * s; d = 2 ^ nat (- e); q = n div d; r = n mod d
           in if 2 * r > d \<or> (2 * r = d \<and> odd q) then q + 1 else q)"

definition float_trunc :: "int \<Rightarrow> int \<Rightarrow> int" where
  "float_trunc m e = sgn m * int (if e \<ge> 0 then nat \<bar>m\<bar> * 2 ^ nat e else nat \<bar>m\<bar> div 2 ^ nat (- e))"

text \<open>The verb \<open>%.2f\<close>.\<close>

definition show_float2 :: "int \<Rightarrow> int \<Rightarrow> string" where
  "show_float2 m e =
     (let n = scaled_round 100 m e
      in (if m < 0 then ''-'' else '''') @ show_nat (n div 100) @ ''.'' @
         [digit_char (n mod 100 div 10), digit_char (n mod 10)])"

record NameValuePair =
  VarName :: string
  Value :: go_value
  Type :: string

definition value_string :: "go_value \<Rightarrow> string" where
  "value_string v =
     (case v of
        VBool b \<Rightarrow> if b then ''true'' else ''false''
      | VInt i \<Rightarrow> show_int i
      | VUint n \<Rightarrow> show_nat n
      | VFloat m e \<Rightarrow> show_float2 m e
      | VInf pos \<Rightarrow> if pos then ''+Inf'' else ''-Inf''
      | VNaN \<Rightarrow> ''NaN''
      | VString s \<Rightarrow> dquote # map (\<lambda>c. if c = newline then CHR '' '' else c) s @ [dquote]
      | VOther \<Rightarrow> [])"

definition NameValuePair_value :: "NameValuePair \<Rightarrow> string" where
  "NameValuePair_value nvp = value_string (Value nvp)"

definition NameValuePair_String :: "NameValuePair \<Rightarrow> string" where
  "NameValuePair_String nvp =
     ''(Name:'' @ VarName nvp @ '',Value:'' @ NameValuePair_value nvp @ '',Type:'' @ Type nvp @ '')''"

subsection \<open>Points and logs\<close>

record Point =
  Dump :: "NameValuePair list"
  Id :: string
  VectorClock :: bytes
  CommunicationDelta :: int

text \<open>A freshly allocated point, all fields zero.\<close>

definition zero_point :: Point where
  "zero_point = \<lparr>Dump = [], Id = [], VectorClock = [], CommunicationDelta = 0\<rparr>"

definition point_clock :: "'c vclock_ops \<Rightarrow> Point \<Rightarrow> 'c" where
  "point_clock V p = fst (FromBytes V (VectorClock p))"

definition Point_String :: "'c vclock_ops \<Rightarrow> Point \<Rightarrow> string" where
  "Point_String V p =
     Id p @ '' { '' @ concat (map NameValuePair_String (Dump p)) @ '' } { '' @ ReturnVCString V (point_clock V p) @ '' }''"

record 'c golog =
  log_id :: string
  log_clocks :: "'c list"
  log_messages :: "string list"

definition golog_String :: "'c vclock_ops \<Rightarrow> 'c golog \<Rightarrow> string go" where
  "golog_String V g =
     rbind (traverse (\<lambda>i. rbind (index_go (log_messages g) i) (\<lambda>msg.
              Inr (''id: '' @ log_id g @ [CHR 0x09] @ '' clock: '' @ ReturnVCString V (log_clocks g ! i) @
                   [newline] @ '' '' @ msg @ [newline]))) [0..<length (log_clocks g)])
       (\<lambda>ls. Inr (concat ls))"

definition golog_Len :: "'c golog \<Rightarrow> nat" where
  "golog_Len g = length (log_clocks g)"

definition golog_Less :: "'c vclock_ops \<Rightarrow> 'c golog \<Rightarrow> nat \<Rightarrow> nat \<Rightarrow> bool" where
  "golog_Less V g i j \<longleftrightarrow> ticks V (log_clocks g ! i) (log_id g) < ticks V (log_clocks g ! j) (log_id g)"

definition golog_Swap :: "'c golog \<Rightarrow> nat \<Rightarrow> nat \<Rightarrow> 'c golog" where
  "golog_Swap g i j =
     g\<lparr>log_clocks := (log_clocks g)[i := log_clocks g ! j, j := log_clocks g ! i]\<rparr>"

text \<open>
  \<open>sort.Sort\<close> reorders through \<open>Len\<close>, \<open>Less\<close> and \<open>Swap\<close> only, here by insertion: element \<open>i\<close> is
  swapped down while it is less than its predecessor.
\<close>

fun sift_down :: "'c vclock_ops \<Rightarrow> 'c golog \<Rightarrow> nat \<Rightarrow> 'c golog" where
  "sift_down V g 0 = g"
| "sift_down V g (Suc j) = (if golog_Less V g (Suc j) j then sift_down V (golog_Swap g (Suc j) j) j else g)"

definition sort_golog :: "'c vclock_ops \<Rightarrow> 'c golog \<Rightarrow> 'c golog" where
  "sort_golog V g = foldl (sift_down V) g [1..<golog_Len g]"

text \<open>The ordering of points by id.\<close>

definition sort_ById :: "Point list \<Rightarrow> Point list" where
  "sort_ById ps = sort_key Id ps"

record 'c State =
  state_Cut :: "'c Cut"
  state_Points :: "Point list"
  state_TotalOrdering :: "nat list list"

definition State_String :: "'c vclock_ops \<Rightarrow> 'c State \<Rightarrow> string" where
  "State_String V st =
     ''@ Cut '' @ Cut_String V (state_Cut st) @ '' '' @ [CHR 0x5C] @ ''Cut '' @ [newline] @ ''['' @ '' States'' @
     concat (map (\<lambda>p. '' ['' @ Point_String V p @ '']'') (state_Points st)) @ ''] '' @ [CHR 0x5C] @ ''State'' @ [newline] @
     concat (map (\<lambda>chain. ''['' @ concat (map (\<lambda>j. '' '' @ show_nat j @ '','') chain) @ '']'') (state_TotalOrdering st)) @
     '']@'' @ [newline]"

subsection \<open>Reading logs\<close>

definition fixJsonEncodingTypeConversion :: "Point \<Rightarrow> Point go" where
  "fixJsonEncodingTypeConversion p =
     rbind (traverse (\<lambda>nvp.
         if Type nvp = ''int'' then
           (case Value nvp of
              VFloat m e \<Rightarrow> Inr (nvp\<lparr>Value := VInt (float_trunc m e)\<rparr>)
            | _ \<Rightarrow> Inl TypeAssertion)
         else Inr nvp) (Dump p))
       (\<lambda>dump. Inr (p\<lparr>Dump := dump\<rparr>))"

text \<open>
  \<open>decoded\<close> are the points the JSON decoder yields until its first error, \<open>final\<close> the value it
  leaves behind then; an absent file is \<open>None\<close>.
\<close>

definition readLog :: "(Point list \<times> Point) option \<Rightarrow> Point list go" where
  "readLog file =
     (case file of
        None \<Rightarrow> Inl (Panic ''open: no such file or directory'')
      | Some (decoded, final) \<Rightarrow>
          rbind (traverse fixJsonEncodingTypeConversion decoded) (\<lambda>pointArray.
          rbind (fixJsonEncodingTypeConversion final) (\<lambda>_. Inr pointArray)))"

text \<open>
  The matches of \<open>(\S*) ({.*})\n(.*)\<close>: the host runs up to the space before the clock, the clock
  is the rest of the line, which ends in a brace, and the message is the next line.
\<close>

definition is_space :: "char \<Rightarrow> bool" where
  "is_space c \<longleftrightarrow> c \<in> set [CHR 0x09, newline, CHR 0x0C, CHR 0x0D, CHR '' '']"

abbreviation not_space :: "char \<Rightarrow> bool" where
  "not_space c \<equiv> \<not> is_space c"

definition match_log_at :: "string \<Rightarrow> ((string \<times> string \<times> string) \<times> string) option" where
  "match_log_at s =
     (let host = takeWhile not_space s
      in case dropWhile not_space s of
           a # b # r \<Rightarrow>
             (let line = takeWhile (\<lambda>c. c \<noteq> newline) r
              in case dropWhile (\<lambda>c. c \<noteq> newline) r of
                   _ # s2 \<Rightarrow>
                     if a = CHR '' '' \<and> b = CHR ''{'' \<and> line \<noteq> [] \<and> last line = CHR ''}''
                     then Some ((host, b # line, takeWhile (\<lambda>c. c \<noteq> newline) s2), dropWhile (\<lambda>c. c \<noteq> newline) s2)
                     else None
                 | [] \<Rightarrow> None)
         | _ \<Rightarrow> None)"

lemma match_log_at_rest: "match_log_at s = Some (m, r) \<Longrightarrow> length r < length s"
proof -
  assume "match_log_at s = Some (m, r)"
  then obtain a b t n s2 where s: "dropWhile not_space s = a # b # t" "dropWhile (\<lambda>c. c \<noteq> newline) t = n # s2"
    "r = dropWhile (\<lambda>c. c \<noteq> newline) s2"
    by (auto simp: match_log_at_def Let_def split: list.splits if_splits)
  have "length r \<le> length s2" by (simp add: s(3) length_dropWhile_le)
  moreover have "length (n # s2) \<le> length t" using length_dropWhile_le [of "\<lambda>c. c \<noteq> newline" t] s(2) by simp
  moreover have "length (a # b # t) \<le> length s" using length_dropWhile_le [of not_space s] s(1) by simp
  ultimately show ?thesis by simp
qed

function find_logs :: "string \<Rightarrow> (string \<times> string \<times> string) list" where
  "find_logs [] = []"
| "find_logs (c # s) =
     (case match_log_at (c # s) of
        None \<Rightarrow> find_logs s
      | Some (m, r) \<Rightarrow> m # find_logs r)"
  by pat_completeness auto
termination
  by (relation "measure length") (auto dest: match_log_at_rest)

text \<open>
  \<open>None\<close> is the nil result: no match (with an error), or a clock that cannot be parsed.
\<close>

definition GoLogFromString :: "'c vclock_ops \<Rightarrow> string \<Rightarrow> 'c golog option" where
  "GoLogFromString V clockLog =
     (case find_logs clockLog of
        [] \<Rightarrow> None
      | (h, _) # _ \<Rightarrow>
          (let ms = find_logs clockLog; cs = map (\<lambda>(_, c, _). ClockFromString V c) ms
           in if None \<in> set cs then None
              else Some \<lparr>log_id = h, log_clocks = map the cs, log_messages = map (\<lambda>(_, _, m). m) ms\<rparr>))"

text \<open>
  \<open>bufio.Scanner\<close> by lines: a trailing carriage return is dropped, an unterminated last line
  counts unless it is empty, and a line that does not fit the buffer of 65536 bytes ends the scan.
\<close>

definition drop_cr :: "string \<Rightarrow> string" where
  "drop_cr l = (if l \<noteq> [] \<and> last l = CHR 0x0D then butlast l else l)"

function scan_lines :: "string \<Rightarrow> string list" where
  "scan_lines s =
     (if s = [] then []
      else let l = takeWhile (\<lambda>c. c \<noteq> newline) s; r = dropWhile (\<lambda>c. c \<noteq> newline) s
           in if length l \<ge> 65536 then []
              else drop_cr l # (case r of [] \<Rightarrow> [] | _ # r' \<Rightarrow> scan_lines r'))"
  by pat_completeness auto
termination
proof (relation "measure length")
  fix s l r and n :: char and r'
  assume a: "s \<noteq> []" "r = dropWhile (\<lambda>c. c \<noteq> newline) s" "r = n # r'"
  then have "length (n # r') \<le> length s" using length_dropWhile_le [of "\<lambda>c. c \<noteq> newline" s] by simp
  then show "(r', s) \<in> measure length" by simp
qed simp

declare scan_lines.simps [simp del]

definition ParseGologFile :: "'c vclock_ops \<Rightarrow> string option \<Rightarrow> 'c golog option" where
  "ParseGologFile V file =
     (case file of
        None \<Rightarrow> None
      | Some contents \<Rightarrow> GoLogFromString V (concat (map (\<lambda>l. newline # l) (scan_lines contents))))"

subsection \<open>Completing and renaming logs\<close>

definition blank_point :: "'c vclock_ops \<Rightarrow> 'c \<Rightarrow> Point" where
  "blank_point V c = zero_point\<lparr>VectorClock := Bytes V c\<rparr>"

function inject_loop ::
  "'c vclock_ops \<Rightarrow> Point list \<Rightarrow> 'c golog \<Rightarrow> nat \<Rightarrow> nat \<Rightarrow> bool \<Rightarrow> Point list \<Rightarrow> Point list" where
  "inject_loop V points log pointIndex goLogIndex indexFound injectedPoints =
     (if pointIndex < length points \<and> goLogIndex < length (log_clocks log) then
        let pointClock = point_clock V (points ! pointIndex);
            t = ticks V pointClock (log_id log); found = has_id V pointClock (log_id log)
        in if found \<and> int_of_u64 t = int goLogIndex + 1 then
             inject_loop V points log (pointIndex + 1) goLogIndex True (injectedPoints @ [points ! pointIndex])
           else if found \<and> int_of_u64 t \<noteq> int goLogIndex + 1 \<and> indexFound then
             inject_loop V points log pointIndex (goLogIndex + 1) False injectedPoints
           else
             inject_loop V points log pointIndex (goLogIndex + 1) False
               (injectedPoints @ [blank_point V (log_clocks log ! goLogIndex)])
      else injectedPoints @ map (blank_point V) (drop goLogIndex (log_clocks log)))"
  by pat_completeness auto
termination
  by (relation "measure (\<lambda>(V, points, log, p, g, f, i). (length points - p) + (length (log_clocks log) - g))") auto

declare inject_loop.simps [simp del]

definition injectMissingPoints :: "'c vclock_ops \<Rightarrow> Point list \<Rightarrow> 'c golog \<Rightarrow> Point list" where
  "injectMissingPoints V points log = inject_loop V points log 0 0 False []"

definition addBaseLog :: "'c vclock_ops \<Rightarrow> string \<Rightarrow> Point list \<Rightarrow> Point list" where
  "addBaseLog V name log = zero_point\<lparr>VectorClock := Bytes V (Tick V (New V) name)\<rparr> # log"

definition namingSchemes :: "(string, string list) gomap" where
  "namingSchemes =
     [(''colors'', [''blue'', ''red'', ''green'', ''purple'', ''black'', ''orange'', ''yellow'', ''gold'', ''white'',
        ''pink'', ''azure'', ''brown'', ''cobalt'', ''cyan'', ''grey'', ''indigo'', ''jade'']),
      (''fruits'', [''Apple'', ''Banana'', ''Apricot'', ''Strawberry'', ''Orange'', ''Grape'', ''Raspberry'',
        ''Blackberry'', ''Blueberry'', ''WaterMelon'', ''Rambutan'', ''Lanzones'', ''Pears'', ''Plums'', ''Peaches'',
        ''Pineapple'', ''Cantaloupe'', ''Papaya'', ''Jackfruit'', ''Durian'']),
      (''philosophers'', [''Aristotle'', ''Chomsky'', ''Locke'', ''Nietzsche'', ''Plato'']),
      (''letters'', map (\<lambda>n. [char_of (n :: nat)]) [65..<79])]"

text \<open>
  \<open>ord\<close> is the order in which the range visits \<open>idMap\<close>. A nil clock (a tick too large for an \<open>int\<close>)
  reads like an empty one.
\<close>

definition swapClockIds ::
  "'c vclock_ops \<Rightarrow> ((string, string) gomap \<Rightarrow> (string, string) gomap) \<Rightarrow> 'c \<Rightarrow> (string, string) gomap \<Rightarrow> 'c option" where
  "swapClockIds V ord oldClock idMap =
     (let es = filter (\<lambda>e. ticks V oldClock (fst e) > 0) (ord idMap)
      in ConstructVclock V (map snd es) (map (\<lambda>e. int_of_u64 (ticks V oldClock (fst e))) es))"

definition swapped ::
  "'c vclock_ops \<Rightarrow> ((string, string) gomap \<Rightarrow> (string, string) gomap) \<Rightarrow> (string, string) gomap \<Rightarrow> 'c \<Rightarrow> 'c" where
  "swapped V ord idMap c = (case swapClockIds V ord c idMap of None \<Rightarrow> New V | Some d \<Rightarrow> d)"

definition new_name :: "(string, string) gomap \<Rightarrow> string \<Rightarrow> string" where
  "new_name idMap i = (case gomap_get idMap i of None \<Rightarrow> [] | Some n \<Rightarrow> n)"

definition rename_point ::
  "'c vclock_ops \<Rightarrow> ((string, string) gomap \<Rightarrow> (string, string) gomap) \<Rightarrow> (string \<Rightarrow> string \<Rightarrow> string \<Rightarrow> string)
     \<Rightarrow> (string, string) gomap \<Rightarrow> string \<Rightarrow> Point \<Rightarrow> Point" where
  "rename_point V ord regexp idMap i p =
     p\<lparr>Id := regexp i (Id p) (new_name idMap i),
       Dump := map (\<lambda>nvp. nvp\<lparr>VarName := new_name idMap i @ ''-'' @ VarName nvp\<rparr>) (Dump p),
       VectorClock := Bytes V (swapped V ord idMap (point_clock V p))\<rparr>"

definition rename_golog ::
  "'c vclock_ops \<Rightarrow> ((string, string) gomap \<Rightarrow> (string, string) gomap) \<Rightarrow> (string \<Rightarrow> string \<Rightarrow> string \<Rightarrow> string)
     \<Rightarrow> (string, string) gomap \<Rightarrow> 'c golog \<Rightarrow> 'c golog go" where
  "rename_golog V ord regexp idMap g =
     (if length (log_messages g) < length (log_clocks g) then Inl IndexOutOfRange
      else Inr (g\<lparr>log_id := new_name idMap (log_id g), log_clocks := map (swapped V ord idMap) (log_clocks g),
        log_messages := map (\<lambda>m. regexp (log_id g) m (new_name idMap (log_id g))) (take (length (log_clocks g)) (log_messages g))
          @ drop (length (log_clocks g)) (log_messages g)\<rparr>))"

definition scheme_names :: "string \<Rightarrow> 'c golog list \<Rightarrow> string list" where
  "scheme_names scheme goLogs =
     (case gomap_get namingSchemes scheme of None \<Rightarrow> map log_id goLogs | Some names \<Rightarrow> names)"

definition id_map :: "string \<Rightarrow> 'c golog list \<Rightarrow> (string, string) gomap go" where
  "id_map scheme goLogs =
     foldR (\<lambda>m i. rbind (index_go (scheme_names scheme goLogs) i) (\<lambda>n. Inr (gomap_set (log_id (goLogs ! i)) n m)))
       [] [0..<length goLogs]"

definition replaceIds ::
  "'c vclock_ops \<Rightarrow> ((string, string) gomap \<Rightarrow> (string, string) gomap) \<Rightarrow> (string \<Rightarrow> string \<Rightarrow> string \<Rightarrow> string)
     \<Rightarrow> Point list list \<Rightarrow> 'c golog list \<Rightarrow> string \<Rightarrow> (Point list list \<times> 'c golog list) go" where
  "replaceIds V ord regexp pointLog goLogs scheme =
     rbind (id_map scheme goLogs) (\<lambda>idMap.
       foldR (\<lambda>(pl, gl) i.
         rbind (index_go gl i) (\<lambda>g.
         rbind (rename_golog V ord regexp idMap g) (\<lambda>g'.
           Inr (pl[i := map (rename_point V ord regexp idMap (log_id g)) (pl ! i)], gl[i := g']))))
         (pointLog, goLogs) [0..<length pointLog])"

subsection \<open>Clocks and points of a log\<close>

fun clocks_of_points :: "'c vclock_ops \<Rightarrow> Point list \<Rightarrow> 'c list option" where
  "clocks_of_points V [] = Some []"
| "clocks_of_points V (p # ps) =
     (case FromBytes V (VectorClock p) of
        (vc, err) \<Rightarrow> if err then None else map_option (\<lambda>cs. vc # cs) (clocks_of_points V ps))"

fun VectorClockArraysFromLogs :: "'c vclock_ops \<Rightarrow> Point list list \<Rightarrow> 'c list list option" where
  "VectorClockArraysFromLogs V [] = Some []"
| "VectorClockArraysFromLogs V (l # ls) =
     (case clocks_of_points V l of
        None \<Rightarrow> None
      | Some cs \<Rightarrow> map_option (\<lambda>css. cs # css) (VectorClockArraysFromLogs V ls))"

definition VectorClockArraysFromGoVectorLogs :: "'c golog list \<Rightarrow> 'c list list" where
  "VectorClockArraysFromGoVectorLogs clockLogs = map log_clocks clockLogs"

definition searchLogForClock :: "'c vclock_ops \<Rightarrow> Point list \<Rightarrow> 'c \<Rightarrow> string \<Rightarrow> bool \<times> nat" where
  "searchLogForClock V log keyClock i =
     search_loop (\<lambda>m. ticks V (point_clock V (log ! m)) i) (ticks V keyClock i) 0 (int (length log) - 1) 0"

fun host_time_loop :: "(Point \<Rightarrow> bool) \<Rightarrow> bool \<Rightarrow> Point list \<Rightarrow> Point list" where
  "host_time_loop P foundPoint [] = []"
| "host_time_loop P foundPoint (p # ps) =
     (if P p then p # host_time_loop P True ps
      else if foundPoint then [] else host_time_loop P foundPoint ps)"

definition getEventsWithIdenticalHostTime :: "'c vclock_ops \<Rightarrow> Point list \<Rightarrow> string \<Rightarrow> int \<Rightarrow> Point list" where
  "getEventsWithIdenticalHostTime V points hostId time =
     host_time_loop (\<lambda>p. let c = point_clock V p in has_id V c hostId \<and> int_of_u64 (ticks V c hostId) = time) False points"

type_synonym point_maps = "(string, (u64, Point) gomap) gomap"

definition point_map_of :: "'c vclock_ops \<Rightarrow> string \<Rightarrow> Point list \<Rightarrow> (u64, Point) gomap" where
  "point_map_of V i points = foldl (\<lambda>m p. gomap_set (ticks V (point_clock V p) i) p m) [] points"

definition pointsToMaps :: "'c vclock_ops \<Rightarrow> Point list list \<Rightarrow> point_maps go" where
  "pointsToMaps V points =
     foldR (\<lambda>m ps.
       rbind (index_go ps 0) (\<lambda>p.
       rbind (getClockId V [point_clock V p]) (\<lambda>i. Inr (gomap_set i (point_map_of V i ps) m)))) [] points"

subsection \<open>Daikon traces\<close>

definition bucket :: "('a \<Rightarrow> string) \<Rightarrow> 'a list \<Rightarrow> (string, 'a list) gomap" where
  "bucket key xs =
     foldl (\<lambda>m x. gomap_set (key x) ((case gomap_get m (key x) of None \<Rightarrow> [] | Some ys \<Rightarrow> ys) @ [x]) m) [] xs"

definition createMapOfLogsForEachPoint :: "Point list \<Rightarrow> (string, Point list) gomap" where
  "createMapOfLogsForEachPoint log = bucket Id log"

definition createMapOfLogsForEachState :: "'c State list \<Rightarrow> (string, 'c State list) gomap" where
  "createMapOfLogsForEachState log = bucket (\<lambda>st. concat (map Id (state_Points st))) log"

definition declare_variable :: "NameValuePair \<Rightarrow> string" where
  "declare_variable nvp =
     (if Type nvp = [] then []
      else ''variable '' @ VarName nvp @ [newline] @ ''var-kind variable'' @ [newline] @ ''dec-type '' @ Type nvp @ [newline] @
        ''rep-type '' @ Type nvp @ [newline] @ ''comparability -1'' @ [newline])"

definition writeDeclaration ::
  "((string, Point list) gomap \<Rightarrow> (string, Point list) gomap) \<Rightarrow> (string, Point list) gomap \<Rightarrow> string go" where
  "writeDeclaration ord mapOfPoints =
     rbind (traverse (\<lambda>(_, v). rbind (index_go v 0) (\<lambda>point.
         Inr (''ppt p-'' @ Id point @ '':::'' @ Id point @ [newline] @ ''ppt-type point'' @ [newline] @
              concat (map declare_variable (Dump point)) @ [newline]))) (ord mapOfPoints))
       (\<lambda>ppts. Inr (''decl-version 2.0'' @ [newline] @ ''var-comparability none'' @ [newline, newline] @ concat ppts))"

definition write_variable :: "NameValuePair \<Rightarrow> string" where
  "write_variable nvp =
     (if Type nvp = [] then [] else VarName nvp @ [newline] @ NameValuePair_value nvp @ [newline] @ ''1'' @ [newline])"

definition writeValues :: "Point list \<Rightarrow> string" where
  "writeValues log =
     concat (map (\<lambda>(i, point). ''p-'' @ Id point @ '':::'' @ Id point @ [newline] @ ''this_invocation_nonce'' @ [newline] @
       show_nat i @ [newline] @ concat (map write_variable (Dump point)) @ [newline]) (zip [0..<length log] log))"

text \<open>The name under which a trace is stored; \<open>hash\<close> is \<open>Hash\<close>, the hexadecimal SHA-1 digest.\<close>

definition newFile_name :: "(string \<Rightarrow> string) \<Rightarrow> string \<Rightarrow> string \<Rightarrow> string" where
  "newFile_name hash filename extension = (if length filename > 50 then hash filename else filename) @ ''.'' @ extension"

type_synonym files = "(string, string) gomap"

definition writeLogToTrace ::
  "(string \<Rightarrow> string) \<Rightarrow> ((string, Point list) gomap \<Rightarrow> (string, Point list) gomap) \<Rightarrow> Point list \<Rightarrow> string \<Rightarrow> files \<Rightarrow> files go" where
  "writeLogToTrace hash ord log filename fs =
     rbind (writeDeclaration ord (createMapOfLogsForEachPoint log)) (\<lambda>decl.
       Inr (gomap_set (newFile_name hash filename ''dtrace'') (decl @ writeValues log) fs))"

end
