(* ===== verification/Point_Log_Props.thy ===== *)
theory Point_Log_Props
  imports Point_Logs
begin

text \<open>
  Properties of the logs of \<open>logmerger/logs.go\<close>: sorting a log, the points injected for events
  that were not dumped and what remains of them in the map of points, parsing a printed log,
  bucketing points, and renaming hosts.
\<close>

section \<open>Sorting\<close>

abbreviation own_ticks :: "'c vclock_ops \<Rightarrow> 'c golog \<Rightarrow> u64 list" where
  "own_ticks V g \<equiv> map (\<lambda>c. ticks V c (log_id g)) (log_clocks g)"

lemma golog_Swap_simps [simp]:
  "log_id (golog_Swap g i j) = log_id g" "log_messages (golog_Swap g i j) = log_messages g"
  "length (log_clocks (golog_Swap g i j)) = length (log_clocks g)"
  by (simp_all add: golog_Swap_def)

lemma mset_golog_Swap:
  "i < length (log_clocks g) \<Longrightarrow> j < length (log_clocks g) \<Longrightarrow> mset (log_clocks (golog_Swap g i j)) = mset (log_clocks g)"
  by (simp add: golog_Swap_def mset_swap)

lemma sift_down_same [simp]:
  "log_id (sift_down V g i) = log_id g" "log_messages (sift_down V g i) = log_messages g"
  "length (log_clocks (sift_down V g i)) = length (log_clocks g)"
  by (induction V g i rule: sift_down.induct) simp_all

lemma mset_sift_down: "i < length (log_clocks g) \<Longrightarrow> mset (log_clocks (sift_down V g i)) = mset (log_clocks g)"
  by (induction V g i rule: sift_down.induct) (simp_all add: mset_golog_Swap)

lemma sift_down_beyond: "i < k \<Longrightarrow> k < length (log_clocks g) \<Longrightarrow> log_clocks (sift_down V g i) ! k = log_clocks g ! k"
  by (induction V g i rule: sift_down.induct) (simp_all add: golog_Swap_def)

text \<open>Sifting element \<open>i\<close> into a prefix that is sorted but for it.\<close>

lemma sift_down_sorted:
  assumes "i < length (log_clocks g)"
    and "\<And>a b. a \<le> b \<Longrightarrow> b \<le> n \<Longrightarrow> a \<noteq> i \<Longrightarrow> b \<noteq> i \<Longrightarrow> own_ticks V g ! a \<le> own_ticks V g ! b"
    and "\<And>b. i < b \<Longrightarrow> b \<le> n \<Longrightarrow> own_ticks V g ! i \<le> own_ticks V g ! b"
    and "i \<le> n" and "n < length (log_clocks g)" and "a \<le> b" and "b \<le> n"
  shows "own_ticks V (sift_down V g i) ! a \<le> own_ticks V (sift_down V g i) ! b"
  using assms
proof (induction V g i rule: sift_down.induct)
  case (1 V g)
  then show ?case by (cases "a = 0"; cases "b = 0") auto
next
  case (2 V g j)
  let ?t = "\<lambda>g k. own_ticks V g ! k"
  show ?case
  proof (cases "golog_Less V g (Suc j) j")
    case True
    let ?g = "golog_Swap g (Suc j) j"
    have t: "?t ?g k = (if k = j then ?t g (Suc j) else if k = Suc j then ?t g j else ?t g k)" if "k \<le> n" for k
      using that 2(2,6) by (auto simp: golog_Swap_def nth_list_update)
    have less: "?t g (Suc j) < ?t g j" using True 2(2) by (simp add: golog_Less_def)
    have "?t ?g x \<le> ?t ?g y" if "x \<le> y" "y \<le> n" "x \<noteq> j" "y \<noteq> j" for x y
    proof (cases "x = Suc j")
      case True
      then show ?thesis using that t [of x] t [of y] 2(3) [of j y] by (cases "y = Suc j") auto
    next
      case False
      then show ?thesis using that t [of x] t [of y] 2(3) [of x j] 2(3) [of x y] by (cases "y = Suc j") auto
    qed
    moreover have "?t ?g j \<le> ?t ?g y" if "j < y" "y \<le> n" for y
      using that t [of y] t [of j] less 2(4) [of y] by (cases "y = Suc j") auto
    ultimately have "?t (sift_down V ?g j) a \<le> ?t (sift_down V ?g j) b"
      using 2(2,5-8) by (intro "2.IH" [OF True]) auto
    with True show ?thesis by simp
  next
    case False
    then have ge: "?t g j \<le> ?t g (Suc j)" using 2(2) by (simp add: golog_Less_def not_less)
    have "?t g a \<le> ?t g b"
    proof (cases "b = Suc j")
      case True
      then show ?thesis using 2(3) [of a j] ge 2(5,7) by (cases "a = Suc j") auto
    next
      case False
      then show ?thesis using 2(3) [of a b] 2(4) [of b] 2(7,8) by (cases "a = Suc j") auto
    qed
    with False show ?thesis by simp
  qed
qed

lemma sort_golog_props:
  shows "log_id (sort_golog V g) = log_id g" "log_messages (sort_golog V g) = log_messages g"
    "mset (log_clocks (sort_golog V g)) = mset (log_clocks g)" "sorted (own_ticks V (sort_golog V g))"
proof -
  have inv: "log_id (foldl (sift_down V) g [1..<k]) = log_id g \<and> log_messages (foldl (sift_down V) g [1..<k]) = log_messages g \<and>
      mset (log_clocks (foldl (sift_down V) g [1..<k])) = mset (log_clocks g) \<and>
      (\<forall>a b. a \<le> b \<longrightarrow> b < k \<longrightarrow> own_ticks V (foldl (sift_down V) g [1..<k]) ! a \<le> own_ticks V (foldl (sift_down V) g [1..<k]) ! b)"
    if "k \<le> length (log_clocks g)" for k
    using that
  proof (induction k)
    case (Suc k)
    let ?g = "foldl (sift_down V) g [1..<k]"
    have IH: "log_id ?g = log_id g" "log_messages ?g = log_messages g" "mset (log_clocks ?g) = mset (log_clocks g)"
      "\<And>a b. a \<le> b \<Longrightarrow> b < k \<Longrightarrow> own_ticks V ?g ! a \<le> own_ticks V ?g ! b"
      using Suc by auto
    have len: "length (log_clocks ?g) = length (log_clocks g)" using mset_eq_length [OF IH(3)] .
    show ?case
    proof (cases "k = 0")
      case False
      have fold: "foldl (sift_down V) g [1..<Suc k] = sift_down V ?g k" using False by simp
      have "own_ticks V (sift_down V ?g k) ! a \<le> own_ticks V (sift_down V ?g k) ! b" if "a \<le> b" "b < Suc k" for a b
        using that IH(4) len Suc.prems by (intro sift_down_sorted [of k _ k]) auto
      with IH(1-3) len Suc.prems show ?thesis unfolding fold by (simp add: mset_sift_down)
    qed simp
  qed simp
  from inv [of "length (log_clocks g)"] mset_eq_length
  show "log_id (sort_golog V g) = log_id g" "log_messages (sort_golog V g) = log_messages g"
    "mset (log_clocks (sort_golog V g)) = mset (log_clocks g)" "sorted (own_ticks V (sort_golog V g))"
    by (auto simp: sort_golog_def golog_Len_def sorted_iff_nth_mono dest!: mset_eq_length)
qed

section \<open>Injected points\<close>

text \<open>
  The tick of the log's owner at a point, and what the result of \<open>injectMissingPoints\<close> holds for
  entry \<open>j\<close> of the clock log: the points dumped at its tick, followed by a blank point when there
  are none or when the last point of the log is among them.
\<close>

definition point_tick :: "'c vclock_ops \<Rightarrow> string \<Rightarrow> Point \<Rightarrow> nat" where
  "point_tick V i p = unat (ticks V (point_clock V p) i)"

definition injected_at :: "'c vclock_ops \<Rightarrow> 'c golog \<Rightarrow> Point list \<Rightarrow> nat \<Rightarrow> Point list" where
  "injected_at V log points j =
     (let ps = filter (\<lambda>p. point_tick V (log_id log) p = Suc j) points
      in ps @ (if ps = [] \<or> point_tick V (log_id log) (last points) = Suc j
               then [blank_point V (log_clocks log ! j)] else []))"

definition points_fit :: "'c vclock_ops \<Rightarrow> 'c golog \<Rightarrow> Point list \<Rightarrow> bool" where
  "points_fit V log points \<longleftrightarrow>
     sorted (map (point_tick V (log_id log)) points) \<and> length (log_clocks log) < 2 ^ 63 \<and>
     list_all (\<lambda>p. has_id V (point_clock V p) (log_id log) \<and> 0 < point_tick V (log_id log) p \<and>
       point_tick V (log_id log) p \<le> length (log_clocks log)) points"

text \<open>The same with the state of the loop: entry \<open>g\<close> is current and \<open>found\<close> tells whether it has had a point.\<close>

definition pending_at :: "(Point \<Rightarrow> nat) \<Rightarrow> (nat \<Rightarrow> Point) \<Rightarrow> nat \<Rightarrow> bool \<Rightarrow> Point list \<Rightarrow> nat \<Rightarrow> Point list" where
  "pending_at key bl g found ps j =
     (let q = filter (\<lambda>p. key p = Suc j) ps
      in q @ (if (q = [] \<and> \<not> (found \<and> j = g \<and> ps \<noteq> [])) \<or> (ps \<noteq> [] \<and> key (last ps) = Suc j) then [bl j] else []))"

abbreviation pending :: "(Point \<Rightarrow> nat) \<Rightarrow> (nat \<Rightarrow> Point) \<Rightarrow> nat \<Rightarrow> nat \<Rightarrow> bool \<Rightarrow> Point list \<Rightarrow> Point list" where
  "pending key bl n g found ps \<equiv> concat (map (pending_at key bl g found ps) [g..<n])"

lemma pending_end: "pending key bl n g found [] = map bl [g..<n]"
proof -
  have "pending_at key bl g found [] = (\<lambda>j. [bl j])" by (simp add: fun_eq_iff pending_at_def)
  then show ?thesis by simp
qed

lemma pending_take:
  assumes "key p = Suc g" and "g < n"
  shows "pending key bl n g found (p # ps) = p # pending key bl n g True ps"
proof -
  have "[g..<n] = g # [Suc g..<n]" using assms(2) by (rule upt_conv_Cons)
  moreover have "pending_at key bl g found (p # ps) g = p # pending_at key bl g True ps g"
    using assms(1) by (cases "ps = []") (auto simp: pending_at_def)
  moreover have "map (pending_at key bl g found (p # ps)) [Suc g..<n] = map (pending_at key bl g True ps) [Suc g..<n]"
    using assms(1) by (cases "ps = []") (auto simp: pending_at_def)
  ultimately show ?thesis by (simp only: list.map concat.simps append_Cons)
qed

lemma pending_skip:
  assumes "ps \<noteq> []" and "\<And>p. p \<in> set ps \<Longrightarrow> Suc g < key p" and "g < n"
  shows "pending key bl n g found ps = (if found then [] else [bl g]) @ pending key bl n (Suc g) False ps"
proof -
  have "[g..<n] = g # [Suc g..<n]" using assms(3) by (rule upt_conv_Cons)
  moreover have "filter (\<lambda>p. key p = Suc g) ps = []" using assms(2) by (fastforce simp: filter_empty_conv)
  then have "pending_at key bl g found ps g = (if found then [] else [bl g])"
    using assms(1) assms(2) [of "last ps"] by (auto simp: pending_at_def)
  moreover have "map (pending_at key bl g found ps) [Suc g..<n] = map (pending_at key bl (Suc g) False ps) [Suc g..<n]"
    by (auto simp: pending_at_def)
  ultimately show ?thesis by (simp only: list.map concat.simps)
qed

lemma int_tick_iff:
  "point_tick V i p < 2 ^ 63 \<Longrightarrow> int_of_u64 (ticks V (point_clock V p) i) = int g + 1 \<longleftrightarrow> point_tick V i p = Suc g"
  using int_of_u64_small [of "ticks V (point_clock V p) i"] unfolding point_tick_def by linarith

lemma inject_loop_eq:
  assumes "points_fit V log points"
  defines "key \<equiv> point_tick V (log_id log)" and "n \<equiv> length (log_clocks log)"
  shows "pi \<le> length points \<Longrightarrow> g \<le> n \<Longrightarrow> (\<And>p. p \<in> set (drop pi points) \<Longrightarrow> Suc g \<le> key p) \<Longrightarrow>
    inject_loop V points log pi g found acc =
    acc @ pending key (\<lambda>j. blank_point V (log_clocks log ! j)) n g found (drop pi points)"
proof (induction "(length points - pi) + (n - g)" arbitrary: pi g found acc rule: less_induct)
  case less
  note simps = inject_loop.simps [of V points log pi g found acc]
  let ?bl = "\<lambda>j. blank_point V (log_clocks log ! j)"
  have fit: "has_id V (point_clock V p) (log_id log)" "key p \<le> n" "key p < 2 ^ 63" if "p \<in> set points" for p
    using assms that by (auto simp: points_fit_def list_all_iff)
  show ?case
  proof (cases "pi < length points \<and> g < n")
    case True
    let ?p = "points ! pi" and ?rest = "drop (Suc pi) points"
    have drop: "drop pi points = ?p # ?rest" using True by (simp add: Cons_nth_drop_Suc)
    have mem: "?p \<in> set points" using True by simp
    have "sorted (map key (drop pi points))"
      using assms(1) sorted_wrt_drop [of "(\<le>)" "map key points" pi] by (simp add: points_fit_def key_def drop_map)
    then have ge: "key ?p \<le> key p" if "p \<in> set ?rest" for p using that drop by auto
    have tick: "int_of_u64 (ticks V (point_clock V ?p) (log_id log)) = int g + 1 \<longleftrightarrow> key ?p = Suc g"
      using int_tick_iff fit(3) [OF mem] unfolding key_def by blast
    show ?thesis
    proof (cases "key ?p = Suc g")
      case eq: True
      have "inject_loop V points log pi g found acc = inject_loop V points log (Suc pi) g True (acc @ [?p])"
        unfolding simps using True eq tick fit(1) [OF mem] by (simp add: n_def Let_def)
      also have "\<dots> = (acc @ [?p]) @ pending key ?bl n g True ?rest"
        using True ge eq by (intro less.hyps) auto
      finally show ?thesis using pending_take [of key ?p g n ?bl found ?rest] eq True drop by simp
    next
      case neq: False
      then have lt: "Suc g < key p" if "p \<in> set (drop pi points)" for p
        using that drop ge less.prems(3) [of ?p] by fastforce
      have "inject_loop V points log pi g found acc =
          inject_loop V points log pi (Suc g) False (acc @ (if found then [] else [?bl g]))"
        unfolding simps using True neq tick fit(1) [OF mem] by (simp add: n_def Let_def)
      also have "\<dots> = (acc @ (if found then [] else [?bl g])) @ pending key ?bl n (Suc g) False (drop pi points)"
        using True lt by (intro less.hyps) (auto simp: Suc_le_eq)
      finally show ?thesis using pending_skip [of "drop pi points" g key n ?bl found] lt True by simp
    qed
  next
    case False
    have "drop pi points = []"
    proof (rule ccontr)
      assume ne: "drop pi points \<noteq> []"
      then have "hd (drop pi points) \<in> set (drop pi points)" by simp
      then have "Suc g \<le> n" using less.prems(3) fit(2) in_set_dropD by (meson order_trans)
      with False ne show False by simp
    qed
    moreover have "map (blank_point V) (drop g (log_clocks log)) = map ?bl [g..<n]"
      by (rule nth_equalityI) (auto simp: n_def)
    ultimately show ?thesis unfolding simps using False by (simp add: n_def pending_end)
  qed
qed

lemma injectMissingPoints_eq:
  assumes "points_fit V log points"
  shows "injectMissingPoints V points log =
    (if points = [] then map (blank_point V) (log_clocks log)
     else concat (map (injected_at V log points) [0..<length (log_clocks log)]))"
proof -
  have pos: "Suc 0 \<le> point_tick V (log_id log) p" if "p \<in> set points" for p
    using assms that by (auto simp: points_fit_def list_all_iff)
  have "injectMissingPoints V points log =
      pending (point_tick V (log_id log)) (\<lambda>j. blank_point V (log_clocks log ! j)) (length (log_clocks log)) 0 False points"
    using inject_loop_eq [OF assms, of 0 0 False "[]"] pos by (simp add: injectMissingPoints_def)
  moreover have "map (blank_point V) (log_clocks log) = map (\<lambda>j. blank_point V (log_clocks log ! j)) [0..<length (log_clocks log)]"
    by (rule nth_equalityI) auto
  moreover have "pending_at (point_tick V (log_id log)) (\<lambda>j. blank_point V (log_clocks log ! j)) 0 False points = injected_at V log points"
    if "points \<noteq> []"
    using that by (auto simp: fun_eq_iff pending_at_def injected_at_def Let_def)
  ultimately show ?thesis by (simp add: pending_end)
qed

section \<open>Maps of points\<close>

lemma gomap_fold_last:
  "gomap_get (foldl (\<lambda>m x. gomap_set (key x) x m) m xs) k =
     (if filter (\<lambda>x. key x = k) xs = [] then gomap_get m k else Some (last (filter (\<lambda>x. key x = k) xs)))"
  by (induction xs rule: rev_induct) (auto simp: gomap_simps)

lemma point_map_of_get:
  "gomap_get (point_map_of V i ps) k =
     (let q = filter (\<lambda>p. ticks V (point_clock V p) i = k) ps in if q = [] then None else Some (last q))"
  by (simp add: point_map_of_def gomap_fold_last)

definition owned_log :: "'c vclock_ops \<Rightarrow> 'c golog \<Rightarrow> bool" where
  "owned_log V log \<longleftrightarrow>
     list_all (\<lambda>j. FindTicks V (log_clocks log ! j) (log_id log) = (of_nat (j + 1), True)) [0..<length (log_clocks log)]"

context vclock_api
begin

lemma blank_point_find: "FindTicks V (point_clock V (blank_point V c)) i = FindTicks V c i"
  using bytes_roundtrip [of c] by (auto simp: blank_point_def point_clock_def zero_point_def)

lemma blank_point_tick:
  assumes "owned_log V log" and "j < length (log_clocks log)" and "length (log_clocks log) < 2 ^ 63"
  shows "point_tick V (log_id log) (blank_point V (log_clocks log ! j)) = Suc j"
proof -
  have "FindTicks V (log_clocks log ! j) (log_id log) = (of_nat (Suc j), True)"
    using assms(1,2) by (simp add: owned_log_def list_all_iff)
  then show ?thesis using assms(2,3) by (simp add: point_tick_def blank_point_find unat_of_nat_u64 del: of_nat_Suc)
qed

lemma injected_at_tick:
  assumes "owned_log V log" and "points_fit V log points" and "k < length (log_clocks log)"
    and "p \<in> set (injected_at V log points k)"
  shows "point_tick V (log_id log) p = Suc k"
  using assms blank_point_tick [OF assms(1,3)]
  by (auto simp: injected_at_def points_fit_def Let_def split: if_splits)

lemma filter_injected:
  assumes "owned_log V log" and "points_fit V log points" and "j < length (log_clocks log)" and "points \<noteq> []"
  shows "filter (\<lambda>p. point_tick V (log_id log) p = Suc j) (injectMissingPoints V points log) = injected_at V log points j"
proof -
  let ?n = "length (log_clocks log)" and ?P = "\<lambda>p. point_tick V (log_id log) p = Suc j"
  have seg: "filter ?P (injected_at V log points k) = (if k = j then injected_at V log points j else [])" if "k < ?n" for k
    using injected_at_tick [OF assms(1,2) that] by (auto simp: filter_id_conv filter_empty_conv)
  have "filter ?P (concat (map (injected_at V log points) [0..<m])) = (if j < m then injected_at V log points j else [])"
    if "m \<le> ?n" for m
    using that by (induction m) (auto simp: seg)
  from this [of ?n] show ?thesis using assms(3,4) by (simp add: injectMissingPoints_eq [OF assms(2)])
qed

lemma last_point_lost:
  assumes log: "owned_log V log" and fit: "points_fit V log points" and j: "j < length (log_clocks log)" and ne: "points \<noteq> []"
  shows "gomap_get (point_map_of V (log_id log) (injectMissingPoints V points log)) (of_nat (Suc j)) =
    Some (let ps = filter (\<lambda>p. point_tick V (log_id log) p = Suc j) points
          in if ps = [] \<or> point_tick V (log_id log) (last points) = Suc j then blank_point V (log_clocks log ! j) else last ps)"
proof -
  have "Suc j < 2 ^ 64" using fit j by (simp add: points_fit_def)
  then have "ticks V (point_clock V p) (log_id log) = of_nat (Suc j) \<longleftrightarrow> point_tick V (log_id log) p = Suc j" for p
    unfolding point_tick_def by (simp only: word_unat_eq_iff unat_of_nat_u64)
  then have "filter (\<lambda>p. ticks V (point_clock V p) (log_id log) = of_nat (Suc j)) (injectMissingPoints V points log) =
      injected_at V log points j"
    using filter_injected [OF assms] by simp
  then show ?thesis by (auto simp: point_map_of_get injected_at_def Let_def simp del: of_nat_Suc)
qed

end

section \<open>Buckets\<close>

lemma bucket_get:
  "gomap_get (bucket key xs) k = (let ys = filter (\<lambda>x. key x = k) xs in if ys = [] then None else Some ys)"
  unfolding bucket_def Let_def by (induction xs rule: rev_induct) (auto simp: gomap_simps)

section \<open>Runs of equal times\<close>

lemma host_time_found: "host_time_loop P True ps = takeWhile P ps"
  by (induction ps) auto

lemma host_time_run: "host_time_loop P False ps = takeWhile P (dropWhile (\<lambda>p. \<not> P p) ps)"
  by (induction ps) (auto simp: host_time_found)

lemma sorted_run_filter:
  assumes "sorted (map f xs)"
  shows "takeWhile (\<lambda>x. f x = (k :: 'b :: linorder)) (dropWhile (\<lambda>x. f x \<noteq> k) xs) = filter (\<lambda>x. f x = k) xs"
  using assms
proof (induction xs)
  case (Cons x xs)
  have run: "sorted (map f ys) \<Longrightarrow> \<forall>y \<in> set ys. k \<le> f y \<Longrightarrow> takeWhile (\<lambda>x. f x = k) ys = filter (\<lambda>x. f x = k) ys" for ys
  proof (induction ys)
    case (Cons y ys)
    show ?case
    proof (cases "f y = k")
      case False
      then have "filter (\<lambda>x. f x = k) (y # ys) = []" using Cons.prems by (fastforce simp: filter_empty_conv)
      with False show ?thesis by simp
    qed (use Cons in auto)
  qed simp
  show ?case using Cons run [of xs] by auto
qed simp

section \<open>Renamed clocks\<close>

lemma swapped_clock:
  assumes "vclock_api V" and "distinct (map snd idMap)" and "mset (ord idMap) = mset idMap"
    and "list_all (\<lambda>e. unat (ticks V c (fst e)) < 2 ^ 63) idMap"
  shows "\<exists>d. swapClockIds V ord c idMap = Some d \<and>
    (\<forall>e \<in> set idMap. FindTicks V d (snd e) = (ticks V c (fst e), ticks V c (fst e) > 0)) \<and>
    (\<forall>i. i \<notin> snd ` set idMap \<longrightarrow> FindTicks V d i = (0, False))"
proof -
  let ?es = "filter (\<lambda>e. ticks V c (fst e) > 0) (ord idMap)"
  let ?t = "\<lambda>e. int_of_u64 (ticks V c (fst e))"
  have set: "set (ord idMap) = set idMap" using mset_eq_setD [OF assms(3)] .
  have t: "?t e = int (unat (ticks V c (fst e)))" if "e \<in> set idMap" for e
    by (rule int_of_u64_small) (use assms(4) that in \<open>auto simp: list_all_iff\<close>)
  then have "list_all (\<lambda>t. 0 \<le> t) (map ?t ?es)" using set by (auto simp: list_all_iff)
  then obtain d where d: "swapClockIds V ord c idMap = Some d"
    "\<forall>i. FindTicks V d i = (case map_of (rev (zip (map snd ?es) (map of_int (map ?t ?es)))) i of None \<Rightarrow> (0, False) | Some t \<Rightarrow> (t, True))"
    using vclock_api.ConstructVclock_entries [OF assms(1), of "map snd ?es" "map ?t ?es"]
    by (auto simp: swapClockIds_def)
  have "map of_int (map ?t ?es) = map (\<lambda>e. ticks V c (fst e)) ?es" using t set by simp
  then have zip: "zip (map snd ?es) (map of_int (map ?t ?es)) = map (\<lambda>e. (snd e, ticks V c (fst e))) ?es"
    by (simp add: zip_map_map zip_same_conv_map)
  have "distinct (map snd (ord idMap))"
    using assms(2,3) by (metis mset_eq_imp_distinct_iff mset_map)
  then have dist: "distinct (map fst (rev (map (\<lambda>e. (snd e, ticks V c (fst e))) ?es)))"
    by (auto simp: comp_def rev_map [symmetric] distinct_map_filter)
  have look: "map_of (rev (map (\<lambda>e. (snd e, ticks V c (fst e))) ?es)) (snd e) = (if ticks V c (fst e) > 0 then Some (ticks V c (fst e)) else None)"
    if e: "e \<in> set idMap" for e
  proof (cases "ticks V c (fst e) > 0")
    case True
    then have "(snd e, ticks V c (fst e)) \<in> set (rev (map (\<lambda>e. (snd e, ticks V c (fst e))) ?es))" using e set by auto
    then have "map_of (rev (map (\<lambda>e. (snd e, ticks V c (fst e))) ?es)) (snd e) = Some (ticks V c (fst e))"
      by (rule map_of_is_SomeI [OF dist])
    with True show ?thesis by simp
  next
    case False
    have "snd e \<notin> fst ` set (rev (map (\<lambda>e. (snd e, ticks V c (fst e))) ?es))"
    proof
      assume "snd e \<in> fst ` set (rev (map (\<lambda>e. (snd e, ticks V c (fst e))) ?es))"
      then obtain e' where e': "e' \<in> set idMap" "snd e' = snd e" "ticks V c (fst e') > 0" using set by auto
      then have "e' = e" using assms(2) e by (auto simp: distinct_map dest: inj_onD)
      with e'(3) False show False by simp
    qed
    with False show ?thesis by (simp add: map_of_eq_None_iff)
  qed
  have "FindTicks V d (snd e) = (ticks V c (fst e), ticks V c (fst e) > 0)" if "e \<in> set idMap" for e
    using d(2) look [OF that] unfolding zip by (auto simp: word_gt_0)
  moreover have "FindTicks V d i = (0, False)" if "i \<notin> snd ` set idMap" for i
  proof -
    have "i \<notin> fst ` set (rev (map (\<lambda>e. (snd e, ticks V c (fst e))) ?es))" using that set by force
    then show ?thesis using d(2) unfolding zip by (simp add: map_of_eq_None_iff [THEN iffD2])
  qed
  ultimately show ?thesis using d(1) by blast
qed

section \<open>Printed logs\<close>

text \<open>The text of a clock log: two lines per entry, as \<open>WriteShiVizLogFast\<close> prints them.\<close>

definition log_lines :: "'c vclock_ops \<Rightarrow> 'c golog \<Rightarrow> nat \<Rightarrow> string list" where
  "log_lines V g j = [log_id g @ '' '' @ ReturnVCString V (log_clocks g ! j), log_messages g ! j]"

definition golog_text :: "'c vclock_ops \<Rightarrow> 'c golog \<Rightarrow> string" where
  "golog_text V g =
     concat (map (\<lambda>l. l @ [newline]) (concat (map (log_lines V g) [0..<length (log_clocks g)])))"

definition plain_line :: "string \<Rightarrow> bool" where
  "plain_line l \<longleftrightarrow> newline \<notin> set l \<and> length l < 65536 \<and> (l = [] \<or> last l \<noteq> CHR 0x0D)"

lemma scan_lines_cons:
  assumes "plain_line l"
  shows "scan_lines (l @ newline # r) = l # scan_lines r"
proof -
  have "takeWhile (\<lambda>c. c \<noteq> newline) (l @ newline # r) = l" "dropWhile (\<lambda>c. c \<noteq> newline) (l @ newline # r) = newline # r"
    using assms by (auto simp: plain_line_def list_all_iff intro!: takeWhile_append_stop dropWhile_append_stop)
  then show ?thesis using assms
    by (subst scan_lines.simps) (auto simp: plain_line_def drop_cr_def Let_def)
qed

lemma scan_lines_text: "list_all plain_line ls \<Longrightarrow> scan_lines (concat (map (\<lambda>l. l @ [newline]) ls)) = ls"
proof (induction ls)
  case Nil
  show ?case by (simp add: scan_lines.simps)
next
  case (Cons l ls)
  then show ?case by (simp add: scan_lines_cons)
qed

declare find_logs.simps(2) [simp del]

lemma find_logs_entry:
  assumes host: "list_all not_space h" and line: "newline \<notin> set l" "l \<noteq> []" "last l = CHR ''}''"
    and msg: "newline \<notin> set m" and rest: "r = [] \<or> hd r = newline"
  shows "find_logs (newline # h @ CHR '' '' # CHR ''{'' # l @ newline # m @ r) = (h, CHR ''{'' # l, m) # find_logs r"
proof -
  let ?s = "h @ CHR '' '' # CHR ''{'' # l @ newline # m @ r"
  have sp: "is_space (CHR '' '')" "is_space newline" by (simp_all add: is_space_def)
  have "match_log_at (newline # ?s) = None" using sp by (auto simp: match_log_at_def Let_def split: list.splits)
  then have skip: "find_logs (newline # ?s) = find_logs ?s" by (simp add: find_logs.simps(2))
  have h: "takeWhile not_space ?s = h" "dropWhile not_space ?s = CHR '' '' # CHR ''{'' # l @ newline # m @ r"
    using host sp by (auto intro!: takeWhile_append_stop dropWhile_append_stop)
  have l: "takeWhile (\<lambda>c. c \<noteq> newline) (l @ newline # m @ r) = l" "dropWhile (\<lambda>c. c \<noteq> newline) (l @ newline # m @ r) = newline # m @ r"
    using line by (auto simp: list_all_iff intro!: takeWhile_append_stop dropWhile_append_stop)
  have m: "takeWhile (\<lambda>c. c \<noteq> newline) (m @ r) = m" "dropWhile (\<lambda>c. c \<noteq> newline) (m @ r) = r"
    using msg rest by (auto simp: list_all_iff intro!: takeWhile_append_stop dropWhile_append_stop)
  have "match_log_at ?s = Some ((h, CHR ''{'' # l, m), r)"
    unfolding match_log_at_def h Let_def using line by (simp add: l m)
  moreover obtain c s' where "?s = c # s'" by (cases ?s) auto
  ultimately show ?thesis unfolding skip by (simp add: find_logs.simps(2))
qed

lemma find_logs_text:
  assumes "list_all not_space h"
  shows "list_all (\<lambda>(c, m). \<exists>l. c = CHR ''{'' # l \<and> l \<noteq> [] \<and> last l = CHR ''}'' \<and> newline \<notin> set l \<and> newline \<notin> set m) es \<Longrightarrow>
    find_logs (concat (map (\<lambda>l. newline # l) (concat (map (\<lambda>(c, m). [h @ '' '' @ c, m]) es)))) = map (\<lambda>(c, m). (h, c, m)) es"
proof (induction es)
  case (Cons e es)
  obtain c m where e: "e = (c, m)" by force
  with Cons.prems obtain l where l: "c = CHR ''{'' # l" "l \<noteq> []" "last l = CHR ''}''" "newline \<notin> set l" "newline \<notin> set m" by auto
  let ?r = "concat (map (\<lambda>l. newline # l) (concat (map (\<lambda>(c, m). [h @ '' '' @ c, m]) es)))"
  have "?r = [] \<or> hd ?r = newline" by (cases es) auto
  from find_logs_entry [OF assms l(4,2,3,5) this] Cons e l(1) show ?case by simp
qed simp

lemma no_newline:
  "hostname h \<Longrightarrow> newline \<notin> set h" "newline \<notin> set (show_nat n)" 
proof -
  show "hostname h \<Longrightarrow> newline \<notin> set h" by (auto simp: hostname_def list_all_iff is_hostchar_def)
  show "newline \<notin> set (show_nat n)" using show_nat_digits [of n] by (auto simp: list_all_iff is_digit_def)
qed

lemma render_no_newline: "(\<And>e. e \<in> set es \<Longrightarrow> hostname (fst e)) \<Longrightarrow> newline \<notin> set (render_entries es)"
  by (induction es rule: render_entries.induct) (auto simp: render_entry_def no_newline)

definition readable_log :: "'c vclock_ops \<Rightarrow> 'c golog \<Rightarrow> bool" where
  "readable_log V g \<longleftrightarrow>
     log_clocks g \<noteq> [] \<and> length (log_messages g) = length (log_clocks g) \<and> list_all not_space (log_id g) \<and>
     list_all (\<lambda>j. list_all plain_line (log_lines V g j)) [0..<length (log_clocks g)] \<and>
     list_all (\<lambda>c. list_all (\<lambda>i. hostname i \<and> unat (ticks V c i) < 2 ^ 63) (RangeIds V c)) (log_clocks g)"

context vclock_api
begin

lemma vcstring_shape:
  assumes "list_all (\<lambda>i. hostname i \<and> unat (ticks V c i) < 2 ^ 63) (RangeIds V c)"
  obtains l where "ReturnVCString V c = CHR ''{'' # l" "l \<noteq> []" "last l = CHR ''}''" "newline \<notin> set l"
proof -
  have "hostname (fst e)" if "e \<in> set (entries_of c)" for e using assms that by (auto simp: list_all_iff)
  then have "newline \<notin> set (render_entries (entries_of c))" by (rule render_no_newline)
  then show thesis using that [of "render_entries (entries_of c) @ ''}''"] by (simp add: vcstring vc_render_def)
qed

lemma clock_parses:
  assumes "list_all (\<lambda>i. hostname i \<and> unat (ticks V c i) < 2 ^ 63) (RangeIds V c)"
  shows "\<exists>d. ClockFromString V (ReturnVCString V c) = Some d \<and> (\<forall>i. FindTicks V d i = FindTicks V c i)"
proof (rule clock_from_string_roundtrip)
  fix i
  show "has_id V c i \<Longrightarrow> hostname i" using assms range_ids [of c] by (auto simp: list_all_iff)
  show "unat (ticks V c i) < 2 ^ 63"
    using assms range_ids [of c] find_absent [of c i] by (cases "has_id V c i") (auto simp: list_all_iff)
qed

lemma golog_text_roundtrip:
  assumes "readable_log V g"
  shows "\<exists>g'. ParseGologFile V (Some (golog_text V g)) = Some g' \<and> log_id g' = log_id g \<and> log_messages g' = log_messages g \<and>
    list_all2 (\<lambda>d c. \<forall>i. FindTicks V d i = FindTicks V c i) (log_clocks g') (log_clocks g)"
proof -
  let ?n = "length (log_clocks g)" and ?h = "log_id g"
  let ?lines = "concat (map (log_lines V g) [0..<?n])"
  let ?es = "map (\<lambda>j. (ReturnVCString V (log_clocks g ! j), log_messages g ! j)) [0..<?n]"
  have R: "?n > 0" "length (log_messages g) = ?n" "list_all not_space ?h" "list_all plain_line ?lines"
    "\<And>c. c \<in> set (log_clocks g) \<Longrightarrow> list_all (\<lambda>i. hostname i \<and> unat (ticks V c i) < 2 ^ 63) (RangeIds V c)"
    using assms by (auto simp: readable_log_def list_all_iff)
  have "golog_text V g = concat (map (\<lambda>l. l @ [newline]) ?lines)" by (simp add: golog_text_def)
  then have scan: "scan_lines (golog_text V g) = ?lines" using scan_lines_text [OF R(4)] by simp
  have "log_lines V g = (\<lambda>j. [?h @ '' '' @ ReturnVCString V (log_clocks g ! j), log_messages g ! j])"
    by (simp add: fun_eq_iff log_lines_def)
  then have lines: "?lines = concat (map (\<lambda>(c, m). [?h @ '' '' @ c, m]) ?es)" by (simp add: comp_def)
  have ok: "list_all (\<lambda>(c, m). \<exists>l. c = CHR ''{'' # l \<and> l \<noteq> [] \<and> last l = CHR ''}'' \<and> newline \<notin> set l \<and> newline \<notin> set m) ?es"
  proof -
    have "\<exists>l. ReturnVCString V (log_clocks g ! j) = CHR ''{'' # l \<and> l \<noteq> [] \<and> last l = CHR ''}'' \<and> newline \<notin> set l \<and>
        newline \<notin> set (log_messages g ! j)" if j: "j < ?n" for j
    proof -
      have "plain_line (log_messages g ! j)" using R(4) j by (auto simp: list_all_iff log_lines_def)
      moreover obtain l where "ReturnVCString V (log_clocks g ! j) = CHR ''{'' # l" "l \<noteq> []" "last l = CHR ''}''" "newline \<notin> set l"
        using vcstring_shape [OF R(5) [OF nth_mem [OF j]]] by blast
      ultimately show ?thesis by (auto simp: plain_line_def)
    qed
    then show ?thesis by (auto simp: list_all_iff)
  qed
  have find: "find_logs (concat (map (\<lambda>l. newline # l) ?lines)) = map (\<lambda>(c, m). (?h, c, m)) ?es"
    unfolding lines by (rule find_logs_text [OF R(3) ok])
  define ds where "ds = map (\<lambda>c. the (ClockFromString V (ReturnVCString V c))) (log_clocks g)"
  have d: "ClockFromString V (ReturnVCString V (log_clocks g ! j)) = Some (ds ! j)"
    "\<forall>i. FindTicks V (ds ! j) i = FindTicks V (log_clocks g ! j) i" if "j < ?n" for j
    using clock_parses [OF R(5) [OF nth_mem [OF that]]] that by (auto simp: ds_def)
  let ?cs = "map (\<lambda>(_, c, _). ClockFromString V c) (map (\<lambda>(c, m). (?h, c, m)) ?es)"
  have len: "length ds = ?n" by (simp add: ds_def)
  have cs: "?cs = map Some ds" by (rule nth_equalityI) (simp_all add: d(1) len)
  have msgs: "map (\<lambda>(_, _, m). m) (map (\<lambda>(c, m). (?h, c, m)) ?es) = log_messages g"
    by (rule nth_equalityI) (auto simp: R(2))
  obtain e es' where es': "map (\<lambda>(c, m). (?h, c, m)) ?es = (?h, e) # es'"
    using R(1) by (cases "[0..<?n]") auto
  have "ParseGologFile V (Some (golog_text V g)) = Some \<lparr>log_id = ?h, log_clocks = ds, log_messages = log_messages g\<rparr>"
    unfolding ParseGologFile_def option.case scan GoLogFromString_def find Let_def cs msgs
    unfolding es' by (simp add: comp_def)
  moreover have "list_all2 (\<lambda>d c. \<forall>i. FindTicks V d i = FindTicks V c i) ds (log_clocks g)"
    using d(2) by (auto simp: list_all2_conv_all_nth len)
  ultimately show ?thesis by auto
qed

end

section \<open>Properties\<close>

text \<open>A clock log of one host with three events, and a dump taken at the second one.\<close>

definition solo_log :: "(string \<times> u64) list golog" where
  "solo_log = \<lparr>log_id = ''a'', log_clocks = [[(''a'', 1)], [(''a'', 2)], [(''a'', 3)]], log_messages = [''init'', ''send'', ''stop'']\<rparr>"

definition solo_point :: Point where
  "solo_point = \<lparr>Dump = [\<lparr>VarName = ''x'', Value = VInt 7, Type = ''int''\<rparr>], Id = ''a_1'',
     VectorClock = enc_entries [(''a'', 2)], CommunicationDelta = 0\<rparr>"

lemma solo_point_clock: "point_clock alist_clock solo_point = [(''a'', 2)]"
  by (simp add: point_clock_def solo_point_def alist_clock_def alist_bytes del: enc_entries.simps)

lemma solo_fit: "points_fit alist_clock solo_log [solo_point]"
  by (simp add: points_fit_def point_tick_def solo_point_clock) (simp add: solo_log_def alist_clock_def alist_find_def)

lemma solo_owned: "owned_log alist_clock solo_log"
  by (simp add: owned_log_def solo_log_def alist_clock_def alist_find_def upt_rec)

text \<open>
  C6: \<open>injectMissingPoints\<close> on a log of points in the order of the owner's ticks gives, for every
  entry of the clock log in order, the points dumped at that entry's tick, or one blank point
  with the entry's clock when there are none; and one more blank point after the points of the
  tick of the last dumped point.
\<close>

theorem injectMissingPoints_correct:
  assumes "points_fit V log points" and "points \<noteq> []"
  shows "injectMissingPoints V points log = concat (map (injected_at V log points) [0..<length (log_clocks log)])"
  using injectMissingPoints_eq [OF assms(1)] assms(2) by simp

theorem injectMissingPoints_correct_witness:
  "injectMissingPoints alist_clock [solo_point] solo_log =
    concat (map (injected_at alist_clock solo_log [solo_point]) [0..<length (log_clocks solo_log)])"
  by (rule injectMissingPoints_correct [OF solo_fit]) simp

text \<open>
  C7: in the map of points built from the completed log, every tick is bound to the last point
  dumped at it, except the tick of the last dumped point, which is bound to the blank point: the
  values of the last dump of a host are lost.
\<close>

theorem pointsToMaps_last_point_lost:
  assumes "vclock_api V" and "owned_log V log" and "points_fit V log points" and "j < length (log_clocks log)" and "points \<noteq> []"
  shows "gomap_get (point_map_of V (log_id log) (injectMissingPoints V points log)) (of_nat (Suc j)) =
    Some (let ps = filter (\<lambda>p. point_tick V (log_id log) p = Suc j) points
          in if ps = [] \<or> point_tick V (log_id log) (last points) = Suc j then blank_point V (log_clocks log ! j) else last ps)"
  by (rule vclock_api.last_point_lost [OF assms])

theorem pointsToMaps_last_point_lost_witness:
  "gomap_get (point_map_of alist_clock ''a'' (injectMissingPoints alist_clock [solo_point] solo_log)) 2 =
    Some (blank_point alist_clock [(''a'', 2)])"
proof -
  have "point_tick alist_clock ''a'' solo_point = 2"
    unfolding point_tick_def solo_point_clock by (simp add: alist_clock_def alist_find_def)
  with pointsToMaps_last_point_lost [OF alist.vclock_api_axioms solo_owned solo_fit, of 1] show ?thesis
    by (simp add: solo_log_def)
qed

text \<open>
  Sorting a clock log orders its clocks by the ticks of the owner and keeps all of them, but
  leaves the messages where they were, so in a log that was out of order the messages no longer
  stand beside their clocks.
\<close>

theorem sort_golog_correct:
  "sorted (own_ticks V (sort_golog V g)) \<and> mset (log_clocks (sort_golog V g)) = mset (log_clocks g) \<and>
   log_id (sort_golog V g) = log_id g \<and> log_messages (sort_golog V g) = log_messages g"
  using sort_golog_props [of V g] by simp

text \<open>
  C10: parsing the text of a clock log gives the log back: the id of the host, the messages, and
  clocks with the same entries.
\<close>

theorem ParseGologFile_roundtrip:
  assumes "vclock_api V" and "readable_log V g"
  shows "\<exists>g'. ParseGologFile V (Some (golog_text V g)) = Some g' \<and> log_id g' = log_id g \<and> log_messages g' = log_messages g \<and>
    list_all2 (\<lambda>d c. \<forall>i. FindTicks V d i = FindTicks V c i) (log_clocks g') (log_clocks g)"
  by (rule vclock_api.golog_text_roundtrip [OF assms])

definition echo_log :: "(string \<times> u64) list golog" where
  "echo_log = \<lparr>log_id = ''a'', log_clocks = [[(''a'', 1)]], log_messages = [''ok'']\<rparr>"

lemma echo_readable: "readable_log alist_clock echo_log"
proof -
  have "show_nat 1 = ''1''" by code_simp
  moreover have "hostname ''a''" by code_simp
  ultimately show ?thesis
    by (simp add: readable_log_def echo_log_def log_lines_def plain_line_def is_space_def alist_clock_def alist_find_def
        vc_render_def render_entry_def)
qed

theorem ParseGologFile_roundtrip_witness:
  "\<exists>g'. ParseGologFile alist_clock (Some (golog_text alist_clock echo_log)) = Some g' \<and> log_id g' = ''a'' \<and> log_messages g' = [''ok''] \<and>
    list_all2 (\<lambda>d c. \<forall>i. FindTicks alist_clock d i = FindTicks alist_clock c i) (log_clocks g') [[(''a'', 1)]]"
  using ParseGologFile_roundtrip [OF alist.vclock_api_axioms echo_readable] by (simp add: echo_log_def)

text \<open>
  The bucket a program point id is mapped to is the list of the points with that id, in the
  order of the log, and an id without points has none.
\<close>

theorem createMapOfLogsForEachPoint_correct:
  "gomap_get (createMapOfLogsForEachPoint log) k =
     (let ps = filter (\<lambda>p. Id p = k) log in if ps = [] then None else Some ps)"
  by (simp add: createMapOfLogsForEachPoint_def bucket_get)

text \<open>
  Renaming the hosts of a clock with \<open>swapClockIds\<close> succeeds while ticks fit an \<open>int\<close>; with
  distinct new names, the renamed clock has the tick of a host under its new name, and no other
  entries, whatever the order in which the map of names is visited.
\<close>

theorem swapClockIds_correct:
  assumes "vclock_api V" and "distinct (map snd idMap)" and "mset (ord idMap) = mset idMap"
    and "list_all (\<lambda>e. unat (ticks V c (fst e)) < 2 ^ 63) idMap"
  shows "\<exists>d. swapClockIds V ord c idMap = Some d \<and>
    (\<forall>e \<in> set idMap. FindTicks V d (snd e) = (ticks V c (fst e), ticks V c (fst e) > 0)) \<and>
    (\<forall>i. i \<notin> snd ` set idMap \<longrightarrow> FindTicks V d i = (0, False))"
  by (rule swapped_clock [of V idMap ord c, OF assms])

theorem swapClockIds_correct_witness:
  "\<exists>d. swapClockIds alist_clock rev [(''h1'', 4), (''h2'', 0)] [(''h1'', ''red''), (''h2'', ''blue'')] = Some d \<and>
    FindTicks alist_clock d ''red'' = (4, True) \<and> FindTicks alist_clock d ''blue'' = (0, False)"
proof -
  have h: "list_all (\<lambda>e. unat (ticks alist_clock [(''h1'', 4), (''h2'', 0)] (fst e)) < 2 ^ 63) [(''h1'', ''red''), (''h2'', ''blue'')]"
    by (simp add: alist_clock_def alist_find_def)
  show ?thesis
    using swapClockIds_correct [OF alist.vclock_api_axioms _ _ h, of rev] by (auto simp: alist_clock_def alist_find_def)
qed

text \<open>
  On a log in the order of the host's ticks, \<open>getEventsWithIdenticalHostTime\<close> returns all points
  of the given time, in order: stopping after the first run of matches loses nothing.
\<close>

theorem getEventsWithIdenticalHostTime_correct:
  assumes "sorted (map (\<lambda>p. int_of_u64 (ticks V (point_clock V p) h)) points)"
    and "list_all (\<lambda>p. has_id V (point_clock V p) h) points"
  shows "getEventsWithIdenticalHostTime V points h time =
    filter (\<lambda>p. int_of_u64 (ticks V (point_clock V p) h) = time) points"
proof -
  let ?f = "\<lambda>p. int_of_u64 (ticks V (point_clock V p) h)"
  have id: "has_id V (point_clock V p) h" if "p \<in> set points" for p using assms(2) that by (simp add: list_all_iff)
  have "host_time_loop (\<lambda>p. let c = point_clock V p in has_id V c h \<and> int_of_u64 (ticks V c h) = time) False ps =
      host_time_loop (\<lambda>p. ?f p = time) False ps" if "set ps \<subseteq> set points" for ps
  proof -
    have "host_time_loop (\<lambda>p. let c = point_clock V p in has_id V c h \<and> int_of_u64 (ticks V c h) = time) b ps =
        host_time_loop (\<lambda>p. ?f p = time) b ps" for b
      using that id by (induction ps arbitrary: b) (auto simp: Let_def)
    then show ?thesis .
  qed
  then show ?thesis
    unfolding getEventsWithIdenticalHostTime_def using sorted_run_filter [OF assms(1)] by (simp add: host_time_run)
qed

theorem getEventsWithIdenticalHostTime_correct_witness:
  "getEventsWithIdenticalHostTime alist_clock [solo_point] ''a'' 2 = [solo_point]"
proof -
  have "int_of_u64 2 = 2" by (simp add: int_of_u64_small)
  then show ?thesis
    using getEventsWithIdenticalHostTime_correct [of alist_clock "''a''" "[solo_point]" 2]
    by (simp add: solo_point_clock alist_FindTicks alist_find_def)
qed

end
