(* ===== verification/Cut_Mining.thy ===== *)
theory Cut_Mining
  imports Cuts
begin

text \<open>
  Correctness of \<open>logmerger/cuts.go\<close>: the communication deltas of a consistent cut add up to the
  number of messages in flight, so the cuts mined from the lattice are exactly the consistent
  cuts in which no matched message is in flight; and the chains \<open>totalOrderFromCut\<close> returns split
  the hosts of the cut.
\<close>

section \<open>Messages\<close>

text \<open>
  The receive matched with entry \<open>j\<close> of host \<open>i\<close>, and the messages a cut leaves in flight: sent by
  an event of the cut, received by an event outside.
\<close>

definition receipt :: "'c vclock_ops \<Rightarrow> string list \<Rightarrow> 'c list list \<Rightarrow> nat \<Rightarrow> nat \<Rightarrow> (nat \<times> nat) option" where
  "receipt V ids clocks i j =
     (case matchSendAndReceive V (clocks ! i ! j) clocks (ids ! i) of Inl _ \<Rightarrow> None | Inr r \<Rightarrow> r)"

definition in_flight :: "'c vclock_ops \<Rightarrow> string list \<Rightarrow> 'c list list \<Rightarrow> nat list \<Rightarrow> (nat \<times> nat) set" where
  "in_flight V ids clocks q =
     {(i, j). i < length ids \<and> j < q ! i \<and> (\<exists>r e. receipt V ids clocks i j = Some (r, e) \<and> q ! r \<le> e)}"

definition cut_clocks :: "'c list list \<Rightarrow> nat list \<Rightarrow> 'c Cut" where
  "cut_clocks clocks q = \<lparr>Clocks = map (\<lambda>k. clocks ! k ! (q ! k - 1)) [0..<length clocks]\<rparr>"

lemma causal_sender_sorted:
  assumes "causal_logs V ids clocks" and "i < length ids"
  shows "sender_sorted V clocks (ids ! i)"
proof -
  have "sorted (map (\<lambda>c. ticks V c (ids ! i)) (clocks ! k))" if "k < length clocks" for k
    using causal_logsD(7) [OF assms(1), of k _ i] causal_logsD(2) [OF assms(1)] that assms(2)
    by (auto simp: sorted_iff_nth_Suc word_le_nat_alt)
  then show ?thesis by (simp add: sender_sorted_def list_all_length)
qed

lemma causal_tick_mono:
  assumes "causal_logs V ids clocks" and "k < length ids" and "l < length ids" and "a \<le> b" and "b < log_len clocks k"
  shows "tk V ids clocks k a l \<le> tk V ids clocks k b l"
  using sender_sortedD [OF causal_sender_sorted [OF assms(1,3)], of k a b] assms causal_logsD(2) [OF assms(1)]
  by (simp add: word_le_nat_alt)

lemma idClockMapper_nth:
  "idClockMapper V clocks = Inr ids \<Longrightarrow> k < length clocks \<Longrightarrow> getClockId V (clocks ! k) = Inr (ids ! k)"
  by (simp add: idClockMapper_def traverse_Inr_iff)

lemma causal_own: 
  assumes "causal_logs V ids clocks" and "k < length ids" and "j < log_len clocks k"
  shows "tk V ids clocks k j k = Suc j"
  using causal_system.own [OF causal_system_logs [OF assms(1)] assms(2,3)] .

context vclock_api
begin

lemma receipt_eq:
  assumes "causal_logs V ids clocks" and "idClockMapper V clocks = Inr ids" and "i < length ids"
  shows "matchSendAndReceive V (clocks ! i ! j) clocks (ids ! i) = Inr (receipt V ids clocks i j)"
  using match_spec [OF causal_sender_sorted [OF assms(1,3)] assms(2), of "clocks ! i ! j"]
  by (auto simp: receipt_def)

lemma receiptD:
  assumes logs: "causal_logs V ids clocks" "idClockMapper V clocks = Inr ids" and i: "i < length ids" "j < log_len clocks i"
    and r: "receipt V ids clocks i j = Some (r, e)"
  shows "r < length ids" "e < log_len clocks r" "r \<noteq> i" "tk V ids clocks r e i = Suc j"
proof -
  have "receive_candidate V (clocks ! i ! j) clocks (ids ! i) r e"
    using match_spec [OF causal_sender_sorted [OF logs(1) i(1)] logs(2), of "clocks ! i ! j"] receipt_eq [OF logs i(1), of j] r
    by auto
  then have c: "r < length clocks" "getClockId V (clocks ! r) \<noteq> Inr (ids ! i)" "e < log_len clocks r"
    "ticks V (clocks ! r ! e) (ids ! i) = ticks V (clocks ! i ! j) (ids ! i)"
    by (auto simp: receive_candidate_def)
  then show "r < length ids" "e < log_len clocks r" "r \<noteq> i" "tk V ids clocks r e i = Suc j"
    using causal_logsD(2) [OF logs(1)] idClockMapper_nth [OF logs(2), of r] causal_own [OF logs(1) i] by auto
qed

text \<open>A consistent cut that contains a receive contains its send.\<close>

lemma receipt_in_cut:
  assumes logs: "causal_logs V ids clocks" "idClockMapper V clocks = Inr ids" and i: "i < length ids" "j < log_len clocks i"
    and r: "receipt V ids clocks i j = Some (r, e)" and cut: "consistent_cut V ids clocks q" and e: "e < q ! r"
  shows "j < q ! i"
proof -
  note R = receiptD [OF logs i r]
  have q: "q ! r \<le> log_len clocks r" "tk V ids clocks r (q ! r - 1) i \<le> q ! i"
    using cut R(1) i(1) by (auto simp: consistent_cut_def cut_of_def)
  have "Suc j \<le> tk V ids clocks r (q ! r - 1) i"
    using causal_tick_mono [OF logs(1) R(1) i(1), of e "q ! r - 1"] R(4) e q(1) by simp
  with q(2) show ?thesis by simp
qed

end

section \<open>Deltas\<close>

lemma length_fill_row [simp]: "length (fill_row f ds) = length ds"
  by (induction ds arbitrary: f) auto

lemma fill_row_nth: "j < length ds \<Longrightarrow> fill_row f ds ! j = f + (\<Sum>l\<le>j. ds ! l)"
proof (induction ds arbitrary: f j)
  case (Cons d ds)
  then show ?case by (cases j) (auto simp: sum.atMost_Suc_shift simp del: sum.atMost_Suc)
qed simp

definition add_at :: "int list list \<Rightarrow> nat \<Rightarrow> nat \<Rightarrow> int \<Rightarrow> int list list" where
  "add_at m i j d = m[i := (m ! i)[j := m ! i ! j + d]]"

lemma bump_ok: "i < length m \<Longrightarrow> j < length (m ! i) \<Longrightarrow> bump m i j d = Inr (add_at m i j d)"
  by (simp add: bump_def add_at_def)

lemma add_at_shape [simp]: "map length (add_at m i j d) = map length m"
proof -
  have "map length (add_at m i j d) = (map length m)[i := length (m ! i)]" by (simp add: add_at_def map_update)
  also have "\<dots> = map length m" by (cases "i < length m") (auto simp: list_update_same_conv list_update_beyond)
  finally show ?thesis .
qed

lemma add_at_nth:
  "i < length m \<Longrightarrow> j < length (m ! i) \<Longrightarrow> k < length m \<Longrightarrow> l < length (m ! k) \<Longrightarrow>
   add_at m i j d ! k ! l = m ! k ! l + (if k = i \<and> l = j then d else 0)"
  by (auto simp: add_at_def nth_list_update)

lemma shapeD:
  assumes "map length m = map length clocks"
  shows "length m = length clocks" "\<And>k. k < length clocks \<Longrightarrow> length (m ! k) = length (clocks ! k)"
proof -
  show l: "length m = length clocks" using assms by (metis length_map)
  fix k
  assume "k < length clocks"
  then show "length (m ! k) = length (clocks ! k)" using l assms by (metis nth_map)
qed

text \<open>The effect of one send on the deltas.\<close>

definition note_send :: "(nat \<Rightarrow> nat \<Rightarrow> (nat \<times> nat) option) \<Rightarrow> int list list \<Rightarrow> nat \<times> nat \<Rightarrow> int list list" where
  "note_send rc m ev =
     (case rc (fst ev) (snd ev) of None \<Rightarrow> m | Some (r, e) \<Rightarrow> add_at (add_at m (fst ev) (snd ev) 1) r e (- 1))"

definition contrib :: "(nat \<Rightarrow> nat \<Rightarrow> (nat \<times> nat) option) \<Rightarrow> nat \<times> nat \<Rightarrow> nat \<times> nat \<Rightarrow> int" where
  "contrib rc at ev =
     (if rc (fst ev) (snd ev) \<noteq> None \<and> ev = at then 1 else 0) - (if rc (fst ev) (snd ev) = Some at then 1 else 0)"

definition events_of :: "'c list list \<Rightarrow> (nat \<times> nat) list" where
  "events_of clocks = concat (map (\<lambda>i. map (Pair i) [0..<length (clocks ! i)]) [0..<length clocks])"

lemma set_events_of: "set (events_of clocks) = {(i, j). i < length clocks \<and> j < length (clocks ! i)}"
  by (auto simp: events_of_def)

lemma distinct_events_of: "distinct (events_of clocks)"
proof -
  have "distinct (concat (map (\<lambda>i. map (Pair i) [0..<f i]) [0..<n]))" for f :: "nat \<Rightarrow> nat" and n
    by (induction n) (auto simp: distinct_map inj_on_def)
  then show ?thesis unfolding events_of_def .
qed

definition valid_receipts :: "'c list list \<Rightarrow> (nat \<Rightarrow> nat \<Rightarrow> (nat \<times> nat) option) \<Rightarrow> bool" where
  "valid_receipts clocks rc \<longleftrightarrow>
     (\<forall>i j r e. i < length clocks \<longrightarrow> j < length (clocks ! i) \<longrightarrow> rc i j = Some (r, e) \<longrightarrow>
        r < length clocks \<and> e < length (clocks ! r))"

lemma note_send_shape [simp]: "map length (note_send rc m ev) = map length m"
  by (simp add: note_send_def split: option.splits prod.splits)

lemma note_send_nth:
  assumes "map length m = map length clocks" and "valid_receipts clocks rc" and "ev \<in> set (events_of clocks)"
    and "(k, l) \<in> set (events_of clocks)"
  shows "note_send rc m ev ! k ! l = m ! k ! l + contrib rc (k, l) ev"
proof (cases "rc (fst ev) (snd ev)")
  case None
  then show ?thesis by (simp add: note_send_def contrib_def)
next
  case (Some re)
  obtain i j r e where ev: "ev = (i, j)" "re = (r, e)" by (cases ev, cases re)
  note S = shapeD [OF assms(1)]
  have in': "i < length clocks" "j < length (clocks ! i)" "k < length clocks" "l < length (clocks ! k)"
    using assms(3,4) ev by (auto simp: set_events_of)
  then have re: "r < length clocks" "e < length (clocks ! r)"
    using assms(2) [unfolded valid_receipts_def, rule_format, of i j r e] Some ev by simp_all
  let ?m = "add_at m i j 1"
  have S': "map length ?m = map length clocks" using assms(1) by simp
  have "add_at ?m r e (- 1) ! k ! l = ?m ! k ! l + (if k = r \<and> l = e then - 1 else 0)"
    using shapeD [OF S'] in' re by (intro add_at_nth) auto
  also have "?m ! k ! l = m ! k ! l + (if k = i \<and> l = j then 1 else 0)"
    using S in' by (intro add_at_nth) auto
  finally show ?thesis using Some ev by (auto simp: note_send_def contrib_def)
qed

lemma note_sends_nth:
  assumes "valid_receipts clocks rc" and "(k, l) \<in> set (events_of clocks)"
  shows "map length m = map length clocks \<Longrightarrow> set evs \<subseteq> set (events_of clocks) \<Longrightarrow>
    foldl (note_send rc) m evs ! k ! l = m ! k ! l + (\<Sum>ev\<leftarrow>evs. contrib rc (k, l) ev)"
proof (induction evs arbitrary: m)
  case (Cons ev evs)
  then show ?case using note_send_nth [OF Cons.prems(1) assms(1) _ assms(2), of ev] by simp
qed simp

lemma note_sends_shape: "map length (foldl (note_send rc) m evs) = map length m"
  by (induction evs arbitrary: m) simp_all

text \<open>
  Adding up the deltas of all events inside a set \<open>A\<close> that contains the send of every receive it
  contains counts the messages that leave \<open>A\<close>.
\<close>

lemma sum_contrib:
  assumes fin: "finite A" and sub: "A \<subseteq> E" and finE: "finite E"
    and closed: "\<And>i j x. (i, j) \<in> E \<Longrightarrow> rc i j = Some x \<Longrightarrow> x \<in> A \<Longrightarrow> (i, j) \<in> A"
  shows "(\<Sum>a\<in>A. \<Sum>ev\<in>E. contrib rc a ev) = int (card {(i, j). (i, j) \<in> A \<and> (\<exists>x. rc i j = Some x \<and> x \<notin> A)})"
proof -
  let ?F = "{(i, j). (i, j) \<in> A \<and> (\<exists>x. rc i j = Some x \<and> x \<notin> A)}"
  have one: "(\<Sum>a\<in>A. contrib rc a ev) = (if ev \<in> ?F then 1 else 0)" if "ev \<in> E" for ev
  proof -
    obtain i j where ev: "ev = (i, j)" by force
    have "(\<Sum>a\<in>A. contrib rc a ev) =
        (\<Sum>a\<in>A. if a = ev then (if rc i j \<noteq> None then 1 else 0) else 0) - (\<Sum>a\<in>A. if rc i j = Some a then 1 else 0)"
      unfolding contrib_def ev sum_subtractf [symmetric] by (intro sum.cong) auto
    also have "(\<Sum>a\<in>A. if rc i j = Some a then 1 else 0) = (if \<exists>x\<in>A. rc i j = Some x then 1 else (0 :: int))"
    proof (cases "rc i j")
      case (Some x)
      then have "(\<Sum>a\<in>A. if rc i j = Some a then 1 else 0) = (\<Sum>a\<in>A. if x = a then 1 else (0 :: int))" by (intro sum.cong) auto
      with Some fin show ?thesis by simp
    qed simp
    also have "(\<Sum>a\<in>A. if a = ev then (if rc i j \<noteq> None then 1 else 0) else 0) = (if ev \<in> A \<and> rc i j \<noteq> None then 1 else (0 :: int))"
      using fin by simp
    finally show ?thesis using closed that unfolding ev by auto
  qed
  have "(\<Sum>a\<in>A. \<Sum>ev\<in>E. contrib rc a ev) = (\<Sum>ev\<in>E. \<Sum>a\<in>A. contrib rc a ev)" by (rule sum.swap)
  also have "\<dots> = (\<Sum>ev\<in>E. if ev \<in> ?F then 1 else 0)" using one by (intro sum.cong) auto
  also have "\<dots> = int (card (E \<inter> ?F))" using finE by (simp add: sum.If_cases Int_def)
  also have "E \<inter> ?F = ?F" using sub by blast
  finally show ?thesis .
qed

context vclock_api
begin

lemma receipts_valid:
  assumes "causal_logs V ids clocks" and "idClockMapper V clocks = Inr ids"
  shows "valid_receipts clocks (receipt V ids clocks)"
  using receiptD(1,2) [OF assms] causal_logsD(2) [OF assms(1)] unfolding valid_receipts_def by metis

lemma entries_differ:
  assumes "causal_logs V ids clocks" and "i < length ids" and "j < log_len clocks i" and "j' < j"
  shows "\<not> Compare V (clocks ! i ! j) (Copy V (clocks ! i ! j')) Equal"
proof
  assume "Compare V (clocks ! i ! j) (Copy V (clocks ! i ! j')) Equal"
  then have "tk V ids clocks i j i = tk V ids clocks i j' i" by (simp add: compare_Equal find_Copy)
  with causal_own [OF assms(1,2)] assms(3,4) show False by simp
qed

lemma enumerate_row:
  assumes logs: "causal_logs V ids clocks" "idClockMapper V clocks = Inr ids" and i: "i < length ids"
    and shape: "map length d = map length clocks"
  shows "n \<le> log_len clocks i \<Longrightarrow>
    \<exists>l. foldR (enumerate_step V clocks ids i) (None, d) [0..<n] =
        Inr (l, foldl (note_send (receipt V ids clocks)) d (map (Pair i) [0..<n])) \<and>
      (\<forall>c. l = Some c \<longrightarrow> (\<exists>j' < n. c = Copy V (clocks ! i ! j')))"
proof (induction n)
  case (Suc n)
  let ?rc = "receipt V ids clocks"
  let ?m = "foldl (note_send ?rc) d (map (Pair i) [0..<n])"
  obtain l where l: "foldR (enumerate_step V clocks ids i) (None, d) [0..<n] = Inr (l, ?m)"
    "\<forall>c. l = Some c \<longrightarrow> (\<exists>j' < n. c = Copy V (clocks ! i ! j'))"
    using Suc by auto
  have n: "n < log_len clocks i" using Suc.prems by simp
  have dup: "\<not> (case l of None \<Rightarrow> False | Some c \<Rightarrow> Compare V (clocks ! i ! n) c Equal)"
    using l(2) entries_differ [OF logs(1) i n] by (auto split: option.splits)
  have sh: "map length ?m = map length clocks" using shape by (simp add: note_sends_shape)
  have "\<exists>l'. enumerate_step V clocks ids i (l, ?m) n = Inr (l', note_send ?rc ?m (i, n)) \<and>
      (\<forall>c. l' = Some c \<longrightarrow> (\<exists>j' < Suc n. c = Copy V (clocks ! i ! j')))"
  proof (cases "?rc i n")
    case None
    with l(2) show ?thesis
      by (auto simp: enumerate_step_def Let_def receipt_eq [OF logs i] note_send_def intro: less_SucI)
  next
    case (Some re)
    obtain r e where re: "re = (r, e)" by force
    note R = receiptD [OF logs i n Some [unfolded re]]
    have "i < length clocks" "r < length clocks" using i R(1) causal_logsD(2) [OF logs(1)] by auto
    then have "bump ?m i n 1 = Inr (add_at ?m i n 1)"
      "bump (add_at ?m i n 1) r e (- 1) = Inr (add_at (add_at ?m i n 1) r e (- 1))"
      using shapeD [OF sh] shapeD [of "add_at ?m i n 1" clocks] sh n R(2) by (simp_all add: bump_ok)
    with Some re dup show ?thesis
      by (auto simp: enumerate_step_def Let_def receipt_eq [OF logs i] note_send_def)
  qed
  then show ?case using l(1) by (auto simp: foldR_append)
qed simp

lemma enumerate_deltas:
  assumes logs: "causal_logs V ids clocks" "idClockMapper V clocks = Inr ids"
  shows "enumerateCommunication V clocks = Inr (fillCommunicationDelta
    (foldl (note_send (receipt V ids clocks)) (map (\<lambda>cs. replicate (length cs) 0) clocks) (events_of clocks)))"
proof -
  let ?z = "map (\<lambda>cs. replicate (length cs) (0 :: int)) clocks"
  let ?f = "\<lambda>d i. rbind (foldR (enumerate_step V clocks ids i) (None, d) [0..<length (clocks ! i)]) (\<lambda>st. Inr (snd st))"
  let ?ev = "\<lambda>n. concat (map (\<lambda>i. map (Pair i) [0..<length (clocks ! i)]) [0..<n])"
  have z: "map length ?z = map length clocks" by (simp add: comp_def)
  have "n \<le> length clocks \<Longrightarrow> foldR ?f ?z [0..<n] = Inr (foldl (note_send (receipt V ids clocks)) ?z (?ev n))" for n
  proof (induction n)
    case (Suc n)
    let ?m = "foldl (note_send (receipt V ids clocks)) ?z (?ev n)"
    have "n < length ids" using Suc.prems causal_logsD(2) [OF logs(1)] by simp
    moreover have "map length ?m = map length clocks" using z by (simp only: note_sends_shape)
    ultimately obtain l where "foldR (enumerate_step V clocks ids n) (None, ?m) [0..<length (clocks ! n)] =
        Inr (l, foldl (note_send (receipt V ids clocks)) ?m (map (Pair n) [0..<length (clocks ! n)]))"
      using enumerate_row [OF logs] by blast
    then have "?f ?m n = Inr (foldl (note_send (receipt V ids clocks)) ?m (map (Pair n) [0..<length (clocks ! n)]))"
      by simp
    with Suc show ?case by (simp add: foldR_append)
  qed simp
  then show ?thesis using logs(2) by (simp add: enumerateCommunication_def events_of_def)
qed

text \<open>The delta of a cut is the number of messages in flight.\<close>

lemma cut_delta:
  assumes logs: "causal_logs V ids clocks" "idClockMapper V clocks = Inr ids" and cut: "consistent_cut V ids clocks q"
    and delta: "enumerateCommunication V clocks = Inr delta"
  shows "(\<Sum>k<length clocks. delta ! k ! (q ! k - 1)) = int (card (in_flight V ids clocks q))"
    and "map length delta = map length clocks"
proof -
  let ?rc = "receipt V ids clocks"
  let ?z = "map (\<lambda>cs. replicate (length cs) (0 :: int)) clocks"
  let ?m = "foldl (note_send ?rc) ?z (events_of clocks)"
  let ?A = "{(k, l). k < length clocks \<and> l < q ! k}"
  let ?E = "set (events_of clocks)"
  have d: "delta = fillCommunicationDelta ?m" using delta enumerate_deltas [OF logs] by simp
  have z: "map length ?z = map length clocks" by (simp add: comp_def)
  have m: "map length ?m = map length clocks" using z by (simp add: note_sends_shape)
  show "map length delta = map length clocks" using m by (simp add: d fillCommunicationDelta_def comp_def)
  note M = shapeD [OF m]
  have q: "0 < q ! k" "q ! k \<le> length (clocks ! k)" if "k < length clocks" for k
    using cut that causal_logsD(2) [OF logs(1)] by (auto simp: consistent_cut_def cut_of_def)
  have A: "?A \<subseteq> ?E" using q by (force simp: set_events_of)
  have entry: "?m ! k ! l = (\<Sum>ev\<in>?E. contrib ?rc (k, l) ev)" if "(k, l) \<in> ?A" for k l
  proof -
    have "(k, l) \<in> ?E" using that A by blast
    moreover from this have "?z ! k ! l = 0" by (auto simp: set_events_of)
    ultimately show ?thesis
      using note_sends_nth [OF receipts_valid [OF logs] _ z order_refl, of k l] distinct_events_of [of clocks]
      by (simp add: sum_list_distinct_conv_sum_set)
  qed
  have "delta ! k ! (q ! k - 1) = (\<Sum>l<q ! k. ?m ! k ! l)" if k: "k < length clocks" for k
  proof -
    have "{..q ! k - 1} = {..<q ! k}" using q(1) [OF k] by auto
    then show ?thesis using k q [OF k] M by (simp add: d fillCommunicationDelta_def fill_row_nth)
  qed
  then have "(\<Sum>k<length clocks. delta ! k ! (q ! k - 1)) = (\<Sum>k<length clocks. \<Sum>l<q ! k. ?m ! k ! l)" by simp
  also have "\<dots> = (\<Sum>(k, l)\<in>?A. ?m ! k ! l)"
  proof -
    have "?A = Sigma {..<length clocks} (\<lambda>k. {..<q ! k})" by auto
    then show ?thesis by (simp add: sum.Sigma)
  qed
  also have "\<dots> = (\<Sum>a\<in>?A. \<Sum>ev\<in>?E. contrib ?rc a ev)" using entry by (intro sum.cong) auto
  also have "\<dots> = int (card {(i, j). (i, j) \<in> ?A \<and> (\<exists>x. ?rc i j = Some x \<and> x \<notin> ?A)})"
  proof (rule sum_contrib)
    show "finite ?A" using A finite_subset by blast
    fix i j x
    assume a: "(i, j) \<in> ?E" "?rc i j = Some x" "x \<in> ?A"
    then show "(i, j) \<in> ?A"
      using receipt_in_cut [OF logs _ _ _ cut, of i j "fst x" "snd x"] causal_logsD(2) [OF logs(1)]
      by (auto simp: set_events_of)
  qed (use A in auto)
  also have "{(i, j). (i, j) \<in> ?A \<and> (\<exists>x. ?rc i j = Some x \<and> x \<notin> ?A)} = in_flight V ids clocks q"
  proof -
    have "r < length clocks" if "(i, j) \<in> ?A" "?rc i j = Some (r, e)" for i j r e
      using that A receiptD(1) [OF logs, of i j r e] causal_logsD(2) [OF logs(1)] by (auto simp: set_events_of)
    then show ?thesis using causal_logsD(2) [OF logs(1)] by (auto simp: in_flight_def)
  qed
  finally show "(\<Sum>k<length clocks. delta ! k ! (q ! k - 1)) = int (card (in_flight V ids clocks q))" .
qed

lemma finite_in_flight:
  assumes "causal_logs V ids clocks" and "consistent_cut V ids clocks q"
  shows "finite (in_flight V ids clocks q)"
proof -
  have "in_flight V ids clocks q \<subseteq> Sigma {..<length ids} (\<lambda>i. {..<q ! i})" by (auto simp: in_flight_def)
  then show ?thesis by (rule finite_subset) auto
qed

end

section \<open>Mining\<close>

lemma mset_concat_perm: "mset xs = mset ys \<Longrightarrow> mset (concat (map f xs)) = mset (concat (map f ys))"
  by (simp add: mset_concat mset_map [symmetric] del: mset_map flip: map_map comp_def) (simp add: comp_def flip: sum_mset_sum_list)

context vclock_api
begin

lemma search_own:
  assumes logs: "causal_logs V ids clocks" and k: "k < length ids" and rep: "point_rep V ids p q"
    and q: "0 < q ! k" "q ! k \<le> log_len clocks k"
  shows "searchClockById V (clocks ! k) p (ids ! k) = (True, q ! k - 1)"
proof -
  let ?s = "searchClockById V (clocks ! k) p (ids ! k)"
  have p: "ticks V p (ids ! k) = of_nat (q ! k)" "q ! k < 2 ^ 64" using rep k by (auto simp: point_rep_def)
  have own: "ticks V (clocks ! k ! j) (ids ! k) = of_nat (j + 1)" if "j < log_len clocks k" for j
    using causal_logsD(5) [OF logs k that] by simp
  have sorted: "ticks V (clocks ! k ! a) (ids ! k) \<le> ticks V (clocks ! k ! b) (ids ! k)" if "a \<le> b" "b < log_len clocks k" for a b
    using sender_sortedD [OF causal_sender_sorted [OF logs k], of k a b] that k causal_logsD(2) [OF logs] by simp
  note spec = searchClockById_spec [of "clocks ! k" V "ids ! k" p, OF sorted]
  have "ticks V (clocks ! k ! (q ! k - 1)) (ids ! k) = ticks V p (ids ! k)"
    using own [of "q ! k - 1"] q p by simp
  moreover have "q ! k - 1 < log_len clocks k" using q by simp
  ultimately have "fst ?s" using spec by blast
  then have s: "snd ?s < log_len clocks k" "ticks V (clocks ! k ! snd ?s) (ids ! k) = ticks V p (ids ! k)" using spec by blast+
  then have "(of_nat (snd ?s + 1) :: u64) = of_nat (q ! k)" using own p by simp
  moreover have "snd ?s + 1 < 2 ^ 64" using s(1) causal_logsD(4) [OF logs k] by simp
  ultimately have "snd ?s + 1 = q ! k" using of_nat_u64_inj p(2) by blast
  with \<open>fst ?s\<close> show ?thesis by (simp add: prod_eq_iff)
qed

lemma cut_scan_eq:
  assumes logs: "causal_logs V ids clocks" and rep: "point_rep V ids p q" and cut: "consistent_cut V ids clocks q"
    and shape: "map length delta = map length clocks"
  shows "k \<le> length ids \<Longrightarrow> cut_scan V clocks delta p k (drop k ids) st =
    Inr (fst st + (\<Sum>l=k..<length ids. delta ! l ! (q ! l - 1)), snd st @ map (\<lambda>l. clocks ! l ! (q ! l - 1)) [k..<length ids])"
proof (induction "length ids - k" arbitrary: k st)
  case 0
  then show ?case by simp
next
  case (Suc n)
  then have k: "k < length ids" by simp
  have len: "length ids = length clocks" by (rule causal_logsD(2) [OF logs])
  have q: "0 < q ! k" "q ! k \<le> log_len clocks k" using cut k by (auto simp: consistent_cut_def cut_of_def)
  note S = shapeD [OF shape]
  have "drop k ids = ids ! k # drop (Suc k) ids" using k by (simp add: Cons_nth_drop_Suc)
  moreover have "has_id V p (ids ! k)" using rep k by (simp add: point_rep_def)
  moreover note search_own [OF logs k rep q]
  moreover have "q ! k - 1 < log_len clocks k" using q by simp
  moreover have "k < length clocks" "k < length delta" "q ! k - 1 < length (delta ! k)" using k q len S by auto
  ultimately have "cut_scan V clocks delta p k (drop k ids) st =
      cut_scan V clocks delta p (Suc k) (drop (Suc k) ids) (fst st + delta ! k ! (q ! k - 1), snd st @ [clocks ! k ! (q ! k - 1)])"
    by simp
  also have "\<dots> = Inr (fst st + (\<Sum>l=k..<length ids. delta ! l ! (q ! l - 1)),
      snd st @ map (\<lambda>l. clocks ! l ! (q ! l - 1)) [k..<length ids])"
    using Suc.hyps(1) [of "Suc k"] Suc.hyps(2) k by (simp add: sum.atLeast_Suc_lessThan upt_conv_Cons)
  finally show ?case .
qed

text \<open>The vector a lattice point stands for.\<close>

definition vec :: "string list \<Rightarrow> 'c \<Rightarrow> nat list" where
  "vec ids p = map (\<lambda>i. unat (ticks V p i)) ids"

lemma vec_rep: "point_rep V ids p q \<Longrightarrow> vec ids p = q"
  by (rule nth_equalityI) (auto simp: vec_def point_rep_def unat_of_nat_u64)

lemma mine_point_eq:
  assumes logs: "causal_logs V ids clocks" "idClockMapper V clocks = Inr ids"
    and delta: "enumerateCommunication V clocks = Inr delta"
    and rep: "point_rep V ids p q" and cut: "consistent_cut V ids clocks q"
  shows "mine_point V clocks delta ids cuts p =
    Inr (cuts @ map (cut_clocks clocks \<circ> vec ids) (filter (\<lambda>p. in_flight V ids clocks (vec ids p) = {}) [p]))"
proof -
  note D = cut_delta [OF logs cut delta]
  have "cut_scan V clocks delta p 0 ids (0, []) =
      Inr (int (card (in_flight V ids clocks q)), Clocks (cut_clocks clocks q))"
    using cut_scan_eq [OF logs(1) rep cut D(2), of 0 "(0, [])"] D(1) causal_logsD(2) [OF logs(1)]
    by (simp add: cut_clocks_def atLeast0LessThan)
  moreover have "card (in_flight V ids clocks q) = 0 \<longleftrightarrow> in_flight V ids clocks q = {}"
    using finite_in_flight [OF logs(1) cut] by simp
  ultimately show ?thesis by (simp add: mine_point_def vec_rep [OF rep])
qed

lemma mine_points_eq:
  assumes logs: "causal_logs V ids clocks" "idClockMapper V clocks = Inr ids"
    and delta: "enumerateCommunication V clocks = Inr delta"
  shows "\<forall>p \<in> set ps. \<exists>q. point_rep V ids p q \<and> consistent_cut V ids clocks q \<Longrightarrow>
    foldR (mine_point V clocks delta ids) cuts ps =
    Inr (cuts @ map (cut_clocks clocks \<circ> vec ids) (filter (\<lambda>p. in_flight V ids clocks (vec ids p) = {}) ps))"
proof (induction ps arbitrary: cuts)
  case (Cons p ps)
  then obtain q where "point_rep V ids p q" "consistent_cut V ids clocks q" by auto
  note mine_point_eq [OF logs delta this, of cuts]
  with Cons show ?case by simp
qed simp

lemma mine_level_eq:
  assumes logs: "causal_logs V ids clocks" "idClockMapper V clocks = Inr ids" and R: "runtime_ok R"
    and delta: "enumerateCommunication V clocks = Inr delta"
    and ps: "\<forall>p \<in> set ps. \<exists>q. point_rep V ids p q \<and> consistent_cut V ids clocks q"
    and dvd: "ThreadCount R (length ps) dvd length ps"
  shows "\<exists>cuts. mine_level R V clocks delta ids ps = Inr cuts \<and>
    mset cuts = mset (map (cut_clocks clocks \<circ> vec ids) (filter (\<lambda>p. in_flight V ids clocks (vec ids p) = {}) ps))"
proof -
  let ?d = "ThreadCount R (length ps)"
  let ?g = "\<lambda>ps. map (cut_clocks clocks \<circ> vec ids) (filter (\<lambda>p. in_flight V ids clocks (vec ids p) = {}) ps)"
  have pos: "0 < ?d" using R by (simp add: ThreadCount_def runtime_ok_def)
  have slices: "concat (map (level_slice ps ?d) [0..<?d]) = ps"
    using concat_level_slices [OF pos, of ps] dvd by simp
  have sub: "set (level_slice ps ?d k) \<subseteq> set ps" if "k < ?d" for k
    using that arg_cong [OF slices, of set] by force
  have "traverse (\<lambda>k. foldR (mine_point V clocks delta ids) [] (level_slice ps ?d k)) [0..<?d] =
      Inr (map (\<lambda>k. ?g (level_slice ps ?d k)) [0..<?d])"
    by (rule traverse_pure) (use mine_points_eq [OF logs delta] ps sub in force)
  then have "mine_level R V clocks delta ids ps =
      Inr (concat (map (\<lambda>k. map (\<lambda>k. ?g (level_slice ps ?d k)) [0..<?d] ! k) (RecvOrder R [0..<?d])))"
    by (simp add: mine_level_def Let_def)
  moreover have perm: "mset (RecvOrder R [0..<?d]) = mset [0..<?d]" using R unfolding runtime_ok_def by blast
  moreover have "mset (concat (map (\<lambda>k. map (\<lambda>k. ?g (level_slice ps ?d k)) [0..<?d] ! k) (RecvOrder R [0..<?d]))) = mset (?g ps)"
  proof -
    have "mset (concat (map (\<lambda>k. map (\<lambda>k. ?g (level_slice ps ?d k)) [0..<?d] ! k) (RecvOrder R [0..<?d]))) =
        mset (concat (map (\<lambda>k. map (\<lambda>k. ?g (level_slice ps ?d k)) [0..<?d] ! k) [0..<?d]))"
      by (rule mset_concat_perm [OF perm])
    also have "map (\<lambda>k. map (\<lambda>k. ?g (level_slice ps ?d k)) [0..<?d] ! k) [0..<?d] = map (\<lambda>k. ?g (level_slice ps ?d k)) [0..<?d]"
      by simp
    also have "concat \<dots> = ?g (concat (map (level_slice ps ?d) [0..<?d]))"
      by (simp add: filter_concat map_concat comp_def)
    finally show ?thesis by (simp only: slices)
  qed
  ultimately show ?thesis by blast
qed

lemma mine_loop_eq:
  assumes logs: "causal_logs V ids clocks" "idClockMapper V clocks = Inr ids" and R: "runtime_ok R"
    and delta: "enumerateCommunication V clocks = Inr delta" and split: "even_split R V ids clocks"
  shows "levels_built V ids clocks m (LatticeM lw) \<Longrightarrow> LatticeD lw = [] \<Longrightarrow> CurrentFile lw = 0 \<Longrightarrow>
    LevelM lw \<le> min (Suc m) (length (LatticeM lw) - 1) \<Longrightarrow>
    \<exists>res lw'. mine_loop R V clocks delta ids lw cuts = Some (Inr (cuts @ res, lw')) \<and>
      mset res = mset (concat (map (\<lambda>j. map (cut_clocks clocks \<circ> vec ids)
        (filter (\<lambda>p. in_flight V ids clocks (vec ids p) = {}) (layer (LatticeM lw ! j))))
        [LevelM lw..<min (Suc m) (length (LatticeM lw) - 1)]))"
proof (induction "min (Suc m) (length (LatticeM lw) - 1) - LevelM lw" arbitrary: lw cuts)
  case 0
  let ?M = "LatticeM lw"
  have t: "LevelM lw = min (Suc m) (length ?M - 1)" using 0(1,5) by linarith
  have "Pop lw = Inr (None, if LevelM lw = length ?M - 1 then lw else lw\<lparr>LevelM := LevelM lw + 1, LevelD := LevelD lw + 1\<rparr>)"
  proof (cases "LevelM lw = length ?M - 1")
    case True
    then have "int (LevelM lw) = int (length ?M) - 1" using levels_builtD(1) [OF 0(2)] by auto
    with True show ?thesis using 0(3,4) by (simp add: Pop_def Let_def)
  next
    case False
    with t have "LevelM lw = Suc m" "Suc m < length ?M" by auto
    moreover from this have "?M ! LevelM lw = None" using levels_builtD(3) [OF 0(2)] by simp
    moreover have "int (LevelM lw) \<noteq> int (length ?M) - 1" using False levels_builtD(1) [OF 0(2)] by auto
    ultimately show ?thesis using 0(3,4) False by (simp add: Pop_def Let_def)
  qed
  then have "\<exists>lw'. mine_loop R V clocks delta ids lw cuts = Some (Inr (cuts, lw'))"
    by (subst mine_loop.simps) simp
  with t show ?case by auto
next
  case (Suc n)
  let ?M = "LatticeM lw" and ?t = "LevelM lw"
  let ?lw = "lw\<lparr>LevelM := ?t + 1, LevelD := LevelD lw + 1\<rparr>"
  let ?g = "\<lambda>ps. map (cut_clocks clocks \<circ> vec ids) (filter (\<lambda>p. in_flight V ids clocks (vec ids p) = {}) ps)"
  have t: "?t \<le> m" "?t < length ?M - 1" using Suc.hyps(2) by auto
  obtain ps where ps: "?M ! ?t = Some ps" "level_rep V ids ps (cuts_at V ids clocks ?t)" "distinct (map (ReturnVCString V) ps)"
    using levels_builtD(2) [OF Suc.prems(1) t(1)] by blast
  have reps: "\<forall>p \<in> set ps. \<exists>q. point_rep V ids p q \<and> consistent_cut V ids clocks q"
    using ps(2) by (auto simp: level_rep_def cuts_at_eq [OF logs(1)])
  have dvd: "ThreadCount R (length ps) dvd length ps"
    unfolding level_card [OF sum_card_levels(1) [OF logs(1)] ps(2,3)] by (rule even_splitD [OF split logs(1)])
  obtain res where res: "mine_level R V clocks delta ids ps = Inr res" "mset res = mset (?g ps)"
    using mine_level_eq [OF logs R delta reps dvd] by blast
  have "Pop lw = Inr (Some ps, ?lw)"
    using t ps(1) Suc.prems(2,3) by (simp add: Pop_def Let_def)
  then have step: "mine_loop R V clocks delta ids lw cuts = mine_loop R V clocks delta ids ?lw (cuts @ res)"
    using res(1) by (subst mine_loop.simps) simp
  have "n = min (Suc m) (length (LatticeM ?lw) - 1) - LevelM ?lw" using Suc.hyps(2) by simp
  from Suc.hyps(1) [OF this, of "cuts @ res"] obtain res' lw' where
    "mine_loop R V clocks delta ids ?lw (cuts @ res) = Some (Inr ((cuts @ res) @ res', lw'))"
    "mset res' = mset (concat (map (\<lambda>j. ?g (layer (?M ! j))) [Suc ?t..<min (Suc m) (length ?M - 1)]))"
    using Suc.prems t by auto
  moreover have "[?t..<min (Suc m) (length ?M - 1)] = ?t # [Suc ?t..<min (Suc m) (length ?M - 1)]"
    using t by (intro upt_conv_Cons) simp
  ultimately show ?case using step res(2) ps(1) by (intro exI [of _ "res @ res'"]) auto
qed

lemma cut_clocks_inj:
  assumes "causal_logs V ids clocks" and "consistent_cut V ids clocks q" and "consistent_cut V ids clocks q'"
    and "cut_clocks clocks q = cut_clocks clocks q'"
  shows "q = q'"
proof (rule nth_equalityI)
  have len: "length q = length ids" "length q' = length ids" "length ids = length clocks"
    using assms(2,3) causal_logsD(2) [OF assms(1)] by (auto simp: consistent_cut_def cut_of_def)
  then show "length q = length q'" by simp
  fix k
  assume "k < length q"
  then have k: "k < length ids" "k < length clocks" using len by auto
  have b: "0 < q ! k" "q ! k \<le> log_len clocks k" "0 < q' ! k" "q' ! k \<le> log_len clocks k"
    using assms(2,3) k(1) by (auto simp: consistent_cut_def cut_of_def)
  have "clocks ! k ! (q ! k - 1) = clocks ! k ! (q' ! k - 1)" using assms(4) k(2) by (simp add: cut_clocks_def)
  then have "Suc (q ! k - 1) = Suc (q' ! k - 1)"
    using causal_own [OF assms(1) k(1), of "q ! k - 1"] causal_own [OF assms(1) k(1), of "q' ! k - 1"] b by simp
  with b show "q ! k = q' ! k" by simp
qed

lemma cut_level_bounds:
  assumes logs: "causal_logs V ids clocks" and q: "consistent_cut V ids clocks q" and two: "2 \<le> length clocks"
  obtains j where "q \<in> cuts_at V ids clocks j" "j < height V ids clocks - 1"
proof -
  have sum: "sum_list q \<le> sum_list (map length clocks)" using sum_cut_le [OF causal_logsD(2) [OF logs] q] .
  have "length q = length ids" "\<And>k. k < length ids \<Longrightarrow> 1 \<le> q ! k" using q by (auto simp: consistent_cut_def cut_of_def)
  then have "sum_list (replicate (length ids) 1) \<le> sum_list q" by (intro sum_list_mono2) auto
  then obtain j where j: "sum_list q = length ids + j" using le_Suc_ex by (auto simp: sum_list_replicate)
  with q have "q \<in> cuts_at V ids clocks j" by (simp add: cuts_at_eq [OF logs])
  moreover have "j < height V ids clocks - 1"
    using j sum sum_len_le_height [OF logs] two causal_logsD(2) [OF logs] by simp
  ultimately show thesis by (rule that)
qed

text \<open>The levels the mining loop visits hold every consistent cut and nothing else.\<close>

lemma visited_levels:
  assumes logs: "causal_logs V ids clocks" and two: "2 \<le> length clocks" and built: "built V ids clocks m lw"
    and top: "cuts_at V ids clocks m = {}"
  defines "top_level \<equiv> min (Suc m) (length (LatticeM lw) - 1)"
  shows "vec ids ` (\<Union>j\<in>{..<top_level}. set (layer (LatticeM lw ! j))) = {q. consistent_cut V ids clocks q}"
proof (intro equalityI subsetI)
  have B: "levels_built V ids clocks m (LatticeM lw)" "length (LatticeM lw) = height V ids clocks"
    using built by (auto simp: built_def)
  fix q
  assume "q \<in> vec ids ` (\<Union>j\<in>{..<top_level}. set (layer (LatticeM lw ! j)))"
  then obtain j p where p: "j < top_level" "p \<in> set (layer (LatticeM lw ! j))" "q = vec ids p" by blast
  then obtain ps where "LatticeM lw ! j = Some ps" "level_rep V ids ps (cuts_at V ids clocks j)"
    using levels_builtD(2) [OF B(1), of j] by (auto simp: top_level_def)
  with p obtain q' where "point_rep V ids p q'" "consistent_cut V ids clocks q'"
    by (auto simp: level_rep_def cuts_at_eq [OF logs])
  with p(3) vec_rep show "q \<in> {q. consistent_cut V ids clocks q}" by blast
next
  have B: "levels_built V ids clocks m (LatticeM lw)" "length (LatticeM lw) = height V ids clocks"
    using built by (auto simp: built_def)
  fix q
  assume "q \<in> {q. consistent_cut V ids clocks q}"
  then obtain j where j: "q \<in> cuts_at V ids clocks j" "j < height V ids clocks - 1"
    using cut_level_bounds [OF logs _ two] by blast
  have "j \<le> m"
  proof (rule ccontr)
    assume "\<not> j \<le> m"
    then have "m \<le> j" by simp
    from cuts_at_empty_mono [OF this top] j(1) show False by simp
  qed
  then obtain ps p where "LatticeM lw ! j = Some ps" "p \<in> set ps" "point_rep V ids p q"
    using levels_builtD(2) [OF B(1), of j] j(1) by (auto simp: level_rep_def)
  then have "p \<in> (\<Union>j\<in>{..<top_level}. set (layer (LatticeM lw ! j)))" "q = vec ids p"
    using \<open>j \<le> m\<close> j(2) B(2) vec_rep by (auto simp: top_level_def intro!: bexI [of _ j])
  then show "q \<in> vec ids ` (\<Union>j\<in>{..<top_level}. set (layer (LatticeM lw ! j)))" by blast
qed

lemma mined_cuts:
  assumes logs: "causal_logs V ids clocks" "idClockMapper V clocks = Inr ids"
    and R: "runtime_ok R" and split: "even_split R V ids clocks"
    and mem: "card {q. consistent_cut V ids clocks q} \<le> 5000000" and two: "2 \<le> length clocks"
    and height: "height V ids clocks < 2 ^ 63"
  shows "\<exists>lw delta cuts lw'. BuildLattice5 R V clocks = Some (Inr lw) \<and> enumerateCommunication V clocks = Inr delta \<and>
    mineConsistentCuts2 R V lw clocks delta = Some (Inr (cuts, lw')) \<and>
    set cuts = {cut_clocks clocks q | q. consistent_cut V ids clocks q \<and> in_flight V ids clocks q = {}}"
proof -
  obtain lw m where lw: "BuildLattice5 R V clocks = Some (Inr lw)" "built V ids clocks m lw" "cuts_at V ids clocks m = {}"
    using BuildLattice5_cuts [OF assms] by blast
  obtain delta where delta: "enumerateCommunication V clocks = Inr delta" using enumerate_deltas [OF logs] by blast
  let ?lw = "lw\<lparr>LevelM := 0, LevelD := 0, CurrentFile := 0\<rparr>" and ?M = "LatticeM lw"
  have B: "LatticeD lw = []" "levels_built V ids clocks m ?M" using lw(2) by (auto simp: built_def)
  let ?stop = "min (Suc m) (length ?M - 1)"
  let ?free = "\<lambda>q. in_flight V ids clocks q = {}"
  let ?P = "\<Union>j<?stop. set (layer (?M ! j))"
  obtain res lw' where res: "mine_loop R V clocks delta ids ?lw [] = Some (Inr (res, lw'))"
    "mset res = mset (concat (map (\<lambda>j. map (cut_clocks clocks \<circ> vec ids)
       (filter (\<lambda>p. ?free (vec ids p)) (layer (?M ! j)))) [0..<?stop]))"
    using mine_loop_eq [OF logs R delta split, of m ?lw "[]"] B by auto
  have "set res = cut_clocks clocks ` (vec ids ` ?P \<inter> {q. ?free q})"
    using mset_eq_setD [OF res(2)] by (simp add: atLeast0LessThan) blast
  also have "\<dots> = {cut_clocks clocks q | q. consistent_cut V ids clocks q \<and> ?free q}"
    unfolding visited_levels [OF logs(1) two lw(2,3)] by blast
  finally have "set res = {cut_clocks clocks q | q. consistent_cut V ids clocks q \<and> ?free q}" .
  moreover have "mineConsistentCuts2 R V lw clocks delta = Some (Inr (res, Delete lw'))"
    using res(1) logs(2) B(1) by (simp add: mineConsistentCuts2_def Beginning_def)
  ultimately show ?thesis using lw(1) delta by blast
qed

end

section \<open>Chains\<close>

text \<open>
  The state of \<open>totalOrderFromCut\<close>: the hosts already placed are exactly the marked ones, each is
  placed once, and every chain is non-empty and linked, each host after the first being the
  sender matched to a receive of the one before it.
\<close>

definition sends_to :: "'c vclock_ops \<Rightarrow> 'c Cut \<Rightarrow> 'c list list \<Rightarrow> string list \<Rightarrow> nat \<Rightarrow> nat \<Rightarrow> bool" where
  "sends_to V ct clocks ids receiver sender \<longleftrightarrow>
     (\<exists>i e. index_go ids sender = Inr i \<and> matchSendAndReceive V (Clocks ct ! sender) clocks i = Inr (Some (receiver, e)))"

definition chains_ok ::
  "'c vclock_ops \<Rightarrow> 'c Cut \<Rightarrow> 'c list list \<Rightarrow> string list \<Rightarrow> nat list list \<Rightarrow> bool list \<Rightarrow> bool" where
  "chains_ok V ct clocks ids orders ordered \<longleftrightarrow>
     distinct (concat orders) \<and> set (concat orders) = {h. h < length ordered \<and> ordered ! h} \<and>
     (\<forall>chain \<in> set orders. chain \<noteq> [] \<and> successively (sends_to V ct clocks ids) chain)"

lemma successively_snoc: "successively P (xs @ [x]) \<longleftrightarrow> successively P xs \<and> (xs = [] \<or> P (last xs) x)"
  by (simp add: successively_append_iff)

lemma marked_update: "s < length ordered \<Longrightarrow> {h. h < length ordered \<and> ordered[s := True] ! h} = insert s {h. h < length ordered \<and> ordered ! h}"
  by (auto simp: nth_list_update)

lemma chains_extend:
  assumes ok: "chains_ok V ct clocks ids (os @ [c]) ordered" and s: "s < length ordered" "\<not> ordered ! s"
    and link: "sends_to V ct clocks ids (last c) s"
  shows "chains_ok V ct clocks ids (os @ [c @ [s]]) (ordered[s := True])"
proof -
  have "concat (os @ [c @ [s]]) = concat (os @ [c]) @ [s]" by simp
  moreover have "s \<notin> set (concat (os @ [c]))" using ok s(2) unfolding chains_ok_def by blast
  moreover have "c \<noteq> []" "successively (sends_to V ct clocks ids) c" using ok unfolding chains_ok_def by auto
  ultimately show ?thesis
    using ok link marked_update [OF s(1)] unfolding chains_ok_def
    by (simp only: distinct_append set_append length_list_update) (auto simp: successively_snoc)
qed

lemma chains_new:
  assumes ok: "chains_ok V ct clocks ids os ordered" and s: "s < length ordered" "\<not> ordered ! s"
  shows "chains_ok V ct clocks ids (os @ [[s]]) (ordered[s := True])"
proof -
  have "s \<notin> set (concat os)" using ok s(2) unfolding chains_ok_def by blast
  moreover have "concat (os @ [[s]]) = concat os @ [s]" by simp
  ultimately show ?thesis
    using ok marked_update [OF s(1)] unfolding chains_ok_def
    by (simp only: distinct_append set_append length_list_update) auto
qed

lemma chain_loop_ok:
  "chain_loop V ct clocks ids orders ordered root = Inr (orders', ordered') \<Longrightarrow>
   chains_ok V ct clocks ids orders ordered \<Longrightarrow> orders \<noteq> [] \<Longrightarrow> last (last orders) = root \<Longrightarrow>
   chains_ok V ct clocks ids orders' ordered' \<and> length ordered' = length ordered \<and> orders' \<noteq> []"
proof (induction V ct clocks ids orders ordered root rule: chain_loop.induct)
  case (1 V ct clocks ids orders ordered root)
  note simps = chain_loop.simps [of V ct clocks ids orders ordered root]
  obtain r where r: "findSenderInCut V ct clocks ordered ids root = Inr r"
    using "1.prems"(1) unfolding simps by (cases "findSenderInCut V ct clocks ordered ids root") auto
  show ?case
  proof (cases r)
    case None
    with r "1.prems" simps show ?thesis by simp
  next
    case (Some s)
    let ?orders = "butlast orders @ [last orders @ [s]]" and ?ordered = "ordered[s := True]"
    note f = findSender_found [OF r [unfolded Some]]
    have ap: "appendOrdering orders ordered s = (?orders, ?ordered)" by (simp add: appendOrdering_def)
    have rec: "chain_loop V ct clocks ids ?orders ?ordered s = Inr (orders', ordered')"
      using "1.prems"(1) r Some unfolding simps by (simp add: ap)
    have "chains_ok V ct clocks ids (butlast orders @ [last orders]) ordered" using "1.prems"(2,3) by simp
    then have "chains_ok V ct clocks ids ?orders ?ordered"
      using f "1.prems"(4) by (intro chains_extend) (auto simp: sends_to_def)
    with "1.IH" [OF r Some] rec ap show ?thesis by simp
  qed
qed

lemma order_loop_ok:
  "order_loop V ct clocks ids ancestors orders ordered = Inr orders' \<Longrightarrow> chains_ok V ct clocks ids orders ordered \<Longrightarrow>
   length ordered = length ancestors \<Longrightarrow>
   \<exists>ordered'. chains_ok V ct clocks ids orders' ordered' \<and> length ordered' = length ancestors \<and>
     findUnorderedHost ancestors ordered' = Inr None"
proof (induction V ct clocks ids ancestors orders ordered rule: order_loop.induct)
  case (1 V ct clocks ids ancestors orders ordered)
  note simps = order_loop.simps [of V ct clocks ids ancestors orders ordered]
  obtain r where r: "findUnorderedHost ancestors ordered = Inr r"
    using "1.prems"(1) unfolding simps by (cases "findUnorderedHost ancestors ordered") auto
  show ?case
  proof (cases r)
    case None
    with r "1.prems" simps show ?thesis by auto
  next
    case (Some root)
    let ?orders = "orders @ [[root]]" and ?ordered = "ordered[root := True]"
    note f = findUnordered_found [OF r [unfolded Some]]
    have ap: "appendOrdering (orders @ [[]]) ordered root = (?orders, ?ordered)" by (simp add: appendOrdering_def)
    obtain orders2 ordered2 where c: "chain_loop V ct clocks ids ?orders ?ordered root = Inr (orders2, ordered2)"
      using "1.prems"(1) r Some unfolding simps by (auto simp: ap split: sum.splits)
    have "chains_ok V ct clocks ids ?orders ?ordered"
      using "1.prems"(2) f by (intro chains_new) auto
    with chain_loop_ok [OF c] have ok: "chains_ok V ct clocks ids orders2 ordered2" "length ordered2 = length ancestors"
      using "1.prems"(3) by simp_all
    have "order_loop V ct clocks ids ancestors orders2 ordered2 = Inr orders'"
      using "1.prems"(1) r Some c unfolding simps by (simp add: ap)
    with "1.IH" [OF r Some] ok c ap show ?thesis by simp
  qed
qed

lemma unordered_none:
  "foldR (\<lambda>(maxAncestors, host) i.
      if int (ancestors ! i) > maxAncestors
      then rbind (index_go ordered i) (\<lambda>marked.
        Inr (if \<not> marked then (int (ancestors ! i), Some i) else (maxAncestors, host)))
      else Inr (maxAncestors, host)) (- 1, None) xs = Inr (d, None) \<Longrightarrow>
   d = - 1 \<and> (\<forall>i \<in> set xs. i < length ordered \<and> ordered ! i)"
proof (induction xs arbitrary: d rule: rev_induct)
  case (snoc x xs)
  then show ?case by (fastforce simp: foldR_append go_bind split: if_splits)
qed simp

lemma findUnordered_none: "findUnorderedHost ancestors ordered = Inr None \<Longrightarrow> i < length ancestors \<Longrightarrow> ordered ! i"
  unfolding findUnorderedHost_def by (auto simp: go_bind dest!: unordered_none)

lemma totalOrder_partition:
  assumes "totalOrderFromCut V ct clocks = Inr orders" and "idClockMapper V clocks = Inr ids"
  shows "distinct (concat orders)" and "set (concat orders) = {..<length (Clocks ct)}"
    and "\<And>chain. chain \<in> set orders \<Longrightarrow> chain \<noteq> [] \<and> successively (sends_to V ct clocks ids) chain"
proof -
  let ?anc = "countAncestors V ct"
  have anc: "length ?anc = length (Clocks ct)" by (simp add: countAncestors_def)
  have loop: "order_loop V ct clocks ids ?anc [] (replicate (length (Clocks ct)) False) = Inr orders"
    using assms by (simp add: totalOrderFromCut_def)
  have start: "chains_ok V ct clocks ids [] (replicate (length (Clocks ct)) False)" by (simp add: chains_ok_def)
  obtain ordered where ok: "chains_ok V ct clocks ids orders ordered" "length ordered = length ?anc"
    "findUnorderedHost ?anc ordered = Inr None"
    using order_loop_ok [OF loop start] anc by auto
  then show "distinct (concat orders)" "set (concat orders) = {..<length (Clocks ct)}"
    using findUnordered_none [OF ok(3)] anc unfolding chains_ok_def by auto
  show "\<And>chain. chain \<in> set orders \<Longrightarrow> chain \<noteq> [] \<and> successively (sends_to V ct clocks ids) chain"
    using ok(1) by (simp add: chains_ok_def)
qed

lemma foldR_total: "(\<And>s x. x \<in> set xs \<Longrightarrow> \<exists>s'. f s x = Inr s') \<Longrightarrow> \<exists>s'. foldR f s xs = Inr s'"
proof (induction xs arbitrary: s)
  case (Cons x xs)
  then obtain s' where "f s x = Inr s'" by (meson list.set_intros(1))
  with Cons show ?case by auto
qed simp

lemma findUnordered_total: "length ordered = length ancestors \<Longrightarrow> \<exists>r. findUnorderedHost ancestors ordered = Inr r"
proof -
  assume len: "length ordered = length ancestors"
  have "\<exists>st. foldR (\<lambda>(maxAncestors, host) i.
              if int (ancestors ! i) > maxAncestors
              then rbind (index_go ordered i) (\<lambda>marked.
                Inr (if \<not> marked then (int (ancestors ! i), Some i) else (maxAncestors, host)))
              else Inr (maxAncestors, host)) (- 1, None) [0..<length ancestors] = Inr st"
    by (rule foldR_total) (auto simp: len)
  then show ?thesis unfolding findUnorderedHost_def by auto
qed

context vclock_api
begin

lemma match_total: "idClockMapper V clocks = Inr ids \<Longrightarrow> \<exists>r. matchSendAndReceive V s clocks h = Inr r"
  using match_fold_ok [of clocks ids "length clocks" s h "(New V, None)"] by (auto simp: matchSendAndReceive_def)

lemma findSender_total:
  assumes "idClockMapper V clocks = Inr ids" and "length ordered = length (Clocks ct)" and "length (Clocks ct) \<le> length ids"
  shows "\<exists>r. findSenderInCut V ct clocks ordered ids root = Inr r"
proof -
  have "\<exists>st'. sender_step V ct clocks ordered ids root st x = Inr st'" if "x \<in> set [0..<length (Clocks ct)]" for st x
  proof -
    have x: "x < length ordered" "x < length ids" using that assms(2,3) by auto
    obtain r where "matchSendAndReceive V (Clocks ct ! x) clocks (ids ! x) = Inr r" using match_total [OF assms(1)] by blast
    with x show ?thesis by (simp add: sender_step_def)
  qed
  from foldR_total [of "[0..<length (Clocks ct)]" "sender_step V ct clocks ordered ids root", OF this, of "(- 1, None)"]
  show ?thesis by (auto simp: findSenderInCut_def)
qed

lemma chain_loop_total:
  assumes "idClockMapper V clocks = Inr ids" and "length (Clocks ct) \<le> length ids"
  shows "length ordered = length (Clocks ct) \<Longrightarrow>
    \<exists>orders' ordered'. chain_loop V ct clocks ids orders ordered root = Inr (orders', ordered') \<and> length ordered' = length ordered"
proof (induction "count_list ordered False" arbitrary: orders ordered root rule: less_induct)
  case less
  note simps = chain_loop.simps [of V ct clocks ids orders ordered root]
  obtain r where r: "findSenderInCut V ct clocks ordered ids root = Inr r"
    using findSender_total [OF assms(1) less.prems assms(2)] by blast
  show ?case
  proof (cases r)
    case None
    with r simps show ?thesis by simp
  next
    case (Some s)
    have "count_list (snd (appendOrdering orders ordered s)) False < count_list ordered False"
      using findSender_found [OF r [unfolded Some]] by (auto simp: appendOrdering_def intro: count_unordered_less)
    from less.hyps [OF this, of "fst (appendOrdering orders ordered s)" s] less.prems r Some simps
    show ?thesis by (simp add: appendOrdering_def)
  qed
qed

lemma order_loop_total:
  assumes "idClockMapper V clocks = Inr ids" and "length (Clocks ct) \<le> length ids" and "length ancestors = length (Clocks ct)"
  shows "length ordered = length (Clocks ct) \<Longrightarrow> \<exists>orders'. order_loop V ct clocks ids ancestors orders ordered = Inr orders'"
proof (induction "count_list ordered False" arbitrary: orders ordered rule: less_induct)
  case less
  note simps = order_loop.simps [of V ct clocks ids ancestors orders ordered]
  obtain r where r: "findUnorderedHost ancestors ordered = Inr r"
    using findUnordered_total [of ordered ancestors] less.prems assms(3) by auto
  show ?case
  proof (cases r)
    case None
    with r simps show ?thesis by simp
  next
    case (Some root)
    obtain orders1 ordered1 where ap: "appendOrdering (orders @ [[]]) ordered root = (orders1, ordered1)" by force
    then have o1: "ordered1 = ordered[root := True]" by (simp add: appendOrdering_def)
    then obtain orders2 ordered2 where c: "chain_loop V ct clocks ids orders1 ordered1 root = Inr (orders2, ordered2)"
      "length ordered2 = length (Clocks ct)"
      using chain_loop_total [OF assms(1,2), of ordered1 orders1 root] less.prems by auto
    have "count_list ordered2 False < count_list ordered False"
      using chain_loop_marks [OF c(1)] count_unordered_less findUnordered_found [OF r [unfolded Some]] o1
      by (meson le_less_trans)
    from less.hyps [OF this c(2), of orders2] r Some ap c(1) simps show ?thesis by simp
  qed
qed

lemma totalOrder_total:
  assumes "idClockMapper V clocks = Inr ids" and "length (Clocks ct) \<le> length clocks"
  shows "\<exists>orders. totalOrderFromCut V ct clocks = Inr orders"
proof -
  have "length ids = length clocks" using assms(1) by (simp add: idClockMapper_def traverse_Inr_iff)
  then show ?thesis
    using order_loop_total [OF assms(1), of ct "countAncestors V ct" "replicate (length (Clocks ct)) False" "[]"] assms
    by (auto simp: totalOrderFromCut_def countAncestors_def)
qed

end

section \<open>Properties\<close>

text \<open>
  C3: the mined cuts are exactly the consistent cuts with no message in flight. On the lattice
  \<open>BuildLattice5\<close> returns for the logs of an execution, with the deltas of
  \<open>enumerateCommunication\<close>, the mining loop ends and the cuts it returns are those of the
  consistent cuts in which every matched message that was sent has been received.
\<close>

theorem mineConsistentCuts2_correct:
  assumes "vclock_api V" and "runtime_ok R" and "idClockMapper V clocks = Inr ids" and "causal_logs V ids clocks"
    and "2 \<le> length clocks" and "even_split R V ids clocks" and "height V ids clocks < 2 ^ 63"
    and "card {q. consistent_cut V ids clocks q} \<le> 5000000"
  shows "\<exists>lw delta cuts lw'. BuildLattice5 R V clocks = Some (Inr lw) \<and> enumerateCommunication V clocks = Inr delta \<and>
    mineConsistentCuts2 R V lw clocks delta = Some (Inr (cuts, lw')) \<and>
    set cuts = {cut_clocks clocks q | q. consistent_cut V ids clocks q \<and> in_flight V ids clocks q = {}}"
  by (rule vclock_api.mined_cuts [OF assms(1,4,3,2,6,8,5,7)])

theorem mineConsistentCuts2_correct_witness:
  "\<exists>lw delta cuts lw'. BuildLattice5 one_cpu alist_clock ping_clocks = Some (Inr lw) \<and>
    enumerateCommunication alist_clock ping_clocks = Inr delta \<and>
    mineConsistentCuts2 one_cpu alist_clock lw ping_clocks delta = Some (Inr (cuts, lw')) \<and>
    set cuts = {cut_clocks ping_clocks q | q. consistent_cut alist_clock [''a'', ''b''] ping_clocks q \<and>
      in_flight alist_clock [''a'', ''b''] ping_clocks q = {}}"
  by (rule mineConsistentCuts2_correct [OF alist.vclock_api_axioms one_cpu_ok ping_ids ping_causal _ one_cpu_split
        ping_height ping_cuts]) (simp add: ping_clocks_def)

text \<open>
  C4: the deltas of \<open>enumerateCommunication\<close> at the last events of a consistent cut add up to the
  number of messages the cut leaves in flight.
\<close>

theorem enumerateCommunication_counts_messages:
  assumes "vclock_api V" and "causal_logs V ids clocks" and "idClockMapper V clocks = Inr ids"
    and "consistent_cut V ids clocks q"
  shows "\<exists>delta. enumerateCommunication V clocks = Inr delta \<and>
    (\<Sum>k<length clocks. delta ! k ! (q ! k - 1)) = int (card (in_flight V ids clocks q))"
  using vclock_api.enumerate_deltas [OF assms(1-3)] vclock_api.cut_delta(1) [OF assms] by blast

lemma ping_cut: "consistent_cut alist_clock [''a'', ''b''] ping_clocks [2, 1]"
  by (simp add: consistent_cut_def cut_of_def ping_clocks_def alist_clock_def alist_find_def less_Suc_eq numeral_2_eq_2)

theorem enumerateCommunication_counts_messages_witness:
  "\<exists>delta. enumerateCommunication alist_clock ping_clocks = Inr delta \<and>
    (\<Sum>k<length ping_clocks. delta ! k ! ([2, 1] ! k - 1)) = int (card (in_flight alist_clock [''a'', ''b''] ping_clocks [2, 1]))"
  by (rule enumerateCommunication_counts_messages [OF alist.vclock_api_axioms ping_causal ping_ids ping_cut])

text \<open>
  C5: \<open>totalOrderFromCut\<close> ends, and the chains it returns split the hosts of the cut: every host is
  in exactly one chain, no chain is empty, and in a chain every host after the first is the
  sender of a message whose matched receive is on the host before it.
\<close>

theorem totalOrderFromCut_partition:
  assumes "vclock_api V" and "idClockMapper V clocks = Inr ids" and "length (Clocks ct) \<le> length clocks"
  shows "\<exists>orders. totalOrderFromCut V ct clocks = Inr orders \<and> distinct (concat orders) \<and>
    set (concat orders) = {..<length (Clocks ct)} \<and>
    list_all (\<lambda>chain. chain \<noteq> [] \<and> successively (sends_to V ct clocks ids) chain) orders"
proof -
  obtain orders where o: "totalOrderFromCut V ct clocks = Inr orders" using vclock_api.totalOrder_total [OF assms] by blast
  from o totalOrder_partition [OF o assms(2)] show ?thesis unfolding list_all_iff by blast
qed

theorem totalOrderFromCut_partition_witness:
  "\<exists>orders. totalOrderFromCut alist_clock (cut_clocks ping_clocks [2, 2]) ping_clocks = Inr orders \<and> distinct (concat orders) \<and>
    set (concat orders) = {..<length (Clocks (cut_clocks ping_clocks [2, 2]))} \<and>
    list_all (\<lambda>chain. chain \<noteq> [] \<and>
      successively (sends_to alist_clock (cut_clocks ping_clocks [2, 2]) ping_clocks [''a'', ''b'']) chain) orders"
  by (rule totalOrderFromCut_partition [OF alist.vclock_api_axioms ping_ids]) (simp add: cut_clocks_def)

end
