(* ===== verification/Merging.thy ===== *)
theory Merging
  imports Point_Log_Props Cut_Mining
begin

text \<open>
  \<open>logmerger/logmerger.go\<close>: the assembly line of the log merger. The options, building the logs,
  mining the states of the execution, the plans by which the points of a state are merged, and
  the trace files. The contents of the input files are arguments, the files written are a map
  from names to contents.
\<close>

section \<open>Definitions\<close>

subsection \<open>Options\<close>

text \<open>\<open>NilPlan\<close> is the plan the package starts with, which merges nothing.\<close>

datatype merge_kind = NilPlan | TOLN | ETM | SRM | SCM | NonePlan | InvalidPlan

record settings =
  debug :: bool
  shiviz :: bool
  jsonDPP :: bool
  mergePlan :: merge_kind
  totallyOrderedCuts :: bool
  sampleRate :: int
  renamingScheme :: string

definition default_settings :: settings where
  "default_settings = \<lparr>debug = False, shiviz = False, jsonDPP = False, mergePlan = NilPlan, totallyOrderedCuts = False,
     sampleRate = 0, renamingScheme = []\<rparr>"

text \<open>The number \<open>strconv.Atoi\<close> returns, whether or not it also reports an error.\<close>

definition atoi_value :: "string \<Rightarrow> int" where
  "atoi_value s =
     (let (neg, ds) = (case s of [] \<Rightarrow> (False, []) | c # r \<Rightarrow>
            if c = CHR ''-'' then (True, r) else if c = CHR ''+'' then (False, r) else (False, s))
      in if ds = [] \<or> \<not> list_all is_digit ds then 0
         else if neg then max (- (2 ^ 63)) (- int (digits_val ds)) else min (2 ^ 63 - 1) (int (digits_val ds)))"

definition plan_of :: "string \<Rightarrow> merge_kind" where
  "plan_of s =
     (if s = ''TOLN'' then TOLN else if s = ''ETM'' then ETM else if s = ''SRM'' then SRM
      else if s = ''SCM'' then SCM else if s = ''NONE'' then NonePlan else InvalidPlan)"

definition apply_setting :: "settings \<Rightarrow> string \<times> string \<Rightarrow> settings" where
  "apply_setting cfg opt =
     (let (setting, v) = opt
      in if setting = ''debug'' then cfg\<lparr>debug := True\<rparr>
         else if setting = ''mergePlan'' then cfg\<lparr>mergePlan := plan_of v\<rparr>
         else if setting = ''sampleRate'' then cfg\<lparr>sampleRate := atoi_value v\<rparr>
         else if setting = ''totallyOrderedCuts'' then cfg\<lparr>totallyOrderedCuts := True\<rparr>
         else if setting = ''renamingScheme'' then cfg\<lparr>renamingScheme := v\<rparr>
         else if setting = ''shiviz'' then cfg\<lparr>shiviz := True\<rparr>
         else if setting = ''json'' then cfg\<lparr>jsonDPP := True\<rparr>
         else cfg)"

definition initalizeLogMerger :: "(string, string) gomap \<Rightarrow> settings \<Rightarrow> settings" where
  "initalizeLogMerger options cfg = foldl apply_setting cfg options"

subsection \<open>Building logs\<close>

definition partitionLogs ::
  "Point list list \<Rightarrow> 'c golog list \<Rightarrow> (Point list list list \<times> 'c golog list list) go" where
  "partitionLogs points gos =
     rbind (traverse (index_go points) [0..<length gos]) (\<lambda>partLog. Inr ([partLog], [gos]))"

record 'c log_env =
  env_V :: "'c vclock_ops"
  env_regexp :: "string \<Rightarrow> string \<Rightarrow> string \<Rightarrow> string"
  env_names :: "(string, string) gomap \<Rightarrow> (string, string) gomap"
  env_points :: "(string, Point list) gomap \<Rightarrow> (string, Point list) gomap"
  env_hash :: "string \<Rightarrow> string"

definition shiviz_line :: "'c vclock_ops \<Rightarrow> 'c golog \<Rightarrow> nat \<Rightarrow> string \<Rightarrow> string go" where
  "shiviz_line V g j extra =
     rbind (index_go (log_messages g) j) (\<lambda>msg.
       Inr (log_id g @ '' '' @ ReturnVCString V (log_clocks g ! j) @ [newline] @ msg @ [newline] @ extra))"

definition WriteShiVizLogFast :: "'c vclock_ops \<Rightarrow> 'c golog list \<Rightarrow> files \<Rightarrow> files go" where
  "WriteShiVizLogFast V goLogs fs =
     rbind (traverse (\<lambda>g. traverse (\<lambda>j. shiviz_line V g j []) [0..<length (log_clocks g)]) goLogs) (\<lambda>ls.
       Inr (gomap_set ''Shiviz.log'' (''(?<host>'' @ [CHR 0x5C] @ ''S*) (?<clock>{.*})'' @ [CHR 0x5C] @ ''n(?<event>.*)'' @
         [newline, newline] @ concat (concat ls)) fs))"

definition WriteShiVizLog :: "'c vclock_ops \<Rightarrow> Point list list \<Rightarrow> 'c golog list \<Rightarrow> files \<Rightarrow> files go" where
  "WriteShiVizLog V pointLog goLogs fs =
     rbind (traverse (\<lambda>i. let g = goLogs ! i in traverse (\<lambda>j.
         rbind (index_go pointLog i) (\<lambda>pl.
           shiviz_line V g j (concat (map (Point_String V) (getEventsWithIdenticalHostTime V pl (log_id g) (int j))) @ [newline])))
         [0..<length (log_clocks g)]) [0..<length goLogs]) (\<lambda>ls.
       Inr (gomap_set ''Shiviz.log'' (''(?<host>'' @ [CHR 0x5C] @ ''S*) (?<clock>{.*})'' @ [CHR 0x5C] @ ''n(?<event>.*)'' @
         [CHR 0x5C] @ ''n(?<dump>.*)'' @ [newline, newline] @ concat (concat ls)) fs))"

text \<open>
  The second loop of the source, over clock logs without a point log, has an empty range: there
  are as many clock logs as point logs at that point.
\<close>

definition read_pair ::
  "'c vclock_ops \<Rightarrow> (Point list \<times> Point) option list \<Rightarrow> string option list \<Rightarrow> nat \<Rightarrow> (Point list \<times> 'c golog) go" where
  "read_pair V logFiles gologFiles i =
     rbind (readLog (logFiles ! i)) (\<lambda>log.
     rbind (index_go gologFiles i) (\<lambda>f.
       case ParseGologFile V f of
         None \<Rightarrow> Inl (Panic ''Corresponding goLogfile for logfile missing'')
       | Some goLog \<Rightarrow> Inr (log, goLog)))"

definition buildLogs ::
  "'c log_env \<Rightarrow> settings \<Rightarrow> (Point list \<times> Point) option list \<Rightarrow> string option list \<Rightarrow> files
     \<Rightarrow> ((Point list list \<times> 'c golog list) \<times> files) go" where
  "buildLogs E cfg logFiles gologFiles fs =
     (let V = env_V E
      in rbind (traverse (read_pair V logFiles gologFiles) [0..<length logFiles]) (\<lambda>pairs.
         let goLogs = map (sort_golog V \<circ> snd) pairs;
             logs = map (\<lambda>(l, g). injectMissingPoints V l (sort_golog V g)) pairs
         in rbind (replaceIds V (env_names E) (env_regexp E) logs goLogs (renamingScheme cfg)) (\<lambda>(logs', goLogs').
            rbind (if shiviz cfg then WriteShiVizLogFast V goLogs' fs else Inr fs) (\<lambda>fs'.
              Inr ((logs', goLogs'), fs')))))"

subsection \<open>Mining states\<close>

definition cut_state ::
  "'c vclock_ops \<Rightarrow> string list \<Rightarrow> 'c list list \<Rightarrow> (nat \<Rightarrow> 'c \<Rightarrow> Point go) \<Rightarrow> 'c Cut \<Rightarrow> 'c State go" where
  "cut_state V ids clocks locate ct =
     rbind (traverse (\<lambda>i. locate i (Clocks ct ! i)) [0..<length (Clocks ct)]) (\<lambda>points.
     rbind (totalOrderFromCut V ct clocks) (\<lambda>orders.
       Inr \<lparr>state_Cut = ct, state_Points = points, state_TotalOrdering = orders\<rparr>))"

definition statesFromCuts ::
  "'c vclock_ops \<Rightarrow> 'c Cut list \<Rightarrow> 'c list list \<Rightarrow> Point list list \<Rightarrow> 'c State list go" where
  "statesFromCuts V cuts clocks logs =
     rbind (idClockMapper V clocks) (\<lambda>ids.
       traverse (cut_state V ids clocks (\<lambda>i clock.
         rbind (index_go clocks i) (\<lambda>cs. rbind (index_go ids i) (\<lambda>h.
           let (found, index) = searchClockById V cs clock h
           in if found then rbind (index_go logs i) (\<lambda>l. index_go l index)
              else Inl (Fatal ''UNABLE TO LOCATE LOG''))))) cuts)"

definition statesFromCuts2 ::
  "'c vclock_ops \<Rightarrow> 'c Cut list \<Rightarrow> 'c list list \<Rightarrow> Point list list \<Rightarrow> 'c State list go" where
  "statesFromCuts2 V cuts clocks logs =
     rbind (idClockMapper V clocks) (\<lambda>ids.
     rbind (pointsToMaps V logs) (\<lambda>mPoints.
       traverse (cut_state V ids clocks (\<lambda>i clock.
         rbind (index_go ids i) (\<lambda>h.
           case gomap_get mPoints h of
             None \<Rightarrow> Inl (Fatal ''UNABLE TO LOCATE LOG'')
           | Some m \<Rightarrow>
               (case gomap_get m (ticks V clock h) of
                  None \<Rightarrow> Inl (Fatal ''UNABLE TO LOCATE LOG'')
                | Some p \<Rightarrow> Inr p)))) cuts))"

definition mineStates ::
  "'c go_runtime \<Rightarrow> 'c vclock_ops \<Rightarrow> Point list list \<Rightarrow> 'c golog list \<Rightarrow> 'c State list go option" where
  "mineStates R V logs clockLogs =
     (let clocks = VectorClockArraysFromGoVectorLogs clockLogs
      in case BuildLattice5 R V clocks of
           None \<Rightarrow> None
         | Some (Inl e) \<Rightarrow> Some (Inl e)
         | Some (Inr lattice) \<Rightarrow>
             (case enumerateCommunication V clocks of
                Inl e \<Rightarrow> Some (Inl e)
              | Inr deltaComm \<Rightarrow>
                  (case mineConsistentCuts2 R V lattice clocks deltaComm of
                     None \<Rightarrow> None
                   | Some (Inl e) \<Rightarrow> Some (Inl e)
                   | Some (Inr (consistentCuts, _)) \<Rightarrow> Some (statesFromCuts2 V consistentCuts clocks logs))))"

definition filterTotalOrder :: "'c vclock_ops \<Rightarrow> 'c State list \<Rightarrow> 'c State list go" where
  "filterTotalOrder V states =
     rbind (index_go states 0) (\<lambda>s0.
       Inr (foldl (\<lambda>fs st. if HappenedBefore V (state_Cut (last fs)) (state_Cut st) then fs @ [st] else fs) [s0] (tl states)))"

subsection \<open>Merging points\<close>

definition merge_step :: "'c vclock_ops \<Rightarrow> Point \<Rightarrow> Point \<Rightarrow> Point" where
  "merge_step V mergedPoint point =
     mergedPoint\<lparr>Dump := Dump mergedPoint @ Dump point, Id := Id mergedPoint @ ''_'' @ Id point,
       VectorClock := Bytes V (MergeClock V (Copy V (point_clock V mergedPoint)) (point_clock V point))\<rparr>"

definition mergePoints :: "'c vclock_ops \<Rightarrow> Point list \<Rightarrow> Point" where
  "mergePoints V points = foldl (merge_step V) zero_point points"

definition isFullCut :: "Point list \<Rightarrow> bool" where
  "isFullCut points = list_all (\<lambda>p. Id p \<noteq> []) points"

definition totalOrderLineNumberMerge :: "'c vclock_ops \<Rightarrow> 'c State list \<Rightarrow> Point list list go" where
  "totalOrderLineNumberMerge V states =
     traverse (\<lambda>st. traverse (\<lambda>chain.
       rbind (traverse (index_go (state_Points st)) chain) (\<lambda>points. Inr (mergePoints V points)))
       (state_TotalOrdering st)) states"

definition noMerge :: "'c State list \<Rightarrow> Point list list go" where
  "noMerge states = Inr (replicate (length states) [])"

definition entireCutMerge :: "'c vclock_ops \<Rightarrow> 'c State list \<Rightarrow> Point list list go" where
  "entireCutMerge V states = Inr (map (\<lambda>st. [mergePoints V (state_Points st)]) states)"

fun adjacent :: "'a list \<Rightarrow> ('a \<times> 'a) list" where
  "adjacent (x # y # xs) = (x, y) # adjacent (y # xs)"
| "adjacent _ = []"

definition sendReceiveMerge :: "'c vclock_ops \<Rightarrow> 'c State list \<Rightarrow> Point list list go" where
  "sendReceiveMerge V states =
     traverse (\<lambda>st. rbind (traverse (\<lambda>chain. traverse (\<lambda>(a, b).
         rbind (index_go (state_Points st) a) (\<lambda>p. rbind (index_go (state_Points st) b) (\<lambda>q. Inr (mergePoints V [p, q]))))
         (adjacent chain)) (state_TotalOrdering st)) (\<lambda>mss. Inr (concat mss))) states"

text \<open>
  \<open>singleCutMerge\<close> sorts the points of a full cut in place, so it also changes its argument: the
  second component is the list of states afterwards.
\<close>

definition singleCutMerge :: "'c vclock_ops \<Rightarrow> 'c State list \<Rightarrow> Point list list \<times> 'c State list" where
  "singleCutMerge V states =
     (map (\<lambda>st. if isFullCut (state_Points st) then [mergePoints V (sort_ById (state_Points st))] else []) states,
      map (\<lambda>st. if isFullCut (state_Points st) then st\<lparr>state_Points := sort_ById (state_Points st)\<rparr> else st) states)"

definition run_plan :: "'c vclock_ops \<Rightarrow> merge_kind \<Rightarrow> 'c State list \<Rightarrow> Point list list go" where
  "run_plan V k states =
     (case k of
        NilPlan \<Rightarrow> Inr []
      | TOLN \<Rightarrow> totalOrderLineNumberMerge V states
      | ETM \<Rightarrow> entireCutMerge V states
      | SRM \<Rightarrow> sendReceiveMerge V states
      | SCM \<Rightarrow> Inr (fst (singleCutMerge V states))
      | NonePlan \<Rightarrow> noMerge states
      | InvalidPlan \<Rightarrow> Inl (Fatal ''Error Invalid Merge Plan''))"

subsection \<open>Trace files\<close>

text \<open>
  One round of the loop of \<open>writeTraceFiles\<close> over the merged points with their \<open>written\<close> flags: the
  first unwritten point names the file, and every unwritten point with that id is taken. The
  sample rate is set to 100 there, so the random draw below it always succeeds.
\<close>

fun trace_scan :: "string option \<Rightarrow> (Point \<times> bool) list \<Rightarrow> string option \<times> Point list \<times> (Point \<times> bool) list" where
  "trace_scan fn [] = (fn, [], [])"
| "trace_scan fn ((p, w) # ps) =
     (if w then (let (f, l, r) = trace_scan fn ps in (f, l, (p, w) # r))
      else let filename = (case fn of None \<Rightarrow> Id p | Some n \<Rightarrow> n)
           in if filename = Id p then (let (f, l, r) = trace_scan (Some filename) ps in (f, p # l, (p, True) # r))
              else (let (f, l, r) = trace_scan (Some filename) ps in (f, l, (p, w) # r)))"

abbreviation unwritten :: "(Point \<times> bool) list \<Rightarrow> nat" where
  "unwritten ps \<equiv> length (filter (\<lambda>e. \<not> snd e) ps)"

lemma trace_scan_le: "trace_scan fn ps = (f, l, r) \<Longrightarrow> unwritten r \<le> unwritten ps"
  by (induction fn ps arbitrary: f l r rule: trace_scan.induct)
    (force split: if_splits prod.splits simp: Let_def)+

lemma trace_scan_less:
  "trace_scan None ps = (Some f, l, r) \<Longrightarrow> unwritten r < unwritten ps"
proof (induction ps arbitrary: f l r)
  case (Cons e ps)
  obtain p w where e: "e = (p, w)" by force
  show ?case
  proof (cases w)
    case True
    with Cons e show ?thesis by (auto split: prod.splits)
  next
    case False
    obtain f' l' r' where s: "trace_scan (Some (Id p)) ps = (f', l', r')" by (cases "trace_scan (Some (Id p)) ps") auto
    with Cons.prems e False have "r = (p, True) # r'" by simp
    with trace_scan_le [OF s] e False show ?thesis by simp
  qed
qed simp

function trace_groups :: "(Point \<times> bool) list \<Rightarrow> (string \<times> Point list) list" where
  "trace_groups ps =
     (case trace_scan None ps of
        (None, _, _) \<Rightarrow> []
      | (Some filename, pointLog, ps') \<Rightarrow> (filename, pointLog) # trace_groups ps')"
  by pat_completeness auto
termination
  by (relation "measure unwritten") (auto dest: trace_scan_less [OF sym])

declare trace_groups.simps [simp del]

definition writeTraceFiles :: "'c log_env \<Rightarrow> settings \<Rightarrow> 'c State list \<Rightarrow> files \<Rightarrow> (settings \<times> files) go" where
  "writeTraceFiles E cfg states fs =
     (let cfg' = cfg\<lparr>totallyOrderedCuts := False, sampleRate := 100\<rparr>
      in rbind (if totallyOrderedCuts cfg' then filterTotalOrder (env_V E) states else Inr states) (\<lambda>states'.
         rbind (run_plan (env_V E) (mergePlan cfg') states') (\<lambda>mergedPoints.
         rbind (foldR (\<lambda>fs (filename, pointLog). writeLogToTrace (env_hash E) (env_points E) pointLog filename fs) fs
                  (trace_groups (map (\<lambda>p. (p, False)) (concat mergedPoints)))) (\<lambda>fs'.
           Inr (cfg', fs')))))"

definition writeUnmergedTraces :: "'c log_env \<Rightarrow> string list \<Rightarrow> Point list list \<Rightarrow> files \<Rightarrow> files go" where
  "writeUnmergedTraces E filenames logs fs =
     foldR (\<lambda>fs i. rbind (index_go logs i) (\<lambda>l.
       writeLogToTrace (env_hash E) (env_points E) l (filenames ! i @ ''unmerged.log'') fs)) fs [0..<length filenames]"

text \<open>
  \<open>enc\<close> is the JSON encoder; the states of one id are written to one file, in order.
\<close>

definition writeLogToJson ::
  "('c State \<Rightarrow> string) \<Rightarrow> ((string, 'c State list) gomap \<Rightarrow> (string, 'c State list) gomap) \<Rightarrow> (string \<Rightarrow> string)
     \<Rightarrow> 'c State list \<Rightarrow> files \<Rightarrow> files" where
  "writeLogToJson enc ord hash log fs =
     foldl (\<lambda>fs (i, sts). gomap_set (newFile_name hash i ''json'') (concat (map enc sts)) fs) fs
       (ord (createMapOfLogsForEachState log))"

definition merge_group ::
  "'c go_runtime \<Rightarrow> 'c log_env \<Rightarrow> ('c State \<Rightarrow> string) \<Rightarrow> ((string, 'c State list) gomap \<Rightarrow> (string, 'c State list) gomap)
     \<Rightarrow> settings \<times> files \<Rightarrow> Point list list \<times> 'c golog list \<Rightarrow> (settings \<times> files) go option" where
  "merge_group R E enc ord st grp =
     (case mineStates R (env_V E) (fst grp) (snd grp) of
        None \<Rightarrow> None
      | Some (Inl e) \<Rightarrow> Some (Inl e)
      | Some (Inr states) \<Rightarrow>
          Some (writeTraceFiles E (fst st) states
            (if jsonDPP (fst st) then writeLogToJson enc ord (env_hash E) states (snd st) else snd st)))"

fun merge_groups ::
  "'c go_runtime \<Rightarrow> 'c log_env \<Rightarrow> ('c State \<Rightarrow> string) \<Rightarrow> ((string, 'c State list) gomap \<Rightarrow> (string, 'c State list) gomap)
     \<Rightarrow> settings \<times> files \<Rightarrow> (Point list list \<times> 'c golog list) list \<Rightarrow> (settings \<times> files) go option" where
  "merge_groups R E enc ord st [] = Some (Inr st)"
| "merge_groups R E enc ord st (g # gs) =
     (case merge_group R E enc ord st g of
        None \<Rightarrow> None
      | Some (Inl e) \<Rightarrow> Some (Inl e)
      | Some (Inr st') \<Rightarrow> merge_groups R E enc ord st' gs)"

definition Merge ::
  "'c go_runtime \<Rightarrow> 'c log_env \<Rightarrow> ('c State \<Rightarrow> string) \<Rightarrow> ((string, 'c State list) gomap \<Rightarrow> (string, 'c State list) gomap)
     \<Rightarrow> string list \<Rightarrow> (Point list \<times> Point) option list \<Rightarrow> string option list \<Rightarrow> (string, string) gomap \<Rightarrow> files
     \<Rightarrow> (settings \<times> files) go option" where
  "Merge R E enc ord names logfiles gologfiles options fs =
     (let cfg = initalizeLogMerger options default_settings
      in case rbind (buildLogs E cfg logfiles gologfiles fs) (\<lambda>((logs, goLogs), fs1).
              rbind (partitionLogs logs goLogs) (\<lambda>(plogs, pgoLogs). Inr (logs, plogs, pgoLogs, fs1))) of
           Inl e \<Rightarrow> Some (Inl e)
         | Inr (logs, plogs, pgoLogs, fs1) \<Rightarrow>
             (if gomap_get options ''mergePlan'' = Some ''NONE''
              then Some (rbind (writeUnmergedTraces E names logs fs1) (\<lambda>fs2. Inr (cfg, fs2)))
              else merge_groups R E enc ord (cfg, fs1) (zip plogs pgoLogs)))"

end
