(* ===== verification/Merging_Props.thy ===== *)
theory Merging_Props
  imports Merging "HOL-Library.Sublist"
begin

text \<open>
  Properties of \<open>logmerger/logmerger.go\<close>: what a merged point holds, the contract every merge plan
  keeps, the grouping of merged points into trace files, filtering states by total order, and the
  states mined from the logs of an execution.
\<close>

section \<open>Merged points\<close>

lemma mergePoints_dump: "Dump (mergePoints V ps) = concat (map Dump ps)"
proof -
  have "Dump (foldl (merge_step V) acc ps) = Dump acc @ concat (map Dump ps)" for acc
    by (induction ps arbitrary: acc) (simp_all add: merge_step_def)
  then show ?thesis by (simp add: mergePoints_def zero_point_def)
qed

lemma mergePoints_id: "Id (mergePoints V ps) = concat (map (\<lambda>p. CHR ''_'' # Id p) ps)"
proof -
  have "Id (foldl (merge_step V) acc ps) = Id acc @ concat (map (\<lambda>p. CHR ''_'' # Id p) ps)" for acc
    by (induction ps arbitrary: acc) (simp_all add: merge_step_def)
  then show ?thesis by (simp add: mergePoints_def zero_point_def)
qed

context vclock_api
begin

lemma merge_step_find:
  "FindTicks V (point_clock V (merge_step V acc p)) i =
     (max (ticks V (point_clock V acc) i) (ticks V (point_clock V p) i),
      has_id V (point_clock V acc) i \<or> has_id V (point_clock V p) i)"
proof -
  let ?c = "MergeClock V (Copy V (point_clock V acc)) (point_clock V p)"
  obtain d where "FromBytes V (Bytes V ?c) = (d, False)" "\<forall>i. FindTicks V d i = FindTicks V ?c i"
    using bytes_roundtrip by blast
  moreover have "point_clock V (merge_step V acc p) = fst (FromBytes V (Bytes V ?c))"
    by (simp add: point_clock_def [of _ "merge_step V acc p"]) (simp add: merge_step_def)
  ultimately show ?thesis by (simp add: find_Merge find_Copy)
qed

lemma mergePoints_find:
  "FindTicks V (point_clock V (mergePoints V ps)) i =
     (foldl max 0 (map (\<lambda>p. ticks V (point_clock V p) i) ps), list_ex (\<lambda>p. has_id V (point_clock V p) i) ps)"
proof -
  have "FindTicks V (point_clock V (foldl (merge_step V) acc ps)) i =
      (foldl max (ticks V (point_clock V acc) i) (map (\<lambda>p. ticks V (point_clock V p) i) ps),
       has_id V (point_clock V acc) i \<or> list_ex (\<lambda>p. has_id V (point_clock V p) i) ps)" for acc
    by (induction ps arbitrary: acc) (simp_all add: merge_step_find prod_eq_iff disj_assoc)
  moreover obtain d where "FromBytes V [] = (d, True)" "FindTicks V d i = (0, False)" using bytes_nil by blast
  then have "FindTicks V (point_clock V zero_point) i = (0, False)" by (simp add: point_clock_def zero_point_def)
  ultimately show ?thesis by (simp add: mergePoints_def)
qed

end

section \<open>The contract of a merge plan\<close>

text \<open>
  A state is ordered when its total ordering splits its hosts into non-empty chains: every host
  with a point is in exactly one chain.
\<close>

definition ordered_state :: "'c State \<Rightarrow> bool" where
  "ordered_state st \<longleftrightarrow> distinct (concat (state_TotalOrdering st)) \<and>
     set (concat (state_TotalOrdering st)) = {..<length (state_Points st)} \<and> [] \<notin> set (state_TotalOrdering st)"

lemma mset_permuted:
  assumes "distinct is" and "set is = {..<length xs}"
  shows "mset (map ((!) xs) is) = mset xs"
proof -
  have "mset is = mset [0..<length xs]" using assms mset_set_set [of "is"] by (simp add: atLeast0LessThan)
  then show ?thesis by (metis map_nth mset_map)
qed

lemma mset_picked:
  assumes "distinct is" and "set is \<subseteq> {..<length xs}"
  shows "mset (map ((!) xs) is) \<subseteq># mset xs"
proof -
  let ?rest = "filter (\<lambda>i. i \<notin> set is) [0..<length xs]"
  have "mset (map ((!) xs) (is @ ?rest)) = mset xs" using assms by (intro mset_permuted) auto
  then show ?thesis by (metis map_append mset_append mset_subset_eq_add_left)
qed

lemma mset_dumps: "mset (concat (map Dump ps)) = \<Sum>\<^sub># (image_mset (\<lambda>p. mset (Dump p)) (mset ps))"
  by (induction ps) simp_all

lemma mset_dumps_mono: "mset ps \<subseteq># mset qs \<Longrightarrow> mset (concat (map Dump ps)) \<subseteq># mset (concat (map Dump qs))"
  unfolding mset_dumps by (metis image_mset_subseteq_mono sum_mset.union mset_subset_eq_add_left subset_mset.le_iff_add)

text \<open>
  A plan picks groups of points in every state and merges each: on ordered states it returns, for
  every state, one merged point per group, and a group has no point of the state twice.
\<close>

locale merge_plan =
  fixes V :: "'c vclock_ops" and plan :: "'c State list \<Rightarrow> Point list list go" and groups :: "'c State \<Rightarrow> Point list list"
  assumes plan_merges: "list_all ordered_state states \<Longrightarrow> plan states = Inr (map (\<lambda>st. map (mergePoints V) (groups st)) states)"
    and groups_points: "ordered_state st \<Longrightarrow> g \<in> set (groups st) \<Longrightarrow> mset g \<subseteq># mset (state_Points st)"
begin

lemma plan_dump:
  assumes "list_all ordered_state states" and "plan states = Inr m"
  shows "list_all2 (\<lambda>st ps. \<forall>p \<in> set ps. mset (Dump p) \<subseteq># mset (concat (map Dump (state_Points st)))) states m"
proof -
  have "mset (Dump (mergePoints V g)) \<subseteq># mset (concat (map Dump (state_Points st)))"
    if "st \<in> set states" "g \<in> set (groups st)" for st g
    unfolding mergePoints_dump
    using that assms(1) by (intro mset_dumps_mono groups_points) (auto simp: list_all_iff)
  moreover have "m = map (\<lambda>st. map (mergePoints V) (groups st)) states" using plan_merges [OF assms(1)] assms(2) by simp
  ultimately show ?thesis by (auto simp: list_all2_conv_all_nth)
qed

lemma groups_conserve:
  assumes "mset (concat (groups st)) = mset (state_Points st)"
  shows "mset (concat (map Dump (map (mergePoints V) (groups st)))) = mset (concat (map Dump (state_Points st)))"
proof -
  have "concat (map Dump (map (mergePoints V) gs)) = concat (map Dump (concat gs))" for gs
    by (induction gs) (simp_all add: mergePoints_dump)
  then show ?thesis by (simp only: mset_dumps assms)
qed

end

text \<open>The groups of the plans.\<close>

definition chain_groups :: "'c State \<Rightarrow> Point list list" where
  "chain_groups st = map (map ((!) (state_Points st))) (state_TotalOrdering st)"

definition pair_groups :: "'c State \<Rightarrow> Point list list" where
  "pair_groups st = concat (map (\<lambda>chain.
     map (\<lambda>k. [state_Points st ! (chain ! k), state_Points st ! (chain ! Suc k)]) [0..<length chain - 1]) (state_TotalOrdering st))"

lemma adjacent_nth: "adjacent xs = map (\<lambda>k. (xs ! k, xs ! Suc k)) [0..<length xs - 1]"
proof (induction xs rule: adjacent.induct)
  case (1 x y xs)
  then show ?case by (simp add: upt_conv_Cons map_Suc_upt [symmetric] del: upt_Suc map_Suc_upt)
qed simp_all

lemma chain_range:
  assumes "ordered_state st" and "chain \<in> set (state_TotalOrdering st)"
  shows "distinct chain" and "set chain \<subseteq> {..<length (state_Points st)}"
  using assms by (auto simp: ordered_state_def distinct_concat_iff)

lemma chain_nth:
  "ordered_state st \<Longrightarrow> chain \<in> set (state_TotalOrdering st) \<Longrightarrow> k < length chain \<Longrightarrow> chain ! k < length (state_Points st)"
  using chain_range(2) nth_mem by blast

lemma traverse_points:
  "set chain \<subseteq> {..<length xs} \<Longrightarrow> traverse (index_go xs) chain = Inr (map ((!) xs) chain)"
  by (rule traverse_pure) auto

interpretation toln: merge_plan V "totalOrderLineNumberMerge V" chain_groups for V
proof
  fix states :: "'a State list"
  assume "list_all ordered_state states"
  then show "totalOrderLineNumberMerge V states = Inr (map (\<lambda>st. map (mergePoints V) (chain_groups st)) states)"
    unfolding totalOrderLineNumberMerge_def chain_groups_def map_map
    by (intro traverse_pure) (auto simp: list_all_iff traverse_points [OF chain_range(2)])
next
  fix st :: "'a State" and g
  assume "ordered_state st" "g \<in> set (chain_groups st)"
  then show "mset g \<subseteq># mset (state_Points st)" using chain_range mset_picked by (fastforce simp: chain_groups_def simp del: mset_map)
qed

interpretation srm: merge_plan V "sendReceiveMerge V" pair_groups for V
proof
  fix states :: "'a State list"
  assume o: "list_all ordered_state states"
  have "rbind (traverse (\<lambda>chain. traverse (\<lambda>(a, b).
         rbind (index_go (state_Points st) a) (\<lambda>p. rbind (index_go (state_Points st) b) (\<lambda>q. Inr (mergePoints V [p, q]))))
         (adjacent chain)) (state_TotalOrdering st)) (\<lambda>mss. Inr (concat mss)) = Inr (map (mergePoints V) (pair_groups st))"
    if "st \<in> set states" for st
  proof -
    have "traverse (\<lambda>chain. traverse (\<lambda>(a, b).
         rbind (index_go (state_Points st) a) (\<lambda>p. rbind (index_go (state_Points st) b) (\<lambda>q. Inr (mergePoints V [p, q]))))
         (adjacent chain)) (state_TotalOrdering st) = Inr (map (\<lambda>chain. map (\<lambda>(a, b). mergePoints V [state_Points st ! a, state_Points st ! b])
         (adjacent chain)) (state_TotalOrdering st))"
    proof (intro traverse_pure)
      fix chain e
      assume c: "chain \<in> set (state_TotalOrdering st)" "e \<in> set (adjacent chain)"
      then obtain k where k: "e = (chain ! k, chain ! Suc k)" "Suc k < length chain" by (auto simp: adjacent_nth)
      have "chain ! k < length (state_Points st)" "chain ! Suc k < length (state_Points st)"
        using o that c(1) k(2) by (auto simp: list_all_iff intro: chain_nth)
      with k(1) show "(\<lambda>(a, b). rbind (index_go (state_Points st) a) (\<lambda>p. rbind (index_go (state_Points st) b) (\<lambda>q. Inr (mergePoints V [p, q])))) e =
          Inr ((\<lambda>(a, b). mergePoints V [state_Points st ! a, state_Points st ! b]) e)" by simp
    qed
    then show ?thesis by (simp add: pair_groups_def map_concat adjacent_nth comp_def)
  qed
  then show "sendReceiveMerge V states = Inr (map (\<lambda>st. map (mergePoints V) (pair_groups st)) states)"
    unfolding sendReceiveMerge_def by (rule traverse_pure)
next
  fix st :: "'a State" and g
  assume o: "ordered_state st" and "g \<in> set (pair_groups st)"
  then obtain chain k where c: "chain \<in> set (state_TotalOrdering st)" "Suc k < length chain"
    "g = map ((!) (state_Points st)) [chain ! k, chain ! Suc k]" unfolding pair_groups_def by force
  have "distinct [chain ! k, chain ! Suc k]" using chain_range(1) [OF o c(1)] c(2) by (simp add: nth_eq_iff_index_eq)
  moreover have "set [chain ! k, chain ! Suc k] \<subseteq> {..<length (state_Points st)}" using c(2) by (simp add: chain_nth [OF o c(1)])
  ultimately show "mset g \<subseteq># mset (state_Points st)" unfolding c(3) by (rule mset_picked)
qed

interpretation etm: merge_plan V "entireCutMerge V" "\<lambda>st. [state_Points st]" for V
  by unfold_locales (auto simp: entireCutMerge_def)

interpretation scm: merge_plan V "\<lambda>states. Inr (fst (singleCutMerge V states))"
    "\<lambda>st. if list_ex (\<lambda>p. Id p = []) (state_Points st) then [] else [sort_ById (state_Points st)]" for V
  by unfold_locales (auto simp: singleCutMerge_def isFullCut_def sort_ById_def list_all_iff list_ex_iff split: if_splits)

interpretation none: merge_plan V noMerge "\<lambda>st. []" for V
  by unfold_locales (auto simp: noMerge_def map_replicate_const)

lemma chain_groups_all: "ordered_state st \<Longrightarrow> mset (concat (chain_groups st)) = mset (state_Points st)"
  unfolding chain_groups_def ordered_state_def by (metis map_concat mset_permuted)

lemma sort_ById_perm: "mset (sort_ById ps) = mset ps" "sorted (map Id (sort_ById ps))"
  by (simp_all add: sort_ById_def)

lemma cut_state_ordered:
  assumes "cut_state V ids clocks locate ct = Inr st" and "idClockMapper V clocks = Inr ids"
  shows "ordered_state st \<and> state_Cut st = ct \<and> length (state_Points st) = length (Clocks ct) \<and>
    list_all (successively (sends_to V ct clocks ids)) (state_TotalOrdering st)"
proof -
  obtain points orders where p: "traverse (\<lambda>i. locate i (Clocks ct ! i)) [0..<length (Clocks ct)] = Inr points"
    "totalOrderFromCut V ct clocks = Inr orders"
    "st = \<lparr>state_Cut = ct, state_Points = points, state_TotalOrdering = orders\<rparr>"
    using assms(1) by (auto simp: cut_state_def rbind_eq_Inr)
  moreover have "length points = length (Clocks ct)" using p(1) by (simp add: traverse_Inr_iff)
  ultimately show ?thesis using totalOrder_partition [OF p(2) assms(2)] unfolding ordered_state_def list_all_iff by auto
qed

lemma states_ordered:
  assumes "statesFromCuts2 V cuts clocks logs = Inr states" and "idClockMapper V clocks = Inr ids"
  shows "list_all2 (\<lambda>ct st. ordered_state st \<and> state_Cut st = ct \<and> length (state_Points st) = length (Clocks ct) \<and>
    list_all (successively (sends_to V ct clocks ids)) (state_TotalOrdering st)) cuts states"
  using assms(1) unfolding statesFromCuts2_def assms(2)
  by (auto simp: rbind_eq_Inr traverse_Inr_iff list_all2_conv_all_nth simp del: split_paired_All dest!: cut_state_ordered [OF _ assms(2)])

lemma states_all_ordered:
  assumes "statesFromCuts2 V cuts clocks logs = Inr states"
  shows "list_all ordered_state states"
proof -
  obtain ids where "idClockMapper V clocks = Inr ids" using assms by (auto simp: statesFromCuts2_def rbind_eq_Inr)
  from states_ordered [OF assms this] show ?thesis by (auto simp: list_all2_conv_all_nth list_all_length)
qed

lemma length_pairs:
  assumes "[] \<notin> set css"
  shows "length (concat (map (\<lambda>chain. map (f chain) [0..<length chain - 1]) css)) + length css = length (concat css)"
  using assms
proof (induction css)
  case (Cons c cs)
  then show ?case by (cases c) simp_all
qed simp

lemma ordered_length: "ordered_state st \<Longrightarrow> length (concat (state_TotalOrdering st)) = length (state_Points st)"
  unfolding ordered_state_def by (metis card_lessThan distinct_card)

lemma plan_of_name:
  "plan_of ''TOLN'' = TOLN" "plan_of ''SRM'' = SRM" "plan_of ''ETM'' = ETM" "plan_of ''SCM'' = SCM" "plan_of ''NONE'' = NonePlan"
  by (simp_all add: plan_of_def)

lemma run_plan_dump:
  assumes "list_all ordered_state states" and "run_plan V k states = Inr m" and "k \<noteq> NilPlan"
  shows "list_all2 (\<lambda>st ps. \<forall>p \<in> set ps. mset (Dump p) \<subseteq># mset (concat (map Dump (state_Points st)))) states m"
  using assms(2,3) toln.plan_dump [OF assms(1), of V m] srm.plan_dump [OF assms(1), of V m] etm.plan_dump [OF assms(1), of V m]
    scm.plan_dump [OF assms(1), of V m] none.plan_dump [OF assms(1), of m]
  by (cases k) (simp_all add: run_plan_def)

lemma plans_on_ordered:
  assumes o: "list_all ordered_state states"
  shows "run_plan V TOLN states =
      Inr (map (\<lambda>st. map (\<lambda>chain. mergePoints V (map (\<lambda>h. state_Points st ! h) chain)) (state_TotalOrdering st)) states)"
    and "list_all (\<lambda>st.
      mset (concat (map Dump (map (\<lambda>chain. mergePoints V (map (\<lambda>h. state_Points st ! h) chain)) (state_TotalOrdering st)))) =
      mset (concat (map Dump (state_Points st)))) states"
    and "\<exists>m. run_plan V SRM states = Inr m \<and> list_all2 (\<lambda>st ps.
      length ps + length (state_TotalOrdering st) = length (state_Points st) \<and>
      ps = concat (map (\<lambda>chain. map (\<lambda>k. mergePoints V [state_Points st ! (chain ! k), state_Points st ! (chain ! Suc k)])
        [0..<length chain - 1]) (state_TotalOrdering st))) states m"
    and "run_plan V ETM states = Inr (map (\<lambda>st. [mergePoints V (state_Points st)]) states)"
    and "\<exists>m. run_plan V SCM states = Inr m \<and> list_all2 (\<lambda>st ps.
      if list_ex (\<lambda>p. Id p = []) (state_Points st) then ps = []
      else \<exists>qs. mset qs = mset (state_Points st) \<and> sorted (map Id qs) \<and> ps = [mergePoints V qs]) states m"
    and "run_plan V NonePlan states = Inr (map (\<lambda>_. []) states)"
proof -
  show "run_plan V TOLN states =
      Inr (map (\<lambda>st. map (\<lambda>chain. mergePoints V (map (\<lambda>h. state_Points st ! h) chain)) (state_TotalOrdering st)) states)"
    using toln.plan_merges [OF o] by (simp add: run_plan_def chain_groups_def comp_def)
  show "list_all (\<lambda>st.
      mset (concat (map Dump (map (\<lambda>chain. mergePoints V (map (\<lambda>h. state_Points st ! h) chain)) (state_TotalOrdering st)))) =
      mset (concat (map Dump (state_Points st)))) states"
    using o toln.groups_conserve [OF chain_groups_all, of _ V] by (auto simp: list_all_iff chain_groups_def comp_def)
  let ?srm = "\<lambda>st. concat (map (\<lambda>chain. map (\<lambda>k. mergePoints V [state_Points st ! (chain ! k), state_Points st ! (chain ! Suc k)])
        [0..<length chain - 1]) (state_TotalOrdering st))"
  have "run_plan V SRM states = Inr (map ?srm states)"
    using srm.plan_merges [OF o] by (simp add: run_plan_def pair_groups_def map_concat comp_def)
  moreover have "length (?srm st) + length (state_TotalOrdering st) = length (state_Points st)" if "st \<in> set states" for st
    using o that length_pairs [of "state_TotalOrdering st"] ordered_length [of st] by (simp add: list_all_iff ordered_state_def)
  ultimately show "\<exists>m. run_plan V SRM states = Inr m \<and> list_all2 (\<lambda>st ps.
      length ps + length (state_TotalOrdering st) = length (state_Points st) \<and> ps = ?srm st) states m"
    by (simp add: list_all2_conv_all_nth)
  show "run_plan V ETM states = Inr (map (\<lambda>st. [mergePoints V (state_Points st)]) states)"
    using etm.plan_merges [OF o] by (simp add: run_plan_def)
  show "\<exists>m. run_plan V SCM states = Inr m \<and> list_all2 (\<lambda>st ps.
      if list_ex (\<lambda>p. Id p = []) (state_Points st) then ps = []
      else \<exists>qs. mset qs = mset (state_Points st) \<and> sorted (map Id qs) \<and> ps = [mergePoints V qs]) states m"
    using scm.plan_merges [OF o, of V] sort_ById_perm by (auto simp: run_plan_def list_all2_conv_all_nth)
  show "run_plan V NonePlan states = Inr (map (\<lambda>_. []) states)"
    using none.plan_merges [OF o] by (simp add: run_plan_def)
qed

lemma plans_on_states:
  assumes "statesFromCuts2 V cuts clocks logs = Inr states" and "idClockMapper V clocks = Inr ids"
  shows "list_all2 (\<lambda>ct st. state_Cut st = ct \<and> length (state_Points st) = length (Clocks ct) \<and>
        distinct (concat (state_TotalOrdering st)) \<and>
        set (concat (state_TotalOrdering st)) = {..<length (state_Points st)} \<and> [] \<notin> set (state_TotalOrdering st) \<and>
        list_all (successively (sends_to V ct clocks ids)) (state_TotalOrdering st)) cuts states \<and>
    run_plan V (plan_of ''TOLN'') states =
      Inr (map (\<lambda>st. map (\<lambda>chain. mergePoints V (map (\<lambda>h. state_Points st ! h) chain)) (state_TotalOrdering st)) states) \<and>
    list_all (\<lambda>st.
      mset (concat (map Dump (map (\<lambda>chain. mergePoints V (map (\<lambda>h. state_Points st ! h) chain)) (state_TotalOrdering st)))) =
      mset (concat (map Dump (state_Points st)))) states \<and>
    (\<exists>m. run_plan V (plan_of ''SRM'') states = Inr m \<and> list_all2 (\<lambda>st ps.
      length ps + length (state_TotalOrdering st) = length (state_Points st) \<and>
      ps = concat (map (\<lambda>chain. map (\<lambda>k. mergePoints V [state_Points st ! (chain ! k), state_Points st ! (chain ! Suc k)])
        [0..<length chain - 1]) (state_TotalOrdering st))) states m) \<and>
    run_plan V (plan_of ''ETM'') states = Inr (map (\<lambda>st. [mergePoints V (state_Points st)]) states) \<and>
    (\<exists>m. run_plan V (plan_of ''SCM'') states = Inr m \<and> list_all2 (\<lambda>st ps.
      if list_ex (\<lambda>p. Id p = []) (state_Points st) then ps = []
      else \<exists>qs. mset qs = mset (state_Points st) \<and> sorted (map Id qs) \<and> ps = [mergePoints V qs]) states m) \<and>
    run_plan V (plan_of ''NONE'') states = Inr (map (\<lambda>_. []) states) \<and>
    (\<forall>name. name \<notin> {''TOLN'', ''SRM'', ''ETM'', ''SCM'', ''NONE''} \<longrightarrow>
      run_plan V (plan_of name) states = Inl (Fatal ''Error Invalid Merge Plan'')) \<and>
    (\<forall>name m. run_plan V (plan_of name) states = Inr m \<longrightarrow> list_all2 (\<lambda>st ps.
      \<forall>p \<in> set ps. mset (Dump p) \<subseteq># mset (concat (map Dump (state_Points st)))) states m)"
  unfolding plan_of_name
proof (intro conjI allI impI)
  note o = states_all_ordered [OF assms(1)]
  show "list_all2 (\<lambda>ct st. state_Cut st = ct \<and> length (state_Points st) = length (Clocks ct) \<and>
        distinct (concat (state_TotalOrdering st)) \<and>
        set (concat (state_TotalOrdering st)) = {..<length (state_Points st)} \<and> [] \<notin> set (state_TotalOrdering st) \<and>
        list_all (successively (sends_to V ct clocks ids)) (state_TotalOrdering st)) cuts states"
    using states_ordered [OF assms] by (rule list.rel_mono_strong) (simp add: ordered_state_def)
  show "run_plan V (plan_of name) states = Inl (Fatal ''Error Invalid Merge Plan'')"
    if "name \<notin> {''TOLN'', ''SRM'', ''ETM'', ''SCM'', ''NONE''}" for name
    using that by (simp add: plan_of_def run_plan_def)
  show "list_all2 (\<lambda>st ps. \<forall>p \<in> set ps. mset (Dump p) \<subseteq># mset (concat (map Dump (state_Points st)))) states m"
    if "run_plan V (plan_of name) states = Inr m" for name m
    using that by (intro run_plan_dump [OF o]) (auto simp: plan_of_def split: if_splits)
qed (fact plans_on_ordered [OF states_all_ordered [OF assms(1)]])+

section \<open>Trace files\<close>

abbreviation todo :: "(Point \<times> bool) list \<Rightarrow> Point list" where
  "todo ps \<equiv> map fst (filter (\<lambda>e. \<not> snd e) ps)"

lemma trace_scan_some:
  "\<exists>r. trace_scan (Some n) ps = (Some n, filter (\<lambda>p. Id p = n) (todo ps), r) \<and> todo r = filter (\<lambda>p. Id p \<noteq> n) (todo ps)"
proof (induction ps)
  case (Cons e ps)
  then obtain r where "trace_scan (Some n) ps = (Some n, filter (\<lambda>p. Id p = n) (todo ps), r)"
    "todo r = filter (\<lambda>p. Id p \<noteq> n) (todo ps)" by blast
  then show ?case by (cases e) auto
qed simp

lemma trace_scan_none:
  "(case todo ps of
      [] \<Rightarrow> fst (trace_scan None ps) = None
    | p # us \<Rightarrow> \<exists>r. trace_scan None ps = (Some (Id p), filter (\<lambda>q. Id q = Id p) (p # us), r) \<and> todo r = filter (\<lambda>q. Id q \<noteq> Id p) us)"
proof (induction ps)
  case (Cons e ps)
  obtain p w where e: "e = (p, w)" by force
  show ?case
  proof (cases w)
    case True
    with Cons e show ?thesis by (auto split: list.splits prod.splits)
  next
    case False
    with e trace_scan_some [of "Id p" ps] show ?thesis by auto
  qed
qed simp

lemma trace_groups_spec:
  "distinct (map fst (trace_groups ps)) \<and>
   set (trace_groups ps) = (\<lambda>i. (i, filter (\<lambda>p. Id p = i) (todo ps))) ` Id ` set (todo ps)"
proof (induction "unwritten ps" arbitrary: ps rule: less_induct)
  case less
  show ?case
  proof (cases "todo ps")
    case Nil
    then have "fst (trace_scan None ps) = None" using trace_scan_none [of ps] by (simp del: filter_False)
    then have "trace_groups ps = []" by (subst trace_groups.simps) (auto split: prod.splits)
    with Nil show ?thesis by simp
  next
    case (Cons p us)
    then obtain r where r: "trace_scan None ps = (Some (Id p), filter (\<lambda>q. Id q = Id p) (p # us), r)"
      "todo r = filter (\<lambda>q. Id q \<noteq> Id p) us"
      using trace_scan_none [of ps] by auto
    then have g: "trace_groups ps = (Id p, filter (\<lambda>q. Id q = Id p) (todo ps)) # trace_groups r"
      using Cons by (subst trace_groups.simps) simp
    have IH: "distinct (map fst (trace_groups r)) \<and>
        set (trace_groups r) = (\<lambda>i. (i, filter (\<lambda>p. Id p = i) (todo r))) ` Id ` set (todo r)"
      using less trace_scan_less [OF r(1)] by blast
    have "set (trace_groups r) = (\<lambda>i. (i, filter (\<lambda>q. Id q = i) (todo ps))) ` (Id ` set us - {Id p})"
    proof -
      have "filter (\<lambda>q. Id q = i) (todo r) = filter (\<lambda>q. Id q = i) (todo ps)" if "i \<noteq> Id p" for i
        unfolding r(2) Cons using that by (auto intro: filter_cong)
      moreover have "Id ` set (todo r) = Id ` set us - {Id p}" unfolding r(2) by auto
      ultimately show ?thesis using conjunct2 [OF IH] by (auto cong: image_cong_simp)
    qed
    then show ?thesis unfolding g using IH Cons by (auto simp: image_iff)
  qed
qed

section \<open>Filtered states\<close>

lemma filter_total_spec:
  assumes "successively (\<lambda>a b. HappenedBefore V (state_Cut a) (state_Cut b)) fs" and "fs \<noteq> []"
  shows "\<exists>gs. foldl (\<lambda>fs st. if HappenedBefore V (state_Cut (last fs)) (state_Cut st) then fs @ [st] else fs) fs sts = fs @ gs \<and>
    subseq gs sts \<and> successively (\<lambda>a b. HappenedBefore V (state_Cut a) (state_Cut b)) (fs @ gs)"
  using assms
proof (induction sts arbitrary: fs)
  case (Cons st sts)
  show ?case
  proof (cases "HappenedBefore V (state_Cut (last fs)) (state_Cut st)")
    case True
    have "successively (\<lambda>a b. HappenedBefore V (state_Cut a) (state_Cut b)) (fs @ [st])"
      using Cons.prems True by (simp add: successively_append_iff)
    from Cons.IH [OF this] obtain gs where
      "foldl (\<lambda>fs st. if HappenedBefore V (state_Cut (last fs)) (state_Cut st) then fs @ [st] else fs) (fs @ [st]) sts = fs @ st # gs"
      "subseq gs sts" "successively (\<lambda>a b. HappenedBefore V (state_Cut a) (state_Cut b)) (fs @ st # gs)" by auto
    with True show ?thesis by (intro exI [of _ "st # gs"]) simp
  next
    case False
    with Cons.IH [OF Cons.prems] show ?thesis by auto
  qed
qed simp

section \<open>Options\<close>

lemma apply_setting_fields:
  "debug (apply_setting cfg a) = (fst a = ''debug'' \<or> debug cfg)"
  "mergePlan (apply_setting cfg a) = (if fst a = ''mergePlan'' then plan_of (snd a) else mergePlan cfg)"
  "sampleRate (apply_setting cfg a) = (if fst a = ''sampleRate'' then atoi_value (snd a) else sampleRate cfg)"
  "totallyOrderedCuts (apply_setting cfg a) = (fst a = ''totallyOrderedCuts'' \<or> totallyOrderedCuts cfg)"
  "renamingScheme (apply_setting cfg a) = (if fst a = ''renamingScheme'' then snd a else renamingScheme cfg)"
  "shiviz (apply_setting cfg a) = (fst a = ''shiviz'' \<or> shiviz cfg)"
  "jsonDPP (apply_setting cfg a) = (fst a = ''json'' \<or> jsonDPP cfg)"
  by (simp_all add: apply_setting_def split_beta)

lemma settings_commute:
  assumes "fst a \<noteq> fst b"
  shows "apply_setting (apply_setting cfg a) b = apply_setting (apply_setting cfg b) a"
proof (rule settings.equality)
  show "mergePlan (apply_setting (apply_setting cfg a) b) = mergePlan (apply_setting (apply_setting cfg b) a)"
    "sampleRate (apply_setting (apply_setting cfg a) b) = sampleRate (apply_setting (apply_setting cfg b) a)"
    "renamingScheme (apply_setting (apply_setting cfg a) b) = renamingScheme (apply_setting (apply_setting cfg b) a)"
    unfolding apply_setting_fields using assms by auto
  show "debug (apply_setting (apply_setting cfg a) b) = debug (apply_setting (apply_setting cfg b) a)"
    "totallyOrderedCuts (apply_setting (apply_setting cfg a) b) = totallyOrderedCuts (apply_setting (apply_setting cfg b) a)"
    "shiviz (apply_setting (apply_setting cfg a) b) = shiviz (apply_setting (apply_setting cfg b) a)"
    "jsonDPP (apply_setting (apply_setting cfg a) b) = jsonDPP (apply_setting (apply_setting cfg b) a)"
    unfolding apply_setting_fields by blast+
qed simp

lemma options_perm:
  assumes "distinct (map fst opts)" and "mset opts' = mset opts"
  shows "initalizeLogMerger opts' cfg = initalizeLogMerger opts cfg"
proof -
  have "fold (\<lambda>a c. apply_setting c a) opts = fold (\<lambda>a c. apply_setting c a) opts'"
  proof (rule fold_multiset_equiv)
    fix a b
    assume "a \<in> set opts" "b \<in> set opts"
    then have "a = b \<or> fst a \<noteq> fst b" using assms(1) by (auto simp: distinct_map dest: inj_onD)
    then show "(\<lambda>c. apply_setting c a) \<circ> (\<lambda>c. apply_setting c b) = (\<lambda>c. apply_setting c b) \<circ> (\<lambda>c. apply_setting c a)"
      using settings_commute [of a b] by (auto simp: fun_eq_iff)
  qed (simp add: assms(2))
  then show ?thesis by (simp add: initalizeLogMerger_def foldl_conv_fold)
qed

section \<open>Mined states\<close>

text \<open>Every entry of every log has a point under its host and tick.\<close>

definition complete_points :: "'c vclock_ops \<Rightarrow> string list \<Rightarrow> 'c list list \<Rightarrow> point_maps \<Rightarrow> bool" where
  "complete_points V ids clocks m \<longleftrightarrow>
     list_all (\<lambda>k. case gomap_get m (ids ! k) of
         None \<Rightarrow> False
       | Some pm \<Rightarrow> list_all (\<lambda>c. gomap_get pm (ticks V c (ids ! k)) \<noteq> None) (clocks ! k)) [0..<length clocks]"

definition point_at :: "'c vclock_ops \<Rightarrow> string list \<Rightarrow> point_maps \<Rightarrow> nat \<Rightarrow> 'c \<Rightarrow> Point" where
  "point_at V ids m k c = the (gomap_get (the (gomap_get m (ids ! k))) (ticks V c (ids ! k)))"

context vclock_api
begin

lemma cut_state_ok:
  assumes mapper: "idClockMapper V clocks = Inr ids" and m: "complete_points V ids clocks m"
    and q: "\<And>k. k < length clocks \<Longrightarrow> 0 < q ! k \<and> q ! k \<le> length (clocks ! k)"
  shows "\<exists>st. cut_state V ids clocks (\<lambda>i clock. rbind (index_go ids i) (\<lambda>h.
           case gomap_get m h of None \<Rightarrow> Inl (Fatal ''UNABLE TO LOCATE LOG'')
           | Some pm \<Rightarrow> (case gomap_get pm (ticks V clock h) of None \<Rightarrow> Inl (Fatal ''UNABLE TO LOCATE LOG'') | Some p \<Rightarrow> Inr p)))
         (cut_clocks clocks q) = Inr st \<and> state_Cut st = cut_clocks clocks q \<and>
       state_Points st = map (\<lambda>k. point_at V ids m k (clocks ! k ! (q ! k - 1))) [0..<length clocks]"
proof -
  let ?n = "length clocks" and ?ct = "cut_clocks clocks q"
  have len: "length ids = ?n" using mapper by (simp add: idClockMapper_def traverse_Inr_iff)
  have ct: "length (Clocks ?ct) = ?n" "\<And>k. k < ?n \<Longrightarrow> Clocks ?ct ! k = clocks ! k ! (q ! k - 1)" by (simp_all add: cut_clocks_def)
  obtain orders where o: "totalOrderFromCut V ?ct clocks = Inr orders" using totalOrder_total [OF mapper, of ?ct] ct(1) by auto
  have pts: "traverse (\<lambda>i. rbind (index_go ids i) (\<lambda>h.
           case gomap_get m h of None \<Rightarrow> Inl (Fatal ''UNABLE TO LOCATE LOG'')
           | Some pm \<Rightarrow> (case gomap_get pm (ticks V (Clocks ?ct ! i) h) of None \<Rightarrow> Inl (Fatal ''UNABLE TO LOCATE LOG'') | Some p \<Rightarrow> Inr p)))
         [0..<length (Clocks ?ct)] = Inr (map (\<lambda>k. point_at V ids m k (clocks ! k ! (q ! k - 1))) [0..<length (Clocks ?ct)])"
  proof (rule traverse_pure)
    fix k
    assume "k \<in> set [0..<length (Clocks ?ct)]"
    then have k: "k < ?n" using ct(1) by simp
    have "case gomap_get m (ids ! k) of None \<Rightarrow> False
        | Some pm \<Rightarrow> list_all (\<lambda>c. gomap_get pm (ticks V c (ids ! k)) \<noteq> None) (clocks ! k)"
      using bspec [OF m [unfolded complete_points_def list_all_iff [of _ "[0..<length clocks]"]], of k] k by simp
    then obtain pm where pm: "gomap_get m (ids ! k) = Some pm"
      "\<And>c. c \<in> set (clocks ! k) \<Longrightarrow> gomap_get pm (ticks V c (ids ! k)) \<noteq> None"
      by (cases "gomap_get m (ids ! k)") (auto simp: list_all_iff)
    have "clocks ! k ! (q ! k - 1) \<in> set (clocks ! k)" using q [OF k] by (intro nth_mem) linarith
    then obtain p where "gomap_get pm (ticks V (clocks ! k ! (q ! k - 1)) (ids ! k)) = Some p" using pm(2) by blast
    then show "rbind (index_go ids k) (\<lambda>h. case gomap_get m h of None \<Rightarrow> Inl (Fatal ''UNABLE TO LOCATE LOG'')
           | Some pm \<Rightarrow> (case gomap_get pm (ticks V (Clocks ?ct ! k) h) of None \<Rightarrow> Inl (Fatal ''UNABLE TO LOCATE LOG'') | Some p \<Rightarrow> Inr p))
         = Inr (point_at V ids m k (clocks ! k ! (q ! k - 1)))"
      using k len pm(1) ct(2) [OF k] by (simp add: point_at_def)
  qed
  show ?thesis unfolding cut_state_def pts using o ct(1) by simp
qed

lemma mined_states:
  assumes logs: "causal_logs V ids clocks" "idClockMapper V clocks = Inr ids"
    and R: "runtime_ok R" and split: "even_split R V ids clocks"
    and mem: "card {q. consistent_cut V ids clocks q} \<le> 5000000" and two: "2 \<le> length clocks"
    and height: "height V ids clocks < 2 ^ 63"
    and golog: "map log_clocks clockLogs = clocks" and m: "pointsToMaps V plogs = Inr m" "complete_points V ids clocks m"
  shows "\<exists>states. mineStates R V plogs clockLogs = Some (Inr states) \<and>
    (\<lambda>st. (state_Cut st, state_Points st)) ` set states =
      {(cut_clocks clocks q, map (\<lambda>k. point_at V ids m k (clocks ! k ! (q ! k - 1))) [0..<length clocks]) | q.
         consistent_cut V ids clocks q \<and> in_flight V ids clocks q = {}}"
proof -
  let ?Q = "{q. consistent_cut V ids clocks q \<and> in_flight V ids clocks q = {}}"
  let ?pts = "\<lambda>q. map (\<lambda>k. point_at V ids m k (clocks ! k ! (q ! k - 1))) [0..<length clocks]"
  let ?loc = "\<lambda>i clock. rbind (index_go ids i) (\<lambda>h.
           case gomap_get m h of None \<Rightarrow> Inl (Fatal ''UNABLE TO LOCATE LOG'')
           | Some pm \<Rightarrow> (case gomap_get pm (ticks V clock h) of None \<Rightarrow> Inl (Fatal ''UNABLE TO LOCATE LOG'') | Some p \<Rightarrow> Inr p))"
  obtain lw delta cuts lw' where mined: "BuildLattice5 R V clocks = Some (Inr lw)" "enumerateCommunication V clocks = Inr delta"
    "mineConsistentCuts2 R V lw clocks delta = Some (Inr (cuts, lw'))" "set cuts = cut_clocks clocks ` ?Q"
    using mined_cuts [OF logs R split mem two height] by (auto simp: setcompr_eq_image)
  have ex: "\<exists>st. cut_state V ids clocks ?loc (cut_clocks clocks q) = Inr st \<and> state_Cut st = cut_clocks clocks q \<and> state_Points st = ?pts q"
    if "q \<in> ?Q" for q
    using that causal_logsD(2) [OF logs(1)] by (intro cut_state_ok [OF logs(2) m(2)]) (auto simp: consistent_cut_def cut_of_def)
  define f where "f ct = (case cut_state V ids clocks ?loc ct of Inr st \<Rightarrow> st | Inl _ \<Rightarrow> undefined)" for ct
  have f: "cut_state V ids clocks ?loc (cut_clocks clocks q) = Inr (f (cut_clocks clocks q))"
    "state_Cut (f (cut_clocks clocks q)) = cut_clocks clocks q" "state_Points (f (cut_clocks clocks q)) = ?pts q" if "q \<in> ?Q" for q
    using ex [OF that] by (auto simp: f_def)
  have "statesFromCuts2 V cuts clocks plogs = Inr (map f cuts)"
    unfolding statesFromCuts2_def using logs(2) m(1) f mined(4) by (auto intro!: traverse_pure)
  then have "mineStates R V plogs clockLogs = Some (Inr (map f cuts))"
    using mined(1-3) golog by (simp add: mineStates_def VectorClockArraysFromGoVectorLogs_def)
  moreover have "(\<lambda>st. (state_Cut st, state_Points st)) ` set (map f cuts) = (\<lambda>q. (cut_clocks clocks q, ?pts q)) ` ?Q"
    using f by (auto simp: mined(4) image_image intro!: image_cong)
  ultimately show ?thesis by (auto simp: setcompr_eq_image)
qed

end

section \<open>Properties\<close>

text \<open>
  C1: the assembly line from clock logs to states. For the logs of an execution as in the lattice
  theorem, with a point recorded under every tick of every host, \<open>mineStates\<close> returns; its states
  are, for every consistent cut without messages in flight and for no other vector, the clocks of
  the cut together with the points recorded at the last event of every host.
\<close>

theorem mineStates_correct:
  assumes "vclock_api V" and "runtime_ok R" and "idClockMapper V clocks = Inr ids" and "causal_logs V ids clocks"
    and "2 \<le> length clocks" and "even_split R V ids clocks" and "height V ids clocks < 2 ^ 63"
    and "card {q. consistent_cut V ids clocks q} \<le> 5000000"
    and "map log_clocks clockLogs = clocks" and "pointsToMaps V plogs = Inr m" and "complete_points V ids clocks m"
  shows "\<exists>states. mineStates R V plogs clockLogs = Some (Inr states) \<and>
    (\<lambda>st. (state_Cut st, state_Points st)) ` set states =
      {(cut_clocks clocks q, map (\<lambda>k. point_at V ids m k (clocks ! k ! (q ! k - 1))) [0..<length clocks]) | q.
         consistent_cut V ids clocks q \<and> in_flight V ids clocks q = {}}"
  by (rule vclock_api.mined_states [OF assms(1,4,3,2,6,8,5,7,9,10,11)])

definition ping_logs :: "(string \<times> u64) list golog list" where
  "ping_logs = map (\<lambda>cs. \<lparr>log_id = fst (hd (last cs)), log_clocks = cs, log_messages = [''m'', ''m'']\<rparr>) ping_clocks"

definition ping_points :: "Point list list" where
  "ping_points = map (map (blank_point alist_clock)) ping_clocks"

lemma ping_point_clock: "point_clock alist_clock (blank_point alist_clock c) = c"
  by (simp add: point_clock_def blank_point_def zero_point_def alist_clock_def alist_bytes)

definition ping_map :: point_maps where
  "ping_map = [(''a'', [(1, blank_point alist_clock [(''a'', 1)]), (2, blank_point alist_clock [(''a'', 2)])]),
     (''b'', [(1, blank_point alist_clock [(''b'', 1)]), (2, blank_point alist_clock [(''a'', 2), (''b'', 2)])])]"

lemma ping_maps: "pointsToMaps alist_clock ping_points = Inr ping_map"
proof -
  have "getClockId alist_clock [[(''a'', 1)]] = Inr ''a''" "getClockId alist_clock [[(''b'', 1)]] = Inr ''b''" by code_simp+
  then show ?thesis
    by (simp add: pointsToMaps_def ping_points_def ping_clocks_def ping_map_def ping_point_clock point_map_of_def
        alist_FindTicks alist_find_def)
qed

lemma ping_complete: "complete_points alist_clock [''a'', ''b''] ping_clocks ping_map"
  by (simp add: complete_points_def ping_clocks_def ping_map_def alist_FindTicks alist_find_def upt_rec)

theorem mineStates_correct_witness:
  "\<exists>states. mineStates one_cpu alist_clock ping_points ping_logs = Some (Inr states) \<and>
    (\<lambda>st. (state_Cut st, state_Points st)) ` set states =
      {(cut_clocks ping_clocks q, map (\<lambda>k. point_at alist_clock [''a'', ''b''] ping_map k (ping_clocks ! k ! (q ! k - 1)))
          [0..<length ping_clocks]) | q.
         consistent_cut alist_clock [''a'', ''b''] ping_clocks q \<and> in_flight alist_clock [''a'', ''b''] ping_clocks q = {}}"
  by (rule mineStates_correct [OF alist.vclock_api_axioms one_cpu_ok ping_ids ping_causal _ one_cpu_split
        ping_height ping_cuts _ ping_maps ping_complete]) (simp_all add: ping_clocks_def ping_logs_def)

text \<open>
  C13: the merge plans, by the names of the option \<open>mergePlan\<close>. For states built from cuts by
  \<open>statesFromCuts2\<close> the total ordering of every state splits its hosts into non-empty chains in which
  every host but the first sent the message the one before it received, and no plan panics.
  \<open>TOLN\<close> returns for every state one point per chain, the merge of the points of the chain in its
  order; these points together hold every value dumped in the state exactly as often as it was
  dumped there. \<open>SRM\<close> returns one point per two neighbours of a chain, so as many as there are hosts
  less chains. \<open>ETM\<close> returns one point that merges all points of the state. \<open>SCM\<close> returns nothing for a
  state in which a point has no id and otherwise one point that merges all of them in the order of
  their ids. \<open>NONE\<close> returns nothing for any state, and every other name ends in \<open>Fatalf\<close>. No merged
  point of any plan has a value more often than its state dumped it.
\<close>

theorem merge_plans_correct:
  assumes "statesFromCuts2 V cuts clocks logs = Inr states" and "idClockMapper V clocks = Inr ids"
  shows "list_all2 (\<lambda>ct st. state_Cut st = ct \<and> length (state_Points st) = length (Clocks ct) \<and>
        distinct (concat (state_TotalOrdering st)) \<and>
        set (concat (state_TotalOrdering st)) = {..<length (state_Points st)} \<and> [] \<notin> set (state_TotalOrdering st) \<and>
        list_all (successively (sends_to V ct clocks ids)) (state_TotalOrdering st)) cuts states \<and>
    run_plan V (plan_of ''TOLN'') states =
      Inr (map (\<lambda>st. map (\<lambda>chain. mergePoints V (map (\<lambda>h. state_Points st ! h) chain)) (state_TotalOrdering st)) states) \<and>
    list_all (\<lambda>st.
      mset (concat (map Dump (map (\<lambda>chain. mergePoints V (map (\<lambda>h. state_Points st ! h) chain)) (state_TotalOrdering st)))) =
      mset (concat (map Dump (state_Points st)))) states \<and>
    (\<exists>m. run_plan V (plan_of ''SRM'') states = Inr m \<and> list_all2 (\<lambda>st ps.
      length ps + length (state_TotalOrdering st) = length (state_Points st) \<and>
      ps = concat (map (\<lambda>chain. map (\<lambda>k. mergePoints V [state_Points st ! (chain ! k), state_Points st ! (chain ! Suc k)])
        [0..<length chain - 1]) (state_TotalOrdering st))) states m) \<and>
    run_plan V (plan_of ''ETM'') states = Inr (map (\<lambda>st. [mergePoints V (state_Points st)]) states) \<and>
    (\<exists>m. run_plan V (plan_of ''SCM'') states = Inr m \<and> list_all2 (\<lambda>st ps.
      if list_ex (\<lambda>p. Id p = []) (state_Points st) then ps = []
      else \<exists>qs. mset qs = mset (state_Points st) \<and> sorted (map Id qs) \<and> ps = [mergePoints V qs]) states m) \<and>
    run_plan V (plan_of ''NONE'') states = Inr (map (\<lambda>_. []) states) \<and>
    (\<forall>name. name \<notin> {''TOLN'', ''SRM'', ''ETM'', ''SCM'', ''NONE''} \<longrightarrow>
      run_plan V (plan_of name) states = Inl (Fatal ''Error Invalid Merge Plan'')) \<and>
    (\<forall>name m. run_plan V (plan_of name) states = Inr m \<longrightarrow> list_all2 (\<lambda>st ps.
      \<forall>p \<in> set ps. mset (Dump p) \<subseteq># mset (concat (map Dump (state_Points st)))) states m)"
  by (rule plans_on_states [OF assms])

definition pong_point :: Point where
  "pong_point = \<lparr>Dump = [\<lparr>VarName = ''y'', Value = VInt 9, Type = ''int''\<rparr>], Id = ''b_1'',
     VectorClock = enc_entries [(''a'', 2), (''b'', 2)], CommunicationDelta = 0\<rparr>"

definition ping_state :: "(string \<times> u64) list State" where
  "ping_state = \<lparr>state_Cut = cut_clocks ping_clocks [2, 2], state_Points = [solo_point, pong_point], state_TotalOrdering = [[1, 0]]\<rparr>"

lemma pong_point_clock: "point_clock alist_clock pong_point = [(''a'', 2), (''b'', 2)]"
  by (simp add: point_clock_def pong_point_def alist_clock_def alist_bytes del: enc_entries.simps)

lemma ping_order: "totalOrderFromCut alist_clock (cut_clocks ping_clocks [2, 2]) ping_clocks = Inr [[1, 0]]"
  by code_simp

definition ping_dumps :: "Point list list" where
  "ping_dumps = [[blank_point alist_clock [(''a'', 1)], solo_point], [blank_point alist_clock [(''b'', 1)], pong_point]]"

lemma ping_dumped: "pointsToMaps alist_clock ping_dumps =
   Inr [(''a'', [(1, blank_point alist_clock [(''a'', 1)]), (2, solo_point)]), (''b'', [(1, blank_point alist_clock [(''b'', 1)]), (2, pong_point)])]"
proof -
  have "getClockId alist_clock [[(''a'', 1)]] = Inr ''a''" "getClockId alist_clock [[(''b'', 1)]] = Inr ''b''" by code_simp+
  then show ?thesis
    by (simp add: pointsToMaps_def ping_dumps_def ping_point_clock solo_point_clock pong_point_clock point_map_of_def
        alist_FindTicks alist_find_def)
qed

lemma ping_built: "statesFromCuts2 alist_clock [cut_clocks ping_clocks [2, 2]] ping_clocks ping_dumps = Inr [ping_state]"
  by (simp add: statesFromCuts2_def ping_ids ping_dumped cut_state_def ping_order ping_state_def)
    (simp add: cut_clocks_def ping_clocks_def alist_FindTicks alist_find_def upt_rec index_go_def)

theorem merge_plans_correct_witness:
  "run_plan alist_clock (plan_of ''TOLN'') [ping_state] = Inr [[mergePoints alist_clock [pong_point, solo_point]]] \<and>
   run_plan alist_clock (plan_of ''SRM'') [ping_state] = Inr [[mergePoints alist_clock [pong_point, solo_point]]] \<and>
   run_plan alist_clock (plan_of ''ETM'') [ping_state] = Inr [[mergePoints alist_clock [solo_point, pong_point]]] \<and>
   (\<exists>qs. run_plan alist_clock (plan_of ''SCM'') [ping_state] = Inr [[mergePoints alist_clock qs]] \<and>
      mset qs = {#solo_point, pong_point#} \<and> sorted (map Id qs)) \<and>
   run_plan alist_clock (plan_of ''NONE'') [ping_state] = Inr [[]] \<and>
   run_plan alist_clock (plan_of ''scm'') [ping_state] = Inl (Fatal ''Error Invalid Merge Plan'')"
proof -
  note plans = merge_plans_correct [OF ping_built ping_ids]
  have "solo_point \<noteq> pong_point" "Id solo_point \<noteq> []" "Id pong_point \<noteq> []" by (simp_all add: solo_point_def pong_point_def)
  moreover have pts: "state_Points ping_state = [solo_point, pong_point]" "state_TotalOrdering ping_state = [[1, 0]]"
    by (simp_all add: ping_state_def)
  moreover have "run_plan alist_clock (plan_of ''SRM'') [ping_state] = Inr [[mergePoints alist_clock [pong_point, solo_point]]]"
    using plans [THEN conjunct2, THEN conjunct2, THEN conjunct2, THEN conjunct1] by (auto simp: list_all2_Cons1 pts)
  moreover obtain m' where "run_plan alist_clock (plan_of ''SCM'') [ping_state] = Inr m'" "list_all2 (\<lambda>st ps.
      if list_ex (\<lambda>p. Id p = []) (state_Points st) then ps = []
      else \<exists>qs. mset qs = mset (state_Points st) \<and> sorted (map Id qs) \<and> ps = [mergePoints alist_clock qs]) [ping_state] m'"
    using plans [THEN conjunct2, THEN conjunct2, THEN conjunct2, THEN conjunct2, THEN conjunct2, THEN conjunct1] by blast
  moreover have "run_plan alist_clock (plan_of ''scm'') [ping_state] = Inl (Fatal ''Error Invalid Merge Plan'')"
    using plans [THEN conjunct2, THEN conjunct2, THEN conjunct2, THEN conjunct2, THEN conjunct2, THEN conjunct2, THEN conjunct2, THEN conjunct1] by simp
  ultimately show ?thesis
    using plans [THEN conjunct2, THEN conjunct1] plans [THEN conjunct2, THEN conjunct2, THEN conjunct2, THEN conjunct2, THEN conjunct1]
      plans [THEN conjunct2, THEN conjunct2, THEN conjunct2, THEN conjunct2, THEN conjunct2, THEN conjunct2, THEN conjunct1]
    by (auto simp: list_all2_Cons1)
qed

text \<open>
  C14: \<open>mergePoints\<close> concatenates the dumps and the ids of its points (each id after an underscore)
  and takes, host by host, the largest tick of their clocks.
\<close>

theorem mergePoints_correct:
  assumes "vclock_api V"
  shows "Dump (mergePoints V ps) = concat (map Dump ps) \<and>
    Id (mergePoints V ps) = concat (map (\<lambda>p. CHR ''_'' # Id p) ps) \<and>
    (\<forall>i. FindTicks V (point_clock V (mergePoints V ps)) i =
      (foldl max 0 (map (\<lambda>p. ticks V (point_clock V p) i) ps), list_ex (\<lambda>p. has_id V (point_clock V p) i) ps))"
  using mergePoints_dump [of V ps] mergePoints_id [of V ps] vclock_api.mergePoints_find [OF assms] by blast

theorem mergePoints_correct_witness:
  "Dump (mergePoints alist_clock [solo_point, solo_point]) = Dump solo_point @ Dump solo_point \<and>
    Id (mergePoints alist_clock [solo_point, solo_point]) = ''_a_1_a_1'' \<and>
    FindTicks alist_clock (point_clock alist_clock (mergePoints alist_clock [solo_point, solo_point])) ''a'' = (2, True)"
  using mergePoints_correct [OF alist.vclock_api_axioms, of "[solo_point, solo_point]"]
  by (simp add: solo_point_clock alist_FindTicks alist_find_def) (simp add: solo_point_def)

text \<open>
  C15: the loop of \<open>writeTraceFiles\<close> ends and writes, for every id among the merged points, one trace
  with exactly the points of that id in their order; no id is written twice.
\<close>

theorem trace_groups_correct:
  "distinct (map fst (trace_groups (map (\<lambda>p. (p, False)) points))) \<and>
   set (trace_groups (map (\<lambda>p. (p, False)) points)) = (\<lambda>i. (i, filter (\<lambda>p. Id p = i) points)) ` Id ` set points"
  using trace_groups_spec [of "map (\<lambda>p. (p, False)) points"] by (simp add: filter_map comp_def)

text \<open>
  \<open>writeTraceFiles\<close> overrides the options: with any setting of \<open>totallyOrderedCuts\<close> and
  \<open>sampleRate\<close> it writes the same files, so the two options of the log merger have no effect.
\<close>

theorem writeTraceFiles_ignores_options:
  "writeTraceFiles E (cfg\<lparr>totallyOrderedCuts := b, sampleRate := r\<rparr>) states fs = writeTraceFiles E cfg states fs"
  by (simp add: writeTraceFiles_def Let_def)

text \<open>
  \<open>filterTotalOrder\<close> on a non-empty list keeps the first state and a subsequence of the others in
  which the cut of every state happened before the cut of the next; on the empty list it panics.
\<close>

theorem filterTotalOrder_correct:
  "filterTotalOrder V [] = Inl IndexOutOfRange \<and>
   (\<exists>rest. filterTotalOrder V (st # sts) = Inr (st # rest) \<and> subseq rest sts \<and>
      successively (\<lambda>a b. HappenedBefore V (state_Cut a) (state_Cut b)) (st # rest))"
proof -
  have "successively (\<lambda>a b. HappenedBefore V (state_Cut a) (state_Cut b)) [st]" by simp
  from filter_total_spec [OF this] show ?thesis by (force simp: filterTotalOrder_def index_go_def)
qed

text \<open>
  The settings an option map gives do not depend on the order in which the range visits it.
\<close>

theorem initalizeLogMerger_order:
  assumes "distinct (map fst opts)" and "mset opts' = mset opts"
  shows "initalizeLogMerger opts' cfg = initalizeLogMerger opts cfg"
  by (rule options_perm [OF assms])

theorem initalizeLogMerger_order_witness:
  "initalizeLogMerger [(''json'', ''''), (''mergePlan'', ''ETM'')] default_settings =
   initalizeLogMerger [(''mergePlan'', ''ETM''), (''json'', '''')] default_settings"
  by (rule initalizeLogMerger_order) simp_all

end
