(* ===== verification/Dinv_RT.thy ===== *)
theory Dinv_RT
  imports Point_Logs
begin

text \<open>
  \<open>dinvRT/api.go\<close>: the run-time library linked into the instrumented hosts. The package
  variables are the record \<open>rt_state\<close>, each exported function maps a state to a state or to
  the panic or fatal exit it ends in. The mutexes of the package make the calls of one process
  sequential; a run is a list of calls.

  Arguments of the model are the vector clock logger of package \<open>govec\<close> (record \<open>govec\<close>) and
  the surroundings of the process (record \<open>rt_env\<close>): environment variables, the clock, the
  file system, the RPC server, the matches of the stack pattern in a profile, the JSON text of
  a value, and the order in which a range visits a map.
\<close>

section \<open>Definitions\<close>

subsection \<open>Values of interface type\<close>

datatype kind =
    KBool | KInt | KInt8 | KInt16 | KInt32 | KInt64 | KUint | KUint8 | KUint16 | KUint32 | KUint64
  | KFloat32 | KFloat64 | KString | KOther

text \<open>A non-nil interface: the name of its dynamic type, the kind of that type, the value.\<close>

record iface =
  dyn_type :: string
  dyn_kind :: kind
  dyn_value :: go_value

text \<open>Comparison of two interfaces of basic kinds, a finite float in lowest terms; nil equals only
  nil, a NaN nothing.\<close>

definition iface_eq :: "iface option \<Rightarrow> iface option \<Rightarrow> bool" where
  "iface_eq a b =
     (case (a, b) of
        (None, None) \<Rightarrow> True
      | (Some x, Some y) \<Rightarrow> x = y \<and> dyn_value x \<noteq> VNaN
      | _ \<Rightarrow> False)"

definition kind_type :: "kind \<Rightarrow> string" where
  "kind_type k =
     (if k = KBool then ''boolean''
      else if k \<in> set [KInt, KInt8, KInt16, KInt32, KInt64, KUint, KUint8, KUint16, KUint32, KUint64] then ''int''
      else if k \<in> set [KFloat32, KFloat64] then ''float''
      else if k = KString then ''string''
      else '''')"

record rt_pair =
  pair_VarName :: string
  pair_Value :: "iface option"
  pair_Type :: string

definition zero_pair :: rt_pair where
  "zero_pair = \<lparr>pair_VarName = '''', pair_Value = None, pair_Type = ''''\<rparr>"

record rt_point =
  pt_Dump :: "rt_pair list"
  pt_Id :: string
  pt_VectorClock :: bytes
  pt_CommunicationDelta :: int

subsection \<open>Dump ids, traces and requests\<close>

record LogId =
  Project :: string
  Session :: string
  LogNode :: string

record SElog =
  se_Type :: int
  Message :: string
  VC :: bytes
  se_State :: bytes
  Event :: bytes
  DumpTrace :: bytes

record PostReq =
  req_Id :: LogId
  req_Log :: SElog

definition SEND :: int where "SEND = 1"
definition REC :: int where "REC = 2"
definition LOCAL :: int where "LOCAL = 3"

record DumpID =
  Node :: string
  Function :: string
  Location :: string

definition DumpID_String :: "DumpID \<Rightarrow> string" where
  "DumpID_String d = Node d @ ''_'' @ Function d @ ''_'' @ Location d"

record DumpDiff =
  ID :: DumpID
  Diff :: "rt_pair list"

definition NewDumpDiff :: "DumpID \<Rightarrow> DumpDiff" where
  "NewDumpDiff did = \<lparr>ID = did, Diff = []\<rparr>"

definition DumpDiff_Add :: "DumpDiff \<Rightarrow> rt_pair \<Rightarrow> DumpDiff" where
  "DumpDiff_Add dd nvp = dd\<lparr>Diff := Diff dd @ [nvp]\<rparr>"

subsection \<open>State and surroundings\<close>

record ('g, 'm) govec =
  InitGoVector :: "string \<Rightarrow> string \<Rightarrow> 'g"
  PrepareSend :: "'g \<Rightarrow> string \<Rightarrow> 'm \<Rightarrow> bytes \<times> 'g"
  UnpackReceive :: "'g \<Rightarrow> string \<Rightarrow> bytes \<Rightarrow> 'm \<times> 'g"
  LogLocalEvent :: "'g \<Rightarrow> string \<Rightarrow> 'g"
  GetCurrentVC :: "'g \<Rightarrow> bytes"

record 'm rt_env =
  Getenv :: "string \<Rightarrow> string"
  Nanosecond :: nat
  create_ok :: "string \<Rightarrow> bool"
  dial_ok :: "string \<Rightarrow> bool"
  stack_matches :: "(string \<times> string) list"
  encode_other :: "iface \<Rightarrow> bool"
  marshal_state :: "rt_pair list \<Rightarrow> bytes option"
  marshal_trace :: "DumpDiff list \<Rightarrow> bytes"
  msg_fields :: "'m option \<Rightarrow> (string \<times> bytes) list"
  marshal_fields :: "(string \<times> bytes option) list \<Rightarrow> bytes"
  rpc_Log :: "PostReq \<Rightarrow> LogId"
  range_keys :: "string list \<Rightarrow> string list"
  Hash :: "string \<Rightarrow> string"

text \<open>
  The package variables. \<open>Encoder\<close> is \<open>None\<close> when nil and otherwise the points written to
  its file; \<open>varStore\<close> is \<open>None\<close> when nil, and then so are \<open>dumpIDCache\<close>, \<open>varStoreMx\<close> and
  \<open>genKVID\<close>, which are only assigned together with it; \<open>trace\<close> is the list in a
  \<open>TransitionTrace\<close>; \<open>posted\<close> are the requests made to the log store.
\<close>

record 'g rt_state =
  initialized :: bool
  fast :: bool
  rt_id :: string
  goVecLogger :: "'g option"
  Encoder :: "rt_point list option"
  remotelogging :: bool
  useKV :: bool
  resetKV :: bool
  varStore :: "(string, rt_pair) gomap option"
  dumpIDCache :: "(string, DumpID) gomap"
  trace :: "DumpDiff list"
  kvDumpIds :: "string list"
  rid :: LogId
  logStoreLocation :: string
  posted :: "PostReq list"

definition rt_start :: "bool \<Rightarrow> 'g rt_state" where
  "rt_start remote =
     \<lparr>initialized = False, fast = False, rt_id = '''', goVecLogger = None, Encoder = None,
      remotelogging = remote, useKV = True, resetKV = True, varStore = None, dumpIDCache = [],
      trace = [], kvDumpIds = [], rid = \<lparr>Project = '''', Session = '''', LogNode = ''''\<rparr>,
      logStoreLocation = '''', posted = []\<rparr>"

definition TransitionTrace_Append :: "DumpDiff \<Rightarrow> 'g rt_state \<Rightarrow> 'g rt_state" where
  "TransitionTrace_Append dd s = s\<lparr>trace := trace s @ [dd]\<rparr>"

definition TransitionTrace_Reset :: "'g rt_state \<Rightarrow> 'g rt_state" where
  "TransitionTrace_Reset s = s\<lparr>trace := []\<rparr>"

text \<open>The receiver of \<open>Marshal\<close> is not used: it is the package variable that is encoded.\<close>

definition TransitionTrace_Marshal :: "'m rt_env \<Rightarrow> 'g rt_state \<Rightarrow> bytes" where
  "TransitionTrace_Marshal E s = marshal_trace E (trace s)"

subsection \<open>Initialisation and identifiers\<close>

definition initDinv :: "('g, 'm) govec \<Rightarrow> 'm rt_env \<Rightarrow> string \<Rightarrow> 'g rt_state \<Rightarrow> 'g rt_state go" where
  "initDinv G E hostName s =
     rbind
       (if \<not> initialized s then
          (let i = (if hostName \<noteq> '''' then hostName
                    else if Getenv E ''DINV_HOSTNAME'' \<noteq> '''' then Getenv E ''DINV_HOSTNAME''
                    else show_nat (Nanosecond E));
               s = s\<lparr>rt_id := i, goVecLogger := Some (InitGoVector G i (i @ ''.log''))\<rparr>
           in if \<not> remotelogging s then
                (if create_ok E (i @ ''Encoded.txt'') then Inr (s\<lparr>Encoder := Some []\<rparr>)
                 else Inl (Panic (i @ '':dinvRT/api.go: Error creating log file'')))
              else if Getenv E ''DINV_LOG_STORE'' = '''' then
                Inl (Fatal ''If set to remote logging then a log store location must be specified'')
              else if Getenv E ''DINV_PROJECT'' = '''' then
                Inl (Fatal ''If set to remote then a project must be specified'')
              else if \<not> dial_ok E (Getenv E ''DINV_LOG_STORE'') then Inl (Fatal ''dial'')
              else Inr (s\<lparr>rid := (rid s)\<lparr>LogNode := i, Project := Getenv E ''DINV_PROJECT''\<rparr>,
                          logStoreLocation := Getenv E ''DINV_LOG_STORE''\<rparr>))
        else Inr s)
       (\<lambda>s. Inr ((if useKV s \<and> varStore s = None
                   then s\<lparr>varStore := Some [], dumpIDCache := [], kvDumpIds := [], trace := []\<rparr>
                   else s)\<lparr>initialized := True\<rparr>))"

definition Initalize :: "('g, 'm) govec \<Rightarrow> 'm rt_env \<Rightarrow> string \<Rightarrow> 'g rt_state \<Rightarrow> (string option \<times> 'g rt_state) go" where
  "Initalize G E hostName s =
     (if initialized s then Inr (Some ''Dinv logger has allready been initalized'', s)
      else rbind (initDinv G E (map (\<lambda>c. if is_space c then CHR ''_'' else c) hostName) s)
             (\<lambda>s. Inr (None, s)))"

definition GetLogger :: "('g, 'm) govec \<Rightarrow> 'm rt_env \<Rightarrow> 'g rt_state \<Rightarrow> ('g option \<times> 'g rt_state) go" where
  "GetLogger G E s = rbind (initDinv G E '''' s) (\<lambda>s. Inr (goVecLogger s, s))"

definition GetId :: "('g, 'm) govec \<Rightarrow> 'm rt_env \<Rightarrow> 'g rt_state \<Rightarrow> (string \<times> 'g rt_state) go" where
  "GetId G E s = rbind (initDinv G E '''' s) (\<lambda>s. Inr (rt_id s, s))"

text \<open>The pattern \<open>api.go\<close>, whose dot stands for any character.\<close>

fun own_file :: "string \<Rightarrow> bool" where
  "own_file [] \<longleftrightarrow> False"
| "own_file (c # r) \<longleftrightarrow>
     (take 3 (c # r) = ''api'' \<and> length r \<ge> 5 \<and> r ! 2 \<noteq> newline \<and> take 2 (drop 3 r) = ''go'') \<or> own_file r"

fun scan_stack :: "bool \<Rightarrow> (string \<times> string) list \<Rightarrow> string \<times> string" where
  "scan_stack passed [] = ('''', '''')"
| "scan_stack passed ((f, loc) # ms) =
     (if passed \<and> \<not> own_file loc then (f, loc)
      else if own_file loc then scan_stack True ms
      else scan_stack passed ms)"

definition getCallingFunctionID :: "'m rt_env \<Rightarrow> string \<times> string" where
  "getCallingFunctionID E = scan_stack False (stack_matches E)"

definition getHashedId :: "('g, 'm) govec \<Rightarrow> 'm rt_env \<Rightarrow> 'g rt_state \<Rightarrow> (DumpID \<times> 'g rt_state) go" where
  "getHashedId G E s =
     rbind (GetId G E s) (\<lambda>(i, s).
       Inr (\<lparr>Node = i, Function = fst (getCallingFunctionID E), Location = snd (getCallingFunctionID E)\<rparr>, s))"

definition ResolveDumpID :: "('g, 'm) govec \<Rightarrow> 'm rt_env \<Rightarrow> string \<Rightarrow> 'g rt_state \<Rightarrow> (DumpID \<times> 'g rt_state) go" where
  "ResolveDumpID G E did s =
     (case gomap_get (dumpIDCache s) did of
        Some dump \<Rightarrow> Inr (dump, s)
      | None \<Rightarrow> rbind (getHashedId G E s) (\<lambda>(dump, s).
                 Inr (dump, s\<lparr>dumpIDCache := gomap_set did dump (dumpIDCache s)\<rparr>)))"

subsection \<open>Pairs and points\<close>

definition newPair :: "string \<Rightarrow> iface \<Rightarrow> rt_pair" where
  "newPair name v = \<lparr>pair_VarName = name, pair_Value = Some v, pair_Type = kind_type (dyn_kind v)\<rparr>"

fun create_dumps :: "iface option list \<Rightarrow> string list \<Rightarrow> rt_pair list go" where
  "create_dumps vars [] = Inr []"
| "create_dumps [] (n # ns) = Inl IndexOutOfRange"
| "create_dumps (v # vs) (n # ns) =
     rbind (create_dumps vs ns) (\<lambda>ps.
       Inr (case v of
              None \<Rightarrow> ps
            | Some x \<Rightarrow> if kind_type (dyn_kind x) = '''' then ps
                        else \<lparr>pair_VarName = n, pair_Value = Some x, pair_Type = kind_type (dyn_kind x)\<rparr> # ps))"

definition CreatePoint :: "('g, 'm) govec \<Rightarrow> iface option list \<Rightarrow> string list \<Rightarrow> string \<Rightarrow> 'g \<Rightarrow> string \<Rightarrow> rt_point go" where
  "CreatePoint G vars varNames i logger hash =
     rbind (create_dumps vars varNames) (\<lambda>dumps.
       Inr \<lparr>pt_Dump = dumps, pt_Id = hash @ ''_'' @ i, pt_VectorClock = GetCurrentVC G logger,
            pt_CommunicationDelta = 0\<rparr>)"

text \<open>A point can be written as JSON unless one of its values has no JSON form.\<close>

definition encodable :: "'m rt_env \<Rightarrow> iface option \<Rightarrow> bool" where
  "encodable E v =
     (case v of
        None \<Rightarrow> True
      | Some x \<Rightarrow> (case dyn_value x of VNaN \<Rightarrow> False | VInf _ \<Rightarrow> False | VOther \<Rightarrow> encode_other E x | _ \<Rightarrow> True))"

definition Encode :: "'m rt_env \<Rightarrow> rt_point \<Rightarrow> rt_point list \<Rightarrow> rt_point list" where
  "Encode E p ps = (if list_all (\<lambda>q. encodable E (pair_Value q)) (pt_Dump p) then ps @ [p] else ps)"

definition logPairList :: "('g, 'm) govec \<Rightarrow> 'm rt_env \<Rightarrow> rt_pair list \<Rightarrow> string \<Rightarrow> 'g rt_state \<Rightarrow> 'g rt_state go" where
  "logPairList G E pairs did s =
     rbind (if fast s \<or> did \<noteq> '''' then Inr (did, s)
            else rbind (getHashedId G E s) (\<lambda>(dump, s). Inr (DumpID_String dump, s)))
       (\<lambda>(dumpID, s).
     rbind (GetLogger G E s) (\<lambda>(logger, s).
       case (logger, Encoder s) of
         (Some g, Some ps) \<Rightarrow>
           (let point = \<lparr>pt_Dump = pairs, pt_Id = dumpID, pt_VectorClock = GetCurrentVC G g, pt_CommunicationDelta = 0\<rparr>
            in Inr (s\<lparr>Encoder := Some (Encode E point ps)\<rparr>))
       | _ \<Rightarrow> Inl NilPointer))"

subsection \<open>Dump and Track\<close>

text \<open>\<open>strings.Split(names, ",")\<close>.\<close>

fun split_comma :: "string \<Rightarrow> string list" where
  "split_comma [] = [[]]"
| "split_comma (c # cs) =
     (if c = CHR '','' then [] # split_comma cs
      else case split_comma cs of [] \<Rightarrow> [[c]] | w # ws \<Rightarrow> (c # w) # ws)"

definition non_nil_pairs :: "string list \<Rightarrow> iface option list \<Rightarrow> rt_pair list" where
  "non_nil_pairs ns vs = [newPair n v. (n, Some v) \<leftarrow> zip ns vs]"

text \<open>The pairs of the non-nil values fill the array from the front, its tail keeps zero values.\<close>

fun fill_pairs :: "string list \<Rightarrow> iface option list \<Rightarrow> nat \<Rightarrow> rt_pair list \<Rightarrow> rt_pair list" where
  "fill_pairs (n # ns) (Some v # vs) p pairs = fill_pairs ns vs (p + 1) (pairs[p := newPair n v])"
| "fill_pairs (n # ns) (None # vs) p pairs = fill_pairs ns vs p pairs"
| "fill_pairs _ _ p pairs = pairs"

definition Dump_call :: "('g, 'm) govec \<Rightarrow> 'm rt_env \<Rightarrow> string \<Rightarrow> string \<Rightarrow> iface option list \<Rightarrow> 'g rt_state \<Rightarrow> 'g rt_state go" where
  "Dump_call G E did names values s =
     rbind (initDinv G E '''' s) (\<lambda>s.
       if length (split_comma names) \<noteq> length values then
         rbind (GetId G E s) (\<lambda>(i, s). Inl (Panic (i @ '': dump at [%!s(MISSING)] has unequal argument lengths'')))
       else logPairList G E (fill_pairs (split_comma names) values 0 (replicate (length values) zero_pair)) did s)"

text \<open>One value of a \<open>Track\<close>: the store and the diff after it.\<close>

definition track_value :: "(string, rt_pair) gomap \<times> DumpDiff \<Rightarrow> string \<times> iface option \<Rightarrow> (string, rt_pair) gomap \<times> DumpDiff" where
  "track_value sd nv =
     (case (sd, nv) of
        ((store, dd), (n, Some v)) \<Rightarrow>
          (let currentValue = (case gomap_get store n of None \<Rightarrow> zero_pair | Some p \<Rightarrow> p);
               newValue = newPair n v
           in if pair_Type newValue \<in> set [''int'', ''boolean'', ''float'', ''string''] then
                (gomap_set n newValue store,
                 if \<not> iface_eq (pair_Value currentValue) (pair_Value newValue) then DumpDiff_Add dd newValue else dd)
              else (store, dd))
      | (sd, (_, None)) \<Rightarrow> sd)"

definition Track :: "('g, 'm) govec \<Rightarrow> 'm rt_env \<Rightarrow> string \<Rightarrow> string \<Rightarrow> iface option list \<Rightarrow> 'g rt_state \<Rightarrow> 'g rt_state go" where
  "Track G E did names values s =
     rbind (initDinv G E '''' (s\<lparr>useKV := True\<rparr>)) (\<lambda>s.
       if length (split_comma names) \<noteq> length values then
         Inl (Panic ''track at [%!s(MISSING)] has unequal argument lengths'')
       else
         rbind (ResolveDumpID G E did s) (\<lambda>(dump, s).
           case varStore s of
             None \<Rightarrow> Inl NilPointer
           | Some store \<Rightarrow>
               (let (store', dumpDiff) = foldl track_value (store, NewDumpDiff dump) (zip (split_comma names) values);
                    s = TransitionTrace_Append dumpDiff (s\<lparr>varStore := Some store'\<rparr>)
                in Inr (s\<lparr>kvDumpIds := kvDumpIds s @ [did]\<rparr>))))"

subsection \<open>Writing the store\<close>

definition concatStrings :: "string list \<Rightarrow> string" where
  "concatStrings a = concat (map (\<lambda>x. x @ ''_'') a)"

definition variableNamesID :: "'m rt_env \<Rightarrow> rt_pair list \<Rightarrow> string" where
  "variableNamesID E pairs = Hash E (concatStrings (sort (map pair_VarName pairs)))"

text \<open>
  The sorted ids go through a map, and the range over that map decides their order; the list
  of ids of the state is replaced by the result.
\<close>

definition smearedDumpID :: "'m rt_env \<Rightarrow> 'g rt_state \<Rightarrow> string \<times> 'g rt_state" where
  "smearedDumpID E s =
     (let noDups = foldl (\<lambda>m n. gomap_set n n m) [] (sort (kvDumpIds s));
          uniqueNames = [v. k \<leftarrow> range_keys E (map fst noDups), Some v \<leftarrow> [gomap_get noDups k]]
      in (Hash E (concatStrings uniqueNames), s\<lparr>kvDumpIds := uniqueNames\<rparr>))"

text \<open>\<open>sort.Sort(ByName(pairs))\<close>; the names in a store are distinct, so the result is determined.\<close>

definition sort_ByName :: "rt_pair list \<Rightarrow> rt_pair list" where
  "sort_ByName pairs = sort_key pair_VarName pairs"

definition store_pairs :: "'m rt_env \<Rightarrow> (string, rt_pair) gomap \<Rightarrow> rt_pair list" where
  "store_pairs E store = [p. k \<leftarrow> range_keys E (map fst store), Some p \<leftarrow> [gomap_get store k]]"

definition logVarStore :: "('g, 'm) govec \<Rightarrow> 'm rt_env \<Rightarrow> 'g rt_state \<Rightarrow> 'g rt_state go" where
  "logVarStore G E s =
     (if \<not> useKV s then Inr s
      else case varStore s of
        None \<Rightarrow> Inl NilPointer
      | Some store \<Rightarrow>
          (let pairs = sort_ByName (store_pairs E store);
               (kvid, s) = smearedDumpID E s
           in rbind (logPairList G E pairs kvid s) (\<lambda>s.
                Inr (if resetKV s then s\<lparr>varStore := Some [], kvDumpIds := []\<rparr> else s))))"

subsection \<open>Events\<close>

text \<open>The index into \<open>state\<close> stays 0: every field is written over the one before.\<close>

definition msgState :: "'m rt_env \<Rightarrow> 'm option \<Rightarrow> bytes" where
  "msgState E msg =
     (let e = msg_fields E msg;
          state = foldl (\<lambda>st (k, v). st[0 := (k, Some v)]) (replicate (length e) ('''', None)) e
      in marshal_fields E state)"

definition log_event :: "('g, 'm) govec \<Rightarrow> 'm rt_env \<Rightarrow> 'm option \<Rightarrow> int \<Rightarrow> string \<Rightarrow> 'g rt_state \<Rightarrow> 'g rt_state go" where
  "log_event G E msg eventType info s =
     (if remotelogging s then
        (case (varStore s, goVecLogger s) of
           (Some store, Some g) \<Rightarrow>
             (case marshal_state E (sort_ByName (store_pairs E store)) of
                None \<Rightarrow> Inl (Fatal ''json'')
              | Some sstate \<Rightarrow>
                  (let se = \<lparr>se_Type = eventType, Message = info, VC = GetCurrentVC G g, se_State = sstate,
                             Event = msgState E msg, DumpTrace = TransitionTrace_Marshal E s\<rparr>;
                       s = TransitionTrace_Reset s;
                       request = \<lparr>req_Id = rid s, req_Log = se\<rparr>;
                       resp = rpc_Log E request
                   in if Session resp = '''' then Inl (Fatal '''')
                      else Inr (s\<lparr>rid := resp, posted := posted s @ [request]\<rparr>)))
         | _ \<Rightarrow> Inl NilPointer)
      else logVarStore G E s)"

definition event_text :: "('g, 'm) govec \<Rightarrow> 'm rt_env \<Rightarrow> string \<Rightarrow> 'g rt_state \<Rightarrow> (string \<times> 'g rt_state) go" where
  "event_text G E verb s =
     (if fast s then Inr (verb @ rt_id s, s)
      else rbind (getHashedId G E s) (\<lambda>(dump, s). Inr (verb @ DumpID_String dump @ '' '' @ rt_id s, s)))"

definition send_event :: "('g, 'm) govec \<Rightarrow> 'm rt_env \<Rightarrow> 'm \<Rightarrow> string \<Rightarrow> 'g rt_state \<Rightarrow> (bytes \<times> 'g rt_state) go" where
  "send_event G E msg info s =
     (case goVecLogger s of
        None \<Rightarrow> Inl NilPointer
      | Some g \<Rightarrow>
          (let (buf, g') = PrepareSend G g info msg
           in rbind (log_event G E (Some msg) SEND info (s\<lparr>goVecLogger := Some g'\<rparr>)) (\<lambda>s. Inr (buf, s))))"

definition Pack :: "('g, 'm) govec \<Rightarrow> 'm rt_env \<Rightarrow> 'm \<Rightarrow> 'g rt_state \<Rightarrow> (bytes \<times> 'g rt_state) go" where
  "Pack G E msg s =
     rbind (initDinv G E '''' s) (\<lambda>s.
     rbind (event_text G E ''Sending from '' s) (\<lambda>(loggedMsg, s). send_event G E msg loggedMsg s))"

definition PackM :: "('g, 'm) govec \<Rightarrow> 'm rt_env \<Rightarrow> 'm \<Rightarrow> string \<Rightarrow> 'g rt_state \<Rightarrow> (bytes \<times> 'g rt_state) go" where
  "PackM G E msg info s = rbind (initDinv G E '''' s) (send_event G E msg info)"

definition receive_event :: "('g, 'm) govec \<Rightarrow> 'm rt_env \<Rightarrow> bytes \<Rightarrow> string \<Rightarrow> 'g rt_state \<Rightarrow> ('m \<times> 'g rt_state) go" where
  "receive_event G E msg info s =
     (case goVecLogger s of
        None \<Rightarrow> Inl NilPointer
      | Some g \<Rightarrow>
          (let (pack, g') = UnpackReceive G g info msg
           in rbind (log_event G E (Some pack) REC info (s\<lparr>goVecLogger := Some g'\<rparr>)) (\<lambda>s. Inr (pack, s))))"

definition Unpack :: "('g, 'm) govec \<Rightarrow> 'm rt_env \<Rightarrow> bytes \<Rightarrow> 'g rt_state \<Rightarrow> ('m \<times> 'g rt_state) go" where
  "Unpack G E msg s =
     rbind (initDinv G E '''' s) (\<lambda>s.
     rbind (event_text G E ''Received on '' s) (\<lambda>(loggedMsg, s). receive_event G E msg loggedMsg s))"

definition UnpackM :: "('g, 'm) govec \<Rightarrow> 'm rt_env \<Rightarrow> bytes \<Rightarrow> string \<Rightarrow> 'g rt_state \<Rightarrow> ('m \<times> 'g rt_state) go" where
  "UnpackM G E msg info s = rbind (initDinv G E '''' s) (receive_event G E msg info)"

definition Local :: "('g, 'm) govec \<Rightarrow> 'm rt_env \<Rightarrow> string \<Rightarrow> 'g rt_state \<Rightarrow> 'g rt_state go" where
  "Local G E msg s =
     rbind (initDinv G E '''' s) (\<lambda>s.
       case goVecLogger s of
         None \<Rightarrow> Inl NilPointer
       | Some g \<Rightarrow> log_event G E None LOCAL msg (s\<lparr>goVecLogger := Some (LogLocalEvent G g msg)\<rparr>))"

subsection \<open>Runs\<close>

datatype 'm call =
    CInitalize string
  | CDump string string "iface option list"
  | CTrack string string "iface option list"
  | CPack 'm
  | CPackM 'm string
  | CUnpack bytes
  | CUnpackM bytes string
  | CLocal string

definition run_call :: "('g, 'm) govec \<Rightarrow> 'm rt_env \<Rightarrow> 'g rt_state \<Rightarrow> 'm call \<Rightarrow> 'g rt_state go" where
  "run_call G E s c =
     (case c of
        CInitalize h \<Rightarrow> rbind (Initalize G E h s) (\<lambda>r. Inr (snd r))
      | CDump did ns vs \<Rightarrow> Dump_call G E did ns vs s
      | CTrack did ns vs \<Rightarrow> Track G E did ns vs s
      | CPack m \<Rightarrow> rbind (Pack G E m s) (\<lambda>r. Inr (snd r))
      | CPackM m info \<Rightarrow> rbind (PackM G E m info s) (\<lambda>r. Inr (snd r))
      | CUnpack b \<Rightarrow> rbind (Unpack G E b s) (\<lambda>r. Inr (snd r))
      | CUnpackM b info \<Rightarrow> rbind (UnpackM G E b info s) (\<lambda>r. Inr (snd r))
      | CLocal info \<Rightarrow> Local G E info s)"

definition run_calls :: "('g, 'm) govec \<Rightarrow> 'm rt_env \<Rightarrow> 'g rt_state \<Rightarrow> 'm call list \<Rightarrow> 'g rt_state go" where
  "run_calls G E = foldR (run_call G E)"

end
