(* ===== verification/Dinv_RT_Props.thy ===== *)
theory Dinv_RT_Props
  imports Dinv_RT
begin

text \<open>
  What the run-time library promises. The abstract state of a tracking host is the latest
  value of every tracked variable, the vector clock logger, and the observations written so
  far; \<open>Track\<close> updates values, every event of vector time writes one observation and forgets the
  values. The package refines it. Further: the invariant of the package state under all calls,
  the failures, what \<open>Dump\<close> writes, and that a written log reads back in the log merger.
\<close>

section \<open>The state invariant\<close>

definition basic :: "iface \<Rightarrow> bool" where
  "basic v \<longleftrightarrow> kind_type (dyn_kind v) \<noteq> ''''"

definition tracked_pair :: "rt_pair \<Rightarrow> bool" where
  "tracked_pair p \<longleftrightarrow> (\<exists>v. p = newPair (pair_VarName p) v \<and> basic v)"

definition store_ok :: "(string, rt_pair) gomap \<Rightarrow> bool" where
  "store_ok m \<longleftrightarrow> gomap_wf m \<and> (\<forall>k p. gomap_get m k = Some p \<longrightarrow> pair_VarName p = k \<and> tracked_pair p)"

definition rt_inv :: "'g rt_state \<Rightarrow> bool" where
  "rt_inv s \<longleftrightarrow>
     useKV s \<and> resetKV s \<and>
     (initialized s \<longleftrightarrow> goVecLogger s \<noteq> None) \<and>
     (initialized s \<longleftrightarrow> varStore s \<noteq> None) \<and>
     (Encoder s \<noteq> None \<longleftrightarrow> initialized s \<and> \<not> remotelogging s) \<and>
     (\<not> remotelogging s \<longrightarrow> posted s = []) \<and>
     (\<not> initialized s \<longrightarrow> trace s = []) \<and>
     (\<forall>m. varStore s = Some m \<longrightarrow> store_ok m) \<and>
     (\<forall>d \<in> set (trace s). \<forall>p \<in> set (Diff d). tracked_pair p) \<and>
     gomap_wf (dumpIDCache s) \<and>
     (\<forall>k d. gomap_get (dumpIDCache s) k = Some d \<longrightarrow> initialized s \<and> Node d = rt_id s)"

lemma kind_type_basic:
  "kind_type k \<in> set [''int'', ''boolean'', ''float'', ''string''] \<longleftrightarrow> kind_type k \<noteq> ''''"
  by (auto simp: kind_type_def)

lemma newPair_simps [simp]:
  "pair_VarName (newPair n v) = n" "pair_Value (newPair n v) = Some v"
  "pair_Type (newPair n v) = kind_type (dyn_kind v)"
  by (simp_all add: newPair_def)

lemma tracked_newPair [simp]: "tracked_pair (newPair n v) \<longleftrightarrow> basic v"
  by (auto simp: tracked_pair_def newPair_def)

lemma tracked_pairD: "tracked_pair p \<Longrightarrow> \<exists>v. pair_Value p = Some v \<and> p = newPair (pair_VarName p) v \<and> basic v"
  by (metis tracked_pair_def newPair_simps(2))

lemma store_ok_Nil [simp]: "store_ok []"
  by (simp add: store_ok_def)

lemma store_ok_set [simp]: "store_ok m \<Longrightarrow> basic v \<Longrightarrow> store_ok (gomap_set n (newPair n v) m)"
  by (auto simp: store_ok_def gomap_simps split: if_splits)

subsection \<open>Initialisation\<close>

lemma initDinv_idle:
  assumes "initialized s" "varStore s \<noteq> None"
  shows "initDinv G E h s = Inr s"
proof -
  have "s\<lparr>initialized := True\<rparr> = s" using assms(1) by (cases s) simp
  with assms show ?thesis by (auto simp: initDinv_def)
qed

lemma rt_inv_start: "rt_inv (rt_start remote)"
  by (simp add: rt_inv_def rt_start_def)

lemma initDinv_inv:
  assumes "rt_inv s" "initDinv G E h s = Inr s'"
  shows "rt_inv s' \<and> initialized s'"
proof (cases "initialized s")
  case True
  with assms have "initDinv G E h s = Inr s" by (intro initDinv_idle) (auto simp: rt_inv_def)
  with assms True show ?thesis by simp
next
  case False
  with assms show ?thesis
    by (auto simp: rt_inv_def initDinv_def Let_def go_bind split: if_splits)
qed

text \<open>In an initialised state the identifiers are read off without a change of the state.\<close>

definition up :: "'g rt_state \<Rightarrow> bool" where
  "up s \<longleftrightarrow> rt_inv s \<and> initialized s"

definition caller_id :: "'m rt_env \<Rightarrow> 'g rt_state \<Rightarrow> DumpID" where
  "caller_id E s = \<lparr>Node = rt_id s, Function = fst (getCallingFunctionID E), Location = snd (getCallingFunctionID E)\<rparr>"

lemma up_initDinv [simp]: "up s \<Longrightarrow> initDinv G E h s = Inr s"
  by (rule initDinv_idle) (auto simp: up_def rt_inv_def)

lemma up_GetId [simp]: "up s \<Longrightarrow> GetId G E s = Inr (rt_id s, s)"
  by (simp add: GetId_def)

lemma up_GetLogger [simp]: "up s \<Longrightarrow> GetLogger G E s = Inr (goVecLogger s, s)"
  by (simp add: GetLogger_def)

lemma up_getHashedId [simp]: "up s \<Longrightarrow> getHashedId G E s = Inr (caller_id E s, s)"
  by (simp add: getHashedId_def caller_id_def)

lemma up_obtains:
  assumes "up s"
  obtains g m where "goVecLogger s = Some g" "varStore s = Some m" "store_ok m"
  using assms by (auto simp: up_def rt_inv_def)

lemma up_clock [simp]: "up s \<Longrightarrow> up (s\<lparr>goVecLogger := Some g\<rparr>)"
  by (auto simp: up_def rt_inv_def)

subsection \<open>The operations\<close>

lemma track_value_ok:
  assumes "store_ok m" "\<forall>p \<in> set (Diff d). tracked_pair p" "track_value (m, d) nv = (m', d')"
  shows "store_ok m' \<and> (\<forall>p \<in> set (Diff d'). tracked_pair p)"
proof (cases nv)
  case (Pair n ov)
  show ?thesis
  proof (cases ov)
    case None
    with assms Pair show ?thesis by (simp add: track_value_def)
  next
    case (Some v)
    with assms Pair show ?thesis
      by (auto simp: track_value_def kind_type_basic basic_def DumpDiff_Add_def Let_def split: if_splits)
  qed
qed

lemma track_values_ok:
  assumes "store_ok m" "\<forall>p \<in> set (Diff d). tracked_pair p" "foldl track_value (m, d) nvs = (m', d')"
  shows "store_ok m' \<and> (\<forall>p \<in> set (Diff d'). tracked_pair p)"
  using assms
proof (induction nvs arbitrary: m d)
  case (Cons nv nvs)
  obtain m1 d1 where md: "track_value (m, d) nv = (m1, d1)" by fastforce
  from track_value_ok [OF Cons.prems(1,2) md] Cons.prems(3) md show ?case
    using Cons.IH [of m1 d1] by simp
qed simp

lemma ResolveDumpID_up:
  assumes "up s" "ResolveDumpID G E did s = Inr (dump, s')"
  shows "up s' \<and> (\<exists>c. s' = s\<lparr>dumpIDCache := c\<rparr>)"
proof (cases "gomap_get (dumpIDCache s) did")
  case None
  with assms have s': "s' = s\<lparr>dumpIDCache := gomap_set did (caller_id E s) (dumpIDCache s)\<rparr>"
    by (auto simp: ResolveDumpID_def)
  with assms(1) show ?thesis
    by (auto simp: up_def rt_inv_def caller_id_def gomap_simps split: if_splits)
next
  case (Some d)
  with assms have "s' = s" by (simp add: ResolveDumpID_def)
  moreover have "s = s\<lparr>dumpIDCache := dumpIDCache s\<rparr>" by simp
  ultimately show ?thesis using assms(1) by metis
qed

lemma ResolveDumpID_total: "up s \<Longrightarrow> \<exists>dump s'. ResolveDumpID G E did s = Inr (dump, s')"
  by (cases "gomap_get (dumpIDCache s) did") (auto simp: ResolveDumpID_def)

text \<open>\<open>Track\<close> in an initialised state: the store changes by the values, everything but the cache,
  the trace and the collected ids stays.\<close>

lemma Track_up:
  assumes "up s" "varStore s = Some m" "length (split_comma names) = length vals"
  obtains s' d c m' dd where "Track G E did names vals s = Inr s'" "up s'"
    "foldl track_value (m, NewDumpDiff d) (zip (split_comma names) vals) = (m', dd)"
    "s' = s\<lparr>dumpIDCache := c, varStore := Some m', trace := trace s @ [dd], kvDumpIds := kvDumpIds s @ [did]\<rparr>"
proof -
  have kv: "s\<lparr>useKV := True\<rparr> = s" using assms(1) by (cases s) (simp add: up_def rt_inv_def)
  obtain d s1 where r: "ResolveDumpID G E did s = Inr (d, s1)" using ResolveDumpID_total assms(1) by blast
  note s1 = ResolveDumpID_up [OF assms(1) r]
  obtain c where c: "s1 = s\<lparr>dumpIDCache := c\<rparr>" using s1 by blast
  obtain m' dd where f: "foldl track_value (m, NewDumpDiff d) (zip (split_comma names) vals) = (m', dd)" by fastforce
  have m: "store_ok m" using assms by (simp add: up_def rt_inv_def)
  have ok: "store_ok m' \<and> (\<forall>p \<in> set (Diff dd). tracked_pair p)"
    by (rule track_values_ok [OF m _ f]) (simp add: NewDumpDiff_def)
  let ?s = "s\<lparr>dumpIDCache := c, varStore := Some m', trace := trace s @ [dd], kvDumpIds := kvDumpIds s @ [did]\<rparr>"
  have t: "Track G E did names vals s = Inr ?s"
    using assms r c f by (simp add: Track_def kv TransitionTrace_Append_def)
  have "up (s\<lparr>dumpIDCache := c\<rparr>)" using s1 c by metis
  then have u: "up ?s" using ok by (auto simp: up_def rt_inv_def)
  show thesis by (rule that [OF t u f refl])
qed

definition point_id :: "'m rt_env \<Rightarrow> 'g rt_state \<Rightarrow> string \<Rightarrow> string" where
  "point_id E s did = (if fast s \<or> did \<noteq> '''' then did else DumpID_String (caller_id E s))"

definition point_now :: "('g, 'm) govec \<Rightarrow> 'm rt_env \<Rightarrow> rt_pair list \<Rightarrow> string \<Rightarrow> 'g rt_state \<Rightarrow> rt_point" where
  "point_now G E pairs did s =
     \<lparr>pt_Dump = pairs, pt_Id = point_id E s did, pt_VectorClock = GetCurrentVC G (the (goVecLogger s)),
      pt_CommunicationDelta = 0\<rparr>"

lemma logPairList_up:
  assumes "up s"
  shows "logPairList G E pairs did s =
    (case Encoder s of
       None \<Rightarrow> Inl NilPointer
     | Some ps \<Rightarrow> Inr (s\<lparr>Encoder := Some (Encode E (point_now G E pairs did s) ps)\<rparr>))"
proof -
  obtain g where "goVecLogger s = Some g" using assms by (rule up_obtains)
  with assms show ?thesis
    by (simp add: logPairList_def point_now_def point_id_def Let_def split: option.split)
qed

lemma up_Encoder: "up s \<Longrightarrow> Encoder s = Some ps \<Longrightarrow> up (s\<lparr>Encoder := Some qs\<rparr>)"
  by (auto simp: up_def rt_inv_def)

lemma up_kvDumpIds: "up s \<Longrightarrow> up (s\<lparr>kvDumpIds := ks\<rparr>)"
  by (auto simp: up_def rt_inv_def)

text \<open>The point the store gives, and the state after it was written.\<close>

definition store_point :: "('g, 'm) govec \<Rightarrow> 'm rt_env \<Rightarrow> 'g rt_state \<Rightarrow> rt_point" where
  "store_point G E s = point_now G E (sort_ByName (store_pairs E (the (varStore s)))) (fst (smearedDumpID E s)) s"

lemma smearedDumpID_snd: "\<exists>ks. snd (smearedDumpID E s) = s\<lparr>kvDumpIds := ks\<rparr>"
  by (auto simp: smearedDumpID_def Let_def)

lemma logVarStore_up:
  assumes "up s"
  shows "logVarStore G E s =
    (case Encoder s of
       None \<Rightarrow> Inl NilPointer
     | Some ps \<Rightarrow>
         Inr (s\<lparr>kvDumpIds := [], varStore := Some [], Encoder := Some (Encode E (store_point G E s) ps)\<rparr>))"
proof -
  obtain m where m: "varStore s = Some m" using assms by (rule up_obtains)
  obtain ks where ks: "smearedDumpID E s = (fst (smearedDumpID E s), s\<lparr>kvDumpIds := ks\<rparr>)"
    using smearedDumpID_snd by (metis prod.collapse)
  have "point_now G E pairs did (s\<lparr>kvDumpIds := ks\<rparr>) = point_now G E pairs did s" for pairs did
    by (simp add: point_now_def point_id_def caller_id_def)
  then have "logPairList G E pairs did (s\<lparr>kvDumpIds := ks\<rparr>) =
      (case Encoder s of
         None \<Rightarrow> Inl NilPointer
       | Some ps \<Rightarrow> Inr (s\<lparr>kvDumpIds := ks, Encoder := Some (Encode E (point_now G E pairs did s) ps)\<rparr>))" for pairs did
    using logPairList_up [OF up_kvDumpIds [OF assms, of ks], of G E pairs did] by (simp split: option.split)
  then show ?thesis
    using assms by (subst logVarStore_def, subst ks) (simp add: m store_point_def up_def rt_inv_def split: option.split)
qed

lemma logVarStore_inv: "up s \<Longrightarrow> logVarStore G E s = Inr s' \<Longrightarrow> up s'"
  by (auto simp: logVarStore_up up_def rt_inv_def split: option.splits)

lemma log_event_inv:
  assumes "up s" "log_event G E msg ty info s = Inr s'"
  shows "up s'"
proof (cases "remotelogging s")
  case True
  obtain g m where "goVecLogger s = Some g" "varStore s = Some m" using assms(1) by (rule up_obtains)
  with True assms show ?thesis
    by (auto simp: log_event_def up_def rt_inv_def Let_def TransitionTrace_Reset_def split: option.splits if_splits)
next
  case False
  with assms logVarStore_inv show ?thesis by (auto simp: log_event_def)
qed

lemma rbind_Inr [simp]: "rbind m Inr = m"
  by (cases m) auto

lemma rbind_assoc: "rbind (rbind m f) g = rbind m (\<lambda>x. rbind (f x) g)"
  by (cases m) auto

text \<open>What an event of vector time does to the logger.\<close>

definition event_info :: "'m rt_env \<Rightarrow> bool \<Rightarrow> string \<Rightarrow> string \<Rightarrow> string" where
  "event_info E quick i verb =
     verb @ (if quick then i
             else DumpID_String \<lparr>Node = i, Function = fst (getCallingFunctionID E), Location = snd (getCallingFunctionID E)\<rparr>
                  @ '' '' @ i)"

fun tick :: "('g, 'm) govec \<Rightarrow> (string \<Rightarrow> string) \<Rightarrow> 'm call \<Rightarrow> 'g \<Rightarrow> 'g" where
  "tick G info (CPack m) g = snd (PrepareSend G g (info ''Sending from '') m)"
| "tick G info (CPackM m i) g = snd (PrepareSend G g i m)"
| "tick G info (CUnpack b) g = snd (UnpackReceive G g (info ''Received on '') b)"
| "tick G info (CUnpackM b i) g = snd (UnpackReceive G g i b)"
| "tick G info (CLocal i) g = LogLocalEvent G g i"
| "tick G info _ g = g"

fun is_event :: "'m call \<Rightarrow> bool" where
  "is_event (CInitalize _) \<longleftrightarrow> False"
| "is_event (CDump _ _ _) \<longleftrightarrow> False"
| "is_event (CTrack _ _ _) \<longleftrightarrow> False"
| "is_event _ \<longleftrightarrow> True"

lemma event_text_up: "up s \<Longrightarrow> event_text G E verb s = Inr (event_info E (fast s) (rt_id s) verb, s)"
  by (simp add: event_text_def event_info_def caller_id_def)

lemma run_call_event:
  assumes "up s" "is_event c"
  shows "\<exists>msg ty info. run_call G E s c =
    log_event G E msg ty info
      (s\<lparr>goVecLogger := Some (tick G (event_info E (fast s) (rt_id s)) c (the (goVecLogger s)))\<rparr>)"
proof -
  obtain g where g: "goVecLogger s = Some g" using assms(1) by (rule up_obtains)
  note defs = run_call_def Pack_def PackM_def Unpack_def UnpackM_def send_event_def receive_event_def
    Local_def rbind_assoc event_text_up
  show ?thesis
  proof (cases c)
    case (CPack m)
    with assms g show ?thesis by (auto simp: defs case_prod_unfold Let_def)
  next
    case (CPackM m i)
    with assms g show ?thesis by (auto simp: defs case_prod_unfold Let_def)
  next
    case (CUnpack b)
    with assms g show ?thesis by (auto simp: defs case_prod_unfold Let_def)
  next
    case (CUnpackM b i)
    with assms g show ?thesis by (auto simp: defs case_prod_unfold Let_def)
  next
    case (CLocal i)
    with assms g show ?thesis by (auto simp: defs)
  qed (use assms(2) in auto)
qed

lemma Dump_call_inv:
  assumes "up s" "Dump_call G E did names vals s = Inr s'"
  shows "up s'"
proof (cases "Encoder s")
  case None
  with assms show ?thesis by (simp add: Dump_call_def logPairList_up split: if_splits)
next
  case (Some ps)
  with assms have "\<exists>qs. s' = s\<lparr>Encoder := Some qs\<rparr>"
    by (auto simp: Dump_call_def logPairList_up split: if_splits)
  with up_Encoder [OF assms(1) Some] show ?thesis by auto
qed

lemma Track_inv:
  assumes "up s" "Track G E did names vals s = Inr s'"
  shows "up s'"
proof -
  have "s\<lparr>useKV := True\<rparr> = s" using assms(1) by (cases s) (simp add: up_def rt_inv_def)
  with assms have len: "length (split_comma names) = length vals"
    by (auto simp: Track_def split: if_splits)
  obtain m where m: "varStore s = Some m" using assms(1) by (rule up_obtains)
  show ?thesis by (rule Track_up [OF assms(1) m len, of G E did]) (use assms(2) in simp)
qed

lemma run_call_up_inv:
  assumes "up s" "run_call G E s c = Inr s'"
  shows "up s'"
proof (cases "is_event c")
  case True
  with run_call_event [OF assms(1), of c G E] assms show ?thesis
    by (auto intro: log_event_inv [OF up_clock])
next
  case False
  from assms(1) have "initialized s" by (simp add: up_def)
  with False assms show ?thesis
    by (cases c) (auto simp: run_call_def Initalize_def elim: Dump_call_inv [rotated] Track_inv [rotated])
qed

text \<open>
  A first call behaves as if \<open>initDinv\<close> had been called before it: every function starts with
  that call, and a second one does nothing.
\<close>

lemma run_call_init:
  assumes "rt_inv s" "\<forall>h. c \<noteq> CInitalize h"
  shows "run_call G E s c = rbind (initDinv G E [] s) (\<lambda>s1. run_call G E s1 c)"
proof -
  note defs = run_call_def Dump_call_def Track_def Pack_def PackM_def Unpack_def UnpackM_def Local_def
  have kv: "s\<lparr>useKV := True\<rparr> = s" using assms(1) by (cases s) (simp add: rt_inv_def)
  show ?thesis
  proof (cases "initDinv G E [] s")
    case (Inl e)
    with assms(2) show ?thesis by (cases c) (simp_all add: defs kv)
  next
    case (Inr s1)
    then have s1: "up s1" using initDinv_inv [OF assms(1)] by (auto simp: up_def)
    then have kv1: "s1\<lparr>useKV := True\<rparr> = s1" by (cases s1) (simp add: up_def rt_inv_def)
    from assms(2) Inr s1 show ?thesis by (cases c) (simp_all add: defs kv kv1)
  qed
qed

lemma run_call_inv:
  assumes "rt_inv s" "run_call G E s c = Inr s'"
  shows "up s'"
proof (cases "\<exists>h. c = CInitalize h")
  case True
  then obtain h where h: "c = CInitalize h" by blast
  show ?thesis
  proof (cases "initialized s")
    case True
    with assms(1) have "up s" by (simp add: up_def)
    then show ?thesis by (rule run_call_up_inv [OF _ assms(2)])
  next
    case False
    with assms h obtain h' where "initDinv G E h' s = Inr s'"
      by (auto simp: run_call_def Initalize_def go_bind)
    with initDinv_inv [OF assms(1)] show ?thesis by (auto simp: up_def)
  qed
next
  case False
  then have "run_call G E s c = rbind (initDinv G E [] s) (\<lambda>s1. run_call G E s1 c)"
    by (intro run_call_init [OF assms(1)]) blast
  with assms obtain s1 where s1: "initDinv G E [] s = Inr s1" "run_call G E s1 c = Inr s'"
    by (auto simp: go_bind)
  from initDinv_inv [OF assms(1) s1(1)] have "up s1" by (simp add: up_def)
  then show ?thesis by (rule run_call_up_inv [OF _ s1(2)])
qed

section \<open>Refinement of the abstract tracker\<close>

record 'g tracker =
  tr_vals :: "string \<rightharpoonup> iface"
  tr_clock :: 'g
  tr_log :: "((string \<rightharpoonup> iface) \<times> bytes) list"

definition update_vals :: "(string \<rightharpoonup> iface) \<Rightarrow> string \<times> iface option \<Rightarrow> (string \<rightharpoonup> iface)" where
  "update_vals m nv =
     (case nv of
        (n, Some v) \<Rightarrow> if basic v then m(n \<mapsto> v) else m
      | (n, None) \<Rightarrow> m)"

definition tracker_call :: "('g, 'm) govec \<Rightarrow> (string \<Rightarrow> string) \<Rightarrow> 'g tracker \<Rightarrow> 'm call \<Rightarrow> 'g tracker" where
  "tracker_call G info t c =
     (case c of
        CInitalize _ \<Rightarrow> t
      | CDump _ _ _ \<Rightarrow> t
      | CTrack _ ns vs \<Rightarrow> t\<lparr>tr_vals := foldl update_vals (tr_vals t) (zip (split_comma ns) vs)\<rparr>
      | _ \<Rightarrow> (let g = tick G info c (tr_clock t)
             in \<lparr>tr_vals = Map.empty, tr_clock = g, tr_log = tr_log t @ [(tr_vals t, GetCurrentVC G g)]\<rparr>))"

text \<open>A list of calls simulates a list of abstract calls when each call does.\<close>

locale call_simulation =
  fixes call :: "'s \<Rightarrow> 'c \<Rightarrow> 's go"
    and acall :: "'a \<Rightarrow> 'c \<Rightarrow> 'a"
    and abs :: "'s \<Rightarrow> 'a"
    and ok :: "'c \<Rightarrow> bool"
    and ready :: "'s \<Rightarrow> bool"
  assumes call_step: "ready s \<Longrightarrow> ok c \<Longrightarrow> \<exists>s'. call s c = Inr s' \<and> ready s' \<and> abs s' = acall (abs s) c"
begin

lemma calls_step:
  "ready s \<Longrightarrow> list_all ok cs \<Longrightarrow>
    \<exists>s'. foldR call s cs = Inr s' \<and> ready s' \<and> abs s' = foldl acall (abs s) cs"
proof (induction cs arbitrary: s)
  case (Cons c cs)
  then obtain s1 where "call s c = Inr s1" "ready s1" "abs s1 = acall (abs s) c"
    using call_step [of s c] by auto
  with Cons.IH [of s1] Cons.prems show ?case by auto
qed simp

end

definition store_vals :: "(string, rt_pair) gomap \<Rightarrow> (string \<rightharpoonup> iface)" where
  "store_vals m n = Option.bind (gomap_get m n) pair_Value"

definition dump_vals :: "rt_pair list \<Rightarrow> (string \<rightharpoonup> iface)" where
  "dump_vals ps n = Option.bind (map_of (map (\<lambda>p. (pair_VarName p, p)) ps) n) pair_Value"

definition tracker_of :: "'g rt_state \<Rightarrow> 'g tracker" where
  "tracker_of s =
     \<lparr>tr_vals = store_vals (the (varStore s)), tr_clock = the (goVecLogger s),
      tr_log = map (\<lambda>p. (dump_vals (pt_Dump p), pt_VectorClock p)) (the (Encoder s))\<rparr>"

text \<open>A written dump: names in strictly increasing order, every pair of a type Daikon knows.\<close>

definition dump_ok :: "rt_pair list \<Rightarrow> bool" where
  "dump_ok ps \<longleftrightarrow> sorted (map pair_VarName ps) \<and> distinct (map pair_VarName ps) \<and> list_all tracked_pair ps"

definition range_ok :: "'m rt_env \<Rightarrow> bool" where
  "range_ok E \<longleftrightarrow> (\<forall>ks. distinct ks \<longrightarrow> distinct (range_keys E ks) \<and> set (range_keys E ks) = set ks)"

definition tracking :: "'m rt_env \<Rightarrow> bool \<Rightarrow> string \<Rightarrow> 'g rt_state \<Rightarrow> bool" where
  "tracking E quick i s \<longleftrightarrow>
     range_ok E \<and> up s \<and> \<not> remotelogging s \<and> fast s = quick \<and> rt_id s = i \<and>
     (\<forall>v \<in> ran (store_vals (the (varStore s))). encodable E (Some v)) \<and>
     (\<forall>p \<in> set (the (Encoder s)). dump_ok (pt_Dump p))"

definition call_ok :: "'m rt_env \<Rightarrow> 'm call \<Rightarrow> bool" where
  "call_ok E c \<longleftrightarrow>
     (case c of
        CDump _ _ _ \<Rightarrow> False
      | CTrack _ ns vs \<Rightarrow> length (split_comma ns) = length vs \<and> list_all (encodable E) vs
      | _ \<Rightarrow> True)"

subsection \<open>Values\<close>

lemma store_vals_set [simp]: "store_vals (gomap_set n (newPair n v) m) = (store_vals m)(n \<mapsto> v)"
  by (rule ext) (simp add: store_vals_def gomap_simps)

lemma track_value_vals: "store_vals (fst (track_value (m, d) nv)) = update_vals (store_vals m) nv"
proof (cases nv)
  case (Pair n ov)
  show ?thesis
  proof (cases ov)
    case (Some v)
    with Pair kind_type_basic [of "dyn_kind v"] show ?thesis
      by (auto simp: track_value_def update_vals_def basic_def Let_def)
  qed (simp add: Pair track_value_def update_vals_def)
qed

lemma track_values_vals:
  "store_vals (fst (foldl track_value (m, d) nvs)) = foldl update_vals (store_vals m) nvs"
proof (induction nvs arbitrary: m d)
  case (Cons nv nvs)
  obtain m1 d1 where md: "track_value (m, d) nv = (m1, d1)" by fastforce
  with track_value_vals [of m d nv] Cons.IH [of m1 d1] show ?case by simp
qed simp

lemma update_vals_ran:
  "\<forall>v \<in> ran m. P v \<Longrightarrow> \<forall>v. snd nv = Some v \<longrightarrow> P v \<Longrightarrow> \<forall>v \<in> ran (update_vals m nv). P v"
  by (cases nv) (auto simp: update_vals_def ran_def split: option.split)

lemma update_vals_foldl_ran:
  "\<forall>v \<in> ran m. P v \<Longrightarrow> \<forall>nv \<in> set nvs. \<forall>v. snd nv = Some v \<longrightarrow> P v \<Longrightarrow> \<forall>v \<in> ran (foldl update_vals m nvs). P v"
proof (induction nvs arbitrary: m)
  case (Cons nv nvs)
  have "\<forall>v \<in> ran (update_vals m nv). P v" using Cons.prems by (intro update_vals_ran) auto
  moreover have "\<forall>nv \<in> set nvs. \<forall>v. snd nv = Some v \<longrightarrow> P v" using Cons.prems(2) by (meson list.set_intros(2))
  ultimately have "\<forall>v \<in> ran (foldl update_vals (update_vals m nv) nvs). P v" by (rule Cons.IH)
  then show ?case unfolding foldl.simps .
qed simp

lemma collect_known: "\<forall>k \<in> set ks. \<exists>p. f k = Some p \<Longrightarrow> [p. k \<leftarrow> ks, Some p \<leftarrow> [f k]] = map (\<lambda>k. the (f k)) ks"
  by (induction ks) auto

lemma store_pairs_eq:
  assumes "range_ok E" "store_ok m"
  shows "store_pairs E m = map (\<lambda>k. the (map_of m k)) (range_keys E (map fst m))"
    and "map pair_VarName (store_pairs E m) = range_keys E (map fst m)"
    and "distinct (map pair_VarName (store_pairs E m))"
    and "set (store_pairs E m) = ran (map_of m)"
    and "list_all tracked_pair (store_pairs E m)"
proof -
  let ?ks = "range_keys E (map fst m)"
  have ks: "distinct ?ks" "set ?ks = set (map fst m)"
    using assms by (auto simp: range_ok_def store_ok_def gomap_wf_def)
  have get: "\<exists>p. map_of m k = Some p" if "k \<in> set ?ks" for k
    using that ks(2) by (metis map_of_eq_None_iff not_Some_eq set_map)
  show eq: "store_pairs E m = map (\<lambda>k. the (map_of m k)) ?ks"
    unfolding store_pairs_def using get by (intro collect_known) blast
  show names: "map pair_VarName (store_pairs E m) = ?ks"
    unfolding eq map_map using get assms(2) by (intro map_idI) (fastforce simp: store_ok_def)
  show "distinct (map pair_VarName (store_pairs E m))" using names ks by simp
  show ran: "set (store_pairs E m) = ran (map_of m)"
  proof -
    have "set ?ks = dom (map_of m)" by (simp add: ks dom_map_of_conv_image_fst)
    then show ?thesis unfolding eq by (force simp: ran_def dom_def)
  qed
  show "list_all tracked_pair (store_pairs E m)"
    using assms(2) by (auto simp: list_all_iff ran store_ok_def ran_def)
qed

lemma map_of_named:
  assumes "distinct (map f ps)"
  shows "map_of (map (\<lambda>p. (f p, p)) ps) n = Some p \<longleftrightarrow> p \<in> set ps \<and> f p = n"
  using assms by (subst map_of_eq_Some_iff) (auto simp: comp_def)

lemma sorted_dump:
  assumes "range_ok E" "store_ok m"
  shows "dump_ok (sort_ByName (store_pairs E m))"
    and "dump_vals (sort_ByName (store_pairs E m)) = store_vals m"
proof -
  let ?ps = "store_pairs E m"
  note ps = store_pairs_eq [OF assms]
  have dist: "distinct (map pair_VarName (sort_ByName ?ps))"
    using ps(3) by (simp add: sort_ByName_def distinct_map)
  show "dump_ok (sort_ByName ?ps)"
    unfolding dump_ok_def using dist ps(5) by (simp add: sort_ByName_def list_all_iff)
  have "set (map pair_VarName ?ps) = set (map fst m)"
    unfolding ps(2) using assms by (simp add: range_ok_def store_ok_def gomap_wf_def)
  then have names: "pair_VarName ` set ?ps = fst ` set m" by simp
  show "dump_vals (sort_ByName ?ps) = store_vals m"
  proof
    fix n
    have "map_of (map (\<lambda>p. (pair_VarName p, p)) (sort_ByName ?ps)) n = map_of m n"
    proof (rule option.expand)
      show "(map_of (map (\<lambda>p. (pair_VarName p, p)) (sort_ByName ?ps)) n = None) = (map_of m n = None)"
        using names by (simp add: map_of_eq_None_iff sort_ByName_def image_image)
    next
      assume "map_of (map (\<lambda>p. (pair_VarName p, p)) (sort_ByName ?ps)) n \<noteq> None" "map_of m n \<noteq> None"
      then obtain p q where pq: "map_of (map (\<lambda>p. (pair_VarName p, p)) (sort_ByName ?ps)) n = Some p" "map_of m n = Some q"
        by auto
      then have "p \<in> ran (map_of m)" "pair_VarName p = n"
        using map_of_named [OF dist] ps(4) by (auto simp: sort_ByName_def)
      with assms(2) have "map_of m n = Some p" by (auto simp: store_ok_def ran_def)
      with pq show "the (map_of (map (\<lambda>p. (pair_VarName p, p)) (sort_ByName ?ps)) n) = the (map_of m n)" by simp
    qed
    then show "dump_vals (sort_ByName ?ps) n = store_vals m n"
      by (simp add: dump_vals_def store_vals_def)
  qed
qed

subsection \<open>The steps\<close>

lemma tracking_encodable:
  assumes "tracking E quick i s" "varStore s = Some m"
  shows "list_all (\<lambda>q. encodable E (pair_Value q)) (sort_ByName (store_pairs E m))"
proof -
  have ok: "range_ok E" "store_ok m" using assms by (auto simp: tracking_def up_def rt_inv_def)
  note ps = store_pairs_eq [OF ok]
  have "encodable E (pair_Value p)" if p: "p \<in> set (store_pairs E m)" for p
  proof -
    from p ps(4) obtain n where n: "map_of m n = Some p" by (auto simp: ran_def)
    obtain v where v: "pair_Value p = Some v"
      using p ps(5) tracked_pairD by (force simp: list_all_iff)
    with n have "v \<in> ran (store_vals m)" by (auto simp: ran_def store_vals_def intro!: exI [of _ n])
    with v assms show ?thesis by (auto simp: tracking_def)
  qed
  then show ?thesis by (simp add: list_all_iff sort_ByName_def)
qed

lemma Track_simulates:
  assumes "tracking E quick i s" "call_ok E (CTrack did ns vs)"
  shows "\<exists>s'. Track G E did ns vs s = Inr s' \<and> tracking E quick i s' \<and>
    tracker_of s' = tracker_call G info (tracker_of s) (CTrack did ns vs)"
proof -
  have u: "up s" using assms by (simp add: tracking_def)
  then obtain m where m: "varStore s = Some m" by (rule up_obtains)
  have len: "length (split_comma ns) = length vs" using assms(2) by (simp add: call_ok_def)
  obtain s' d c m' dd where s': "Track G E did ns vs s = Inr s'" "up s'"
    and f: "foldl track_value (m, NewDumpDiff d) (zip (split_comma ns) vs) = (m', dd)"
    and eq: "s' = s\<lparr>dumpIDCache := c, varStore := Some m', trace := trace s @ [dd], kvDumpIds := kvDumpIds s @ [did]\<rparr>"
    by (rule Track_up [OF u m len])
  have vals: "store_vals m' = foldl update_vals (store_vals m) (zip (split_comma ns) vs)"
    using track_values_vals [of m "NewDumpDiff d"] f by (metis fst_conv)
  have "\<forall>v \<in> ran (store_vals m'). encodable E (Some v)"
    unfolding vals
  proof (rule update_vals_foldl_ran)
    show "\<forall>v \<in> ran (store_vals m). encodable E (Some v)" using assms(1) m by (simp add: tracking_def)
    show "\<forall>nv \<in> set (zip (split_comma ns) vs). \<forall>v. snd nv = Some v \<longrightarrow> encodable E (Some v)"
      using assms(2) by (auto simp: call_ok_def list_all_iff dest: set_zip_rightD)
  qed
  with assms(1) s' have "tracking E quick i s'" by (simp add: tracking_def eq)
  moreover have "tracker_of s' = tracker_call G info (tracker_of s) (CTrack did ns vs)"
    by (simp add: tracker_of_def tracker_call_def eq m vals)
  ultimately show ?thesis using s' by blast
qed

lemma event_simulates:
  assumes "tracking E quick i s" "is_event c"
  shows "\<exists>s'. run_call G E s c = Inr s' \<and> tracking E quick i s' \<and>
    tracker_of s' = tracker_call G (event_info E quick i) (tracker_of s) c"
proof -
  have u: "up s" "\<not> remotelogging s" and f: "fast s = quick" "rt_id s = i" using assms by (auto simp: tracking_def)
  obtain m g where m: "varStore s = Some m" "goVecLogger s = Some g" using u(1) by (rule up_obtains)
  obtain ps where ps: "Encoder s = Some ps" using u by (auto simp: up_def rt_inv_def)
  let ?g = "tick G (event_info E quick i) c g"
  let ?s = "s\<lparr>goVecLogger := Some ?g\<rparr>"
  have us: "up ?s" using u by simp
  define q where "q = store_point G E ?s"
  have q: "pt_Dump q = sort_ByName (store_pairs E m)" "pt_VectorClock q = GetCurrentVC G ?g"
    by (simp_all add: q_def store_point_def point_now_def m)
  let ?s' = "?s\<lparr>kvDumpIds := [], varStore := Some [], Encoder := Some (ps @ [q])\<rparr>"
  have ok: "range_ok E" "store_ok m" using assms m by (auto simp: tracking_def up_def rt_inv_def)
  have enc: "Encode E q ps = ps @ [q]"
    using tracking_encodable [OF assms(1) m(1)] by (simp add: Encode_def q)
  have lvs: "logVarStore G E ?s = Inr ?s'"
    using logVarStore_up [OF us, of G E] ps enc by (simp add: q_def)
  obtain msg ty inf where "run_call G E s c = log_event G E msg ty inf ?s"
    using run_call_event [OF u(1) assms(2), of G E] f m by auto
  then have run: "run_call G E s c = Inr ?s'" using lvs u(2) by (simp add: log_event_def)
  have "up ?s'" using logVarStore_inv [OF us lvs] .
  then have "tracking E quick i ?s'"
    using assms(1) ps sorted_dump(1) [OF ok] by (auto simp: tracking_def q store_vals_def ran_def)
  moreover have "tracker_of ?s' = tracker_call G (event_info E quick i) (tracker_of s) c"
    using assms(2) sorted_dump(2) [OF ok]
    by (cases c) (auto simp: tracker_of_def tracker_call_def q m ps Let_def store_vals_def fun_eq_iff)
  ultimately show ?thesis using run by blast
qed

lemma call_simulates:
  assumes "tracking E quick i s" "call_ok E c"
  shows "\<exists>s'. run_call G E s c = Inr s' \<and> tracking E quick i s' \<and>
    tracker_of s' = tracker_call G (event_info E quick i) (tracker_of s) c"
proof (cases "is_event c")
  case True
  then show ?thesis using event_simulates [OF assms(1)] by blast
next
  case False
  show ?thesis
  proof (cases c)
    case (CInitalize h)
    with assms(1) show ?thesis
      by (auto simp: run_call_def Initalize_def tracking_def up_def tracker_call_def)
  next
    case (CTrack did ns vs)
    with assms Track_simulates [of E quick i s did ns vs] show ?thesis by (simp add: run_call_def)
  qed (use False assms(2) in \<open>auto simp: call_ok_def\<close>)
qed

interpretation tracked: call_simulation "run_call G E" "tracker_call G (event_info E quick i)" tracker_of
    "call_ok E" "tracking E quick i" for G E quick i
  by unfold_locales (rule call_simulates)

subsection \<open>Runs from the start\<close>

definition host_id :: "string \<Rightarrow> string" where
  "host_id h = map (\<lambda>c. if is_space c then CHR ''_'' else c) h"

definition tracker_start :: "('g, 'm) govec \<Rightarrow> string \<Rightarrow> 'g tracker" where
  "tracker_start G i = \<lparr>tr_vals = Map.empty, tr_clock = InitGoVector G i (i @ ''.log''), tr_log = []\<rparr>"

lemma Initalize_start:
  fixes G :: "('g, 'm) govec"
  assumes "range_ok E" "h \<noteq> []" "create_ok E (host_id h @ ''Encoded.txt'')"
  obtains s where "run_call G E (rt_start False) (CInitalize h) = Inr s" "tracking E False (host_id h) s"
    "tracker_of s = tracker_start G (host_id h)"
proof -
  let ?r = "rt_start False :: 'g rt_state"
  have h: "host_id h \<noteq> []" using assms(2) by (simp add: host_id_def)
  obtain s where s: "initDinv G E (host_id h) ?r = Inr s"
    and f: "remotelogging s = False" "fast s = False" "rt_id s = host_id h" "varStore s = Some []" "Encoder s = Some []"
      "goVecLogger s = Some (InitGoVector G (host_id h) (host_id h @ ''.log''))"
    using assms(3) h by (auto simp: initDinv_def rt_start_def Let_def)
  have "run_call G E ?r (CInitalize h) = Inr s"
    using s by (simp add: run_call_def Initalize_def host_id_def rt_start_def)
  moreover have "up s" using initDinv_inv [OF rt_inv_start s] by (simp add: up_def)
  ultimately show thesis
    using that assms(1) f
    by (simp add: tracking_def tracker_of_def tracker_start_def store_vals_def [abs_def])
qed

lemma run_calls_up:
  assumes "rt_inv s" "run_calls G E s cs = Inr s'"
  shows "rt_inv s' \<and> (cs \<noteq> [] \<longrightarrow> up s')"
  using assms
proof (induction cs arbitrary: s)
  case Nil
  then show ?case by (simp add: run_calls_def)
next
  case (Cons c cs)
  then obtain s1 where s1: "run_call G E s c = Inr s1" "run_calls G E s1 cs = Inr s'"
    by (auto simp: run_calls_def go_bind)
  have "up s1" using run_call_inv [OF Cons.prems(1) s1(1)] .
  with Cons.IH [OF _ s1(2)] s1(2) show ?case by (cases cs) (auto simp: up_def run_calls_def)
qed

text \<open>In local mode nothing ever shortens the trace.\<close>

fun is_track :: "'m call \<Rightarrow> bool" where
  "is_track (CTrack _ _ _) \<longleftrightarrow> True"
| "is_track _ \<longleftrightarrow> False"

lemma initDinv_frame:
  "rt_inv s \<Longrightarrow> initDinv G E h s = Inr s1 \<Longrightarrow> remotelogging s1 = remotelogging s \<and> trace s1 = trace s"
  by (auto simp: initDinv_def rt_inv_def Let_def split: if_splits)

lemma log_event_frame:
  assumes "up s" "log_event G E msg ty info s = Inr s'"
  shows "remotelogging s' = remotelogging s" "\<not> remotelogging s \<Longrightarrow> trace s' = trace s"
  using assms
  by (auto simp: log_event_def logVarStore_up TransitionTrace_Reset_def Let_def split: if_splits option.splits)

lemma run_call_frame_up:
  assumes "up s" "run_call G E s c = Inr s'"
  shows "remotelogging s' = remotelogging s \<and>
    (\<not> remotelogging s \<longrightarrow> length (trace s') = length (trace s) + (if is_track c then 1 else 0))"
proof (cases "is_event c")
  case True
  then have "\<not> is_track c" by (cases c) auto
  moreover obtain msg ty info g where ev: "log_event G E msg ty info (s\<lparr>goVecLogger := Some g\<rparr>) = Inr s'"
    using run_call_event [OF assms(1) True, of G E] assms(2) by auto
  ultimately show ?thesis using log_event_frame [OF up_clock [OF assms(1)] ev] by simp
next
  case False
  have i: "initialized s" and kv: "s\<lparr>useKV := True\<rparr> = s"
    using assms(1) by (cases s; simp add: up_def rt_inv_def)+
  show ?thesis
  proof (cases c)
    case (CInitalize h)
    with assms i show ?thesis by (simp add: run_call_def Initalize_def)
  next
    case (CDump did ns vs)
    with assms show ?thesis by (auto simp: run_call_def Dump_call_def logPairList_up split: if_splits option.splits)
  next
    case (CTrack did ns vs)
    with assms kv have len: "length (split_comma ns) = length vs"
      by (auto simp: run_call_def Track_def split: if_splits)
    obtain m where m: "varStore s = Some m" using assms(1) by (rule up_obtains)
    show ?thesis
      by (rule Track_up [OF assms(1) m len, of G E did]) (use assms(2) CTrack in \<open>auto simp: run_call_def\<close>)
  qed (use False in auto)
qed

lemma run_call_frame:
  assumes "rt_inv s" "run_call G E s c = Inr s'"
  shows "remotelogging s' = remotelogging s \<and>
    (\<not> remotelogging s \<longrightarrow> length (trace s') = length (trace s) + (if is_track c then 1 else 0))"
proof (cases "\<exists>h. c = CInitalize h")
  case True
  with assms show ?thesis
    by (auto simp: run_call_def Initalize_def go_bind dest: initDinv_frame split: if_splits)
next
  case False
  then have "run_call G E s c = rbind (initDinv G E [] s) (\<lambda>s1. run_call G E s1 c)"
    by (intro run_call_init [OF assms(1)]) blast
  with assms obtain s1 where s1: "initDinv G E [] s = Inr s1" "run_call G E s1 c = Inr s'"
    by (auto simp: go_bind)
  from initDinv_inv [OF assms(1) s1(1)] have "up s1" by (simp add: up_def)
  with run_call_frame_up [OF _ s1(2)] initDinv_frame [OF assms(1) s1(1)] show ?thesis by simp
qed

lemma run_calls_frame:
  assumes "rt_inv s" "run_calls G E s cs = Inr s'"
  shows "remotelogging s' = remotelogging s \<and>
    (\<not> remotelogging s \<longrightarrow> length (trace s') = length (trace s) + length (filter is_track cs))"
  using assms
proof (induction cs arbitrary: s)
  case Nil
  then show ?case by (simp add: run_calls_def)
next
  case (Cons c cs)
  then obtain s1 where s1: "run_call G E s c = Inr s1" "run_calls G E s1 cs = Inr s'"
    by (auto simp: run_calls_def go_bind)
  have "rt_inv s1" using run_call_inv [OF Cons.prems(1) s1(1)] by (simp add: up_def)
  from Cons.IH [OF this s1(2)] run_call_frame [OF Cons.prems(1) s1(1)] show ?case by simp
qed

subsection \<open>Dump and the ids of the store\<close>

lemma fill_pairs_eq:
  assumes "length ns = length vs" "p + length (non_nil_pairs ns vs) \<le> length pairs"
  shows "fill_pairs ns vs p pairs =
    take p pairs @ non_nil_pairs ns vs @ drop (p + length (non_nil_pairs ns vs)) pairs"
  using assms
proof (induction ns vs p pairs rule: fill_pairs.induct)
  case (1 n ns v vs p pairs)
  have c: "non_nil_pairs (n # ns) (Some v # vs) = newPair n v # non_nil_pairs ns vs"
    by (simp add: non_nil_pairs_def)
  with 1 show ?case by (simp add: take_Suc_conv_app_nth drop_update_cancel)
next
  case (2 n ns vs p pairs)
  have c: "non_nil_pairs (n # ns) (None # vs) = non_nil_pairs ns vs"
    by (simp add: non_nil_pairs_def)
  with 2 show ?case by simp
qed (auto simp: non_nil_pairs_def)

lemma non_nil_length:
  "length ns = length vs \<Longrightarrow> length (non_nil_pairs ns vs) + length (filter (\<lambda>v. v = None) vs) = length vs"
proof (induction ns vs rule: list_induct2)
  case (Cons n ns v vs)
  then show ?case by (cases v) (simp_all add: non_nil_pairs_def)
qed (simp add: non_nil_pairs_def)

lemma fill_pairs_dump:
  assumes "length ns = length vs"
  shows "fill_pairs ns vs 0 (replicate (length vs) zero_pair) =
    non_nil_pairs ns vs @ replicate (length (filter (\<lambda>v. v = None) vs)) zero_pair"
proof -
  have "length vs - length (non_nil_pairs ns vs) = length (filter (\<lambda>v. v = None) vs)"
    using non_nil_length [OF assms] by simp
  then show ?thesis
    using fill_pairs_eq [of ns vs 0 "replicate (length vs) zero_pair"] assms non_nil_length [OF assms] by simp
qed

lemma noDups_keys:
  "map_of (foldl (\<lambda>m n. gomap_set n n m) m ns) k = (if k \<in> set ns then Some k else map_of m k)"
  "gomap_wf m \<Longrightarrow> gomap_wf (foldl (\<lambda>m n. gomap_set n n m) m ns)"
  by (induction ns arbitrary: m) (auto simp: gomap_simps)

lemma smeared_names:
  assumes "range_ok E"
  shows "distinct (kvDumpIds (snd (smearedDumpID E s)))"
    and "set (kvDumpIds (snd (smearedDumpID E s))) = set (kvDumpIds s)"
    and "fst (smearedDumpID E s) = Hash E (concatStrings (kvDumpIds (snd (smearedDumpID E s))))"
proof -
  let ?m = "foldl (\<lambda>m n. gomap_set n n m) [] (sort (kvDumpIds s))"
  let ?ks = "range_keys E (map fst ?m)"
  have wf: "gomap_wf ?m" by (rule noDups_keys) simp
  have "fst ` set ?m = dom (map_of ?m)" by (simp add: dom_map_of_conv_image_fst)
  also have "\<dots> = set (kvDumpIds s)" by (auto simp: noDups_keys dom_def)
  finally have keys: "fst ` set ?m = set (kvDumpIds s)" .
  have ks: "distinct ?ks" "set ?ks = set (kvDumpIds s)"
    using assms wf keys by (auto simp: range_ok_def gomap_wf_def)
  have "[v. k \<leftarrow> ?ks, Some v \<leftarrow> [gomap_get ?m k]] = map (\<lambda>k. the (gomap_get ?m k)) ?ks"
    by (rule collect_known) (simp add: ks noDups_keys)
  also have "\<dots> = ?ks" by (rule map_idI) (simp add: ks noDups_keys)
  finally have eq: "kvDumpIds (snd (smearedDumpID E s)) = ?ks" by (simp add: smearedDumpID_def Let_def)
  show "distinct (kvDumpIds (snd (smearedDumpID E s)))" "set (kvDumpIds (snd (smearedDumpID E s))) = set (kvDumpIds s)"
    by (simp_all add: eq ks)
  show "fst (smearedDumpID E s) = Hash E (concatStrings (kvDumpIds (snd (smearedDumpID E s))))"
    by (simp add: smearedDumpID_def Let_def)
qed

section \<open>Reading a written log back\<close>

text \<open>
  What the JSON decoder of the log merger makes of an encoded value: every number becomes a
  \<open>float64\<close>, the nearest one with ties to even; an integer is written in full, a \<open>float64\<close> by a text
  that is read as the same number. The text of a \<open>float32\<close> is the shortest that a \<open>float32\<close> decoder reads
  back, and another number for a \<open>float64\<close> decoder; \<open>f32\<close> stands for the number read. In a string the
  encoder replaces every byte that is not part of valid UTF-8 by the character U+FFFD.
\<close>

definition in_range :: "nat \<Rightarrow> nat \<Rightarrow> char \<Rightarrow> bool" where
  "in_range lo hi c \<longleftrightarrow> lo \<le> of_char c \<and> of_char c \<le> hi"

text \<open>The number of bytes of the first character, 0 if it is not valid.\<close>

definition utf8_size :: "string \<Rightarrow> nat" where
  "utf8_size s =
     (case s of
        [] \<Rightarrow> 0
      | c # r \<Rightarrow>
          if in_range 0 0x7F c then 1
          else if in_range 0xC2 0xDF c then
            (case r of x # _ \<Rightarrow> if in_range 0x80 0xBF x then 2 else 0 | _ \<Rightarrow> 0)
          else if in_range 0xE0 0xEF c then
            (case r of
               x # y # _ \<Rightarrow>
                 if in_range (if c = CHR 0xE0 then 0xA0 else 0x80) (if c = CHR 0xED then 0x9F else 0xBF) x \<and> in_range 0x80 0xBF y
                 then 3 else 0
             | _ \<Rightarrow> 0)
          else if in_range 0xF0 0xF4 c then
            (case r of
               x # y # z # _ \<Rightarrow>
                 if in_range (if c = CHR 0xF0 then 0x90 else 0x80) (if c = CHR 0xF4 then 0x8F else 0xBF) x \<and>
                    in_range 0x80 0xBF y \<and> in_range 0x80 0xBF z
                 then 4 else 0
             | _ \<Rightarrow> 0)
          else 0)"

function json_utf8 :: "string \<Rightarrow> string" where
  "json_utf8 s =
     (if s = [] then []
      else if utf8_size s = 0 then [CHR 0xEF, CHR 0xBF, CHR 0xBD] @ json_utf8 (tl s)
      else take (utf8_size s) s @ json_utf8 (drop (utf8_size s) s))"
  by pat_completeness auto
termination
  by (relation "measure length") (auto simp: neq_Nil_conv)

declare json_utf8.simps [simp del]

lemma json_utf8_ascii: "list_all (in_range 0 0x7F) s \<Longrightarrow> json_utf8 s = s"
  by (induction s) (simp_all add: json_utf8.simps utf8_size_def)

lemma json_utf8_invalid: "json_utf8 [CHR ''a'', CHR 0xFF] = [CHR ''a'', CHR 0xEF, CHR 0xBF, CHR 0xBD]"
  by (simp add: json_utf8.simps utf8_size_def in_range_def)

fun bit_len :: "nat \<Rightarrow> nat" where
  "bit_len n = (if n = 0 then 0 else Suc (bit_len (n div 2)))"

declare bit_len.simps [simp del]

definition float64_of :: "int \<Rightarrow> go_value" where
  "float64_of i =
     (if \<bar>i\<bar> \<le> 2 ^ 53 then VFloat i 0
      else let e = int (bit_len (nat \<bar>i\<bar>)) - 53 in VFloat (sgn i * int (scaled_round 1 i (- e))) e)"

definition json_value :: "(int \<Rightarrow> int \<Rightarrow> go_value) \<Rightarrow> iface option \<Rightarrow> go_value" where
  "json_value f32 ov =
     (case ov of
        None \<Rightarrow> VOther
      | Some v \<Rightarrow>
          (case dyn_value v of
             VBool b \<Rightarrow> VBool b
           | VInt i \<Rightarrow> float64_of i
           | VUint n \<Rightarrow> float64_of (int n)
           | VFloat m e \<Rightarrow> if dyn_kind v = KFloat32 then f32 m e else VFloat m e
           | VString t \<Rightarrow> VString (json_utf8 t)
           | _ \<Rightarrow> VOther))"

definition json_point :: "(int \<Rightarrow> int \<Rightarrow> go_value) \<Rightarrow> rt_point \<Rightarrow> Point" where
  "json_point f32 p =
     \<lparr>Dump = map (\<lambda>q. \<lparr>VarName = json_utf8 (pair_VarName q), Value = json_value f32 (pair_Value q), Type = pair_Type q\<rparr>) (pt_Dump p),
      Id = json_utf8 (pt_Id p), VectorClock = pt_VectorClock p, CommunicationDelta = pt_CommunicationDelta p\<rparr>"

text \<open>A value of one of the basic types of the language: the kind of its type and the value agree. Floats are finite.\<close>

definition well_typed :: "iface \<Rightarrow> bool" where
  "well_typed v \<longleftrightarrow>
     (case dyn_value v of
        VBool b \<Rightarrow> dyn_kind v = KBool
      | VInt i \<Rightarrow> dyn_kind v \<in> {KInt, KInt8, KInt16, KInt32, KInt64}
      | VUint n \<Rightarrow> dyn_kind v \<in> {KUint, KUint8, KUint16, KUint32, KUint64}
      | VFloat m e \<Rightarrow> dyn_kind v \<in> {KFloat32, KFloat64}
      | VString t \<Rightarrow> dyn_kind v = KString
      | _ \<Rightarrow> False)"

text \<open>An integer a \<open>float64\<close> holds exactly.\<close>

definition fits53 :: "iface \<Rightarrow> bool" where
  "fits53 v \<longleftrightarrow> (case dyn_value v of VInt i \<Rightarrow> \<bar>i\<bar> \<le> 2 ^ 53 | VUint n \<Rightarrow> n \<le> 2 ^ 53 | _ \<Rightarrow> True)"

text \<open>What is read for a value, and the name of its type.\<close>

definition read_value :: "(int \<Rightarrow> int \<Rightarrow> go_value) \<Rightarrow> iface \<Rightarrow> go_value" where
  "read_value f32 v =
     (case dyn_value v of
        VUint n \<Rightarrow> VInt (int n)
      | VFloat m e \<Rightarrow> if dyn_kind v = KFloat32 then f32 m e else VFloat m e
      | VString t \<Rightarrow> VString (json_utf8 t)
      | w \<Rightarrow> w)"

definition type_name :: "go_value \<Rightarrow> string" where
  "type_name w =
     (case w of
        VBool b \<Rightarrow> ''boolean''
      | VInt i \<Rightarrow> ''int''
      | VUint n \<Rightarrow> ''int''
      | VFloat m e \<Rightarrow> ''float''
      | VString t \<Rightarrow> ''string''
      | _ \<Rightarrow> '''')"

text \<open>A pair without a value, as \<open>Dump\<close> leaves for a nil, reads as a pair without name, value and type.\<close>

definition read_back :: "(int \<Rightarrow> int \<Rightarrow> go_value) \<Rightarrow> rt_pair \<Rightarrow> NameValuePair" where
  "read_back f32 q =
     (case pair_Value q of
        None \<Rightarrow> \<lparr>VarName = '''', Value = VOther, Type = ''''\<rparr>
      | Some v \<Rightarrow> \<lparr>VarName = json_utf8 (pair_VarName q), Value = read_value f32 v, Type = type_name (dyn_value v)\<rparr>)"

definition read_point :: "(int \<Rightarrow> int \<Rightarrow> go_value) \<Rightarrow> rt_point \<Rightarrow> Point" where
  "read_point f32 p =
     \<lparr>Dump = map (read_back f32) (pt_Dump p), Id = json_utf8 (pt_Id p), VectorClock = pt_VectorClock p,
      CommunicationDelta = pt_CommunicationDelta p\<rparr>"

lemma float64_of_exact: "\<bar>i\<bar> \<le> 2 ^ 53 \<Longrightarrow> float64_of i = VFloat i 0"
  by (simp add: float64_of_def)

lemma float_trunc_0 [simp]: "float_trunc i 0 = i"
  by (simp add: float_trunc_def mult_sgn_abs)

text \<open>A tracked integer of 2 to the 53 plus 1 reads back as 2 to the 53.\<close>

lemma large_int_read_back:
  "float64_of (2 ^ 53 + 1) = VFloat (2 ^ 52) 1" "float_trunc (2 ^ 52) 1 = 2 ^ 53"
proof -
  have "bit_len (9007199254740993::nat) = 54" by (simp add: bit_len.simps)
  then show "float64_of (2 ^ 53 + 1) = VFloat (2 ^ 52) 1"
    by (simp add: float64_of_def scaled_round_def Let_def)
qed (simp add: float_trunc_def)

lemma kind_type_name: "well_typed v \<Longrightarrow> kind_type (dyn_kind v) = type_name (dyn_value v)"
  by (auto simp: well_typed_def kind_type_def type_name_def split: go_value.splits)

lemma json_zero_pair: "json_utf8 (pair_VarName zero_pair) = ''''" "pair_Value zero_pair = None" "pair_Type zero_pair = ''''"
  by (simp_all add: zero_pair_def json_utf8.simps)

lemma fix_pair:
  assumes "q = zero_pair \<or> (\<exists>n v. q = newPair n v \<and> well_typed v \<and> fits53 v)"
  shows "(let nvp = \<lparr>VarName = json_utf8 (pair_VarName q), Value = json_value f32 (pair_Value q), Type = pair_Type q\<rparr>
    in if Type nvp = ''int'' then
         (case Value nvp of VFloat m e \<Rightarrow> Inr (nvp\<lparr>Value := VInt (float_trunc m e)\<rparr>) | _ \<Rightarrow> Inl TypeAssertion)
       else Inr nvp) = Inr (read_back f32 q)"
  using assms
proof (elim disjE exE conjE)
  assume "q = zero_pair"
  then show ?thesis by (simp add: json_zero_pair read_back_def json_value_def)
next
  fix n v
  assume v: "q = newPair n v" "well_typed v" "fits53 v"
  have q: "q = \<lparr>pair_VarName = n, pair_Value = Some v, pair_Type = type_name (dyn_value v)\<rparr>"
    by (simp add: v(1) newPair_def kind_type_name [OF v(2)])
  from v(2,3) show ?thesis unfolding q
    by (cases "dyn_value v")
      (auto simp: fits53_def well_typed_def type_name_def json_value_def read_back_def read_value_def float64_of_exact Let_def)
qed

lemma traverse_map:
  "(\<And>x. x \<in> set xs \<Longrightarrow> f (j x) = Inr (r x)) \<Longrightarrow> traverse f (map j xs) = Inr (map r xs)"
  by (induction xs) auto

lemma fix_point:
  assumes "\<forall>q \<in> set (pt_Dump p). q = zero_pair \<or> (\<exists>n v. q = newPair n v \<and> well_typed v \<and> fits53 v)"
  shows "fixJsonEncodingTypeConversion (json_point f32 p) = Inr (read_point f32 p)"
proof -
  let ?f = "\<lambda>nvp. if Type nvp = ''int'' then
         (case Value nvp of VFloat m e \<Rightarrow> Inr (nvp\<lparr>Value := VInt (float_trunc m e)\<rparr>) | _ \<Rightarrow> Inl TypeAssertion)
       else Inr nvp"
  let ?j = "\<lambda>q. \<lparr>VarName = json_utf8 (pair_VarName q), Value = json_value f32 (pair_Value q), Type = pair_Type q\<rparr>"
  have "traverse ?f (map ?j (pt_Dump p)) = Inr (map (read_back f32) (pt_Dump p))"
    using fix_pair [of _ f32] assms by (intro traverse_map) (simp add: Let_def)
  then show ?thesis by (simp add: fixJsonEncodingTypeConversion_def json_point_def read_point_def)
qed

section \<open>Properties\<close>

text \<open>
  A concrete host: the logger counts its events, the range visits keys in the order of the
  list, files can be created.
\<close>

definition counter_govec :: "(nat, nat) govec" where
  "counter_govec =
     \<lparr>InitGoVector = (\<lambda>_ _. 1), PrepareSend = (\<lambda>g _ _. ([], g + 1)), UnpackReceive = (\<lambda>g _ _. (0, g + 1)),
      LogLocalEvent = (\<lambda>g _. g + 1), GetCurrentVC = (\<lambda>g. [of_nat g])\<rparr>"

definition plain_env :: "nat rt_env" where
  "plain_env =
     \<lparr>Getenv = (\<lambda>v. if v = ''DINV_HOSTNAME'' then [] else ''x''), Nanosecond = 7, create_ok = (\<lambda>_. True),
      dial_ok = (\<lambda>_. True), stack_matches = [(''f'', ''api.go:1''), (''main.f'', ''main.go:7'')],
      encode_other = (\<lambda>_. False), marshal_state = (\<lambda>_. Some []), marshal_trace = (\<lambda>_. []),
      msg_fields = (\<lambda>_. []), marshal_fields = (\<lambda>_. []), rpc_Log = (\<lambda>r. \<lparr>Project = ''p'', Session = ''s'', LogNode = ''n''\<rparr>),
      range_keys = (\<lambda>ks. ks), Hash = (\<lambda>x. x)\<rparr>"

definition an_int :: "int \<Rightarrow> iface" where
  "an_int i = \<lparr>dyn_type = ''int'', dyn_kind = KInt, dyn_value = VInt i\<rparr>"

lemma plain_env_simps [simp]:
  "range_ok plain_env" "inj (Hash plain_env)" "create_ok plain_env f" "encodable plain_env (Some (an_int i))" "basic (an_int i)"
  "encodable plain_env None"
  by (simp_all add: range_ok_def plain_env_def inj_def encodable_def an_int_def basic_def kind_type_def)

text \<open>
  C25: the contract of \<open>Track\<close> in local mode. A host that is initialised under a name and then
  only tracks variables and passes events of vector time (\<open>call_ok\<close>: every \<open>Track\<close> has as many names as
  values and the values have a JSON form) never fails, and it refines the abstract tracker: the log holds exactly one point per event, in order, with the vector clock
  right after the event and the latest value of every variable tracked since the event before;
  nil values and values of other kinds are skipped. Every dump is sorted by name, without
  repetition, and holds only types that Daikon knows.
\<close>

theorem tracked_run_refines:
  assumes "range_ok E" "h \<noteq> []" "create_ok E (host_id h @ ''Encoded.txt'')" "list_all (call_ok E) cs"
  shows "\<exists>s. run_calls G E (rt_start False) (CInitalize h # cs) = Inr s \<and>
    tracker_of s = foldl (tracker_call G (event_info E False (host_id h))) (tracker_start G (host_id h)) cs \<and>
    (\<forall>p \<in> set (the (Encoder s)). dump_ok (pt_Dump p))"
proof -
  obtain s0 where s0: "run_call G E (rt_start False) (CInitalize h) = Inr s0"
    "tracking E False (host_id h) s0" "tracker_of s0 = tracker_start G (host_id h)"
    by (rule Initalize_start [OF assms(1-3)])
  from tracked.calls_step [OF s0(2) assms(4), of G] show ?thesis
    using s0(1,3) by (auto simp: run_calls_def tracking_def)
qed

theorem tracked_run_refines_witness:
  "\<exists>s. run_calls counter_govec plain_env (rt_start False)
      [CInitalize ''a b'', CTrack ''1'' ''x,y'' [Some (an_int 1), None], CTrack ''2'' ''x'' [Some (an_int 2)], CLocal ''e'', CPack 3] = Inr s \<and>
    tracker_of s = \<lparr>tr_vals = Map.empty, tr_clock = 3, tr_log = [([''x'' \<mapsto> an_int 2], [2]), (Map.empty, [3])]\<rparr> \<and>
    (\<forall>p \<in> set (the (Encoder s)). dump_ok (pt_Dump p))"
  using tracked_run_refines [of plain_env "''a b''"
      "[CTrack ''1'' ''x,y'' [Some (an_int 1), None], CTrack ''2'' ''x'' [Some (an_int 2)], CLocal ''e'', CPack 3]" counter_govec]
  by (simp add: call_ok_def tracker_call_def tracker_start_def update_vals_def counter_govec_def Let_def numeral_3_eq_3)

text \<open>
  C26: the invariant of the package state, for every sequence of calls in both modes. The store
  maps a name to a pair of that name whose type is boolean, int, float or string; logger and
  store exist from the first call on, an encoder exactly in local mode; nothing is posted in
  local mode; the cached dump ids name this host. And in local mode the dump trace grows by one
  entry with every \<open>Track\<close> and is never emptied.
\<close>

theorem run_calls_invariant:
  assumes "run_calls G E (rt_start remote) cs = Inr s"
  shows "rt_inv s \<and> remotelogging s = remote \<and>
    (cs \<noteq> [] \<longrightarrow> initialized s) \<and>
    (\<not> remote \<longrightarrow> length (trace s) = length (filter is_track cs))"
  using run_calls_up [OF rt_inv_start assms] run_calls_frame [OF rt_inv_start assms]
  by (auto simp: up_def rt_start_def)

theorem run_calls_invariant_witness:
  "\<exists>s. run_calls counter_govec plain_env (rt_start True) [CTrack ''1'' ''x'' [Some (an_int 1)], CLocal ''e''] = Inr s \<and>
    rt_inv s \<and> remotelogging s"
proof -
  have "\<exists>s. run_calls counter_govec plain_env (rt_start True) [CTrack ''1'' ''x'' [Some (an_int 1)], CLocal ''e''] = Inr s"
    by (simp add: run_calls_def run_call_def Track_def initDinv_def rt_start_def plain_env_def counter_govec_def an_int_def
        ResolveDumpID_def getHashedId_def GetId_def track_value_def newPair_def kind_type_def Let_def Local_def log_event_def
        TransitionTrace_Append_def TransitionTrace_Reset_def show_nat.simps digit_char_def)
  with run_calls_invariant [of counter_govec plain_env True "[CTrack ''1'' ''x'' [Some (an_int 1)], CLocal ''e'']"]
  show ?thesis by blast
qed

text \<open>
  C27: what \<open>Dump\<close> writes. At any time in local mode, a dump with as many names as values adds
  one point under the current vector clock and changes nothing else: the pairs of the non-nil
  values in the order of the arguments, then one pair without name, value and type for every
  nil value. A value without a JSON form drops the whole point.
\<close>

theorem Dump_appends_point:
  assumes "run_calls G E (rt_start False) cs = Inr s" "initialized s" "Encoder s = Some ps"
    and "length (split_comma names) = length vals"
  shows "\<exists>p. Dump_call G E did names vals s =
      Inr (s\<lparr>Encoder := Some (if list_all (encodable E) vals then ps @ [p] else ps)\<rparr>) \<and>
    pt_Dump p = non_nil_pairs (split_comma names) vals @ replicate (length (filter (\<lambda>v. v = None) vals)) zero_pair \<and>
    (did \<noteq> [] \<longrightarrow> pt_Id p = did) \<and> pt_VectorClock p = GetCurrentVC G (the (goVecLogger s))"
proof -
  let ?ns = "split_comma names"
  let ?d = "non_nil_pairs ?ns vals @ replicate (length (filter (\<lambda>v. v = None) vals)) zero_pair"
  let ?p = "point_now G E ?d did s"
  have u: "up s" using run_calls_up [OF rt_inv_start assms(1)] assms(2) by (simp add: up_def)
  have "list_all (\<lambda>q. encodable E (pair_Value q)) (non_nil_pairs ns vs) = list_all (encodable E) vs"
    if "length ns = length vs" for ns vs
    using that
  proof (induction ns vs rule: list_induct2)
    case (Cons n ns v vs)
    then show ?case by (cases v) (simp_all add: non_nil_pairs_def encodable_def)
  qed (simp add: non_nil_pairs_def)
  moreover have zero: "list_all (\<lambda>q. encodable E (pair_Value q)) (replicate k zero_pair)" for k
    by (simp add: list_all_iff zero_pair_def encodable_def)
  ultimately have enc: "Encode E ?p ps = (if list_all (encodable E) vals then ps @ [?p] else ps)"
    using assms(4) by (simp add: Encode_def point_now_def)
  have "Dump_call G E did names vals s = Inr (s\<lparr>Encoder := Some (Encode E ?p ps)\<rparr>)"
    using u assms(3,4) by (simp add: Dump_call_def logPairList_up fill_pairs_dump)
  then show ?thesis unfolding enc by (intro exI [of _ ?p]) (simp add: point_now_def point_id_def)
qed

theorem Dump_appends_point_witness:
  "\<exists>s p. run_calls counter_govec plain_env (rt_start False) [CInitalize ''a''] = Inr s \<and>
    Dump_call counter_govec plain_env ''d'' ''x,y'' [None, Some (an_int 5)] s = Inr (s\<lparr>Encoder := Some [p]\<rparr>) \<and>
    pt_Dump p = [newPair ''y'' (an_int 5), zero_pair] \<and> pt_Id p = ''d'' \<and> pt_VectorClock p = [1]"
proof -
  obtain s where s: "run_calls counter_govec plain_env (rt_start False) [CInitalize ''a''] = Inr s"
    "initialized s" "Encoder s = Some []" "goVecLogger s = Some 1"
    by (auto simp: run_calls_def run_call_def Initalize_def initDinv_def rt_start_def plain_env_def counter_govec_def
        is_space_def Let_def)
  from Dump_appends_point [OF s(1-3), of "''x,y''" "[None, Some (an_int 5)]" "''d''"]
  obtain p where "Dump_call counter_govec plain_env ''d'' ''x,y'' [None, Some (an_int 5)] s = Inr (s\<lparr>Encoder := Some [p]\<rparr>)"
    "pt_Dump p = [newPair ''y'' (an_int 5), zero_pair]" "pt_Id p = ''d''" "pt_VectorClock p = [1]"
    by (auto simp: non_nil_pairs_def s(4) counter_govec_def)
  with s(1) show ?thesis by blast
qed

text \<open>
  The failures of an initialised host. In remote mode \<open>Dump\<close> ends in a nil dereference, since
  the encoder is only created in local mode; \<open>Dump\<close> and \<open>Track\<close> panic when the numbers of names
  and values differ; and a second \<open>Initalize\<close> reports an error and changes nothing.
\<close>

theorem initialised_host_failures:
  assumes "run_calls G E (rt_start remote) cs = Inr s" "cs \<noteq> []"
  shows "(remote \<longrightarrow> length (split_comma names) = length vals \<longrightarrow> Dump_call G E did names vals s = Inl NilPointer) \<and>
    (length (split_comma names) \<noteq> length vals \<longrightarrow>
       (\<exists>m. Dump_call G E did names vals s = Inl (Panic m)) \<and> (\<exists>m. Track G E did names vals s = Inl (Panic m))) \<and>
    (\<exists>e. Initalize G E h s = Inr (Some e, s))"
proof -
  have u: "up s" "remotelogging s = remote"
    using run_calls_up [OF rt_inv_start assms(1)] run_calls_frame [OF rt_inv_start assms(1)] assms(2)
    by (auto simp: rt_start_def)
  have kv: "s\<lparr>useKV := True\<rparr> = s" using u(1) by (cases s) (simp add: up_def rt_inv_def)
  have "remote \<Longrightarrow> Encoder s = None" using u by (auto simp: up_def rt_inv_def)
  with u kv show ?thesis
    by (auto simp: Dump_call_def Track_def Initalize_def logPairList_up up_def [THEN iffD1, THEN conjunct2])
qed

theorem initialised_host_failures_witness:
  "\<exists>s. run_calls counter_govec plain_env (rt_start True) [CInitalize ''a''] = Inr s \<and>
    Dump_call counter_govec plain_env ''d'' ''x'' [Some (an_int 5)] s = Inl NilPointer \<and>
    (\<exists>m. Track counter_govec plain_env ''d'' ''x,y'' [Some (an_int 5)] s = Inl (Panic m))"
proof -
  obtain s where s: "run_calls counter_govec plain_env (rt_start True) [CInitalize ''a''] = Inr s"
    by (auto simp: run_calls_def run_call_def Initalize_def initDinv_def rt_start_def plain_env_def counter_govec_def
        is_space_def Let_def)
  from initialised_host_failures [OF s, of "''x''" "[Some (an_int 5)]"]
    initialised_host_failures [OF s, of "''x,y''" "[Some (an_int 5)]"]
  show ?thesis using s by auto
qed

text \<open>
  The id of a stored point. The ids collected since the last event are made unique, but the
  order in which they are joined is that of a range over a map: for a one-to-one hash, two
  visits of the same two dump statements get different ids when the map is visited in the
  other order, although the code sorts the ids to prevent this.
\<close>

theorem smearedDumpID_order:
  assumes "range_ok E" "inj (Hash E)"
  shows "(\<exists>ns. distinct ns \<and> set ns = set (kvDumpIds s) \<and> fst (smearedDumpID E s) = Hash E (concatStrings ns)) \<and>
    (kvDumpIds s = [''a'', ''b''] \<longrightarrow>
       fst (smearedDumpID (E\<lparr>range_keys := sort\<rparr>) s) \<noteq> fst (smearedDumpID (E\<lparr>range_keys := rev \<circ> sort\<rparr>) s))"
proof -
  have "kvDumpIds s = [''a'', ''b''] \<longrightarrow>
      fst (smearedDumpID (E\<lparr>range_keys := sort\<rparr>) s) = Hash E ''a_b_'' \<and>
      fst (smearedDumpID (E\<lparr>range_keys := rev \<circ> sort\<rparr>) s) = Hash E ''b_a_''"
    by (simp add: smearedDumpID_def concatStrings_def Let_def)
  with smeared_names [OF assms(1), of s] assms(2) show ?thesis by (auto simp: inj_eq)
qed

theorem smearedDumpID_order_witness:
  "fst (smearedDumpID (plain_env\<lparr>range_keys := sort\<rparr>) ((rt_start False :: nat rt_state)\<lparr>kvDumpIds := [''a'', ''b'']\<rparr>)) \<noteq>
   fst (smearedDumpID (plain_env\<lparr>range_keys := rev \<circ> sort\<rparr>) ((rt_start False :: nat rt_state)\<lparr>kvDumpIds := [''a'', ''b'']\<rparr>))"
  using smearedDumpID_order [of plain_env "(rt_start False :: nat rt_state)\<lparr>kvDumpIds := [''a'', ''b'']\<rparr>"]
  by simp

text \<open>
  C28: writing and reading. A host writes points whose pairs \<open>newPair\<close> made from values of the basic
  types (all signed and unsigned integer types, both float types, finite, booleans, strings) or \<open>Dump\<close>
  left empty. If the integers are at most 2 to the 53 in size, the log merger reads the points back
  without panic: clocks and deltas unchanged; every pair under the type of its value; booleans, integers
  and \<open>float64\<close> values unchanged, unsigned integers as integers, a \<open>float32\<close> as the number its
  text is for a \<open>float64\<close> decoder; names, ids and strings with every byte that is not part of valid UTF-8 replaced.
\<close>

theorem written_log_reads_back:
  assumes "\<forall>p \<in> set ps. \<forall>q \<in> set (pt_Dump p). q = zero_pair \<or> (\<exists>n v. q = newPair n v \<and> well_typed v \<and> fits53 v)"
  shows "readLog (Some (map (json_point f32) ps, zero_point)) = Inr (map (read_point f32) ps)"
proof -
  have "traverse fixJsonEncodingTypeConversion (map (json_point f32) ps) = Inr (map (read_point f32) ps)"
    using assms by (intro traverse_map fix_point) blast
  then show ?thesis by (simp add: readLog_def fixJsonEncodingTypeConversion_def zero_point_def)
qed

definition mixed_point :: rt_point where
  "mixed_point =
     \<lparr>pt_Dump = [newPair ''x'' (an_int (- 4)), newPair ''u'' \<lparr>dyn_type = ''uint64'', dyn_kind = KUint64, dyn_value = VUint 7\<rparr>,
        newPair ''f'' \<lparr>dyn_type = ''float32'', dyn_kind = KFloat32, dyn_value = VFloat 1 (- 1)\<rparr>,
        newPair ''s'' \<lparr>dyn_type = ''string'', dyn_kind = KString, dyn_value = VString [CHR ''a'', CHR 0xFF]\<rparr>, zero_pair],
      pt_Id = ''i'', pt_VectorClock = [1], pt_CommunicationDelta = 0\<rparr>"

theorem written_log_reads_back_witness:
  "readLog (Some (map (json_point VFloat) [mixed_point], zero_point)) =
   Inr [\<lparr>Dump = [\<lparr>VarName = ''x'', Value = VInt (- 4), Type = ''int''\<rparr>, \<lparr>VarName = ''u'', Value = VInt 7, Type = ''int''\<rparr>,
          \<lparr>VarName = ''f'', Value = VFloat 1 (- 1), Type = ''float''\<rparr>,
          \<lparr>VarName = ''s'', Value = VString [CHR ''a'', CHR 0xEF, CHR 0xBF, CHR 0xBD], Type = ''string''\<rparr>,
          \<lparr>VarName = '''', Value = VOther, Type = ''''\<rparr>],
        Id = ''i'', VectorClock = [1], CommunicationDelta = 0\<rparr>]"
proof -
  have "\<forall>p \<in> set [mixed_point]. \<forall>q \<in> set (pt_Dump p). q = zero_pair \<or> (\<exists>n v. q = newPair n v \<and> well_typed v \<and> fits53 v)"
    unfolding mixed_point_def an_int_def by (auto simp: well_typed_def fits53_def intro!: exI)
  from written_log_reads_back [OF this, of VFloat] show ?thesis
    by (simp add: mixed_point_def read_point_def read_back_def read_value_def type_name_def an_int_def json_utf8_ascii in_range_def
        json_utf8_invalid json_zero_pair)
qed

end
