(* ===== verification/Go_Ast.thy ===== *)
theory Go_Ast
  imports Dinv_Prelude
begin

text \<open>
  The part of \<open>go/ast\<close> that the program slicer looks at, and the syntactic analyses of
  \<open>src/programslicer/dataflow/dataflow.go\<close>: the variables a statement defines and uses.

  A node of the syntax tree is compared by its pointer in the sources; here every node
  carries the number of its address, and \<open>node\<close> plays the part of a pointer. The expression
  forms that no analysis distinguishes are \<open>OtherExpr\<close> with their children in source order;
  the statement forms are those of \<open>go/ast\<close>. The parser resolves labels: a branch statement
  carries the address of its label identifier, of the labelled statement that declares the
  label and of the statement that one labels.
\<close>

section \<open>Syntax trees\<close>

type_synonym node = nat

datatype token = ASSIGN | DEFINE | OP_ASSIGN | EQL | BREAK | CONTINUE | GOTO | FALLTHROUGH

datatype label = Label (label_ident: node) (label_decl: node) (label_stmt: node)

datatype expr =
    Ident node
  | IndexExpr node expr expr
  | CallExpr node expr "expr list"
  | FuncLit node "expr list" "stmt list"
  | OtherExpr node "expr list"
and spec =
    ValueSpec node "expr list" "expr option" "expr list"
  | TypeSpec node "expr list"
and stmt =
    BadStmt node
  | DeclStmt node "spec list"
  | EmptyStmt node
  | LabeledStmt node node stmt
  | ExprStmt node expr
  | SendStmt node expr expr
  | IncDecStmt node expr
  | AssignStmt node "expr list" token "expr list"
  | GoStmt node expr
  | DeferStmt node expr
  | ReturnStmt node "expr list"
  | BranchStmt node token "label option"
  | BlockStmt node "stmt list"
  | IfStmt node "stmt option" expr "stmt list" "stmt option"
  | CaseClause node "expr list option" "stmt list"
  | CommClause node "stmt option" "stmt list"
  | SwitchStmt node "stmt option" "expr option" "stmt list"
  | TypeSwitchStmt node "stmt option" stmt "stmt list"
  | SelectStmt node "stmt list"
  | ForStmt node "stmt option" "expr option" "stmt option" "stmt list"
  | RangeStmt node "expr option" "expr option" expr "stmt list"

primrec addr :: "stmt \<Rightarrow> node" where
  "addr (BadStmt n) = n"
| "addr (DeclStmt n ss) = n"
| "addr (EmptyStmt n) = n"
| "addr (LabeledStmt n l s) = n"
| "addr (ExprStmt n e) = n"
| "addr (SendStmt n c e) = n"
| "addr (IncDecStmt n e) = n"
| "addr (AssignStmt n lhs tok rhs) = n"
| "addr (GoStmt n e) = n"
| "addr (DeferStmt n e) = n"
| "addr (ReturnStmt n es) = n"
| "addr (BranchStmt n tok l) = n"
| "addr (BlockStmt n ss) = n"
| "addr (IfStmt n i c b e) = n"
| "addr (CaseClause n es b) = n"
| "addr (CommClause n c b) = n"
| "addr (SwitchStmt n i t b) = n"
| "addr (TypeSwitchStmt n i a b) = n"
| "addr (SelectStmt n b) = n"
| "addr (ForStmt n i c p b) = n"
| "addr (RangeStmt n k v e b) = n"

text \<open>\<open>idents\<close>: the identifiers that \<open>ast.Inspect\<close> meets in a node.\<close>

primrec idents_expr :: "expr \<Rightarrow> node set"
  and idents_spec :: "spec \<Rightarrow> node set"
  and idents :: "stmt \<Rightarrow> node set" where
  "idents_expr (Ident n) = {n}"
| "idents_expr (IndexExpr n x i) = idents_expr x \<union> idents_expr i"
| "idents_expr (CallExpr n f args) = idents_expr f \<union> \<Union> (set (map idents_expr args))"
| "idents_expr (FuncLit n ts b) = \<Union> (set (map idents_expr ts)) \<union> \<Union> (set (map idents b))"
| "idents_expr (OtherExpr n es) = \<Union> (set (map idents_expr es))"
| "idents_spec (ValueSpec n ns t vs) =
     \<Union> (set (map idents_expr ns)) \<union> \<Union> (set_option (map_option idents_expr t)) \<union> \<Union> (set (map idents_expr vs))"
| "idents_spec (TypeSpec n es) = \<Union> (set (map idents_expr es))"
| "idents (BadStmt n) = {}"
| "idents (DeclStmt n ss) = \<Union> (set (map idents_spec ss))"
| "idents (EmptyStmt n) = {}"
| "idents (LabeledStmt n l s) = insert l (idents s)"
| "idents (ExprStmt n e) = idents_expr e"
| "idents (SendStmt n c e) = idents_expr c \<union> idents_expr e"
| "idents (IncDecStmt n e) = idents_expr e"
| "idents (AssignStmt n lhs tok rhs) = \<Union> (set (map idents_expr lhs)) \<union> \<Union> (set (map idents_expr rhs))"
| "idents (GoStmt n e) = idents_expr e"
| "idents (DeferStmt n e) = idents_expr e"
| "idents (ReturnStmt n es) = \<Union> (set (map idents_expr es))"
| "idents (BranchStmt n tok l) = set_option (map_option label_ident l)"
| "idents (BlockStmt n ss) = \<Union> (set (map idents ss))"
| "idents (IfStmt n i c b e) =
     \<Union> (set_option (map_option idents i)) \<union> idents_expr c \<union> \<Union> (set (map idents b)) \<union>
     \<Union> (set_option (map_option idents e))"
| "idents (CaseClause n es b) =
     (case map_option (map idents_expr) es of None \<Rightarrow> {} | Some xs \<Rightarrow> \<Union> (set xs)) \<union> \<Union> (set (map idents b))"
| "idents (CommClause n c b) = \<Union> (set_option (map_option idents c)) \<union> \<Union> (set (map idents b))"
| "idents (SwitchStmt n i t b) =
     \<Union> (set_option (map_option idents i)) \<union> \<Union> (set_option (map_option idents_expr t)) \<union>
     \<Union> (set (map idents b))"
| "idents (TypeSwitchStmt n i a b) =
     \<Union> (set_option (map_option idents i)) \<union> idents a \<union> \<Union> (set (map idents b))"
| "idents (SelectStmt n b) = \<Union> (set (map idents b))"
| "idents (ForStmt n i c p b) =
     \<Union> (set_option (map_option idents i)) \<union> \<Union> (set_option (map_option idents_expr c)) \<union>
     \<Union> (set_option (map_option idents p)) \<union> \<Union> (set (map idents b))"
| "idents (RangeStmt n k v e b) =
     \<Union> (set_option (map_option idents_expr k)) \<union> \<Union> (set_option (map_option idents_expr v)) \<union>
     idents_expr e \<union> \<Union> (set (map idents b))"

text \<open>Whether \<open>ast.Inspect\<close> meets an index expression in a node.\<close>

primrec has_index_expr :: "expr \<Rightarrow> bool"
  and has_index_spec :: "spec \<Rightarrow> bool"
  and has_index :: "stmt \<Rightarrow> bool" where
  "has_index_expr (Ident n) = False"
| "has_index_expr (IndexExpr n x i) = True"
| "has_index_expr (CallExpr n f args) = (has_index_expr f \<or> list_ex id (map has_index_expr args))"
| "has_index_expr (FuncLit n ts b) = (list_ex id (map has_index_expr ts) \<or> list_ex id (map has_index b))"
| "has_index_expr (OtherExpr n es) = list_ex id (map has_index_expr es)"
| "has_index_spec (ValueSpec n ns t vs) =
     (list_ex id (map has_index_expr ns) \<or> map_option has_index_expr t = Some True \<or>
      list_ex id (map has_index_expr vs))"
| "has_index_spec (TypeSpec n es) = list_ex id (map has_index_expr es)"
| "has_index (BadStmt n) = False"
| "has_index (DeclStmt n ss) = list_ex id (map has_index_spec ss)"
| "has_index (EmptyStmt n) = False"
| "has_index (LabeledStmt n l s) = has_index s"
| "has_index (ExprStmt n e) = has_index_expr e"
| "has_index (SendStmt n c e) = (has_index_expr c \<or> has_index_expr e)"
| "has_index (IncDecStmt n e) = has_index_expr e"
| "has_index (AssignStmt n lhs tok rhs) =
     (list_ex id (map has_index_expr lhs) \<or> list_ex id (map has_index_expr rhs))"
| "has_index (GoStmt n e) = has_index_expr e"
| "has_index (DeferStmt n e) = has_index_expr e"
| "has_index (ReturnStmt n es) = list_ex id (map has_index_expr es)"
| "has_index (BranchStmt n tok l) = False"
| "has_index (BlockStmt n ss) = list_ex id (map has_index ss)"
| "has_index (IfStmt n i c b e) =
     (map_option has_index i = Some True \<or> has_index_expr c \<or> list_ex id (map has_index b) \<or>
      map_option has_index e = Some True)"
| "has_index (CaseClause n es b) =
     ((case map_option (map has_index_expr) es of None \<Rightarrow> False | Some bs \<Rightarrow> list_ex id bs) \<or>
      list_ex id (map has_index b))"
| "has_index (CommClause n c b) = (map_option has_index c = Some True \<or> list_ex id (map has_index b))"
| "has_index (SwitchStmt n i t b) =
     (map_option has_index i = Some True \<or> map_option has_index_expr t = Some True \<or>
      list_ex id (map has_index b))"
| "has_index (TypeSwitchStmt n i a b) =
     (map_option has_index i = Some True \<or> has_index a \<or> list_ex id (map has_index b))"
| "has_index (SelectStmt n b) = list_ex id (map has_index b)"
| "has_index (ForStmt n i c p b) =
     (map_option has_index i = Some True \<or> map_option has_index_expr c = Some True \<or>
      map_option has_index p = Some True \<or> list_ex id (map has_index b))"
| "has_index (RangeStmt n k v e b) =
     (map_option has_index_expr k = Some True \<or> map_option has_index_expr v = Some True \<or>
      has_index_expr e \<or> list_ex id (map has_index b))"

section \<open>Variables of a statement\<close>

text \<open>
  \<open>loader.PackageInfo\<close> resolves an identifier to the object it denotes and records the
  implicit variable of a clause of a type switch. A variable is named by its address.
\<close>

type_synonym var = nat

datatype object = Var var | OtherObject

record PackageInfo =
  ObjectOf :: "node \<Rightarrow> object option"
  Implicits :: "node \<Rightarrow> var option"

text \<open>
  The order in which a Go program ranges over the keys of a map is not specified. The
  functions below take it as \<open>ord\<close>, which lists the keys of a finite map.
\<close>

definition range_order :: "(node set \<Rightarrow> node list) \<Rightarrow> bool" where
  "range_order ord \<longleftrightarrow> (\<forall>S. finite S \<longrightarrow> set (ord S) = S \<and> distinct (ord S))"

definition union :: "node set \<Rightarrow> node set \<Rightarrow> node set" where
  "union one two = two \<union> one"

abbreviation idents_opt :: "expr option \<Rightarrow> node set" where
  "idents_opt x \<equiv> (case x of None \<Rightarrow> {} | Some e \<Rightarrow> idents_expr e)"

definition typeCaseVar :: "PackageInfo \<Rightarrow> stmt \<Rightarrow> var option" where
  "typeCaseVar info cc = Implicits info (addr cc)"

text \<open>The loop that keeps the identifiers which denote variables.\<close>

fun vars_of :: "PackageInfo \<Rightarrow> node list \<Rightarrow> var list" where
  "vars_of info [] = []"
| "vars_of info (i # is) =
     (case ObjectOf info i of Some (Var v) \<Rightarrow> v # vars_of info is | _ \<Rightarrow> vars_of info is)"

text \<open>
  \<open>defs\<close>. In a declaration the identifiers of each value specification are collected; a
  specification nested in a function literal lies inside one of them. The clauses of a type
  switch are the statements of its body, and the inspection does not descend into them.
\<close>

fun spec_idents :: "spec \<Rightarrow> node set" where
  "spec_idents (ValueSpec n ns t vs) = idents_spec (ValueSpec n ns t vs)"
| "spec_idents (TypeSpec n es) = {}"

fun def_idents :: "stmt \<Rightarrow> node set" where
  "def_idents (DeclStmt n ss) = fold (\<lambda>v idnts. union idnts (spec_idents v)) ss {}"
| "def_idents (IncDecStmt n x) = idents_expr x"
| "def_idents (AssignStmt n lhs tok rhs) =
     fold (\<lambda>x idnts. if has_index_expr x then idnts else union idnts (idents_expr x)) lhs {}"
| "def_idents (RangeStmt n k v x b) = union (idents_opt k) (idents_opt v)"
| "def_idents _ = {}"

fun defs :: "(node set \<Rightarrow> node list) \<Rightarrow> PackageInfo \<Rightarrow> stmt \<Rightarrow> var list" where
  "defs ord info (TypeSwitchStmt n i a b) = List.map_filter (typeCaseVar info) b"
| "defs ord info s = vars_of info (ord (def_idents s))"

text \<open>
  \<open>uses\<close>. The closure handed to \<open>ast.Inspect\<close> ignores the node it is called with and looks at
  the statement itself, so that every call does the same; \<open>uses_visit\<close> is one call.
\<close>

fun uses_visit :: "stmt \<Rightarrow> node set \<Rightarrow> node set" where
  "uses_visit (AssignStmt n lhs tok rhs) idnts =
     fold (\<lambda>x acc. union acc (idents_expr x)) rhs
       (fold (\<lambda>x acc. if has_index (AssignStmt n lhs tok rhs) \<or> tok \<noteq> ASSIGN \<and> tok \<noteq> DEFINE
                       then union acc (idents_expr x) else acc) lhs idnts)"
| "uses_visit (BlockStmt n ss) idnts = idnts"
| "uses_visit (BranchStmt n tok l) idnts = idnts"
| "uses_visit (CaseClause n es b) idnts = idnts"
| "uses_visit (CommClause n c b) idnts = idnts"
| "uses_visit (DeclStmt n ss) idnts = idnts"
| "uses_visit (DeferStmt n e) idnts = idents_expr e"
| "uses_visit (ForStmt n i c p b) idnts = idents_opt c"
| "uses_visit (IfStmt n i c b e) idnts = idents_expr c"
| "uses_visit (LabeledStmt n l s) idnts = idnts"
| "uses_visit (RangeStmt n k v x b) idnts = idents_expr x"
| "uses_visit (SelectStmt n b) idnts = idnts"
| "uses_visit (SwitchStmt n i t b) idnts = idents_opt t"
| "uses_visit (TypeSwitchStmt n i a b) idnts = idnts"
| "uses_visit s idnts = idents s"

definition uses :: "(node set \<Rightarrow> node list) \<Rightarrow> PackageInfo \<Rightarrow> stmt \<Rightarrow> var list" where
  "uses ord info s = vars_of info (ord (uses_visit s {}))"

definition ReferencedVars ::
  "(node set \<Rightarrow> node list) \<Rightarrow> PackageInfo \<Rightarrow> stmt list \<Rightarrow> var set \<times> var set" where
  "ReferencedVars ord info stmts =
     foldl (\<lambda>(def, use) s. (def \<union> set (defs ord info s), use \<union> set (uses ord info s))) ({}, {}) stmts"

section \<open>What the analyses collect\<close>

lemma fold_union [simp]: "fold (\<lambda>x acc. union acc (f x)) xs A = A \<union> (\<Union>x\<in>set xs. f x)"
  by (induction xs arbitrary: A) (auto simp: union_def)

lemma fold_union_if [simp]:
  "fold (\<lambda>x acc. if P x then acc else union acc (f x)) xs A = A \<union> (\<Union>x\<in>{x \<in> set xs. \<not> P x}. f x)"
  by (induction xs arbitrary: A) (auto simp: union_def)

lemma fold_union_const [simp]:
  "fold (\<lambda>x acc. if c then union acc (f x) else acc) xs A = (if c then A \<union> (\<Union>x\<in>set xs. f x) else A)"
  by (induction xs arbitrary: A) (auto simp: union_def)

lemma finite_idents_all:
  "finite (idents_expr e) \<and> finite (idents_spec sp) \<and> finite (idents s)"
proof -
  have "finite (idents_expr e)" and "finite (idents_spec sp)" and "finite (idents s)"
    by (induction e and sp and s) (auto split: option.splits)
  then show ?thesis by simp
qed

lemmas finite_idents [simp] = finite_idents_all [THEN conjunct1]
  finite_idents_all [THEN conjunct2, THEN conjunct1] finite_idents_all [THEN conjunct2, THEN conjunct2]

lemma set_vars_of: "set (vars_of info is) = {v. \<exists>i\<in>set is. ObjectOf info i = Some (Var v)}"
  by (induction "is") (auto split: option.splits object.splits)

lemma finite_def_idents [simp]: "finite (def_idents s)"
proof (cases s)
  case (DeclStmt n ss)
  have "finite (spec_idents v)" for v by (cases v) (auto simp: finite_idents(2) simp del: idents_spec.simps)
  with DeclStmt show ?thesis by simp
qed (auto simp: union_def split: option.splits)

lemma finite_uses_visit: "finite I \<Longrightarrow> finite (uses_visit s I)"
  by (cases s) (auto split: option.splits)

text \<open>However often the closure of \<open>uses\<close> is called, the identifiers are those of one call.\<close>

lemma uses_visit_idem: "uses_visit s (uses_visit s I) = uses_visit s I"
  by (cases s) auto


text \<open>The variables that a set of identifiers denotes.\<close>

definition denoted :: "PackageInfo \<Rightarrow> node set \<Rightarrow> var set" where
  "denoted info I = {v. \<exists>i\<in>I. ObjectOf info i = Some (Var v)}"

lemma set_vars_of_ord: "range_order ord \<Longrightarrow> finite I \<Longrightarrow> set (vars_of info (ord I)) = denoted info I"
  by (simp add: set_vars_of denoted_def range_order_def)

text \<open>
  What an assignment defines and uses. It defines the variables of the left-hand sides
  that contain no index expression; it uses the variables of its right-hand sides, and those
  of all its left-hand sides as soon as it is an update like \<open>+=\<close> or an index expression
  occurs anywhere in it, on either side.
\<close>

theorem assign_defs_uses:
  assumes "range_order ord"
  shows "set (defs ord info (AssignStmt n lhs tok rhs)) =
      denoted info (\<Union>x\<in>{x \<in> set lhs. \<not> has_index_expr x}. idents_expr x) \<and>
    set (uses ord info (AssignStmt n lhs tok rhs)) =
      denoted info ((\<Union>x\<in>set rhs. idents_expr x) \<union>
        (if tok \<notin> {ASSIGN, DEFINE} \<or> (\<exists>x\<in>set lhs \<union> set rhs. has_index_expr x)
         then \<Union>x\<in>set lhs. idents_expr x else {}))"
proof -
  have "has_index (AssignStmt n lhs tok rhs) \<longleftrightarrow> (\<exists>x\<in>set lhs \<union> set rhs. has_index_expr x)"
    by (auto simp: list_ex_iff)
  then have "uses_visit (AssignStmt n lhs tok rhs) {} = (\<Union>x\<in>set rhs. idents_expr x) \<union>
        (if tok \<notin> {ASSIGN, DEFINE} \<or> (\<exists>x\<in>set lhs \<union> set rhs. has_index_expr x)
         then \<Union>x\<in>set lhs. idents_expr x else {})"
    by (auto simp del: has_index.simps)
  moreover have "set (uses ord info (AssignStmt n lhs tok rhs)) = denoted info (uses_visit (AssignStmt n lhs tok rhs) {})"
    using assms by (simp add: uses_def set_vars_of_ord finite_uses_visit del: uses_visit.simps)
  moreover have "set (defs ord info (AssignStmt n lhs tok rhs)) = denoted info (def_idents (AssignStmt n lhs tok rhs))"
    using set_vars_of_ord [OF assms finite_def_idents] by (simp del: def_idents.simps)
  ultimately show ?thesis by simp
qed

theorem assign_defs_uses_witness:
  "\<exists>info. set (uses sorted_list_of_set info (AssignStmt 1 [Ident 2] ASSIGN [IndexExpr 3 (Ident 4) (Ident 5)])) = {2, 4, 5}"
proof (rule exI [of _ "\<lparr>ObjectOf = (\<lambda>i. Some (Var i)), Implicits = (\<lambda>_. None)\<rparr>"])
  have "range_order sorted_list_of_set" by (simp add: range_order_def)
  from assign_defs_uses [OF this, of "\<lparr>ObjectOf = (\<lambda>i. Some (Var i)), Implicits = (\<lambda>_. None)\<rparr>" 1 "[Ident 2]" ASSIGN "[IndexExpr 3 (Ident 4) (Ident 5)]"]
  show "set (uses sorted_list_of_set \<lparr>ObjectOf = (\<lambda>i. Some (Var i)), Implicits = (\<lambda>_. None)\<rparr>
      (AssignStmt 1 [Ident 2] ASSIGN [IndexExpr 3 (Ident 4) (Ident 5)])) = {2, 4, 5}"
    by (auto simp: denoted_def)
qed

end
