(* ===== verification/Cfg.thy ===== *)
theory Cfg
  imports Go_Ast
begin

text \<open>
  Control flow graphs at the level of statements: \<open>src/programslicer/cfg/cfg.go\<close>. The state
  of the builder is threaded through its methods; a block is named by the address of its
  statement, which is its key in the map of blocks. The addresses of the two sentinel
  statements that \<open>newBuilder\<close> allocates are arguments.
\<close>

section \<open>Data\<close>

text \<open>A pointer to a block is the address of its statement, the key of the block in its graph.\<close>

record domInfo =
  idom :: "node option"
  children :: "node list"
  pre :: int
  post :: int

record Block =
  Index :: int
  Stmt :: node
  Preds :: "node list"
  Succs :: "node list"
  PredBs :: "node option list"
  SuccBs :: "node option list"
  dom_info :: domInfo
  ControlDep :: "node list"
  ControlDepee :: "node list"
  DataDep :: "node list"
  DataDepee :: "node list"

definition new_Block :: "node \<Rightarrow> Block" where
  "new_Block s = \<lparr>Index = 0, Stmt = s, Preds = [], Succs = [], PredBs = [], SuccBs = [],
     dom_info = \<lparr>idom = None, children = [], pre = 0, post = 0\<rparr>,
     ControlDep = [], ControlDepee = [], DataDep = [], DataDepee = []\<rparr>"

type_synonym blocks = "(node, Block) gomap"

record CFG =
  Entry :: node
  Exit_node :: node
  Defers :: "node list"
  Blocks :: blocks
  BlockSlice :: "node list"

record branch =
  br_node :: node
  Tok :: token
  br_Label :: "label option"

record builder =
  b_Blocks :: blocks
  prev :: "node list"
  branches :: "branch list"
  b_entry :: node
  b_exit :: node
  defers :: "node list"

definition newBuilder :: "node \<Rightarrow> node \<Rightarrow> builder" where
  "newBuilder en ex = \<lparr>b_Blocks = [], prev = [], branches = [], b_entry = en, b_exit = ex, defers = []\<rparr>"

section \<open>Edges\<close>

fun appendNoDuplicates :: "node list \<Rightarrow> node \<Rightarrow> node list" where
  "appendNoDuplicates xs s = (if s \<in> set xs then xs else xs @ [s])"

text \<open>\<open>Block\<close>: the block of a statement, created when there is none.\<close>

definition Block_at :: "node \<Rightarrow> blocks \<Rightarrow> blocks" where
  "Block_at s m = (case gomap_get m s of None \<Rightarrow> gomap_set s (new_Block s) m | Some bl \<Rightarrow> m)"

definition add_edge :: "node \<Rightarrow> node \<Rightarrow> blocks \<Rightarrow> blocks" where
  "add_edge p cur m =
     (let m = Block_at p m;
          m = AList.map_entry p (\<lambda>b. b\<lparr>Succs := appendNoDuplicates (Succs b) cur\<rparr>) m
      in AList.map_entry cur (\<lambda>b. b\<lparr>Preds := appendNoDuplicates (Preds b) p\<rparr>) m)"

definition addSucc :: "node \<Rightarrow> builder \<Rightarrow> builder" where
  "addSucc current b =
     b\<lparr>b_Blocks := fold (\<lambda>p. add_edge p current) (prev b) (Block_at current (b_Blocks b))\<rparr>"

section \<open>Statements\<close>

definition buildBranch :: "branch \<Rightarrow> builder \<Rightarrow> builder" where
  "buildBranch br b =
     (let b = addSucc (br_node br) b;
          b = b\<lparr>prev := [br_node br]\<rparr>;
          b = (case Tok br of
                 GOTO \<Rightarrow> (case br_Label br of None \<Rightarrow> b | Some l \<Rightarrow> addSucc (label_decl l) b)
               | BREAK \<Rightarrow> b\<lparr>branches := branches b @ [br]\<rparr>
               | CONTINUE \<Rightarrow> b\<lparr>branches := branches b @ [br]\<rparr>
               | _ \<Rightarrow> b)
      in b\<lparr>prev := []\<rparr>)"

text \<open>An optional statement in front of the current one: \<open>if x := f(); \<dots>\<close>.\<close>

fun buildInit :: "stmt option \<Rightarrow> builder \<Rightarrow> builder" where
  "buildInit None b = b"
| "buildInit (Some s) b = (addSucc (addr s) b)\<lparr>prev := [addr s]\<rparr>"

text \<open>A branch without label, or one whose label names the statement.\<close>

definition br_for :: "node \<Rightarrow> branch \<Rightarrow> bool" where
  "br_for s br = (case br_Label br of None \<Rightarrow> True | Some l \<Rightarrow> label_stmt l = s)"

text \<open>
  The loop of \<open>buildLoop\<close> over the pending branches: those meant for the loop are removed, a
  \<open>continue\<close> flows to the post statement and a \<open>break\<close> becomes an exit.
\<close>

fun loop_branches :: "node \<Rightarrow> node \<Rightarrow> branch list \<Rightarrow> builder \<Rightarrow> branch list \<Rightarrow> node list \<Rightarrow> builder \<times> node list" where
  "loop_branches s pst [] b kept exits = (b\<lparr>branches := kept\<rparr>, exits)"
| "loop_branches s pst (br # brs) b kept exits =
     (if br_for s br then
        (case Tok br of
           CONTINUE \<Rightarrow> loop_branches s pst brs (addSucc pst (b\<lparr>prev := [br_node br]\<rparr>)) kept exits
         | BREAK \<Rightarrow> loop_branches s pst brs b kept (exits @ [br_node br])
         | _ \<Rightarrow> loop_branches s pst brs b kept exits)
      else loop_branches s pst brs b (kept @ [br]) exits)"

definition switch_for :: "node \<Rightarrow> branch \<Rightarrow> bool" where
  "switch_for s br \<longleftrightarrow> Tok br = BREAK \<and> br_for s br"

fun fallThrough_stmt :: "stmt \<Rightarrow> node option" where
  "fallThrough_stmt (BranchStmt n tok l) = (if tok = FALLTHROUGH then Some n else None)"
| "fallThrough_stmt (LabeledStmt n l s) = fallThrough_stmt s"
| "fallThrough_stmt _ = None"

definition fallThrough :: "stmt list \<Rightarrow> node option" where
  "fallThrough stmts = (if length stmts < 1 then None else fallThrough_stmt (last stmts))"

text \<open>What a clause contributes before its body: whether it is the default, and its communication.\<close>

fun clause_body :: "stmt \<Rightarrow> stmt list" where
  "clause_body (CaseClause n es body) = body"
| "clause_body (CommClause n c body) = body"
| "clause_body _ = []"

fun clause_default :: "stmt \<Rightarrow> bool" where
  "clause_default (CaseClause n es body) = (es = None)"
| "clause_default (CommClause n c body) = (c = None)"
| "clause_default _ = False"

fun clause_comm :: "stmt \<Rightarrow> builder \<Rightarrow> builder" where
  "clause_comm (CommClause n (Some c) body) b = (addSucc (addr c) b)\<lparr>prev := [addr c]\<rparr>"
| "clause_comm _ b = b"

lemma size_clause_body: "size_list size (clause_body s) < Suc (size s + k)"
  by (cases s) auto

text \<open>
  \<open>buildStmt\<close> and the methods it calls. \<open>buildCases\<close> is the loop of \<open>buildSwitch\<close> over the
  clauses: \<open>ft\<close> is the fallthrough of the clause before, \<open>exits\<close> the exits so far, \<open>dflt\<close>
  whether a default clause was met.
\<close>

function (sequential) buildStmt :: "stmt \<Rightarrow> builder \<Rightarrow> builder"
  and buildBlock :: "stmt list \<Rightarrow> builder \<Rightarrow> builder"
  and buildIf :: "stmt \<Rightarrow> builder \<Rightarrow> builder"
  and buildLoop :: "stmt \<Rightarrow> builder \<Rightarrow> builder"
  and buildSwitch :: "stmt \<Rightarrow> builder \<Rightarrow> builder"
  and buildCases :: "node list \<Rightarrow> stmt list \<Rightarrow> node option \<Rightarrow> node list \<Rightarrow> bool \<Rightarrow> builder \<Rightarrow> builder \<times> node list \<times> bool"
where
  "buildStmt (DeferStmt n e) b = b\<lparr>defers := defers b @ [n]\<rparr>"
| "buildStmt (BlockStmt n ss) b = buildBlock ss b"
| "buildStmt (IfStmt n i c th el) b = buildIf (IfStmt n i c th el) b"
| "buildStmt (ForStmt n i c p body) b = buildLoop (ForStmt n i c p body) b"
| "buildStmt (RangeStmt n k v x body) b = buildLoop (RangeStmt n k v x body) b"
| "buildStmt (SwitchStmt n i t body) b = buildSwitch (SwitchStmt n i t body) b"
| "buildStmt (SelectStmt n body) b = buildSwitch (SelectStmt n body) b"
| "buildStmt (TypeSwitchStmt n i a body) b = buildSwitch (TypeSwitchStmt n i a body) b"
| "buildStmt (BranchStmt n tok l) b = buildBranch \<lparr>br_node = n, Tok = tok, br_Label = l\<rparr> b"
| "buildStmt (LabeledStmt n l s) b = buildStmt s ((addSucc n b)\<lparr>prev := [n]\<rparr>)"
| "buildStmt (ReturnStmt n es) b =
     (let b = (addSucc n b)\<lparr>prev := [n]\<rparr> in (addSucc (b_exit b) b)\<lparr>prev := []\<rparr>)"
| "buildStmt s b = (addSucc (addr s) b)\<lparr>prev := [addr s]\<rparr>"

| "buildBlock [] b = b"
| "buildBlock (s # ss) b = buildBlock ss (buildStmt s b)"

| "buildIf (IfStmt n i c th el) b =
     (let b = addSucc n (buildInit i b);
          b = buildBlock th (b\<lparr>prev := [n]\<rparr>);
          ctrlExits = prev b
      in case el of
           Some (BlockStmt m ss) \<Rightarrow>
             let b = buildBlock ss (b\<lparr>prev := [n]\<rparr>) in b\<lparr>prev := ctrlExits @ prev b\<rparr>
         | Some (IfStmt m i' c' th' el') \<Rightarrow>
             let b = buildIf (IfStmt m i' c' th' el') (addSucc m (b\<lparr>prev := [n]\<rparr>))
             in b\<lparr>prev := ctrlExits @ prev b\<rparr>
         | None \<Rightarrow> b\<lparr>prev := ctrlExits @ [n]\<rparr>
         | _ \<Rightarrow> b\<lparr>prev := ctrlExits\<rparr>)"
| "buildIf _ b = b"

| "buildLoop (ForStmt n i c p body) b =
     (let b = addSucc n (buildInit i b);
          b = (case p of None \<Rightarrow> b | Some s \<Rightarrow> addSucc n (b\<lparr>prev := [addr s]\<rparr>));
          pst = (case p of None \<Rightarrow> n | Some s \<Rightarrow> addr s);
          b = addSucc pst (buildBlock body (b\<lparr>prev := [n]\<rparr>));
          (b, exits) = loop_branches n pst (branches b) b [] [n]
      in b\<lparr>prev := exits\<rparr>)"
| "buildLoop (RangeStmt n k v x body) b =
     (let b = (addSucc n b)\<lparr>prev := [n]\<rparr>;
          b = addSucc n (buildBlock body b);
          (b, exits) = loop_branches n n (branches b) b [] [n]
      in b\<lparr>prev := exits\<rparr>)"
| "buildLoop _ b = b"

| "buildSwitch (SwitchStmt n i t body) b =
     (let b = (addSucc n (buildInit i b))\<lparr>prev := [n]\<rparr>;
          (b, exits, dflt) = buildCases [n] body None [] False b;
          exits = (if dflt then exits else exits @ [n]);
          exits = exits @ map br_node (filter (switch_for n) (branches b))
      in b\<lparr>branches := filter (\<lambda>br. \<not> switch_for n br) (branches b), prev := exits\<rparr>)"
| "buildSwitch (TypeSwitchStmt n i a body) b =
     (let b = (addSucc n (buildInit i b))\<lparr>prev := [n]\<rparr>;
          b = (addSucc (addr a) b)\<lparr>prev := [addr a]\<rparr>;
          (b, exits, dflt) = buildCases [addr a] body None [] False b;
          exits = (if dflt then exits else exits @ [addr a]);
          exits = exits @ map br_node (filter (switch_for n) (branches b))
      in b\<lparr>branches := filter (\<lambda>br. \<not> switch_for n br) (branches b), prev := exits\<rparr>)"
| "buildSwitch (SelectStmt n body) b =
     (let b = (addSucc n b)\<lparr>prev := [n]\<rparr>;
          (b, exits, dflt) = buildCases [n] body None [] False b;
          exits = (if dflt then exits else exits @ [n]);
          exits = exits @ map br_node (filter (switch_for n) (branches b))
      in b\<lparr>branches := filter (\<lambda>br. \<not> switch_for n br) (branches b), prev := exits\<rparr>)"
| "buildSwitch _ b = b"

| "buildCases swPrev [] ft exits dflt b = (b, exits, dflt)"
| "buildCases swPrev (cl # cls) ft exits dflt b =
     (let b = addSucc (addr cl) (b\<lparr>prev := swPrev\<rparr>);
          b = b\<lparr>prev := addr cl # (case ft of None \<Rightarrow> [] | Some f \<Rightarrow> [f])\<rparr>;
          b = clause_comm cl b;
          b = buildBlock (clause_body cl) b;
          ft = fallThrough (clause_body cl)
      in buildCases swPrev cls ft (if ft = None then exits @ prev b else exits)
           (dflt \<or> clause_default cl) b)"
  by pat_completeness auto
termination
  apply (relation "measure (\<lambda>x. case x of
      Inl (Inl (s, b)) \<Rightarrow> 2 * size s + 1
    | Inl (Inr (Inl (ss, b))) \<Rightarrow> 2 * size_list size ss
    | Inl (Inr (Inr (s, b))) \<Rightarrow> 2 * size s
    | Inr (Inl (s, b)) \<Rightarrow> 2 * size s
    | Inr (Inr (Inl (s, b))) \<Rightarrow> 2 * size s
    | Inr (Inr (Inr (p, ss, r))) \<Rightarrow> 2 * size_list size ss)")
  apply (auto simp: size_clause_body)
  subgoal for cl cls using size_clause_body [of cl "size_list size cls"] by linarith
  done

definition build :: "stmt list \<Rightarrow> builder \<Rightarrow> CFG" where
  "build s b =
     (let b = b\<lparr>prev := [b_entry b]\<rparr>;
          b = buildBlock s b;
          b = addSucc (b_exit b) b
      in \<lparr>Entry = b_entry b, Exit_node = b_exit b, Defers = defers b, Blocks = b_Blocks b, BlockSlice = []\<rparr>)"

definition FromStmts :: "node \<Rightarrow> node \<Rightarrow> stmt list \<Rightarrow> CFG" where
  "FromStmts en ex s = build s (newBuilder en ex)"

definition GetBlocks :: "(node set \<Rightarrow> node list) \<Rightarrow> CFG \<Rightarrow> node list" where
  "GetBlocks ord c = ord (set (map fst (Blocks c)))"

text \<open>\<open>Preds\<close> and \<open>Succs\<close> of a graph: reading a field of a missing block is a nil dereference.\<close>

definition CFG_Preds :: "CFG \<Rightarrow> node \<Rightarrow> node list go" where
  "CFG_Preds c s = (case gomap_get (Blocks c) s of None \<Rightarrow> Inl NilPointer | Some b \<Rightarrow> Inr (Preds b))"

definition CFG_Succs :: "CFG \<Rightarrow> node \<Rightarrow> node list go" where
  "CFG_Succs c s = (case gomap_get (Blocks c) s of None \<Rightarrow> Inl NilPointer | Some b \<Rightarrow> Inr (Succs b))"

section \<open>Blocks as a graph and its inverse\<close>

definition block_ptr :: "blocks \<Rightarrow> node \<Rightarrow> node option" where
  "block_ptr m s = (case gomap_get m s of None \<Rightarrow> None | Some b \<Rightarrow> Some s)"

text \<open>
  \<open>InitializeBlocks\<close>: \<open>ord\<close> is the order of the range that fills \<open>BlockSlice\<close>; the entry is
  swapped to the front and the blocks are numbered by their position.
\<close>

fun position :: "node list \<Rightarrow> node \<Rightarrow> nat option" where
  "position [] x = None"
| "position (y # ys) x = (if y = x then Some 0 else map_option Suc (position ys x))"

definition entry_first :: "node list \<Rightarrow> node \<Rightarrow> node list" where
  "entry_first bs en =
     (case position bs en of None \<Rightarrow> bs | Some i \<Rightarrow> (bs[0 := bs ! i])[i := bs ! 0])"

definition number_blocks :: "node list \<Rightarrow> blocks \<Rightarrow> blocks" where
  "number_blocks bs m = fold (\<lambda>(i, s). AList.map_entry s (\<lambda>b. b\<lparr>Index := int i\<rparr>)) (enumerate 0 bs) m"

definition InitializeBlocks :: "(node set \<Rightarrow> node list) \<Rightarrow> CFG \<Rightarrow> CFG" where
  "InitializeBlocks ord c =
     (let m = map (\<lambda>(s, b). (s, b\<lparr>PredBs := PredBs b @ map (block_ptr (Blocks c)) (Preds b),
                                SuccBs := SuccBs b @ map (block_ptr (Blocks c)) (Succs b)\<rparr>)) (Blocks c);
          bs = entry_first (ord (set (map fst m))) (Entry c)
      in c\<lparr>Blocks := number_blocks bs m, BlockSlice := bs\<rparr>)"

definition inv_block :: "Block \<Rightarrow> Block" where
  "inv_block b = (new_Block (Stmt b))\<lparr>Preds := Succs b, Succs := Preds b,
                    DataDep := DataDep b, DataDepee := DataDepee b\<rparr>"

definition InvertCFG :: "(node set \<Rightarrow> node list) \<Rightarrow> CFG \<Rightarrow> CFG" where
  "InvertCFG ord c =
     InitializeBlocks ord
       \<lparr>Entry = Exit_node c, Exit_node = Entry c, Defers = [],
        Blocks = fold (\<lambda>(s, b) m. gomap_set (Stmt b) (inv_block b) m) (Blocks c) [],
        BlockSlice = []\<rparr>"

end
