(* ===== verification/Dom.thy ===== *)
theory Dom
  imports Cfg
begin

text \<open>
  Dominator trees and control dependences: \<open>src/programslicer/cfg/dom.go\<close>.

  A pointer to a block is the address of its statement, \<open>None\<close> is nil. A loop that follows
  pointers is a \<open>partial_function (option)\<close>: \<open>None\<close> is a loop that does not end. The two
  recursive methods take the depth of the stack they may use as their first argument and fail
  as Go does when it is exhausted. The numbers in the dominator tree are 32-bit integers in
  the source; they stay below the number of statements of one function.
\<close>

section \<open>Failing computations that may not end\<close>

definition gbind :: "'a go option \<Rightarrow> ('a \<Rightarrow> 'b go option) \<Rightarrow> 'b go option" where
  "gbind m f = Option.bind m (\<lambda>r. case r of Inl e \<Rightarrow> Some (Inl e) | Inr x \<Rightarrow> f x)"

lemma gbind_simps [simp]:
  "gbind None f = None" "gbind (Some (Inl e)) f = Some (Inl e)" "gbind (Some (Inr x)) f = f x"
  by (simp_all add: gbind_def)

lemma gbind_mono [partial_function_mono]:
  assumes "mono_option B" "\<And>y. mono_option (\<lambda>f. C y f)"
  shows "mono_option (\<lambda>f. gbind (B f) (\<lambda>y. C y f))"
  unfolding gbind_def
proof (rule bind_mono [OF assms(1)])
  fix y
  show "mono_option (\<lambda>f. case y of Inl e \<Rightarrow> Some (Inl e) | Inr x \<Rightarrow> C x f)"
    using assms(2) by (cases y) (auto intro: option.const_mono)
qed

fun gfold :: "('s \<Rightarrow> 'a \<Rightarrow> 's go option) \<Rightarrow> 's \<Rightarrow> 'a list \<Rightarrow> 's go option" where
  "gfold f s [] = Some (Inr s)"
| "gfold f s (x # xs) = gbind (f s x) (\<lambda>s'. gfold f s' xs)"

section \<open>Blocks\<close>

definition Block_of :: "blocks \<Rightarrow> node option \<Rightarrow> Block go" where
  "Block_of m p =
     (case p of
        None \<Rightarrow> Inl NilPointer
      | Some v \<Rightarrow> (case gomap_get m v of None \<Rightarrow> Inl NilPointer | Some b \<Rightarrow> Inr b))"

definition set_dom :: "node \<Rightarrow> (domInfo \<Rightarrow> domInfo) \<Rightarrow> blocks \<Rightarrow> blocks" where
  "set_dom v f m = AList.map_entry v (\<lambda>b. b\<lparr>dom_info := f (dom_info b)\<rparr>) m"

fun contains :: "node list \<Rightarrow> node \<Rightarrow> bool" where
  "contains [] e = False"
| "contains (a # s) e = (if a = e then True else contains s e)"

definition Idom :: "Block \<Rightarrow> node option" where
  "Idom b = idom (dom_info b)"

definition Dominees :: "Block \<Rightarrow> node list" where
  "Dominees b = children (dom_info b)"

definition Dominates :: "Block \<Rightarrow> Block \<Rightarrow> bool" where
  "Dominates b c \<longleftrightarrow> pre (dom_info b) \<le> pre (dom_info c) \<and> post (dom_info c) \<le> post (dom_info b)"

text \<open>\<open>sort.Sort(order)\<close> on a copy of the slice; the preorder numbers of a tree are distinct.\<close>

definition DomPreorder :: "CFG \<Rightarrow> node list go" where
  "DomPreorder c =
     rbind (traverse (\<lambda>s. Block_of (Blocks c) (Some s)) (BlockSlice c)) (\<lambda>bs.
       Inr (map snd (sort_key fst (zip (map (\<lambda>b. pre (dom_info b)) bs) (BlockSlice c)))))"

section \<open>The algorithm of Lengauer and Tarjan\<close>

record ltState =
  lt_blocks :: blocks
  sdom :: "node option list"
  parent :: "node option list"
  ancestor :: "node option list"
  preorder :: "node option list"
  buckets :: "node option list"

definition index_of :: "Block \<Rightarrow> nat" where
  "index_of b = nat (Index b)"

text \<open>An array of the state at the index of a block, and the preorder number of a semidominator.\<close>

definition lt_at :: "(ltState \<Rightarrow> node option list) \<Rightarrow> ltState \<Rightarrow> node option \<Rightarrow> node option go" where
  "lt_at arr st v = rbind (Block_of (lt_blocks st) v) (\<lambda>b. index_go (arr st) (index_of b))"

definition pre_of :: "ltState \<Rightarrow> node option \<Rightarrow> int go" where
  "pre_of st v = rbind (Block_of (lt_blocks st) v) (\<lambda>b. Inr (pre (dom_info b)))"

definition sdom_pre :: "ltState \<Rightarrow> node option \<Rightarrow> int go" where
  "sdom_pre st v = rbind (lt_at sdom st v) (pre_of st)"

definition set_sdom :: "node option \<Rightarrow> node option \<Rightarrow> ltState \<Rightarrow> ltState go" where
  "set_sdom w s st =
     rbind (Block_of (lt_blocks st) w) (\<lambda>b.
     rbind (update_go (sdom st) (index_of b) s) (\<lambda>xs. Inr (st\<lparr>sdom := xs\<rparr>)))"

definition link :: "node option \<Rightarrow> node option \<Rightarrow> ltState \<Rightarrow> ltState go" where
  "link v w st =
     rbind (Block_of (lt_blocks st) w) (\<lambda>b.
     rbind (update_go (ancestor st) (index_of b) v) (\<lambda>xs. Inr (st\<lparr>ancestor := xs\<rparr>)))"

definition set_parent :: "node option \<Rightarrow> node option \<Rightarrow> ltState \<Rightarrow> ltState go" where
  "set_parent w v st =
     rbind (Block_of (lt_blocks st) w) (\<lambda>b.
     rbind (update_go (parent st) (index_of b) v) (\<lambda>xs. Inr (st\<lparr>parent := xs\<rparr>)))"

definition set_idom :: "node option \<Rightarrow> node option \<Rightarrow> ltState \<Rightarrow> ltState go" where
  "set_idom v d st =
     rbind (Block_of (lt_blocks st) v) (\<lambda>_.
       Inr (st\<lparr>lt_blocks := set_dom (the v) (\<lambda>i. i\<lparr>idom := d\<rparr>) (lt_blocks st)\<rparr>))"

primrec dfs :: "nat \<Rightarrow> node \<Rightarrow> nat \<Rightarrow> ltState \<Rightarrow> (nat \<times> ltState) go" where
  "dfs 0 v i st = Inl (Fatal ''stack overflow'')"
| "dfs (Suc depth) v i st =
     rbind (update_go (preorder st) i (Some v)) (\<lambda>order.
     rbind (Block_of (lt_blocks st) (Some v)) (\<lambda>b.
       let st = st\<lparr>preorder := order, lt_blocks := set_dom v (\<lambda>d. d\<lparr>pre := int i\<rparr>) (lt_blocks st)\<rparr>
       in rbind (set_sdom (Some v) (Some v) st) (\<lambda>st.
          rbind (link None (Some v) st) (\<lambda>st.
          foldR (\<lambda>(i, st) w.
              rbind (lt_at sdom st w) (\<lambda>s.
                if s = None then rbind (set_parent w (Some v) st) (dfs depth (the w) i)
                else Inr (i, st)))
            (i + 1, st) (SuccBs b)))))"

partial_function (option) eval_loop :: "ltState \<Rightarrow> node option \<Rightarrow> node option \<Rightarrow> node option go option" where
  "eval_loop st v u =
     gbind (Some (lt_at ancestor st v)) (\<lambda>a.
       if a = None then Some (Inr u)
       else gbind (Some (sdom_pre st v)) (\<lambda>pv.
            gbind (Some (sdom_pre st u)) (\<lambda>pu. eval_loop st a (if pv < pu then v else u))))"

definition eval_lt :: "ltState \<Rightarrow> node option \<Rightarrow> node option go option" where
  "eval_lt st v = eval_loop st v v"

text \<open>\<open>buckets[v.dom.pre]\<close>.\<close>

definition bucket_after :: "ltState \<Rightarrow> node option \<Rightarrow> node option go" where
  "bucket_after st v =
     rbind (pre_of st v) (\<lambda>p. if p < 0 then Inl IndexOutOfRange else index_go (buckets st) (nat p))"

text \<open>Step 3: the vertices in the bucket of \<open>w\<close>.\<close>

partial_function (option) bucket_loop :: "nat \<Rightarrow> node option \<Rightarrow> node option \<Rightarrow> ltState \<Rightarrow> ltState go option" where
  "bucket_loop i w v st =
     (if v = w then Some (Inr st)
      else gbind (eval_lt st v) (\<lambda>u.
           gbind (Some (sdom_pre st u)) (\<lambda>p.
           gbind (Some (set_idom v (if p < int i then u else w) st)) (\<lambda>st.
           gbind (Some (bucket_after st v)) (\<lambda>v'. bucket_loop i w v' st)))))"

text \<open>Step 2: one predecessor of \<open>w\<close>.\<close>

definition semi_step :: "node option \<Rightarrow> ltState \<Rightarrow> node option \<Rightarrow> ltState go option" where
  "semi_step w st v =
     gbind (eval_lt st v) (\<lambda>u.
     gbind (Some (sdom_pre st u)) (\<lambda>pu.
     gbind (Some (sdom_pre st w)) (\<lambda>pw.
       if pu < pw then gbind (Some (lt_at sdom st u)) (\<lambda>s. Some (set_sdom w s st)) else Some (Inr st))))"

definition file_vertex :: "nat \<Rightarrow> node option \<Rightarrow> ltState \<Rightarrow> ltState go" where
  "file_vertex i w st =
     rbind (lt_at parent st w) (\<lambda>p.
     rbind (link p w st) (\<lambda>st.
     rbind (lt_at sdom st w) (\<lambda>s.
       if p = s then set_idom w p st
       else rbind (pre_of st s) (\<lambda>k.
            rbind (bucket_after st s) (\<lambda>x.
            rbind (update_go (buckets st) i x) (\<lambda>bs.
            rbind (update_go bs (nat k) w) (\<lambda>bs. Inr (st\<lparr>buckets := bs\<rparr>))))))))"

definition lt_round :: "ltState \<Rightarrow> nat \<Rightarrow> ltState go option" where
  "lt_round st i =
     gbind (Some (index_go (preorder st) i)) (\<lambda>w.
     gbind (Some (index_go (buckets st) i)) (\<lambda>v.
     gbind (bucket_loop i w v st) (\<lambda>st.
     gbind (Some (lt_at parent st w)) (\<lambda>p.
     gbind (Some (set_sdom w p st)) (\<lambda>st.
     gbind (Some (Block_of (lt_blocks st) w)) (\<lambda>b.
     gbind (gfold (semi_step w) st (PredBs b)) (\<lambda>st. Some (file_vertex i w st))))))))"

partial_function (option) root_loop :: "node option \<Rightarrow> node option \<Rightarrow> ltState \<Rightarrow> ltState go option" where
  "root_loop root v st =
     (if v = root then Some (Inr st)
      else gbind (Some (set_idom v root st)) (\<lambda>st.
           gbind (Some (bucket_after st v)) (\<lambda>v'. root_loop root v' st)))"

text \<open>Step 4 for one vertex.\<close>

definition idom_step :: "node option \<Rightarrow> ltState \<Rightarrow> node option \<Rightarrow> ltState go" where
  "idom_step root st w =
     (if w = root then set_idom w None st
      else rbind (Block_of (lt_blocks st) w) (\<lambda>b.
           rbind (lt_at sdom st w) (\<lambda>s.
           rbind (if idom (dom_info b) \<noteq> s
                  then rbind (Block_of (lt_blocks st) (idom (dom_info b))) (\<lambda>d. set_idom w (idom (dom_info d)) st)
                  else Inr st) (\<lambda>st.
           rbind (Block_of (lt_blocks st) w) (\<lambda>b.
           rbind (Block_of (lt_blocks st) (idom (dom_info b))) (\<lambda>_.
             Inr (st\<lparr>lt_blocks := set_dom (the (idom (dom_info b))) (\<lambda>d. d\<lparr>children := children d @ [the w]\<rparr>) (lt_blocks st)\<rparr>)))))))"

primrec numberDomTree :: "nat \<Rightarrow> node \<Rightarrow> (int \<times> int) \<times> blocks \<Rightarrow> ((int \<times> int) \<times> blocks) go" where
  "numberDomTree 0 v s = Inl (Fatal ''stack overflow'')"
| "numberDomTree (Suc depth) v s =
     rbind (Block_of (snd s) (Some v)) (\<lambda>b.
     rbind (foldR (\<lambda>s child. numberDomTree depth child s)
              ((fst (fst s) + 1, snd (fst s)), set_dom v (\<lambda>d. d\<lparr>pre := fst (fst s)\<rparr>) (snd s)) (children (dom_info b)))
       (\<lambda>s. Inr ((fst (fst s), snd (fst s) + 1), set_dom v (\<lambda>d. d\<lparr>post := snd (fst s)\<rparr>) (snd s))))"

definition zero_domInfo :: domInfo where
  "zero_domInfo = \<lparr>idom = None, children = [], pre = 0, post = 0\<rparr>"

definition lt_start :: "CFG \<Rightarrow> ltState" where
  "lt_start c =
     (let n = length (BlockSlice c)
      in \<lparr>lt_blocks = fold (\<lambda>s. set_dom s (\<lambda>_. zero_domInfo)) (BlockSlice c) (Blocks c),
          sdom = replicate n None, parent = replicate n None, ancestor = replicate n None,
          preorder = replicate n None, buckets = replicate n None\<rparr>)"

definition BuildDomTree :: "nat \<Rightarrow> CFG \<Rightarrow> CFG go option" where
  "BuildDomTree depth c =
     (let n = length (BlockSlice c)
      in gbind (Some (index_go (BlockSlice c) 0)) (\<lambda>root.
         gbind (Some (dfs depth root 0 (lt_start c))) (\<lambda>(_, st).
         gbind (gfold lt_round (st\<lparr>buckets := preorder st\<rparr>) (rev [1..<n])) (\<lambda>st.
         gbind (Some (index_go (buckets st) 0)) (\<lambda>v.
         gbind (root_loop (Some root) v st) (\<lambda>st.
         gbind (Some (foldR (idom_step (Some root)) st (drop 1 (preorder st)))) (\<lambda>st.
         gbind (Some (numberDomTree depth root ((0, 0), lt_blocks st))) (\<lambda>s.
           Some (Inr (c\<lparr>Blocks := snd s\<rparr>))))))))))"

section \<open>Control dependences\<close>

definition add_control_dep :: "node \<Rightarrow> node \<Rightarrow> blocks \<Rightarrow> blocks" where
  "add_control_dep n c m =
     AList.map_entry c (\<lambda>b. b\<lparr>ControlDepee := ControlDepee b @ [n]\<rparr>)
       (AList.map_entry n (\<lambda>b. b\<lparr>ControlDep := ControlDep b @ [c]\<rparr>) m)"

partial_function (option) dep_loop :: "node option \<Rightarrow> node \<Rightarrow> node option \<Rightarrow> blocks \<Rightarrow> blocks go option" where
  "dep_loop idom_c c n m =
     (case n of
        None \<Rightarrow> Some (Inr m)
      | Some x \<Rightarrow>
          if n = idom_c then Some (Inr m)
          else gbind (Some (Block_of m n)) (\<lambda>b. dep_loop idom_c c (idom (dom_info b)) (add_control_dep x c m)))"

definition edge_deps :: "node \<Rightarrow> blocks \<Rightarrow> node option \<Rightarrow> blocks go option" where
  "edge_deps x m c =
     gbind (Some (Block_of m (Some x))) (\<lambda>bx.
     gbind (Some (Block_of m c)) (\<lambda>bc.
       if \<not> Dominates bx bc then dep_loop (idom (dom_info bc)) (the c) (Some x) m else Some (Inr m)))"

definition FindControlDeps :: "CFG \<Rightarrow> CFG go option" where
  "FindControlDeps invC =
     gbind (gfold (\<lambda>m x. gbind (Some (Block_of m (Some x))) (\<lambda>b. gfold (edge_deps x) m (SuccBs b)))
              (Blocks invC) (BlockSlice invC))
       (\<lambda>m. Some (Inr (invC\<lparr>Blocks := m\<rparr>)))"

definition BuildPostDomTree :: "(node set \<Rightarrow> node list) \<Rightarrow> (node set \<Rightarrow> node list) \<Rightarrow> nat \<Rightarrow> CFG \<Rightarrow> CFG go option" where
  "BuildPostDomTree ord ord' depth c = BuildDomTree depth (InvertCFG ord' (InitializeBlocks ord c))"

declare eval_loop.simps [code] bucket_loop.simps [code] root_loop.simps [code] dep_loop.simps [code]

end
