(* ===== verification/Bitset.thy ===== *)
theory Bitset
  imports Dinv_Prelude
begin

text \<open>
  The bit sets of \<open>github.com/willf/bitset\<close>, on which the data flow analyses of the program
  slicer work. The package is not part of the repository: its operations are a record that
  the analyses take as an argument, and what its documentation promises of them is the
  locale \<open>bitset_api\<close>. Bit sets of different lengths are not equal even when they have the
  same bits; the analyses have to terminate nevertheless.
\<close>

record 'b bitset_ops =
  bs_new :: 'b
  bs_set :: "'b \<Rightarrow> nat \<Rightarrow> 'b"
  bs_union :: "'b \<Rightarrow> 'b \<Rightarrow> 'b"
  bs_diff :: "'b \<Rightarrow> 'b \<Rightarrow> 'b"
  bs_equal :: "'b \<Rightarrow> 'b \<Rightarrow> bool"
  bs_test :: "'b \<Rightarrow> nat \<Rightarrow> bool"
  bs_len :: "'b \<Rightarrow> nat"
  bs_next :: "'b \<Rightarrow> nat \<Rightarrow> nat option"

definition bits :: "'b bitset_ops \<Rightarrow> 'b \<Rightarrow> nat set" where
  "bits B x = {i. bs_test B x i}"

locale bitset_api =
  fixes B :: "'b bitset_ops"
  assumes bits_new: "bits B (bs_new B) = {}"
    and bits_set: "bits B (bs_set B x i) = insert i (bits B x)"
    and bits_union: "bits B (bs_union B x y) = bits B x \<union> bits B y"
    and bits_diff: "bits B (bs_diff B x y) = bits B x - bits B y"
    and equal_iff: "bs_equal B x y \<longleftrightarrow> bits B x = bits B y \<and> bs_len B x = bs_len B y"
    and bits_len: "bits B x \<subseteq> {..<bs_len B x}"
    and len_union: "bs_len B (bs_union B x y) = max (bs_len B x) (bs_len B y)"
    and len_diff: "bs_len B (bs_diff B x y) = bs_len B x"
    and len_new: "bs_len B (bs_new B) = 0"
    and len_set: "bs_len B (bs_set B x i) = max (bs_len B x) (Suc i)"
    and next_None: "bs_next B x i = None \<longleftrightarrow> bits B x \<inter> {i..} = {}"
    and next_Some: "bs_next B x i = Some j \<Longrightarrow> j \<in> bits B x \<and> i \<le> j \<and> bits B x \<inter> {i..<j} = {}"
begin

lemma finite_bits: "finite (bits B x)"
  using bits_len by (rule finite_subset) simp

lemma card_bits: "card (bits B x) \<le> bs_len B x"
  using card_mono [OF _ bits_len [of x]] by simp

end

section \<open>Bit sets as lists of bits\<close>

definition bit_at :: "bool list \<Rightarrow> nat \<Rightarrow> bool" where
  "bit_at xs i \<longleftrightarrow> i < length xs \<and> xs ! i"

fun next_bit :: "bool list \<Rightarrow> nat \<Rightarrow> nat option" where
  "next_bit [] i = None"
| "next_bit (x # xs) 0 = (if x then Some 0 else map_option Suc (next_bit xs 0))"
| "next_bit (x # xs) (Suc i) = map_option Suc (next_bit xs i)"

definition list_bits :: "bool list bitset_ops" where
  "list_bits = \<lparr>
     bs_new = [],
     bs_set = (\<lambda>xs i. map (\<lambda>j. bit_at xs j \<or> j = i) [0..<max (length xs) (Suc i)]),
     bs_union = (\<lambda>xs ys. map (\<lambda>j. bit_at xs j \<or> bit_at ys j) [0..<max (length xs) (length ys)]),
     bs_diff = (\<lambda>xs ys. map (\<lambda>j. bit_at xs j \<and> \<not> bit_at ys j) [0..<length xs]),
     bs_equal = (\<lambda>xs ys. xs = ys),
     bs_test = bit_at,
     bs_len = length,
     bs_next = next_bit\<rparr>"

lemma next_bit_None: "next_bit xs i = None \<longleftrightarrow> (\<forall>j\<ge>i. \<not> bit_at xs j)"
proof (induction xs i rule: next_bit.induct)
  case (2 x xs)
  have "(\<forall>j. \<not> bit_at (x # xs) j) \<longleftrightarrow> \<not> x \<and> (\<forall>j. \<not> bit_at xs j)"
    by (auto simp: bit_at_def nth_Cons split: nat.splits)
  with 2 show ?case by auto
next
  case (3 x xs i)
  have "(\<forall>j\<ge>Suc i. \<not> bit_at (x # xs) j) \<longleftrightarrow> (\<forall>j\<ge>i. \<not> bit_at xs j)"
    by (auto simp: bit_at_def nth_Cons Suc_le_eq split: nat.splits)
  with 3 show ?case by simp
qed (simp add: bit_at_def)

lemma next_bit_Some: "next_bit xs i = Some j \<Longrightarrow> bit_at xs j \<and> i \<le> j \<and> (\<forall>k\<in>{i..<j}. \<not> bit_at xs k)"
proof (induction xs i arbitrary: j rule: next_bit.induct)
  case (2 x xs)
  then show ?case
    by (auto simp: bit_at_def nth_Cons split: if_splits nat.splits)
next
  case (3 x xs i)
  then show ?case
    by (auto simp: bit_at_def nth_Cons split: nat.splits)
qed simp

lemma bit_at_eq: "length xs = length ys \<Longrightarrow> (\<And>i. bit_at xs i = bit_at ys i) \<Longrightarrow> xs = ys"
  by (rule nth_equalityI) (auto simp: bit_at_def)

lemma bits_list [simp]: "bits list_bits xs = {i. bit_at xs i}"
  by (simp add: bits_def list_bits_def)

interpretation listb: bitset_api list_bits
proof
  fix xs ys :: "bool list" and i j :: nat
  show "bs_equal list_bits xs ys \<longleftrightarrow> bits list_bits xs = bits list_bits ys \<and> bs_len list_bits xs = bs_len list_bits ys"
    using bit_at_eq [of xs ys] by (auto simp: list_bits_def bits_def)
  show "bs_next list_bits xs i = None \<longleftrightarrow> bits list_bits xs \<inter> {i..} = {}"
    using next_bit_None [of xs i] by (auto simp: list_bits_def bits_def)
  show "j \<in> bits list_bits xs \<and> i \<le> j \<and> bits list_bits xs \<inter> {i..<j} = {}" if "bs_next list_bits xs i = Some j"
    using next_bit_Some [of xs i j] that by (auto simp: list_bits_def bits_def)
qed (auto simp: bits_def list_bits_def bit_at_def)

end
