(* ===== verification/Dataflow.thy ===== *)
theory Dataflow
  imports Cfg Bitset
begin

text \<open>
  The data flow analyses of the program slicer: reaching definitions and the data dependence
  graph (\<open>src/programslicer/dataflow/reaching.go\<close>), live variables
  (\<open>src/programslicer/dataflow/live.go\<close>). The bit set operations are the argument \<open>B\<close>;
  \<open>df\<close> and \<open>us\<close> give the variables that \<open>defs\<close> and \<open>uses\<close> find in the statement at an
  address, and \<open>ord\<close> orders the keys of a map that is ranged over. A bit set that is missing from a map is a nil pointer, and reading it a failure.
\<close>

definition deref :: "('k \<rightharpoonup> 'v) \<Rightarrow> 'k \<Rightarrow> 'v go" where
  "deref m k = (case m k of None \<Rightarrow> Inl NilPointer | Some v \<Rightarrow> Inr v)"

section \<open>The iteration both analyses share\<close>

text \<open>
  Both analyses repeat a pass over the blocks until no set changes. In a pass each block adds
  the sets of its neighbours (\<open>near\<close>: \<open>in\<close> of reaching definitions, \<open>out\<close> of live variables)
  and then recomputes its own (\<open>far\<close>) as \<open>gen \<union> (near - kill)\<close>.
\<close>

definition flow_visit ::
  "'b bitset_ops \<Rightarrow> (node \<Rightarrow> node list go) \<Rightarrow> (node \<rightharpoonup> 'b) \<Rightarrow> (node \<rightharpoonup> 'b) \<Rightarrow>
   (node \<rightharpoonup> 'b) \<times> (node \<rightharpoonup> 'b) \<times> bool \<Rightarrow> node \<Rightarrow> ((node \<rightharpoonup> 'b) \<times> (node \<rightharpoonup> 'b) \<times> bool) go" where
  "flow_visit B nbrs gen kill = (\<lambda>(near, far, changed) block.
     rbind (nbrs block) (\<lambda>ps.
     rbind (deref near block) (\<lambda>x.
     rbind (foldR (\<lambda>x p. rbind (deref far p) (\<lambda>y. Inr (bs_union B x y))) x ps) (\<lambda>x.
     rbind (deref far block) (\<lambda>old.
     rbind (deref gen block) (\<lambda>g.
     rbind (deref kill block) (\<lambda>k.
       let new = bs_union B g (bs_diff B x k)
       in Inr (near(block \<mapsto> x), far(block \<mapsto> new), changed \<or> \<not> bs_equal B old new))))))))"

partial_function (option) flow_loop ::
  "'b bitset_ops \<Rightarrow> (node \<Rightarrow> node list go) \<Rightarrow> (node \<rightharpoonup> 'b) \<Rightarrow> (node \<rightharpoonup> 'b) \<Rightarrow> node list \<Rightarrow>
   (node \<rightharpoonup> 'b) \<Rightarrow> (node \<rightharpoonup> 'b) \<Rightarrow> ((node \<rightharpoonup> 'b) \<times> (node \<rightharpoonup> 'b)) go option" where
  "flow_loop B nbrs gen kill blocks near far =
     (case foldR (flow_visit B nbrs gen kill) (near, far, False) blocks of
        Inl e \<Rightarrow> Some (Inl e)
      | Inr (near', far', changed) \<Rightarrow>
          (if changed then flow_loop B nbrs gen kill blocks near' far' else Some (Inr (near', far'))))"

definition primed :: "'b bitset_ops \<Rightarrow> node list \<Rightarrow> node \<rightharpoonup> 'b" where
  "primed B blocks = map_of (map (\<lambda>b. (b, bs_new B)) blocks)"

section \<open>Reaching definitions\<close>

text \<open>
  \<open>genKillBitsets\<close>: \<open>gen\<close> and \<open>kill\<close> are primed for every block of the list before they are
  read, so that they are total here.
\<close>

type_synonym 'b genkill = "(var \<rightharpoonup> 'b) \<times> (node \<Rightarrow> 'b) \<times> (node \<Rightarrow> 'b)"

definition gen_kill_def :: "'b bitset_ops \<Rightarrow> nat \<Rightarrow> node \<Rightarrow> var \<Rightarrow> 'b genkill \<Rightarrow> 'b genkill" where
  "gen_kill_def B j block d = (\<lambda>(okills, gen, kill).
     let ok = (case okills d of None \<Rightarrow> bs_new B | Some x \<Rightarrow> x);
         gen = gen(block := bs_set B (gen block) j);
         ok = bs_set B ok j
     in (okills(d \<mapsto> ok), gen, kill(block := bs_diff B (bs_union B (kill block) ok) (gen block))))"

definition gen_kill_block :: "'b bitset_ops \<Rightarrow> (node \<Rightarrow> var list) \<Rightarrow> nat \<times> node \<Rightarrow> 'b genkill \<Rightarrow> 'b genkill" where
  "gen_kill_block B df = (\<lambda>(j, block). fold (gen_kill_def B j block) (df block))"

definition gen_kill_pass :: "'b bitset_ops \<Rightarrow> (node \<Rightarrow> var list) \<Rightarrow> node list \<Rightarrow> 'b genkill \<Rightarrow> 'b genkill" where
  "gen_kill_pass B df blocks = fold (gen_kill_block B df) (enumerate 0 blocks)"

definition genKillBitsets ::
  "'b bitset_ops \<Rightarrow> (node \<Rightarrow> var list) \<Rightarrow> node list \<Rightarrow> (node \<rightharpoonup> 'b) \<times> (node \<rightharpoonup> 'b)" where
  "genKillBitsets B df blocks =
     (let (okills, gen, kill) =
        gen_kill_pass B df blocks (gen_kill_pass B df blocks (Map.empty, \<lambda>_. bs_new B, \<lambda>_. bs_new B))
      in (map_of (map (\<lambda>b. (b, gen b)) blocks), map_of (map (\<lambda>b. (b, kill b)) blocks)))"

text \<open>The entry is taken out of the list after its sets have been primed.\<close>

definition reachingDefBitsets ::
  "'b bitset_ops \<Rightarrow> CFG \<Rightarrow> node list \<Rightarrow> (node \<rightharpoonup> 'b) \<Rightarrow> (node \<rightharpoonup> 'b) \<Rightarrow>
   ((node \<rightharpoonup> 'b) \<times> (node \<rightharpoonup> 'b)) go option" where
  "reachingDefBitsets B c blocks gen kill =
     flow_loop B (CFG_Preds c) gen kill (filter (\<lambda>b. b \<noteq> Entry c) blocks) (primed B blocks) (primed B blocks)"

text \<open>
  \<open>reachingDefResultSets\<close>: the statements at the positions of the bits. The loop asks for the
  next bit from \<open>i\<close> on and goes on behind it.
\<close>

partial_function (option) result_loop ::
  "'b bitset_ops \<Rightarrow> node list \<Rightarrow> 'b \<Rightarrow> nat \<Rightarrow> node set \<Rightarrow> node set go option" where
  "result_loop B blocks x i acc =
     (case bs_next B x i of
        None \<Rightarrow> Some (Inr acc)
      | Some j \<Rightarrow>
          (case index_go blocks j of
             Inl e \<Rightarrow> Some (Inl e)
           | Inr s \<Rightarrow> result_loop B blocks x (j + 1) (insert s acc)))"

definition result_set :: "'b bitset_ops \<Rightarrow> node list \<Rightarrow> (node \<rightharpoonup> 'b) \<Rightarrow> node \<Rightarrow> node set go option" where
  "result_set B blocks m block =
     (case deref m block of Inl e \<Rightarrow> Some (Inl e) | Inr x \<Rightarrow> result_loop B blocks x 0 {})"

text \<open>The outer loop over the blocks; the result maps a block to its two sets.\<close>

fun reachingDefResultSets ::
  "'b bitset_ops \<Rightarrow> node list \<Rightarrow> (node \<rightharpoonup> 'b) \<Rightarrow> (node \<rightharpoonup> 'b) \<Rightarrow> node list \<Rightarrow>
   ((node, node set) gomap \<times> (node, node set) gomap) go option" where
  "reachingDefResultSets B blocks ins outs [] = Some (Inr ([], []))"
| "reachingDefResultSets B blocks ins outs (b # bs) =
     (case result_set B blocks ins b of None \<Rightarrow> None | Some (Inl e) \<Rightarrow> Some (Inl e) | Some (Inr i) \<Rightarrow>
     (case result_set B blocks outs b of None \<Rightarrow> None | Some (Inl e) \<Rightarrow> Some (Inl e) | Some (Inr ou) \<Rightarrow>
     (case reachingDefResultSets B blocks ins outs bs of
        Some (Inr (inn, out)) \<Rightarrow> Some (Inr ((b, i) # inn, (b, ou) # out))
      | r \<Rightarrow> r)))"

text \<open>
  \<open>ReachingDefs\<close>. The two functions each ask for the blocks, and a map need not be ranged
  over twice in the same order: \<open>ord\<close> and \<open>ord'\<close>.
\<close>

definition ReachingDefs ::
  "'b bitset_ops \<Rightarrow> (node set \<Rightarrow> node list) \<Rightarrow> (node set \<Rightarrow> node list) \<Rightarrow> (node \<Rightarrow> var list) \<Rightarrow> CFG \<Rightarrow>
   ((node, node set) gomap \<times> (node, node set) gomap) go option" where
  "ReachingDefs B ord ord' df c =
     (let blocks = GetBlocks ord c;
          (gen, kill) = genKillBitsets B df blocks
      in case reachingDefBitsets B c (GetBlocks ord' c) gen kill of
           None \<Rightarrow> None
         | Some (Inl e) \<Rightarrow> Some (Inl e)
         | Some (Inr (ins, outs)) \<Rightarrow> reachingDefResultSets B blocks ins outs blocks)"

section \<open>The data dependence graph\<close>

fun intersectDefUse :: "var list \<Rightarrow> var list \<Rightarrow> bool" where
  "intersectDefUse [] us = False"
| "intersectDefUse (d # ds) us = (if d \<in> set us then True else intersectDefUse ds us)"

definition data_dep :: "(node \<Rightarrow> var list) \<Rightarrow> (node \<Rightarrow> var list) \<Rightarrow> node \<Rightarrow> node \<Rightarrow> blocks \<Rightarrow> blocks go" where
  "data_dep df us u d m =
     (if intersectDefUse (df d) (us u) then
        (case (gomap_get m u, gomap_get m d) of
           (Some _, Some _) \<Rightarrow>
             Inr (AList.map_entry d (\<lambda>b. b\<lparr>DataDepee := DataDepee b @ [u]\<rparr>)
                   (AList.map_entry u (\<lambda>b. b\<lparr>DataDep := DataDep b @ [d]\<rparr>) m))
         | _ \<Rightarrow> Inl NilPointer)
      else Inr m)"

definition CreateDataDepGraph ::
  "'b bitset_ops \<Rightarrow> (node set \<Rightarrow> node list) \<Rightarrow> (node set \<Rightarrow> node list) \<Rightarrow> (node set \<Rightarrow> node list) \<Rightarrow>
   (node \<Rightarrow> var list) \<Rightarrow> (node \<Rightarrow> var list) \<Rightarrow> CFG \<Rightarrow> CFG go option" where
  "CreateDataDepGraph B ord ord' ord'' df us c =
     (case ReachingDefs B ord ord' df c of
        None \<Rightarrow> None
      | Some (Inl e) \<Rightarrow> Some (Inl e)
      | Some (Inr (ins, outs)) \<Rightarrow>
          Some (rbind
            (foldR (\<lambda>m u. case gomap_get ins u of None \<Rightarrow> Inr m
                          | Some ds \<Rightarrow> foldR (\<lambda>m d. data_dep df us u d m) m (ord'' ds))
               (Blocks c) (ord'' (set (map fst ins))))
            (\<lambda>m. Inr (c\<lparr>Blocks := m\<rparr>))))"

section \<open>Live variables\<close>

text \<open>
  \<open>live.go\<close> works on the graphs of \<open>github.com/godoctor/godoctor/analysis/cfg\<close>, a package of
  which it reads the blocks, the successors, the exit and the deferred calls.
\<close>

record ext_cfg =
  x_Blocks :: "node list"
  x_Succs :: "node \<Rightarrow> node list"
  x_Exit :: node
  x_Defers :: "node list"

text \<open>\<open>varIndices\<close> and \<open>vars\<close> grow together: the index of a variable is its position in \<open>vars\<close>.\<close>

type_synonym 'b defuse = "(var \<rightharpoonup> nat) \<times> var list \<times> (node \<Rightarrow> 'b) \<times> (node \<Rightarrow> 'b)"

definition var_index :: "var \<Rightarrow> (var \<rightharpoonup> nat) \<times> var list \<Rightarrow> nat \<times> (var \<rightharpoonup> nat) \<times> var list" where
  "var_index v = (\<lambda>(idx, vars).
     case idx v of Some k \<Rightarrow> (k, idx, vars) | None \<Rightarrow> (length vars, idx(v \<mapsto> length vars), vars @ [v]))"

definition add_def :: "'b bitset_ops \<Rightarrow> node \<Rightarrow> var \<Rightarrow> 'b defuse \<Rightarrow> 'b defuse" where
  "add_def B block v = (\<lambda>(idx, vars, def, use).
     let (k, idx, vars) = var_index v (idx, vars) in (idx, vars, def(block := bs_set B (def block) k), use))"

definition add_use :: "'b bitset_ops \<Rightarrow> node \<Rightarrow> var \<Rightarrow> 'b defuse \<Rightarrow> 'b defuse" where
  "add_use B block v = (\<lambda>(idx, vars, def, use).
     let (k, idx, vars) = var_index v (idx, vars) in (idx, vars, def, use(block := bs_set B (use block) k)))"

definition block_uses :: "(node \<Rightarrow> var list) \<Rightarrow> ext_cfg \<Rightarrow> node \<Rightarrow> var list" where
  "block_uses us g block =
     us block @ (if block = x_Exit g then concat (map us (x_Defers g)) else [])"

definition defUseBitsets ::
  "'b bitset_ops \<Rightarrow> (node \<Rightarrow> var list) \<Rightarrow> (node \<Rightarrow> var list) \<Rightarrow> ext_cfg \<Rightarrow>
   var list \<times> (node \<rightharpoonup> 'b) \<times> (node \<rightharpoonup> 'b)" where
  "defUseBitsets B df us g =
     (let (idx, vars, def, use) =
        fold (\<lambda>block st. fold (add_use B block) (block_uses us g block) (fold (add_def B block) (df block) st))
          (x_Blocks g) (Map.empty, [], \<lambda>_. bs_new B, \<lambda>_. bs_new B)
      in (vars, map_of (map (\<lambda>b. (b, def b)) (x_Blocks g)), map_of (map (\<lambda>b. (b, use b)) (x_Blocks g))))"

definition liveVarsBitsets ::
  "'b bitset_ops \<Rightarrow> ext_cfg \<Rightarrow> (node \<rightharpoonup> 'b) \<Rightarrow> (node \<rightharpoonup> 'b) \<Rightarrow> ((node \<rightharpoonup> 'b) \<times> (node \<rightharpoonup> 'b)) go option" where
  "liveVarsBitsets B g def use =
     (case flow_loop B (\<lambda>b. Inr (x_Succs g b)) use def (x_Blocks g) (primed B (x_Blocks g)) (primed B (x_Blocks g)) of
        None \<Rightarrow> None
      | Some (Inl e) \<Rightarrow> Some (Inl e)
      | Some (Inr (out, inn)) \<Rightarrow> Some (Inr (inn, out)))"

definition live_set :: "'b bitset_ops \<Rightarrow> var list \<Rightarrow> 'b \<Rightarrow> var set go" where
  "live_set B vars x =
     foldR (\<lambda>acc i. if bs_test B x i then rbind (index_go vars i) (\<lambda>v. Inr (insert v acc)) else Inr acc)
       {} [0..<bs_len B x]"

definition liveVarsResultSets ::
  "'b bitset_ops \<Rightarrow> ext_cfg \<Rightarrow> var list \<Rightarrow> (node \<rightharpoonup> 'b) \<Rightarrow> (node \<rightharpoonup> 'b) \<Rightarrow>
   ((node, var set) gomap \<times> (node, var set) gomap) go" where
  "liveVarsResultSets B g vars ins outs =
     rbind (traverse (\<lambda>b. rbind (deref ins b) (\<lambda>x. rbind (live_set B vars x) (\<lambda>i.
                            rbind (deref outs b) (\<lambda>y. rbind (live_set B vars y) (\<lambda>ou.
                              Inr ((b, i), (b, ou))))))) (x_Blocks g))
       (\<lambda>rs. Inr (map fst rs, map snd rs))"

definition LiveVars ::
  "'b bitset_ops \<Rightarrow> (node \<Rightarrow> var list) \<Rightarrow> (node \<Rightarrow> var list) \<Rightarrow> ext_cfg \<Rightarrow>
   ((node, var set) gomap \<times> (node, var set) gomap) go option" where
  "LiveVars B df us g =
     (let (vars, def, use) = defUseBitsets B df us g
      in case liveVarsBitsets B g def use of
           None \<Rightarrow> None
         | Some (Inl e) \<Rightarrow> Some (Inl e)
         | Some (Inr (ins, outs)) \<Rightarrow> Some (liveVarsResultSets B g vars ins outs))"

end
