(* ===== verification/Slicer.thy ===== *)
theory Slicer
  imports Dom Dataflow
begin

text \<open>
  The slices of one function, \<open>ComputeForwardSlice\<close> and \<open>ComputeBackwardSlice\<close> of
  \<open>src/programslicer/programslicer.go\<close>: a breadth-first search over control and data
  dependences, which returns the statements in the order of their discovery. What the
  functions print is left out.
\<close>

section \<open>Definitions\<close>

type_synonym search = "node list \<times> node set \<times> node list"

definition slice_visit :: "search \<Rightarrow> node \<Rightarrow> search" where
  "slice_visit s v =
     (let (queue, visited, sl) = s
      in if v \<notin> visited then (queue @ [v], insert v visited, sl @ [v]) else s)"

text \<open>The nodes that occur in a dependence list.\<close>

definition dep_nodes :: "(Block \<Rightarrow> node list) \<Rightarrow> blocks \<Rightarrow> node set" where
  "dep_nodes deps m = (\<Union>(s, b) \<in> set m. set (deps b))"

text \<open>The unvisited nodes of a list, each once.\<close>

fun fresh_nodes :: "node set \<Rightarrow> node list \<Rightarrow> node list" where
  "fresh_nodes visited [] = []"
| "fresh_nodes visited (v # vs) =
     (if v \<in> visited then fresh_nodes visited vs else v # fresh_nodes (insert v visited) vs)"

lemma foldl_slice_visit:
  "foldl slice_visit (queue, visited, sl) vs =
     (queue @ fresh_nodes visited vs, visited \<union> set vs, sl @ fresh_nodes visited vs)"
  by (induction vs arbitrary: queue visited sl) (auto simp: slice_visit_def insert_absorb)

lemma fresh_nodes_props:
  "set (fresh_nodes visited vs) = set vs - visited" "distinct (fresh_nodes visited vs)"
  by (induction vs arbitrary: visited) auto

lemma finite_dep_nodes [simp]: "finite (dep_nodes deps m)"
  by (auto simp: dep_nodes_def)

lemma visit_measure:
  assumes "gomap_get m u = Some b"
  shows "card (dep_nodes deps m - (visited \<union> set (deps b))) + length (fresh_nodes visited (deps b)) \<le>
    card (dep_nodes deps m - visited)"
proof -
  let ?D = "dep_nodes deps m" and ?f = "fresh_nodes visited (deps b)"
  have sub: "set (deps b) \<subseteq> ?D" using assms by (fastforce simp: dep_nodes_def dest: map_of_SomeD)
  have len: "length ?f = card (set ?f)" using distinct_card [OF fresh_nodes_props(2)] by simp
  have "card (?D - (visited \<union> set (deps b))) + card (set ?f) = card ((?D - (visited \<union> set (deps b))) \<union> set ?f)"
    by (subst card_Un_disjoint) (auto simp: fresh_nodes_props)
  also have "\<dots> \<le> card (?D - visited)" using sub by (intro card_mono) (auto simp: fresh_nodes_props)
  finally show ?thesis by (simp add: len)
qed

function slice_loop :: "(Block \<Rightarrow> node list) \<Rightarrow> blocks \<Rightarrow> node list \<Rightarrow> node set \<Rightarrow> node list \<Rightarrow> node list" where
  "slice_loop deps m [] visited sl = sl"
| "slice_loop deps m (u # queue) visited sl =
     (case gomap_get m u of
        None \<Rightarrow> slice_loop deps m queue visited sl
      | Some b \<Rightarrow>
          slice_loop deps m (fst (foldl slice_visit (queue, visited, sl) (deps b)))
            (fst (snd (foldl slice_visit (queue, visited, sl) (deps b))))
            (snd (snd (foldl slice_visit (queue, visited, sl) (deps b)))))"
  by pat_completeness auto
termination
proof (relation "measure (\<lambda>(deps, m, queue, visited, sl). card (dep_nodes deps m - visited) + length queue)")
  fix deps :: "Block \<Rightarrow> node list" and m :: blocks and u queue visited sl b
  assume "gomap_get m u = Some b"
  from visit_measure [OF this, of deps visited]
  show "((deps, m, fst (foldl slice_visit (queue, visited, sl) (deps b)),
          fst (snd (foldl slice_visit (queue, visited, sl) (deps b))),
          snd (snd (foldl slice_visit (queue, visited, sl) (deps b)))),
         (deps, m, u # queue, visited, sl))
    \<in> measure (\<lambda>(deps, m, queue, visited, sl). card (dep_nodes deps m - visited) + length queue)"
    by (simp add: foldl_slice_visit)
qed auto

definition back_deps :: "Block \<Rightarrow> node list" where
  "back_deps b = ControlDep b @ DataDep b"

definition forward_deps :: "Block \<Rightarrow> node list" where
  "forward_deps b = ControlDepee b @ DataDepee b"

text \<open>
  Both functions change the graph they are given and return the slice. \<open>ord\<close> are the
  orders of the ranges over maps, \<open>depth\<close> the depth of the stack.
\<close>

definition ComputeForwardSlice ::
  "'b bitset_ops \<Rightarrow> (nat \<Rightarrow> node set \<Rightarrow> node list) \<Rightarrow> nat \<Rightarrow> (node \<Rightarrow> var list) \<Rightarrow> (node \<Rightarrow> var list) \<Rightarrow>
   node \<Rightarrow> CFG \<Rightarrow> node list \<Rightarrow> (CFG \<times> node list) go option" where
  "ComputeForwardSlice B ord depth df us start cf sliceSoFar =
     gbind (CreateDataDepGraph B (ord 1) (ord 2) (ord 3) df us cf) (\<lambda>cf.
     gbind (BuildDomTree depth (InitializeBlocks (ord 4) cf)) (\<lambda>cf.
     gbind (FindControlDeps cf) (\<lambda>cf.
       Some (Inr (cf, slice_loop forward_deps (Blocks cf) (start # sliceSoFar) {start} [start])))))"

definition ComputeBackwardSlice ::
  "'b bitset_ops \<Rightarrow> (nat \<Rightarrow> node set \<Rightarrow> node list) \<Rightarrow> nat \<Rightarrow> (node \<Rightarrow> var list) \<Rightarrow> (node \<Rightarrow> var list) \<Rightarrow>
   node \<Rightarrow> CFG \<Rightarrow> node list \<Rightarrow> (CFG \<times> node list) go option" where
  "ComputeBackwardSlice B ord depth df us start cf sliceSoFar =
     gbind (CreateDataDepGraph B (ord 1) (ord 2) (ord 3) df us cf) (\<lambda>cf.
     gbind (BuildPostDomTree (ord 4) (ord 5) depth cf) (\<lambda>invC.
     gbind (FindControlDeps invC) (\<lambda>invC.
       Some (Inr (InitializeBlocks (ord 4) cf, slice_loop back_deps (Blocks invC) (start # sliceSoFar) {start} [start])))))"

section \<open>The search\<close>

definition dep_edge :: "(Block \<Rightarrow> node list) \<Rightarrow> blocks \<Rightarrow> node \<Rightarrow> node \<Rightarrow> bool" where
  "dep_edge deps m u v \<longleftrightarrow> (\<exists>b. gomap_get m u = Some b \<and> v \<in> set (deps b))"

text \<open>What the search has settled: the dependences of a node that left the queue are visited.\<close>

lemma slice_loop_search:
  assumes "distinct sl" "visited = set sl" "set sl \<union> set queue \<subseteq> D"
    and "\<And>u v. u \<in> D \<Longrightarrow> u \<notin> set queue \<Longrightarrow> dep_edge deps m u v \<Longrightarrow> v \<in> visited"
  defines "r \<equiv> slice_loop deps m queue visited sl"
  shows "distinct r \<and> (\<exists>ws. r = sl @ ws) \<and>
    (\<forall>u v. u \<in> D \<union> set r \<longrightarrow> dep_edge deps m u v \<longrightarrow> v \<in> set r) \<and>
    (\<forall>v \<in> set r. v \<in> set sl \<or> (\<exists>u \<in> set queue. (dep_edge deps m)\<^sup>+\<^sup>+ u v))"
  using assms(1-4) unfolding r_def
proof (induction deps m queue visited sl arbitrary: D rule: slice_loop.induct)
  case (1 deps m visited sl)
  then show ?case by (auto simp: Un_absorb2)
next
  case (2 deps m u queue visited sl)
  show ?case
  proof (cases "gomap_get m u")
    case None
    then have no: "\<not> dep_edge deps m u v" for v by (simp add: dep_edge_def)
    have "distinct (slice_loop deps m queue visited sl) \<and> (\<exists>ws. slice_loop deps m queue visited sl = sl @ ws) \<and>
      (\<forall>w v. w \<in> D \<union> set (slice_loop deps m queue visited sl) \<longrightarrow> dep_edge deps m w v \<longrightarrow>
         v \<in> set (slice_loop deps m queue visited sl)) \<and>
      (\<forall>v \<in> set (slice_loop deps m queue visited sl). v \<in> set sl \<or> (\<exists>u \<in> set queue. (dep_edge deps m)\<^sup>+\<^sup>+ u v))"
    proof (rule 2(1) [OF None])
      show "\<And>w v. w \<in> D \<Longrightarrow> w \<notin> set queue \<Longrightarrow> dep_edge deps m w v \<Longrightarrow> v \<in> visited"
        using 2(6) no by (metis set_ConsD)
    qed (use 2(3-5) in auto)
    with None show ?thesis by auto
  next
    case (Some b)
    let ?ws = "fresh_nodes visited (deps b)"
    let ?r = "slice_loop deps m (queue @ ?ws) (visited \<union> set (deps b)) (sl @ ?ws)"
    have e: "dep_edge deps m u v \<longleftrightarrow> v \<in> set (deps b)" for v using Some by (simp add: dep_edge_def)
    have "distinct ?r \<and> (\<exists>ws. ?r = (sl @ ?ws) @ ws) \<and>
      (\<forall>w v. w \<in> (D \<union> set (deps b)) \<union> set ?r \<longrightarrow> dep_edge deps m w v \<longrightarrow> v \<in> set ?r) \<and>
      (\<forall>v \<in> set ?r. v \<in> set (sl @ ?ws) \<or> (\<exists>u \<in> set (queue @ ?ws). (dep_edge deps m)\<^sup>+\<^sup>+ u v))"
    proof (rule 2(2) [OF Some, unfolded foldl_slice_visit fst_conv snd_conv])
      show "distinct (sl @ ?ws)" "visited \<union> set (deps b) = set (sl @ ?ws)"
        using 2(3,4) by (auto simp: fresh_nodes_props)
      show "set (sl @ ?ws) \<union> set (queue @ ?ws) \<subseteq> D \<union> set (deps b)"
        using 2(5) by (auto simp: fresh_nodes_props)
    next
      fix w v
      assume w: "w \<in> D \<union> set (deps b)" "w \<notin> set (queue @ ?ws)" "dep_edge deps m w v"
      show "v \<in> visited \<union> set (deps b)"
      proof (cases "w = u")
        case True
        with w(3) e show ?thesis by simp
      next
        case False
        have "w \<in> D" using w(1,2) 2(4,5) by (auto simp: fresh_nodes_props)
        with False w 2(6) show ?thesis by auto
      qed
    qed
    then have IH: "distinct ?r" "\<exists>ws. ?r = sl @ ws"
      "\<forall>w v. w \<in> D \<union> set ?r \<longrightarrow> dep_edge deps m w v \<longrightarrow> v \<in> set ?r"
      "\<forall>v \<in> set ?r. v \<in> set (sl @ ?ws) \<or> (\<exists>u \<in> set (queue @ ?ws). (dep_edge deps m)\<^sup>+\<^sup>+ u v)"
      by auto
    have "v \<in> set sl \<or> (\<exists>u \<in> set (u # queue). (dep_edge deps m)\<^sup>+\<^sup>+ u v)" if v: "v \<in> set ?r" for v
    proof -
      have ws: "(dep_edge deps m)\<^sup>+\<^sup>+ u w" if w: "w \<in> set ?ws" for w
        using w e by (auto simp: fresh_nodes_props)
      from IH(4) v consider "v \<in> set sl" | "v \<in> set ?ws" | w where "w \<in> set queue" "(dep_edge deps m)\<^sup>+\<^sup>+ w v"
        | w where "w \<in> set ?ws" "(dep_edge deps m)\<^sup>+\<^sup>+ w v" by auto
      then show ?thesis
      proof cases
        case 4
        with ws have "(dep_edge deps m)\<^sup>+\<^sup>+ u v" by (meson tranclp_trans)
        then show ?thesis by auto
      qed (use ws in auto)
    qed
    with IH(1-3) Some show ?thesis by (simp add: foldl_slice_visit)
  qed
qed

lemma slice_loop_correct:
  defines "r \<equiv> \<lambda>deps m start soFar. slice_loop deps m (start # soFar) {start} [start]"
  shows "distinct (r deps m start soFar) \<and> (\<exists>ws. r deps m start soFar = start # ws) \<and>
    set (r deps m start soFar) = {start} \<union> {v. \<exists>u \<in> set (start # soFar). (dep_edge deps m)\<^sup>+\<^sup>+ u v}"
proof -
  let ?r = "slice_loop deps m (start # soFar) {start} [start]"
  have "distinct ?r \<and> (\<exists>ws. ?r = [start] @ ws) \<and>
    (\<forall>u v. u \<in> set (start # soFar) \<union> set ?r \<longrightarrow> dep_edge deps m u v \<longrightarrow> v \<in> set ?r) \<and>
    (\<forall>v \<in> set ?r. v \<in> set [start] \<or> (\<exists>u \<in> set (start # soFar). (dep_edge deps m)\<^sup>+\<^sup>+ u v))"
    by (rule slice_loop_search) auto
  then have s: "distinct ?r" "\<exists>ws. ?r = start # ws"
    "\<forall>u v. u \<in> set (start # soFar) \<union> set ?r \<longrightarrow> dep_edge deps m u v \<longrightarrow> v \<in> set ?r"
    "\<forall>v \<in> set ?r. v = start \<or> (\<exists>u \<in> set (start # soFar). (dep_edge deps m)\<^sup>+\<^sup>+ u v)"
    by auto
  have "v \<in> set ?r" if "(dep_edge deps m)\<^sup>+\<^sup>+ u v" "u \<in> set (start # soFar)" for u v
    using that
  proof (induction rule: tranclp_induct)
    case (base y)
    with s(3) show ?case by blast
  next
    case (step y z)
    with s(3) show ?case by blast
  qed
  with s show ?thesis unfolding r_def by auto
qed

declare flow_loop.simps [code] result_loop.simps [code]

end
