(* ===== verification/Slice_IP.thy ===== *)
theory Slice_IP
  imports Slicer
begin

text \<open>
  The interprocedural slicer of \<open>src/programslicer/programslicer.go\<close>: \<open>ComputeSliceIP\<close> with the
  functions it uses to find functions, calls and points of entry, and \<open>GetAffectedVariables\<close>.

  \<open>ComputeSliceIP\<close> takes the slicer of one function and the collector of points as arguments, as
  in the source. A function declaration is compared by its address. A slice is a list of
  statements, among them assignments the slicer makes up itself; such an assignment is a new
  object whose address is never looked at. What the functions print is left out, but not that
  printing an assignment asks for its position.
\<close>

section \<open>Traversals of the syntax tree\<close>

text \<open>
  The expressions and statements that \<open>ast.Inspect\<close> meets, in order. With \<open>lits\<close> the walk enters
  the function literals; without, it stops at them. The bodies of statements are lists in this
  model, so that the blocks around them do not appear.
\<close>

datatype anode = E expr | S stmt

abbreviation inspect_opt :: "anode list option \<Rightarrow> anode list" where
  "inspect_opt x \<equiv> (case x of None \<Rightarrow> [] | Some l \<Rightarrow> l)"

primrec inspect_expr :: "bool \<Rightarrow> expr \<Rightarrow> anode list"
  and inspect_spec :: "bool \<Rightarrow> spec \<Rightarrow> anode list"
  and inspect :: "bool \<Rightarrow> stmt \<Rightarrow> anode list" where
  "inspect_expr lits (Ident n) = [E (Ident n)]"
| "inspect_expr lits (IndexExpr n x i) = E (IndexExpr n x i) # inspect_expr lits x @ inspect_expr lits i"
| "inspect_expr lits (CallExpr n f args) =
     E (CallExpr n f args) # inspect_expr lits f @ concat (map (inspect_expr lits) args)"
| "inspect_expr lits (FuncLit n ts b) =
     E (FuncLit n ts b) #
       (if lits then concat (map (inspect_expr lits) ts) @ concat (map (inspect lits) b) else [])"
| "inspect_expr lits (OtherExpr n es) = E (OtherExpr n es) # concat (map (inspect_expr lits) es)"
| "inspect_spec lits (ValueSpec n ns t vs) =
     concat (map (inspect_expr lits) ns) @ inspect_opt (map_option (inspect_expr lits) t) @
     concat (map (inspect_expr lits) vs)"
| "inspect_spec lits (TypeSpec n es) = concat (map (inspect_expr lits) es)"
| "inspect lits (BadStmt n) = [S (BadStmt n)]"
| "inspect lits (DeclStmt n ss) = S (DeclStmt n ss) # concat (map (inspect_spec lits) ss)"
| "inspect lits (EmptyStmt n) = [S (EmptyStmt n)]"
| "inspect lits (LabeledStmt n l s) = S (LabeledStmt n l s) # E (Ident l) # inspect lits s"
| "inspect lits (ExprStmt n e) = S (ExprStmt n e) # inspect_expr lits e"
| "inspect lits (SendStmt n c e) = S (SendStmt n c e) # inspect_expr lits c @ inspect_expr lits e"
| "inspect lits (IncDecStmt n e) = S (IncDecStmt n e) # inspect_expr lits e"
| "inspect lits (AssignStmt n lhs tok rhs) =
     S (AssignStmt n lhs tok rhs) # concat (map (inspect_expr lits) lhs) @ concat (map (inspect_expr lits) rhs)"
| "inspect lits (GoStmt n e) = S (GoStmt n e) # inspect_expr lits e"
| "inspect lits (DeferStmt n e) = S (DeferStmt n e) # inspect_expr lits e"
| "inspect lits (ReturnStmt n es) = S (ReturnStmt n es) # concat (map (inspect_expr lits) es)"
| "inspect lits (BranchStmt n tok l) =
     S (BranchStmt n tok l) # inspect_opt (map_option (\<lambda>l. [E (Ident (label_ident l))]) l)"
| "inspect lits (BlockStmt n ss) = S (BlockStmt n ss) # concat (map (inspect lits) ss)"
| "inspect lits (IfStmt n i c b e) =
     S (IfStmt n i c b e) # inspect_opt (map_option (inspect lits) i) @ inspect_expr lits c @
       concat (map (inspect lits) b) @ inspect_opt (map_option (inspect lits) e)"
| "inspect lits (CaseClause n es b) =
     S (CaseClause n es b) # (case map_option (map (inspect_expr lits)) es of None \<Rightarrow> [] | Some xs \<Rightarrow> concat xs) @ concat (map (inspect lits) b)"
| "inspect lits (CommClause n c b) =
     S (CommClause n c b) # inspect_opt (map_option (inspect lits) c) @ concat (map (inspect lits) b)"
| "inspect lits (SwitchStmt n i t b) =
     S (SwitchStmt n i t b) # inspect_opt (map_option (inspect lits) i) @
       inspect_opt (map_option (inspect_expr lits) t) @ concat (map (inspect lits) b)"
| "inspect lits (TypeSwitchStmt n i a b) =
     S (TypeSwitchStmt n i a b) # inspect_opt (map_option (inspect lits) i) @ inspect lits a @
       concat (map (inspect lits) b)"
| "inspect lits (SelectStmt n b) = S (SelectStmt n b) # concat (map (inspect lits) b)"
| "inspect lits (ForStmt n i c p b) =
     S (ForStmt n i c p b) # inspect_opt (map_option (inspect lits) i) @
       inspect_opt (map_option (inspect_expr lits) c) @ inspect_opt (map_option (inspect lits) p) @
       concat (map (inspect lits) b)"
| "inspect lits (RangeStmt n k v e b) =
     S (RangeStmt n k v e b) # inspect_opt (map_option (inspect_expr lits) k) @
       inspect_opt (map_option (inspect_expr lits) v) @ inspect_expr lits e @ concat (map (inspect lits) b)"

definition inspect_body :: "stmt list \<Rightarrow> anode list" where
  "inspect_body b = concat (map (inspect True) b)"

text \<open>The identifiers of the walk are those that the data flow analyses collect.\<close>

definition idents_of :: "anode list \<Rightarrow> node set" where
  "idents_of as = {n. E (Ident n) \<in> set as}"

lemma idents_of_simps [simp]:
  "idents_of [] = {}" "idents_of (S s # as) = idents_of as"
  "idents_of (E (Ident n) # as) = insert n (idents_of as)" "idents_of (as @ bs) = idents_of as \<union> idents_of bs"
  by (auto simp: idents_of_def)

lemma idents_of_cons [simp]: "(\<And>n. e \<noteq> Ident n) \<Longrightarrow> idents_of (E e # as) = idents_of as"
  by (auto simp: idents_of_def)

lemma idents_of_concat [simp]: "idents_of (concat xs) = (\<Union>as\<in>set xs. idents_of as)"
  by (induction xs) auto

lemma idents_inspect:
  "idents_of (inspect_expr True e) = idents_expr e" "idents_of (inspect_spec True sp) = idents_spec sp"
  "idents_of (inspect True s) = idents s"
proof -
  have "idents_of (inspect_expr True e) = idents_expr e" and "idents_of (inspect_spec True sp) = idents_spec sp"
    and "idents_of (inspect True s) = idents s"
    by (induction e and sp and s) (auto split: option.splits)
  then show "idents_of (inspect_expr True e) = idents_expr e" "idents_of (inspect_spec True sp) = idents_spec sp"
    "idents_of (inspect True s) = idents s" by simp_all
qed

section \<open>Programs\<close>

text \<open>
  A declaration of a function: its address, its name, the object of the name (nil for a method),
  the groups of its parameters with the identifiers they declare, the number of its results.
  \<open>Params\<close> is nil only in a tree that no parser built.
\<close>

record func_decl =
  fd_node :: node
  fd_Name :: string
  fd_Obj :: "string option"
  fd_Params :: "node list list option"
  fd_Results :: nat
  fd_Body :: "stmt list"

datatype decl = FDecl (decl_Pos: nat) (decl_End: nat) func_decl | GDecl (decl_Pos: nat) (decl_End: nat) "spec list"

record source =
  src_Decls :: "decl list"
  src_Cfgs :: "CFG list"

text \<open>
  What the parser and the type checker know of a program: names of identifiers and variables,
  the function an identifier is resolved to (\<open>Obj.Decl\<close>), positions, the statement at an address.
\<close>

record program =
  ident_Name :: "node \<Rightarrow> string"
  ident_Decl :: "node \<Rightarrow> func_decl option"
  var_Name :: "var \<Rightarrow> string"
  node_Pos :: "node \<Rightarrow> nat"
  stmt_at :: "node \<Rightarrow> stmt"
  prog_info :: PackageInfo

type_synonym packages = "source list list"

primrec expr_addr :: "expr \<Rightarrow> node" where
  "expr_addr (Ident n) = n"
| "expr_addr (IndexExpr n x i) = n"
| "expr_addr (CallExpr n f args) = n"
| "expr_addr (FuncLit n ts b) = n"
| "expr_addr (OtherExpr n es) = n"

text \<open>\<open>Pos\<close> of a statement; that of an assignment is the position of its first left-hand side.\<close>

fun stmt_Pos :: "program \<Rightarrow> stmt \<Rightarrow> nat go" where
  "stmt_Pos p (AssignStmt n lhs tok rhs) = rbind (index_go lhs 0) (\<lambda>x. Inr (node_Pos p (expr_addr x)))"
| "stmt_Pos p s = Inr (node_Pos p (addr s))"

text \<open>The nodes \<open>ast.Inspect\<close> meets in a file.\<close>

primrec inspect_decl :: "decl \<Rightarrow> anode list" where
  "inspect_decl (FDecl a z fd) = inspect_body (fd_Body fd)"
| "inspect_decl (GDecl a z specs) = concat (map (inspect_spec True) specs)"

definition inspect_file :: "source \<Rightarrow> anode list" where
  "inspect_file src = concat (map inspect_decl (src_Decls src))"

section \<open>Functions of statements\<close>

text \<open>The assertion that the enclosing declaration is a function fails for any other one.\<close>

fun find_decl :: "nat \<Rightarrow> int \<Rightarrow> decl list \<Rightarrow> (int \<times> func_decl option) go" where
  "find_decl p fcount [] = Inr (- 1, None)"
| "find_decl p fcount (d # ds) =
     (let fcount = (case d of FDecl _ _ _ \<Rightarrow> fcount + 1 | GDecl _ _ _ \<Rightarrow> fcount)
      in if p > decl_Pos d \<and> p < decl_End d
         then (case d of FDecl _ _ fd \<Rightarrow> Inr (fcount, Some fd) | GDecl _ _ _ \<Rightarrow> Inl TypeAssertion)
         else find_decl p fcount ds)"

definition findFunction :: "program \<Rightarrow> stmt \<Rightarrow> decl list \<Rightarrow> (int \<times> func_decl option) go" where
  "findFunction p stmt decls = rbind (stmt_Pos p stmt) (\<lambda>pos. find_decl pos (- 1) decls)"

text \<open>\<open>searchFunction\<close>: the sources of all packages with their numbers, in order.\<close>

fun search_sources :: "program \<Rightarrow> stmt \<Rightarrow> (int \<times> int \<times> source) list \<Rightarrow> (int \<times> int \<times> int \<times> func_decl option) go" where
  "search_sources p root [] = Inr (- 1, - 1, - 1, None)"
| "search_sources p root ((pnum, snum, src) # rest) =
     rbind (findFunction p root (src_Decls src)) (\<lambda>(fnum, f).
       if fnum \<noteq> - 1 then Inr (pnum, snum, fnum, f) else search_sources p root rest)"

definition all_sources :: "packages \<Rightarrow> (int \<times> int \<times> source) list" where
  "all_sources packages =
     [(int i, int j, src). (i, sources) \<leftarrow> enumerate 0 packages, (j, src) \<leftarrow> enumerate 0 sources]"

definition searchFunction :: "program \<Rightarrow> stmt \<Rightarrow> packages \<Rightarrow> (int \<times> int \<times> int \<times> func_decl option) go" where
  "searchFunction p root packages = search_sources p root (all_sources packages)"

section \<open>Calls and points\<close>

definition is_return :: "anode \<Rightarrow> stmt option" where
  "is_return a = (case a of S (ReturnStmt n es) \<Rightarrow> Some (ReturnStmt n es) | _ \<Rightarrow> None)"

definition getExitPoints :: "func_decl \<Rightarrow> stmt list" where
  "getExitPoints fd = List.map_filter is_return (inspect_body (fd_Body fd))"

text \<open>Whether an identifier with the given name occurs in one of the expressions.\<close>

definition mentions :: "program \<Rightarrow> string \<Rightarrow> expr list \<Rightarrow> bool" where
  "mentions p param es =
     list_ex (\<lambda>a. case a of E (Ident n) \<Rightarrow> ident_Name p n = param | _ \<Rightarrow> False)
       (concat (map (inspect_expr True) es))"

text \<open>
  One parameter in \<open>getEntryPoints\<close>: assignments that use it, up to the first that assigns to
  it, in the order of the source.
\<close>

fun entry_scan :: "program \<Rightarrow> string \<Rightarrow> bool \<times> stmt list \<Rightarrow> anode \<Rightarrow> bool \<times> stmt list" where
  "entry_scan p param (mark, points) (S (AssignStmt n lhs tok rhs)) =
     (if mentions p param lhs then False else mark,
      if mentions p param rhs \<and> mark then points @ [AssignStmt n lhs tok rhs] else points)"
| "entry_scan p param (mark, points) a = (mark, points)"

definition getEntryPoints :: "program \<Rightarrow> func_decl \<Rightarrow> nat list \<Rightarrow> stmt list go" where
  "getEntryPoints p fd tArgs =
     rbind (traverse (\<lambda>i.
         case fd_Params fd of
           None \<Rightarrow> Inl NilPointer
         | Some groups \<Rightarrow> rbind (index_go groups 0) (\<lambda>names.
             rbind (index_go names i) (\<lambda>n. Inr (ident_Name p n)))) tArgs) (\<lambda>tParams.
       Inr (foldl (\<lambda>points param. snd (foldl (entry_scan p param) (True, points) (inspect_body (fd_Body fd))))
              [] tParams))"

definition checkCallNode :: "program \<Rightarrow> node \<Rightarrow> stmt \<Rightarrow> string option \<Rightarrow> stmt list \<Rightarrow> stmt list" where
  "checkCallNode p y w call callNodes = (if call = Some (ident_Name p y) then callNodes @ [w] else callNodes)"

fun call_stmt :: "program \<Rightarrow> string option \<Rightarrow> stmt list \<Rightarrow> anode \<Rightarrow> stmt list" where
  "call_stmt p call callNodes (S (AssignStmt n lhs tok rhs)) =
     foldl (\<lambda>callNodes e.
         case e of CallExpr _ (Ident y) _ \<Rightarrow> checkCallNode p y (AssignStmt n lhs tok rhs) call callNodes
         | _ \<Rightarrow> callNodes) callNodes rhs"
| "call_stmt p call callNodes (S (ExprStmt n e)) =
     (case e of CallExpr _ (Ident y) _ \<Rightarrow> checkCallNode p y (ExprStmt n e) call callNodes | _ \<Rightarrow> callNodes)"
| "call_stmt p call callNodes a = callNodes"

definition findCallStmnts :: "program \<Rightarrow> string option \<Rightarrow> packages \<Rightarrow> stmt list" where
  "findCallStmnts p call packages =
     foldl (\<lambda>callNodes src. foldl (call_stmt p call) callNodes (inspect_file src)) [] (concat packages)"

text \<open>A call whose function is an identifier that the parser resolved to a declaration.\<close>

definition resolved_call :: "program \<Rightarrow> expr \<Rightarrow> (expr list \<times> func_decl) option" where
  "resolved_call p e =
     (case e of CallExpr _ (Ident y) args \<Rightarrow> map_option (\<lambda>d. (args, d)) (ident_Decl p y) | _ \<Rightarrow> None)"

text \<open>The three lists of \<open>findCalledFunctions\<close>, which grow together, as one list of triples.\<close>

definition findCalledFunctions :: "program \<Rightarrow> stmt list \<Rightarrow> (expr list \<times> func_decl \<times> stmt) list" where
  "findCalledFunctions p stmts =
     concat (map (\<lambda>stmt. case stmt of
         AssignStmt n lhs tok rhs \<Rightarrow> map (\<lambda>(args, d). (args, d, stmt)) (List.map_filter (resolved_call p) rhs)
       | _ \<Rightarrow> []) stmts)"

definition arg_names :: "program \<Rightarrow> anode \<Rightarrow> string list" where
  "arg_names p a =
     (case a of E (CallExpr _ _ args) \<Rightarrow> map (\<lambda>e. case e of Ident n \<Rightarrow> ident_Name p n | _ \<Rightarrow> ''NOT_A_NAME'') args
      | _ \<Rightarrow> [])"

definition getArgs :: "program \<Rightarrow> stmt \<Rightarrow> string list" where
  "getArgs p stmt = concat (map (arg_names p) (inspect True stmt))"

text \<open>The indices of the tainted arguments, one for every match.\<close>

definition taintedArgs :: "string list \<Rightarrow> string list \<Rightarrow> nat list" where
  "taintedArgs args tainted = [i. (i, arg) \<leftarrow> enumerate 0 args, taint \<leftarrow> tainted, arg = taint]"

definition num_fields :: "node list list option \<Rightarrow> nat" where
  "num_fields fl = (case fl of None \<Rightarrow> 0 | Some gs \<Rightarrow> sum_list (map (\<lambda>ns. if ns = [] then 1 else length ns) gs))"

definition GetTaintedPointsBackwards :: "func_decl \<Rightarrow> stmt list go" where
  "GetTaintedPointsBackwards f = Inr (if fd_Results f = 0 then [] else getExitPoints f)"

text \<open>\<open>ord\<close> is the order in which the identifiers of a statement and the variables are ranged over.\<close>

definition GetTaintedPointsForward :: "(node set \<Rightarrow> node list) \<Rightarrow> program \<Rightarrow> stmt list \<Rightarrow> stmt \<Rightarrow> func_decl \<Rightarrow> stmt list go" where
  "GetTaintedPointsForward ord p sl calledAt f =
     (let (defs, _) = ReferencedVars ord (prog_info p) sl;
          varNames = map (var_Name p) (ord defs);
          tArgs = taintedArgs (getArgs p calledAt) varNames
      in if num_fields (fd_Params f) = 0 then Inr [] else getEntryPoints p f tArgs)"

text \<open>
  \<open>GenCallJoin\<close>. The assignment is printed before it is returned, and the printer asks for its
  position, which an assignment without left-hand sides does not have.
\<close>

definition GenCallJoin :: "program \<Rightarrow> expr list \<Rightarrow> func_decl \<Rightarrow> stmt option go" where
  "GenCallJoin p args function =
     (case fd_Params function of
        None \<Rightarrow> Inr None
      | Some groups \<Rightarrow>
          let assignment = AssignStmt 0 (map Ident (concat groups)) EQL args
          in rbind (stmt_Pos p assignment) (\<lambda>_. Inr (Some assignment)))"

text \<open>\<open>contains\<close>: whether a list holds a statement at the position of \<open>item\<close>.\<close>

fun contains_pos :: "program \<Rightarrow> stmt list \<Rightarrow> stmt \<Rightarrow> bool go" where
  "contains_pos p [] item = Inr False"
| "contains_pos p (e # es) item =
     rbind (stmt_Pos p e) (\<lambda>a. rbind (stmt_Pos p item) (\<lambda>b. if a = b then Inr True else contains_pos p es item))"

section \<open>Slices across functions\<close>

text \<open>
  A \<open>FuncNode\<close> is reached through the map of \<open>ComputeSliceIP\<close> only: under the key \<open>f\<close> of \<open>Calls\<close>
  stands the node that the map holds for \<open>f\<close>, so that the keys are enough.
\<close>

record FuncNode =
  fn_Name :: string
  fn_Slice :: "stmt list"
  fn_Calls :: "node set"
  fn_NVars :: "var list"
  fn_Root :: stmt
  fn_Tainted :: bool

definition NewFuncNode :: "func_decl \<Rightarrow> stmt \<Rightarrow> bool \<Rightarrow> FuncNode" where
  "NewFuncNode fd root tainted =
     \<lparr>fn_Name = fd_Name fd, fn_Slice = [], fn_Calls = {}, fn_NVars = [], fn_Root = root, fn_Tainted = tainted\<rparr>"

type_synonym fnodes = "(node, FuncNode) gomap"

type_synonym ip_task = "stmt \<times> func_decl option"

definition fnode :: "fnodes \<Rightarrow> node \<Rightarrow> FuncNode go" where
  "fnode fs f = (case gomap_get fs f of None \<Rightarrow> Inl NilPointer | Some x \<Rightarrow> Inr x)"

definition add_slice :: "node \<Rightarrow> stmt \<Rightarrow> fnodes \<Rightarrow> fnodes" where
  "add_slice f s fs = AList.map_entry f (\<lambda>x. x\<lparr>fn_Slice := fn_Slice x @ [s]\<rparr>) fs"

definition add_func :: "func_decl \<Rightarrow> stmt \<Rightarrow> fnodes \<Rightarrow> fnodes" where
  "add_func f root fs =
     (if gomap_get fs (fd_node f) = None then gomap_set (fd_node f) (NewFuncNode f root False) fs else fs)"

text \<open>The statements of a slice that are new to the function, and whether there were any.\<close>

definition append_new :: "program \<Rightarrow> node \<Rightarrow> fnodes \<times> bool \<Rightarrow> stmt \<Rightarrow> (fnodes \<times> bool) go" where
  "append_new p fd st stm =
     rbind (fnode (fst st) fd) (\<lambda>x.
     rbind (contains_pos p (fn_Slice x) stm) (\<lambda>c.
       Inr (if c then st else (add_slice fd stm (fst st), True))))"

definition join_call :: "program \<Rightarrow> node \<Rightarrow> fnodes \<Rightarrow> expr list \<times> func_decl \<times> stmt \<Rightarrow> fnodes go" where
  "join_call p fd fs c =
     rbind (GenCallJoin p (fst c) (fst (snd c))) (\<lambda>a.
       Inr (case a of None \<Rightarrow> fs | Some assignment \<Rightarrow> add_slice fd assignment fs))"

text \<open>A function that the sliced one calls.\<close>

definition tunnel ::
  "(stmt list \<Rightarrow> stmt \<Rightarrow> func_decl \<Rightarrow> stmt list go) \<Rightarrow> stmt \<Rightarrow> node \<Rightarrow> fnodes \<times> ip_task list \<Rightarrow>
   expr list \<times> func_decl \<times> stmt \<Rightarrow> (fnodes \<times> ip_task list) go" where
  "tunnel pointCollecter root fd st c =
     (let f = fst (snd c);
          fs = AList.map_entry fd (\<lambda>x. x\<lparr>fn_Calls := insert (fd_node f) (fn_Calls x)\<rparr>) (add_func f root (fst st))
      in rbind (fnode fs fd) (\<lambda>x.
         rbind (pointCollecter (fn_Slice x) (snd (snd c)) f) (\<lambda>points.
           Inr (fs, snd st @ map (\<lambda>pt. (pt, Some f)) points))))"

text \<open>A statement that calls the sliced function.\<close>

definition taint_caller ::
  "program \<Rightarrow> packages \<Rightarrow> stmt \<Rightarrow> node \<Rightarrow> fnodes \<times> ip_task list \<Rightarrow> stmt \<Rightarrow> (fnodes \<times> ip_task list) go" where
  "taint_caller p packages root fd st stmt =
     rbind (searchFunction p stmt packages) (\<lambda>(_, _, _, f).
       case f of
         None \<Rightarrow> Inr (fst st, snd st @ [(stmt, None)])
       | Some g \<Rightarrow>
           let fs = add_func g root (fst st)
           in rbind (fnode fs fd) (\<lambda>x.
                Inr (AList.map_entry (fd_node g) (\<lambda>y. y\<lparr>fn_Tainted := fn_Tainted x\<rparr>) fs, snd st @ [(stmt, Some g)])))"

text \<open>
  What happens with the slice of the function \<open>fd\<close> that the slicer found for a task. The
  result is the map, and the tasks to add.
\<close>

definition ip_absorb ::
  "(stmt list \<Rightarrow> stmt \<Rightarrow> func_decl \<Rightarrow> stmt list go) \<Rightarrow> program \<Rightarrow> packages \<Rightarrow> stmt \<Rightarrow> func_decl \<Rightarrow> stmt list \<Rightarrow>
   fnodes \<Rightarrow> (fnodes \<times> ip_task list) go" where
  "ip_absorb pointCollecter p packages root fd stmts fs =
     (let f = fd_node fd
      in rbind (foldR (append_new p f) (fs, False) stmts) (\<lambda>(fs, appended).
         if \<not> appended then Inr (fs, [])
         else
           rbind (fnode fs f) (\<lambda>x.
           let calls = findCalledFunctions p (fn_Slice x)
           in rbind (foldR (join_call p f) fs calls) (\<lambda>fs.
              rbind (foldR (tunnel pointCollecter root f) (fs, []) calls) (\<lambda>(fs, tasks).
              rbind (fnode fs f) (\<lambda>x.
                if fn_Tainted x
                then foldR (taint_caller p packages root f) (fs, tasks) (findCallStmnts p (fd_Obj fd) packages)
                else Inr (fs, tasks)))))))"

text \<open>\<open>Packages[pnum].Sources[snum].Cfgs[fnum]\<close>, read and written back.\<close>

definition get_cfg :: "packages \<Rightarrow> int \<Rightarrow> int \<Rightarrow> int \<Rightarrow> CFG go" where
  "get_cfg packages pnum snum fnum =
     rbind (index_go packages (nat pnum)) (\<lambda>sources.
     rbind (index_go sources (nat snum)) (\<lambda>src. index_go (src_Cfgs src) (nat fnum)))"

definition set_cfg :: "int \<Rightarrow> int \<Rightarrow> int \<Rightarrow> CFG \<Rightarrow> packages \<Rightarrow> packages" where
  "set_cfg pnum snum fnum c packages =
     packages[nat pnum := (packages ! nat pnum)[nat snum :=
       (packages ! nat pnum ! nat snum)\<lparr>src_Cfgs := (src_Cfgs (packages ! nat pnum ! nat snum))[nat fnum := c]\<rparr>]]"

type_synonym ip_state = "ip_task list \<times> fnodes \<times> packages"

definition ip_task_step ::
  "(stmt \<Rightarrow> CFG \<Rightarrow> (CFG \<times> stmt list) go option) \<Rightarrow> (stmt list \<Rightarrow> stmt \<Rightarrow> func_decl \<Rightarrow> stmt list go) \<Rightarrow>
   program \<Rightarrow> stmt \<Rightarrow> ip_state \<Rightarrow> ip_state go option" where
  "ip_task_step slicer pointCollecter p root st =
     (case st of (queue, fs, packages) \<Rightarrow>
       gbind (Some (searchFunction p root packages)) (\<lambda>(pnum, snum, fnum, f).
       case f of
         None \<Rightarrow> Some (Inr (queue, fs, packages))
       | Some fd \<Rightarrow>
           gbind (Some (get_cfg packages pnum snum fnum)) (\<lambda>cf.
           gbind (slicer root cf) (\<lambda>(cf, stmts).
           let packages = set_cfg pnum snum fnum cf packages
           in gbind (Some (ip_absorb pointCollecter p packages root fd stmts fs)) (\<lambda>(fs, tasks).
                Some (Inr (queue @ tasks, fs, packages)))))))"

partial_function (option) ip_loop ::
  "(stmt \<Rightarrow> CFG \<Rightarrow> (CFG \<times> stmt list) go option) \<Rightarrow> (stmt list \<Rightarrow> stmt \<Rightarrow> func_decl \<Rightarrow> stmt list go) \<Rightarrow>
   program \<Rightarrow> ip_state \<Rightarrow> (fnodes \<times> packages) go option" where
  "ip_loop slicer pointCollecter p st =
     (case fst st of
        [] \<Rightarrow> Some (Inr (snd st))
      | task # queue \<Rightarrow>
          gbind (ip_task_step slicer pointCollecter p (fst task) (queue, snd st)) (ip_loop slicer pointCollecter p))"

definition ComputeSliceIP ::
  "stmt \<Rightarrow> program \<Rightarrow> packages \<Rightarrow> (stmt \<Rightarrow> CFG \<Rightarrow> (CFG \<times> stmt list) go option) \<Rightarrow>
   (stmt list \<Rightarrow> stmt \<Rightarrow> func_decl \<Rightarrow> stmt list go) \<Rightarrow> (fnodes \<times> packages) go option" where
  "ComputeSliceIP root p packages slicer pointCollecter =
     gbind (Some (searchFunction p root packages)) (\<lambda>(_, _, _, funcDec).
       case funcDec of
         None \<Rightarrow> Some (Inl NilPointer)
       | Some f \<Rightarrow>
           ip_loop slicer pointCollecter p ([(root, Some f)], [(fd_node f, NewFuncNode f root True)], packages))"

definition GetAffectedVariables ::
  "(node set \<Rightarrow> node list) \<Rightarrow> stmt \<Rightarrow> program \<Rightarrow> packages \<Rightarrow> (stmt \<Rightarrow> CFG \<Rightarrow> (CFG \<times> stmt list) go option) \<Rightarrow>
   (stmt list \<Rightarrow> stmt \<Rightarrow> func_decl \<Rightarrow> stmt list go) \<Rightarrow> (fnodes \<times> packages) go option" where
  "GetAffectedVariables ord root p packages slicer pointCollecter =
     gbind (ComputeSliceIP root p packages slicer pointCollecter) (\<lambda>(nodes, packages).
       Some (Inr (map (\<lambda>(f, x). (f, x\<lparr>fn_NVars := fn_NVars x @ ord (fst (ReferencedVars ord (prog_info p) (fn_Slice x)))\<rparr>)) nodes,
                  packages)))"

text \<open>The slicers of one function as \<open>ComputeSliceIP\<close> calls them, with no slice so far.\<close>

definition slicer_of :: "program \<Rightarrow> (node \<Rightarrow> CFG \<Rightarrow> node list \<Rightarrow> (CFG \<times> node list) go option) \<Rightarrow>
  stmt \<Rightarrow> CFG \<Rightarrow> (CFG \<times> stmt list) go option" where
  "slicer_of p f start cf = gbind (f (addr start) cf []) (\<lambda>(cf, ns). Some (Inr (cf, map (stmt_at p) ns)))"

declare ip_loop.simps [code]

end
