(* ===== verification/Cfg_Props.thy ===== *)
theory Cfg_Props
  imports Cfg
begin

text \<open>
  Properties of the control flow graphs of \<open>src/programslicer/cfg/cfg.go\<close>: the builder keeps
  predecessor and successor lists symmetric and free of duplicates, its blocks are exactly
  the statements of the function, and inversion swaps the edges.
\<close>

section \<open>Well-formed graphs\<close>

definition edge :: "blocks \<Rightarrow> node \<Rightarrow> node \<Rightarrow> bool" where
  "edge m s t = (case map_of m s of None \<Rightarrow> False | Some b \<Rightarrow> t \<in> set (Succs b))"

definition redge :: "blocks \<Rightarrow> node \<Rightarrow> node \<Rightarrow> bool" where
  "redge m s t = (case map_of m t of None \<Rightarrow> False | Some b \<Rightarrow> s \<in> set (Preds b))"

definition keys :: "blocks \<Rightarrow> node set" where
  "keys m = fst ` set m"

definition wf_blocks :: "blocks \<Rightarrow> bool" where
  "wf_blocks m \<longleftrightarrow> gomap_wf m \<and>
     (\<forall>s b. map_of m s = Some b \<longrightarrow> Stmt b = s \<and> distinct (Preds b) \<and> distinct (Succs b)) \<and>
     (\<forall>s t. edge m s t = redge m s t)"

lemma keys_dom: "s \<in> keys m \<longleftrightarrow> (\<exists>b. map_of m s = Some b)"
  by (simp add: keys_def) (metis domD domI dom_map_of_conv_image_fst)

lemma edge_keys: "wf_blocks m \<Longrightarrow> edge m s t \<Longrightarrow> s \<in> keys m \<and> t \<in> keys m"
proof -
  assume wf: "wf_blocks m" and e: "edge m s t"
  have "redge m s t" using wf e by (simp add: wf_blocks_def)
  with e show ?thesis by (auto simp: edge_def redge_def keys_dom split: option.splits)
qed

lemma succ_edge: "map_of m s = Some b \<Longrightarrow> t \<in> set (Succs b) \<longleftrightarrow> edge m s t"
  by (simp add: edge_def)

lemma pred_edge: "wf_blocks m \<Longrightarrow> map_of m s = Some b \<Longrightarrow> t \<in> set (Preds b) \<longleftrightarrow> edge m t s"
  by (simp add: wf_blocks_def redge_def)

lemma wf_Nil [simp]: "wf_blocks []"
  by (simp add: wf_blocks_def edge_def redge_def)

lemma keys_Nil [simp]: "keys [] = {}"
  by (simp add: keys_def)

lemma map_of_Block_at [simp]:
  "map_of (Block_at s m) k = (if k = s \<and> map_of m s = None then Some (new_Block s) else map_of m k)"
  by (auto simp: Block_at_def gomap_simps split: option.split)

lemma map_of_map_entry_iff [simp]:
  "map_of (AList.map_entry k f m) k' = (if k' = k then map_option f (map_of m k) else map_of m k')"
  by (induction m) auto

lemma fst_map_entry [simp]: "map fst (AList.map_entry k f m) = map fst m"
  by (induction m) auto

lemma keys_Block_at [simp]: "keys (Block_at s m) = insert s (keys m)"
  by (auto simp: keys_dom split: if_splits)

lemma gomap_wf_Block_at [simp]: "gomap_wf m \<Longrightarrow> gomap_wf (Block_at s m)"
  by (auto simp: Block_at_def split: option.split)

lemma wf_Block_at [simp]:
  assumes "wf_blocks m" shows "wf_blocks (Block_at s m)"
proof -
  have "edge (Block_at s m) = edge m" "redge (Block_at s m) = redge m"
    by (auto simp: fun_eq_iff edge_def redge_def new_Block_def split: option.split)
  with assms show ?thesis
    by (auto simp: wf_blocks_def new_Block_def)
qed

lemma edge_Block_at [simp]: "edge (Block_at s m) = edge m"
  by (auto simp: fun_eq_iff edge_def new_Block_def split: option.split)

lemma keys_add_edge [simp]: "keys (add_edge p cur m) = insert p (keys m)"
proof -
  have "map fst (add_edge p cur m) = map fst (Block_at p m)"
    by (simp add: add_edge_def Let_def)
  then have "keys (add_edge p cur m) = keys (Block_at p m)"
    by (simp add: keys_def flip: set_map)
  then show ?thesis by simp
qed

lemma edge_add_edge [simp]: "edge (add_edge p cur m) s t \<longleftrightarrow> edge m s t \<or> s = p \<and> t = cur"
  by (auto simp: add_edge_def Let_def edge_def new_Block_def split: option.split if_splits)

lemma redge_add_edge [simp]:
  "cur \<in> keys m \<Longrightarrow> redge (add_edge p cur m) s t \<longleftrightarrow> redge m s t \<or> s = p \<and> t = cur"
  by (auto simp: keys_dom add_edge_def Let_def redge_def new_Block_def split: option.split if_splits)

lemma wf_add_edge:
  assumes "wf_blocks m" "cur \<in> keys m"
  shows "wf_blocks (add_edge p cur m)"
proof -
  have "gomap_wf (add_edge p cur m)"
    using assms(1) gomap_wf_Block_at by (simp add: add_edge_def Let_def gomap_wf_def wf_blocks_def)
  moreover have "Stmt b = s \<and> distinct (Preds b) \<and> distinct (Succs b)" if "map_of (add_edge p cur m) s = Some b" for s b
    using that assms(1)
    by (auto simp: add_edge_def Let_def wf_blocks_def new_Block_def split: if_splits)
  ultimately show ?thesis
    using assms by (simp add: wf_blocks_def)
qed

lemma add_edges:
  assumes "wf_blocks m" "cur \<in> keys m"
  shows "wf_blocks (fold (\<lambda>p. add_edge p cur) ps m) \<and>
    keys (fold (\<lambda>p. add_edge p cur) ps m) = keys m \<union> set ps \<and>
    (\<forall>s t. edge (fold (\<lambda>p. add_edge p cur) ps m) s t \<longleftrightarrow> edge m s t \<or> s \<in> set ps \<and> t = cur)"
  using assms
proof (induction ps arbitrary: m)
  case (Cons p ps)
  have "wf_blocks (add_edge p cur m)" using Cons.prems by (simp add: wf_add_edge)
  with Cons.IH [of "add_edge p cur m"] Cons.prems(2) show ?case by auto
qed simp

definition ok :: "builder \<Rightarrow> bool" where
  "ok b \<longleftrightarrow> wf_blocks (b_Blocks b)"

lemma ok_simps [simp]:
  "ok (b\<lparr>prev := ps\<rparr>) = ok b"
  "ok (b\<lparr>branches := brs\<rparr>) = ok b"
  "ok (b\<lparr>defers := ds\<rparr>) = ok b"
  by (simp_all add: ok_def)

lemma ok_addSucc [simp]: "ok b \<Longrightarrow> ok (addSucc s b)"
  using add_edges [of "Block_at s (b_Blocks b)" s "prev b"] by (simp add: ok_def addSucc_def)

lemma keys_addSucc: "ok b \<Longrightarrow> keys (b_Blocks (addSucc s b)) = insert s (keys (b_Blocks b) \<union> set (prev b))"
  using add_edges [of "Block_at s (b_Blocks b)" s "prev b"] by (simp add: ok_def addSucc_def)

lemma addSucc_simps [simp]:
  "prev (addSucc s b) = prev b"
  "branches (addSucc s b) = branches b"
  "b_entry (addSucc s b) = b_entry b"
  "b_exit (addSucc s b) = b_exit b"
  "defers (addSucc s b) = defers b"
  by (simp_all add: addSucc_def)

lemma ok_loop_branches: "ok b \<Longrightarrow> ok (fst (loop_branches s pst brs b kept exits))"
  by (induction s pst brs b kept exits rule: loop_branches.induct) (auto split: token.split)

lemma ok_buildInit [simp]: "ok b \<Longrightarrow> ok (buildInit i b)"
  by (cases i) auto

lemma ok_clause_comm [simp]: "ok b \<Longrightarrow> ok (clause_comm cl b)"
  by (cases "(cl, b)" rule: clause_comm.cases) auto

lemma ok_buildBranch [simp]: "ok b \<Longrightarrow> ok (buildBranch br b)"
  by (auto simp: buildBranch_def Let_def split: token.split option.split)

lemma ok_build:
  "ok b \<Longrightarrow> ok (buildStmt s b)"
  "ok b \<Longrightarrow> ok (buildBlock ss b)"
  "ok b \<Longrightarrow> ok (buildIf s b)"
  "ok b \<Longrightarrow> ok (buildLoop s b)"
  "ok b \<Longrightarrow> ok (buildSwitch s b)"
  "ok b \<Longrightarrow> ok (fst (buildCases ps ss ft exits dflt b))"
  apply (induction s b and ss b and s b and s b and s b and ps ss ft exits dflt b
      rule: buildStmt_buildBlock_buildIf_buildLoop_buildSwitch_buildCases.induct)
  apply (simp_all add: Let_def split_beta ok_loop_branches split: option.split stmt.split)
  done


section \<open>Blocks and statements correspond\<close>

text \<open>
  The statements of a function that get a block: all but deferred calls and the braces of
  blocks; a \<open>goto\<close> also refers to the statement that declares its label.
\<close>

fun cfg_nodes :: "stmt \<Rightarrow> node set"
  and clause_nodes :: "stmt \<Rightarrow> node set"
  and else_nodes :: "stmt option \<Rightarrow> node set" where
  "cfg_nodes (DeferStmt n e) = {}"
| "cfg_nodes (BlockStmt n ss) = (\<Union>x\<in>set ss. cfg_nodes x)"
| "cfg_nodes (LabeledStmt n l s) = insert n (cfg_nodes s)"
| "cfg_nodes (BranchStmt n tok l) = insert n (if tok = GOTO then label_decl ` set_option l else {})"
| "cfg_nodes (IfStmt n i c th el) =
     insert n (addr ` set_option i \<union> (\<Union>x\<in>set th. cfg_nodes x) \<union> else_nodes el)"
| "cfg_nodes (ForStmt n i c p body) =
     insert n (addr ` set_option i \<union> addr ` set_option p \<union> (\<Union>x\<in>set body. cfg_nodes x))"
| "cfg_nodes (RangeStmt n k v e body) = insert n (\<Union>x\<in>set body. cfg_nodes x)"
| "cfg_nodes (SwitchStmt n i t body) = insert n (addr ` set_option i \<union> (\<Union>x\<in>set body. clause_nodes x))"
| "cfg_nodes (TypeSwitchStmt n i a body) =
     insert n (insert (addr a) (addr ` set_option i \<union> (\<Union>x\<in>set body. clause_nodes x)))"
| "cfg_nodes (SelectStmt n body) = insert n (\<Union>x\<in>set body. clause_nodes x)"
| "cfg_nodes s = {addr s}"
| "clause_nodes (CaseClause n es body) = insert n (\<Union>x\<in>set body. cfg_nodes x)"
| "clause_nodes (CommClause n c body) = insert n (addr ` set_option c \<union> (\<Union>x\<in>set body. cfg_nodes x))"
| "clause_nodes s = {addr s}"
| "else_nodes (Some (BlockStmt m ss)) = (\<Union>x\<in>set ss. cfg_nodes x)"
| "else_nodes (Some (IfStmt n i c th el)) = cfg_nodes (IfStmt n i c th el)"
| "else_nodes _ = {}"


text \<open>
  The invariant of a build: pending statements have blocks (the entry may still be without
  one), nothing flows into the entry and nothing out of the exit.
\<close>

definition known :: "builder \<Rightarrow> node set" where
  "known b = insert (b_entry b) (keys (b_Blocks b)) - {b_exit b}"

definition binv :: "builder \<Rightarrow> bool" where
  "binv b \<longleftrightarrow> ok b \<and> b_entry b \<noteq> b_exit b \<and> set (prev b) \<subseteq> known b \<and> br_node ` set (branches b) \<subseteq> known b \<and>
     (b_entry b \<in> keys (b_Blocks b) \<or> b_entry b \<in> set (prev b)) \<and>
     (\<forall>s t. edge (b_Blocks b) s t \<longrightarrow> s \<noteq> b_exit b \<and> t \<noteq> b_entry b)"

lemma known_simps [simp]:
  "known (b\<lparr>prev := ps\<rparr>) = known b"
  "known (b\<lparr>branches := brs\<rparr>) = known b"
  "known (b\<lparr>defers := ds\<rparr>) = known b"
  by (simp_all add: known_def)

lemma edge_addSucc: "ok b \<Longrightarrow>
  edge (b_Blocks (addSucc c b)) s t \<longleftrightarrow> edge (b_Blocks b) s t \<or> s \<in> set (prev b) \<and> t = c"
  using add_edges [of "Block_at c (b_Blocks b)" c "prev b"] by (simp add: ok_def addSucc_def)

lemma known_addSucc [simp]: "binv b \<Longrightarrow> known (addSucc c b) = known b \<union> ({c} - {b_exit b})"
  by (auto simp: known_def binv_def keys_addSucc)

lemma binv_addSucc [simp]: "binv b \<Longrightarrow> c \<noteq> b_entry b \<Longrightarrow> binv (addSucc c b)"
  using known_addSucc [of b c] by (auto simp: binv_def keys_addSucc edge_addSucc known_def)

lemma entry_addSucc [simp]: "binv b \<Longrightarrow> b_entry b \<in> keys (b_Blocks (addSucc c b))"
  by (auto simp: binv_def keys_addSucc)

lemma entry_mono_addSucc [simp]:
  "binv b \<Longrightarrow> en \<in> keys (b_Blocks b) \<Longrightarrow> en \<in> keys (b_Blocks (addSucc c b))"
  by (auto simp: binv_def keys_addSucc)

lemma binv_prev [simp]:
  "binv b \<Longrightarrow> set ps \<subseteq> known b \<Longrightarrow> b_entry b \<in> keys (b_Blocks b) \<Longrightarrow> binv (b\<lparr>prev := ps\<rparr>)"
  by (auto simp: binv_def)

lemma binv_branches [simp]:
  "binv b \<Longrightarrow> br_node ` set brs \<subseteq> known b \<Longrightarrow> binv (b\<lparr>branches := brs\<rparr>)"
  by (auto simp: binv_def)

lemma binv_defers [simp]: "binv (b\<lparr>defers := ds\<rparr>) = binv b"
  by (auto simp: binv_def known_def)

lemma binv_prevD: "binv b \<Longrightarrow> set (prev b) \<subseteq> known b"
  by (simp add: binv_def)

lemma binv_branchesD: "binv b \<Longrightarrow> br_node ` set (branches b) \<subseteq> known b"
  by (simp add: binv_def)

text \<open>\<open>b'\<close> continues \<open>b\<close> and has blocks for \<open>N\<close> besides.\<close>

definition grow :: "node set \<Rightarrow> builder \<Rightarrow> builder \<Rightarrow> bool" where
  "grow N b b' \<longleftrightarrow> binv b' \<and> b_entry b' = b_entry b \<and> b_exit b' = b_exit b \<and>
     known b' = known b \<union> N \<and> (b_entry b \<in> keys (b_Blocks b) \<longrightarrow> b_entry b \<in> keys (b_Blocks b'))"

abbreviation entered :: "builder \<Rightarrow> bool" where
  "entered b \<equiv> b_entry b \<in> keys (b_Blocks b)"

abbreviation fresh :: "node set \<Rightarrow> builder \<Rightarrow> bool" where
  "fresh N b \<equiv> b_entry b \<notin> N \<and> b_exit b \<notin> N"

lemma grow_refl: "binv b \<Longrightarrow> grow {} b b"
  by (simp add: grow_def)

lemma grow_trans: "grow N b b1 \<Longrightarrow> grow M b1 b2 \<Longrightarrow> N \<union> M = L \<Longrightarrow> grow L b b2"
  by (auto simp: grow_def)

lemma grow_entered: "grow N b b1 \<Longrightarrow> entered b \<Longrightarrow> entered b1"
  by (simp add: grow_def)

lemma growD: "grow N b b1 \<Longrightarrow> binv b1 \<and> (fresh M b1 \<longleftrightarrow> fresh M b) \<and> known b1 = known b \<union> N"
  by (simp add: grow_def)

lemma grow_binv: "grow N b b1 \<Longrightarrow> binv b1"
  by (simp add: grow_def)

lemma grow_known: "grow N b b1 \<Longrightarrow> known b1 = known b \<union> N"
  by (simp add: grow_def)

lemma grow_defers: "binv b \<Longrightarrow> grow {} b (b\<lparr>defers := ds\<rparr>)"
  by (simp add: grow_def)

lemma grow_prev: "binv b \<Longrightarrow> entered b \<Longrightarrow> set ps \<subseteq> known b \<Longrightarrow> grow {} b (b\<lparr>prev := ps\<rparr>)"
  by (simp add: grow_def)

lemma grow_addSucc: "binv b \<Longrightarrow> c \<noteq> b_entry b \<Longrightarrow> grow ({c} - {b_exit b}) b (addSucc c b) \<and> entered (addSucc c b)"
  by (simp add: grow_def)

lemma grow_seq: "binv b \<Longrightarrow> fresh {n} b \<Longrightarrow> grow {n} b ((addSucc n b)\<lparr>prev := [n]\<rparr>) \<and> entered ((addSucc n b)\<lparr>prev := [n]\<rparr>)"
  by (simp add: grow_def)

lemma grow_buildInit: "binv b \<Longrightarrow> fresh (addr ` set_option i) b \<Longrightarrow> grow (addr ` set_option i) b (buildInit i b)"
  by (cases i) (auto simp: grow_def)

lemma grow_init:
  assumes "binv b" "fresh (insert n (addr ` set_option i)) b"
  shows "grow (insert n (addr ` set_option i)) b ((addSucc n (buildInit i b))\<lparr>prev := [n]\<rparr>) \<and>
    entered ((addSucc n (buildInit i b))\<lparr>prev := [n]\<rparr>)"
proof -
  have g: "grow (addr ` set_option i) b (buildInit i b)" using assms by (simp add: grow_buildInit)
  then have "grow {n} (buildInit i b) ((addSucc n (buildInit i b))\<lparr>prev := [n]\<rparr>) \<and>
      entered ((addSucc n (buildInit i b))\<lparr>prev := [n]\<rparr>)"
    using assms(2) growD [OF g, of "{n}"] by (intro grow_seq) auto
  with g show ?thesis by (auto intro: grow_trans)
qed

lemma grow_continue:
  assumes "binv b" "entered b" "pst \<in> known b" "pst \<noteq> b_entry b" "n \<in> known b"
  shows "grow {} b (addSucc pst (b\<lparr>prev := [n]\<rparr>))"
proof -
  have g: "grow {} b (b\<lparr>prev := [n]\<rparr>)" using assms by (simp add: grow_prev)
  have "grow ({pst} - {b_exit b}) (b\<lparr>prev := [n]\<rparr>) (addSucc pst (b\<lparr>prev := [n]\<rparr>))"
    using grow_addSucc [of "b\<lparr>prev := [n]\<rparr>" pst] assms by simp
  with g assms(3) show ?thesis by (auto simp: grow_def)
qed

lemma grow_loop_branches:
  "binv b \<Longrightarrow> entered b \<Longrightarrow> pst \<in> known b \<Longrightarrow> pst \<noteq> b_entry b \<Longrightarrow> br_node ` set brs \<subseteq> known b \<Longrightarrow>
   br_node ` set kept \<subseteq> known b \<Longrightarrow> set exits \<subseteq> known b \<Longrightarrow>
   (case loop_branches s pst brs b kept exits of (b', exits') \<Rightarrow> grow {} b b' \<and> set exits' \<subseteq> known b')"
proof (induction brs arbitrary: b kept exits)
  case Nil
  then show ?case by (simp add: grow_def)
next
  case (Cons br brs)
  have g: "grow {} b (addSucc pst (b\<lparr>prev := [br_node br]\<rparr>))"
    using Cons.prems by (intro grow_continue) auto
  note gD = grow_binv [OF g] grow_known [OF g] grow_entered [OF g \<open>entered b\<close>]
  have c: "case loop_branches s pst brs (addSucc pst (b\<lparr>prev := [br_node br]\<rparr>)) kept exits of (b', exits') \<Rightarrow>
      grow {} b b' \<and> set exits' \<subseteq> known b'"
    using Cons.IH [of "addSucc pst (b\<lparr>prev := [br_node br]\<rparr>)" kept exits] Cons.prems gD
    by (auto split: prod.splits intro: grow_trans [OF g])
  show ?case
    using Cons.IH [of b kept exits] Cons.IH [of b kept "exits @ [br_node br]"]
      Cons.IH [of b "kept @ [br]" exits] Cons.prems c
    by (cases "br_for s br"; cases "Tok br") simp_all
qed

lemma grow_buildBranch:
  "binv b \<Longrightarrow> fresh (cfg_nodes (BranchStmt n tok l)) b \<Longrightarrow>
   grow (cfg_nodes (BranchStmt n tok l)) b (buildBranch \<lparr>br_node = n, Tok = tok, br_Label = l\<rparr> b)"
  by (cases l; cases tok) (auto simp: grow_def buildBranch_def Let_def binv_def known_def keys_addSucc edge_addSucc)

lemma grow_clause:
  assumes "binv b" "entered b" "fresh (clause_nodes cl) b" "set ps \<subseteq> known b" "set_option ft \<subseteq> known b"
  defines "b1 \<equiv> clause_comm cl ((addSucc (addr cl) (b\<lparr>prev := ps\<rparr>))\<lparr>prev := addr cl # (case ft of None \<Rightarrow> [] | Some f \<Rightarrow> [f])\<rparr>)"
  shows "\<exists>N. grow N b b1 \<and> entered b1 \<and> N \<union> (\<Union>x\<in>set (clause_body cl). cfg_nodes x) = clause_nodes cl"
proof -
  let ?b0 = "(addSucc (addr cl) (b\<lparr>prev := ps\<rparr>))\<lparr>prev := addr cl # (case ft of None \<Rightarrow> [] | Some f \<Rightarrow> [f])\<rparr>"
  have ne: "addr cl \<in> clause_nodes cl" by (cases cl) auto
  with assms(3) have fr: "addr cl \<noteq> b_entry b" "addr cl \<noteq> b_exit b" by metis+
  have b0: "grow {addr cl} b ?b0" "entered ?b0"
    using assms(1-5) fr by (auto simp: grow_def split: option.split)
  show ?thesis
  proof (cases "\<exists>n c body. cl = CommClause n (Some c) body")
    case True
    then obtain n c body where cl: "cl = CommClause n (Some c) body" by blast
    have "grow {addr c} ?b0 b1 \<and> entered b1"
      using grow_seq [of ?b0 "addr c"] growD [OF b0(1), of "{addr c}"] assms(3) by (simp add: b1_def cl)
    with b0(1) have "grow {addr cl, addr c} b b1 \<and> entered b1"
      by (auto intro: grow_trans)
    then show ?thesis by (intro exI [of _ "{addr cl, addr c}"]) (simp add: cl)
  next
    case False
    then have "b1 = ?b0" "{addr cl} \<union> (\<Union>x\<in>set (clause_body cl). cfg_nodes x) = clause_nodes cl"
      by (cases "(cl, ?b0)" rule: clause_comm.cases; auto simp: b1_def)+
    with b0 show ?thesis by auto
  qed
qed

lemma grow_switch_exit:
  assumes "grow N b b1" "entered b" "set ps \<subseteq> known b1"
  shows "grow N b (b1\<lparr>branches := filter P (branches b1), prev := ps @ map br_node (filter Q (branches b1))\<rparr>)"
proof -
  have b1: "binv b1" "entered b1" using assms grow_binv grow_entered by blast+
  have "grow {} b1 (b1\<lparr>branches := filter P (branches b1)\<rparr>)"
    using b1 binv_branchesD [OF b1(1)] by (auto simp: grow_def intro!: binv_branches)
  moreover have "grow {} (b1\<lparr>branches := filter P (branches b1)\<rparr>)
      (b1\<lparr>branches := filter P (branches b1), prev := ps @ map br_node (filter Q (branches b1))\<rparr>)"
    using grow_binv [OF calculation] b1 binv_branchesD [OF b1(1)] assms(3)
    by (intro grow_prev) auto
  ultimately show ?thesis
    using grow_trans [OF assms(1) grow_trans [OF _ _ refl]] by simp
qed

abbreviation is_if :: "stmt \<Rightarrow> bool" where
  "is_if s \<equiv> (case s of IfStmt n i c t e \<Rightarrow> True | _ \<Rightarrow> False)"

abbreviation is_loop :: "stmt \<Rightarrow> bool" where
  "is_loop s \<equiv> (case s of ForStmt n i c p e \<Rightarrow> True | RangeStmt n k v e b \<Rightarrow> True | _ \<Rightarrow> False)"

abbreviation is_switch :: "stmt \<Rightarrow> bool" where
  "is_switch s \<equiv> (case s of SwitchStmt n i t c \<Rightarrow> True | TypeSwitchStmt n i a c \<Rightarrow> True
     | SelectStmt n c \<Rightarrow> True | _ \<Rightarrow> False)"

abbreviation block_nodes :: "stmt list \<Rightarrow> node set" where
  "block_nodes ss \<equiv> (\<Union>x\<in>set ss. cfg_nodes x)"

abbreviation cases_nodes :: "stmt list \<Rightarrow> node set" where
  "cases_nodes ss \<equiv> (\<Union>x\<in>set ss. clause_nodes x)"

text \<open>The loop of \<open>buildLoop\<close> after its body was built.\<close>

lemma grow_loop_exit:
  assumes "grow N b b1" "entered b" "n \<in> known b" "pst \<in> known b" "fresh {pst} b"
  shows "grow N b (case loop_branches n pst (branches (addSucc pst b1)) (addSucc pst b1) [] [n] of
           (b2, exits) \<Rightarrow> b2\<lparr>prev := exits\<rparr>)"
proof -
  have b1: "binv b1" "entered b1" "b_entry b1 = b_entry b" "known b1 = known b \<union> N"
    using assms(1,2) by (auto simp: grow_def)
  have "grow ({pst} - {b_exit b1}) b1 (addSucc pst b1)" "entered (addSucc pst b1)"
    using grow_addSucc [of b1 pst] b1 assms(5) by auto
  with assms(1,4) have b2: "grow N b (addSucc pst b1)" "entered (addSucc pst b1)"
    by (auto simp: grow_def)
  obtain b3 exits where lb: "loop_branches n pst (branches (addSucc pst b1)) (addSucc pst b1) [] [n] = (b3, exits)"
    by fastforce
  have "case loop_branches n pst (branches (addSucc pst b1)) (addSucc pst b1) [] [n] of
      (b', exits') \<Rightarrow> grow {} (addSucc pst b1) b' \<and> set exits' \<subseteq> known b'"
    using b2 b1 assms(3-5) binv_branchesD [of "addSucc pst b1"]
    by (intro grow_loop_branches) (auto simp: grow_def)
  then have b3: "grow {} (addSucc pst b1) b3" "set exits \<subseteq> known b3" unfolding lb by simp_all
  then have "grow {} b3 (b3\<lparr>prev := exits\<rparr>)"
    using grow_entered [OF b3(1) b2(2)] by (intro grow_prev) (simp_all add: grow_def)
  then show ?thesis
    using grow_trans [OF grow_trans [OF b2(1) b3(1) refl]] unfolding lb by simp
qed

lemma grow_if:
  assumes g: "grow N b b0" "entered b0" and th: "grow T b0 b1" and n: "n \<in> known b0"
    and b2: "grow E b1 (f (b1\<lparr>prev := [n]\<rparr>))"
  shows "grow (N \<union> T \<union> E) b (let b2 = f (b1\<lparr>prev := [n]\<rparr>) in b2\<lparr>prev := prev b1 @ prev b2\<rparr>)"
proof -
  have b1: "entered b1" "n \<in> known b1" using g th n by (auto simp: grow_def)
  have "set (prev b1) \<subseteq> known b1" "set (prev (f (b1\<lparr>prev := [n]\<rparr>))) \<subseteq> known (f (b1\<lparr>prev := [n]\<rparr>))"
    using grow_binv [OF th] grow_binv [OF b2] by (simp_all add: binv_prevD)
  with b1 grow_binv [OF b2] grow_known [OF b2] grow_entered [OF b2] have "grow {} (f (b1\<lparr>prev := [n]\<rparr>)) ((f (b1\<lparr>prev := [n]\<rparr>))\<lparr>prev := prev b1 @ prev (f (b1\<lparr>prev := [n]\<rparr>))\<rparr>)"
    by (intro grow_prev) auto
  then show ?thesis
    using grow_trans [OF grow_trans [OF grow_trans [OF g(1) th refl] b2 refl]] by (simp add: Let_def)
qed


text \<open>The edge from the post statement of a \<open>for\<close>, which has no block yet, back to the loop.\<close>

lemma grow_post:
  assumes "binv b" "entered b" "n \<in> known b" "fresh {n, m} b"
  shows "grow {m} b ((addSucc n (b\<lparr>prev := [m]\<rparr>))\<lparr>prev := [n]\<rparr>) \<and>
    entered ((addSucc n (b\<lparr>prev := [m]\<rparr>))\<lparr>prev := [n]\<rparr>)"
proof -
  let ?b = "addSucc n (b\<lparr>prev := [m]\<rparr>)"
  have ok: "ok (b\<lparr>prev := [m]\<rparr>)" using assms(1) by (simp add: binv_def)
  note ks = keys_addSucc [OF ok, of n] and es = edge_addSucc [OF ok, of n]
  have kn: "known ?b = known b \<union> {m}" "entered ?b"
    using assms ks by (auto simp: known_def)
  have "binv (?b\<lparr>prev := [n]\<rparr>)"
    using assms ok ks es kn binv_branchesD [OF assms(1)] unfolding binv_def by auto
  with kn show ?thesis by (simp add: grow_def)
qed

lemma grow_for:
  assumes "binv b" "fresh (insert n (addr ` set_option i \<union> addr ` set_option p)) b"
  defines "b1 \<equiv> (case p of None \<Rightarrow> addSucc n (buildInit i b)
      | Some s \<Rightarrow> addSucc n ((addSucc n (buildInit i b))\<lparr>prev := [addr s]\<rparr>))\<lparr>prev := [n]\<rparr>"
  shows "grow (insert n (addr ` set_option i \<union> addr ` set_option p)) b b1 \<and> entered b1"
proof (cases p)
  case None
  then show ?thesis using assms grow_init [of b n i] by (simp add: b1_def)
next
  case (Some s)
  let ?b0 = "(addSucc n (buildInit i b))\<lparr>prev := [n]\<rparr>"
  have g: "grow (insert n (addr ` set_option i)) b ?b0" "entered ?b0"
    using assms(1,2) grow_init [of b n i] by auto
  have "grow {addr s} ?b0 b1 \<and> entered b1"
    using grow_post [OF grow_binv [OF g(1)] g(2), of n "addr s"] grow_known [OF g(1)] growD [OF g(1), of "{n, addr s}"] assms(2)
    by (simp add: b1_def Some)
  with grow_trans [OF g(1) _ refl, of "{addr s}" b1] show ?thesis by (simp add: Some insert_commute)
qed

lemma grow_switch:
  assumes "grow N b b1" "entered b1"
    and "grow M b1 (fst r) \<and> set (fst (snd r)) \<subseteq> known (fst r)" "set ps \<subseteq> known b1"
  shows "grow (N \<union> M) b ((fst r)\<lparr>branches := filter (\<lambda>br. \<not> switch_for n br) (branches (fst r)),
     prev := (if snd (snd r) then fst (snd r) else fst (snd r) @ ps) @
             map br_node (filter (switch_for n) (branches (fst r)))\<rparr>)"
proof -
  have "set (if snd (snd r) then fst (snd r) else fst (snd r) @ ps) \<subseteq> known (fst r)"
    using assms(3,4) grow_known [of M b1 "fst r"] by auto
  from grow_switch_exit [OF assms(3) [THEN conjunct1] assms(2) this] show ?thesis
    by (rule grow_trans [OF assms(1) _ refl])
qed

lemma fallThrough_stmt_node: "set_option (fallThrough_stmt s) \<subseteq> cfg_nodes s"
  by (induction s rule: fallThrough_stmt.induct) auto

lemma fallThrough_nodes: "set_option (fallThrough ss) \<subseteq> block_nodes ss"
proof (cases "ss = []")
  case False
  then have "last ss \<in> set ss" by simp
  then have "cfg_nodes (last ss) \<subseteq> block_nodes ss" by blast
  with fallThrough_stmt_node [of "last ss"] show ?thesis
    using False by (auto simp: fallThrough_def)
qed (simp add: fallThrough_def)

lemma grow_return:
  assumes "binv b" "fresh {n} b"
  shows "grow {n} b ((addSucc (b_exit b) ((addSucc n b)\<lparr>prev := [n]\<rparr>))\<lparr>prev := []\<rparr>)"
proof -
  let ?b = "(addSucc n b)\<lparr>prev := [n]\<rparr>"
  have g: "grow {n} b ?b" "entered ?b" using grow_seq assms by auto
  have ne: "b_exit b \<noteq> b_entry b" using assms(1) by (simp add: binv_def)
  have "grow ({b_exit b} - {b_exit ?b}) ?b (addSucc (b_exit b) ?b) \<and> entered (addSucc (b_exit b) ?b)"
    using grow_addSucc [OF grow_binv [OF g(1)], of "b_exit b"] ne by simp
  then have h: "grow {} ?b (addSucc (b_exit b) ?b)" "entered (addSucc (b_exit b) ?b)" by simp_all
  have "grow {} (addSucc (b_exit b) ?b) ((addSucc (b_exit b) ?b)\<lparr>prev := []\<rparr>)"
    using grow_prev [OF grow_binv [OF h(1)] h(2)] by simp
  with grow_trans [OF grow_trans [OF g(1) h(1) refl]] show ?thesis by simp
qed

lemma grow_build:
  "binv b \<Longrightarrow> fresh (cfg_nodes s) b \<Longrightarrow> grow (cfg_nodes s) b (buildStmt s b)"
  "binv b \<Longrightarrow> fresh (block_nodes ss) b \<Longrightarrow> grow (block_nodes ss) b (buildBlock ss b)"
  "binv b \<Longrightarrow> fresh (cfg_nodes s) b \<Longrightarrow> is_if s \<Longrightarrow> grow (cfg_nodes s) b (buildIf s b)"
  "binv b \<Longrightarrow> fresh (cfg_nodes s) b \<Longrightarrow> is_loop s \<Longrightarrow> grow (cfg_nodes s) b (buildLoop s b)"
  "binv b \<Longrightarrow> fresh (cfg_nodes s) b \<Longrightarrow> is_switch s \<Longrightarrow> grow (cfg_nodes s) b (buildSwitch s b)"
  "binv b \<Longrightarrow> entered b \<Longrightarrow> fresh (cases_nodes ss) b \<Longrightarrow> set ps \<subseteq> known b \<Longrightarrow> set_option ft \<subseteq> known b \<Longrightarrow>
     set exits \<subseteq> known b \<Longrightarrow>
     grow (cases_nodes ss) b (fst (buildCases ps ss ft exits dflt b)) \<and>
     set (fst (snd (buildCases ps ss ft exits dflt b))) \<subseteq> known (fst (buildCases ps ss ft exits dflt b))"
proof (induction s b and ss b and s b and s b and s b and ps ss ft exits dflt b
      rule: buildStmt_buildBlock_buildIf_buildLoop_buildSwitch_buildCases.induct)
  case (9 n tok l b)
  then show ?case using grow_buildBranch by simp
next
  case (10 n l s b)
  let ?b = "(addSucc n b)\<lparr>prev := [n]\<rparr>"
  have g: "grow {n} b ?b" using 10 by (simp add: grow_seq)
  with 10 have "grow (cfg_nodes s) ?b (buildStmt s ?b)" by simp
  with g show ?case using grow_trans by fastforce
next
  case (14 s ss b)
  have g: "grow (cfg_nodes s) b (buildStmt s b)" using 14 by simp
  have "grow (block_nodes ss) (buildStmt s b) (buildBlock ss (buildStmt s b))"
    using 14 grow_binv [OF g] growD [OF g, of "block_nodes ss"] by simp
  with g show ?case using grow_trans by fastforce
next
  case (15 n i c th el b)
  let ?b0 = "(addSucc n (buildInit i b))\<lparr>prev := [n]\<rparr>"
  let ?b1 = "buildBlock th ?b0"
  let ?N = "insert n (addr ` set_option i)"
  have g0: "grow ?N b ?b0" "entered ?b0" using 15 grow_init [of b n i] by auto
  have g1: "grow (block_nodes th) ?b0 ?b1"
    using 15(1) [OF refl] "15.prems"(2) growD [OF g0(1), of "block_nodes th"] by auto
  have n0: "n \<in> known ?b0" and n1: "n \<in> known ?b1" and e1: "entered ?b1"
    using grow_known [OF g0(1)] grow_known [OF g1] grow_entered [OF g1 g0(2)] by auto
  have gp: "grow {} ?b1 (?b1\<lparr>prev := [n]\<rparr>)"
    using n1 e1 grow_binv [OF g1] by (intro grow_prev) auto
  have g01: "grow (?N \<union> block_nodes th) b ?b1" using grow_trans [OF g0(1) g1 refl] .
  have ps: "set (prev ?b1) \<subseteq> known ?b1" using grow_binv [OF g1] by (rule binv_prevD)
  have other: "grow (?N \<union> block_nodes th) b (?b1\<lparr>prev := qs\<rparr>)" if "set qs \<subseteq> known ?b1" for qs
    using grow_trans [OF g01 grow_prev [OF grow_binv [OF g1] e1 that]] by simp
  consider (blk) m ss where "el = Some (BlockStmt m ss)"
    | (elif) m i' c' th' el' where "el = Some (IfStmt m i' c' th' el')"
    | (none) "el = None" | (oth) "\<forall>m ss. el \<noteq> Some (BlockStmt m ss)" "\<forall>m i' c' th' el'. el \<noteq> Some (IfStmt m i' c' th' el')" "el \<noteq> None"
    by metis
  then show ?case
  proof cases
    case blk
    have fr: "fresh (block_nodes ss) (?b1\<lparr>prev := [n]\<rparr>)"
      using "15.prems"(2) growD [OF g01, of "block_nodes ss"] by (simp add: blk)
    have "grow (block_nodes ss) (?b1\<lparr>prev := [n]\<rparr>) (buildBlock ss (?b1\<lparr>prev := [n]\<rparr>))"
      using 15(2) [OF refl refl refl blk refl] fr grow_binv [OF gp] by auto
    then have "grow (block_nodes ss) ?b1 (buildBlock ss (?b1\<lparr>prev := [n]\<rparr>))"
      using grow_trans [OF gp] by simp
    from grow_if [where f = "buildBlock ss", OF g0 g1 n0 this] show ?thesis
      by (simp add: blk Let_def Un_assoc)
  next
    case elif
    let ?s = "IfStmt m i' c' th' el'"
    have fr: "fresh (cfg_nodes ?s) (?b1\<lparr>prev := [n]\<rparr>)"
      using "15.prems"(2) growD [OF g01, of "cfg_nodes ?s"] by (simp add: elif)
    have gs: "grow {m} (?b1\<lparr>prev := [n]\<rparr>) (addSucc m (?b1\<lparr>prev := [n]\<rparr>))"
      using grow_addSucc [OF grow_binv [OF gp], of m] fr by auto
    have "grow (cfg_nodes ?s) (addSucc m (?b1\<lparr>prev := [n]\<rparr>)) (buildIf ?s (addSucc m (?b1\<lparr>prev := [n]\<rparr>)))"
      using 15(3) [OF refl refl refl elif refl] fr grow_binv [OF gs] growD [OF gs, of "cfg_nodes ?s"]
      by (auto simp del: buildIf.simps)
    then have "grow (cfg_nodes ?s) ?b1 (buildIf ?s (addSucc m (?b1\<lparr>prev := [n]\<rparr>)))"
      using grow_trans [OF grow_trans [OF gp gs refl]] by simp
    from grow_if [where f = "\<lambda>b. buildIf ?s (addSucc m b)", OF g0 g1 n0 this]
    have "grow (?N \<union> block_nodes th \<union> cfg_nodes ?s) b (buildIf (IfStmt n i c th el) b)"
      by (subst buildIf.simps(1)) (simp add: elif Let_def del: buildIf.simps cfg_nodes.simps)
    then show ?thesis by (simp add: elif Un_assoc insert_commute del: buildIf.simps)
  next
    case none
    then show ?thesis using other [of "prev ?b1 @ [n]"] ps n1 by (simp add: Let_def Un_assoc)
  next
    case oth
    then show ?thesis using other [of "prev ?b1"] ps
      by (auto simp: Let_def split: option.splits stmt.splits)
  qed
next
  case (17 n i c p body b)
  let ?b0 = "addSucc n (buildInit i b)"
  let ?b1 = "(case p of None \<Rightarrow> ?b0 | Some s \<Rightarrow> addSucc n (?b0\<lparr>prev := [addr s]\<rparr>))\<lparr>prev := [n]\<rparr>"
  let ?pst = "case p of None \<Rightarrow> n | Some s \<Rightarrow> addr s"
  let ?N = "insert n (addr ` set_option i \<union> addr ` set_option p)"
  have g1: "grow ?N b ?b1" "entered ?b1" using "17.prems"(1,2) grow_for [of b n i p] by auto
  have "grow (block_nodes body) ?b1 (buildBlock body ?b1)"
    using 17(1) [OF refl refl refl] "17.prems"(2) growD [OF g1(1), of "block_nodes body"] by auto
  then have "grow (block_nodes body) ?b1 (case loop_branches n ?pst (branches (addSucc ?pst (buildBlock body ?b1)))
        (addSucc ?pst (buildBlock body ?b1)) [] [n] of (b2, exits) \<Rightarrow> b2\<lparr>prev := exits\<rparr>)"
    using g1(2) grow_known [OF g1(1)] growD [OF g1(1), of "{?pst}"] "17.prems"(2)
    by (intro grow_loop_exit) (auto split: option.splits)
  from grow_trans [OF g1(1) this refl] show ?case by (simp add: Let_def split_beta Un_assoc)
next
  case (18 n k v x body b)
  let ?b1 = "(addSucc n b)\<lparr>prev := [n]\<rparr>"
  have g1: "grow {n} b ?b1" "entered ?b1" using 18 grow_seq [of b n] by auto
  have "grow (block_nodes body) ?b1 (buildBlock body ?b1)"
    using 18(1) [OF refl] "18.prems"(2) growD [OF g1(1), of "block_nodes body"] by auto
  then have "grow (block_nodes body) ?b1 (case loop_branches n n (branches (addSucc n (buildBlock body ?b1)))
        (addSucc n (buildBlock body ?b1)) [] [n] of (b2, exits) \<Rightarrow> b2\<lparr>prev := exits\<rparr>)"
    using g1(2) grow_known [OF g1(1)] growD [OF g1(1), of "{n}"] "18.prems"(2)
    by (intro grow_loop_exit) auto
  from grow_trans [OF g1(1) this refl] show ?case by (simp add: Let_def split_beta)
next
  case (20 n i t body b)
  let ?b1 = "(addSucc n (buildInit i b))\<lparr>prev := [n]\<rparr>"
  have g1: "grow (insert n (addr ` set_option i)) b ?b1" "entered ?b1" using 20 grow_init [of b n i] by auto
  have "grow (cases_nodes body) ?b1 (fst (buildCases [n] body None [] False ?b1)) \<and>
     set (fst (snd (buildCases [n] body None [] False ?b1))) \<subseteq> known (fst (buildCases [n] body None [] False ?b1))"
    using 20(1) [OF refl] "20.prems"(2) g1(2) grow_binv [OF g1(1)] grow_known [OF g1(1)]
      growD [OF g1(1), of "cases_nodes body"] by auto
  from grow_switch [OF g1 this, of "[n]" n] show ?case
    using grow_known [OF g1(1)] by (simp add: Let_def split_beta Un_assoc)
next
  case (21 n i a body b)
  let ?b0 = "(addSucc n (buildInit i b))\<lparr>prev := [n]\<rparr>"
  let ?b1 = "(addSucc (addr a) ?b0)\<lparr>prev := [addr a]\<rparr>"
  have g0: "grow (insert n (addr ` set_option i)) b ?b0" using 21 grow_init [of b n i] by auto
  have g1: "grow (insert n (addr ` set_option i) \<union> {addr a}) b ?b1" "entered ?b1"
    using grow_seq [of ?b0 "addr a"] growD [OF g0, of "{addr a}"] "21.prems"(2) grow_trans [OF g0 _ refl, of "{addr a}"]
    by auto
  have "grow (cases_nodes body) ?b1 (fst (buildCases [addr a] body None [] False ?b1)) \<and>
     set (fst (snd (buildCases [addr a] body None [] False ?b1))) \<subseteq> known (fst (buildCases [addr a] body None [] False ?b1))"
    using 21(1) [OF refl refl] "21.prems"(2) g1(2) grow_binv [OF g1(1)] grow_known [OF g1(1)]
      growD [OF g1(1), of "cases_nodes body"] by auto
  from grow_switch [OF g1 this, of "[addr a]" n] show ?case
    using grow_known [OF g1(1)] by (simp add: Let_def split_beta Un_assoc insert_commute)
next
  case (22 n body b)
  let ?b1 = "(addSucc n b)\<lparr>prev := [n]\<rparr>"
  have g1: "grow {n} b ?b1" "entered ?b1" using 22 grow_seq [of b n] by auto
  have "grow (cases_nodes body) ?b1 (fst (buildCases [n] body None [] False ?b1)) \<and>
     set (fst (snd (buildCases [n] body None [] False ?b1))) \<subseteq> known (fst (buildCases [n] body None [] False ?b1))"
    using 22(1) [OF refl] "22.prems"(2) g1(2) grow_binv [OF g1(1)] grow_known [OF g1(1)]
      growD [OF g1(1), of "cases_nodes body"] by auto
  from grow_switch [OF g1 this, of "[n]" n] show ?case
    using grow_known [OF g1(1)] by (simp add: Let_def split_beta)
next
  case (25 ps cl cls ft exits dflt b)
  let ?b1 = "clause_comm cl ((addSucc (addr cl) (b\<lparr>prev := ps\<rparr>))\<lparr>prev := addr cl # (case ft of None \<Rightarrow> [] | Some f \<Rightarrow> [f])\<rparr>)"
  let ?b2 = "buildBlock (clause_body cl) ?b1"
  let ?ft = "fallThrough (clause_body cl)"
  let ?exits = "if ?ft = None then exits @ prev ?b2 else exits"
  obtain N where g1: "grow N b ?b1" "entered ?b1" and N: "N \<union> block_nodes (clause_body cl) = clause_nodes cl"
    using grow_clause [of b cl ps ft] "25.prems" by auto
  have fr: "fresh (clause_nodes cl) b" "fresh (cases_nodes cls) b" using "25.prems"(3) by auto
  have g2: "grow (block_nodes (clause_body cl)) ?b1 ?b2"
    using 25(1) [OF refl refl refl] grow_binv [OF g1(1)] growD [OF g1(1), of "block_nodes (clause_body cl)"] fr(1) N by auto
  have g: "grow (clause_nodes cl) b ?b2" using grow_trans [OF g1(1) g2 N] .
  have ft: "set_option ?ft \<subseteq> known ?b2"
    using fallThrough_nodes [of "clause_body cl"] grow_known [OF g2] by auto
  have ex: "set ?exits \<subseteq> known ?b2"
    using "25.prems"(6) grow_known [OF g] binv_prevD [OF grow_binv [OF g]] by auto
  have "grow (cases_nodes cls) ?b2 (fst (buildCases ps cls ?ft ?exits (dflt \<or> clause_default cl) ?b2)) \<and>
      set (fst (snd (buildCases ps cls ?ft ?exits (dflt \<or> clause_default cl) ?b2)))
        \<subseteq> known (fst (buildCases ps cls ?ft ?exits (dflt \<or> clause_default cl) ?b2))"
    using "25.prems"(2,4) fr(2) grow_binv [OF g] grow_entered [OF g] growD [OF g, of "cases_nodes cls"] grow_known [OF g] ft ex
    by (intro 25(2) [OF refl refl refl refl refl]) auto
  with grow_trans [OF g _ refl, of "cases_nodes cls"] show ?case by (simp add: Let_def)
qed (simp_all add: grow_seq grow_refl grow_return grow_defers)


section \<open>The graph of a function\<close>

lemma newBuilder_simps [simp]:
  "b_entry (newBuilder en ex) = en" "b_exit (newBuilder en ex) = ex"
  "b_Blocks (newBuilder en ex) = []" "branches (newBuilder en ex) = []"
  by (simp_all add: newBuilder_def)

lemma keys_known:
  "b_entry b \<in> keys (b_Blocks b) \<Longrightarrow> b_exit b \<in> keys (b_Blocks b) \<Longrightarrow>
   keys (b_Blocks b) = insert (b_exit b) (known b)"
  by (auto simp: known_def)

lemma FromStmts_graph:
  assumes "en \<noteq> ex" "en \<notin> block_nodes ss" "ex \<notin> block_nodes ss"
  shows "wf_blocks (Blocks (FromStmts en ex ss))"
    "keys (Blocks (FromStmts en ex ss)) = {en, ex} \<union> block_nodes ss"
    "edge (Blocks (FromStmts en ex ss)) s t \<Longrightarrow> s \<noteq> ex \<and> t \<noteq> en"
proof -
  let ?b0 = "(newBuilder en ex)\<lparr>prev := [en]\<rparr>"
  let ?b1 = "buildBlock ss ?b0"
  have b0: "binv ?b0" "known ?b0 = {en}"
    using assms(1) by (auto simp: binv_def ok_def known_def edge_def)
  have g: "grow (block_nodes ss) ?b0 ?b1"
    using b0 assms by (intro grow_build(2)) auto
  have ee: "b_entry ?b1 = en" "b_exit ?b1 = ex" using g by (auto simp: grow_def)
  have inv: "binv (addSucc ex ?b1)" using grow_binv [OF g] ee assms(1) by simp
  have en: "en \<in> keys (b_Blocks (addSucc ex ?b1))" using entry_addSucc [OF grow_binv [OF g], of ex] ee by simp
  have ex: "ex \<in> keys (b_Blocks (addSucc ex ?b1))"
    using keys_addSucc [of ?b1 ex] grow_binv [OF g] by (simp add: binv_def)
  have kn: "known (addSucc ex ?b1) = {en} \<union> block_nodes ss"
    using known_addSucc [OF grow_binv [OF g], of ex] grow_known [OF g] b0 ee by simp
  have blocks: "Blocks (FromStmts en ex ss) = b_Blocks (addSucc ex ?b1)"
    unfolding FromStmts_def build_def Let_def by (simp add: ee)
  show "wf_blocks (Blocks (FromStmts en ex ss))"
    using inv by (simp add: blocks binv_def ok_def)
  show "keys (Blocks (FromStmts en ex ss)) = {en, ex} \<union> block_nodes ss"
    unfolding blocks using keys_known [of "addSucc ex ?b1"] kn en ex ee by (simp add: insert_commute)
  show "s \<noteq> ex \<and> t \<noteq> en" if "edge (Blocks (FromStmts en ex ss)) s t"
    using that inv ee unfolding blocks binv_def by simp
qed

text \<open>
  C16: The control flow graph of a function. Whatever the nesting of its statements, the
  blocks built by \<open>FromStmts\<close> are exactly the entry, the exit and the statements of the
  function (deferred calls and braces apart), one block each; predecessor and successor
  lists are mutually inverse and free of duplicates; nothing flows into the entry and
  nothing out of the exit. The two sentinels are fresh allocations.
\<close>

theorem FromStmts_correct:
  assumes "en \<noteq> ex" "en \<notin> block_nodes ss" "ex \<notin> block_nodes ss"
  shows "wf_blocks (Blocks (FromStmts en ex ss)) \<and>
    keys (Blocks (FromStmts en ex ss)) = {en, ex} \<union> block_nodes ss \<and>
    (\<forall>s. \<not> edge (Blocks (FromStmts en ex ss)) s en \<and> \<not> edge (Blocks (FromStmts en ex ss)) ex s)"
  using FromStmts_graph [OF assms] by auto

text \<open>\<open>for i := 0; c; i++ { if c { break }; x = 1 }; return\<close>\<close>

definition loop_prog :: "stmt list" where
  "loop_prog =
     [ForStmt 2 (Some (AssignStmt 3 [Ident 30] DEFINE [])) (Some (Ident 31)) (Some (IncDecStmt 4 (Ident 32)))
        [IfStmt 5 None (Ident 33) [BranchStmt 6 BREAK None] None,
         AssignStmt 7 [Ident 34] ASSIGN [OtherExpr 35 []]],
      ReturnStmt 8 []]"

theorem FromStmts_correct_witness:
  "wf_blocks (Blocks (FromStmts 0 1 loop_prog)) \<and>
   keys (Blocks (FromStmts 0 1 loop_prog)) = {0, 1} \<union> {2, 3, 4, 5, 6, 7, 8} \<and>
   (\<forall>s. \<not> edge (Blocks (FromStmts 0 1 loop_prog)) s 0 \<and> \<not> edge (Blocks (FromStmts 0 1 loop_prog)) 1 s)"
proof -
  have "block_nodes loop_prog = {2, 3, 4, 5, 6, 7, 8}" by (auto simp: loop_prog_def)
  then show ?thesis using FromStmts_correct [of 0 1 loop_prog] by simp
qed


section \<open>Numbering and inversion\<close>

lemma position_set: "position bs s = None \<longleftrightarrow> s \<notin> set bs"
  by (induction bs) auto

lemma position_nth: "position bs s = Some i \<Longrightarrow> i < length bs \<and> bs ! i = s"
  by (induction bs arbitrary: i) (auto split: if_splits)

lemma map_of_number_aux:
  "distinct bs \<Longrightarrow>
   map_of (fold (\<lambda>(i, s). AList.map_entry s (\<lambda>b. b\<lparr>Index := int i\<rparr>)) (enumerate k bs) m) s =
   map_option (\<lambda>b. case position bs s of None \<Rightarrow> b | Some i \<Rightarrow> b\<lparr>Index := int (k + i)\<rparr>) (map_of m s)"
proof (induction bs arbitrary: k m)
  case Nil
  then show ?case by (simp add: option.map_ident)
next
  case (Cons x xs)
  then have "position xs x = None" by (simp add: position_set)
  with Cons show ?case
    by (cases "position xs s"; cases "map_of m s") auto
qed

lemma fst_number_aux:
  "map fst (fold (\<lambda>(i, s). AList.map_entry s (\<lambda>b. b\<lparr>Index := int i\<rparr>)) xs m) = map fst m"
  by (induction xs arbitrary: m) auto

lemma fst_number_blocks [simp]: "map fst (number_blocks bs m) = map fst m"
  by (simp add: number_blocks_def fst_number_aux)

lemma mset_swap_front: "i < length xs \<Longrightarrow> mset ((xs[0 := xs ! i])[i := xs ! 0]) = mset xs"
  using mset_swap [of 0 xs i] by (cases xs; cases i) auto

lemma entry_first:
  assumes "distinct bs" "en \<in> set bs"
  shows "distinct (entry_first bs en)" "set (entry_first bs en) = set bs" "entry_first bs en ! 0 = en"
proof -
  obtain i where i: "position bs en = Some i" using assms(2) position_set [of bs en] by (cases "position bs en") auto
  then have n: "i < length bs" "bs ! i = en" using position_nth by blast+
  then have "0 < length bs" by linarith
  have eq: "entry_first bs en = (bs[0 := bs ! i])[i := bs ! 0]" by (simp add: entry_first_def i)
  then have "mset (entry_first bs en) = mset bs" using mset_swap_front [OF n(1)] by simp
  then show "distinct (entry_first bs en)" "set (entry_first bs en) = set bs"
    using assms(1) mset_eq_imp_distinct_iff mset_eq_setD by blast+
  show "entry_first bs en ! 0 = en"
    unfolding eq using n \<open>0 < length bs\<close> by (cases "i = 0") (auto simp: nth_list_update)
qed

text \<open>Changes that keep the key and the two edge lists of every block keep the graph.\<close>

lemma wf_blocks_cong:
  assumes wf: "wf_blocks m" and fst: "map fst m' = map fst m"
    and same: "\<And>s. map_of m' s = map_option (f s) (map_of m s)"
    and f: "\<And>s b. Stmt (f s b) = Stmt b \<and> Preds (f s b) = Preds b \<and> Succs (f s b) = Succs b"
  shows "wf_blocks m' \<and> keys m' = keys m \<and> edge m' = edge m"
proof -
  have e: "edge m' = edge m" "redge m' = redge m"
    using f by (auto simp: fun_eq_iff edge_def redge_def same split: option.split)
  have "keys m' = keys m" using fst by (simp add: keys_def flip: set_map)
  moreover have "gomap_wf m'" using wf fst by (simp add: wf_blocks_def gomap_wf_def)
  ultimately show ?thesis
    using wf f e by (auto simp: wf_blocks_def same)
qed

lemma map_of_values: "map_of (map (\<lambda>(k, v). (k, f v)) m) s = map_option f (map_of m s)"
  by (induction m) auto

lemma map_of_inv_aux:
  "gomap_wf m \<Longrightarrow> (\<And>s b. (s, b) \<in> set m \<Longrightarrow> Stmt b = s) \<Longrightarrow>
   map_of (fold (\<lambda>(s, b) m. gomap_set (Stmt b) (inv_block b) m) m acc) s =
   (case map_of m s of None \<Rightarrow> map_of acc s | Some b \<Rightarrow> Some (inv_block b))"
proof (induction m arbitrary: acc)
  case (Cons x m)
  obtain k b where x: "x = (k, b)" by fastforce
  have k: "Stmt b = k" using Cons.prems(2) x by simp
  have wf: "gomap_wf m" and nk: "map_of m k = None"
    using Cons.prems(1) by (auto simp: gomap_wf_def x map_of_eq_None_iff)
  from Cons.IH [OF wf, of "gomap_set k (inv_block b) acc"] Cons.prems(2) nk show ?case
    by (simp add: x k gomap_simps split: option.split)
qed simp

lemma gomap_wf_inv_aux: "gomap_wf acc \<Longrightarrow> gomap_wf (fold (\<lambda>(s, b) m. gomap_set (Stmt b) (inv_block b) m) m acc)"
  by (induction m arbitrary: acc) auto

lemma inverted_blocks:
  assumes wf: "wf_blocks m"
  defines "m' \<equiv> fold (\<lambda>(s, b) m. gomap_set (Stmt b) (inv_block b) m) m []"
  shows "wf_blocks m' \<and> keys m' = keys m \<and> (\<forall>s t. edge m' s t = edge m t s) \<and>
    (\<forall>s. map_of m' s = map_option inv_block (map_of m s))"
proof -
  have gw: "gomap_wf m" using wf by (simp add: wf_blocks_def)
  have st: "Stmt b = s" if "(s, b) \<in> set m" for s b
    using that wf gomap_wf_in_iff [OF gw] by (simp add: wf_blocks_def)
  have mo: "map_of m' s = map_option inv_block (map_of m s)" for s
    using map_of_inv_aux [OF gw st, of "[]" s] by (auto simp: m'_def split: option.split)
  have "edge m' s t = redge m t s" "redge m' s t = edge m t s" for s t
    by (auto simp: edge_def redge_def mo inv_block_def new_Block_def split: option.split)
  moreover have "gomap_wf m'" by (simp add: m'_def gomap_wf_inv_aux)
  moreover have "keys m' = keys m" by (auto simp: keys_dom mo)
  ultimately show ?thesis
    using wf mo by (auto simp: wf_blocks_def inv_block_def new_Block_def)
qed

lemma block_ptr_key: "s \<in> keys m \<Longrightarrow> block_ptr m s = Some s"
  by (auto simp: block_ptr_def keys_dom)

text \<open>\<open>InitializeBlocks\<close> on a graph whose block pointers are not yet set.\<close>

lemma InitializeBlocks_graph:
  assumes wf: "wf_blocks (Blocks c)" and ord: "range_order ord" and en: "Entry c \<in> keys (Blocks c)"
    and fresh: "\<And>s b. map_of (Blocks c) s = Some b \<Longrightarrow> PredBs b = [] \<and> SuccBs b = []"
  defines "c' \<equiv> InitializeBlocks ord c"
  shows "wf_blocks (Blocks c') \<and> keys (Blocks c') = keys (Blocks c) \<and> edge (Blocks c') = edge (Blocks c) \<and>
    distinct (BlockSlice c') \<and> set (BlockSlice c') = keys (Blocks c) \<and> BlockSlice c' ! 0 = Entry c \<and>
    (\<forall>s b. map_of (Blocks c') s = Some b \<longrightarrow>
       PredBs b = map Some (Preds b) \<and> SuccBs b = map Some (Succs b) \<and>
       (\<exists>i < length (BlockSlice c'). Index b = int i \<and> BlockSlice c' ! i = s))"
proof -
  define m where "m = map (\<lambda>(s, b). (s, b\<lparr>PredBs := PredBs b @ map (block_ptr (Blocks c)) (Preds b),
                                SuccBs := SuccBs b @ map (block_ptr (Blocks c)) (Succs b)\<rparr>)) (Blocks c)"
  define bs where "bs = entry_first (ord (set (map fst m))) (Entry c)"
  have c': "Blocks c' = number_blocks bs m" "BlockSlice c' = bs"
    unfolding c'_def InitializeBlocks_def bs_def Let_def m_def [symmetric] by simp_all
  have fst: "map fst m = map fst (Blocks c)" by (induction "Blocks c") (auto simp: m_def)
  have mo: "map_of m s = map_option (\<lambda>b. b\<lparr>PredBs := PredBs b @ map (block_ptr (Blocks c)) (Preds b),
      SuccBs := SuccBs b @ map (block_ptr (Blocks c)) (Succs b)\<rparr>) (map_of (Blocks c) s)" for s
    by (simp add: m_def map_of_values)
  have w1: "wf_blocks m \<and> keys m = keys (Blocks c) \<and> edge m = edge (Blocks c)"
    using wf fst mo by (rule wf_blocks_cong) simp
  have "set (ord (keys (Blocks c))) = keys (Blocks c)" "distinct (ord (keys (Blocks c)))"
    using ord by (auto simp: range_order_def keys_def)
  then have bs: "distinct bs" "set bs = keys (Blocks c)" "bs ! 0 = Entry c"
    using entry_first en fst by (simp_all add: bs_def keys_def)
  have mn: "map_of (number_blocks bs m) s = map_option (\<lambda>b. case position bs s of None \<Rightarrow> b | Some i \<Rightarrow> b\<lparr>Index := int i\<rparr>) (map_of m s)" for s
    using map_of_number_aux [OF bs(1), of 0 m s, unfolded add_0] by (simp add: number_blocks_def)
  have w2: "wf_blocks (number_blocks bs m) \<and> keys (number_blocks bs m) = keys m \<and> edge (number_blocks bs m) = edge m"
    using w1 [THEN conjunct1] fst_number_blocks mn by (rule wf_blocks_cong) (simp split: option.split)
  have tgt: "t \<in> keys (Blocks c)" if "map_of (Blocks c) s = Some b" "t \<in> set (Preds b) \<union> set (Succs b)" for s b t
    using that edge_keys [OF wf] pred_edge [OF wf that(1)] succ_edge [OF that(1)] by blast
  have "PredBs b = map Some (Preds b) \<and> SuccBs b = map Some (Succs b) \<and>
      (\<exists>i < length bs. Index b = int i \<and> bs ! i = s)" if nb: "map_of (number_blocks bs m) s = Some b" for s b
  proof -
    obtain b0 where b0: "map_of (Blocks c) s = Some b0" using nb mn [of s] mo [of s] by (cases "map_of (Blocks c) s") simp_all
    then have "s \<in> set bs" using bs by (auto simp: keys_dom)
    then obtain i where i: "position bs s = Some i" using position_set [of bs s] by (cases "position bs s") auto
    then have "i < length bs" "bs ! i = s" using position_nth by blast+
    moreover have "block_ptr (Blocks c) t = Some t" if "t \<in> set (Preds b0) \<union> set (Succs b0)" for t
      using tgt [OF b0 that] by (rule block_ptr_key)
    then have "map (block_ptr (Blocks c)) (Preds b0) = map Some (Preds b0)"
      "map (block_ptr (Blocks c)) (Succs b0) = map Some (Succs b0)" by simp_all
    moreover have "b = b0\<lparr>PredBs := map (block_ptr (Blocks c)) (Preds b0),
        SuccBs := map (block_ptr (Blocks c)) (Succs b0), Index := int i\<rparr>"
      using nb mn [of s] mo [of s] b0 i fresh [OF b0] by simp
    ultimately show ?thesis by auto
  qed
  with bs w1 w2 show ?thesis unfolding c' by simp
qed


text \<open>
  C17: Inversion of a graph, on which post-dominators are computed. For every order in which
  the blocks are listed, \<open>InvertCFG\<close> keeps the statements, reverses every edge, exchanges
  entry and exit, and numbers the blocks: \<open>BlockSlice\<close> lists every statement once with the
  new entry in front, the index of a block is its position there, and the pointers to
  neighbouring blocks are never nil.
\<close>

theorem InvertCFG_correct:
  assumes "wf_blocks (Blocks c)" "range_order ord" "Exit_node c \<in> keys (Blocks c)"
  defines "c' \<equiv> InvertCFG ord c"
  shows "wf_blocks (Blocks c') \<and> keys (Blocks c') = keys (Blocks c) \<and>
    (\<forall>s t. edge (Blocks c') s t = edge (Blocks c) t s) \<and>
    distinct (BlockSlice c') \<and> set (BlockSlice c') = keys (Blocks c) \<and> BlockSlice c' ! 0 = Exit_node c \<and>
    (\<forall>s b. map_of (Blocks c') s = Some b \<longrightarrow>
       PredBs b = map Some (Preds b) \<and> SuccBs b = map Some (Succs b) \<and>
       (\<exists>i < length (BlockSlice c'). Index b = int i \<and> BlockSlice c' ! i = s))"
proof -
  define m where "m = fold (\<lambda>(s, b) m. gomap_set (Stmt b) (inv_block b) m) (Blocks c) []"
  define c2 where "c2 = \<lparr>Entry = Exit_node c, Exit_node = Entry c, Defers = [], Blocks = m, BlockSlice = []\<rparr>"
  have c2: "Blocks c2 = m" "Entry c2 = Exit_node c" by (simp_all add: c2_def)
  have c': "c' = InitializeBlocks ord c2" by (simp add: c'_def InvertCFG_def c2_def m_def)
  note inv = inverted_blocks [OF assms(1), folded m_def]
  have "PredBs b = [] \<and> SuccBs b = []" if "map_of (Blocks c2) s = Some b" for s b
    using that inv by (auto simp: c2 inv_block_def new_Block_def)
  with inv assms(2,3) have "wf_blocks (Blocks c') \<and> keys (Blocks c') = keys (Blocks c2) \<and> edge (Blocks c') = edge (Blocks c2) \<and>
    distinct (BlockSlice c') \<and> set (BlockSlice c') = keys (Blocks c2) \<and> BlockSlice c' ! 0 = Entry c2 \<and>
    (\<forall>s b. map_of (Blocks c') s = Some b \<longrightarrow>
       PredBs b = map Some (Preds b) \<and> SuccBs b = map Some (Succs b) \<and>
       (\<exists>i < length (BlockSlice c'). Index b = int i \<and> BlockSlice c' ! i = s))"
    unfolding c' by (intro InitializeBlocks_graph) (simp_all add: c2)
  with inv show ?thesis by (simp add: c2)
qed

definition loop_cfg :: CFG where
  "loop_cfg = FromStmts 0 1 loop_prog"

lemma loop_cfg_wf: "wf_blocks (Blocks loop_cfg)" "keys (Blocks loop_cfg) = {0, 1, 2, 3, 4, 5, 6, 7, 8}"
proof -
  have "block_nodes loop_prog = {2, 3, 4, 5, 6, 7, 8}" by (auto simp: loop_prog_def)
  then show "wf_blocks (Blocks loop_cfg)" "keys (Blocks loop_cfg) = {0, 1, 2, 3, 4, 5, 6, 7, 8}"
    using FromStmts_graph [of 0 1 loop_prog] by (simp_all add: loop_cfg_def insert_commute)
qed

lemma loop_cfg_sentinels [simp]: "Entry loop_cfg = 0" "Exit_node loop_cfg = 1"
  by (code_simp)+

lemma range_order_sorted [simp]: "range_order sorted_list_of_set"
  by (simp add: range_order_def)

theorem InvertCFG_correct_witness:
  "keys (Blocks (InvertCFG sorted_list_of_set loop_cfg)) = {0, 1, 2, 3, 4, 5, 6, 7, 8} \<and>
   BlockSlice (InvertCFG sorted_list_of_set loop_cfg) ! 0 = 1 \<and>
   (\<forall>s t. edge (Blocks (InvertCFG sorted_list_of_set loop_cfg)) s t = edge (Blocks loop_cfg) t s)"
  using InvertCFG_correct [of loop_cfg sorted_list_of_set] loop_cfg_wf by simp

text \<open>
  An \<open>else if\<close> with an initialisation, \<open>if a { } else if x := 1; b { }\<close>: \<open>buildIf\<close> links the
  outer condition to the inner one directly before it links it to the initialisation, so
  that the graph has a path which skips the initialisation.
\<close>

definition else_if_prog :: "stmt list" where
  "else_if_prog =
     [IfStmt 2 None (Ident 20) [] (Some (IfStmt 3 (Some (AssignStmt 4 [Ident 21] DEFINE [])) (Ident 22) [] None))]"

lemma else_if_skips_init:
  "edge (Blocks (FromStmts 0 1 else_if_prog)) 2 3 \<and> edge (Blocks (FromStmts 0 1 else_if_prog)) 2 4 \<and>
   edge (Blocks (FromStmts 0 1 else_if_prog)) 4 3"
  by code_simp

end
