(* ===== verification/Dom_Props.thy ===== *)
theory Dom_Props
  imports Dom Cfg_Props
begin

text \<open>
  Properties of \<open>src/programslicer/cfg/dom.go\<close>: the numbers of a dominator tree answer dominance
  queries, the depth-first search meets exactly the reachable blocks, the construction fails
  on a graph with an unreachable block, and what \<open>FindControlDeps\<close> adds.
\<close>

section \<open>Numbering a dominator tree\<close>

datatype dtree = DNode (lab: node) (subs: "dtree list")

fun labels :: "dtree \<Rightarrow> node list" where
  "labels (DNode v ts) = v # concat (map labels ts)"

fun height :: "dtree \<Rightarrow> nat" where
  "height (DNode v ts) = Suc (foldr max (map height ts) 0)"

text \<open>The tree that the children of the blocks span.\<close>

fun spans :: "blocks \<Rightarrow> dtree \<Rightarrow> bool" where
  "spans m (DNode v ts) \<longleftrightarrow>
     (case map_of m v of None \<Rightarrow> False | Some b \<Rightarrow> children (dom_info b) = map lab ts) \<and> list_all (spans m) ts"

text \<open>\<open>a\<close> is \<open>b\<close> or an ancestor of \<open>b\<close>.\<close>

fun above :: "dtree \<Rightarrow> node \<Rightarrow> node \<Rightarrow> bool" where
  "above (DNode v ts) a b \<longleftrightarrow> (a = v \<and> b \<in> set (labels (DNode v ts))) \<or> list_ex (\<lambda>t. above t a b) ts"

definition renumbered :: "blocks \<Rightarrow> blocks \<Rightarrow> node set \<Rightarrow> (node \<Rightarrow> int) \<Rightarrow> (node \<Rightarrow> int) \<Rightarrow> bool" where
  "renumbered m m' S f g \<longleftrightarrow>
     (\<forall>v. map_of m' v =
        map_option (\<lambda>b. if v \<in> S then b\<lparr>dom_info := (dom_info b)\<lparr>pre := f v, post := g v\<rparr>\<rparr> else b) (map_of m v))"

lemma map_of_set_dom [simp]:
  "map_of (set_dom v h m) w =
     map_option (\<lambda>b. if w = v then b\<lparr>dom_info := h (dom_info b)\<rparr> else b) (map_of m w)"
  by (auto simp: set_dom_def option.map_ident)

lemma above_labels: "above t a b \<Longrightarrow> a \<in> set (labels t) \<and> b \<in> set (labels t)"
  by (induction t) (fastforce simp: list_ex_iff)

lemma spans_cong:
  assumes "\<And>v. map_option (children \<circ> dom_info) (map_of m' v) = map_option (children \<circ> dom_info) (map_of m v)"
  shows "spans m' t = spans m t"
proof (induction t)
  case (DNode v ts)
  then have "list_all (spans m') ts = list_all (spans m) ts" by (simp add: list_all_iff)
  with assms [of v] show ?case by (auto split: option.splits)
qed

lemma renumbered_spans: "renumbered m m' S f g \<Longrightarrow> spans m' t = spans m t"
proof (rule spans_cong)
  fix v
  assume "renumbered m m' S f g"
  then show "map_option (children \<circ> dom_info) (map_of m' v) = map_option (children \<circ> dom_info) (map_of m v)"
    by (cases "map_of m v") (auto simp: renumbered_def)
qed

lemma renumbered_trans:
  assumes "renumbered m m1 S f g" "renumbered m1 m2 T f' g'" "S \<inter> T = {}"
  shows "renumbered m m2 (S \<union> T) (\<lambda>v. if v \<in> S then f v else f' v) (\<lambda>v. if v \<in> S then g v else g' v)"
  using assms unfolding renumbered_def by (auto simp: option.map_comp comp_def intro!: option.map_cong0)

definition answers :: "node list \<Rightarrow> (node \<Rightarrow> int) \<Rightarrow> (node \<Rightarrow> int) \<Rightarrow> int \<Rightarrow> int \<Rightarrow> (node \<Rightarrow> node \<Rightarrow> bool) \<Rightarrow> bool" where
  "answers ls f g p q r \<longleftrightarrow>
     (\<forall>a \<in> set ls. p \<le> f a \<and> f a < p + int (length ls) \<and> q \<le> g a \<and> g a < q + int (length ls)) \<and>
     (\<forall>a \<in> set ls. \<forall>b \<in> set ls. (f a \<le> f b \<and> g b \<le> g a) = r a b)"

lemma answers_append:
  assumes "answers xs f g p q r" "answers ys f' g' (p + int (length xs)) (q + int (length xs)) r'"
    and "set xs \<inter> set ys = {}"
    and "\<And>a b. r a b \<Longrightarrow> a \<in> set xs \<and> b \<in> set xs" "\<And>a b. r' a b \<Longrightarrow> a \<in> set ys \<and> b \<in> set ys"
  shows "answers (xs @ ys) (\<lambda>v. if v \<in> set xs then f v else f' v) (\<lambda>v. if v \<in> set xs then g v else g' v) p q
    (\<lambda>a b. r a b \<or> r' a b)"
proof -
  have xs: "p \<le> f a" "f a < p + int (length xs)" "q \<le> g a" "g a < q + int (length xs)" if "a \<in> set xs" for a
    using assms(1) that by (auto simp: answers_def)
  have ys: "p + int (length xs) \<le> f' a" "f' a < p + int (length xs) + int (length ys)"
    "q + int (length xs) \<le> g' a" "g' a < q + int (length xs) + int (length ys)" "a \<notin> set xs" if "a \<in> set ys" for a
    using assms(2,3) that by (auto simp: answers_def)
  have x: "(f a \<le> f b \<and> g b \<le> g a) = r a b" if "a \<in> set xs" "b \<in> set xs" for a b
    using assms(1) that by (simp add: answers_def)
  have y: "(f' a \<le> f' b \<and> g' b \<le> g' a) = r' a b" if "a \<in> set ys" "b \<in> set ys" for a b
    using assms(2) that by (simp add: answers_def)
  show ?thesis
    unfolding answers_def
  proof (intro conjI ballI)
    fix a b
    assume ab: "a \<in> set (xs @ ys)" "b \<in> set (xs @ ys)"
    then consider "a \<in> set xs" "b \<in> set xs" | "a \<in> set xs" "b \<in> set ys" | "a \<in> set ys" "b \<in> set xs"
      | "a \<in> set ys" "b \<in> set ys" by auto
    then show "((if a \<in> set xs then f a else f' a) \<le> (if b \<in> set xs then f b else f' b) \<and>
        (if b \<in> set xs then g b else g' b) \<le> (if a \<in> set xs then g a else g' a)) = (r a b \<or> r' a b)"
    proof cases
      case 1
      then have "\<not> r' a b" using assms(3,5) by blast
      with 1 x show ?thesis by simp
    next
      case 2
      then have "\<not> r a b" "\<not> r' a b" using assms(3-5) by blast+
      with 2 xs [of a] ys [of b] show ?thesis by auto
    next
      case 3
      then have "\<not> r a b" "\<not> r' a b" using assms(3-5) by blast+
      with 3 xs [of b] ys [of a] show ?thesis by auto
    next
      case 4
      then have "\<not> r a b" using assms(3,4) by blast
      with 4 ys(5) y show ?thesis by simp
    qed
  qed (use xs ys in \<open>fastforce+\<close>)
qed

definition numbers :: "nat \<Rightarrow> dtree \<Rightarrow> bool" where
  "numbers depth t \<longleftrightarrow>
     (\<forall>m p q. spans m t \<longrightarrow>
        (\<exists>m' f g. numberDomTree depth (lab t) ((p, q), m) =
             Inr ((p + int (length (labels t)), q + int (length (labels t))), m') \<and>
           renumbered m m' (set (labels t)) f g \<and> answers (labels t) f g p q (above t)))"

lemma numbers_forest:
  assumes "list_all (numbers depth) ts" "list_all (spans m) ts" "distinct (concat (map labels ts))"
  shows "\<exists>m' f g. foldR (\<lambda>s child. numberDomTree depth child s) ((p, q), m) (map lab ts) =
       Inr ((p + int (length (concat (map labels ts))), q + int (length (concat (map labels ts)))), m') \<and>
     renumbered m m' (set (concat (map labels ts))) f g \<and>
     answers (concat (map labels ts)) f g p q (\<lambda>a b. list_ex (\<lambda>t. above t a b) ts)"
  using assms
proof (induction ts arbitrary: m p q)
  case Nil
  have "renumbered m m {} f g" for f g by (simp add: renumbered_def option.map_ident)
  then show ?case by (auto simp: answers_def)
next
  case (Cons t ts)
  let ?n = "int (length (labels t))" and ?ls = "concat (map labels ts)"
  obtain m1 f1 g1 where 1: "numberDomTree depth (lab t) ((p, q), m) = Inr ((p + ?n, q + ?n), m1)"
    "renumbered m m1 (set (labels t)) f1 g1" "answers (labels t) f1 g1 p q (above t)"
    using Cons.prems(1,2) unfolding numbers_def list.pred_inject by blast
  have "list_all (spans m1) ts"
    using Cons.prems(2) renumbered_spans [OF 1(2)] by (simp add: list_all_iff)
  then obtain m2 f2 g2 where 2: "foldR (\<lambda>s child. numberDomTree depth child s) ((p + ?n, q + ?n), m1) (map lab ts) =
       Inr ((p + ?n + int (length ?ls), q + ?n + int (length ?ls)), m2)"
    "renumbered m1 m2 (set ?ls) f2 g2"
    "answers ?ls f2 g2 (p + ?n) (q + ?n) (\<lambda>a b. list_ex (\<lambda>t. above t a b) ts)"
    using Cons.IH [of m1 "p + ?n" "q + ?n"] Cons.prems by auto
  have disj: "set (labels t) \<inter> set ?ls = {}" using Cons.prems(3) by auto
  have ex: "list_ex (\<lambda>t. above t a b) ts \<Longrightarrow> a \<in> set ?ls \<and> b \<in> set ?ls" for a b
    using above_labels by (fastforce simp: list_ex_iff)
  note r = renumbered_trans [OF 1(2) 2(2) disj]
  note a = answers_append [OF 1(3) 2(3) disj above_labels ex]
  show ?case
    by (rule exI [of _ m2], rule exI [of _ "\<lambda>v. if v \<in> set (labels t) then f1 v else f2 v"],
        rule exI [of _ "\<lambda>v. if v \<in> set (labels t) then g1 v else g2 v"])
       (use 1(1) 2(1) r a in \<open>simp add: algebra_simps\<close>)
qed

lemma height_subs: "t \<in> set ts \<Longrightarrow> height t < height (DNode v ts)"
  by (induction ts) auto

lemma answers_root:
  assumes "answers ls f g (p + 1) q r" "v \<notin> set ls" "\<And>a b. r a b \<Longrightarrow> a \<in> set ls \<and> b \<in> set ls"
  shows "answers (v # ls) (f(v := p)) (g(v := q + int (length ls))) p q (\<lambda>a b. (a = v \<and> b \<in> set (v # ls)) \<or> r a b)"
proof -
  have ls: "p + 1 \<le> f a" "f a < p + 1 + int (length ls)" "q \<le> g a" "g a < q + int (length ls)" "a \<noteq> v" if "a \<in> set ls" for a
    using assms(1,2) that by (auto simp: answers_def)
  have r: "(f a \<le> f b \<and> g b \<le> g a) = r a b" if "a \<in> set ls" "b \<in> set ls" for a b
    using assms(1) that by (simp add: answers_def)
  have nr: "\<not> r v b" "\<not> r a v" for a b using assms(2,3) by blast+
  show ?thesis
    unfolding answers_def
  proof (intro conjI ballI)
    fix a b
    assume ab: "a \<in> set (v # ls)" "b \<in> set (v # ls)"
    show "((f(v := p)) a \<le> (f(v := p)) b \<and> (g(v := q + int (length ls))) b \<le> (g(v := q + int (length ls))) a) =
      ((a = v \<and> b \<in> set (v # ls)) \<or> r a b)"
    proof (cases "a = v")
      case True
      with ab ls [of b] show ?thesis by (cases "b = v") auto
    next
      case False
      then have a: "a \<in> set ls" using ab by simp
      show ?thesis
      proof (cases "b = v")
        case True
        with False a ls [of a] nr show ?thesis by auto
      next
        case nb: False
        with ab have "b \<in> set ls" by simp
        with False nb a r show ?thesis by simp
      qed
    qed
  qed (use ls in \<open>fastforce+\<close>)
qed

lemma numbers_tree: "height t \<le> depth \<Longrightarrow> distinct (labels t) \<Longrightarrow> numbers depth t"
proof (induction t arbitrary: depth)
  case (DNode v ts)
  then obtain d where d: "depth = Suc d" by (cases depth) auto
  let ?ls = "concat (map labels ts)"
  have "list_all (numbers d) ts"
    unfolding list_all_iff
  proof
    fix t
    assume t: "t \<in> set ts"
    show "numbers d t"
    proof (rule DNode.IH [OF t])
      show "height t \<le> d" using height_subs [OF t, of v] DNode.prems(1) d by simp
      show "distinct (labels t)" using DNode.prems(2) t by (auto simp: distinct_concat_iff)
    qed
  qed
  note sub = this
  show ?case
    unfolding numbers_def
  proof (intro allI impI)
    fix m p q
    assume sp: "spans m (DNode v ts)"
    then obtain b where b: "map_of m v = Some b" "children (dom_info b) = map lab ts" "list_all (spans m) ts"
      by (auto split: option.splits)
    let ?m0 = "set_dom v (\<lambda>d. d\<lparr>pre := p\<rparr>) m"
    have "spans ?m0 t = spans m t" for t
      by (rule spans_cong) (auto simp: option.map_comp comp_def intro!: option.map_cong0)
    then have "list_all (spans ?m0) ts" using b(3) by (simp add: list_all_iff)
    moreover have "distinct ?ls" using DNode.prems(2) by simp
    ultimately obtain m1 f g where fo: "foldR (\<lambda>s child. numberDomTree d child s) ((p + 1, q), ?m0) (map lab ts) =
        Inr ((p + 1 + int (length ?ls), q + int (length ?ls)), m1)"
      "renumbered ?m0 m1 (set ?ls) f g" "answers ?ls f g (p + 1) q (\<lambda>a b. list_ex (\<lambda>t. above t a b) ts)"
      using numbers_forest [OF sub, of ?m0 "p + 1" q] by blast
    let ?m' = "set_dom v (\<lambda>d. d\<lparr>post := q + int (length ?ls)\<rparr>) m1"
    have v: "v \<notin> set ?ls" using DNode.prems(2) by simp
    have "numberDomTree depth v ((p, q), m) = Inr ((p + int (length (v # ?ls)), q + int (length (v # ?ls))), ?m')"
      using fo(1) b by (simp add: d Block_of_def)
    moreover have "renumbered m ?m' (set (v # ?ls)) (f(v := p)) (g(v := q + int (length ?ls)))"
      unfolding renumbered_def
    proof
      fix w
      show "map_of ?m' w = map_option (\<lambda>b. if w \<in> set (v # ?ls) then b\<lparr>dom_info := (dom_info b)
          \<lparr>pre := (f(v := p)) w, post := (g(v := q + int (length ?ls))) w\<rparr>\<rparr> else b) (map_of m w)"
        using fo(2) v unfolding renumbered_def by (cases "map_of m w") auto
    qed
    moreover have "answers (v # ?ls) (f(v := p)) (g(v := q + int (length ?ls))) p q
        (\<lambda>a b. (a = v \<and> b \<in> set (v # ?ls)) \<or> list_ex (\<lambda>t. above t a b) ts)"
      using above_labels by (intro answers_root [OF fo(3) v]) (fastforce simp: list_ex_iff)
    ultimately show "\<exists>m' f g. numberDomTree depth (lab (DNode v ts)) ((p, q), m) =
        Inr ((p + int (length (labels (DNode v ts))), q + int (length (labels (DNode v ts)))), m') \<and>
      renumbered m m' (set (labels (DNode v ts))) f g \<and>
      answers (labels (DNode v ts)) f g p q (above (DNode v ts))"
      unfolding labels.simps dtree.sel above.simps by blast
  qed
qed

text \<open>
  Dominance queries. When the child lists of the blocks span a tree, \<open>numberDomTree\<close>
  succeeds on its root with a stack as deep as the tree, changes nothing but the numbers of the
  blocks in the tree, and afterwards \<open>Dominates\<close>, which compares two pairs of numbers, holds
  exactly between a block and its descendants and itself.
\<close>

lemma numberDomTree_correct:
  assumes "spans m t" "distinct (labels t)" "height t \<le> depth"
  shows "\<exists>k m' f g. numberDomTree depth (lab t) ((0, 0), m) = Inr (k, m') \<and>
    renumbered m m' (set (labels t)) f g \<and>
    (\<forall>a \<in> set (labels t). \<forall>b \<in> set (labels t).
       Dominates (the (map_of m' a)) (the (map_of m' b)) = above t a b)"
proof -
  obtain m' f g where r: "numberDomTree depth (lab t) ((0, 0), m) = Inr ((0 + int (length (labels t)), 0 + int (length (labels t))), m')"
    "renumbered m m' (set (labels t)) f g" "answers (labels t) f g 0 0 (above t)"
    using numbers_tree [OF assms(3,2)] assms(1) unfolding numbers_def by blast
  have blocks: "\<exists>b. map_of m a = Some b" if "spans m s" "a \<in> set (labels s)" for s a
    using that
  proof (induction s)
    case (DNode v ts)
    then show ?case by (auto simp: list_all_iff split: option.splits)
  qed
  have num: "pre (dom_info (the (map_of m' a))) = f a \<and> post (dom_info (the (map_of m' a))) = g a"
    if a: "a \<in> set (labels t)" for a
    using blocks [OF assms(1) a] r(2) a by (auto simp: renumbered_def)
  have "Dominates (the (map_of m' a)) (the (map_of m' b)) = above t a b"
    if "a \<in> set (labels t)" "b \<in> set (labels t)" for a b
    using num [OF that(1)] num [OF that(2)] r(3) that by (simp add: Dominates_def answers_def)
  with r(1,2) show ?thesis by blast
qed

section \<open>Depth-first search\<close>

abbreviation block_at :: "CFG \<Rightarrow> node \<Rightarrow> Block" where
  "block_at c v \<equiv> the (map_of (Blocks c) v)"

text \<open>A graph whose blocks are numbered and linked, as \<open>InitializeBlocks\<close> leaves it.\<close>

definition numbered :: "CFG \<Rightarrow> bool" where
  "numbered c \<longleftrightarrow> distinct (BlockSlice c) \<and> BlockSlice c \<noteq> [] \<and>
     (\<forall>v \<in> set (BlockSlice c). \<exists>b i. map_of (Blocks c) v = Some b \<and> Index b = int i \<and> i < length (BlockSlice c) \<and>
        BlockSlice c ! i = v \<and> SuccBs b = map Some (Succs b) \<and> set (Succs b) \<subseteq> set (BlockSlice c))"

definition ix :: "CFG \<Rightarrow> node \<Rightarrow> nat" where
  "ix c v = index_of (block_at c v)"

definition same_graph :: "CFG \<Rightarrow> blocks \<Rightarrow> bool" where
  "same_graph c m \<longleftrightarrow>
     (\<forall>v \<in> set (BlockSlice c). \<exists>b. map_of m v = Some b \<and> Index b = Index (block_at c v) \<and>
        SuccBs b = SuccBs (block_at c v) \<and> PredBs b = PredBs (block_at c v))"

definition met :: "CFG \<Rightarrow> ltState \<Rightarrow> node set" where
  "met c st = {v \<in> set (BlockSlice c). sdom st ! ix c v \<noteq> None}"

definition dfs_ok :: "CFG \<Rightarrow> nat \<Rightarrow> ltState \<Rightarrow> bool" where
  "dfs_ok c i st \<longleftrightarrow>
     length (sdom st) = length (BlockSlice c) \<and> length (parent st) = length (BlockSlice c) \<and>
     length (ancestor st) = length (BlockSlice c) \<and> length (preorder st) = length (BlockSlice c) \<and>
     same_graph c (lt_blocks st) \<and> i = card (met c st) \<and>
     (\<forall>j. i \<le> j \<longrightarrow> j < length (BlockSlice c) \<longrightarrow> preorder st ! j = None)"

lemma numberedD:
  assumes "numbered c" "v \<in> set (BlockSlice c)"
  shows "ix c v < length (BlockSlice c)" "BlockSlice c ! ix c v = v"
    "SuccBs (block_at c v) = map Some (Succs (block_at c v))" "set (Succs (block_at c v)) \<subseteq> set (BlockSlice c)"
    "w \<in> set (Succs (block_at c v)) \<longleftrightarrow> edge (Blocks c) v w"
  using assms by (fastforce simp: numbered_def ix_def index_of_def edge_def)+

lemma ix_inject:
  assumes "numbered c" "v \<in> set (BlockSlice c)" "w \<in> set (BlockSlice c)"
  shows "ix c v = ix c w \<longleftrightarrow> v = w"
  using numberedD(2) [OF assms(1,2)] numberedD(2) [OF assms(1,3)] by metis

lemma same_graphD:
  assumes "same_graph c m" "v \<in> set (BlockSlice c)"
  obtains b where "map_of m v = Some b" "index_of b = ix c v" "SuccBs b = SuccBs (block_at c v)"
    "PredBs b = PredBs (block_at c v)"
  using assms by (auto simp: same_graph_def ix_def index_of_def)

lemma same_graph_set_dom: "same_graph c m \<Longrightarrow> same_graph c (set_dom v f m)"
  unfolding same_graph_def by fastforce

lemma met_finite [simp]: "finite (met c st)" and met_subset: "met c st \<subseteq> set (BlockSlice c)"
  by (auto simp: met_def)

lemma met_less:
  assumes "numbered c" "v \<in> set (BlockSlice c)" "v \<notin> met c st"
  shows "card (met c st) < length (BlockSlice c)"
proof -
  have "card (met c st) < card (set (BlockSlice c))"
    using assms met_subset by (intro psubset_card_mono) auto
  also have "\<dots> = length (BlockSlice c)" using assms(1) by (simp add: numbered_def distinct_card)
  finally show ?thesis .
qed

text \<open>Entering a block: what the first statements of \<open>dfs\<close> do.\<close>

lemma dfs_enter:
  assumes "numbered c" "dfs_ok c i st" "v \<in> set (BlockSlice c)" "v \<notin> met c st"
  obtains st' where
    "\<And>depth. dfs (Suc depth) v i st =
       foldR (\<lambda>(i, st) w. rbind (lt_at sdom st w) (\<lambda>s.
           if s = None then rbind (set_parent w (Some v) st) (dfs depth (the w) i) else Inr (i, st)))
         (i + 1, st') (map Some (Succs (block_at c v)))"
    "dfs_ok c (i + 1) st'" "met c st' = insert v (met c st)"
proof -
  let ?n = "length (BlockSlice c)"
  have sg: "same_graph c (lt_blocks st)" using assms(2) by (simp add: dfs_ok_def)
  obtain b where b: "map_of (lt_blocks st) v = Some b" "index_of b = ix c v" "SuccBs b = SuccBs (block_at c v)"
    by (rule same_graphD [OF sg assms(3)])
  have i: "i = card (met c st)" "i < ?n" using assms(2) met_less [OF assms(1,3,4)] by (auto simp: dfs_ok_def)
  have v: "ix c v < ?n" using numberedD(1) [OF assms(1,3)] .
  let ?m = "set_dom v (\<lambda>d. d\<lparr>pre := int i\<rparr>) (lt_blocks st)"
  let ?st = "st\<lparr>preorder := (preorder st)[i := Some v], lt_blocks := ?m, sdom := (sdom st)[ix c v := Some v],
    ancestor := (ancestor st)[ix c v := None]\<rparr>"
  have len: "length (sdom st) = ?n" "length (parent st) = ?n" "length (ancestor st) = ?n" "length (preorder st) = ?n"
    using assms(2) by (auto simp: dfs_ok_def)
  have m: "map_of ?m v = Some (b\<lparr>dom_info := (dom_info b)\<lparr>pre := int i\<rparr>\<rparr>)" using b by simp
  have ib: "index_of (b\<lparr>dom_info := (dom_info b)\<lparr>pre := int i\<rparr>\<rparr>) = ix c v" using b by (simp add: index_of_def)
  have run: "dfs (Suc depth) v i st =
       foldR (\<lambda>(i, st) w. rbind (lt_at sdom st w) (\<lambda>s.
           if s = None then rbind (set_parent w (Some v) st) (dfs depth (the w) i) else Inr (i, st)))
         (i + 1, ?st) (map Some (Succs (block_at c v)))" for depth
    using b i v len m ib numberedD(3) [OF assms(1,3)]
    by (simp add: Block_of_def set_sdom_def link_def Let_def)
  have met: "met c ?st = insert v (met c st)"
    using ix_inject [OF assms(1,3)] v len assms(3) by (auto simp: met_def nth_list_update)
  have ok: "dfs_ok c (i + 1) ?st"
    using assms(2,4) len met i same_graph_set_dom by (auto simp: dfs_ok_def)
  show thesis by (rule that [OF run ok met])
qed

lemma dfs_ok_parent:
  assumes "numbered c" "dfs_ok c i st" "w \<in> set (BlockSlice c)"
  obtains st' where "set_parent (Some w) p st = Inr st'" "dfs_ok c i st'" "met c st' = met c st"
proof -
  have sg: "same_graph c (lt_blocks st)" using assms(2) by (simp add: dfs_ok_def)
  obtain b where b: "map_of (lt_blocks st) w = Some b" "index_of b = ix c w"
    by (rule same_graphD [OF sg assms(3)])
  let ?st = "st\<lparr>parent := (parent st)[ix c w := p]\<rparr>"
  have "set_parent (Some w) p st = Inr ?st"
    using b assms(2) numberedD(1) [OF assms(1,3)] by (simp add: set_parent_def Block_of_def dfs_ok_def)
  moreover have "met c ?st = met c st" by (simp add: met_def)
  moreover have "dfs_ok c i ?st" using assms(2) by (simp add: dfs_ok_def met_def)
  ultimately show thesis using that by blast
qed

lemma lt_at_sdom:
  assumes "numbered c" "dfs_ok c i st" "w \<in> set (BlockSlice c)"
  shows "lt_at sdom st (Some w) = Inr (sdom st ! ix c w)"
proof -
  have sg: "same_graph c (lt_blocks st)" using assms(2) by (simp add: dfs_ok_def)
  obtain b where "map_of (lt_blocks st) w = Some b" "index_of b = ix c w"
    by (rule same_graphD [OF sg assms(3)])
  then show ?thesis
    using assms(2) numberedD(1) [OF assms(1,3)] by (simp add: lt_at_def Block_of_def dfs_ok_def)
qed

text \<open>
  From \<open>st\<close> to \<open>st'\<close> the search has met \<open>A\<close> and what is reachable from it, and the successors of
  everything it has met since.
\<close>

definition searched :: "CFG \<Rightarrow> node set \<Rightarrow> ltState \<Rightarrow> nat \<Rightarrow> ltState \<Rightarrow> bool" where
  "searched c A st i' st' \<longleftrightarrow>
     dfs_ok c i' st' \<and> met c st \<union> A \<subseteq> met c st' \<and>
     met c st' \<subseteq> met c st \<union> {u. \<exists>w \<in> A. (edge (Blocks c))\<^sup>*\<^sup>* w u} \<and>
     (\<forall>u w. u \<in> met c st' - met c st \<longrightarrow> edge (Blocks c) u w \<longrightarrow> w \<in> met c st')"

lemma searched_trans:
  assumes "searched c A st i1 st1" "searched c B st1 i2 st2"
  shows "searched c (A \<union> B) st i2 st2"
proof -
  let ?R = "\<lambda>A. {u. \<exists>w \<in> A. (edge (Blocks c))\<^sup>*\<^sup>* w u}"
  have 1: "met c st \<union> A \<subseteq> met c st1" "met c st1 \<subseteq> met c st \<union> ?R A"
    "\<And>u w. u \<in> met c st1 - met c st \<Longrightarrow> edge (Blocks c) u w \<Longrightarrow> w \<in> met c st1"
    using assms(1) unfolding searched_def by blast+
  have 2: "dfs_ok c i2 st2" "met c st1 \<union> B \<subseteq> met c st2" "met c st2 \<subseteq> met c st1 \<union> ?R B"
    "\<And>u w. u \<in> met c st2 - met c st1 \<Longrightarrow> edge (Blocks c) u w \<Longrightarrow> w \<in> met c st2"
    using assms(2) unfolding searched_def by blast+
  have "w \<in> met c st2" if u: "u \<in> met c st2 - met c st" and e: "edge (Blocks c) u w" for u w
  proof (cases "u \<in> met c st1")
    case True
    with u e 1(3) 2(2) show ?thesis by blast
  next
    case False
    with u e 2(4) show ?thesis by blast
  qed
  moreover have "met c st2 \<subseteq> met c st \<union> ?R (A \<union> B)" using 1(2) 2(3) by blast
  ultimately show ?thesis unfolding searched_def using 1(1) 2(1,2) by blast
qed

definition dfs_reaches :: "CFG \<Rightarrow> nat \<Rightarrow> bool" where
  "dfs_reaches c depth \<longleftrightarrow>
     (\<forall>v i st. dfs_ok c i st \<longrightarrow> v \<in> set (BlockSlice c) \<longrightarrow> v \<notin> met c st \<longrightarrow>
        card (set (BlockSlice c) - met c st) \<le> depth \<longrightarrow>
        (\<exists>i' st'. dfs depth v i st = Inr (i', st') \<and> searched c {v} st i' st'))"

lemma dfs_succs:
  assumes "numbered c" "dfs_reaches c depth" "dfs_ok c i st" "set ws \<subseteq> set (BlockSlice c)"
    and "card (set (BlockSlice c) - met c st) \<le> depth"
  shows "\<exists>i' st'. foldR (\<lambda>(i, st) w. rbind (lt_at sdom st w) (\<lambda>s.
           if s = None then rbind (set_parent w (Some v) st) (dfs depth (the w) i) else Inr (i, st)))
         (i, st) (map Some ws) = Inr (i', st') \<and> searched c (set ws) st i' st'"
  using assms(3-5)
proof (induction ws arbitrary: i st)
  case Nil
  then show ?case by (simp add: searched_def)
next
  case (Cons w ws)
  let ?f = "\<lambda>(i, st) w. rbind (lt_at sdom st w) (\<lambda>s.
           if s = None then rbind (set_parent w (Some v) st) (dfs depth (the w) i) else Inr (i, st))"
  have w: "w \<in> set (BlockSlice c)" using Cons.prems(2) by simp
  note at = lt_at_sdom [OF assms(1) Cons.prems(1) w]
  have "\<exists>i1 st1. ?f (i, st) (Some w) = Inr (i1, st1) \<and> searched c {w} st i1 st1"
  proof (cases "w \<in> met c st")
    case True
    then have "sdom st ! ix c w \<noteq> None" by (simp add: met_def)
    with True at Cons.prems(1) show ?thesis by (auto simp: searched_def)
  next
    case False
    then have n: "sdom st ! ix c w = None" using w by (simp add: met_def)
    obtain st0 where st0: "set_parent (Some w) (Some v) st = Inr st0" "dfs_ok c i st0" "met c st0 = met c st"
      by (rule dfs_ok_parent [OF assms(1) Cons.prems(1) w])
    have c: "card (set (BlockSlice c) - met c st0) \<le> depth" "w \<notin> met c st0" using Cons.prems(3) False st0(3) by simp_all
    from assms(2) [unfolded dfs_reaches_def, rule_format, OF st0(2) w c(2) c(1)]
    show ?thesis using at n st0(1,3) by (auto simp: searched_def)
  qed
  then obtain i1 st1 where 1: "?f (i, st) (Some w) = Inr (i1, st1)" "searched c {w} st i1 st1" by blast
  have ok1: "dfs_ok c i1 st1" using 1(2) by (simp add: searched_def)
  have sub: "set (BlockSlice c) - met c st1 \<subseteq> set (BlockSlice c) - met c st" using 1(2) by (auto simp: searched_def)
  have "card (set (BlockSlice c) - met c st1) \<le> depth"
    using card_mono [OF _ sub] Cons.prems(3) by simp
  with Cons.IH [OF ok1] Cons.prems(2) obtain i2 st2 where
    2: "foldR ?f (i1, st1) (map Some ws) = Inr (i2, st2)" "searched c (set ws) st1 i2 st2" by auto
  have "searched c (set (w # ws)) st i2 st2" using searched_trans [OF 1(2) 2(2)] by simp
  with 1(1) 2(1) show ?case by auto
qed

lemma dfs_reaches_all: "numbered c \<Longrightarrow> dfs_reaches c depth"
proof (induction depth)
  case 0
  show ?case unfolding dfs_reaches_def by auto
next
  case (Suc depth)
  show ?case
    unfolding dfs_reaches_def
  proof (intro allI impI)
    fix v i st
    assume ok: "dfs_ok c i st" and v: "v \<in> set (BlockSlice c)" "v \<notin> met c st"
      and d: "card (set (BlockSlice c) - met c st) \<le> Suc depth"
    obtain st1 where run: "\<And>depth. dfs (Suc depth) v i st =
       foldR (\<lambda>(i, st) w. rbind (lt_at sdom st w) (\<lambda>s.
           if s = None then rbind (set_parent w (Some v) st) (dfs depth (the w) i) else Inr (i, st)))
         (i + 1, st1) (map Some (Succs (block_at c v)))"
      and ok1: "dfs_ok c (i + 1) st1" and met1: "met c st1 = insert v (met c st)"
      using dfs_enter [OF Suc.prems ok v] by blast
    have "set (BlockSlice c) - met c st1 = (set (BlockSlice c) - met c st) - {v}" using met1 by auto
    moreover have "v \<in> set (BlockSlice c) - met c st" using v by simp
    ultimately have "card (set (BlockSlice c) - met c st1) = card (set (BlockSlice c) - met c st) - 1"
      by (simp only: card_Diff_singleton)
    then have d1: "card (set (BlockSlice c) - met c st1) \<le> depth" using d by linarith
    have "\<exists>i2 st2. dfs (Suc depth) v i st = Inr (i2, st2) \<and> searched c (set (Succs (block_at c v))) st1 i2 st2"
      unfolding run by (rule dfs_succs [OF Suc.prems Suc.IH [OF Suc.prems] ok1 numberedD(4) [OF Suc.prems v(1)] d1])
    then obtain i2 st2 where 2: "dfs (Suc depth) v i st = Inr (i2, st2)"
      and s2: "searched c (set (Succs (block_at c v))) st1 i2 st2" by blast
    have e: "w \<in> set (Succs (block_at c v)) \<longleftrightarrow> edge (Blocks c) v w" for w
      by (rule numberedD(5) [OF Suc.prems v(1)])
    have "searched c {v} st i2 st2"
      unfolding searched_def
    proof (intro conjI allI impI)
      show "dfs_ok c i2 st2" "met c st \<union> {v} \<subseteq> met c st2" using s2 met1 by (auto simp: searched_def)
      show "met c st2 \<subseteq> met c st \<union> {u. \<exists>w \<in> {v}. (edge (Blocks c))\<^sup>*\<^sup>* w u}"
        using s2 met1 e by (auto simp: searched_def intro: converse_rtranclp_into_rtranclp)
      fix u w
      assume u: "u \<in> met c st2 - met c st" "edge (Blocks c) u w"
      show "w \<in> met c st2"
      proof (cases "u = v")
        case True
        with u(2) e s2 show ?thesis by (auto simp: searched_def)
      next
        case False
        with u s2 met1 show ?thesis by (auto simp: searched_def)
      qed
    qed
    with 2 show "\<exists>i' st'. dfs (Suc depth) v i st = Inr (i', st') \<and> searched c {v} st i' st'" by blast
  qed
qed

subsection \<open>Unreachable blocks\<close>

lemma map_of_fold_set_dom:
  "map_of (fold (\<lambda>s. set_dom s (\<lambda>_. d)) ss m) v =
     map_option (\<lambda>b. if v \<in> set ss then b\<lparr>dom_info := d\<rparr> else b) (map_of m v)"
proof (induction ss arbitrary: m)
  case (Cons s ss)
  then show ?case by (cases "map_of m v") auto
qed (simp add: option.map_ident)

lemma lt_start_ok:
  assumes "numbered c"
  shows "dfs_ok c 0 (lt_start c)" "met c (lt_start c) = {}"
proof -
  show m: "met c (lt_start c) = {}"
    using numberedD(1) [OF assms] by (auto simp: met_def lt_start_def Let_def)
  have "same_graph c (lt_blocks (lt_start c))"
    using assms by (fastforce simp: same_graph_def numbered_def lt_start_def Let_def map_of_fold_set_dom)
  with m show "dfs_ok c 0 (lt_start c)" by (simp add: dfs_ok_def lt_start_def Let_def)
qed

text \<open>The search from the root meets exactly the reachable blocks.\<close>

lemma dfs_root:
  assumes "numbered c" "length (BlockSlice c) \<le> depth"
  defines "root \<equiv> BlockSlice c ! 0"
  obtains i st where "dfs depth root 0 (lt_start c) = Inr (i, st)" "dfs_ok c i st"
    "met c st = {v. (edge (Blocks c))\<^sup>*\<^sup>* root v}"
proof -
  note st = lt_start_ok [OF assms(1)]
  have root: "root \<in> set (BlockSlice c)" using assms(1) by (simp add: numbered_def root_def)
  have "card (set (BlockSlice c) - met c (lt_start c)) \<le> depth"
    using assms(2) card_length [of "BlockSlice c"] by (simp add: st)
  then obtain i st' where r: "dfs depth root 0 (lt_start c) = Inr (i, st')" "searched c {root} (lt_start c) i st'"
    using dfs_reaches_all [OF assms(1), of depth] st root unfolding dfs_reaches_def by blast
  have closed: "w \<in> met c st'" if "(edge (Blocks c))\<^sup>*\<^sup>* root w" for w
    using that
  proof (induction rule: rtranclp_induct)
    case base
    with r(2) show ?case by (auto simp: searched_def)
  next
    case (step y z)
    with r(2) st(2) show ?case unfolding searched_def by blast
  qed
  have "met c st' = {v. (edge (Blocks c))\<^sup>*\<^sup>* root v}"
    using r(2) st(2) closed by (auto simp: searched_def)
  with r show thesis using that by (auto simp: searched_def)
qed

text \<open>
  C40: unreachable blocks. On a numbered graph in which some block cannot be reached from the
  first one, \<open>BuildDomTree\<close> always ends in a nil dereference, with a stack as deep as the graph
  is large: the preorder keeps a nil entry at its end, and the first round reads it.
\<close>

theorem BuildDomTree_unreachable_panics:
  assumes "numbered c" "length (BlockSlice c) \<le> depth"
    and "v \<in> set (BlockSlice c)" "\<not> (edge (Blocks c))\<^sup>*\<^sup>* (BlockSlice c ! 0) v"
  shows "BuildDomTree depth c = Some (Inl NilPointer)"
proof -
  let ?n = "length (BlockSlice c)" and ?root = "BlockSlice c ! 0"
  obtain i st where r: "dfs depth ?root 0 (lt_start c) = Inr (i, st)" "dfs_ok c i st"
    "met c st = {v. (edge (Blocks c))\<^sup>*\<^sup>* ?root v}"
    by (rule dfs_root [OF assms(1,2)])
  have "v \<notin> met c st" using r(3) assms(4) by simp
  then have i: "i < ?n" using met_less [OF assms(1,3)] r(2) by (simp add: dfs_ok_def)
  have root: "BlockSlice c \<noteq> []" "?root \<in> met c st" using assms(1) r(3) by (auto simp: numbered_def)
  then have "0 < card (met c st)" by (auto simp: card_gt_0_iff)
  then have n: "1 < ?n" using r(2) i by (simp add: dfs_ok_def)
  have last: "preorder st ! (?n - 1) = None" "length (preorder st) = ?n" using r(2) i n by (auto simp: dfs_ok_def)
  have "lt_round (st\<lparr>buckets := preorder st\<rparr>) (?n - 1) = Some (Inl NilPointer)"
    using last n by (simp add: lt_round_def bucket_loop.simps [of _ None None] lt_at_def Block_of_def)
  moreover have "rev [1..<?n] = (?n - 1) # rev [1..<?n - 1]"
    using n by (cases ?n) auto
  ultimately show ?thesis
    using r(1) root(1) by (simp add: BuildDomTree_def Let_def)
qed

lemma numbered_InitializeBlocks:
  assumes "wf_blocks (Blocks c)" "range_order ord" "Entry c \<in> keys (Blocks c)"
    and "\<And>s b. map_of (Blocks c) s = Some b \<Longrightarrow> PredBs b = [] \<and> SuccBs b = []"
  shows "numbered (InitializeBlocks ord c)" "edge (Blocks (InitializeBlocks ord c)) = edge (Blocks c)"
    "BlockSlice (InitializeBlocks ord c) ! 0 = Entry c" "set (BlockSlice (InitializeBlocks ord c)) = keys (Blocks c)"
proof -
  let ?c = "InitializeBlocks ord c"
  have g: "wf_blocks (Blocks ?c)" "keys (Blocks ?c) = keys (Blocks c)" "edge (Blocks ?c) = edge (Blocks c)"
    "distinct (BlockSlice ?c)" "set (BlockSlice ?c) = keys (Blocks c)" "BlockSlice ?c ! 0 = Entry c"
    "\<And>s b. map_of (Blocks ?c) s = Some b \<Longrightarrow>
       PredBs b = map Some (Preds b) \<and> SuccBs b = map Some (Succs b) \<and>
       (\<exists>i < length (BlockSlice ?c). Index b = int i \<and> BlockSlice ?c ! i = s)"
    using InitializeBlocks_graph [OF assms(1,2,3)] assms(4) by blast+
  show "numbered ?c"
    unfolding numbered_def
  proof (intro conjI ballI)
    show "distinct (BlockSlice ?c)" by (rule g)
    show "BlockSlice ?c \<noteq> []" using g(5) assms(3) by auto
    fix v
    assume v: "v \<in> set (BlockSlice ?c)"
    then obtain b where b: "map_of (Blocks ?c) v = Some b" using g(2,5) keys_dom by metis
    have "set (Succs b) \<subseteq> set (BlockSlice ?c)"
      using edge_keys [OF g(1)] succ_edge [OF b] g(2,5) by auto
    with b g(7) [OF b] show "\<exists>b i. map_of (Blocks ?c) v = Some b \<and> Index b = int i \<and> i < length (BlockSlice ?c) \<and>
        BlockSlice ?c ! i = v \<and> SuccBs b = map Some (Succs b) \<and> set (Succs b) \<subseteq> set (BlockSlice ?c)"
      by blast
  qed
qed (use InitializeBlocks_graph [OF assms(1,2,3)] assms(4) in blast)+

text \<open>A statement after a \<open>return\<close>.\<close>

definition dead_cfg :: CFG where
  "dead_cfg = FromStmts 0 1 [ReturnStmt 2 [], EmptyStmt 3]"

theorem BuildDomTree_unreachable_panics_witness:
  "BuildDomTree 4 (InitializeBlocks sorted_list_of_set dead_cfg) = Some (Inl NilPointer)"
proof -
  let ?c = "InitializeBlocks sorted_list_of_set dead_cfg"
  have blocks: "Blocks dead_cfg = [(2, (new_Block 2)\<lparr>Preds := [0], Succs := [1]\<rparr>), (0, (new_Block 0)\<lparr>Succs := [2]\<rparr>),
      (1, (new_Block 1)\<lparr>Preds := [2, 3]\<rparr>), (3, (new_Block 3)\<lparr>Succs := [1]\<rparr>)]" and en: "Entry dead_cfg = 0"
    by (code_simp)+
  have wf: "wf_blocks (Blocks dead_cfg)" "keys (Blocks dead_cfg) = {0, 1, 2, 3}"
    using FromStmts_graph [of 0 1 "[ReturnStmt 2 [], EmptyStmt 3]"] by (auto simp: dead_cfg_def)
  have e: "edge (Blocks dead_cfg) s t \<longleftrightarrow> (s, t) \<in> {(0, 2), (2, 1), (3, 1)}" for s t
    by (auto simp: blocks edge_def new_Block_def split: if_splits)
  have "Entry dead_cfg \<in> keys (Blocks dead_cfg)" by (simp add: en wf)
  moreover have "PredBs b = [] \<and> SuccBs b = []" if "map_of (Blocks dead_cfg) s = Some b" for s b
    using that by (auto simp: blocks new_Block_def split: if_splits)
  ultimately have c: "numbered ?c" "edge (Blocks ?c) = edge (Blocks dead_cfg)" "BlockSlice ?c ! 0 = 0"
    "set (BlockSlice ?c) = {0, 1, 2, 3}"
    using numbered_InitializeBlocks [OF wf(1) range_order_sorted] by (simp_all add: en wf(2))
  have "t \<noteq> 3" if "(edge (Blocks ?c))\<^sup>*\<^sup>* 0 t" for t
    using that by (induction rule: rtranclp_induct) (auto simp: c e)
  moreover have "length (BlockSlice ?c) \<le> 4"
    using distinct_card [of "BlockSlice ?c"] c(1,4) by (simp add: numbered_def)
  ultimately show ?thesis
    using BuildDomTree_unreachable_panics [OF c(1), of 4 3] c(3,4) by auto
qed

section \<open>Control dependences\<close>

definition idom_of :: "blocks \<Rightarrow> node \<Rightarrow> node option" where
  "idom_of m v = Option.bind (map_of m v) (\<lambda>b. idom (dom_info b))"

text \<open>The blocks met when climbing the tree from \<open>x\<close>, up to but without \<open>top_node\<close>.\<close>

inductive climbs :: "blocks \<Rightarrow> node option \<Rightarrow> node \<Rightarrow> node \<Rightarrow> bool" for m top_node x where
  climb_start: "Some x \<noteq> top_node \<Longrightarrow> climbs m top_node x x"
| climb_up: "climbs m top_node x n \<Longrightarrow> idom_of m n = Some k \<Longrightarrow> Some k \<noteq> top_node \<Longrightarrow> climbs m top_node x k"

inductive_cases climbsE: "climbs m top_node x n"

lemma climbs_none: "climbs m top_node x n \<Longrightarrow> Some x \<noteq> top_node"
  by (induction rule: climbs.induct)

lemma climbs_step:
  assumes "Some x \<noteq> top_node"
  shows "climbs m top_node x n \<longleftrightarrow> n = x \<or> (\<exists>k. idom_of m x = Some k \<and> climbs m top_node k n)"
proof
  show "climbs m top_node x n \<Longrightarrow> n = x \<or> (\<exists>k. idom_of m x = Some k \<and> climbs m top_node k n)"
    by (induction rule: climbs.induct) (auto intro: climbs.intros)
next
  have "climbs m top_node x n" if k: "idom_of m x = Some k" and c: "climbs m top_node k n" for k
    using c
  proof (induction rule: climbs.induct)
    case climb_start
    with climbs.climb_start [OF assms] k show ?case by (rule climbs.climb_up)
  next
    case (climb_up n k)
    then show ?case by (auto intro: climbs.climb_up)
  qed
  then show "n = x \<or> (\<exists>k. idom_of m x = Some k \<and> climbs m top_node k n) \<Longrightarrow> climbs m top_node x n"
    using climbs.climb_start [OF assms] by blast
qed

definition adds_control :: "(node \<times> node) set \<Rightarrow> blocks \<Rightarrow> blocks \<Rightarrow> bool" where
  "adds_control P m m' \<longleftrightarrow>
     (\<forall>v. case map_of m v of
        None \<Rightarrow> map_of m' v = None
      | Some b \<Rightarrow> \<exists>cd ce. map_of m' v = Some (b\<lparr>ControlDep := cd, ControlDepee := ce\<rparr>) \<and>
          set cd = set (ControlDep b) \<union> {c. (v, c) \<in> P} \<and> set ce = set (ControlDepee b) \<union> {n. (n, v) \<in> P})"

lemma adds_controlD:
  assumes "adds_control P m m'" "map_of m v = Some b"
  obtains cd ce where "map_of m' v = Some (b\<lparr>ControlDep := cd, ControlDepee := ce\<rparr>)"
    "set cd = set (ControlDep b) \<union> {c. (v, c) \<in> P}" "set ce = set (ControlDepee b) \<union> {n. (n, v) \<in> P}"
  using assms(1) [unfolded adds_control_def, rule_format, of v] assms(2) by auto

lemma adds_control_refl: "adds_control {} m m"
  unfolding adds_control_def
proof
  fix v
  show "case map_of m v of None \<Rightarrow> map_of m v = None
    | Some b \<Rightarrow> \<exists>cd ce. map_of m v = Some (b\<lparr>ControlDep := cd, ControlDepee := ce\<rparr>) \<and>
          set cd = set (ControlDep b) \<union> {c. (v, c) \<in> {}} \<and> set ce = set (ControlDepee b) \<union> {n. (n, v) \<in> {}}"
  proof (cases "map_of m v")
    case (Some b)
    show ?thesis
      unfolding Some option.simps
      by (rule exI [of _ "ControlDep b"], rule exI [of _ "ControlDepee b"]) simp
  qed simp
qed

lemma adds_control_one:
  assumes "adds_control P m m'"
  shows "adds_control (insert (x, c) P) m (add_control_dep x c m')"
  unfolding adds_control_def
proof
  fix v
  show "case map_of m v of None \<Rightarrow> map_of (add_control_dep x c m') v = None
    | Some b \<Rightarrow> \<exists>cd ce. map_of (add_control_dep x c m') v = Some (b\<lparr>ControlDep := cd, ControlDepee := ce\<rparr>) \<and>
          set cd = set (ControlDep b) \<union> {c'. (v, c') \<in> insert (x, c) P} \<and>
          set ce = set (ControlDepee b) \<union> {n. (n, v) \<in> insert (x, c) P}"
  proof (cases "map_of m v")
    case None
    with assms [unfolded adds_control_def, rule_format, of v] have "map_of m' v = None" by simp
    with None show ?thesis by (auto simp: add_control_dep_def)
  next
    case (Some b)
    obtain cd ce where b': "map_of m' v = Some (b\<lparr>ControlDep := cd, ControlDepee := ce\<rparr>)"
      "set cd = set (ControlDep b) \<union> {c. (v, c) \<in> P}" "set ce = set (ControlDepee b) \<union> {n. (n, v) \<in> P}"
      by (rule adds_controlD [OF assms Some])
    have "map_of (add_control_dep x c m') v =
        Some (b\<lparr>ControlDep := (if v = x then cd @ [c] else cd), ControlDepee := (if v = c then ce @ [x] else ce)\<rparr>)"
      using b'(1) by (cases "v = x"; cases "v = c") (auto simp: add_control_dep_def)
    with b'(2,3) show ?thesis
      unfolding Some option.simps
      by (intro exI [of _ "if v = x then cd @ [c] else cd"] exI [of _ "if v = c then ce @ [x] else ce"] conjI) auto
  qed
qed

text \<open>Immediate dominators that are blocks and lead up a tree.\<close>

definition ranked :: "(node \<Rightarrow> nat) \<Rightarrow> blocks \<Rightarrow> bool" where
  "ranked h m \<longleftrightarrow> (\<forall>v k. idom_of m v = Some k \<longrightarrow> k \<in> keys m \<and> h k < h v)"

lemma dep_loop_adds:
  assumes "ranked h m0" "x \<in> keys m0" "adds_control Q m0 m"
  shows "\<exists>m'. dep_loop top_node c (Some x) m = Some (Inr m') \<and> adds_control (Q \<union> {(n, c) |n. climbs m0 top_node x n}) m0 m'"
  using assms(2,3)
proof (induction "h x" arbitrary: x Q m rule: less_induct)
  case less
  obtain b where b: "map_of m0 x = Some b" using less.prems(1) keys_dom by metis
  obtain cd ce where b': "map_of m x = Some (b\<lparr>ControlDep := cd, ControlDepee := ce\<rparr>)"
    by (rule adds_controlD [OF less.prems(2) b])
  show ?case
  proof (cases "Some x = top_node")
    case True
    then have "\<not> climbs m0 top_node x n" for n using climbs_none by blast
    with True less.prems(2) show ?thesis by (auto simp: dep_loop.simps)
  next
    case False
    note one = adds_control_one [OF less.prems(2), of x c]
    have run: "dep_loop top_node c (Some x) m = dep_loop top_node c (idom (dom_info b)) (add_control_dep x c m)"
      using False b' by (subst dep_loop.simps) (simp add: Block_of_def)
    show ?thesis
    proof (cases "idom (dom_info b)")
      case None
      then have "climbs m0 top_node x n \<longleftrightarrow> n = x" for n
        using climbs_step [OF False] b by (simp add: idom_of_def)
      then have "Q \<union> {(n, c) |n. climbs m0 top_node x n} = insert (x, c) Q" by auto
      with one run None show ?thesis by (simp add: dep_loop.simps)
    next
      case (Some k)
      then have i: "idom_of m0 x = Some k" using b by (simp add: idom_of_def)
      then have k: "h k < h x" "k \<in> keys m0" using assms(1) by (auto simp: ranked_def)
      obtain m' where m': "dep_loop top_node c (Some k) (add_control_dep x c m) = Some (Inr m')"
        "adds_control (insert (x, c) Q \<union> {(n, c) |n. climbs m0 top_node k n}) m0 m'"
        using less.hyps [OF k one] by blast
      have "insert (x, c) Q \<union> {(n, c) |n. climbs m0 top_node k n} = Q \<union> {(n, c) |n. climbs m0 top_node x n}"
        using climbs_step [OF False, of m0] i by auto
      with m' run Some show ?thesis by auto
    qed
  qed
qed

lemma gfold_adds:
  assumes "\<And>x Q m. x \<in> set xs \<Longrightarrow> adds_control Q m0 m \<Longrightarrow> \<exists>m'. f m x = Some (Inr m') \<and> adds_control (Q \<union> R x) m0 m'"
    and "adds_control Q m0 m"
  shows "\<exists>m'. gfold f m xs = Some (Inr m') \<and> adds_control (Q \<union> (\<Union>x \<in> set xs. R x)) m0 m'"
  using assms
proof (induction xs arbitrary: Q m)
  case Nil
  then show ?case by simp
next
  case (Cons x xs)
  obtain m1 where m1: "f m x = Some (Inr m1)" "adds_control (Q \<union> R x) m0 m1"
    using Cons.prems(1) [of x Q m] Cons.prems(2) by auto
  have "\<exists>m'. gfold f m1 xs = Some (Inr m') \<and> adds_control (Q \<union> R x \<union> (\<Union>x \<in> set xs. R x)) m0 m'"
    by (rule Cons.IH [OF Cons.prems(1) m1(2)]) auto
  with m1(1) show ?case by (simp add: Un_assoc)
qed

text \<open>The dependences that the edges out of \<open>x\<close> give.\<close>

definition edge_control :: "blocks \<Rightarrow> node \<Rightarrow> node \<Rightarrow> (node \<times> node) set" where
  "edge_control m x c =
     (if Dominates (the (map_of m x)) (the (map_of m c)) then {} else {(n, c) |n. climbs m (idom_of m c) x n})"

lemma edge_deps_adds:
  assumes "ranked h m0" "x \<in> keys m0" "c \<in> keys m0" "adds_control Q m0 m"
  shows "\<exists>m'. edge_deps x m (Some c) = Some (Inr m') \<and> adds_control (Q \<union> edge_control m0 x c) m0 m'"
proof -
  obtain bx bc where b: "map_of m0 x = Some bx" "map_of m0 c = Some bc" using assms(2,3) keys_dom by metis
  obtain cdx cex where bx: "map_of m x = Some (bx\<lparr>ControlDep := cdx, ControlDepee := cex\<rparr>)"
    by (rule adds_controlD [OF assms(4) b(1)])
  obtain cdc cec where bc: "map_of m c = Some (bc\<lparr>ControlDep := cdc, ControlDepee := cec\<rparr>)"
    by (rule adds_controlD [OF assms(4) b(2)])
  have d: "Dominates (bx\<lparr>ControlDep := cdx, ControlDepee := cex\<rparr>) (bc\<lparr>ControlDep := cdc, ControlDepee := cec\<rparr>) = Dominates bx bc"
    by (simp add: Dominates_def)
  show ?thesis
  proof (cases "Dominates bx bc")
    case True
    with d b bx bc assms(4) show ?thesis by (simp add: edge_deps_def Block_of_def edge_control_def)
  next
    case False
    have "edge_deps x m (Some c) = dep_loop (idom_of m0 c) c (Some x) m"
      using d b bx bc False by (simp add: edge_deps_def Block_of_def idom_of_def)
    moreover have "edge_control m0 x c = {(n, c) |n. climbs m0 (idom_of m0 c) x n}"
      using False b by (simp add: edge_control_def)
    ultimately show ?thesis using dep_loop_adds [OF assms(1,2,4)] by simp
  qed
qed

text \<open>
  Control dependences. On a graph of linked blocks with immediate dominators that form a
  tree, \<open>FindControlDeps\<close> ends and adds exactly this: for an edge from \<open>x\<close> to \<open>c\<close> of which \<open>x\<close> does
  not dominate \<open>c\<close>, every block met when climbing from \<open>x\<close> to the parent of \<open>c\<close>, the parent
  left out, depends on \<open>c\<close>. \<open>ControlDep\<close> and \<open>ControlDepee\<close> record the same pairs, and nothing
  else of a block changes.
\<close>

lemma FindControlDeps_correct:
  assumes "ranked h (Blocks c)" "set (BlockSlice c) \<subseteq> keys (Blocks c)"
    and "\<forall>x \<in> set (BlockSlice c). SuccBs (block_at c x) = map Some (Succs (block_at c x)) \<and>
      set (Succs (block_at c x)) \<subseteq> keys (Blocks c)"
  shows "\<exists>m. FindControlDeps c = Some (Inr (c\<lparr>Blocks := m\<rparr>)) \<and>
    adds_control {(n, y). \<exists>x \<in> set (BlockSlice c). edge (Blocks c) x y \<and>
      \<not> Dominates (block_at c x) (block_at c y) \<and> climbs (Blocks c) (idom_of (Blocks c) y) x n} (Blocks c) m"
proof -
  let ?m0 = "Blocks c" and ?f = "\<lambda>m x. gbind (Some (Block_of m (Some x))) (\<lambda>b. gfold (edge_deps x) m (SuccBs b))"
  let ?R = "\<lambda>x. \<Union>y \<in> set (map Some (Succs (block_at c x))). edge_control ?m0 x (the y)"
  have "\<exists>m'. ?f m x = Some (Inr m') \<and> adds_control (Q \<union> ?R x) ?m0 m'"
    if x: "x \<in> set (BlockSlice c)" and ad: "adds_control Q ?m0 m" for x Q m
  proof -
    obtain b where b: "map_of ?m0 x = Some b" using x assms(2) keys_dom by blast
    obtain cd ce where b': "map_of m x = Some (b\<lparr>ControlDep := cd, ControlDepee := ce\<rparr>)"
      by (rule adds_controlD [OF ad b])
    have s: "SuccBs b = map Some (Succs b)" "set (Succs b) \<subseteq> keys ?m0"
      using bspec [OF assms(3) x] b by simp_all
    have "\<exists>m'. gfold (edge_deps x) m (map Some (Succs b)) = Some (Inr m') \<and>
        adds_control (Q \<union> (\<Union>y \<in> set (map Some (Succs b)). edge_control ?m0 x (the y))) ?m0 m'"
    proof (rule gfold_adds [OF _ ad])
      fix y Q m
      assume "y \<in> set (map Some (Succs b))" "adds_control Q ?m0 m"
      then show "\<exists>m'. edge_deps x m y = Some (Inr m') \<and> adds_control (Q \<union> edge_control ?m0 x (the y)) ?m0 m'"
        using edge_deps_adds [OF assms(1) subsetD [OF assms(2) x]] s(2) by force
    qed
    with b b' s(1) show ?thesis by (simp add: Block_of_def)
  qed
  from gfold_adds [of "BlockSlice c" ?m0 ?f ?R, OF this adds_control_refl]
  obtain m where m: "gfold ?f ?m0 (BlockSlice c) = Some (Inr m)" "adds_control (\<Union>x \<in> set (BlockSlice c). ?R x) ?m0 m"
    by auto
  have R: "?R x = {(n, y). edge ?m0 x y \<and> \<not> Dominates (block_at c x) (block_at c y) \<and> climbs ?m0 (idom_of ?m0 y) x n}"
    if "x \<in> set (BlockSlice c)" for x
  proof -
    obtain b where "map_of ?m0 x = Some b" using \<open>x \<in> set (BlockSlice c)\<close> assms(2) keys_dom by blast
    then have e: "edge ?m0 x y \<longleftrightarrow> y \<in> set (Succs (block_at c x))" for y by (simp add: edge_def)
    show ?thesis
    proof (intro equalityI subsetI)
      fix p
      assume "p \<in> ?R x"
      then obtain y where y: "y \<in> set (Succs (block_at c x))" "p \<in> edge_control ?m0 x y" by auto
      from y(2) obtain n where "p = (n, y)" "\<not> Dominates (block_at c x) (block_at c y)" "climbs ?m0 (idom_of ?m0 y) x n"
        unfolding edge_control_def by (auto split: if_split_asm)
      with y(1) e show "p \<in> {(n, y). edge ?m0 x y \<and> \<not> Dominates (block_at c x) (block_at c y) \<and> climbs ?m0 (idom_of ?m0 y) x n}"
        by blast
    next
      fix p
      assume "p \<in> {(n, y). edge ?m0 x y \<and> \<not> Dominates (block_at c x) (block_at c y) \<and> climbs ?m0 (idom_of ?m0 y) x n}"
      then obtain n y where p: "p = (n, y)" "edge ?m0 x y" "\<not> Dominates (block_at c x) (block_at c y)"
        "climbs ?m0 (idom_of ?m0 y) x n" by blast
      have "p \<in> edge_control ?m0 x (the (Some y))" unfolding edge_control_def using p by simp
      moreover have "Some y \<in> set (map Some (Succs (block_at c x)))" using p(2) e by simp
      ultimately show "p \<in> ?R x" by blast
    qed
  qed
  have "(\<Union>x \<in> set (BlockSlice c). ?R x) = (\<Union>x \<in> set (BlockSlice c).
      {(n, y). edge ?m0 x y \<and> \<not> Dominates (block_at c x) (block_at c y) \<and> climbs ?m0 (idom_of ?m0 y) x n})"
    by (rule SUP_cong [OF refl R])
  also have "\<dots> = {(n, y). \<exists>x \<in> set (BlockSlice c). edge ?m0 x y \<and>
      \<not> Dominates (block_at c x) (block_at c y) \<and> climbs ?m0 (idom_of ?m0 y) x n}"
    by blast
  finally have "(\<Union>x \<in> set (BlockSlice c). ?R x) = {(n, y). \<exists>x \<in> set (BlockSlice c). edge ?m0 x y \<and>
      \<not> Dominates (block_at c x) (block_at c y) \<and> climbs ?m0 (idom_of ?m0 y) x n}" .
  with m(2) have "adds_control {(n, y). \<exists>x \<in> set (BlockSlice c). edge ?m0 x y \<and>
      \<not> Dominates (block_at c x) (block_at c y) \<and> climbs ?m0 (idom_of ?m0 y) x n} ?m0 m" by (simp only:)
  moreover have "FindControlDeps c = Some (Inr (c\<lparr>Blocks := m\<rparr>))" using m(1) by (simp add: FindControlDeps_def)
  ultimately show ?thesis by blast
qed

end
