(* ===== verification/Lengauer_Tarjan.thy ===== *)
theory Lengauer_Tarjan
  imports Dinv_Prelude
begin

text \<open>
  The theory behind the dominator algorithm of Lengauer and Tarjan, independent of the program:
  vertices are the numbers \<open>0, \<dots>, n - 1\<close> of a depth-first search from the vertex \<open>0\<close>, \<open>par\<close> is the
  parent in its tree. Semidominators are defined by paths; it is shown how they are computed
  from each other and how they determine the immediate dominators.
\<close>

section \<open>Dominators and semidominators\<close>

text \<open>Ancestors in the tree, a vertex itself included.\<close>

inductive anc :: "(nat \<Rightarrow> nat) \<Rightarrow> nat \<Rightarrow> nat \<Rightarrow> bool" for par where
  anc_refl: "anc par v v"
| anc_step: "anc par u (par v) \<Longrightarrow> 0 < v \<Longrightarrow> anc par u v"

text \<open>Walks that avoid a vertex, and dominance.\<close>

definition avoiding :: "('v \<Rightarrow> 'v \<Rightarrow> bool) \<Rightarrow> 'v \<Rightarrow> 'v \<Rightarrow> 'v \<Rightarrow> bool" where
  "avoiding E d x y \<longleftrightarrow> E x y \<and> x \<noteq> d \<and> y \<noteq> d"

definition dominates :: "('v \<Rightarrow> 'v \<Rightarrow> bool) \<Rightarrow> 'v \<Rightarrow> 'v \<Rightarrow> 'v \<Rightarrow> bool" where
  "dominates E r d v \<longleftrightarrow> (d \<noteq> r \<longrightarrow> d \<noteq> v \<longrightarrow> \<not> (avoiding E d)\<^sup>*\<^sup>* r v)"

text \<open>\<open>high E w x\<close>: a walk from \<open>x\<close> to \<open>w\<close> on which every vertex before the last is greater than \<open>w\<close>.\<close>

inductive high :: "(nat \<Rightarrow> nat \<Rightarrow> bool) \<Rightarrow> nat \<Rightarrow> nat \<Rightarrow> bool" for E w where
  high_edge: "E x w \<Longrightarrow> w < x \<Longrightarrow> high E w x"
| high_step: "E x y \<Longrightarrow> w < x \<Longrightarrow> high E w y \<Longrightarrow> high E w x"

definition semi_candidate :: "(nat \<Rightarrow> nat \<Rightarrow> bool) \<Rightarrow> nat \<Rightarrow> nat \<Rightarrow> bool" where
  "semi_candidate E v w \<longleftrightarrow> E v w \<or> (\<exists>y. E v y \<and> high E w y)"

definition semi :: "(nat \<Rightarrow> nat \<Rightarrow> bool) \<Rightarrow> nat \<Rightarrow> nat" where
  "semi E w = (LEAST v. semi_candidate E v w)"

text \<open>The immediate dominator: the proper dominator with the greatest number.\<close>

definition imm_dom :: "(nat \<Rightarrow> nat \<Rightarrow> bool) \<Rightarrow> nat \<Rightarrow> nat" where
  "imm_dom E w = Max {d. d < w \<and> dominates E 0 d w}"

lemma least_member: "x \<in> Z \<Longrightarrow> \<exists>z \<in> Z. \<forall>z' \<in> Z. z \<le> z'" for x :: nat
  by (rule bexI [of _ "LEAST z. z \<in> Z"]) (auto intro: LeastI Least_le)

section \<open>The laws of a depth-first numbering\<close>

locale dfs_numbering =
  fixes n :: nat and E :: "nat \<Rightarrow> nat \<Rightarrow> bool" and par :: "nat \<Rightarrow> nat"
  assumes edge_range: "E x y \<Longrightarrow> x < n \<and> y < n"
    and par_less: "0 < v \<Longrightarrow> v < n \<Longrightarrow> par v < v"
    and par_edge: "0 < v \<Longrightarrow> v < n \<Longrightarrow> E (par v) v"
    and forward: "E x y \<Longrightarrow> x < y \<Longrightarrow> anc par x y"
    and interval: "anc par u x \<Longrightarrow> x < n \<Longrightarrow> u \<le> y \<Longrightarrow> y \<le> x \<Longrightarrow> anc par u y"
begin

lemma anc_le: "anc par u v \<Longrightarrow> v < n \<Longrightarrow> u \<le> v"
proof (induction rule: anc.induct)
  case (anc_step u v)
  with par_less [of v] show ?case by simp
qed simp

lemma anc_trans: "anc par v w \<Longrightarrow> anc par u v \<Longrightarrow> anc par u w"
  by (induction rule: anc.induct) (auto intro: anc_step)

lemma anc_root: "v < n \<Longrightarrow> anc par 0 v"
proof (induction v rule: less_induct)
  case (less v)
  show ?case
  proof (cases "v = 0")
    case False
    with less par_less [of v] have "anc par 0 (par v)" by simp
    with False show ?thesis by (auto intro: anc_step)
  qed (simp add: anc_refl)
qed

lemma anc_chain:
  assumes "anc par u w" "anc par v w" "w < n" "u \<le> v"
  shows "anc par u v"
  using assms interval [OF assms(1,3,4)] anc_le [OF assms(2,3)] by simp

lemma anc_par: "anc par u v \<Longrightarrow> u \<noteq> v \<Longrightarrow> anc par u (par v)"
  by (auto elim: anc.cases)

text \<open>The way down the tree: its vertices lie between the two ends.\<close>

lemma tree_walk:
  assumes "anc par u v" "v < n" and R: "\<And>x y. E x y \<Longrightarrow> u \<le> x \<Longrightarrow> x < y \<Longrightarrow> y \<le> v \<Longrightarrow> R x y"
  shows "R\<^sup>*\<^sup>* u v"
  using assms
proof (induction rule: anc.induct)
  case (anc_step u v)
  have pv: "par v < v" "E (par v) v" using anc_step.hyps(2) anc_step.prems(1) par_less par_edge by auto
  then have "u \<le> par v" using anc_le [OF anc_step.hyps(1)] anc_step.prems(1) by simp
  note pv = pv this
  have "R\<^sup>*\<^sup>* u (par v)" using anc_step.IH anc_step.prems pv by auto
  moreover have "R (par v) v" using anc_step.prems(2) [of "par v" v] pv by auto
  ultimately show ?case by simp
qed simp

text \<open>A walk from \<open>q\<close> to \<open>y\<close> passes an ancestor of \<open>y\<close> that is at most \<open>q\<close>; if \<open>q \<le> y\<close>, one of \<open>q\<close> too.\<close>

lemma walk_low:
  assumes "R\<^sup>*\<^sup>* q y" "q < n" and R: "\<And>x y. R x y \<Longrightarrow> E x y"
  shows "\<exists>z. R\<^sup>*\<^sup>* q z \<and> R\<^sup>*\<^sup>* z y \<and> anc par z y \<and> z \<le> q \<and> y < n"
  using assms(1)
proof (induction rule: rtranclp_induct)
  case base
  with assms(2) show ?case by (auto intro: anc_refl)
next
  case (step y y')
  obtain z where z: "R\<^sup>*\<^sup>* q z" "R\<^sup>*\<^sup>* z y" "anc par z y" "z \<le> q" "y < n" using step.IH by blast
  have y': "y' < n" "E y y'" using R step.hyps(2) edge_range by blast+
  show ?case
  proof (cases "z \<le> y'")
    case True
    have "anc par z y'"
    proof (cases "y < y'")
      case True
      with forward [OF y'(2)] z(3) show ?thesis by (blast intro: anc_trans)
    next
      case False
      with interval [OF z(3,5) \<open>z \<le> y'\<close>] show ?thesis by simp
    qed
    with z step.hyps(2) y' show ?thesis by (meson rtranclp.rtrancl_into_rtrancl)
  next
    case False
    with z step.hyps y' show ?thesis by (intro exI [of _ y']) (auto intro: anc_refl)
  qed
qed

lemma walk_common:
  assumes "R\<^sup>*\<^sup>* q y" "q \<le> y" "q < n" and R: "\<And>x y. R x y \<Longrightarrow> E x y"
  shows "\<exists>z. R\<^sup>*\<^sup>* q z \<and> R\<^sup>*\<^sup>* z y \<and> anc par z y \<and> anc par z q \<and> z \<le> q"
  using walk_low [OF assms(1,3) R] interval assms(2) by blast

text \<open>A walk that meets no proper ancestor of its end \<open>z\<close> stays above \<open>z\<close>.\<close>

lemma walk_high:
  assumes "R\<^sup>*\<^sup>* y z" "y < n" and R: "\<And>x y. R x y \<Longrightarrow> E x y"
    and least: "\<And>z'. R\<^sup>*\<^sup>* y z' \<Longrightarrow> R\<^sup>*\<^sup>* z' z \<Longrightarrow> anc par z' z \<Longrightarrow> z \<le> z'"
  shows "y = z \<or> high E z y"
proof -
  have "R\<^sup>*\<^sup>* y q \<Longrightarrow> q = z \<or> high E z q" if "R\<^sup>*\<^sup>* q z" for q
    using that
  proof (induction rule: converse_rtranclp_induct)
    case (step q q')
    have q: "q < n" using R step.hyps(1) edge_range by blast
    have ih: "q' = z \<or> high E z q'" using step by (meson rtranclp.rtrancl_into_rtrancl)
    have "z \<le> q"
    proof (rule ccontr)
      assume "\<not> z \<le> q"
      moreover have "R\<^sup>*\<^sup>* q z" using step.hyps by (meson converse_rtranclp_into_rtranclp)
      ultimately obtain z' where z': "R\<^sup>*\<^sup>* q z'" "R\<^sup>*\<^sup>* z' z" "anc par z' z" "z' \<le> q"
        using walk_common [of R q z] q R by auto
      then have "z \<le> z'" using least [of z'] step.prems by (meson rtranclp_trans)
      with z'(4) \<open>\<not> z \<le> q\<close> show False by simp
    qed
    then consider "q = z" | "z < q" by linarith
    then show ?case using R [OF step.hyps(1)] ih by cases (auto intro: high.intros)
  qed simp
  with assms(1) show ?thesis by blast
qed

section \<open>Semidominators\<close>

lemma semi_le: "semi_candidate E v w \<Longrightarrow> semi E w \<le> v"
  unfolding semi_def by (rule Least_le)

lemma semi_candidate_semi: "0 < w \<Longrightarrow> w < n \<Longrightarrow> semi_candidate E (semi E w) w"
  unfolding semi_def by (rule LeastI [of _ "par w"]) (simp add: semi_candidate_def par_edge)

lemma semi_less_par: "0 < w \<Longrightarrow> w < n \<Longrightarrow> semi E w \<le> par w"
  by (rule semi_le) (simp add: semi_candidate_def par_edge)

lemma semi_less: "0 < w \<Longrightarrow> w < n \<Longrightarrow> semi E w < w"
  using semi_less_par par_less by (meson le_less_trans)

lemma high_walk:
  "high E w x \<Longrightarrow> \<exists>l. (\<lambda>x y. E x y \<and> w < x \<and> w < y)\<^sup>*\<^sup>* x l \<and> w < x \<and> w < l \<and> E l w"
proof (induction rule: high.induct)
  case (high_edge x)
  then show ?case by blast
next
  case (high_step x y)
  then obtain l where l: "(\<lambda>x y. E x y \<and> w < x \<and> w < y)\<^sup>*\<^sup>* y l" "w < y" "w < l" "E l w" by blast
  have "(\<lambda>x y. E x y \<and> w < x \<and> w < y)\<^sup>*\<^sup>* x l"
    by (rule converse_rtranclp_into_rtranclp [OF _ l(1)]) (use l(2) high_step.hyps in simp)
  with l high_step.hyps(2) show ?case by blast
qed

lemma high_extend: "(\<lambda>x y. E x y \<and> w < x \<and> w < y)\<^sup>*\<^sup>* x l \<Longrightarrow> high E w l \<Longrightarrow> high E w x"
  by (induction rule: converse_rtranclp_induct) (auto intro: high_step)

lemma over_end: "(\<lambda>x y. E x y \<and> w < x \<and> w < y)\<^sup>*\<^sup>* x l \<Longrightarrow> w < x \<Longrightarrow> w < l"
  by (induction rule: rtranclp_induct) auto

text \<open>The semidominator is a proper ancestor.\<close>

lemma semi_anc:
  assumes "0 < w" "w < n"
  shows "anc par (semi E w) w"
proof -
  let ?v = "semi E w"
  from semi_candidate_semi [OF assms] consider "E ?v w" | y where "E ?v y" "high E w y"
    by (auto simp: semi_candidate_def)
  then show ?thesis
  proof cases
    case 1
    with forward semi_less [OF assms] show ?thesis by blast
  next
    case (2 y)
    obtain l where l: "(\<lambda>x y. E x y \<and> w < x \<and> w < y)\<^sup>*\<^sup>* y l" "w < y" "E l w" using high_walk [OF 2(2)] by blast
    let ?R = "\<lambda>x z. E x z \<and> (x = ?v \<or> w < x)"
    have "?R\<^sup>*\<^sup>* y l" by (rule rtranclp_mono [THEN predicate2D, OF _ l(1)]) auto
    moreover have "w < l" using over_end [OF l(1,2)] .
    ultimately have "?R\<^sup>*\<^sup>* y w" using l(3) by (intro rtranclp.rtrancl_into_rtrancl [of ?R y l w]) auto
    then have walk: "?R\<^sup>*\<^sup>* ?v w" by (rule converse_rtranclp_into_rtranclp [rotated]) (simp add: 2(1))
    obtain z where z: "?R\<^sup>*\<^sup>* ?v z" "?R\<^sup>*\<^sup>* z w" "anc par z w" "z \<le> ?v"
      using walk_common [OF walk] semi_less [OF assms] edge_range [OF 2(1)] by auto
    have "z \<noteq> w" using z(4) semi_less [OF assms] by simp
    then have "z = ?v" using z(2,4) semi_less [OF assms] by (auto elim: converse_rtranclpE)
    with z(3) show ?thesis by simp
  qed
qed

text \<open>How semidominators are computed: the bounds, and that one of them is met.\<close>

lemma semi_le_linked:
  assumes "E v w" "anc par x v" "w < x"
  shows "semi E w \<le> semi E x"
proof -
  have x: "0 < x" "x < n" using assms(3) anc_le [OF assms(2)] edge_range [OF assms(1)] by auto
  have "x \<le> v" "v < n" using anc_le [OF assms(2)] edge_range [OF assms(1)] by auto
  then have "(\<lambda>x y. E x y \<and> w < x \<and> w < y)\<^sup>*\<^sup>* x v"
    using assms(3) by (intro tree_walk [OF assms(2)]) auto
  moreover have "high E w v" using assms(1,3) \<open>x \<le> v\<close> by (intro high_edge) auto
  ultimately have hx: "high E w x" by (rule high_extend)
  have "high E w y" if "high E x y" for y
    using that
  proof (induction rule: high.induct)
    case (high_edge y)
    with hx assms(3) show ?case by (auto intro: high_step)
  next
    case (high_step y z)
    with assms(3) show ?case by (auto intro: high.high_step)
  qed
  then have "semi_candidate E (semi E x) w"
    using semi_candidate_semi [OF x] hx by (auto simp: semi_candidate_def)
  then show ?thesis by (rule semi_le)
qed

lemma semi_met:
  assumes "0 < w" "w < n"
  shows "(E (semi E w) w \<and> semi E w < w) \<or> (\<exists>v x. E v w \<and> anc par x v \<and> w < x \<and> semi E x = semi E w)"
proof -
  let ?v = "semi E w" and ?R = "\<lambda>x y. E x y \<and> w < x \<and> w < y"
  from semi_candidate_semi [OF assms] consider "E ?v w" | y where "E ?v y" "high E w y"
    by (auto simp: semi_candidate_def)
  then show ?thesis
  proof cases
    case 1
    with semi_less [OF assms] show ?thesis by blast
  next
    case (2 y)
    obtain l where l: "?R\<^sup>*\<^sup>* y l" "w < y" "E l w" using high_walk [OF 2(2)] by blast
    define Z where "Z = {z. ?R\<^sup>*\<^sup>* y z \<and> ?R\<^sup>*\<^sup>* z l \<and> anc par z l}"
    have "l \<in> Z" using l(1) by (simp add: Z_def anc_refl)
    from least_member [OF this] obtain z where z: "z \<in> Z" "\<forall>z' \<in> Z. z \<le> z'" by blast
    have "w < z" using z(1) l(2) unfolding Z_def by (auto dest: over_end)
    have "y = z \<or> high E z y"
    proof (rule walk_high [of ?R])
      show "?R\<^sup>*\<^sup>* y z" using z(1) by (simp add: Z_def)
      show "y < n" using edge_range [OF 2(1)] by simp
      fix z'
      assume "?R\<^sup>*\<^sup>* y z'" "?R\<^sup>*\<^sup>* z' z" "anc par z' z"
      then have "z' \<in> Z" using z(1) by (auto simp: Z_def intro: anc_trans)
      then show "z \<le> z'" using z(2) by blast
    qed simp
    then have "semi_candidate E ?v z" using 2(1) by (auto simp: semi_candidate_def)
    then have "semi E z \<le> ?v" by (rule semi_le)
    moreover have "?v \<le> semi E z"
      using semi_le_linked [OF l(3) _ \<open>w < z\<close>] z(1) by (simp add: Z_def)
    ultimately show ?thesis using l(3) z(1) \<open>w < z\<close> by (auto simp: Z_def)
  qed
qed

section \<open>Immediate dominators\<close>

lemma tree_avoiding:
  "v < n \<Longrightarrow> (\<And>u. anc par u v \<Longrightarrow> u \<noteq> d) \<Longrightarrow> (avoiding E d)\<^sup>*\<^sup>* 0 v"
proof (induction v rule: less_induct)
  case (less v)
  show ?case
  proof (cases "v = 0")
    case False
    then have p: "par v < v" "E (par v) v" using par_less par_edge less.prems by auto
    then have "(avoiding E d)\<^sup>*\<^sup>* 0 (par v)" using less anc_step False by auto
    moreover have "anc par (par v) v" using False by (auto intro: anc.intros)
    then have "avoiding E d (par v) v" using p(2) less.prems(2) anc_refl by (auto simp: avoiding_def)
    ultimately show ?thesis by simp
  qed simp
qed

lemma dominates_anc:
  assumes "dominates E 0 d w" "w < n"
  shows "anc par d w"
proof (rule ccontr)
  assume no: "\<not> anc par d w"
  then have "(avoiding E d)\<^sup>*\<^sup>* 0 w" using assms(2) by (auto intro: tree_avoiding)
  moreover have "d \<noteq> 0" "d \<noteq> w" using no anc_root [OF assms(2)] anc_refl by metis+
  ultimately show False using assms(1) by (simp add: dominates_def)
qed

lemma root_dominates: "dominates E 0 0 w"
  by (simp add: dominates_def)

lemma imm_dom:
  assumes "0 < w"
  shows "imm_dom E w < w" "dominates E 0 (imm_dom E w) w" "\<And>d. d < w \<Longrightarrow> dominates E 0 d w \<Longrightarrow> d \<le> imm_dom E w"
proof -
  let ?D = "{d. d < w \<and> dominates E 0 d w}"
  have "0 \<in> ?D" using assms by (simp add: root_dominates)
  moreover have "finite ?D" by simp
  ultimately have "Max ?D \<in> ?D" and "\<And>d. d \<in> ?D \<Longrightarrow> d \<le> Max ?D" by (metis Max_in empty_iff) simp
  then show "imm_dom E w < w" "dominates E 0 (imm_dom E w) w" "\<And>d. d < w \<Longrightarrow> dominates E 0 d w \<Longrightarrow> d \<le> imm_dom E w"
    by (auto simp: imm_dom_def)
qed

text \<open>No vertex between the semidominator and the vertex dominates it.\<close>

lemma imm_dom_le_semi:
  assumes "0 < w" "w < n"
  shows "imm_dom E w \<le> semi E w"
proof (rule ccontr)
  let ?d = "imm_dom E w" and ?s = "semi E w"
  assume gt: "\<not> ?d \<le> ?s"
  have lt: "?d < w" using imm_dom(1) [OF assms(1)] .
  have sn: "?s < n" using semi_less [OF assms] assms(2) by simp
  have up: "(avoiding E ?d)\<^sup>*\<^sup>* 0 ?s"
    using gt by (intro tree_walk [OF anc_root [OF sn] sn]) (auto simp: avoiding_def)
  have "(avoiding E ?d)\<^sup>*\<^sup>* y w" if "high E w y" for y
    using that
  proof (induction rule: high.induct)
    case (high_edge x)
    with lt have "avoiding E ?d x w" by (auto simp: avoiding_def)
    then show ?case by simp
  next
    case (high_step x y)
    then have "w < y" by (auto elim: high.cases)
    with high_step.hyps lt have "avoiding E ?d x y" by (auto simp: avoiding_def)
    with high_step.IH show ?case by (rule converse_rtranclp_into_rtranclp [rotated])
  qed
  moreover have "w < y" if "high E w y" for y using that by (auto elim: high.cases)
  ultimately have "(avoiding E ?d)\<^sup>*\<^sup>* ?s w"
    using semi_candidate_semi [OF assms] gt lt unfolding semi_candidate_def
    by (metis (no_types, lifting) avoiding_def converse_rtranclp_into_rtranclp leD less_or_eq_imp_le nat_neq_iff r_into_rtranclp)
  with up have "(avoiding E ?d)\<^sup>*\<^sup>* 0 w" by (rule rtranclp_trans)
  with imm_dom(2) [OF assms(1)] lt gt show False by (auto simp: dominates_def)
qed

text \<open>
  A proper ancestor that does not dominate \<open>w\<close> is bypassed: there is a vertex below it on the
  way to \<open>w\<close> whose semidominator lies above it.
\<close>

lemma bypass:
  assumes "anc par t w" "t < w" "w < n" "\<not> dominates E 0 t w"
  shows "\<exists>y. t < y \<and> anc par y w \<and> (avoiding E t)\<^sup>*\<^sup>* 0 y \<and> semi E y < t"
proof -
  have t: "0 < t" "(avoiding E t)\<^sup>*\<^sup>* 0 w" using assms(4) by (auto simp: dominates_def)
  define Y where "Y = {y. t < y \<and> anc par y w \<and> (avoiding E t)\<^sup>*\<^sup>* 0 y}"
  have "w \<in> Y" using assms(2) t(2) by (simp add: Y_def anc_refl)
  from least_member [OF this] obtain y where y: "y \<in> Y" "\<forall>y' \<in> Y. y \<le> y'" by blast
  let ?R = "\<lambda>a b. E a b \<and> t < a \<and> t < b"
  have enter: "(avoiding E t)\<^sup>*\<^sup>* 0 y \<Longrightarrow> t < y \<Longrightarrow> \<exists>x x'. x < t \<and> E x x' \<and> (avoiding E t)\<^sup>*\<^sup>* 0 x' \<and> t < x' \<and> ?R\<^sup>*\<^sup>* x' y" for y
  proof (induction rule: rtranclp_induct)
    case base
    with t(1) show ?case by simp
  next
    case (step a b)
    show ?case
    proof (cases "t < a")
      case True
      then obtain x x' where x: "x < t" "E x x'" "(avoiding E t)\<^sup>*\<^sup>* 0 x'" "t < x'" "?R\<^sup>*\<^sup>* x' a" using step.IH by blast
      have "?R\<^sup>*\<^sup>* x' b"
        by (rule rtranclp.rtrancl_into_rtrancl [OF x(5)]) (use True step.hyps(2) step.prems in \<open>simp add: avoiding_def\<close>)
      with x show ?thesis by blast
    next
      case False
      with step.hyps step.prems show ?thesis
        by (intro exI [of _ a] exI [of _ b]) (auto simp: avoiding_def intro: rtranclp.rtrancl_into_rtrancl)
    qed
  qed
  have "(avoiding E t)\<^sup>*\<^sup>* 0 y" "t < y" using y(1) by (simp_all add: Y_def)
  from enter [OF this] obtain x x' where x: "x < t" "E x x'" "(avoiding E t)\<^sup>*\<^sup>* 0 x'" "t < x'" "?R\<^sup>*\<^sup>* x' y"
    by blast
  have "x' = y \<or> high E y x'"
  proof (rule walk_high [OF x(5)])
    show "x' < n" using edge_range [OF x(2)] by simp
    fix z
    assume z: "?R\<^sup>*\<^sup>* x' z" "?R\<^sup>*\<^sup>* z y" "anc par z y"
    have "t < z" using over_end [OF z(1) x(4)] .
    moreover have "(avoiding E t)\<^sup>*\<^sup>* x' z"
      by (rule rtranclp_mono [THEN predicate2D, OF _ z(1)]) (auto simp: avoiding_def)
    then have "(avoiding E t)\<^sup>*\<^sup>* 0 z" using x(3) by (rule rtranclp_trans [rotated])
    ultimately have "z \<in> Y" using z(3) y(1) by (auto simp: Y_def intro: anc_trans)
    then show "y \<le> z" using y(2) by blast
  qed simp
  then have "semi_candidate E x y" using x(2) by (auto simp: semi_candidate_def)
  then have "semi E y < t" using semi_le x(1) by (meson le_less_trans)
  with y(1) show ?thesis by (auto simp: Y_def)
qed

lemma imm_dom_semi:
  assumes "0 < w" "w < n" and least: "\<And>u. anc par u w \<Longrightarrow> semi E w < u \<Longrightarrow> semi E w \<le> semi E u"
  shows "imm_dom E w = semi E w"
proof -
  have "dominates E 0 (semi E w) w"
    using bypass [OF semi_anc [OF assms(1,2)] semi_less [OF assms(1,2)] assms(2)] least by (meson leD)
  then show ?thesis
    using imm_dom(3) [OF assms(1) semi_less [OF assms(1,2)]] imm_dom_le_semi [OF assms(1,2)] by simp
qed

lemma imm_dom_relative:
  assumes w: "0 < w" "w < n" and u: "anc par u w" "semi E w < u"
    and least: "\<And>x. anc par x w \<Longrightarrow> semi E w < x \<Longrightarrow> semi E u \<le> semi E x"
  shows "imm_dom E w = imm_dom E u"
proof (rule antisym)
  have un: "0 < u" "u \<le> w" "u < n" using u anc_le [OF u(1) w(2)] w(2) by auto
  have du: "imm_dom E w < u" using imm_dom_le_semi [OF w] u(2) by simp
  have "dominates E 0 (imm_dom E w) u"
  proof (rule ccontr)
    let ?d = "imm_dom E w"
    assume no: "\<not> dominates E 0 ?d u"
    then have "(avoiding E ?d)\<^sup>*\<^sup>* 0 u" "?d \<noteq> 0" by (auto simp: dominates_def)
    moreover have "(avoiding E ?d)\<^sup>*\<^sup>* u w"
      using du by (intro tree_walk [OF u(1) w(2)]) (auto simp: avoiding_def)
    ultimately have "(avoiding E ?d)\<^sup>*\<^sup>* 0 w" by (meson rtranclp_trans)
    with imm_dom(1,2) [OF w(1)] \<open>?d \<noteq> 0\<close> show False by (auto simp: dominates_def)
  qed
  with du show "imm_dom E w \<le> imm_dom E u" by (rule imm_dom(3) [OF un(1)])
  let ?t = "imm_dom E u"
  have tu: "?t < u" "dominates E 0 ?t u" using imm_dom(1,2) [OF un(1)] by blast+
  have ts: "?t \<le> semi E u" "semi E u \<le> semi E w" "semi E w < w"
    using imm_dom_le_semi [OF un(1,3)] least [OF anc_refl] semi_less [OF w] by auto
  have tw: "anc par ?t w" using dominates_anc [OF tu(2) un(3)] u(1) by (blast intro: anc_trans)
  have "dominates E 0 ?t w"
  proof (rule ccontr)
    assume "\<not> dominates E 0 ?t w"
    then obtain y where y: "?t < y" "anc par y w" "(avoiding E ?t)\<^sup>*\<^sup>* 0 y" "semi E y < ?t"
      using bypass [OF tw _ w(2)] tu(1) un(2) by auto
    show False
    proof (cases "semi E w < y")
      case True
      with least [OF y(2)] y(4) ts(1) show False by simp
    next
      case False
      then have "y \<le> u" using u(2) by simp
      then have "anc par y u" by (rule anc_chain [OF y(2) u(1) w(2)])
      then have "(avoiding E ?t)\<^sup>*\<^sup>* y u"
        using y(1) un(3) by (intro tree_walk) (auto simp: avoiding_def)
      with y(3) have "(avoiding E ?t)\<^sup>*\<^sup>* 0 u" by (rule rtranclp_trans)
      moreover have "?t \<noteq> 0" using y(4) by auto
      ultimately show False using tu by (auto simp: dominates_def)
    qed
  qed
  then show "?t \<le> imm_dom E w" using imm_dom(3) [OF w(1)] tu(1) un(2) by auto
qed

text \<open>Dominators are the ancestors in the tree of immediate dominators.\<close>

lemma dominates_imm_dom:
  "w < n \<Longrightarrow> dominates E 0 d w \<longleftrightarrow> anc (imm_dom E) d w"
proof (induction w rule: less_induct)
  case (less w)
  show ?case
  proof (cases "d = w \<or> w = 0")
    case True
    then show ?thesis
      using dominates_anc [OF _ less.prems] anc_le [of d w] less.prems
      by (auto simp: root_dominates dominates_def intro: anc_refl elim: anc.cases)
  next
    case False
    let ?m = "imm_dom E w"
    have w: "0 < w" using False by simp
    note m = imm_dom(1,2) [OF w]
    have mw: "anc par ?m w" using dominates_anc [OF m(2) less.prems] .
    have "dominates E 0 d w \<longleftrightarrow> dominates E 0 d ?m"
    proof
      assume d: "dominates E 0 d w"
      have "d < w" using anc_le [OF dominates_anc [OF d less.prems] less.prems] False by simp
      then have le: "d \<le> ?m" using imm_dom(3) [OF w _ d] by simp
      show "dominates E 0 d ?m"
      proof (rule ccontr)
        assume "\<not> dominates E 0 d ?m"
        then have a: "d \<noteq> 0" "d \<noteq> ?m" "(avoiding E d)\<^sup>*\<^sup>* 0 ?m" by (auto simp: dominates_def)
        have "(avoiding E d)\<^sup>*\<^sup>* ?m w"
          using le a(2) by (intro tree_walk [OF mw less.prems]) (auto simp: avoiding_def)
        with a d \<open>d < w\<close> show False by (auto simp: dominates_def dest: rtranclp_trans)
      qed
    next
      assume d: "dominates E 0 d ?m"
      show "dominates E 0 d w"
      proof (rule ccontr)
        assume "\<not> dominates E 0 d w"
        then have a: "d \<noteq> 0" "d \<noteq> w" "(avoiding E d)\<^sup>*\<^sup>* 0 w" by (auto simp: dominates_def)
        have "d \<noteq> ?m" using m(2) a by (auto simp: dominates_def)
        have "dominates E 0 ?m w" by (rule m(2))
        have "(avoiding E d)\<^sup>*\<^sup>* 0 x \<Longrightarrow> (avoiding E d)\<^sup>*\<^sup>* 0 ?m \<or> (avoiding E ?m)\<^sup>*\<^sup>* 0 x \<and> x \<noteq> ?m" for x
        proof (induction rule: rtranclp_induct)
          case (step y z)
          then show ?case
            by (cases "z = ?m") (auto simp: avoiding_def intro: rtranclp.rtrancl_into_rtrancl)
        qed auto
        from this [OF a(3)] have "(avoiding E d)\<^sup>*\<^sup>* 0 ?m"
          using m a(1) by (auto simp: dominates_def)
        with d a(1) \<open>d \<noteq> ?m\<close> show False by (simp add: dominates_def)
      qed
    qed
    also have "\<dots> \<longleftrightarrow> anc (imm_dom E) d ?m" using less.IH [OF m(1)] m(1) less.prems by simp
    also have "\<dots> \<longleftrightarrow> anc (imm_dom E) d w" using w False by (auto intro: anc_step elim: anc.cases)
    finally show ?thesis .
  qed
qed

end

text \<open>Ancestors of a vertex are ancestors of each other.\<close>

lemma anc_linear: "anc P u x \<Longrightarrow> anc P v x \<Longrightarrow> anc P u v \<or> anc P v u"
proof (induction rule: anc.induct)
  case (anc_step u x)
  from anc_step.prems show ?case
  proof cases
    case anc_refl
    with anc_step.hyps show ?thesis by (auto intro: anc.anc_step)
  next
    case anc_step
    with \<open>anc P v (P x) \<Longrightarrow> anc P u v \<or> anc P v u\<close> show ?thesis by blast
  qed
qed simp

lemma anc_child: "anc P d x \<longleftrightarrow> x = d \<or> (\<exists>k. 0 < k \<and> P k = d \<and> anc P k x)"
proof
  show "anc P d x \<Longrightarrow> x = d \<or> (\<exists>k. 0 < k \<and> P k = d \<and> anc P k x)"
  proof (induction rule: anc.induct)
    case (anc_step u v)
    then show ?case by (metis anc.intros)
  qed simp
next
  have down: "anc P k x \<Longrightarrow> 0 < k \<Longrightarrow> anc P (P k) x" for k
    by (induction rule: anc.induct) (auto intro: anc.intros)
  show "x = d \<or> (\<exists>k. 0 < k \<and> P k = d \<and> anc P k x) \<Longrightarrow> anc P d x"
    using down by (auto intro: anc_refl)
qed

end
