(* ===== verification/Dom_Tree.thy ===== *)
theory Dom_Tree
  imports Dom_Props Lengauer_Tarjan
begin

text \<open>
  \<open>BuildDomTree\<close> of \<open>src/programslicer/cfg/dom.go\<close> on graphs without unreachable blocks: the numbers of
  its depth-first search satisfy the laws of \<open>dfs_numbering\<close>, the rounds compute
  semidominators and immediate dominators, and the tree it builds decides dominance.
\<close>

section \<open>The depth-first search\<close>

definition num :: "ltState \<Rightarrow> node \<Rightarrow> nat" where
  "num st v = nat (pre (dom_info (the (map_of (lt_blocks st) v))))"

definition vert :: "ltState \<Rightarrow> nat \<Rightarrow> node" where
  "vert st k = the (preorder st ! k)"

definition parn :: "CFG \<Rightarrow> ltState \<Rightarrow> nat \<Rightarrow> nat" where
  "parn c st k = num st (the (parent st ! ix c (vert st k)))"

text \<open>The construction changes nothing but the dominance information of blocks.\<close>

definition undom :: "Block \<Rightarrow> Block" where
  "undom b = b\<lparr>dom_info := zero_domInfo\<rparr>"

definition upto_dom :: "blocks \<Rightarrow> blocks \<Rightarrow> bool" where
  "upto_dom m m' \<longleftrightarrow> (\<forall>v. map_option undom (map_of m' v) = map_option undom (map_of m v))"

lemma upto_dom_set_dom: "upto_dom m m' \<Longrightarrow> upto_dom m (set_dom v f m')"
proof -
  have "map_option undom (map_of (set_dom v f m') w) = map_option undom (map_of m' w)" for w
    by (cases "map_of m' w") (auto simp: undom_def)
  then show "upto_dom m m' \<Longrightarrow> upto_dom m (set_dom v f m')" by (simp add: upto_dom_def)
qed

text \<open>The first \<open>i\<close> numbers are given to the blocks met so far.\<close>

definition dfs_inv :: "CFG \<Rightarrow> nat \<Rightarrow> ltState \<Rightarrow> bool" where
  "dfs_inv c i st \<longleftrightarrow> dfs_ok c i st \<and> upto_dom (Blocks c) (lt_blocks st) \<and>
     (\<forall>v \<in> set (BlockSlice c). children (dom_info (the (map_of (lt_blocks st) v))) = [] \<and>
        idom (dom_info (the (map_of (lt_blocks st) v))) = None) \<and>
     (\<forall>k < i. \<exists>v \<in> met c st. preorder st ! k = Some v \<and> pre (dom_info (the (map_of (lt_blocks st) v))) = int k) \<and>
     (\<forall>v \<in> met c st. num st v < i \<and> preorder st ! num st v = Some v \<and>
        sdom st ! ix c v = Some v \<and> ancestor st ! ix c v = None)"

lemma dfs_invD:
  assumes "dfs_inv c i st"
  shows "dfs_ok c i st" "k < i \<Longrightarrow> preorder st ! k = Some (vert st k)" "k < i \<Longrightarrow> vert st k \<in> met c st"
    "k < i \<Longrightarrow> num st (vert st k) = k" "v \<in> met c st \<Longrightarrow> num st v < i" "v \<in> met c st \<Longrightarrow> vert st (num st v) = v"
    "v \<in> met c st \<Longrightarrow> sdom st ! ix c v = Some v" "v \<in> met c st \<Longrightarrow> ancestor st ! ix c v = None"
  using assms by (auto simp: dfs_inv_def vert_def num_def)

definition dfs_ext :: "CFG \<Rightarrow> nat \<Rightarrow> ltState \<Rightarrow> nat \<Rightarrow> ltState \<Rightarrow> bool" where
  "dfs_ext c i st j st' \<longleftrightarrow> i \<le> j \<and> dfs_inv c j st' \<and> met c st \<subseteq> met c st' \<and>
     (\<forall>k < i. preorder st' ! k = preorder st ! k) \<and> (\<forall>v \<in> met c st. parent st' ! ix c v = parent st ! ix c v)"

lemma dfs_ext_refl: "dfs_inv c i st \<Longrightarrow> dfs_ext c i st i st"
  by (simp add: dfs_ext_def)

lemma dfs_ext_trans:
  assumes "dfs_ext c i st j st1" "dfs_ext c j st1 l st2"
  shows "dfs_ext c i st l st2"
  using assms unfolding dfs_ext_def by (metis (no_types, lifting) order_trans less_le_trans subsetD)

lemma dfs_extD:
  assumes "dfs_ext c i st j st'" and "dfs_inv c i st"
  shows "i \<le> j" "dfs_inv c j st'" "met c st \<subseteq> met c st'" "k < i \<Longrightarrow> vert st' k = vert st k"
    "v \<in> met c st \<Longrightarrow> num st' v = num st v" "v \<in> met c st \<Longrightarrow> parent st' ! ix c v = parent st ! ix c v"
proof -
  show e: "i \<le> j" "dfs_inv c j st'" "met c st \<subseteq> met c st'" "k < i \<Longrightarrow> vert st' k = vert st k" for k
    using assms(1) by (auto simp: dfs_ext_def vert_def)
  show "parent st' ! ix c v = parent st ! ix c v" if "v \<in> met c st" using assms(1) that by (simp add: dfs_ext_def)
  show "num st' v = num st v" if v: "v \<in> met c st"
  proof -
    note k = dfs_invD(5,6) [OF assms(2) v]
    then have "vert st' (num st v) = v" "num st v < j" using e(1) e(4) [OF k(1)] by simp_all
    then show ?thesis using dfs_invD(4) [OF e(2), of "num st v"] by simp
  qed
qed

text \<open>
  How the numbers \<open>i, \<dots>, j - 1\<close> of finished blocks nest: those of a subtree are consecutive, and
  the successors of its root have numbers below its end. \<open>P\<close> is the parent, \<open>Q\<close> the successors.
\<close>

definition nested :: "(nat \<Rightarrow> nat) \<Rightarrow> (nat \<Rightarrow> nat set) \<Rightarrow> nat \<Rightarrow> nat \<Rightarrow> bool" where
  "nested P Q i j \<longleftrightarrow> (\<forall>k. i \<le> k \<longrightarrow> k < j \<longrightarrow> (\<exists>e. k < e \<and> e \<le> j \<and>
     (\<forall>m. k < m \<longrightarrow> m < e \<longrightarrow> k \<le> P m) \<and> (\<forall>m. e \<le> m \<longrightarrow> m < j \<longrightarrow> P m < k \<or> e \<le> P m) \<and> (\<forall>y \<in> Q k. y < e)))"

lemma nested_empty: "nested P Q i i"
  by (simp add: nested_def)

lemma nested_cong:
  assumes "\<And>m. i \<le> m \<Longrightarrow> m < j \<Longrightarrow> P' m = P m \<and> Q' m = Q m"
  shows "nested P' Q' i j = nested P Q i j"
proof -
  have one: "nested P' Q' i j" if n: "nested P Q i j" and c: "\<And>m. i \<le> m \<Longrightarrow> m < j \<Longrightarrow> P' m = P m \<and> Q' m = Q m"
    for P P' :: "nat \<Rightarrow> nat" and Q Q' :: "nat \<Rightarrow> nat set"
    unfolding nested_def
  proof (intro allI impI)
    fix k
    assume k: "i \<le> k" "k < j"
    then obtain e where e: "k < e" "e \<le> j" "\<forall>m. k < m \<longrightarrow> m < e \<longrightarrow> k \<le> P m"
      "\<forall>m. e \<le> m \<longrightarrow> m < j \<longrightarrow> P m < k \<or> e \<le> P m" "\<forall>y \<in> Q k. y < e" using n by (auto simp: nested_def)
    with k c show "\<exists>e. k < e \<and> e \<le> j \<and> (\<forall>m. k < m \<longrightarrow> m < e \<longrightarrow> k \<le> P' m) \<and>
      (\<forall>m. e \<le> m \<longrightarrow> m < j \<longrightarrow> P' m < k \<or> e \<le> P' m) \<and> (\<forall>y \<in> Q' k. y < e)"
      by (intro exI [of _ e]) auto
  qed
  show ?thesis
    using one [where P = P and Q = Q and P' = P' and Q' = Q'] one [where P = P' and Q = Q' and P' = P and Q' = Q] assms by auto
qed

lemma nested_append:
  assumes "nested P Q i j" "nested P Q j l" "b < i" "i \<le> j" "j \<le> l"
    and "\<And>m. j \<le> m \<Longrightarrow> m < l \<Longrightarrow> P m = b \<or> j \<le> P m"
  shows "nested P Q i l"
  unfolding nested_def
proof (intro allI impI)
  fix k
  assume k: "i \<le> k" "k < l"
  show "\<exists>e. k < e \<and> e \<le> l \<and> (\<forall>m. k < m \<longrightarrow> m < e \<longrightarrow> k \<le> P m) \<and>
      (\<forall>m. e \<le> m \<longrightarrow> m < l \<longrightarrow> P m < k \<or> e \<le> P m) \<and> (\<forall>y \<in> Q k. y < e)"
  proof (cases "k < j")
    case True
    then obtain e where e: "k < e" "e \<le> j" "\<forall>m. k < m \<longrightarrow> m < e \<longrightarrow> k \<le> P m"
      "\<forall>m. e \<le> m \<longrightarrow> m < j \<longrightarrow> P m < k \<or> e \<le> P m" "\<forall>y \<in> Q k. y < e" using k assms(1) by (auto simp: nested_def)
    have "P m < k \<or> e \<le> P m" if "e \<le> m" "m < l" for m
      using e(2,4) that assms(3) assms(6) [of m] k(1) by (cases "m < j") auto
    with e assms(5) show ?thesis by (intro exI [of _ e]) auto
  next
    case False
    with k assms(2) show ?thesis by (auto simp: nested_def)
  qed
qed

lemma nested_root:
  assumes "nested P Q (Suc i) j" "i < j" "\<And>m. i < m \<Longrightarrow> m < j \<Longrightarrow> i \<le> P m" "\<And>y. y \<in> Q i \<Longrightarrow> y < j"
  shows "nested P Q i j"
  unfolding nested_def
proof (intro allI impI)
  fix k
  assume k: "i \<le> k" "k < j"
  show "\<exists>e. k < e \<and> e \<le> j \<and> (\<forall>m. k < m \<longrightarrow> m < e \<longrightarrow> k \<le> P m) \<and>
      (\<forall>m. e \<le> m \<longrightarrow> m < j \<longrightarrow> P m < k \<or> e \<le> P m) \<and> (\<forall>y \<in> Q k. y < e)"
  proof (cases "k = i")
    case True
    with assms k show ?thesis by (intro exI [of _ j]) auto
  next
    case False
    with k assms(1) show ?thesis by (auto simp: nested_def)
  qed
qed

lemma ix_met_inject:
  assumes "numbered c" "v \<in> set (BlockSlice c)" "v \<notin> met c st" "w \<in> met c st"
  shows "ix c w \<noteq> ix c v"
proof -
  have "w \<in> set (BlockSlice c)" using assms(4) met_subset by blast
  then show ?thesis using ix_inject [OF assms(1) _ assms(2)] assms(3,4) by blast
qed

text \<open>Entering a block.\<close>

lemma dfs_inv_enter:
  assumes "numbered c" "dfs_inv c i st" "v \<in> set (BlockSlice c)" "v \<notin> met c st"
  obtains st' where
    "\<And>depth. dfs (Suc depth) v i st =
       foldR (\<lambda>(i, st) w. rbind (lt_at sdom st w) (\<lambda>s.
           if s = None then rbind (set_parent w (Some v) st) (dfs depth (the w) i) else Inr (i, st)))
         (i + 1, st') (map Some (Succs (block_at c v)))"
    "dfs_ext c i st (i + 1) st'" "met c st' = insert v (met c st)" "vert st' i = v" "parent st' = parent st"
proof -
  let ?n = "length (BlockSlice c)"
  have dok: "dfs_ok c i st" using assms(2) by (simp add: dfs_inv_def)
  have sg: "same_graph c (lt_blocks st)" using dok by (simp add: dfs_ok_def)
  obtain b where b: "map_of (lt_blocks st) v = Some b" "index_of b = ix c v" "SuccBs b = SuccBs (block_at c v)"
    by (rule same_graphD [OF sg assms(3)])
  have i: "i = card (met c st)" "i < ?n" using dok met_less [OF assms(1,3,4)] by (auto simp: dfs_ok_def)
  have v: "ix c v < ?n" using numberedD(1) [OF assms(1,3)] .
  let ?m = "set_dom v (\<lambda>d. d\<lparr>pre := int i\<rparr>) (lt_blocks st)"
  let ?st = "st\<lparr>preorder := (preorder st)[i := Some v], lt_blocks := ?m, sdom := (sdom st)[ix c v := Some v],
    ancestor := (ancestor st)[ix c v := None]\<rparr>"
  have len: "length (sdom st) = ?n" "length (parent st) = ?n" "length (ancestor st) = ?n" "length (preorder st) = ?n"
    using dok by (auto simp: dfs_ok_def)
  have m: "map_of ?m v = Some (b\<lparr>dom_info := (dom_info b)\<lparr>pre := int i\<rparr>\<rparr>)" using b by simp
  have ib: "index_of (b\<lparr>dom_info := (dom_info b)\<lparr>pre := int i\<rparr>\<rparr>) = ix c v" using b by (simp add: index_of_def)
  have run: "dfs (Suc depth) v i st =
       foldR (\<lambda>(i, st) w. rbind (lt_at sdom st w) (\<lambda>s.
           if s = None then rbind (set_parent w (Some v) st) (dfs depth (the w) i) else Inr (i, st)))
         (i + 1, ?st) (map Some (Succs (block_at c v)))" for depth
    using b i v len m ib numberedD(3) [OF assms(1,3)]
    by (simp add: Block_of_def set_sdom_def link_def Let_def)
  have inj: "ix c w \<noteq> ix c v" if "w \<in> met c st" for w
    using ix_met_inject [OF assms(1,3,4) that] .
  have met: "met c ?st = insert v (met c st)"
    using ix_inject [OF assms(1,3)] v len assms(3) by (auto simp: met_def nth_list_update)
  have ok: "dfs_ok c (i + 1) ?st"
    using dok assms(4) len met i same_graph_set_dom by (auto simp: dfs_ok_def)
  have nu: "num ?st w = (if w = v then i else num st w)" if "w \<in> met c ?st" for w
  proof -
    have "w \<in> set (BlockSlice c)" using that met_subset by blast
    then obtain b' where "map_of (lt_blocks st) w = Some b'" by (rule same_graphD [OF sg])
    then show ?thesis by (auto simp: num_def)
  qed
  have "dfs_inv c (i + 1) ?st"
    unfolding dfs_inv_def
  proof (intro conjI ok allI impI ballI)
    show "upto_dom (Blocks c) (lt_blocks ?st)" using assms(2) upto_dom_set_dom by (simp add: dfs_inv_def)
    show "children (dom_info (the (map_of (lt_blocks ?st) w))) = []" "idom (dom_info (the (map_of (lt_blocks ?st) w))) = None"
      if w: "w \<in> set (BlockSlice c)" for w
    proof -
      obtain b' where "map_of (lt_blocks st) w = Some b'" by (rule same_graphD [OF sg w])
      moreover have "children (dom_info (the (map_of (lt_blocks st) w))) = []" "idom (dom_info (the (map_of (lt_blocks st) w))) = None"
        using assms(2) w by (simp_all add: dfs_inv_def)
      ultimately show "children (dom_info (the (map_of (lt_blocks ?st) w))) = []" "idom (dom_info (the (map_of (lt_blocks ?st) w))) = None"
        by auto
    qed
  next
    fix k
    assume k: "k < i + 1"
    show "\<exists>w\<in>met c ?st. preorder ?st ! k = Some w \<and> pre (dom_info (the (map_of (lt_blocks ?st) w))) = int k"
    proof (cases "k = i")
      case True
      with i len met m show ?thesis by (intro bexI [of _ v]) auto
    next
      case False
      then obtain w where w: "w \<in> met c st" "preorder st ! k = Some w" "pre (dom_info (the (map_of (lt_blocks st) w))) = int k"
        using assms(2) k unfolding dfs_inv_def by (metis less_antisym Suc_eq_plus1)
      then have "w \<in> set (BlockSlice c)" using met_subset by blast
      then obtain b' where "map_of (lt_blocks st) w = Some b'" by (rule same_graphD [OF sg])
      with w False met assms(4) show ?thesis by (intro bexI [of _ w]) auto
    qed
  next
    fix w
    assume w: "w \<in> met c ?st"
    have "num ?st w < i + 1 \<and> preorder ?st ! num ?st w = Some w"
    proof (cases "w = v")
      case True
      with nu [OF w] i len show ?thesis by simp
    next
      case False
      then have "w \<in> met c st" using w met by simp
      then have "num st w < i" "preorder st ! num st w = Some w" using assms(2) by (auto simp: dfs_inv_def)
      with nu [OF w] False show ?thesis by simp
    qed
    then show "num ?st w < i + 1" "preorder ?st ! num ?st w = Some w" by blast+
    show "sdom ?st ! ix c w = Some w" "ancestor ?st ! ix c w = None"
      using w met v len by (auto simp: dfs_invD(7,8) [OF assms(2)] inj [THEN not_sym])
  qed
  then have "dfs_ext c i st (i + 1) ?st" using met by (auto simp: dfs_ext_def)
  moreover have "vert ?st i = v" using i len by (simp add: vert_def)
  ultimately show thesis using that [OF run] met by simp
qed

lemma dfs_inv_parent:
  assumes "numbered c" "dfs_inv c i st" "w \<in> set (BlockSlice c)" "w \<notin> met c st"
  obtains st' where "set_parent (Some w) p st = Inr st'" "dfs_ext c i st i st'" "met c st' = met c st"
    "parent st' ! ix c w = p"
proof -
  have dok: "dfs_ok c i st" using assms(2) by (simp add: dfs_inv_def)
  then have sg: "same_graph c (lt_blocks st)" by (simp add: dfs_ok_def)
  obtain b where b: "map_of (lt_blocks st) w = Some b" "index_of b = ix c w"
    by (rule same_graphD [OF sg assms(3)])
  let ?st = "st\<lparr>parent := (parent st)[ix c w := p]\<rparr>"
  have w: "ix c w < length (parent st)" using dok numberedD(1) [OF assms(1,3)] by (simp add: dfs_ok_def)
  then have "set_parent (Some w) p st = Inr ?st"
    using b by (simp add: set_parent_def Block_of_def)
  moreover have met: "met c ?st = met c st" by (simp add: met_def)
  moreover have "dfs_inv c i ?st" using assms(2) dok met by (auto simp: dfs_inv_def dfs_ok_def num_def)
  then have "dfs_ext c i st i ?st"
    using met by (auto simp: dfs_ext_def dest: ix_met_inject [OF assms(1,3,4)])
  ultimately show thesis using that w by simp
qed

text \<open>
  A call of \<open>dfs\<close> on \<open>v\<close>, or on some of the successors of the block with number \<open>b\<close>, with \<open>i\<close>
  numbers given before and \<open>j\<close> after.
\<close>

definition succn :: "CFG \<Rightarrow> ltState \<Rightarrow> nat \<Rightarrow> nat set" where
  "succn c st k = num st ` set (Succs (block_at c (vert st k)))"

definition grown :: "CFG \<Rightarrow> nat \<Rightarrow> nat \<Rightarrow> nat \<Rightarrow> ltState \<Rightarrow> nat \<Rightarrow> ltState \<Rightarrow> bool" where
  "grown c b i0 i st j st' \<longleftrightarrow> dfs_ext c i st j st' \<and>
     (\<forall>m. i0 \<le> m \<longrightarrow> m < j \<longrightarrow> (parn c st' m = b \<or> i \<le> parn c st' m) \<and> parn c st' m < m \<and>
        (\<exists>u \<in> met c st'. parent st' ! ix c (vert st' m) = Some u \<and> edge (Blocks c) u (vert st' m))) \<and>
     (\<forall>m. i \<le> m \<longrightarrow> m < j \<longrightarrow> set (Succs (block_at c (vert st' m))) \<subseteq> met c st') \<and>
     nested (parn c st') (succn c st') i j"

lemma parn_ext:
  assumes "dfs_ext c i st j st'" "dfs_inv c i st" "m < i"
    and "parent st ! ix c (vert st m) = Some u" "u \<in> met c st"
  shows "parn c st' m = parn c st m" "parent st' ! ix c (vert st' m) = Some u"
  using dfs_extD [OF assms(1,2)] assms dfs_invD(3) [OF assms(2,3)] by (auto simp: parn_def)

lemma succn_ext:
  assumes "dfs_ext c i st j st'" "dfs_inv c i st" "m < i" "set (Succs (block_at c (vert st m))) \<subseteq> met c st"
  shows "succn c st' m = succn c st m"
  unfolding succn_def dfs_extD(4) [OF assms(1,2,3)]
  by (rule image_cong [OF refl]) (use dfs_extD(5) [OF assms(1,2)] assms(4) in blast)

lemma grown_append:
  assumes "grown c b i i st j st1" "grown c b j j st1 l st2" "dfs_inv c i st" "b < i"
  shows "grown c b i i st l st2"
proof -
  have e: "dfs_ext c i st j st1" "dfs_ext c j st1 l st2" using assms(1,2) by (auto simp: grown_def)
  note e1 = dfs_extD [OF e(1) assms(3)]
  note e2 = dfs_extD [OF e(2) e1(2)]
  have old: "parn c st2 m = parn c st1 m" "\<exists>u \<in> met c st2. parent st2 ! ix c (vert st2 m) = Some u \<and> edge (Blocks c) u (vert st2 m)"
    "succn c st2 m = succn c st1 m" "set (Succs (block_at c (vert st2 m))) \<subseteq> met c st2"
    if m: "i \<le> m" "m < j" for m
  proof -
    obtain u where u: "u \<in> met c st1" "parent st1 ! ix c (vert st1 m) = Some u" "edge (Blocks c) u (vert st1 m)"
      using assms(1) m by (auto simp: grown_def)
    have s: "set (Succs (block_at c (vert st1 m))) \<subseteq> met c st1" using assms(1) m by (simp add: grown_def)
    show "parn c st2 m = parn c st1 m" using parn_ext(1) [OF e(2) e1(2) m(2) u(2,1)] .
    show "\<exists>u \<in> met c st2. parent st2 ! ix c (vert st2 m) = Some u \<and> edge (Blocks c) u (vert st2 m)"
      using parn_ext(2) [OF e(2) e1(2) m(2) u(2,1)] u(1,3) e2(3) e2(4) [OF m(2)] by auto
    show "succn c st2 m = succn c st1 m" using succn_ext [OF e(2) e1(2) m(2) s] .
    show "set (Succs (block_at c (vert st2 m))) \<subseteq> met c st2" using s e2(3) e2(4) [OF m(2)] by auto
  qed
  have new: "(parn c st2 m = b \<or> j \<le> parn c st2 m) \<and> parn c st2 m < m \<and>
      (\<exists>u \<in> met c st2. parent st2 ! ix c (vert st2 m) = Some u \<and> edge (Blocks c) u (vert st2 m))"
    "set (Succs (block_at c (vert st2 m))) \<subseteq> met c st2" if "j \<le> m" "m < l" for m
    using assms(2) that by (auto simp: grown_def)
  have all: "(parn c st2 m = b \<or> i \<le> parn c st2 m) \<and> parn c st2 m < m \<and>
      (\<exists>u \<in> met c st2. parent st2 ! ix c (vert st2 m) = Some u \<and> edge (Blocks c) u (vert st2 m)) \<and>
      set (Succs (block_at c (vert st2 m))) \<subseteq> met c st2" if m: "i \<le> m" "m < l" for m
  proof (cases "m < j")
    case True
    moreover from this have "(parn c st1 m = b \<or> i \<le> parn c st1 m) \<and> parn c st1 m < m"
      using assms(1) m(1) by (simp add: grown_def)
    ultimately show ?thesis using old [OF m(1)] by simp
  next
    case False
    with new [of m] m(2) e1(1) show ?thesis by auto
  qed
  have n1: "nested (parn c st2) (succn c st2) i j"
    using assms(1) nested_cong [of i j "parn c st2" "parn c st1" "succn c st2" "succn c st1"] old(1,3) by (simp add: grown_def)
  have n2: "nested (parn c st2) (succn c st2) j l" using assms(2) by (simp add: grown_def)
  have "parn c st2 m = b \<or> j \<le> parn c st2 m" if "j \<le> m" "m < l" for m using new(1) [OF that] by blast
  then have "nested (parn c st2) (succn c st2) i l" by (rule nested_append [OF n1 n2 assms(4) e1(1) e2(1)])
  with dfs_ext_trans [OF e] all show ?thesis by (simp add: grown_def)
qed

definition dfs_grows :: "CFG \<Rightarrow> nat \<Rightarrow> bool" where
  "dfs_grows c depth \<longleftrightarrow>
     (\<forall>v i st. dfs_inv c i st \<longrightarrow> v \<in> set (BlockSlice c) \<longrightarrow> v \<notin> met c st \<longrightarrow>
        card (set (BlockSlice c) - met c st) \<le> depth \<longrightarrow>
        (\<exists>j st'. dfs depth v i st = Inr (j, st') \<and> grown c i (Suc i) i st j st' \<and> v \<in> met c st' \<and>
           vert st' i = v \<and> i < j \<and> parent st' ! ix c v = parent st ! ix c v))"

lemma grown_refl: "dfs_inv c i st \<Longrightarrow> grown c b i i st i st"
  by (simp add: grown_def dfs_ext_refl nested_empty)

lemma dfs_child:
  assumes "numbered c" "dfs_grows c depth" "dfs_inv c i st" "v \<in> met c st" "edge (Blocks c) v w" "w \<in> set (BlockSlice c)"
    and "card (set (BlockSlice c) - met c st) \<le> depth"
  shows "\<exists>j st'. rbind (lt_at sdom st (Some w)) (\<lambda>s.
      if s = None then rbind (set_parent (Some w) (Some v) st) (dfs depth (the (Some w)) i) else Inr (i, st)) = Inr (j, st') \<and>
    grown c (num st v) i i st j st' \<and> w \<in> met c st'"
proof (cases "w \<in> met c st")
  case True
  then have "sdom st ! ix c w \<noteq> None" by (simp add: met_def)
  with True lt_at_sdom [OF assms(1) dfs_invD(1) [OF assms(3)] assms(6)] grown_refl [OF assms(3)] show ?thesis by auto
next
  case False
  then have none: "sdom st ! ix c w = None" using assms(6) by (simp add: met_def)
  obtain st0 where st0: "set_parent (Some w) (Some v) st = Inr st0" "dfs_ext c i st i st0" "met c st0 = met c st"
    "parent st0 ! ix c w = Some v"
    by (rule dfs_inv_parent [OF assms(1,3,6) False])
  note e0 = dfs_extD [OF st0(2) assms(3)]
  obtain j st' where r: "dfs depth w i st0 = Inr (j, st')" "grown c i (Suc i) i st0 j st'" "w \<in> met c st'"
    "vert st' i = w" "i < j" "parent st' ! ix c w = parent st0 ! ix c w"
    using assms(2,6,7) e0(2) st0(3) False unfolding dfs_grows_def by metis
  have e1: "dfs_ext c i st0 j st'" using r(2) by (simp add: grown_def)
  have n: "num st' v = num st v" using dfs_extD(5) [OF e1 e0(2)] e0(5) assms(4) st0(3) by simp
  have v: "v \<in> met c st'" using dfs_extD(3) [OF e1 e0(2)] st0(3) assms(4) by auto
  have root: "parn c st' i = num st v" using r(4,6) st0(4) n by (simp add: parn_def)
  have lt: "num st v < i" using dfs_invD(5) [OF assms(3,4)] .
  have "(parn c st' m = num st v \<or> i \<le> parn c st' m) \<and> parn c st' m < m \<and>
      (\<exists>u \<in> met c st'. parent st' ! ix c (vert st' m) = Some u \<and> edge (Blocks c) u (vert st' m))"
    if m: "i \<le> m" "m < j" for m
  proof (cases "m = i")
    case True
    with root lt r(4,6) st0(4) v assms(5) show ?thesis by auto
  next
    case False
    then have "Suc i \<le> m" using m(1) by simp
    then show ?thesis using r(2) m(2) unfolding grown_def by auto
  qed
  moreover have "dfs_ext c i st j st'" using dfs_ext_trans [OF st0(2) e1] .
  ultimately have "grown c (num st v) i i st j st'" using r(2) by (simp add: grown_def)
  moreover have "lt_at sdom st (Some w) = Inr None" using lt_at_sdom [OF assms(1) dfs_invD(1) [OF assms(3)] assms(6)] none by simp
  ultimately show ?thesis using r(1,3) st0(1) by auto
qed

lemma dfs_children:
  assumes "numbered c" "dfs_grows c depth" "v \<in> set (BlockSlice c)"
    and "dfs_inv c i st" "v \<in> met c st" "set ws \<subseteq> set (Succs (block_at c v))"
    and "card (set (BlockSlice c) - met c st) \<le> depth"
  shows "\<exists>j st'. foldR (\<lambda>(i, st) w. rbind (lt_at sdom st w) (\<lambda>s.
           if s = None then rbind (set_parent w (Some v) st) (dfs depth (the w) i) else Inr (i, st)))
         (i, st) (map Some ws) = Inr (j, st') \<and> grown c (num st v) i i st j st' \<and> set ws \<subseteq> met c st'"
  using assms(4-)
proof (induction ws arbitrary: i st)
  case Nil
  then show ?case by (simp add: grown_refl)
next
  case (Cons w ws)
  let ?f = "\<lambda>(i, st) w. rbind (lt_at sdom st w) (\<lambda>s.
           if s = None then rbind (set_parent w (Some v) st) (dfs depth (the w) i) else Inr (i, st))"
  have w: "edge (Blocks c) v w" "w \<in> set (BlockSlice c)"
    using Cons.prems(3) numberedD(4,5) [OF assms(1,3)] by auto
  obtain i1 st1 where 1: "?f (i, st) (Some w) = Inr (i1, st1)" "grown c (num st v) i i st i1 st1" "w \<in> met c st1"
    using dfs_child [OF assms(1,2) Cons.prems(1,2) w Cons.prems(4)] by auto
  note e1 = dfs_extD [OF _ Cons.prems(1), of i1 st1]
  have x1: "dfs_ext c i st i1 st1" using 1(2) by (simp add: grown_def)
  have v1: "v \<in> met c st1" "num st1 v = num st v" using e1(3,5) [OF x1] Cons.prems(2) by auto
  have "card (set (BlockSlice c) - met c st1) \<le> card (set (BlockSlice c) - met c st)"
    using e1(3) [OF x1] by (intro card_mono) auto
  then have d1: "card (set (BlockSlice c) - met c st1) \<le> depth" using Cons.prems(4) by simp
  obtain i2 st2 where 2: "foldR ?f (i1, st1) (map Some ws) = Inr (i2, st2)" "grown c (num st v) i1 i1 st1 i2 st2" "set ws \<subseteq> met c st2"
    using Cons.IH [OF e1(2) [OF x1] v1(1) _ d1] Cons.prems(3) v1(2) by auto
  have "grown c (num st v) i i st i2 st2"
    using grown_append [OF 1(2) 2(2) Cons.prems(1)] dfs_invD(5) [OF Cons.prems(1,2)] by blast
  moreover have "w \<in> met c st2"
    using 1(3) dfs_extD(3) [OF _ e1(2) [OF x1], of i2 st2] 2(2) by (auto simp: grown_def)
  ultimately show ?case using 1(1) 2(1,3) by auto
qed

lemma dfs_grows_all: "numbered c \<Longrightarrow> dfs_grows c depth"
proof (induction depth)
  case 0
  show ?case unfolding dfs_grows_def by auto
next
  case (Suc depth)
  show ?case
    unfolding dfs_grows_def
  proof (intro allI impI)
    fix v i st
    assume inv: "dfs_inv c i st" and v: "v \<in> set (BlockSlice c)" "v \<notin> met c st"
      and d: "card (set (BlockSlice c) - met c st) \<le> Suc depth"
    obtain st1 where run: "\<And>depth. dfs (Suc depth) v i st =
       foldR (\<lambda>(i, st) w. rbind (lt_at sdom st w) (\<lambda>s.
           if s = None then rbind (set_parent w (Some v) st) (dfs depth (the w) i) else Inr (i, st)))
         (i + 1, st1) (map Some (Succs (block_at c v)))"
      and x1: "dfs_ext c i st (i + 1) st1" and met1: "met c st1 = insert v (met c st)" and v1: "vert st1 i = v" "parent st1 = parent st"
      by (rule dfs_inv_enter [OF Suc.prems inv v]) blast
    note e1 = dfs_extD [OF x1 inv]
    have "set (BlockSlice c) - met c st1 = (set (BlockSlice c) - met c st) - {v}" using met1 by auto
    moreover have "v \<in> set (BlockSlice c) - met c st" using v by simp
    ultimately have "card (set (BlockSlice c) - met c st1) = card (set (BlockSlice c) - met c st) - 1"
      by (simp only: card_Diff_singleton)
    then have d1: "card (set (BlockSlice c) - met c st1) \<le> depth" using d by linarith
    have n1: "num st1 v = i" using dfs_invD(4) [OF e1(2), of i] v1(1) by simp
    have vm: "v \<in> met c st1" using met1 by simp
    obtain j st2 where 2: "dfs (Suc depth) v i st = Inr (j, st2)" "grown c i (i + 1) (i + 1) st1 j st2"
      "set (Succs (block_at c v)) \<subseteq> met c st2"
      using dfs_children [OF Suc.prems Suc.IH [OF Suc.prems] v(1) e1(2) vm subset_refl d1] n1 unfolding run by auto
    have x2: "dfs_ext c (i + 1) st1 j st2" using 2(2) by (simp add: grown_def)
    note e2 = dfs_extD [OF x2 e1(2)]
    have vi: "vert st2 i = v" using e2(4) [of i] v1(1) by simp
    have ij: "i < j" using e2(1) by simp
    have ps: "(parn c st2 m = i \<or> i + 1 \<le> parn c st2 m) \<and> parn c st2 m < m \<and>
        (\<exists>u \<in> met c st2. parent st2 ! ix c (vert st2 m) = Some u \<and> edge (Blocks c) u (vert st2 m)) \<and>
        set (Succs (block_at c (vert st2 m))) \<subseteq> met c st2" if "i + 1 \<le> m" "m < j" for m
      using 2(2) that by (simp add: grown_def)
    have "nested (parn c st2) (succn c st2) i j"
    proof (rule nested_root [OF _ ij])
      show "nested (parn c st2) (succn c st2) (Suc i) j" using 2(2) by (simp add: grown_def)
      show "i \<le> parn c st2 m" if "i < m" "m < j" for m using ps [of m] that by auto
      show "y < j" if "y \<in> succn c st2 i" for y
        using that 2(3) vi dfs_invD(5) [OF e2(2)] by (auto simp: succn_def)
    qed
    moreover have "set (Succs (block_at c (vert st2 m))) \<subseteq> met c st2" if "i \<le> m" "m < j" for m
      using ps [of m] that 2(3) vi by (cases "m = i") auto
    moreover have "dfs_ext c i st j st2" using dfs_ext_trans [OF x1 x2] .
    moreover have "(parn c st2 m = i \<or> i \<le> parn c st2 m) \<and> parn c st2 m < m \<and>
        (\<exists>u \<in> met c st2. parent st2 ! ix c (vert st2 m) = Some u \<and> edge (Blocks c) u (vert st2 m))"
      if "Suc i \<le> m" "m < j" for m using ps [of m] that by auto
    ultimately have "grown c i (Suc i) i st j st2" by (simp add: grown_def)
    moreover have "v \<in> met c st2" "parent st2 ! ix c v = parent st ! ix c v"
      using e2(3,6) vm v1(2) by auto
    ultimately show "\<exists>j st'. dfs (Suc depth) v i st = Inr (j, st') \<and> grown c i (Suc i) i st j st' \<and> v \<in> met c st' \<and>
        vert st' i = v \<and> i < j \<and> parent st' ! ix c v = parent st ! ix c v"
      using 2(1) vi ij by blast
  qed
qed

section \<open>The numbering of a search that met all blocks\<close>

definition spanned :: "CFG \<Rightarrow> ltState \<Rightarrow> bool" where
  "spanned c st \<longleftrightarrow> numbered c \<and> dfs_inv c (length (BlockSlice c)) st \<and> met c st = set (BlockSlice c) \<and>
     vert st 0 = BlockSlice c ! 0 \<and>
     (\<forall>m. 0 < m \<longrightarrow> m < length (BlockSlice c) \<longrightarrow> parn c st m < m \<and>
        (\<exists>u \<in> met c st. parent st ! ix c (vert st m) = Some u \<and> edge (Blocks c) u (vert st m))) \<and>
     nested (parn c st) (succn c st) 0 (length (BlockSlice c))"

lemma dfs_spans:
  assumes "numbered c" "length (BlockSlice c) \<le> depth"
    and all: "\<And>v. v \<in> set (BlockSlice c) \<Longrightarrow> (edge (Blocks c))\<^sup>*\<^sup>* (BlockSlice c ! 0) v"
  shows "\<exists>st. dfs depth (BlockSlice c ! 0) 0 (lt_start c) = Inr (length (BlockSlice c), st) \<and> spanned c st"
proof -
  let ?r = "BlockSlice c ! 0" and ?st = "lt_start c"
  note s = lt_start_ok [OF assms(1)]
  have "upto_dom (Blocks c) (lt_blocks ?st)"
    by (auto simp: upto_dom_def lt_start_def Let_def map_of_fold_set_dom undom_def option.map_comp comp_def intro!: option.map_cong0)
  moreover have "children (dom_info (the (map_of (lt_blocks ?st) v))) = [] \<and> idom (dom_info (the (map_of (lt_blocks ?st) v))) = None"
    if v: "v \<in> set (BlockSlice c)" for v
  proof -
    obtain b where "map_of (Blocks c) v = Some b" using assms(1) v by (auto simp: numbered_def)
    with v show ?thesis by (simp add: lt_start_def Let_def map_of_fold_set_dom zero_domInfo_def)
  qed
  ultimately have inv: "dfs_inv c 0 ?st" using s by (simp add: dfs_inv_def)
  have r: "?r \<in> set (BlockSlice c)" using assms(1) by (simp add: numbered_def)
  have "card (set (BlockSlice c) - met c ?st) \<le> depth"
    using assms(2) card_length [of "BlockSlice c"] by (simp add: s)
  then obtain j st where j: "dfs depth ?r 0 ?st = Inr (j, st)" "grown c 0 (Suc 0) 0 ?st j st" "?r \<in> met c st" "vert st 0 = ?r"
    using dfs_grows_all [OF assms(1), of depth] inv r s(2) unfolding dfs_grows_def by (metis empty_iff)
  have e: "dfs_inv c j st" using j(2) by (simp add: grown_def dfs_ext_def)
  have "v \<in> met c st" if "(edge (Blocks c))\<^sup>*\<^sup>* ?r v" for v
    using that
  proof (induction rule: rtranclp_induct)
    case (step y z)
    have "y \<in> set (BlockSlice c)" using step.IH met_subset by blast
    then have "z \<in> set (Succs (block_at c y))" using step.hyps(2) numberedD(5) [OF assms(1)] by simp
    moreover have "num st y < j" "vert st (num st y) = y" using dfs_invD(5,6) [OF e step.IH] by auto
    then have "set (Succs (block_at c y)) \<subseteq> met c st" using j(2) unfolding grown_def by (metis le0)
    ultimately show ?case by blast
  qed (rule j(3))
  then have met: "met c st = set (BlockSlice c)" using all met_subset by blast
  have "j = card (met c st)" using dfs_invD(1) [OF e] by (simp add: dfs_ok_def)
  also have "\<dots> = length (BlockSlice c)" using assms(1) met by (simp add: numbered_def distinct_card)
  finally show ?thesis using j e met assms(1) by (auto simp: spanned_def grown_def)
qed

definition tree_size :: "CFG \<Rightarrow> ltState \<Rightarrow> nat" where
  "tree_size c st = (if spanned c st then length (BlockSlice c) else 0)"

definition edgen :: "CFG \<Rightarrow> ltState \<Rightarrow> nat \<Rightarrow> nat \<Rightarrow> bool" where
  "edgen c st a b \<longleftrightarrow> a < tree_size c st \<and> b < tree_size c st \<and> edge (Blocks c) (vert st a) (vert st b)"

lemma spannedD:
  assumes "spanned c st" and "k < length (BlockSlice c)"
  shows "vert st k \<in> set (BlockSlice c)" "num st (vert st k) = k" "preorder st ! k = Some (vert st k)"
    "0 < k \<Longrightarrow> parn c st k < k" "0 < k \<Longrightarrow> parent st ! ix c (vert st k) = Some (vert st (parn c st k))"
    "0 < k \<Longrightarrow> edge (Blocks c) (vert st (parn c st k)) (vert st k)"
proof -
  have inv: "dfs_inv c (length (BlockSlice c)) st" "met c st = set (BlockSlice c)" using assms(1) by (auto simp: spanned_def)
  show "vert st k \<in> set (BlockSlice c)" "num st (vert st k) = k" "preorder st ! k = Some (vert st k)"
    using dfs_invD(2,3,4) [OF inv(1) assms(2)] inv(2) by auto
  assume k: "0 < k"
  then show "parn c st k < k" using assms by (simp add: spanned_def)
  obtain u where u: "u \<in> met c st" "parent st ! ix c (vert st k) = Some u" "edge (Blocks c) u (vert st k)"
    using assms k unfolding spanned_def by blast
  then have "vert st (parn c st k) = u" using dfs_invD(6) [OF inv(1)] by (simp add: parn_def)
  with u show "parent st ! ix c (vert st k) = Some (vert st (parn c st k))"
    "edge (Blocks c) (vert st (parn c st k)) (vert st k)" by auto
qed

lemma vert_num:
  assumes "spanned c st" "v \<in> set (BlockSlice c)"
  shows "num st v < length (BlockSlice c)" "vert st (num st v) = v"
proof -
  have "dfs_inv c (length (BlockSlice c)) st" "v \<in> met c st" using assms by (simp_all add: spanned_def)
  then show "num st v < length (BlockSlice c)" "vert st (num st v) = v" by (fact dfs_invD)+
qed

text \<open>The subtree of \<open>k\<close> is an interval of numbers that holds all greater successors of \<open>k\<close>.\<close>

lemma nested_anc:
  assumes "nested P Q 0 n" "k < n" "\<And>m. 0 < m \<Longrightarrow> m < n \<Longrightarrow> P m < m"
  shows "\<exists>e. k < e \<and> e \<le> n \<and> (\<forall>m. k \<le> m \<longrightarrow> m < n \<longrightarrow> anc P k m \<longleftrightarrow> m < e) \<and> (\<forall>y \<in> Q k. y < e)"
proof -
  obtain e where e: "k < e" "e \<le> n" "\<forall>m. k < m \<longrightarrow> m < e \<longrightarrow> k \<le> P m" "\<forall>m. e \<le> m \<longrightarrow> m < n \<longrightarrow> P m < k \<or> e \<le> P m"
    "\<forall>y \<in> Q k. y < e" using assms(1,2) by (auto simp: nested_def)
  have le: "anc P k m \<Longrightarrow> m < n \<Longrightarrow> k \<le> m" for m
  proof (induction rule: anc.induct)
    case (anc_step u v)
    with assms(3) [of v] show ?case by simp
  qed simp
  have up: "k \<le> m \<Longrightarrow> m < e \<Longrightarrow> anc P k m" for m
  proof (induction m rule: less_induct)
    case (less m)
    show ?case
    proof (cases "m = k")
      case False
      with less.prems e(2,3) assms(3) [of m] have "k \<le> P m" "P m < m" by auto
      with less False show ?thesis by (auto intro: anc_step)
    qed (simp add: anc_refl)
  qed
  have down: "anc P k m \<Longrightarrow> m < n \<Longrightarrow> m < e" for m
  proof (induction m rule: less_induct)
    case (less m)
    show ?case
    proof (rule ccontr)
      assume m: "\<not> m < e"
      then have "m \<noteq> k" "0 < m" using e(1) by auto
      then have p: "anc P k (P m)" "P m < m" using less.prems assms(3) by (auto elim: anc.cases)
      then have "P m < e" "k \<le> P m" using less le by auto
      with e(4) m less.prems show False by (metis leD leI)
    qed
  qed
  have "\<forall>m. k \<le> m \<longrightarrow> m < n \<longrightarrow> anc P k m \<longleftrightarrow> m < e" using up down by blast
  with e show ?thesis by blast
qed

interpretation lt: dfs_numbering "tree_size c st" "edgen c st" "parn c st" for c st
proof
  fix x y
  show "edgen c st x y \<Longrightarrow> x < tree_size c st \<and> y < tree_size c st" by (simp add: edgen_def)
next
  fix v
  assume v: "0 < v" "v < tree_size c st"
  then have s: "spanned c st" "v < length (BlockSlice c)" by (auto simp: tree_size_def split: if_splits)
  show "parn c st v < v" using spannedD(4) [OF s v(1)] .
  then show "edgen c st (parn c st v) v" using spannedD(6) [OF s v(1)] v(2) by (simp add: edgen_def)
next
  fix x y
  assume e: "edgen c st x y" "x < y"
  then have s: "spanned c st" "x < length (BlockSlice c)" "y < length (BlockSlice c)"
    by (auto simp: edgen_def tree_size_def split: if_splits)
  have "vert st y \<in> set (Succs (block_at c (vert st x)))"
    using e(1) numberedD(5) [of c "vert st x"] spannedD(1) [OF s(1,2)] s(1) by (auto simp: edgen_def spanned_def)
  then have "y \<in> succn c st x" using spannedD(2) [OF s(1,3)] by (force simp: succn_def)
  moreover obtain m where "\<forall>z. x \<le> z \<longrightarrow> z < length (BlockSlice c) \<longrightarrow> anc (parn c st) x z \<longleftrightarrow> z < m" "\<forall>y \<in> succn c st x. y < m"
    using nested_anc [OF _ s(2), of "parn c st" "succn c st"] s(1) unfolding spanned_def by blast
  ultimately show "anc (parn c st) x y" using e(2) s(3) by auto
next
  fix u x y
  assume a: "anc (parn c st) u x" "x < tree_size c st" "u \<le> y" "y \<le> x"
  then have s: "spanned c st" "x < length (BlockSlice c)" "u < length (BlockSlice c)"
    by (auto simp: tree_size_def split: if_splits)
  obtain m where "\<forall>z. u \<le> z \<longrightarrow> z < length (BlockSlice c) \<longrightarrow> anc (parn c st) u z \<longleftrightarrow> z < m"
    using nested_anc [OF _ s(3), of "parn c st" "succn c st"] s(1) unfolding spanned_def by blast
  with a s show "anc (parn c st) u y" by auto
qed

end
