(* ===== verification/Dom_Rounds.thy ===== *)
theory Dom_Rounds
  imports Dom_Tree
begin

text \<open>
  The rounds of \<open>BuildDomTree\<close> on a graph whose blocks were all met by its search. \<open>t\<close> is the state
  after the search, which fixes the numbers of blocks; \<open>s\<close> is the current state.
\<close>

section \<open>Reading and writing the arrays by number\<close>

abbreviation blk :: "ltState \<Rightarrow> node \<Rightarrow> Block" where
  "blk s v \<equiv> the (map_of (lt_blocks s) v)"

definition lt_frame :: "CFG \<Rightarrow> ltState \<Rightarrow> ltState \<Rightarrow> bool" where
  "lt_frame c t s \<longleftrightarrow> preorder s = preorder t \<and> parent s = parent t \<and>
     length (sdom s) = length (BlockSlice c) \<and> length (ancestor s) = length (BlockSlice c) \<and>
     length (buckets s) = length (BlockSlice c) \<and> upto_dom (Blocks c) (lt_blocks s) \<and>
     (\<forall>v \<in> set (BlockSlice c). pre (dom_info (blk s v)) = pre (dom_info (blk t v)))"

lemma upto_dom_block:
  assumes "upto_dom m m'" "map_of m v = Some b"
  shows "\<exists>b'. map_of m' v = Some b' \<and> undom b' = undom b"
proof -
  have "map_option undom (map_of m' v) = Some (undom b)" using assms by (simp add: upto_dom_def)
  then show ?thesis by auto
qed

lemma undom_fields:
  assumes "undom b' = undom b"
  shows "Index b' = Index b" "PredBs b' = PredBs b" "SuccBs b' = SuccBs b"
  using arg_cong [OF assms, of Index] arg_cong [OF assms, of PredBs] arg_cong [OF assms, of SuccBs] by (simp_all add: undom_def)

lemma frame_block:
  assumes "spanned c t" "lt_frame c t s" "k < length (BlockSlice c)"
  obtains b where "map_of (lt_blocks s) (vert t k) = Some b" "index_of b = ix c (vert t k)" "pre (dom_info b) = int k"
    "PredBs b = PredBs (block_at c (vert t k))"
proof -
  note V = spannedD [OF assms(1,3)]
  obtain b0 where b0: "map_of (Blocks c) (vert t k) = Some b0" using assms(1) V(1) by (auto simp: spanned_def numbered_def)
  obtain b where b: "map_of (lt_blocks s) (vert t k) = Some b" "undom b = undom b0"
    using upto_dom_block [OF _ b0] assms(2) unfolding lt_frame_def by blast
  have "dfs_inv c (length (BlockSlice c)) t" using assms(1) by (simp add: spanned_def)
  then have "preorder t ! k = Some (vert t k)" "pre (dom_info (blk t (vert t k))) = int k"
    using assms(3) V(3) unfolding dfs_inv_def by (metis option.inject)+
  then have "pre (dom_info b) = int k" using assms(2) V(1) b(1) unfolding lt_frame_def by (metis option.sel)
  then show thesis using that b(1) b0 undom_fields [OF b(2)] by (simp add: ix_def index_of_def)
qed

lemma ix_less: "spanned c t \<Longrightarrow> k < length (BlockSlice c) \<Longrightarrow> ix c (vert t k) < length (BlockSlice c)"
  using numberedD(1) spannedD(1) unfolding spanned_def by blast

lemma vert_eq:
  assumes "spanned c t" "k < length (BlockSlice c)" "l < length (BlockSlice c)"
  shows "vert t k = vert t l \<longleftrightarrow> k = l"
  using spannedD(2) [OF assms(1,2)] spannedD(2) [OF assms(1,3)] by metis

lemma ix_vert_eq:
  assumes "spanned c t" "k < length (BlockSlice c)" "l < length (BlockSlice c)"
  shows "ix c (vert t k) = ix c (vert t l) \<longleftrightarrow> k = l"
proof -
  have "numbered c" using assms(1) by (simp add: spanned_def)
  then show ?thesis using ix_inject spannedD(1) [OF assms(1,2)] spannedD(1) [OF assms(1,3)] vert_eq [OF assms] by blast
qed

lemma frame_ops:
  assumes "spanned c t" "lt_frame c t s" "k < length (BlockSlice c)"
  shows "length (arr s) = length (BlockSlice c) \<Longrightarrow> lt_at arr s (Some (vert t k)) = Inr (arr s ! ix c (vert t k))"
    "pre_of s (Some (vert t k)) = Inr (int k)"
    "set_sdom (Some (vert t k)) x s = Inr (s\<lparr>sdom := (sdom s)[ix c (vert t k) := x]\<rparr>)"
    "link x (Some (vert t k)) s = Inr (s\<lparr>ancestor := (ancestor s)[ix c (vert t k) := x]\<rparr>)"
    "set_idom (Some (vert t k)) x s = Inr (s\<lparr>lt_blocks := set_dom (vert t k) (\<lambda>i. i\<lparr>idom := x\<rparr>) (lt_blocks s)\<rparr>)"
    "bucket_after s (Some (vert t k)) = Inr (buckets s ! k)"
proof -
  obtain b where b: "map_of (lt_blocks s) (vert t k) = Some b" "index_of b = ix c (vert t k)" "pre (dom_info b) = int k"
    by (rule frame_block [OF assms])
  note i = ix_less [OF assms(1,3)]
  show "length (arr s) = length (BlockSlice c) \<Longrightarrow> lt_at arr s (Some (vert t k)) = Inr (arr s ! ix c (vert t k))"
    "pre_of s (Some (vert t k)) = Inr (int k)"
    "set_sdom (Some (vert t k)) x s = Inr (s\<lparr>sdom := (sdom s)[ix c (vert t k) := x]\<rparr>)"
    "link x (Some (vert t k)) s = Inr (s\<lparr>ancestor := (ancestor s)[ix c (vert t k) := x]\<rparr>)"
    "set_idom (Some (vert t k)) x s = Inr (s\<lparr>lt_blocks := set_dom (vert t k) (\<lambda>i. i\<lparr>idom := x\<rparr>) (lt_blocks s)\<rparr>)"
    "bucket_after s (Some (vert t k)) = Inr (buckets s ! k)"
    using b i assms(2,3)
    by (simp_all add: lt_at_def pre_of_def set_sdom_def link_def set_idom_def bucket_after_def Block_of_def lt_frame_def)
qed

text \<open>
  The semidominators recorded so far are \<open>f\<close>, the blocks with numbers above \<open>i\<close> are linked to
  their parents.
\<close>

definition lt_arrays :: "CFG \<Rightarrow> ltState \<Rightarrow> (nat \<Rightarrow> nat) \<Rightarrow> nat \<Rightarrow> ltState \<Rightarrow> bool" where
  "lt_arrays c t f i s \<longleftrightarrow> lt_frame c t s \<and> (\<forall>k < length (BlockSlice c).
     f k < length (BlockSlice c) \<and> sdom s ! ix c (vert t k) = Some (vert t (f k)) \<and>
     ancestor s ! ix c (vert t k) = (if i < k then Some (vert t (parn c t k)) else None))"

lemma arrays_ops:
  assumes "spanned c t" "lt_arrays c t f i s" "k < length (BlockSlice c)"
  shows "lt_at sdom s (Some (vert t k)) = Inr (Some (vert t (f k)))"
    "lt_at ancestor s (Some (vert t k)) = Inr (if i < k then Some (vert t (parn c t k)) else None)"
    "sdom_pre s (Some (vert t k)) = Inr (int (f k))"
proof -
  have f: "lt_frame c t s" "f k < length (BlockSlice c)" "sdom s ! ix c (vert t k) = Some (vert t (f k))"
    "ancestor s ! ix c (vert t k) = (if i < k then Some (vert t (parn c t k)) else None)"
    using assms(2,3) by (auto simp: lt_arrays_def)
  show s: "lt_at sdom s (Some (vert t k)) = Inr (Some (vert t (f k)))"
    and "lt_at ancestor s (Some (vert t k)) = Inr (if i < k then Some (vert t (parn c t k)) else None)"
    using frame_ops(1) [OF assms(1) f(1) assms(3)] f by (auto simp: lt_frame_def)
  show "sdom_pre s (Some (vert t k)) = Inr (int (f k))"
    using s frame_ops(2) [OF assms(1) f(1,2)] by (simp add: sdom_pre_def)
qed

text \<open>\<open>eval\<close> finds a linked ancestor with the least recorded semidominator.\<close>

lemma eval_loop_correct:
  assumes "spanned c t" "lt_arrays c t f i s" "v < length (BlockSlice c)" "u < length (BlockSlice c)"
  shows "\<exists>r < length (BlockSlice c). eval_loop s (Some (vert t v)) (Some (vert t u)) = Some (Inr (Some (vert t r))) \<and>
    (r = u \<or> anc (parn c t) r v \<and> i < r) \<and> f r \<le> f u \<and> (\<forall>x. anc (parn c t) x v \<longrightarrow> i < x \<longrightarrow> f r \<le> f x)"
  using assms(3,4)
proof (induction v arbitrary: u rule: less_induct)
  case (less v)
  note op = arrays_ops [OF assms(1,2) less.prems(1)]
  have size: "tree_size c t = length (BlockSlice c)" using assms(1) by (simp add: tree_size_def)
  show ?case
  proof (cases "i < v")
    case True
    let ?u = "if f v < f u then v else u"
    have p: "parn c t v < v" using spannedD(4) [OF assms(1) less.prems(1)] True by simp
    then have pn: "parn c t v < length (BlockSlice c)" "?u < length (BlockSlice c)" using less.prems by simp_all
    obtain r where r: "r < length (BlockSlice c)"
      "eval_loop s (Some (vert t (parn c t v))) (Some (vert t ?u)) = Some (Inr (Some (vert t r)))"
      "r = ?u \<or> anc (parn c t) r (parn c t v) \<and> i < r" "f r \<le> f ?u"
      "\<forall>x. anc (parn c t) x (parn c t v) \<longrightarrow> i < x \<longrightarrow> f r \<le> f x"
      using less.IH [OF p pn] by blast
    have "eval_loop s (Some (vert t v)) (Some (vert t u)) = Some (Inr (Some (vert t r)))"
      using op arrays_ops(3) [OF assms(1,2) less.prems(2)] True r(2)
      by (subst eval_loop.simps) (simp add: if_distrib)
    moreover have "r = u \<or> anc (parn c t) r v \<and> i < r"
      using r(3) True by (auto intro: anc_refl anc_step split: if_splits)
    moreover have "f r \<le> f u" "f r \<le> f v" using r(4) by (auto split: if_splits)
    moreover have "f r \<le> f x" if "anc (parn c t) x v" "i < x" for x
      using lt.anc_par [OF that(1)] that(2) r(5) \<open>f r \<le> f v\<close> by (cases "x = v") auto
    ultimately show ?thesis using r(1) by blast
  next
    case False
    have "eval_loop s (Some (vert t v)) (Some (vert t u)) = Some (Inr (Some (vert t u)))"
      using op(2) False by (subst eval_loop.simps) simp
    moreover have "\<not> i < x" if "anc (parn c t) x v" for x
      using lt.anc_le [OF that] less.prems(1) size False by simp
    ultimately show ?thesis using less.prems(2) by blast
  qed
qed

lemma eval_correct:
  assumes "spanned c t" "lt_arrays c t f i s" "v < length (BlockSlice c)"
  shows "\<exists>r < length (BlockSlice c). eval_lt s (Some (vert t v)) = Some (Inr (Some (vert t r))) \<and>
    (if v \<le> i then r = v else anc (parn c t) r v \<and> i < r \<and> (\<forall>x. anc (parn c t) x v \<longrightarrow> i < x \<longrightarrow> f r \<le> f x))"
proof -
  have size: "tree_size c t = length (BlockSlice c)" using assms(1) by (simp add: tree_size_def)
  obtain r where r: "r < length (BlockSlice c)" "eval_lt s (Some (vert t v)) = Some (Inr (Some (vert t r)))"
    "r = v \<or> anc (parn c t) r v \<and> i < r" "\<forall>x. anc (parn c t) x v \<longrightarrow> i < x \<longrightarrow> f r \<le> f x"
    using eval_loop_correct [OF assms assms(3)] unfolding eval_lt_def by blast
  have "v \<le> i \<Longrightarrow> r = v" using r(3) lt.anc_le [of c t r v] assms(3) size by auto
  with r show ?thesis by (cases "v \<le> i") (auto intro: anc_refl)
qed

section \<open>Buckets\<close>

text \<open>
  What \<open>idom\<close> of a block holds when its bucket has been emptied: the immediate dominator, or a
  block between it and the semidominator with the same immediate dominator.
\<close>

definition deferred :: "CFG \<Rightarrow> ltState \<Rightarrow> nat \<Rightarrow> nat \<Rightarrow> bool" where
  "deferred c t k d \<longleftrightarrow> d < k \<and> (d = semi (edgen c t) k \<and> imm_dom (edgen c t) k = d \<or>
     semi (edgen c t) k < d \<and> imm_dom (edgen c t) k = imm_dom (edgen c t) d)"

lemma deferred_eval:
  assumes "spanned c t" "0 < k" "k < length (BlockSlice c)" "anc (parn c t) u k" "semi (edgen c t) k < u"
    and least: "\<forall>x. anc (parn c t) x k \<longrightarrow> semi (edgen c t) k < x \<longrightarrow> semi (edgen c t) u \<le> semi (edgen c t) x"
  shows "deferred c t k (if semi (edgen c t) u < semi (edgen c t) k then u else semi (edgen c t) k)"
proof -
  let ?E = "edgen c t"
  have k: "k < tree_size c t" using assms(1,3) by (simp add: tree_size_def)
  have "u \<le> k" using lt.anc_le [OF assms(4) k] .
  show ?thesis
  proof (cases "semi ?E u < semi ?E k")
    case True
    then have "u \<noteq> k" by auto
    then have "u < k" using \<open>u \<le> k\<close> by simp
    moreover have "imm_dom ?E k = imm_dom ?E u"
      using least by (intro lt.imm_dom_relative [OF assms(2) k assms(4,5)]) blast
    ultimately show ?thesis using True assms(5) by (simp add: deferred_def)
  next
    case False
    have "imm_dom ?E k = semi ?E k"
    proof (rule lt.imm_dom_semi [OF assms(2) k])
      fix x
      assume "anc (parn c t) x k" "semi ?E k < x"
      then have "semi ?E u \<le> semi ?E x" using least by blast
      with False show "semi ?E k \<le> semi ?E x" by simp
    qed
    with False lt.semi_less [OF assms(2) k] show ?thesis by (simp add: deferred_def)
  qed
qed

text \<open>From \<open>s\<close> to \<open>s'\<close> only \<open>idom\<close> of the blocks \<open>K\<close> changes.\<close>

definition idom_at :: "ltState \<Rightarrow> ltState \<Rightarrow> nat \<Rightarrow> node option" where
  "idom_at t s k = idom (dom_info (blk s (vert t k)))"

definition bare :: "CFG \<Rightarrow> ltState \<Rightarrow> ltState \<Rightarrow> bool" where
  "bare c t s \<longleftrightarrow> (\<forall>v \<in> set (BlockSlice c). children (dom_info (blk s v)) = []) \<and> idom_at t s 0 = None"

definition idom_step_rel :: "CFG \<Rightarrow> ltState \<Rightarrow> nat set \<Rightarrow> ltState \<Rightarrow> ltState \<Rightarrow> bool" where
  "idom_step_rel c t K s s' \<longleftrightarrow> s' = s\<lparr>lt_blocks := lt_blocks s'\<rparr> \<and> lt_frame c t s' \<and> (0 \<notin> K \<longrightarrow> bare c t s \<longrightarrow> bare c t s') \<and>
     (\<forall>k < length (BlockSlice c). k \<notin> K \<longrightarrow> idom_at t s' k = idom_at t s k)"

lemma set_idom_rel:
  assumes "spanned c t" "lt_frame c t s" "k < length (BlockSlice c)"
    and s'_def: "s' = s\<lparr>lt_blocks := set_dom (vert t k) (\<lambda>i. i\<lparr>idom := x\<rparr>) (lt_blocks s)\<rparr>"
  shows "idom_step_rel c t {k} s s'" "idom_at t s' k = x"
proof -
  have ex: "\<exists>b. map_of (lt_blocks s) v = Some b" if "v \<in> set (BlockSlice c)" for v
    using frame_block [OF assms(1,2) vert_num(1) [OF assms(1) that]] vert_num(2) [OF assms(1) that] by metis
  have "pre (dom_info (blk s' v)) = pre (dom_info (blk s v)) \<and> children (dom_info (blk s' v)) = children (dom_info (blk s v)) \<and>
      idom (dom_info (blk s' v)) = (if v = vert t k then x else idom (dom_info (blk s v)))"
    if "v \<in> set (BlockSlice c)" for v
    using ex [OF that] by (auto simp: s'_def)
  note eq = this
  have "lt_frame c t s'"
    using assms(2) eq upto_dom_set_dom unfolding lt_frame_def by (auto simp: s'_def)
  moreover have other: "idom_at t s' l = idom_at t s l" if "l < length (BlockSlice c)" "l \<noteq> k" for l
    using eq [OF spannedD(1) [OF assms(1) that(1)]] vert_eq [OF assms(1) that(1) assms(3)] that(2) by (simp add: idom_at_def)
  moreover have "0 < length (BlockSlice c)" using assms(3) by linarith
  then have "bare c t s'" if "k \<noteq> 0" "bare c t s"
    using eq other [of 0] that by (simp add: bare_def)
  moreover have "s' = s\<lparr>lt_blocks := lt_blocks s'\<rparr>" by (simp add: s'_def)
  ultimately show "idom_step_rel c t {k} s s'" unfolding idom_step_rel_def by (metis singletonI)
  show "idom_at t s' k = x" using eq [OF spannedD(1) [OF assms(1,3)]] by (simp add: idom_at_def)
qed

lemma idom_rel_trans:
  "idom_step_rel c t K s s1 \<Longrightarrow> idom_step_rel c t L s1 s2 \<Longrightarrow> idom_step_rel c t (K \<union> L) s s2"
  unfolding idom_step_rel_def by (auto simp del: ltState.surjective) (metis ltState.surjective ltState.update_convs(1))+

lemma idom_rel_other:
  assumes "idom_step_rel c t K s s'"
  shows "k < length (BlockSlice c) \<Longrightarrow> k \<notin> K \<Longrightarrow> idom_at t s' k = idom_at t s k" "0 \<notin> K \<Longrightarrow> bare c t s \<Longrightarrow> bare c t s'"
  using assms unfolding idom_step_rel_def by blast+

lemma idom_rel_arrays:
  assumes "idom_step_rel c t K s s'"
  shows "lt_arrays c t f i s \<Longrightarrow> lt_arrays c t f i s'" "buckets s' = buckets s"
proof -
  have eq: "s' = s\<lparr>lt_blocks := lt_blocks s'\<rparr>" "lt_frame c t s'" using assms by (auto simp: idom_step_rel_def)
  show "buckets s' = buckets s" by (subst eq(1)) simp
  have "sdom s' = sdom s" "ancestor s' = ancestor s" by (subst eq(1), simp)+
  then show "lt_arrays c t f i s \<Longrightarrow> lt_arrays c t f i s'" using eq(2) by (simp add: lt_arrays_def)
qed

text \<open>The list that starts at \<open>v\<close> and ends at \<open>e\<close>, linked by \<open>buckets\<close>.\<close>

fun chain :: "ltState \<Rightarrow> ltState \<Rightarrow> nat \<Rightarrow> nat list \<Rightarrow> nat \<Rightarrow> bool" where
  "chain t s v [] e \<longleftrightarrow> v = e"
| "chain t s v (x # xs) e \<longleftrightarrow> v = x \<and> x \<noteq> e \<and> (\<exists>y. buckets s ! x = Some (vert t y) \<and> chain t s y xs e)"

lemma chain_cong:
  "(\<And>x. x \<in> set xs \<Longrightarrow> buckets s' ! x = buckets s ! x) \<Longrightarrow> chain t s' v xs e = chain t s v xs e"
  by (induction xs arbitrary: v) auto

definition semis :: "CFG \<Rightarrow> ltState \<Rightarrow> nat \<Rightarrow> nat \<Rightarrow> nat" where
  "semis c t i k = (if i < k then semi (edgen c t) k else k)"

lemma bucket_loop_correct:
  assumes "spanned c t" "lt_arrays c t (semis c t i) i s" "i < length (BlockSlice c)"
    and "chain t s v xs i" "distinct xs" "\<forall>x \<in> set xs. i < x \<and> x < length (BlockSlice c) \<and> semi (edgen c t) x = i"
  shows "\<exists>s'. bucket_loop i (Some (vert t i)) (Some (vert t v)) s = Some (Inr s') \<and> idom_step_rel c t (set xs) s s' \<and>
    (\<forall>x \<in> set xs. \<exists>d. idom_at t s' x = Some (vert t d) \<and> deferred c t x d)"
  using assms(2,4,5,6)
proof (induction xs arbitrary: v s)
  case Nil
  have "idom_step_rel c t {} s s" using Nil.prems(1) by (simp add: idom_step_rel_def lt_arrays_def)
  with Nil show ?case by (auto simp: bucket_loop.simps)
next
  case (Cons x xs)
  let ?E = "edgen c t"
  have x: "v = x" "x \<noteq> i" "i < x" "x < length (BlockSlice c)" "semi ?E x = i" using Cons.prems by auto
  obtain y where y: "buckets s ! x = Some (vert t y)" "chain t s y xs i" using Cons.prems(2) by auto
  have fr: "lt_frame c t s" using Cons.prems(1) by (simp add: lt_arrays_def)
  obtain r where r: "r < length (BlockSlice c)" "eval_lt s (Some (vert t x)) = Some (Inr (Some (vert t r)))"
    "anc (parn c t) r x" "i < r" "\<forall>z. anc (parn c t) z x \<longrightarrow> i < z \<longrightarrow> semis c t i r \<le> semis c t i z"
    using eval_correct [OF assms(1) Cons.prems(1) x(4)] x(3) by auto
  let ?d = "if semi ?E r < i then r else i"
  have least: "\<forall>z. anc (parn c t) z x \<longrightarrow> semi ?E x < z \<longrightarrow> semi ?E r \<le> semi ?E z"
    using r(4,5) x(5) by (auto simp: semis_def)
  have "0 < x" "semi ?E x < r" using x(3,5) r(4) by simp_all
  then have d: "deferred c t x ?d"
    using deferred_eval [OF assms(1) _ x(4) r(3) _ least] unfolding x(5) by blast
  have dn: "?d < length (BlockSlice c)" using r(1) assms(3) by simp
  let ?s1 = "s\<lparr>lt_blocks := set_dom (vert t x) (\<lambda>i. i\<lparr>idom := Some (vert t ?d)\<rparr>) (lt_blocks s)\<rparr>"
  note rel1 = set_idom_rel [OF assms(1) fr x(4) refl, of "Some (vert t ?d)"]
  have arr1: "lt_arrays c t (semis c t i) i ?s1" "buckets ?s1 = buckets s"
    using idom_rel_arrays [OF rel1(1)] Cons.prems(1) by auto
  have ne: "vert t x \<noteq> vert t i" using vert_eq [OF assms(1) x(4) assms(3)] x(2) by simp
  have "sdom_pre s (Some (vert t r)) = Inr (int (semi ?E r))"
    using arrays_ops(3) [OF assms(1) Cons.prems(1) r(1)] r(4) by (simp add: semis_def)
  then have "bucket_loop i (Some (vert t i)) (Some (vert t x)) s = bucket_loop i (Some (vert t i)) (Some (vert t y)) ?s1"
    using ne r(2) frame_ops(5) [OF assms(1) fr x(4), of "Some (vert t ?d)"] arr1
      frame_ops(6) [OF assms(1) _ x(4), of ?s1] y(1)
    by (subst bucket_loop.simps) (simp add: lt_arrays_def if_distrib)
  moreover obtain s' where s': "bucket_loop i (Some (vert t i)) (Some (vert t y)) ?s1 = Some (Inr s')"
    "idom_step_rel c t (set xs) ?s1 s'" "\<forall>x \<in> set xs. \<exists>d. idom_at t s' x = Some (vert t d) \<and> deferred c t x d"
    using Cons.IH [OF arr1(1), of y] Cons.prems(3,4) y(2) chain_cong [of xs ?s1 s t y i] arr1(2) by auto
  moreover have "idom_step_rel c t (set (x # xs)) s s'"
    using idom_rel_trans [OF rel1(1) s'(2)] by simp
  moreover have "idom_at t s' x = Some (vert t ?d)"
    using s'(2) x(4) Cons.prems(3) rel1(2) by (simp add: idom_step_rel_def)
  ultimately show ?case using x(1) d by auto
qed

section \<open>Semidominators of one round\<close>

lemma nth_update_vert:
  assumes "spanned c t" "i < length (BlockSlice c)" "k < length (BlockSlice c)" "length xs = length (BlockSlice c)"
  shows "xs[ix c (vert t i) := y] ! ix c (vert t k) = (if k = i then y else xs ! ix c (vert t k))"
  using ix_less [OF assms(1,2)] ix_vert_eq [OF assms(1-3)] assms(4) by auto

text \<open>Setting the semidominator of the block with number \<open>i\<close>.\<close>

lemma set_sdom_arrays:
  assumes "spanned c t" "lt_arrays c t f j s" "i < length (BlockSlice c)" "x < length (BlockSlice c)"
  shows "lt_arrays c t (f(i := x)) j (s\<lparr>sdom := (sdom s)[ix c (vert t i) := Some (vert t x)]\<rparr>)"
  using assms(2,4) by (simp add: lt_arrays_def lt_frame_def nth_update_vert [OF assms(1,3)])

text \<open>
  One predecessor \<open>v\<close> of the block with number \<open>i\<close>, whose recorded semidominator is \<open>x\<close>: it becomes
  the minimum of \<open>x\<close> and what \<open>v\<close> contributes.
\<close>

definition contributes :: "CFG \<Rightarrow> ltState \<Rightarrow> nat \<Rightarrow> nat \<Rightarrow> nat \<Rightarrow> bool" where
  "contributes c t i v y \<longleftrightarrow> v < i \<and> y = v \<or> (\<exists>x. i < x \<and> anc (parn c t) x v \<and> y = semi (edgen c t) x)"

lemma semi_step_correct:
  assumes "spanned c t" "lt_arrays c t ((semis c t i)(i := x)) i s" "0 < i" "i < length (BlockSlice c)"
    and "v < length (BlockSlice c)" "edgen c t v i" "semi (edgen c t) i \<le> x" "x < i"
  shows "\<exists>y. semi_step (Some (vert t i)) s (Some (vert t v)) = Some (Inr (s\<lparr>sdom := (sdom s)[ix c (vert t i) := Some (vert t y)]\<rparr>)) \<and>
    semi (edgen c t) i \<le> y \<and> y \<le> x \<and> (\<forall>z. contributes c t i v z \<longrightarrow> y \<le> z)"
proof -
  let ?E = "edgen c t" and ?f = "(semis c t i)(i := x)"
  have size: "tree_size c t = length (BlockSlice c)" using assms(1) by (simp add: tree_size_def)
  obtain r where r: "r < length (BlockSlice c)" "eval_lt s (Some (vert t v)) = Some (Inr (Some (vert t r)))"
    "if v \<le> i then r = v else anc (parn c t) r v \<and> i < r \<and> (\<forall>x. anc (parn c t) x v \<longrightarrow> i < x \<longrightarrow> ?f r \<le> ?f x)"
    using eval_correct [OF assms(1,2,5)] by blast
  let ?y = "min (?f r) x"
  have xi: "sdom s ! ix c (vert t i) = Some (vert t x)" using assms(2,4) by (simp add: lt_arrays_def)
  have fr: "lt_frame c t s" using assms(2) by (simp add: lt_arrays_def)
  have "semi_step (Some (vert t i)) s (Some (vert t v)) = Some (Inr (s\<lparr>sdom := (sdom s)[ix c (vert t i) := Some (vert t ?y)]\<rparr>))"
  proof (cases "?f r < x")
    case True
    then show ?thesis
      using r(2) arrays_ops(1,3) [OF assms(1,2) r(1)] arrays_ops(3) [OF assms(1,2,4)] frame_ops(3) [OF assms(1) fr assms(4)]
      by (simp add: semi_step_def min_def)
  next
    case False
    then have "s\<lparr>sdom := (sdom s)[ix c (vert t i) := Some (vert t ?y)]\<rparr> = s"
      using xi by (simp add: min_def list_update_same_conv ix_less [OF assms(1,4)] fr [unfolded lt_frame_def])
    with False show ?thesis
      using r(2) arrays_ops(3) [OF assms(1,2) r(1)] arrays_ops(3) [OF assms(1,2,4)] by (simp add: semi_step_def)
  qed
  moreover have "semi ?E i \<le> ?f r"
  proof (cases "v \<le> i")
    case True
    then consider "r = i" | "v < i" "r = v" using r(3) by (metis le_neq_implies_less)
    then show ?thesis
    proof cases
      case 2
      have "semi ?E i \<le> v" using assms(6) by (intro lt.semi_le) (simp add: semi_candidate_def)
      with 2 show ?thesis by (simp add: semis_def)
    qed (simp add: assms(7))
  next
    case False
    then have "anc (parn c t) r v" "i < r" using r(3) by auto
    then show ?thesis using lt.semi_le_linked [OF assms(6)] by (simp add: semis_def)
  qed
  moreover have "?y \<le> z" if z: "contributes c t i v z" for z
    using z unfolding contributes_def
  proof
    assume "v < i \<and> z = v"
    then show ?thesis using r(3) by (simp add: semis_def)
  next
    assume "\<exists>x. i < x \<and> anc (parn c t) x v \<and> z = semi ?E x"
    then obtain q where q: "i < q" "anc (parn c t) q v" "z = semi ?E q" by blast
    then have "q \<le> v" using lt.anc_le assms(5) size by simp
    with q r(3) have "?f r \<le> ?f q" by auto
    with q show ?thesis by (simp add: semis_def)
  qed
  ultimately show ?thesis using assms(7) by (intro exI [of _ ?y]) auto
qed

lemma semi_steps_correct:
  assumes "spanned c t" "0 < i" "i < length (BlockSlice c)"
    and "lt_arrays c t ((semis c t i)(i := x)) i s" "semi (edgen c t) i \<le> x" "x < i"
    and "\<forall>v \<in> set vs. v < length (BlockSlice c) \<and> edgen c t v i"
  shows "\<exists>y. gfold (semi_step (Some (vert t i))) s (map (\<lambda>v. Some (vert t v)) vs) =
      Some (Inr (s\<lparr>sdom := (sdom s)[ix c (vert t i) := Some (vert t y)]\<rparr>)) \<and>
    semi (edgen c t) i \<le> y \<and> y \<le> x \<and> (\<forall>v \<in> set vs. \<forall>z. contributes c t i v z \<longrightarrow> y \<le> z)"
  using assms(4-)
proof (induction vs arbitrary: s x)
  case Nil
  have "sdom s ! ix c (vert t i) = Some (vert t x)" using Nil.prems(1) assms(3) by (simp add: lt_arrays_def)
  then have "s\<lparr>sdom := (sdom s)[ix c (vert t i) := Some (vert t x)]\<rparr> = s" by (metis list_update_id ltState.surjective ltState.update_convs(2))
  with Nil.prems show ?case by (intro exI [of _ x]) simp
next
  case (Cons v vs)
  let ?upd = "\<lambda>s y. s\<lparr>sdom := (sdom s)[ix c (vert t i) := Some (vert t y)]\<rparr>"
  have v: "v < length (BlockSlice c)" "edgen c t v i" using Cons.prems(4) by auto
  obtain y where y: "semi_step (Some (vert t i)) s (Some (vert t v)) = Some (Inr (?upd s y))"
    "semi (edgen c t) i \<le> y" "y \<le> x" "\<forall>z. contributes c t i v z \<longrightarrow> y \<le> z"
    using semi_step_correct [OF assms(1) Cons.prems(1) assms(2,3) v Cons.prems(2,3)] by blast
  have "y < length (BlockSlice c)" using y(3) Cons.prems(3) assms(3) by simp
  from set_sdom_arrays [OF assms(1) Cons.prems(1) assms(3) this]
  have arr: "lt_arrays c t ((semis c t i)(i := y)) i (?upd s y)" by (simp only: fun_upd_upd)
  have "y < i" "\<forall>v \<in> set vs. v < length (BlockSlice c) \<and> edgen c t v i" using y(3) Cons.prems(3,4) by auto
  from Cons.IH [OF arr y(2) this] obtain z where z: "gfold (semi_step (Some (vert t i))) (?upd s y) (map (\<lambda>v. Some (vert t v)) vs) = Some (Inr (?upd (?upd s y) z))"
    "semi (edgen c t) i \<le> z" "z \<le> y" "\<forall>v \<in> set vs. \<forall>w. contributes c t i v w \<longrightarrow> z \<le> w"
    by blast
  have "gfold (semi_step (Some (vert t i))) s (map (\<lambda>v. Some (vert t v)) (v # vs)) = Some (Inr (?upd s z))"
    using y(1) z(1) by simp
  moreover have "\<forall>u \<in> set (v # vs). \<forall>w. contributes c t i u w \<longrightarrow> z \<le> w" using z(3,4) y(4) by (auto intro: order_trans)
  ultimately show ?case using z(2,3) y(3) by (intro exI [of _ z]) simp
qed

text \<open>The predecessor lists of the blocks agree with the edges.\<close>

definition linked :: "CFG \<Rightarrow> bool" where
  "linked c \<longleftrightarrow> (\<forall>v \<in> set (BlockSlice c). set (PredBs (block_at c v)) = Some ` {u. edge (Blocks c) u v} \<and>
     {u. edge (Blocks c) u v} \<subseteq> set (BlockSlice c))"

lemma preds_numbers:
  assumes "spanned c t" "linked c" "i < length (BlockSlice c)"
  shows "\<exists>vs. PredBs (block_at c (vert t i)) = map (\<lambda>v. Some (vert t v)) vs \<and>
    set vs = {v. v < length (BlockSlice c) \<and> edgen c t v i}"
proof -
  let ?ps = "PredBs (block_at c (vert t i))" and ?g = "\<lambda>p. num t (the p)"
  have size: "tree_size c t = length (BlockSlice c)" using assms(1) by (simp add: tree_size_def)
  have ps: "set ?ps = Some ` {u. edge (Blocks c) u (vert t i)}" "{u. edge (Blocks c) u (vert t i)} \<subseteq> set (BlockSlice c)"
    using assms(2) spannedD(1) [OF assms(1,3)] by (auto simp: linked_def)
  have "p = Some (vert t (?g p))" if "p \<in> set ?ps" for p
    using that ps vert_num(2) [OF assms(1)] by auto
  then have "?ps = map (\<lambda>v. Some (vert t v)) (map ?g ?ps)" by (simp add: map_idI comp_def)
  moreover have "set (map ?g ?ps) = {v. v < length (BlockSlice c) \<and> edgen c t v i}"
  proof -
    have "set (map ?g ?ps) = num t ` {u. edge (Blocks c) u (vert t i)}" using ps(1) by (simp add: image_image)
    also have "\<dots> = {v. v < length (BlockSlice c) \<and> edgen c t v i}"
    proof (intro set_eqI iffI)
      fix v
      assume "v \<in> num t ` {u. edge (Blocks c) u (vert t i)}"
      then obtain u where u: "v = num t u" "edge (Blocks c) u (vert t i)" by blast
      with ps(2) vert_num [OF assms(1), of u] show "v \<in> {v. v < length (BlockSlice c) \<and> edgen c t v i}"
        using assms(3) size by (auto simp: edgen_def)
    next
      fix v
      assume v: "v \<in> {v. v < length (BlockSlice c) \<and> edgen c t v i}"
      then show "v \<in> num t ` {u. edge (Blocks c) u (vert t i)}"
        using spannedD(2) [OF assms(1), of v] by (auto simp: edgen_def intro!: image_eqI [of v _ "vert t v"])
    qed
    finally show ?thesis .
  qed
  ultimately show ?thesis by blast
qed

lemma semi_round:
  assumes "spanned c t" "linked c" "0 < i" "i < length (BlockSlice c)"
    and "lt_arrays c t ((semis c t i)(i := parn c t i)) i s"
  shows "gfold (semi_step (Some (vert t i))) s (PredBs (block_at c (vert t i))) =
    Some (Inr (s\<lparr>sdom := (sdom s)[ix c (vert t i) := Some (vert t (semi (edgen c t) i))]\<rparr>))"
proof -
  let ?E = "edgen c t"
  have n: "i < tree_size c t" using assms(1,4) by (simp add: tree_size_def)
  obtain vs where vs: "PredBs (block_at c (vert t i)) = map (\<lambda>v. Some (vert t v)) vs"
    "set vs = {v. v < length (BlockSlice c) \<and> edgen c t v i}"
    using preds_numbers [OF assms(1,2,4)] by blast
  obtain y where y: "gfold (semi_step (Some (vert t i))) s (map (\<lambda>v. Some (vert t v)) vs) =
      Some (Inr (s\<lparr>sdom := (sdom s)[ix c (vert t i) := Some (vert t y)]\<rparr>))"
    "semi ?E i \<le> y" "y \<le> parn c t i" "\<forall>v \<in> set vs. \<forall>z. contributes c t i v z \<longrightarrow> y \<le> z"
    using semi_steps_correct [OF assms(1,3,4,5) lt.semi_less_par [OF assms(3) n] spannedD(4) [OF assms(1,4,3)], of vs] vs(2) by blast
  have "y \<le> semi ?E i"
    using lt.semi_met [OF assms(3) n]
  proof
    assume e: "?E (semi ?E i) i \<and> semi ?E i < i"
    then have "semi ?E i \<in> set vs" "contributes c t i (semi ?E i) (semi ?E i)"
      using vs(2) assms(1) by (auto simp: contributes_def edgen_def tree_size_def)
    with y(4) show ?thesis by blast
  next
    assume "\<exists>v x. ?E v i \<and> anc (parn c t) x v \<and> i < x \<and> semi ?E x = semi ?E i"
    then obtain v x where v: "?E v i" "anc (parn c t) x v" "i < x" "semi ?E x = semi ?E i" by blast
    then have "v \<in> set vs" "contributes c t i v (semi ?E i)"
      using vs(2) assms(1) by (auto simp: contributes_def edgen_def tree_size_def)
    with y(4) show ?thesis by blast
  qed
  with y(1,2) vs(1) show ?thesis by simp
qed

section \<open>One round\<close>

definition lt_buckets :: "CFG \<Rightarrow> ltState \<Rightarrow> nat \<Rightarrow> ltState \<Rightarrow> bool" where
  "lt_buckets c t i s \<longleftrightarrow> (\<forall>j \<le> i. \<exists>v xs. buckets s ! j = Some (vert t v) \<and> chain t s v xs j \<and> distinct xs \<and>
     set xs = {k. i < k \<and> k < length (BlockSlice c) \<and> semi (edgen c t) k = j \<and> parn c t k \<noteq> j})"

definition lt_idoms :: "CFG \<Rightarrow> ltState \<Rightarrow> nat \<Rightarrow> ltState \<Rightarrow> bool" where
  "lt_idoms c t i s \<longleftrightarrow> (\<forall>k. i < k \<longrightarrow> k < length (BlockSlice c) \<longrightarrow>
     parn c t k = semi (edgen c t) k \<or> i < semi (edgen c t) k \<longrightarrow>
     (\<exists>d. idom_at t s k = Some (vert t d) \<and> deferred c t k d))"

definition round_inv :: "CFG \<Rightarrow> ltState \<Rightarrow> nat \<Rightarrow> ltState \<Rightarrow> bool" where
  "round_inv c t i s \<longleftrightarrow> lt_arrays c t (semis c t i) i s \<and> bare c t s \<and> lt_buckets c t i s \<and> lt_idoms c t i s"

lemma parent_semi_deferred:
  assumes "spanned c t" "0 < i" "i < length (BlockSlice c)" "parn c t i = semi (edgen c t) i"
  shows "deferred c t i (semi (edgen c t) i)"
proof -
  have n: "i < tree_size c t" using assms(1,3) by (simp add: tree_size_def)
  have "imm_dom (edgen c t) i = semi (edgen c t) i"
  proof (rule lt.imm_dom_semi [OF assms(2) n])
    fix u
    assume u: "anc (parn c t) u i" "semi (edgen c t) i < u"
    have "u = i"
    proof (rule ccontr)
      assume "u \<noteq> i"
      then have "anc (parn c t) u (parn c t i)" by (rule lt.anc_par [OF u(1)])
      then have "u \<le> parn c t i" using lt.anc_le lt.par_less [OF assms(2) n] n by (meson less_trans)
      with u(2) assms(4) show False by simp
    qed
    then show "semi (edgen c t) i \<le> semi (edgen c t) u" by simp
  qed
  then show ?thesis using lt.semi_less [OF assms(2) n] by (simp add: deferred_def)
qed

lemma semis_pred: "0 < i \<Longrightarrow> semis c t (i - 1) = (semis c t i)(i := semi (edgen c t) i)"
  by (auto simp: semis_def fun_eq_iff)

lemma parent_at:
  assumes "spanned c t" "lt_frame c t s" "0 < k" "k < length (BlockSlice c)"
  shows "lt_at parent s (Some (vert t k)) = Inr (Some (vert t (parn c t k)))"
proof -
  have "length (parent t) = length (BlockSlice c)" using assms(1) by (simp add: spanned_def dfs_inv_def dfs_ok_def)
  moreover have "parent s = parent t" using assms(2) by (simp add: lt_frame_def)
  ultimately show ?thesis using frame_ops(1) [OF assms(1,2,4), of parent] spannedD(5) [OF assms(1,4,3)] by simp
qed

lemma link_arrays:
  assumes "spanned c t" "lt_arrays c t f i s" "0 < i" "i < length (BlockSlice c)"
  shows "lt_arrays c t f (i - 1) (s\<lparr>ancestor := (ancestor s)[ix c (vert t i) := Some (vert t (parn c t i))]\<rparr>)"
  using assms(2,3) by (auto simp: lt_arrays_def lt_frame_def nth_update_vert [OF assms(1,4)])

lemma lt_idoms_pred:
  assumes "\<forall>k. i < k \<longrightarrow> k < length (BlockSlice c) \<longrightarrow> parn c t k = semi (edgen c t) k \<or> i \<le> semi (edgen c t) k \<longrightarrow>
      (\<exists>d. idom_at t s k = Some (vert t d) \<and> deferred c t k d)"
    and "0 < i" "i < length (BlockSlice c)" "spanned c t"
    and "parn c t i = semi (edgen c t) i \<longrightarrow> (\<exists>d. idom_at t s i = Some (vert t d) \<and> deferred c t i d)"
  shows "lt_idoms c t (i - 1) s"
  unfolding lt_idoms_def
proof (intro allI impI)
  fix k
  assume k: "i - 1 < k" "k < length (BlockSlice c)" "parn c t k = semi (edgen c t) k \<or> i - 1 < semi (edgen c t) k"
  show "\<exists>d. idom_at t s k = Some (vert t d) \<and> deferred c t k d"
  proof (cases "k = i")
    case True
    have "semi (edgen c t) i < i" using lt.semi_less [OF assms(2)] assms(3,4) by (simp add: tree_size_def)
    with True k(3) assms(2) have "parn c t i = semi (edgen c t) i" by auto
    with assms(5) True show ?thesis by blast
  next
    case False
    with k assms(2) have "i < k" "parn c t k = semi (edgen c t) k \<or> i \<le> semi (edgen c t) k" by auto
    with assms(1) k(2) show ?thesis by blast
  qed
qed

lemma bucket_sets:
  fixes i n :: nat
  assumes "0 < i" "i < n"
  shows "{k. i - 1 < k \<and> k < n \<and> S k = j \<and> P k \<noteq> j} =
    {k. i < k \<and> k < n \<and> S k = j \<and> P k \<noteq> j} \<union> (if S i = j \<and> P i \<noteq> j then {i} else {})"
proof -
  have "i - 1 < k \<longleftrightarrow> k = i \<or> i < k" for k using assms(1) by auto
  then show ?thesis using assms(2) by auto
qed

lemma file_vertex_correct:
  assumes "spanned c t" "0 < i" "i < length (BlockSlice c)"
    and arr: "lt_arrays c t (semis c t (i - 1)) i s" and "bare c t s" and bk: "lt_buckets c t i s"
    and ids: "\<forall>k. i < k \<longrightarrow> k < length (BlockSlice c) \<longrightarrow> parn c t k = semi (edgen c t) k \<or> i \<le> semi (edgen c t) k \<longrightarrow>
      (\<exists>d. idom_at t s k = Some (vert t d) \<and> deferred c t k d)"
  shows "\<exists>s'. file_vertex i (Some (vert t i)) s = Inr s' \<and> round_inv c t (i - 1) s'"
proof -
  let ?E = "edgen c t" and ?n = "length (BlockSlice c)"
  let ?q = "semi ?E i" and ?s1 = "s\<lparr>ancestor := (ancestor s)[ix c (vert t i) := Some (vert t (parn c t i))]\<rparr>"
  have q: "?q < i" using lt.semi_less [OF assms(2)] assms(1,3) by (simp add: tree_size_def)
  have fr: "lt_frame c t s" using arr by (simp add: lt_arrays_def)
  have arr1: "lt_arrays c t (semis c t (i - 1)) (i - 1) ?s1" by (rule link_arrays [OF assms(1) arr assms(2,3)])
  then have fr1: "lt_frame c t ?s1" by (simp add: lt_arrays_def)
  have sd: "lt_at sdom ?s1 (Some (vert t i)) = Inr (Some (vert t ?q))"
    using arrays_ops(1) [OF assms(1) arr1 assms(3)] assms(2) by (simp add: semis_def)
  note start = parent_at [OF assms(1) fr assms(2,3)] frame_ops(4) [OF assms(1) fr assms(3), of "Some (vert t (parn c t i))"] sd
  have pq: "vert t (parn c t i) = vert t ?q \<longleftrightarrow> parn c t i = ?q"
    using vert_eq [OF assms(1)] spannedD(4) [OF assms(1,3,2)] q assms(3) by simp
  have same: "idom_at t ?s1 = idom_at t s" "bare c t ?s1 = bare c t s" by (simp_all add: idom_at_def bare_def fun_eq_iff)
  show ?thesis
  proof (cases "parn c t i = ?q")
    case True
    let ?s2 = "?s1\<lparr>lt_blocks := set_dom (vert t i) (\<lambda>d. d\<lparr>idom := Some (vert t ?q)\<rparr>) (lt_blocks ?s1)\<rparr>"
    have run: "file_vertex i (Some (vert t i)) s = Inr ?s2"
      using start pq True frame_ops(5) [OF assms(1) fr1 assms(3), of "Some (vert t ?q)"] by (simp add: file_vertex_def)
    note rel = set_idom_rel [OF assms(1) fr1 assms(3) refl, of "Some (vert t ?q)"]
    have "lt_idoms c t (i - 1) ?s2"
    proof (rule lt_idoms_pred [OF _ assms(2,3,1)])
      show "\<forall>k. i < k \<longrightarrow> k < ?n \<longrightarrow> parn c t k = semi ?E k \<or> i \<le> semi ?E k \<longrightarrow>
          (\<exists>d. idom_at t ?s2 k = Some (vert t d) \<and> deferred c t k d)"
        using ids rel(1) same(1) unfolding idom_step_rel_def by (metis less_irrefl singletonD)
      show "parn c t i = semi ?E i \<longrightarrow> (\<exists>d. idom_at t ?s2 i = Some (vert t d) \<and> deferred c t i d)"
        using parent_semi_deferred [OF assms(1-3)] rel(2) by blast
    qed
    moreover have "lt_buckets c t (i - 1) ?s2"
      unfolding lt_buckets_def
    proof (intro allI impI)
      fix j
      assume "j \<le> i - 1"
      then have "j \<le> i" by simp
      then obtain v xs where old: "buckets s ! j = Some (vert t v)" "chain t s v xs j" "distinct xs"
        "set xs = {k. i < k \<and> k < ?n \<and> semi ?E k = j \<and> parn c t k \<noteq> j}"
        using bk unfolding lt_buckets_def by blast
      have "chain t ?s2 v xs j" using old(2) chain_cong [of xs ?s2 s t v j] by simp
      moreover have "set xs = {k. i - 1 < k \<and> k < ?n \<and> semi ?E k = j \<and> parn c t k \<noteq> j}"
        unfolding bucket_sets [OF assms(2,3)] using old(4) True by auto
      ultimately show "\<exists>v xs. buckets ?s2 ! j = Some (vert t v) \<and> chain t ?s2 v xs j \<and> distinct xs \<and>
          set xs = {k. i - 1 < k \<and> k < ?n \<and> semi ?E k = j \<and> parn c t k \<noteq> j}"
        using old(1,3) by (intro exI [of _ v] exI [of _ xs]) simp
    qed
    ultimately have "round_inv c t (i - 1) ?s2"
      using idom_rel_arrays(1) [OF rel(1) arr1] idom_rel_other(2) [OF rel(1)] assms(2,5) same(2) unfolding round_inv_def by blast
    with run show ?thesis by blast
  next
    case False
    let ?bs = "(buckets s)[i := buckets s ! ?q, ?q := Some (vert t i)]"
    let ?s2 = "?s1\<lparr>buckets := ?bs\<rparr>"
    have len: "length (buckets s) = ?n" using fr by (simp add: lt_frame_def)
    have qn: "?q < ?n" using q assms(3) by simp
    have run: "file_vertex i (Some (vert t i)) s = Inr ?s2"
      using start pq False frame_ops(2,6) [OF assms(1) fr1 qn] len q assms(3) by (simp add: file_vertex_def)
    have arr2: "lt_arrays c t (semis c t (i - 1)) (i - 1) ?s2"
      using arr1 len by (simp add: lt_arrays_def lt_frame_def)
    have "lt_idoms c t (i - 1) ?s2"
      using False ids same(1) by (intro lt_idoms_pred [OF _ assms(2,3,1)]) (auto simp: idom_at_def)
    moreover have "lt_buckets c t (i - 1) ?s2"
      unfolding lt_buckets_def
    proof (intro allI impI)
      fix j
      assume "j \<le> i - 1"
      then have j: "j < i" "j \<le> i" using assms(2) by auto
      then obtain v xs where old: "buckets s ! j = Some (vert t v)" "chain t s v xs j" "distinct xs"
        "set xs = {k. i < k \<and> k < ?n \<and> semi ?E k = j \<and> parn c t k \<noteq> j}"
        using bk unfolding lt_buckets_def by blast
      have ch: "chain t ?s2 v xs j"
        using old(2,4) q chain_cong [of xs ?s2 s t v j] by (auto simp: nth_list_update)
      show "\<exists>v xs. buckets ?s2 ! j = Some (vert t v) \<and> chain t ?s2 v xs j \<and> distinct xs \<and>
          set xs = {k. i - 1 < k \<and> k < ?n \<and> semi ?E k = j \<and> parn c t k \<noteq> j}"
      proof (cases "j = ?q")
        case True
        have "buckets ?s2 ! j = Some (vert t i)" "buckets ?s2 ! i = Some (vert t v)"
          using True old(1) len q assms(3) qn by (simp_all add: nth_list_update)
        moreover have "set (i # xs) = {k. i - 1 < k \<and> k < ?n \<and> semi ?E k = j \<and> parn c t k \<noteq> j}"
          unfolding bucket_sets [OF assms(2,3)] using old(4) True False by auto
        moreover have "distinct (i # xs)" using old(3,4) by simp
        moreover have "chain t ?s2 i (i # xs) j" using calculation(2) ch j(1) by auto
        ultimately show ?thesis by blast
      next
        case False
        then have "buckets ?s2 ! j = Some (vert t v)" using j(1) old(1) by simp
        moreover have "set xs = {k. i - 1 < k \<and> k < ?n \<and> semi ?E k = j \<and> parn c t k \<noteq> j}"
          unfolding bucket_sets [OF assms(2,3)] using old(4) False by auto
        ultimately show ?thesis using ch old(3) by blast
      qed
    qed
    moreover have "bare c t ?s2" using assms(5) by (simp add: bare_def idom_at_def)
    ultimately have "round_inv c t (i - 1) ?s2" using arr2 by (simp add: round_inv_def)
    with run show ?thesis by blast
  qed
qed

lemma round_correct:
  assumes "spanned c t" "linked c" "0 < i" "i < length (BlockSlice c)" "round_inv c t i s"
  shows "\<exists>s'. lt_round s i = Some (Inr s') \<and> round_inv c t (i - 1) s'"
proof -
  let ?E = "edgen c t" and ?n = "length (BlockSlice c)"
  have inv: "lt_arrays c t (semis c t i) i s" "bare c t s" "lt_buckets c t i s" "lt_idoms c t i s"
    using assms(5) by (auto simp: round_inv_def)
  have fr: "lt_frame c t s" using inv(1) by (simp add: lt_arrays_def)
  have "length (preorder t) = ?n" using assms(1) by (simp add: spanned_def dfs_inv_def dfs_ok_def)
  then have w: "index_go (preorder s) i = Inr (Some (vert t i))"
    using fr assms(4) spannedD(3) [OF assms(1,4)] by (simp add: index_go_def lt_frame_def)
  obtain v xs where v: "buckets s ! i = Some (vert t v)" "chain t s v xs i" "distinct xs"
    "set xs = {k. i < k \<and> k < ?n \<and> semi ?E k = i \<and> parn c t k \<noteq> i}"
    using inv(3) unfolding lt_buckets_def by blast
  have b: "index_go (buckets s) i = Inr (Some (vert t v))"
    using fr assms(4) v(1) by (simp add: index_go_def lt_frame_def)
  obtain s1 where s1: "bucket_loop i (Some (vert t i)) (Some (vert t v)) s = Some (Inr s1)" "idom_step_rel c t (set xs) s s1"
    "\<forall>x \<in> set xs. \<exists>d. idom_at t s1 x = Some (vert t d) \<and> deferred c t x d"
    using bucket_loop_correct [OF assms(1) inv(1) assms(4) v(2,3)] v(4) by blast
  note arr1 = idom_rel_arrays(1) [OF s1(2) inv(1)]
  have fr1: "lt_frame c t s1" using arr1 by (simp add: lt_arrays_def)
  let ?upd = "\<lambda>s x. s\<lparr>sdom := (sdom s)[ix c (vert t i) := Some (vert t x)]\<rparr>"
  have pn: "parn c t i < ?n" "semi ?E i < ?n"
    using spannedD(4) [OF assms(1,4,3)] lt.semi_less [OF assms(3), of c t] assms(1,4) by (auto simp: tree_size_def)
  have arr2: "lt_arrays c t ((semis c t i)(i := parn c t i)) i (?upd s1 (parn c t i))"
    by (rule set_sdom_arrays [OF assms(1) arr1 assms(4) pn(1)])
  then have fr2: "lt_frame c t (?upd s1 (parn c t i))" by (simp add: lt_arrays_def)
  let ?s3 = "?upd (?upd s1 (parn c t i)) (semi ?E i)"
  have arr3: "lt_arrays c t (semis c t (i - 1)) i ?s3"
    using set_sdom_arrays [OF assms(1) arr2 assms(4) pn(2)] unfolding semis_pred [OF assms(3)] fun_upd_upd .
  obtain bl where bl: "map_of (lt_blocks (?upd s1 (parn c t i))) (vert t i) = Some bl" "PredBs bl = PredBs (block_at c (vert t i))"
    by (rule frame_block [OF assms(1) fr2 assms(4)])
  have run: "lt_round s i = Some (file_vertex i (Some (vert t i)) ?s3)"
    using w b s1(1) parent_at [OF assms(1) fr1 assms(3,4)] frame_ops(3) [OF assms(1) fr1 assms(4)] bl
      semi_round [OF assms(1-4) arr2]
    by (simp add: lt_round_def Block_of_def)
  have eq: "buckets ?s3 = buckets s" "idom_at t ?s3 = idom_at t s1" "bare c t ?s3"
    using idom_rel_arrays(2) [OF s1(2)] idom_rel_other(2) [OF s1(2) _ inv(2)] v(4) by (auto simp: idom_at_def bare_def fun_eq_iff)
  have "\<exists>s'. file_vertex i (Some (vert t i)) ?s3 = Inr s' \<and> round_inv c t (i - 1) s'"
  proof (rule file_vertex_correct [OF assms(1,3,4) arr3 eq(3)])
    show "lt_buckets c t i ?s3" using inv(3) eq(1) chain_cong [of _ ?s3 s t] by (simp add: lt_buckets_def)
    show "\<forall>k. i < k \<longrightarrow> k < ?n \<longrightarrow> parn c t k = semi ?E k \<or> i \<le> semi ?E k \<longrightarrow>
        (\<exists>d. idom_at t ?s3 k = Some (vert t d) \<and> deferred c t k d)"
    proof (intro allI impI)
      fix k
      assume k: "i < k" "k < ?n" "parn c t k = semi ?E k \<or> i \<le> semi ?E k"
      show "\<exists>d. idom_at t ?s3 k = Some (vert t d) \<and> deferred c t k d"
      proof (cases "k \<in> set xs")
        case True
        with s1(3) eq(2) show ?thesis by simp
      next
        case False
        then have "\<not> (i < k \<and> k < ?n \<and> semi ?E k = i \<and> parn c t k \<noteq> i)" unfolding v(4) mem_Collect_eq .
        then have "parn c t k = semi ?E k \<or> i < semi ?E k" using k le_neq_implies_less by metis
        then have "\<exists>d. idom_at t s k = Some (vert t d) \<and> deferred c t k d" using inv(4) k(1,2) unfolding lt_idoms_def by blast
        with idom_rel_other(1) [OF s1(2) k(2) False] eq(2) show ?thesis by simp
      qed
    qed
  qed
  with run show ?thesis by auto
qed

lemma rounds_correct:
  assumes "spanned c t" "linked c"
  shows "i < length (BlockSlice c) \<Longrightarrow> round_inv c t i s \<Longrightarrow>
    \<exists>s'. gfold lt_round s (rev [1..<Suc i]) = Some (Inr s') \<and> round_inv c t 0 s'"
proof (induction i arbitrary: s)
  case (Suc i)
  obtain s1 where s1: "lt_round s (Suc i) = Some (Inr s1)" "round_inv c t i s1"
    using round_correct [OF assms _ Suc.prems] by auto
  obtain s' where "gfold lt_round s1 (rev [1..<Suc i]) = Some (Inr s')" "round_inv c t 0 s'"
    using Suc.IH [OF _ s1(2)] Suc.prems(1) by auto
  with s1(1) show ?case by auto
qed simp

lemma round_inv_start:
  assumes "spanned c t"
  shows "round_inv c t (length (BlockSlice c) - 1) (t\<lparr>buckets := preorder t\<rparr>)"
proof -
  let ?n = "length (BlockSlice c)" and ?s = "t\<lparr>buckets := preorder t\<rparr>"
  have inv: "dfs_inv c ?n t" "met c t = set (BlockSlice c)" using assms by (auto simp: spanned_def)
  have len: "length (sdom t) = ?n" "length (ancestor t) = ?n" "length (preorder t) = ?n"
    using inv(1) by (auto simp: dfs_inv_def dfs_ok_def)
  have "lt_frame c t ?s" using len inv(1) by (simp add: lt_frame_def dfs_inv_def)
  then have "lt_arrays c t (semis c t (?n - 1)) (?n - 1) ?s"
    using dfs_invD(7,8) [OF inv(1)] spannedD(1) [OF assms] inv(2) by (auto simp: lt_arrays_def semis_def)
  moreover have pos: "0 < ?n" using assms by (simp add: spanned_def numbered_def)
  then have "bare c t ?s" using inv(1) spannedD(1) [OF assms] by (simp add: bare_def dfs_inv_def idom_at_def)
  moreover note pos
  then have "preorder t ! j = Some (vert t j)" if "j \<le> ?n - 1" for j
    using spannedD(3) [OF assms, of j] that by linarith
  then have "lt_buckets c t (?n - 1) ?s"
    unfolding lt_buckets_def by (intro allI impI) (rule_tac x = j in exI, rule_tac x = "[]" in exI, auto)
  moreover have "lt_idoms c t (?n - 1) ?s" by (auto simp: lt_idoms_def)
  ultimately show ?thesis by (simp add: round_inv_def)
qed

lemma root_loop_correct:
  assumes "spanned c t" "lt_frame c t s" "0 < length (BlockSlice c)"
    and "chain t s v xs 0" "distinct xs" "\<forall>x \<in> set xs. x < length (BlockSlice c)"
  shows "\<exists>s'. root_loop (Some (vert t 0)) (Some (vert t v)) s = Some (Inr s') \<and> idom_step_rel c t (set xs) s s' \<and>
    (\<forall>x \<in> set xs. idom_at t s' x = Some (vert t 0))"
  using assms(2,4-)
proof (induction xs arbitrary: v s)
  case Nil
  then have "idom_step_rel c t {} s s" by (simp add: idom_step_rel_def)
  with Nil show ?case by (auto simp: root_loop.simps)
next
  case (Cons x xs)
  have x: "v = x" "x \<noteq> 0" "x < length (BlockSlice c)" using Cons.prems by auto
  obtain y where y: "buckets s ! x = Some (vert t y)" "chain t s y xs 0" using Cons.prems(2) by auto
  let ?s1 = "s\<lparr>lt_blocks := set_dom (vert t x) (\<lambda>i. i\<lparr>idom := Some (vert t 0)\<rparr>) (lt_blocks s)\<rparr>"
  note rel1 = set_idom_rel [OF assms(1) Cons.prems(1) x(3) refl, of "Some (vert t 0)"]
  have fr1: "lt_frame c t ?s1" using rel1(1) by (simp add: idom_step_rel_def)
  have ne: "vert t x \<noteq> vert t 0" using vert_eq [OF assms(1) x(3) assms(3)] x(2) by simp
  then have "root_loop (Some (vert t 0)) (Some (vert t x)) s = root_loop (Some (vert t 0)) (Some (vert t y)) ?s1"
    using frame_ops(5) [OF assms(1) Cons.prems(1) x(3), of "Some (vert t 0)"] frame_ops(6) [OF assms(1) fr1 x(3)] y(1)
    by (subst root_loop.simps) simp
  moreover obtain s' where s': "root_loop (Some (vert t 0)) (Some (vert t y)) ?s1 = Some (Inr s')"
    "idom_step_rel c t (set xs) ?s1 s'" "\<forall>x \<in> set xs. idom_at t s' x = Some (vert t 0)"
    using Cons.IH [OF fr1, of y] Cons.prems(3,4) y(2) chain_cong [of xs ?s1 s t y 0] by auto
  moreover have "idom_step_rel c t (set (x # xs)) s s'"
    using idom_rel_trans [OF rel1(1) s'(2)] by simp
  moreover have "idom_at t s' x = Some (vert t 0)"
    using s'(2) x(3) Cons.prems(3) rel1(2) by (simp add: idom_step_rel_def)
  ultimately show ?case using x(1) by auto
qed

text \<open>After the last loop every block but the root has its deferred dominator.\<close>

lemma loops_correct:
  assumes "spanned c t" "round_inv c t 0 s"
  shows "\<exists>v s'. index_go (buckets s) 0 = Inr (Some (vert t v)) \<and> root_loop (Some (vert t 0)) (Some (vert t v)) s = Some (Inr s') \<and>
    lt_arrays c t (semis c t 0) 0 s' \<and> bare c t s' \<and>
    (\<forall>k. 0 < k \<longrightarrow> k < length (BlockSlice c) \<longrightarrow> (\<exists>d. idom_at t s' k = Some (vert t d) \<and> deferred c t k d))"
proof -
  let ?E = "edgen c t" and ?n = "length (BlockSlice c)"
  have n: "0 < ?n" using assms(1) by (simp add: spanned_def numbered_def)
  have size: "tree_size c t = ?n" using assms(1) by (simp add: tree_size_def)
  have inv: "lt_arrays c t (semis c t 0) 0 s" "bare c t s" "lt_buckets c t 0 s" "lt_idoms c t 0 s"
    using assms(2) by (auto simp: round_inv_def)
  have fr: "lt_frame c t s" using inv(1) by (simp add: lt_arrays_def)
  obtain v xs where v: "buckets s ! 0 = Some (vert t v)" "chain t s v xs 0" "distinct xs"
    "set xs = {k. 0 < k \<and> k < ?n \<and> semi ?E k = 0 \<and> parn c t k \<noteq> 0}"
    using inv(3) unfolding lt_buckets_def by blast
  obtain s' where s': "root_loop (Some (vert t 0)) (Some (vert t v)) s = Some (Inr s')" "idom_step_rel c t (set xs) s s'"
    "\<forall>x \<in> set xs. idom_at t s' x = Some (vert t 0)"
    using root_loop_correct [OF assms(1) fr n v(2,3)] v(4) by blast
  have "\<exists>d. idom_at t s' k = Some (vert t d) \<and> deferred c t k d" if k: "0 < k" "k < ?n" for k
  proof (cases "k \<in> set xs")
    case True
    then have "semi ?E k = 0" using v(4) by simp
    moreover have "imm_dom ?E k \<le> semi ?E k" using lt.imm_dom_le_semi [OF k(1), of c t] k(2) size by simp
    ultimately have "deferred c t k 0" using k(1) by (simp add: deferred_def)
    with True s'(3) show ?thesis by blast
  next
    case False
    then have "\<not> (0 < k \<and> k < ?n \<and> semi ?E k = 0 \<and> parn c t k \<noteq> 0)" unfolding v(4) mem_Collect_eq .
    then have "parn c t k = semi ?E k \<or> 0 < semi ?E k" using k by (metis gr0I)
    then have "\<exists>d. idom_at t s k = Some (vert t d) \<and> deferred c t k d" using inv(4) k(1,2) unfolding lt_idoms_def by blast
    with idom_rel_other(1) [OF s'(2) k(2) False] show ?thesis by simp
  qed
  moreover have "index_go (buckets s) 0 = Inr (Some (vert t v))" using v(1) fr n by (simp add: index_go_def lt_frame_def)
  moreover have "lt_arrays c t (semis c t 0) 0 s'" "bare c t s'"
    using idom_rel_arrays(1) [OF s'(2) inv(1)] idom_rel_other(2) [OF s'(2) _ inv(2)] v(4) by auto
  ultimately show ?thesis using s'(1) by blast
qed

end
