(* ===== verification/Dom_Correct.thy ===== *)
theory Dom_Correct
  imports Dom_Rounds
begin

text \<open>
  The end of \<open>BuildDomTree\<close>: the explicit immediate dominators, the tree of dominators and its
  numbers; correctness of the construction.
\<close>

section \<open>Immediate dominators in preorder\<close>

definition kids :: "CFG \<Rightarrow> ltState \<Rightarrow> nat \<Rightarrow> nat \<Rightarrow> nat list" where
  "kids c t m d = filter (\<lambda>k. imm_dom (edgen c t) k = d) [1..<m]"

text \<open>The state when the blocks with numbers below \<open>m\<close> are done.\<close>

definition tree_inv :: "CFG \<Rightarrow> ltState \<Rightarrow> nat \<Rightarrow> ltState \<Rightarrow> bool" where
  "tree_inv c t m s \<longleftrightarrow> lt_arrays c t (semis c t 0) 0 s \<and> idom_at t s 0 = None \<and>
     (\<forall>k. 0 < k \<longrightarrow> k < length (BlockSlice c) \<longrightarrow>
        (if k < m then idom_at t s k = Some (vert t (imm_dom (edgen c t) k))
         else \<exists>d. idom_at t s k = Some (vert t d) \<and> deferred c t k d)) \<and>
     (\<forall>d < length (BlockSlice c). children (dom_info (blk s (vert t d))) = map (vert t) (kids c t m d))"

lemma blk_vert:
  assumes "spanned c t" "lt_frame c t s" "k < length (BlockSlice c)"
  obtains b where "map_of (lt_blocks s) (vert t k) = Some b" "blk s (vert t k) = b"
proof -
  obtain b where "map_of (lt_blocks s) (vert t k) = Some b" by (rule frame_block [OF assms])
  with that show thesis by simp
qed

lemma Block_vert:
  assumes "spanned c t" "lt_frame c t s" "k < length (BlockSlice c)"
  shows "Block_of (lt_blocks s) (Some (vert t k)) = Inr (blk s (vert t k))"
  by (rule blk_vert [OF assms]) (simp add: Block_of_def)

text \<open>Changing the dominance information of one block, but for its number.\<close>

lemma set_dom_vert:
  assumes "spanned c t" "lt_arrays c t f i s" "d < length (BlockSlice c)" "\<And>x. pre (h x) = pre x"
  defines "s' \<equiv> s\<lparr>lt_blocks := set_dom (vert t d) h (lt_blocks s)\<rparr>"
  shows "lt_arrays c t f i s'"
    "k < length (BlockSlice c) \<Longrightarrow> dom_info (blk s' (vert t k)) = (if k = d then h (dom_info (blk s (vert t d))) else dom_info (blk s (vert t k)))"
proof -
  have fr: "lt_frame c t s" using assms(2) by (simp add: lt_arrays_def)
  show info: "dom_info (blk s' (vert t k)) = (if k = d then h (dom_info (blk s (vert t d))) else dom_info (blk s (vert t k)))"
    if k: "k < length (BlockSlice c)" for k
  proof -
    obtain b where "map_of (lt_blocks s) (vert t k) = Some b" by (rule blk_vert [OF assms(1) fr k])
    then show ?thesis using vert_eq [OF assms(1) k assms(3)] by (cases "k = d") (auto simp: s'_def)
  qed
  have "pre (dom_info (blk s' v)) = pre (dom_info (blk s v))" if "v \<in> set (BlockSlice c)" for v
    using info [OF vert_num(1) [OF assms(1) that]] vert_num(2) [OF assms(1) that] assms(4) by (auto split: if_splits)
  then have "lt_frame c t s'" using fr upto_dom_set_dom unfolding lt_frame_def by (auto simp: s'_def)
  then show "lt_arrays c t f i s'" using assms(2) by (simp add: lt_arrays_def s'_def)
qed

lemma imm_dom_range:
  assumes "0 < k"
  shows "imm_dom (edgen c t) k < k"
  using lt.imm_dom(1) [OF assms] .

lemma idom_step_correct:
  assumes "spanned c t" "0 < k" "k < length (BlockSlice c)" "tree_inv c t k s"
  shows "\<exists>s'. idom_step (Some (vert t 0)) s (Some (vert t k)) = Inr s' \<and> tree_inv c t (Suc k) s'"
proof -
  let ?n = "length (BlockSlice c)" and ?I = "imm_dom (edgen c t)"
  have inv: "lt_arrays c t (semis c t 0) 0 s" "idom_at t s 0 = None"
    "\<And>l. 0 < l \<Longrightarrow> l < k \<Longrightarrow> idom_at t s l = Some (vert t (?I l))"
    "\<And>l. k \<le> l \<Longrightarrow> l < ?n \<Longrightarrow> \<exists>d. idom_at t s l = Some (vert t d) \<and> deferred c t l d"
    "\<And>d. d < ?n \<Longrightarrow> children (dom_info (blk s (vert t d))) = map (vert t) (kids c t k d)"
    using assms(2,3,4) by (auto simp: tree_inv_def split: if_splits)
  have fr: "lt_frame c t s" using inv(1) by (simp add: lt_arrays_def)
  obtain d where d: "idom_at t s k = Some (vert t d)" "deferred c t k d" using inv(4) [of k] assms(3) by blast
  have dk: "d < k" "d < ?n" using d(2) assms(3) by (auto simp: deferred_def)
  have Ik: "?I k < k" "?I k < ?n" using imm_dom_range [OF assms(2), of c t] assms(3) by auto
  have sd: "lt_at sdom s (Some (vert t k)) = Inr (Some (vert t (semi (edgen c t) k)))"
    using arrays_ops(1) [OF assms(1) inv(1) assms(3)] assms(2) by (simp add: semis_def)
  have sk: "semi (edgen c t) k < ?n"
    using lt.semi_less [OF assms(2), of c t] assms(1,3) by (simp add: tree_size_def)
  let ?s1 = "s\<lparr>lt_blocks := set_dom (vert t k) (\<lambda>i. i\<lparr>idom := Some (vert t (?I k))\<rparr>) (lt_blocks s)\<rparr>"
  define s1 where "s1 = (if d = semi (edgen c t) k then s else ?s1)"
  have pick: "(if idom (dom_info (blk s (vert t k))) \<noteq> Some (vert t (semi (edgen c t) k))
      then rbind (Block_of (lt_blocks s) (idom (dom_info (blk s (vert t k))))) (\<lambda>b. set_idom (Some (vert t k)) (idom (dom_info b)) s)
      else Inr s) = Inr s1"
  proof (cases "d = semi (edgen c t) k")
    case True
    with d(1) show ?thesis by (simp add: s1_def idom_at_def)
  next
    case False
    then have "0 < d" "?I k = ?I d" using d(2) by (auto simp: deferred_def)
    then have "idom (dom_info (blk s (vert t d))) = Some (vert t (?I k))" using inv(3) [of d] dk(1) by (simp add: idom_at_def)
    moreover have "vert t d \<noteq> vert t (semi (edgen c t) k)" using vert_eq [OF assms(1) dk(2) sk] False by simp
    ultimately show ?thesis
      using d(1) False Block_vert [OF assms(1) fr dk(2)] frame_ops(5) [OF assms(1) fr assms(3), of "Some (vert t (?I k))"]
      by (simp add: s1_def idom_at_def)
  qed
  have s1: "lt_arrays c t (semis c t 0) 0 s1"
    "\<And>l. l < ?n \<Longrightarrow> idom_at t s1 l = (if l = k then Some (vert t (?I k)) else idom_at t s l)"
    "\<And>l. l < ?n \<Longrightarrow> children (dom_info (blk s1 (vert t l))) = children (dom_info (blk s (vert t l)))"
  proof -
    note set = set_dom_vert [OF assms(1) inv(1) assms(3), of "\<lambda>i. i\<lparr>idom := Some (vert t (?I k))\<rparr>"]
    have eq: "d = semi (edgen c t) k \<Longrightarrow> ?I k = d" using d(2) by (auto simp: deferred_def)
    show "lt_arrays c t (semis c t 0) 0 s1" using set(1) inv(1) by (simp add: s1_def)
    show "idom_at t s1 l = (if l = k then Some (vert t (?I k)) else idom_at t s l)" if "l < ?n" for l
      using set(2) [OF _ that] eq d(1) by (auto simp: s1_def idom_at_def)
    show "children (dom_info (blk s1 (vert t l))) = children (dom_info (blk s (vert t l)))" if "l < ?n" for l
      using set(2) [OF _ that] by (auto simp: s1_def)
  qed
  have fr1: "lt_frame c t s1" using s1(1) by (simp add: lt_arrays_def)
  let ?h = "\<lambda>x. x\<lparr>children := children x @ [vert t k]\<rparr>"
  let ?s2 = "s1\<lparr>lt_blocks := set_dom (vert t (?I k)) ?h (lt_blocks s1)\<rparr>"
  have n: "0 < ?n" using assms(3) by linarith
  have ne: "vert t k \<noteq> vert t 0" using vert_eq [OF assms(1,3) n] assms(2) by simp
  have "idom (dom_info (blk s1 (vert t k))) = Some (vert t (?I k))" using s1(2) [OF assms(3)] by (simp add: idom_at_def)
  then have run: "idom_step (Some (vert t 0)) s (Some (vert t k)) = Inr ?s2"
    using ne sd pick Block_vert [OF assms(1) fr assms(3)] Block_vert [OF assms(1) fr1 assms(3)] Block_vert [OF assms(1) fr1 Ik(2)]
    by (simp add: idom_step_def)
  note set2 = set_dom_vert [OF assms(1) s1(1) Ik(2), of ?h]
  have "lt_arrays c t (semis c t 0) 0 ?s2" using set2(1) by simp
  moreover have id2: "idom_at t ?s2 l = (if l = k then Some (vert t (?I k)) else idom_at t s l)" if "l < ?n" for l
    using set2(2) [OF _ that] s1(2) [OF that] s1(2) [OF Ik(2)] by (auto simp: idom_at_def split: if_splits)
  moreover have "children (dom_info (blk ?s2 (vert t l))) = map (vert t) (kids c t (Suc k) l)" if "l < ?n" for l
    using set2(2) [OF _ that] s1(3) inv(5) that Ik(2) assms(2) by (auto simp: kids_def)
  moreover have "idom_at t ?s2 0 = None" using id2 [OF n] inv(2) assms(2) by simp
  moreover have "if l < Suc k then idom_at t ?s2 l = Some (vert t (?I l))
      else \<exists>d. idom_at t ?s2 l = Some (vert t d) \<and> deferred c t l d" if "0 < l" "l < ?n" for l
    using id2 [OF that(2)] inv(3) [OF that(1)] inv(4) [OF _ that(2)] by (cases l k rule: linorder_cases) auto
  ultimately have "tree_inv c t (Suc k) ?s2" unfolding tree_inv_def by blast
  with run show ?thesis by blast
qed

lemma idom_steps_correct:
  assumes "spanned c t"
  shows "0 < k \<Longrightarrow> k \<le> length (BlockSlice c) \<Longrightarrow> tree_inv c t 1 s \<Longrightarrow>
    \<exists>s'. foldR (idom_step (Some (vert t 0))) s (map (\<lambda>k. Some (vert t k)) [1..<k]) = Inr s' \<and> tree_inv c t k s'"
proof (induction k)
  case (Suc k)
  show ?case
  proof (cases "k = 0")
    case False
    then obtain s1 where s1: "foldR (idom_step (Some (vert t 0))) s (map (\<lambda>k. Some (vert t k)) [1..<k]) = Inr s1" "tree_inv c t k s1"
      using Suc by auto
    obtain s2 where "idom_step (Some (vert t 0)) s1 (Some (vert t k)) = Inr s2" "tree_inv c t (Suc k) s2"
      using idom_step_correct [OF assms _ _ s1(2)] False Suc.prems(2) by auto
    with s1(1) False show ?thesis by (simp add: foldR_append)
  qed (use Suc.prems in auto)
qed simp

section \<open>The tree of dominators\<close>

lemma distinct_concat_map:
  assumes "distinct ks" "\<And>k. k \<in> set ks \<Longrightarrow> distinct (f k)"
    "\<And>k k'. k \<in> set ks \<Longrightarrow> k' \<in> set ks \<Longrightarrow> k \<noteq> k' \<Longrightarrow> set (f k) \<inter> set (f k') = {}"
  shows "distinct (concat (map f ks))"
  using assms by (induction ks) fastforce+

lemma foldr_max_le: "(\<And>x. x \<in> set xs \<Longrightarrow> x \<le> b) \<Longrightarrow> foldr max xs 0 \<le> b" for b :: nat
  by (induction xs) auto

lemma anc_less_eq:
  assumes "anc P u v" "\<And>k. 0 < k \<Longrightarrow> P k < k"
  shows "u \<le> v"
  using assms(1)
proof (induction rule: anc.induct)
  case (anc_step u v)
  with assms(2) [of v] show ?case by simp
qed simp

lemma anc_siblings:
  assumes "anc P k x" "anc P k' x" "P k = P k'" "0 < k" "0 < k'" "\<And>k. 0 < k \<Longrightarrow> P k < k"
  shows "k = k'"
proof (rule ccontr)
  assume ne: "k \<noteq> k'"
  have up: "anc P (P j) i \<Longrightarrow> P j = P i \<Longrightarrow> False" if "0 < i" "0 < j" "anc P j i" "i \<noteq> j" for i j
  proof -
    assume "P j = P i"
    have "anc P j (P i)" using that by (auto elim: anc.cases)
    then have "j \<le> P j" using anc_less_eq [OF _ assms(6)] \<open>P j = P i\<close> by metis
    with assms(6) [OF that(2)] show False by simp
  qed
  have "anc P (P j) i" if "anc P j i" "0 < j" for i j using that anc_child [of P "P j" i] by blast
  with up anc_linear [OF assms(1,2)] assms(3-5) ne show False by metis
qed

text \<open>The lists of children that hold the vertices with a parent \<open>P k = d\<close> span the tree of \<open>P\<close>.\<close>

definition tree_of :: "(nat \<Rightarrow> nat) \<Rightarrow> (nat \<Rightarrow> node) \<Rightarrow> nat \<Rightarrow> blocks \<Rightarrow> nat \<Rightarrow> dtree \<Rightarrow> bool" where
  "tree_of P V n m d T \<longleftrightarrow> lab T = V d \<and> spans m T \<and> distinct (labels T) \<and> height T \<le> n - d \<and>
     set (labels T) = V ` {x. x < n \<and> anc P d x} \<and>
     (\<forall>a < n. \<forall>b < n. above T (V a) (V b) \<longleftrightarrow> anc P d a \<and> anc P a b)"

lemma parent_tree:
  assumes P: "\<And>k. 0 < k \<Longrightarrow> P k < k" and V: "inj_on V {..<n}"
    and ch: "\<And>d. d < n \<Longrightarrow> \<exists>b. map_of m (V d) = Some b \<and> children (dom_info b) = map V (filter (\<lambda>k. P k = d) [1..<n])"
  shows "d < n \<Longrightarrow> \<exists>T. tree_of P V n m d T"
proof (induction "n - d" arbitrary: d rule: less_induct)
  case less
  let ?ks = "filter (\<lambda>k. P k = d) [1..<n]"
  have ks: "0 < k" "d < k" "k < n" "P k = d" if "k \<in> set ?ks" for k using that P [of k] by auto
  have le: "anc P u v \<Longrightarrow> u \<le> v" for u v using anc_less_eq P by blast
  have in_ks: "k \<in> set ?ks" if "0 < k" "P k = d" "anc P k x" "x < n" for k x using that le [of k x] by auto
  have "\<forall>k \<in> set ?ks. \<exists>T. tree_of P V n m k T"
  proof
    fix k
    assume k: "k \<in> set ?ks"
    have "n - k < n - d" using ks(2,3) [OF k] by simp
    from less.hyps [OF this ks(3) [OF k]] show "\<exists>T. tree_of P V n m k T" .
  qed
  from bchoice [OF this] obtain F where "\<forall>k \<in> set ?ks. tree_of P V n m k (F k)" by blast
  then have F: "\<And>k. k \<in> set ?ks \<Longrightarrow> lab (F k) = V k" "\<And>k. k \<in> set ?ks \<Longrightarrow> spans m (F k)"
    "\<And>k. k \<in> set ?ks \<Longrightarrow> distinct (labels (F k))" "\<And>k. k \<in> set ?ks \<Longrightarrow> height (F k) \<le> n - k"
    "\<And>k. k \<in> set ?ks \<Longrightarrow> set (labels (F k)) = V ` {x. x < n \<and> anc P k x}"
    "\<And>k a b. k \<in> set ?ks \<Longrightarrow> a < n \<Longrightarrow> b < n \<Longrightarrow> above (F k) (V a) (V b) \<longleftrightarrow> anc P k a \<and> anc P a b"
    unfolding tree_of_def by (simp_all del: set_filter)
  let ?T = "DNode (V d) (map F ?ks)"
  have Veq: "a < n \<Longrightarrow> b < n \<Longrightarrow> V a = V b \<longleftrightarrow> a = b" for a b using V by (auto simp: inj_on_def)
  have labs: "set (concat (map labels (map F ?ks))) = V ` {x. x < n \<and> (\<exists>k \<in> set ?ks. anc P k x)}"
    using F(5) by auto
  have anc_d: "x < n \<Longrightarrow> anc P d x \<longleftrightarrow> x = d \<or> (\<exists>k \<in> set ?ks. anc P k x)" for x
    using anc_child [of P d x] in_ks ks by metis
  have set_T: "set (labels ?T) = V ` {x. x < n \<and> anc P d x}"
    using labs anc_d less.prems by (auto simp del: set_concat)
  moreover have "spans m ?T" using ch [OF less.prems] F(1,2) by (auto simp: list_all_iff)
  moreover have "distinct (labels ?T)"
  proof -
    have "V d \<notin> set (concat (map labels (map F ?ks)))"
      using labs Veq less.prems le ks(2) by (fastforce simp del: set_concat)
    moreover have "distinct (concat (map (\<lambda>k. labels (F k)) ?ks))"
    proof (rule distinct_concat_map)
      fix k k'
      assume k: "k \<in> set ?ks" "k' \<in> set ?ks" "k \<noteq> k'"
      show "set (labels (F k)) \<inter> set (labels (F k')) = {}"
        using F(5) k Veq anc_siblings [of P k _ k'] ks [OF k(1)] ks [OF k(2)] P by auto
    qed (use F(3) in auto)
    ultimately show ?thesis by (simp add: comp_def)
  qed
  moreover have "height ?T \<le> n - d"
  proof -
    have "foldr max (map height (map F ?ks)) 0 \<le> n - Suc d"
      by (rule foldr_max_le) (use F(4) ks(2) in fastforce)
    then show ?thesis using less.prems by simp
  qed
  moreover have "above ?T (V a) (V b) \<longleftrightarrow> anc P d a \<and> anc P a b" if ab: "a < n" "b < n" for a b
  proof -
    have "V b \<in> set (labels ?T) \<longleftrightarrow> anc P d b" unfolding set_T using Veq ab by auto
    moreover have "list_ex (\<lambda>t. above t (V a) (V b)) (map F ?ks) \<longleftrightarrow> (\<exists>k \<in> set ?ks. anc P k a) \<and> anc P a b"
      using F(6) ab by (auto simp: list_ex_iff)
    ultimately show ?thesis using anc_d [OF ab(1)] Veq [OF ab(1) less.prems] by (auto simp del: labels.simps)
  qed
  ultimately have "tree_of P V n m d ?T" unfolding tree_of_def by simp
  then show ?case by blast
qed

section \<open>Dominance of blocks and of their numbers\<close>

lemma walk_vert:
  assumes "spanned c t" "(avoiding (edgen c t) a)\<^sup>*\<^sup>* x y" "a < length (BlockSlice c)"
  shows "(avoiding (edge (Blocks c)) (vert t a))\<^sup>*\<^sup>* (vert t x) (vert t y)"
  using assms(2)
proof (induction rule: rtranclp_induct)
  case (step y z)
  then have "y < length (BlockSlice c)" "z < length (BlockSlice c)" "edge (Blocks c) (vert t y) (vert t z)" "y \<noteq> a" "z \<noteq> a"
    using assms(1) by (auto simp: avoiding_def edgen_def tree_size_def)
  then have "avoiding (edge (Blocks c)) (vert t a) (vert t y) (vert t z)"
    using vert_eq [OF assms(1)] assms(3) by (simp add: avoiding_def)
  with step.IH show ?case by simp
qed simp

lemma walk_num:
  assumes "spanned c t" "(avoiding (edge (Blocks c)) (vert t a))\<^sup>*\<^sup>* (vert t 0) y" "a < length (BlockSlice c)"
  shows "y \<in> set (BlockSlice c) \<and> (avoiding (edgen c t) a)\<^sup>*\<^sup>* 0 (num t y)"
  using assms(2)
proof (induction rule: rtranclp_induct)
  case base
  have n: "0 < length (BlockSlice c)" using assms(3) by linarith
  show ?case using spannedD(1,2) [OF assms(1) n] by simp
next
  case (step y z)
  have c: "numbered c" using assms(1) by (simp add: spanned_def)
  have e: "edge (Blocks c) y z" "y \<noteq> vert t a" "z \<noteq> vert t a" using step.hyps(2) by (auto simp: avoiding_def)
  have y: "y \<in> set (BlockSlice c)" using step.IH by simp
  then have z: "z \<in> set (BlockSlice c)" using numberedD(4,5) [OF c y] e(1) by blast
  have "avoiding (edgen c t) a (num t y) (num t z)"
    using vert_num [OF assms(1) y] vert_num [OF assms(1) z] e assms(1) by (auto simp: avoiding_def edgen_def tree_size_def)
  with step.IH z show ?case by (meson rtranclp.rtrancl_into_rtrancl)
qed

lemma dominates_vert:
  assumes "spanned c t" "a < length (BlockSlice c)" "b < length (BlockSlice c)"
  shows "dominates (edge (Blocks c)) (vert t 0) (vert t a) (vert t b) \<longleftrightarrow> anc (imm_dom (edgen c t)) a b"
proof -
  have n: "0 < length (BlockSlice c)" using assms(2) by linarith
  have "(avoiding (edge (Blocks c)) (vert t a))\<^sup>*\<^sup>* (vert t 0) (vert t b) \<longleftrightarrow> (avoiding (edgen c t) a)\<^sup>*\<^sup>* 0 b"
    using walk_vert [OF assms(1) _ assms(2)] walk_num [OF assms(1) _ assms(2)] spannedD(2) [OF assms(1,3)] by metis
  then have "dominates (edge (Blocks c)) (vert t 0) (vert t a) (vert t b) \<longleftrightarrow> dominates (edgen c t) 0 a b"
    using vert_eq [OF assms(1,2) n] vert_eq [OF assms] by (simp add: dominates_def)
  then show ?thesis using lt.dominates_imm_dom [of b c t a] assms(1,3) by (simp add: tree_size_def)
qed

text \<open>The immediate dominator is the proper dominator that all other proper dominators dominate.\<close>

definition idominates :: "('v \<Rightarrow> 'v \<Rightarrow> bool) \<Rightarrow> 'v set \<Rightarrow> 'v \<Rightarrow> 'v \<Rightarrow> 'v \<Rightarrow> bool" where
  "idominates E S r a b \<longleftrightarrow> a \<noteq> b \<and> dominates E r a b \<and> (\<forall>d \<in> S. d \<noteq> b \<longrightarrow> dominates E r d b \<longrightarrow> dominates E r d a)"

lemma parent_greatest:
  assumes P: "\<And>k. 0 < k \<Longrightarrow> P k < k" and "a < n" "b < n"
  shows "0 < b \<and> P b = a \<longleftrightarrow> a \<noteq> b \<and> anc P a b \<and> (\<forall>d < n. d \<noteq> b \<longrightarrow> anc P d b \<longrightarrow> anc P d a)" (is "_ \<longleftrightarrow> ?R")
proof
  assume b: "0 < b \<and> P b = a"
  then have "a \<noteq> b" using P [of b] by auto
  moreover have "anc P a b" using b by (auto intro: anc.intros)
  moreover have "anc P d a" if "d \<noteq> b" "anc P d b" for d using that b by (auto elim: anc.cases)
  ultimately show ?R by blast
next
  assume r: ?R
  then have b: "0 < b" "anc P a (P b)" by (auto elim: anc.cases)
  then have "P b < n" "P b \<noteq> b" "anc P (P b) b" using P [of b] assms(3) by (auto intro: anc.intros)
  then have "anc P (P b) a" using r by blast
  then show "0 < b \<and> P b = a" using anc_less_eq [OF _ P] b by (metis antisym)
qed

lemma idominates_vert:
  assumes "spanned c t" "a < length (BlockSlice c)" "b < length (BlockSlice c)"
  shows "idominates (edge (Blocks c)) (set (BlockSlice c)) (vert t 0) (vert t a) (vert t b) \<longleftrightarrow>
    0 < b \<and> imm_dom (edgen c t) b = a"
proof -
  let ?n = "length (BlockSlice c)" and ?P = "imm_dom (edgen c t)"
  have "(\<forall>d \<in> set (BlockSlice c). Q d) \<longleftrightarrow> (\<forall>d < ?n. Q (vert t d))" for Q
    using spannedD(1) [OF assms(1)] vert_num [OF assms(1)] by metis
  then have "idominates (edge (Blocks c)) (set (BlockSlice c)) (vert t 0) (vert t a) (vert t b) \<longleftrightarrow>
      a \<noteq> b \<and> anc ?P a b \<and> (\<forall>d < ?n. d \<noteq> b \<longrightarrow> anc ?P d b \<longrightarrow> anc ?P d a)"
    using dominates_vert [OF assms(1)] vert_eq [OF assms(1)] assms(2,3) by (auto simp: idominates_def)
  also have "\<dots> \<longleftrightarrow> 0 < b \<and> ?P b = a" by (rule parent_greatest [OF imm_dom_range assms(2,3), symmetric])
  finally show ?thesis .
qed

lemma linkedI:
  assumes "wf_blocks (Blocks c)" "keys (Blocks c) = set (BlockSlice c)"
    and "\<And>s b. map_of (Blocks c) s = Some b \<Longrightarrow> PredBs b = map Some (Preds b)"
  shows "linked c"
  unfolding linked_def
proof
  fix v
  assume "v \<in> set (BlockSlice c)"
  then obtain b where b: "map_of (Blocks c) v = Some b" using assms(2) keys_dom by metis
  have "edge (Blocks c) u v \<longleftrightarrow> u \<in> set (Preds b)" for u using assms(1) b by (simp add: wf_blocks_def redge_def)
  then show "set (PredBs (block_at c v)) = Some ` {u. edge (Blocks c) u v} \<and> {u. edge (Blocks c) u v} \<subseteq> set (BlockSlice c)"
    using edge_keys [OF assms(1)] assms(2,3) b by auto
qed

section \<open>The whole construction\<close>

text \<open>What the construction promises of the blocks it leaves.\<close>

definition dom_tree_of :: "CFG \<Rightarrow> CFG \<Rightarrow> bool" where
  "dom_tree_of c c' \<longleftrightarrow> c' = c\<lparr>Blocks := Blocks c'\<rparr> \<and> upto_dom (Blocks c) (Blocks c') \<and>
     (\<forall>a \<in> set (BlockSlice c). \<forall>b \<in> set (BlockSlice c).
        (Dominates (block_at c' a) (block_at c' b) \<longleftrightarrow> dominates (edge (Blocks c)) (BlockSlice c ! 0) a b) \<and>
        (Idom (block_at c' b) = Some a \<longleftrightarrow> idominates (edge (Blocks c)) (set (BlockSlice c)) (BlockSlice c ! 0) a b) \<and>
        (b \<in> set (Dominees (block_at c' a)) \<longleftrightarrow> Idom (block_at c' b) = Some a)) \<and>
     Idom (block_at c' (BlockSlice c ! 0)) = None \<and>
     (\<forall>b \<in> set (BlockSlice c). b \<noteq> BlockSlice c ! 0 \<longrightarrow> (\<exists>a \<in> set (BlockSlice c). Idom (block_at c' b) = Some a))"

lemma renumbered_block:
  assumes "renumbered m m' S f g" "map_of m v = Some b"
  shows "\<exists>b'. map_of m' v = Some b' \<and> idom (dom_info b') = idom (dom_info b) \<and> children (dom_info b') = children (dom_info b)"
  using assms by (auto simp: renumbered_def)

lemma upto_dom_renumbered:
  assumes "upto_dom m0 m" "renumbered m m' S f g"
  shows "upto_dom m0 m'"
proof -
  have "map_option undom (map_of m' v) = map_option undom (map_of m v)" for v
    using assms(2) by (cases "map_of m v") (auto simp: renumbered_def undom_def)
  with assms(1) show ?thesis by (simp add: upto_dom_def)
qed

lemma tree_numbers:
  assumes "spanned c t" "tree_inv c t (length (BlockSlice c)) s" "length (BlockSlice c) \<le> depth"
  shows "\<exists>k m'. numberDomTree depth (vert t 0) ((0, 0), lt_blocks s) = Inr (k, m') \<and> dom_tree_of c (c\<lparr>Blocks := m'\<rparr>)"
proof -
  let ?n = "length (BlockSlice c)" and ?I = "imm_dom (edgen c t)"
  have inv: "lt_frame c t s" "idom_at t s 0 = None"
    "\<And>k. 0 < k \<Longrightarrow> k < ?n \<Longrightarrow> idom_at t s k = Some (vert t (?I k))"
    "\<And>d. d < ?n \<Longrightarrow> children (dom_info (blk s (vert t d))) = map (vert t) (kids c t ?n d)"
    using assms(2) unfolding tree_inv_def lt_arrays_def by simp_all
  have n: "0 < ?n" and root: "vert t 0 = BlockSlice c ! 0" using assms(1) by (auto simp: spanned_def numbered_def)
  have V: "inj_on (vert t) {..<?n}" using vert_eq [OF assms(1)] by (auto simp: inj_on_def)
  have "\<exists>b. map_of (lt_blocks s) (vert t d) = Some b \<and>
      children (dom_info b) = map (vert t) (filter (\<lambda>k. ?I k = d) [1..<?n])" if d: "d < ?n" for d
  proof -
    obtain b where "map_of (lt_blocks s) (vert t d) = Some b" by (rule blk_vert [OF assms(1) inv(1) d])
    with inv(4) [OF d] show ?thesis by (simp add: kids_def)
  qed
  from parent_tree [OF imm_dom_range V this n] obtain T where "tree_of ?I (vert t) ?n (lt_blocks s) 0 T" by blast
  then have T: "lab T = vert t 0" "spans (lt_blocks s) T" "distinct (labels T)" "height T \<le> depth"
    "set (labels T) = vert t ` {x. x < ?n \<and> anc ?I 0 x}"
    "\<And>a b. a < ?n \<Longrightarrow> b < ?n \<Longrightarrow> above T (vert t a) (vert t b) \<longleftrightarrow> anc ?I 0 a \<and> anc ?I a b"
    using assms(3) by (auto simp: tree_of_def)
  have top: "a < ?n \<Longrightarrow> anc ?I 0 a" for a
    using dominates_vert [OF assms(1) n] by (auto simp: dominates_def)
  have labs: "vert t a \<in> set (labels T)" if "a < ?n" for a using T(5) top that by blast
  obtain k m' f g where r: "numberDomTree depth (vert t 0) ((0, 0), lt_blocks s) = Inr (k, m')"
    "renumbered (lt_blocks s) m' (set (labels T)) f g"
    "\<forall>a \<in> set (labels T). \<forall>b \<in> set (labels T). Dominates (the (map_of m' a)) (the (map_of m' b)) = above T a b"
    using numberDomTree_correct [OF T(2,3,4)] unfolding T(1) by blast
  have b': "Idom (the (map_of m' (vert t d))) = idom_at t s d"
    "Dominees (the (map_of m' (vert t d))) = map (vert t) (kids c t ?n d)" if d: "d < ?n" for d
  proof -
    obtain b where b: "map_of (lt_blocks s) (vert t d) = Some b" by (rule blk_vert [OF assms(1) inv(1) d])
    from renumbered_block [OF r(2) b] b inv(4) [OF d]
    show "Idom (the (map_of m' (vert t d))) = idom_at t s d" "Dominees (the (map_of m' (vert t d))) = map (vert t) (kids c t ?n d)"
      by (auto simp: Idom_def Dominees_def idom_at_def)
  qed
  have id: "idom_at t s b = Some (vert t a) \<longleftrightarrow> 0 < b \<and> ?I b = a" if "a < ?n" "b < ?n" for a b
    using inv(2) inv(3) [of b] vert_eq [OF assms(1) _ that(1), of "?I b"] imm_dom_range [of b c t] that(2)
    by (cases "b = 0") auto
  have "(Dominates (the (map_of m' (vert t a))) (the (map_of m' (vert t b))) \<longleftrightarrow>
        dominates (edge (Blocks c)) (vert t 0) (vert t a) (vert t b)) \<and>
      (Idom (the (map_of m' (vert t b))) = Some (vert t a) \<longleftrightarrow>
        idominates (edge (Blocks c)) (set (BlockSlice c)) (vert t 0) (vert t a) (vert t b)) \<and>
      (vert t b \<in> set (Dominees (the (map_of m' (vert t a)))) \<longleftrightarrow> Idom (the (map_of m' (vert t b))) = Some (vert t a))"
    if ab: "a < ?n" "b < ?n" for a b
  proof -
    have "vert t b \<in> set (map (vert t) (kids c t ?n a)) \<longleftrightarrow> 0 < b \<and> ?I b = a"
      using vert_eq [OF assms(1) ab(2)] ab(2) unfolding kids_def by (fastforce simp: image_iff)
    with r(3) labs T(6) top dominates_vert [OF assms(1) ab] idominates_vert [OF assms(1) ab] b' id ab show ?thesis by auto
  qed
  then have "\<forall>a \<in> set (BlockSlice c). \<forall>b \<in> set (BlockSlice c).
      (Dominates (the (map_of m' a)) (the (map_of m' b)) \<longleftrightarrow> dominates (edge (Blocks c)) (vert t 0) a b) \<and>
      (Idom (the (map_of m' b)) = Some a \<longleftrightarrow> idominates (edge (Blocks c)) (set (BlockSlice c)) (vert t 0) a b) \<and>
      (b \<in> set (Dominees (the (map_of m' a))) \<longleftrightarrow> Idom (the (map_of m' b)) = Some a)"
    using vert_num [OF assms(1)] by metis
  moreover have "upto_dom (Blocks c) m'" using upto_dom_renumbered [OF _ r(2)] inv(1) by (simp add: lt_frame_def)
  moreover have "Idom (the (map_of m' (vert t 0))) = None" using b'(1) [OF n] inv(2) by simp
  moreover have "\<exists>a \<in> set (BlockSlice c). Idom (the (map_of m' b)) = Some a" if b: "b \<in> set (BlockSlice c)" "b \<noteq> vert t 0" for b
  proof -
    let ?k = "num t b"
    have k: "?k < ?n" "vert t ?k = b" by (rule vert_num [OF assms(1) b(1)])+
    then have "0 < ?k" using b(2) by (metis gr0I)
    then have "?I ?k < ?n" "Idom (the (map_of m' b)) = Some (vert t (?I ?k))"
      using imm_dom_range [of ?k c t] inv(3) [of ?k] b'(1) [of ?k] k by auto
    with spannedD(1) [OF assms(1), of "?I ?k"] show ?thesis by blast
  qed
  ultimately have "dom_tree_of c (c\<lparr>Blocks := m'\<rparr>)" unfolding dom_tree_of_def root by simp
  with r(1) show ?thesis by blast
qed

lemma tree_inv_start:
  assumes "spanned c t" "lt_arrays c t (semis c t 0) 0 s" "bare c t s"
    "\<forall>k. 0 < k \<longrightarrow> k < length (BlockSlice c) \<longrightarrow> (\<exists>d. idom_at t s k = Some (vert t d) \<and> deferred c t k d)"
  shows "tree_inv c t 1 s"
  using assms(2-4) spannedD(1) [OF assms(1)] by (auto simp: tree_inv_def bare_def kids_def)

lemma preorder_verts:
  assumes "spanned c t" "lt_frame c t s"
  shows "drop 1 (preorder s) = map (\<lambda>k. Some (vert t k)) [1..<length (BlockSlice c)]"
proof -
  have "length (preorder t) = length (BlockSlice c)" using assms(1) by (simp add: spanned_def dfs_inv_def dfs_ok_def)
  then show ?thesis
    using assms(2) spannedD(3) [OF assms(1)] by (intro nth_equalityI) (auto simp: lt_frame_def)
qed

lemma BuildDomTree_total:
  assumes "numbered c" "linked c" "length (BlockSlice c) \<le> depth"
    and "\<And>v. v \<in> set (BlockSlice c) \<Longrightarrow> (edge (Blocks c))\<^sup>*\<^sup>* (BlockSlice c ! 0) v"
  shows "\<exists>c'. BuildDomTree depth c = Some (Inr c') \<and> dom_tree_of c c'"
proof -
  let ?n = "length (BlockSlice c)" and ?r = "BlockSlice c ! 0"
  obtain t where t: "dfs depth ?r 0 (lt_start c) = Inr (?n, t)" "spanned c t" using dfs_spans [OF assms(1,3,4)] by blast
  have n: "0 < ?n" and root: "vert t 0 = ?r" using t(2) by (auto simp: spanned_def numbered_def)
  then have pred: "?n - 1 < ?n" "Suc (?n - 1) = ?n" by linarith+
  obtain s1 where s1: "gfold lt_round (t\<lparr>buckets := preorder t\<rparr>) (rev [1..<?n]) = Some (Inr s1)" "round_inv c t 0 s1"
    using rounds_correct [OF t(2) assms(2) pred(1) round_inv_start [OF t(2)]] unfolding pred(2) by blast
  from loops_correct [OF t(2) s1(2)] obtain v s2 where s2: "index_go (buckets s1) 0 = Inr (Some (vert t v))"
    "root_loop (Some ?r) (Some (vert t v)) s1 = Some (Inr s2)" "tree_inv c t 1 s2" "lt_frame c t s2"
    using tree_inv_start [OF t(2)] unfolding root lt_arrays_def by blast
  obtain s3 where s3: "foldR (idom_step (Some ?r)) s2 (drop 1 (preorder s2)) = Inr s3" "tree_inv c t ?n s3"
    using idom_steps_correct [OF t(2) n _ s2(3)] preorder_verts [OF t(2) s2(4)] unfolding root by auto
  obtain k m' where m': "numberDomTree depth ?r ((0, 0), lt_blocks s3) = Inr (k, m')" "dom_tree_of c (c\<lparr>Blocks := m'\<rparr>)"
    using tree_numbers [OF t(2) s3(2) assms(3)] unfolding root by blast
  have "index_go (BlockSlice c) 0 = Inr ?r" using n by (simp add: index_go_def)
  with t(1) s1(1) s2(1,2) s3(1) m' show ?thesis by (simp add: BuildDomTree_def)
qed

text \<open>
  C20: the dominator tree. On a numbered graph whose blocks can all be reached from the first one,
  \<open>BuildDomTree\<close>, the algorithm of Lengauer and Tarjan, ends without a panic, with a stack as deep
  as the graph is large. It changes nothing but the dominance information of the blocks;
  afterwards \<open>Dominates\<close> holds between two blocks exactly when every path from the first block
  to the second passes the first of them, \<open>Idom\<close> is the immediate dominator, nil for the first
  block alone, and \<open>Dominees\<close> is its inverse.
\<close>

theorem BuildDomTree_correct:
  assumes "numbered c" "linked c" "length (BlockSlice c) \<le> depth"
    and "\<And>v. v \<in> set (BlockSlice c) \<Longrightarrow> (edge (Blocks c))\<^sup>*\<^sup>* (BlockSlice c ! 0) v"
  shows "\<exists>c'. BuildDomTree depth c = Some (Inr c') \<and> dom_tree_of c c'"
  using assms by (rule BuildDomTree_total)

lemma linked_InitializeBlocks:
  assumes "wf_blocks (Blocks c)" "range_order ord" "Entry c \<in> keys (Blocks c)"
    and "\<And>s b. map_of (Blocks c) s = Some b \<Longrightarrow> PredBs b = [] \<and> SuccBs b = []"
  shows "linked (InitializeBlocks ord c)"
proof -
  from InitializeBlocks_graph [OF assms(1-3)] assms(4) show ?thesis by (intro linkedI) (blast, metis, blast)
qed

text \<open>A conditional: \<open>2\<close> leads to \<open>3\<close> and \<open>4\<close>, and \<open>3\<close> leads to \<open>4\<close>.\<close>

definition branch_prog_cfg :: CFG where
  "branch_prog_cfg = FromStmts 0 1 [IfStmt 2 None (Ident 20) [EmptyStmt 3] None, EmptyStmt 4]"

lemma branch_prog_blocks:
  "wf_blocks (Blocks branch_prog_cfg)" "keys (Blocks branch_prog_cfg) = {0, 1, 2, 3, 4}"
  "Entry branch_prog_cfg = 0" "Exit_node branch_prog_cfg = 1"
  "edge (Blocks branch_prog_cfg) s t \<longleftrightarrow> (s, t) \<in> {(0, 2), (2, 3), (2, 4), (3, 4), (4, 1)}"
  "map_of (Blocks branch_prog_cfg) v = Some b \<Longrightarrow> PredBs b = [] \<and> SuccBs b = []"
proof -
  have m: "Blocks branch_prog_cfg =
      [(2, (new_Block 2)\<lparr>Preds := [0], Succs := [3, 4]\<rparr>), (0, (new_Block 0)\<lparr>Succs := [2]\<rparr>),
       (3, (new_Block 3)\<lparr>Preds := [2], Succs := [4]\<rparr>), (4, (new_Block 4)\<lparr>Preds := [3, 2], Succs := [1]\<rparr>),
       (1, (new_Block 1)\<lparr>Preds := [4]\<rparr>)]"
    by code_simp
  show "wf_blocks (Blocks branch_prog_cfg)" "keys (Blocks branch_prog_cfg) = {0, 1, 2, 3, 4}"
    using FromStmts_graph [of 0 1 "[IfStmt 2 None (Ident 20) [EmptyStmt 3] None, EmptyStmt 4]"] by (auto simp: branch_prog_cfg_def)
  show "Entry branch_prog_cfg = 0" "Exit_node branch_prog_cfg = 1" by (code_simp)+
  show "edge (Blocks branch_prog_cfg) s t \<longleftrightarrow> (s, t) \<in> {(0, 2), (2, 3), (2, 4), (3, 4), (4, 1)}"
    by (auto simp: m edge_def new_Block_def split: if_splits)
  show "map_of (Blocks branch_prog_cfg) v = Some b \<Longrightarrow> PredBs b = [] \<and> SuccBs b = []"
    by (auto simp: m new_Block_def split: if_splits)
qed

theorem BuildDomTree_correct_witness:
  "\<exists>c'. BuildDomTree 5 (InitializeBlocks sorted_list_of_set branch_prog_cfg) = Some (Inr c') \<and>
    Dominates (block_at c' 2) (block_at c' 4) \<and> \<not> Dominates (block_at c' 3) (block_at c' 4)"
proof -
  let ?c = "InitializeBlocks sorted_list_of_set branch_prog_cfg"
  note g = branch_prog_blocks
  have en: "Entry branch_prog_cfg \<in> keys (Blocks branch_prog_cfg)" using g by simp
  have n: "numbered ?c" "edge (Blocks ?c) = edge (Blocks branch_prog_cfg)" "BlockSlice ?c ! 0 = Entry branch_prog_cfg"
    "set (BlockSlice ?c) = keys (Blocks branch_prog_cfg)"
    by (rule numbered_InitializeBlocks [OF g(1) range_order_sorted en], erule g(6))+
  have l: "linked ?c" by (rule linked_InitializeBlocks [OF g(1) range_order_sorted en], erule g(6))
  let ?E = "edge (Blocks ?c)"
  have E: "?E s t \<longleftrightarrow> (s, t) \<in> {(0, 2), (2, 3), (2, 4), (3, 4), (4, 1)}" for s t unfolding n(2) by (rule g(5))
  have S: "set (BlockSlice ?c) = {0, 1, 2, 3, 4}" "BlockSlice ?c ! 0 = 0" using n(3,4) g by auto
  have "length (BlockSlice ?c) = card (set (BlockSlice ?c))" using n(1) by (simp add: numbered_def distinct_card)
  then have len: "length (BlockSlice ?c) \<le> 5" by (simp add: S)
  have e: "?E 0 2" "?E 2 3" "?E 2 4" "?E 4 1" by (simp_all add: E)
  have path: "?E\<^sup>*\<^sup>* 0 2" "?E\<^sup>*\<^sup>* 0 3" "?E\<^sup>*\<^sup>* 0 4" "?E\<^sup>*\<^sup>* 0 1" by (blast intro: rtranclp.rtrancl_into_rtrancl e)+
  have "avoiding ?E 3 0 2" "avoiding ?E 3 2 4" using e by (simp_all add: avoiding_def)
  then have "(avoiding ?E 3)\<^sup>*\<^sup>* 0 4" by (blast intro: rtranclp.rtrancl_into_rtrancl)
  then have "\<not> dominates ?E 0 3 4" by (simp add: dominates_def)
  moreover have "(avoiding ?E 2)\<^sup>*\<^sup>* 0 t \<Longrightarrow> t = 0" for t
    by (induction rule: rtranclp_induct) (auto simp: avoiding_def E)
  then have "\<not> (avoiding ?E 2)\<^sup>*\<^sup>* 0 4" by (metis zero_neq_numeral)
  then have "dominates ?E 0 2 4" by (simp add: dominates_def)
  moreover obtain c' where "BuildDomTree 5 ?c = Some (Inr c')" "dom_tree_of ?c c'"
    using BuildDomTree_correct [OF n(1) l len] path S by auto
  ultimately show ?thesis using S by (auto simp: dom_tree_of_def)
qed

end
