(* ===== verification/Control_Deps.thy ===== *)
theory Control_Deps
  imports Dom_Correct
begin

text \<open>
  Post-dominators and control dependences of a control flow graph: \<open>BuildPostDomTree\<close> followed by
  \<open>FindControlDeps\<close> against the definitions on paths.
\<close>

section \<open>The order of dominators\<close>

lemma dominates_order:
  assumes "numbered c" "\<forall>v \<in> set (BlockSlice c). (edge (Blocks c))\<^sup>*\<^sup>* (BlockSlice c ! 0) v"
  defines "D \<equiv> dominates (edge (Blocks c)) (BlockSlice c ! 0)"
  shows "a \<in> set (BlockSlice c) \<Longrightarrow> b \<in> set (BlockSlice c) \<Longrightarrow> D a b \<Longrightarrow> D b a \<Longrightarrow> a = b"
    "a \<in> set (BlockSlice c) \<Longrightarrow> b \<in> set (BlockSlice c) \<Longrightarrow> d \<in> set (BlockSlice c) \<Longrightarrow> D a b \<Longrightarrow> D b d \<Longrightarrow> D a d"
    "a \<in> set (BlockSlice c) \<Longrightarrow> b \<in> set (BlockSlice c) \<Longrightarrow> d \<in> set (BlockSlice c) \<Longrightarrow> D a d \<Longrightarrow> D b d \<Longrightarrow> D a b \<or> D b a"
proof -
  obtain t where t: "spanned c t" using dfs_spans [OF assms(1) order_refl] assms(2) by blast
  let ?P = "imm_dom (edgen c t)"
  have D: "D a b \<longleftrightarrow> anc ?P (num t a) (num t b)" if "a \<in> set (BlockSlice c)" "b \<in> set (BlockSlice c)" for a b
    using dominates_vert [OF t vert_num(1) [OF t that(1)] vert_num(1) [OF t that(2)]] vert_num(2) [OF t that(1)]
      vert_num(2) [OF t that(2)] t by (simp add: D_def spanned_def)
  have trans: "anc ?P v w \<Longrightarrow> anc ?P u v \<Longrightarrow> anc ?P u w" for u v w
    by (induction rule: anc.induct) (auto intro: anc_step)
  have anti: "anc ?P u v \<Longrightarrow> anc ?P v u \<Longrightarrow> u = v" for u v
    using anc_less_eq [of ?P u v] anc_less_eq [of ?P v u] imm_dom_range by (meson antisym)
  show "a = b" if "a \<in> set (BlockSlice c)" "b \<in> set (BlockSlice c)" "D a b" "D b a"
  proof -
    have "num t a = num t b" using D [of a b] D [of b a] anti [of "num t a" "num t b"] that by blast
    with vert_num(2) [OF t that(1)] vert_num(2) [OF t that(2)] show ?thesis by metis
  qed
  show "a \<in> set (BlockSlice c) \<Longrightarrow> b \<in> set (BlockSlice c) \<Longrightarrow> d \<in> set (BlockSlice c) \<Longrightarrow> D a b \<Longrightarrow> D b d \<Longrightarrow> D a d"
    using D [of a b] D [of b d] D [of a d] trans [of "num t b" "num t d" "num t a"] by blast
  show "a \<in> set (BlockSlice c) \<Longrightarrow> b \<in> set (BlockSlice c) \<Longrightarrow> d \<in> set (BlockSlice c) \<Longrightarrow> D a d \<Longrightarrow> D b d \<Longrightarrow> D a b \<or> D b a"
    using D [of a b] D [of b a] D [of b d] D [of a d] anc_linear [of ?P "num t a" "num t d" "num t b"] by blast
qed

lemma dominates_refl: "dominates E r a a" and dominates_root: "dominates E r a r \<Longrightarrow> a = r"
  by (auto simp: dominates_def)

text \<open>A proper dominator of a vertex dominates its predecessors.\<close>

lemma dominates_pred:
  assumes "E x y" "dominates E r d y" "d \<noteq> y"
  shows "dominates E r d x"
proof (rule ccontr)
  assume "\<not> dominates E r d x"
  then have "d \<noteq> r" "d \<noteq> x" "(avoiding E d)\<^sup>*\<^sup>* r x" by (auto simp: dominates_def)
  moreover have "avoiding E d x y" using assms(1,3) \<open>d \<noteq> x\<close> by (simp add: avoiding_def)
  ultimately have "(avoiding E d)\<^sup>*\<^sup>* r y" by simp
  with assms(2,3) \<open>d \<noteq> r\<close> show False by (simp add: dominates_def)
qed

section \<open>Climbing the tree of dominators\<close>

lemma idom_of_block: "map_of m v = Some b \<Longrightarrow> idom_of m v = Idom (the (map_of m v))"
  by (simp add: idom_of_def Idom_def)

text \<open>What a table of immediate dominators on an order of dominators gives.\<close>

definition imm_table :: "(node \<Rightarrow> node option) \<Rightarrow> node set \<Rightarrow> (node \<Rightarrow> node \<Rightarrow> bool) \<Rightarrow> bool" where
  "imm_table I S D \<longleftrightarrow> finite S \<and> (\<forall>a. D a a) \<and> (\<forall>a \<in> S. \<forall>b \<in> S. D a b \<longrightarrow> D b a \<longrightarrow> a = b) \<and>
     (\<forall>a \<in> S. \<forall>b \<in> S. \<forall>d \<in> S. D a b \<longrightarrow> D b d \<longrightarrow> D a d) \<and>
     (\<forall>a \<in> S. \<forall>b \<in> S. \<forall>d \<in> S. D a d \<longrightarrow> D b d \<longrightarrow> D a b \<or> D b a) \<and>
     (\<forall>b \<in> S. case I b of
         None \<Rightarrow> \<forall>d \<in> S. D d b \<longrightarrow> d = b
       | Some a \<Rightarrow> a \<in> S \<and> a \<noteq> b \<and> D a b \<and> (\<forall>d \<in> S. d \<noteq> b \<longrightarrow> D d b \<longrightarrow> D d a))"

lemma imm_tableD:
  assumes "imm_table I S D"
  shows "D a a" "a \<in> S \<Longrightarrow> b \<in> S \<Longrightarrow> D a b \<Longrightarrow> D b a \<Longrightarrow> a = b"
    "a \<in> S \<Longrightarrow> b \<in> S \<Longrightarrow> d \<in> S \<Longrightarrow> D a b \<Longrightarrow> D b d \<Longrightarrow> D a d"
    "a \<in> S \<Longrightarrow> b \<in> S \<Longrightarrow> d \<in> S \<Longrightarrow> D a d \<Longrightarrow> D b d \<Longrightarrow> D a b \<or> D b a"
    "b \<in> S \<Longrightarrow> I b = None \<Longrightarrow> d \<in> S \<Longrightarrow> D d b \<Longrightarrow> d = b"
    "b \<in> S \<Longrightarrow> I b = Some a \<Longrightarrow> a \<in> S \<and> a \<noteq> b \<and> D a b"
    "b \<in> S \<Longrightarrow> I b = Some a \<Longrightarrow> d \<in> S \<Longrightarrow> d \<noteq> b \<Longrightarrow> D d b \<Longrightarrow> D d a"
proof -
  have t: "\<forall>a. D a a" "\<forall>a \<in> S. \<forall>b \<in> S. D a b \<longrightarrow> D b a \<longrightarrow> a = b"
    "\<forall>a \<in> S. \<forall>b \<in> S. \<forall>d \<in> S. D a b \<longrightarrow> D b d \<longrightarrow> D a d"
    "\<forall>a \<in> S. \<forall>b \<in> S. \<forall>d \<in> S. D a d \<longrightarrow> D b d \<longrightarrow> D a b \<or> D b a"
    "\<forall>b \<in> S. case I b of None \<Rightarrow> \<forall>d \<in> S. D d b \<longrightarrow> d = b
       | Some a \<Rightarrow> a \<in> S \<and> a \<noteq> b \<and> D a b \<and> (\<forall>d \<in> S. d \<noteq> b \<longrightarrow> D d b \<longrightarrow> D d a)"
    using assms unfolding imm_table_def by - (elim conjE, assumption)+
  show "D a a" using t(1) by blast
  show "a \<in> S \<Longrightarrow> b \<in> S \<Longrightarrow> D a b \<Longrightarrow> D b a \<Longrightarrow> a = b" using t(2) by blast
  show "a \<in> S \<Longrightarrow> b \<in> S \<Longrightarrow> d \<in> S \<Longrightarrow> D a b \<Longrightarrow> D b d \<Longrightarrow> D a d" using t(3) by blast
  show "a \<in> S \<Longrightarrow> b \<in> S \<Longrightarrow> d \<in> S \<Longrightarrow> D a d \<Longrightarrow> D b d \<Longrightarrow> D a b \<or> D b a" using t(4) by blast
  show "b \<in> S \<Longrightarrow> I b = None \<Longrightarrow> d \<in> S \<Longrightarrow> D d b \<Longrightarrow> d = b"
    "b \<in> S \<Longrightarrow> I b = Some a \<Longrightarrow> a \<in> S \<and> a \<noteq> b \<and> D a b"
    "b \<in> S \<Longrightarrow> I b = Some a \<Longrightarrow> d \<in> S \<Longrightarrow> d \<noteq> b \<Longrightarrow> D d b \<Longrightarrow> D d a"
    using bspec [OF t(5), of b] by simp_all
qed

definition depth_in :: "node set \<Rightarrow> (node \<Rightarrow> node \<Rightarrow> bool) \<Rightarrow> node \<Rightarrow> nat" where
  "depth_in S D v = card {d \<in> S. D d v}"

lemma depth_imm:
  assumes "imm_table I S D" "b \<in> S" "I b = Some a"
  shows "depth_in S D a < depth_in S D b"
proof -
  note t = imm_tableD [OF assms(1)]
  have a: "a \<in> S" "a \<noteq> b" "D a b" using t(6) [OF assms(2,3)] by auto
  have "{d \<in> S. D d a} \<subseteq> {d \<in> S. D d b}" using t(3) [OF _ a(1) assms(2)] a(3) by blast
  moreover have "b \<in> {d \<in> S. D d b} - {d \<in> S. D d a}" using t(1,2) a assms(2) by blast
  moreover have "finite S" using assms(1) by (simp add: imm_table_def)
  ultimately show ?thesis unfolding depth_in_def by (intro psubset_card_mono) auto
qed

lemma climbs_dominators:
  assumes "imm_table (idom_of m) S D" and top: "\<And>k. u = Some k \<Longrightarrow> k \<in> S \<and> D k x" and x: "x \<in> S" "n \<in> S"
  shows "climbs m u x n \<longleftrightarrow> D n x \<and> (\<forall>k. u = Some k \<longrightarrow> \<not> D n k)"
proof
  note t = imm_tableD [OF assms(1)]
  have "n \<in> S \<and> D n x \<and> (\<forall>k. u = Some k \<longrightarrow> \<not> D n k)" if "climbs m u x n" for n
    using that
  proof (induction rule: climbs.induct)
    case climb_start
    then show ?case using t(1,2) x(1) top by blast
  next
    case (climb_up n z)
    then have n: "n \<in> S" "D n x" "\<And>k. u = Some k \<Longrightarrow> \<not> D n k" by auto
    have z: "z \<in> S" "z \<noteq> n" "D z n" using t(6) [OF n(1) climb_up.hyps(2)] by auto
    have "\<not> D z k" if k: "u = Some k" for k
    proof
      assume "D z k"
      have k': "k \<in> S" "D k x" "k \<noteq> z" using top [OF k] climb_up.hyps(3) k by auto
      have "D k n" using t(4) [OF k'(1) n(1) x(1) k'(2) n(2)] n(3) [OF k] by blast
      moreover have "k \<noteq> n" using n(3) [OF k] t(1) by blast
      ultimately have "D k z" using t(7) [OF n(1) climb_up.hyps(2) k'(1)] by blast
      with \<open>D z k\<close> k' z(1) t(2) show False by blast
    qed
    moreover have "D z x" using t(3) [OF z(1) n(1) x(1) z(3) n(2)] .
    ultimately show ?case using z(1) by blast
  qed
  then show "climbs m u x n \<Longrightarrow> D n x \<and> (\<forall>k. u = Some k \<longrightarrow> \<not> D n k)" by blast
next
  note t = imm_tableD [OF assms(1)]
  assume n: "D n x \<and> (\<forall>k. u = Some k \<longrightarrow> \<not> D n k)"
  show "climbs m u x n"
    using n top x
  proof (induction "depth_in S D x" arbitrary: x rule: less_induct)
    case less
    have ux: "Some x \<noteq> u" using less.prems(1) by auto
    show ?case
    proof (cases "n = x")
      case True
      with ux show ?thesis by (auto intro: climb_start)
    next
      case False
      then obtain z where z: "idom_of m x = Some z" using t(5) [OF less.prems(3) _ x(2)] less.prems(1) by blast
      have zS: "z \<in> S" "D n z" using t(6) [OF less.prems(3) z] t(7) [OF less.prems(3) z x(2) False] less.prems(1) by auto
      have "k \<in> S \<and> D k z" if "u = Some k" for k
        using less.prems(2) [OF that] t(7) [OF less.prems(3) z, of k] ux that by auto
      then have "climbs m u z n"
        using less.hyps [OF depth_imm [OF assms(1) less.prems(3) z]] less.prems(1) zS x(2) by blast
      with z show ?thesis using climbs_step [OF ux] by blast
    qed
  qed
qed

text \<open>The tree that \<open>BuildDomTree\<close> leaves is such a table.\<close>

lemma dom_tree_block:
  assumes "dom_tree_of c c'" "keys (Blocks c) = set (BlockSlice c)" "v \<in> set (BlockSlice c)"
  obtains b where "map_of (Blocks c') v = Some b" "Succs b = Succs (block_at c v)" "SuccBs b = SuccBs (block_at c v)"
    "ControlDep b = ControlDep (block_at c v)" "DataDep b = DataDep (block_at c v)"
proof -
  obtain b0 where b0: "map_of (Blocks c) v = Some b0" using assms(2,3) keys_dom by metis
  obtain b where b: "map_of (Blocks c') v = Some b" "undom b = undom b0"
    using upto_dom_block [OF _ b0] assms(1) unfolding dom_tree_of_def by blast
  have "Succs b = Succs b0" "SuccBs b = SuccBs b0" "ControlDep b = ControlDep b0" "DataDep b = DataDep b0"
    using arg_cong [OF b(2), of Succs] arg_cong [OF b(2), of SuccBs] arg_cong [OF b(2), of ControlDep]
      arg_cong [OF b(2), of DataDep] by (simp_all add: undom_def)
  with b b0 that show thesis by simp
qed

lemma dom_tree_keys:
  assumes "dom_tree_of c c'"
  shows "keys (Blocks c') = keys (Blocks c)" "edge (Blocks c') = edge (Blocks c)"
proof -
  have u: "map_option undom (map_of (Blocks c') v) = map_option undom (map_of (Blocks c) v)" for v
    using assms by (simp add: dom_tree_of_def upto_dom_def)
  have "v \<in> keys (Blocks c') \<longleftrightarrow> v \<in> keys (Blocks c)" for v
    using u [of v] unfolding keys_dom by (cases "map_of (Blocks c) v") auto
  then show "keys (Blocks c') = keys (Blocks c)" by blast
  have "map_option Succs (map_of (Blocks c') v) = map_option Succs (map_of (Blocks c) v)" for v
    using arg_cong [OF u [of v], of "map_option Succs"] by (simp add: option.map_comp comp_def undom_def)
  moreover have "edge m s t \<longleftrightarrow> (\<exists>ss. map_option Succs (map_of m s) = Some ss \<and> t \<in> set ss)" for m s t
    by (cases "map_of m s") (auto simp: edge_def)
  ultimately show "edge (Blocks c') = edge (Blocks c)" by (intro ext) (simp only:)
qed

lemma dom_tree_table:
  assumes "numbered c" "\<forall>v \<in> set (BlockSlice c). (edge (Blocks c))\<^sup>*\<^sup>* (BlockSlice c ! 0) v"
    and tree: "dom_tree_of c c'" and keys: "keys (Blocks c) = set (BlockSlice c)"
  shows "imm_table (idom_of (Blocks c')) (set (BlockSlice c)) (dominates (edge (Blocks c)) (BlockSlice c ! 0))"
proof -
  let ?S = "set (BlockSlice c)" and ?D = "dominates (edge (Blocks c)) (BlockSlice c ! 0)"
  note o = dominates_order [OF assms(1,2)]
  have root: "BlockSlice c ! 0 \<in> ?S" using assms(1) by (simp add: numbered_def)
  have table: "case idom_of (Blocks c') b of None \<Rightarrow> \<forall>d \<in> ?S. ?D d b \<longrightarrow> d = b
      | Some a \<Rightarrow> a \<in> ?S \<and> a \<noteq> b \<and> ?D a b \<and> (\<forall>d \<in> ?S. d \<noteq> b \<longrightarrow> ?D d b \<longrightarrow> ?D d a)" if b: "b \<in> ?S" for b
  proof -
    obtain b1 where "map_of (Blocks c') b = Some b1" by (rule dom_tree_block [OF tree keys b])
    then have i: "idom_of (Blocks c') b = Idom (block_at c' b)" by (rule idom_of_block)
    show ?thesis
    proof (cases "b = BlockSlice c ! 0")
      case True
      then have "Idom (block_at c' b) = None" using tree by (simp add: dom_tree_of_def)
      with i True show ?thesis using dominates_root by auto
    next
      case False
      then obtain a where a: "a \<in> ?S" "Idom (block_at c' b) = Some a" using tree b unfolding dom_tree_of_def by blast
      then have "idominates (edge (Blocks c)) ?S (BlockSlice c ! 0) a b" using tree b unfolding dom_tree_of_def by blast
      with i a show ?thesis by (simp add: idominates_def)
    qed
  qed
  show ?thesis
    unfolding imm_table_def
    by (intro conjI ballI allI impI) (simp, rule dominates_refl, erule (3) o(1), erule (4) o(2), erule (4) o(3), erule table)
qed

section \<open>Control dependences\<close>

lemma control_pairs:
  assumes "imm_table (idom_of m) S D" "x \<in> S" "y \<in> S" "n \<in> S" "\<not> D x y"
    and pred: "\<And>d. d \<in> S \<Longrightarrow> D d y \<Longrightarrow> d \<noteq> y \<Longrightarrow> D d x"
  shows "climbs m (idom_of m y) x n \<longleftrightarrow> D n x \<and> \<not> (n \<noteq> y \<and> D n y)"
proof (cases "idom_of m y")
  case None
  note t = imm_tableD [OF assms(1)]
  have "D n y \<Longrightarrow> n = y" using t(5) [OF assms(3) None assms(4)] .
  with climbs_dominators [OF assms(1) _ assms(2,4), of None] None show ?thesis by auto
next
  case (Some k)
  note t = imm_tableD [OF assms(1)]
  have k: "k \<in> S" "k \<noteq> y" "D k y" using t(6) [OF assms(3) Some] by auto
  then have "D k x" using pred by blast
  then have "climbs m (Some k) x n \<longleftrightarrow> D n x \<and> \<not> D n k"
    using climbs_dominators [OF assms(1) _ assms(2,4), of "Some k"] k(1) by simp
  moreover have "D n k \<longleftrightarrow> n \<noteq> y \<and> D n y"
  proof
    assume "D n k"
    then have "D n y" using t(3) [OF assms(4) k(1) assms(3) _ k(3)] by blast
    moreover have "n \<noteq> y" using t(2) [OF k(1) assms(3) k(3)] \<open>D n k\<close> k(2) by blast
    ultimately show "n \<noteq> y \<and> D n y" by blast
  next
    assume "n \<noteq> y \<and> D n y"
    then show "D n k" using t(7) [OF assms(3) Some assms(4)] by blast
  qed
  ultimately show ?thesis using Some by simp
qed

text \<open>A statement post-dominates another if every path from that to the exit passes it.\<close>

definition post_dominates :: "CFG \<Rightarrow> node \<Rightarrow> node \<Rightarrow> bool" where
  "post_dominates c n x \<longleftrightarrow> (n \<noteq> Exit_node c \<longrightarrow> n \<noteq> x \<longrightarrow> \<not> (avoiding (edge (Blocks c)) n)\<^sup>*\<^sup>* x (Exit_node c))"

text \<open>
  A statement depends on a branch if it post-dominates some successor of the branch but not,
  as another statement, the branch itself. Of a branch that is its own successor, as the
  condition of an empty loop, the loop edge does not count.
\<close>

definition control_dependent :: "CFG \<Rightarrow> node \<Rightarrow> node \<Rightarrow> bool" where
  "control_dependent c n y \<longleftrightarrow>
     (\<exists>x. x \<noteq> y \<and> edge (Blocks c) y x \<and> post_dominates c n x \<and> \<not> (n \<noteq> y \<and> post_dominates c n y))"

lemma avoiding_converse: "avoiding (\<lambda>x y. E y x) d = (avoiding E d)\<inverse>\<inverse>"
  by (intro ext) (auto simp: avoiding_def)

lemma post_dominates_inverse:
  "dominates (\<lambda>x y. edge (Blocks c) y x) (Exit_node c) n x \<longleftrightarrow> post_dominates c n x"
  by (simp add: dominates_def post_dominates_def avoiding_converse [of "edge (Blocks c)"] rtranclp_conversep)

text \<open>What \<open>InitializeBlocks\<close> changes, whether the pointers between blocks were set before or not.\<close>

lemma InitializeBlocks_shape:
  assumes wf: "wf_blocks (Blocks c)" and ord: "range_order ord" and en: "Entry c \<in> keys (Blocks c)"
  defines "c' \<equiv> InitializeBlocks ord c"
  shows "wf_blocks (Blocks c')" "keys (Blocks c') = keys (Blocks c)" "edge (Blocks c') = edge (Blocks c)"
    "Entry c' = Entry c" "Exit_node c' = Exit_node c"
    "map_option DataDep (map_of (Blocks c') s) = map_option DataDep (map_of (Blocks c) s)"
    "map_option ControlDep (map_of (Blocks c') s) = map_option ControlDep (map_of (Blocks c) s)"
proof -
  define h where "h b = b\<lparr>PredBs := PredBs b @ map (block_ptr (Blocks c)) (Preds b),
                                SuccBs := SuccBs b @ map (block_ptr (Blocks c)) (Succs b)\<rparr>" for b :: Block
  define m where "m = map (\<lambda>(s, b). (s, h b)) (Blocks c)"
  define bs where "bs = entry_first (ord (set (map fst m))) (Entry c)"
  have c': "Blocks c' = number_blocks bs m"
    unfolding c'_def InitializeBlocks_def bs_def Let_def m_def h_def by simp
  show "Entry c' = Entry c" "Exit_node c' = Exit_node c" unfolding c'_def InitializeBlocks_def Let_def by simp_all
  have fst: "map fst m = map fst (Blocks c)" by (induction "Blocks c") (auto simp: m_def)
  have "set (ord (keys (Blocks c))) = keys (Blocks c)" "distinct (ord (keys (Blocks c)))"
    using ord by (auto simp: range_order_def keys_def)
  then have bs: "distinct bs" using entry_first(1) en fst by (simp add: bs_def keys_def)
  have mo: "map_of (Blocks c') s = map_option (\<lambda>b. case position bs s of None \<Rightarrow> h b | Some i \<Rightarrow> (h b)\<lparr>Index := int i\<rparr>) (map_of (Blocks c) s)" for s
    using map_of_number_aux [OF bs, of 0 m s, unfolded add_0]
    by (cases "map_of (Blocks c) s") (auto simp: c' number_blocks_def m_def map_of_values split: option.split)
  have "map fst (Blocks c') = map fst (Blocks c)" using fst c' by simp
  with wf have "wf_blocks (Blocks c') \<and> keys (Blocks c') = keys (Blocks c) \<and> edge (Blocks c') = edge (Blocks c)"
    using mo by (rule wf_blocks_cong) (simp add: h_def split: option.split)
  then show "wf_blocks (Blocks c')" "keys (Blocks c') = keys (Blocks c)" "edge (Blocks c') = edge (Blocks c)" by blast+
  show "map_option DataDep (map_of (Blocks c') s) = map_option DataDep (map_of (Blocks c) s)"
    "map_option ControlDep (map_of (Blocks c') s) = map_option ControlDep (map_of (Blocks c) s)"
    unfolding mo by (cases "map_of (Blocks c) s"; simp add: h_def split: option.split)+
qed

text \<open>The graph on which post-dominators are computed.\<close>

lemma inverted_graph:
  assumes "wf_blocks (Blocks c)" "range_order ord" "range_order ord'" "Entry c \<in> keys (Blocks c)" "Exit_node c \<in> keys (Blocks c)"
  defines "ci \<equiv> InvertCFG ord' (InitializeBlocks ord c)"
  shows "numbered ci" "linked ci" "edge (Blocks ci) = (\<lambda>x y. edge (Blocks c) y x)" "BlockSlice ci ! 0 = Exit_node c"
    "set (BlockSlice ci) = keys (Blocks c)" "keys (Blocks ci) = keys (Blocks c)"
    "v \<in> keys (Blocks c) \<Longrightarrow> ControlDep (block_at ci v) = [] \<and> DataDep (block_at ci v) = DataDep (block_at c v)"
proof -
  let ?c = "InitializeBlocks ord c"
  define c2 where "c2 = \<lparr>Entry = Exit_node ?c, Exit_node = Entry ?c, Defers = [],
    Blocks = fold (\<lambda>(s, b) m. gomap_set (Stmt b) (inv_block b) m) (Blocks ?c) [], BlockSlice = []\<rparr>"
  have ci: "ci = InitializeBlocks ord' c2" by (simp add: ci_def InvertCFG_def c2_def)
  note g = InitializeBlocks_shape [OF assms(1,2,4)]
  note ex = g(5)
  have inv: "wf_blocks (Blocks c2)" "keys (Blocks c2) = keys (Blocks c)" "\<And>s t. edge (Blocks c2) s t = edge (Blocks c) t s"
    "\<And>s. map_of (Blocks c2) s = map_option inv_block (map_of (Blocks ?c) s)"
    using inverted_blocks [OF g(1)] g(2,3) by (auto simp: c2_def)
  have fresh: "PredBs b = [] \<and> SuccBs b = []" if "map_of (Blocks c2) s = Some b" for s b
    using that inv(4) by (auto simp: inv_block_def new_Block_def)
  have en: "Entry c2 \<in> keys (Blocks c2)" using assms(5) inv(2) ex by (simp add: c2_def)
  note i = InitializeBlocks_graph [OF inv(1) assms(3) en]
  show "numbered ci" unfolding ci by (rule numbered_InitializeBlocks [OF inv(1) assms(3) en]) (rule fresh)
  show "linked ci" unfolding ci by (rule linked_InitializeBlocks [OF inv(1) assms(3) en]) (rule fresh)
  have i: "edge (Blocks ci) = edge (Blocks c2)" "BlockSlice ci ! 0 = Entry c2" "set (BlockSlice ci) = keys (Blocks c2)"
    "keys (Blocks ci) = keys (Blocks c2)"
    unfolding ci using i fresh by blast+
  show "edge (Blocks ci) = (\<lambda>x y. edge (Blocks c) y x)" using i(1) inv(3) by (intro ext) simp
  show "BlockSlice ci ! 0 = Exit_node c" using i(2) ex by (simp add: c2_def)
  show "set (BlockSlice ci) = keys (Blocks c)" "keys (Blocks ci) = keys (Blocks c)" using i(3,4) inv(2) by auto
  assume v: "v \<in> keys (Blocks c)"
  obtain b b0 where b: "map_of (Blocks ci) v = Some b" "map_of (Blocks c) v = Some b0" using v i(4) inv(2) keys_dom by metis
  note i2 = InitializeBlocks_shape(6,7) [OF inv(1) assms(3) en, of v, folded ci]
  obtain b1 where b1: "map_of (Blocks ?c) v = Some b1" "DataDep b1 = DataDep b0" using g(6) [of v] b(2) by auto
  then show "ControlDep (block_at ci v) = [] \<and> DataDep (block_at ci v) = DataDep (block_at c v)"
    using i2 b inv(4) [of v] by (simp add: inv_block_def new_Block_def)
qed

lemma control_dependences_total:
  assumes "wf_blocks (Blocks c)" "range_order ord" "range_order ord'" "Entry c \<in> keys (Blocks c)" "Exit_node c \<in> keys (Blocks c)"
    and reach: "\<forall>v \<in> keys (Blocks c). (edge (Blocks c))\<^sup>*\<^sup>* v (Exit_node c)"
    and depth: "card (keys (Blocks c)) \<le> depth"
  shows "\<exists>c1 c2. BuildPostDomTree ord ord' depth c = Some (Inr c1) \<and> FindControlDeps c1 = Some (Inr c2) \<and>
    (\<forall>n \<in> keys (Blocks c). \<forall>y \<in> keys (Blocks c). Dominates (block_at c1 n) (block_at c1 y) \<longleftrightarrow> post_dominates c n y) \<and>
    (\<forall>n \<in> keys (Blocks c). set (ControlDep (block_at c2 n)) = {y. control_dependent c n y}) \<and>
    keys (Blocks c2) = keys (Blocks c) \<and> (\<forall>n \<in> keys (Blocks c). DataDep (block_at c2 n) = DataDep (block_at c n))"
proof -
  define ci where "ci = InvertCFG ord' (InitializeBlocks ord c)"
  note g = inverted_graph [OF assms(1-5), folded ci_def]
  let ?S = "keys (Blocks c)" and ?D = "post_dominates c"
  have D: "dominates (edge (Blocks ci)) (BlockSlice ci ! 0) = ?D" unfolding g(3,4) by (intro ext) (rule post_dominates_inverse)
  have root: "\<forall>v \<in> set (BlockSlice ci). (edge (Blocks ci))\<^sup>*\<^sup>* (BlockSlice ci ! 0) v"
  proof
    fix v
    assume "v \<in> set (BlockSlice ci)"
    then have "(edge (Blocks c))\<^sup>*\<^sup>* v (Exit_node c)" using reach g(5) by blast
    then have "((edge (Blocks c))\<inverse>\<inverse>)\<^sup>*\<^sup>* (Exit_node c) v" unfolding rtranclp_conversep by simp
    then show "(edge (Blocks ci))\<^sup>*\<^sup>* (BlockSlice ci ! 0) v" unfolding g(3,4) conversep_iff [abs_def] .
  qed
  have len: "length (BlockSlice ci) \<le> depth"
    using depth g(1,5) distinct_card [of "BlockSlice ci"] by (simp add: numbered_def)
  obtain c1 where c1: "BuildDomTree depth ci = Some (Inr c1)" "dom_tree_of ci c1"
    using BuildDomTree_total [OF g(1,2) len] root by blast
  have k: "keys (Blocks ci) = set (BlockSlice ci)" using g(5,6) by simp
  note kk = dom_tree_keys [OF c1(2)]
  have table: "imm_table (idom_of (Blocks c1)) ?S ?D" using dom_tree_table [OF g(1) root c1(2) k] unfolding D g(5) .
  have bs: "BlockSlice c1 = BlockSlice ci" using c1(2) unfolding dom_tree_of_def by (metis CFG.simps(5) CFG.surjective CFG.update_convs(4))
  have dom: "Dominates (block_at c1 a) (block_at c1 b) \<longleftrightarrow> ?D a b" if "a \<in> ?S" "b \<in> ?S" for a b
    using c1(2) that g(5) unfolding dom_tree_of_def D by blast
  have ranked: "ranked (depth_in ?S ?D) (Blocks c1)"
    unfolding ranked_def
  proof (intro allI impI)
    fix v z
    assume z: "idom_of (Blocks c1) v = Some z"
    then obtain b where "map_of (Blocks c1) v = Some b" by (auto simp: idom_of_def bind_eq_Some_conv)
    then have v: "v \<in> ?S" using kk(1) g(6) keys_dom by metis
    show "z \<in> keys (Blocks c1) \<and> depth_in ?S ?D z < depth_in ?S ?D v"
      using imm_tableD(6) [OF table v z] depth_imm [OF table v z] kk(1) g(6) by simp
  qed
  have succs: "\<forall>x \<in> set (BlockSlice c1). SuccBs (block_at c1 x) = map Some (Succs (block_at c1 x)) \<and>
      set (Succs (block_at c1 x)) \<subseteq> keys (Blocks c1)"
  proof
    fix x
    assume "x \<in> set (BlockSlice c1)"
    then have x: "x \<in> set (BlockSlice ci)" using bs by simp
    obtain b where "map_of (Blocks c1) x = Some b" "Succs b = Succs (block_at ci x)" "SuccBs b = SuccBs (block_at ci x)"
      by (rule dom_tree_block [OF c1(2) k x])
    then show "SuccBs (block_at c1 x) = map Some (Succs (block_at c1 x)) \<and> set (Succs (block_at c1 x)) \<subseteq> keys (Blocks c1)"
      using numberedD(3,4) [OF g(1) x] kk(1) k by simp
  qed
  have sub: "set (BlockSlice c1) \<subseteq> keys (Blocks c1)" using bs kk(1) k by simp
  let ?R = "{(n, y). \<exists>x \<in> set (BlockSlice c1). edge (Blocks c1) x y \<and>
      \<not> Dominates (block_at c1 x) (block_at c1 y) \<and> climbs (Blocks c1) (idom_of (Blocks c1) y) x n}"
  obtain m where m: "FindControlDeps c1 = Some (Inr (c1\<lparr>Blocks := m\<rparr>))" "adds_control ?R (Blocks c1) m"
    using FindControlDeps_correct [OF ranked sub succs] by blast
  have R: "(n, y) \<in> ?R \<longleftrightarrow> control_dependent c n y" if n: "n \<in> ?S" "y \<in> ?S" for n y
  proof -
    have e: "edge (Blocks c1) x y \<longleftrightarrow> edge (Blocks c) y x" for x using kk(2) g(3) by simp
    have x: "edge (Blocks c) y x \<Longrightarrow> x \<in> ?S" for x using edge_keys [OF assms(1)] by blast
    have pred: "?D d y \<Longrightarrow> d \<noteq> y \<Longrightarrow> ?D d x" if "edge (Blocks c) y x" for d x
      using dominates_pred [of "edge (Blocks ci)" x y "BlockSlice ci ! 0" d] that g(3) unfolding D by simp
    have "(n, y) \<in> ?R \<longleftrightarrow> (\<exists>x. edge (Blocks c) y x \<and> \<not> ?D x y \<and> ?D n x \<and> \<not> (n \<noteq> y \<and> ?D n y))"
      using control_pairs [OF table x n(2,1) _ pred] dom [OF x n(2)] x e bs g(5) by auto
    also have "\<dots> \<longleftrightarrow> control_dependent c n y"
    proof
      assume "\<exists>x. edge (Blocks c) y x \<and> \<not> ?D x y \<and> ?D n x \<and> \<not> (n \<noteq> y \<and> ?D n y)"
      then show "control_dependent c n y" using imm_tableD(1) [OF table] unfolding control_dependent_def by metis
    next
      assume "control_dependent c n y"
      then obtain x where x': "x \<noteq> y" "edge (Blocks c) y x" "?D n x" "\<not> (n \<noteq> y \<and> ?D n y)"
        unfolding control_dependent_def by blast
      have "\<not> ?D x y"
      proof
        assume xy: "?D x y"
        then have "?D n y" using imm_tableD(3) [OF table n(1) x [OF x'(2)] n(2) x'(3)] by blast
        with x'(4) have "n = y" by blast
        with x'(1,3) xy show False using imm_tableD(2) [OF table n(2) x [OF x'(2)]] by blast
      qed
      with x' show "\<exists>x. edge (Blocks c) y x \<and> \<not> ?D x y \<and> ?D n x \<and> \<not> (n \<noteq> y \<and> ?D n y)" by blast
    qed
    finally show ?thesis .
  qed
  have last: "set (ControlDep (the (map_of m n))) = {y. control_dependent c n y} \<and> DataDep (the (map_of m n)) = DataDep (block_at c n)"
    if n: "n \<in> ?S" for n
  proof -
    have n': "n \<in> set (BlockSlice ci)" using n g(5) by simp
    obtain b where b: "map_of (Blocks c1) n = Some b" "ControlDep b = ControlDep (block_at ci n)" "DataDep b = DataDep (block_at ci n)"
      by (rule dom_tree_block [OF c1(2) k n'])
    obtain cd ce where "map_of m n = Some (b\<lparr>ControlDep := cd, ControlDepee := ce\<rparr>)" "set cd = set (ControlDep b) \<union> {y. (n, y) \<in> ?R}"
      by (rule adds_controlD [OF m(2) b(1)])
    moreover have "(n, y) \<in> ?R \<Longrightarrow> y \<in> ?S" "control_dependent c n y \<Longrightarrow> y \<in> ?S" for y
      using kk(2) g(3) edge_keys [OF assms(1)] by (auto simp: control_dependent_def)
    then have "{y. (n, y) \<in> ?R} = {y. control_dependent c n y}" using R [OF n] by blast
    ultimately show ?thesis using b g(7) [OF n] by simp
  qed
  have "v \<in> keys m \<longleftrightarrow> v \<in> keys (Blocks c1)" for v
    using m(2) [unfolded adds_control_def, rule_format, of v] unfolding keys_dom by (cases "map_of (Blocks c1) v") auto
  then have "keys m = ?S" using kk(1) g(6) by blast
  with c1(1) m(1) dom last show ?thesis
    by (intro exI [of _ c1] exI [of _ "c1\<lparr>Blocks := m\<rparr>"]) (simp add: BuildPostDomTree_def ci_def)
qed

lemma branch_prog_exit: "\<forall>v \<in> keys (Blocks branch_prog_cfg). (edge (Blocks branch_prog_cfg))\<^sup>*\<^sup>* v (Exit_node branch_prog_cfg)"
proof -
  let ?E = "edge (Blocks branch_prog_cfg)"
  note g = branch_prog_blocks
  have e: "?E 0 2" "?E 2 3" "?E 2 4" "?E 3 4" "?E 4 1" using g(5) by simp_all
  have "?E\<^sup>*\<^sup>* 4 1" "?E\<^sup>*\<^sup>* 3 1" "?E\<^sup>*\<^sup>* 2 1" "?E\<^sup>*\<^sup>* 0 1" by (blast intro: converse_rtranclp_into_rtranclp e)+
  then show ?thesis unfolding g(2,4) by blast
qed

lemma branch_control: "control_dependent branch_prog_cfg 3 2" "\<not> control_dependent branch_prog_cfg 4 2"
proof -
  let ?c = branch_prog_cfg and ?E = "edge (Blocks branch_prog_cfg)"
  note g = branch_prog_blocks
  have e: "?E 2 3" "?E 2 4" "?E 4 1" using g(5) by simp_all
  have "avoiding ?E 3 2 4" "avoiding ?E 3 4 1" using e by (simp_all add: avoiding_def)
  then have "(avoiding ?E 3)\<^sup>*\<^sup>* 2 1" by (blast intro: converse_rtranclp_into_rtranclp)
  then have "\<not> post_dominates ?c 3 2" unfolding post_dominates_def g(4) by simp
  moreover have "post_dominates ?c 3 3" by (simp add: post_dominates_def)
  moreover have "(3 :: nat) \<noteq> 2" by simp
  ultimately show "control_dependent ?c 3 2" using e(1) unfolding control_dependent_def by blast
  have "(avoiding ?E 4)\<^sup>*\<^sup>* 2 t \<Longrightarrow> t = 2 \<or> t = 3" for t
    by (induction rule: rtranclp_induct) (auto simp: avoiding_def g(5))
  then have "\<not> (avoiding ?E 4)\<^sup>*\<^sup>* 2 1" by (metis numeral_eq_one_iff semiring_norm(85,86))
  then show "\<not> control_dependent ?c 4 2" unfolding control_dependent_def post_dominates_def g(4) by simp
qed

text \<open>
  C21: post-dominators and control dependences. On a well-formed graph from whose statements the
  exit can be reached, whatever the order of the ranges over its blocks, \<open>BuildPostDomTree\<close>
  and then \<open>FindControlDeps\<close> end without a panic. Afterwards \<open>Dominates\<close> is post-dominance on
  the paths of the graph, and the list \<open>ControlDep\<close> of a statement holds exactly the statements
  it is control dependent on.
\<close>

theorem control_dependences_correct:
  assumes "wf_blocks (Blocks c)" "range_order ord" "range_order ord'" "Entry c \<in> keys (Blocks c)" "Exit_node c \<in> keys (Blocks c)"
    and "\<forall>v \<in> keys (Blocks c). (edge (Blocks c))\<^sup>*\<^sup>* v (Exit_node c)" "card (keys (Blocks c)) \<le> depth"
  shows "\<exists>c1 c2. BuildPostDomTree ord ord' depth c = Some (Inr c1) \<and> FindControlDeps c1 = Some (Inr c2) \<and>
    (\<forall>n \<in> keys (Blocks c). \<forall>y \<in> keys (Blocks c). Dominates (block_at c1 n) (block_at c1 y) \<longleftrightarrow> post_dominates c n y) \<and>
    (\<forall>n \<in> keys (Blocks c). set (ControlDep (block_at c2 n)) = {y. control_dependent c n y})"
  using control_dependences_total [OF assms] by blast

theorem control_dependences_correct_witness:
  "\<exists>c1 c2. BuildPostDomTree sorted_list_of_set sorted_list_of_set 5 branch_prog_cfg = Some (Inr c1) \<and>
    FindControlDeps c1 = Some (Inr c2) \<and> 2 \<in> set (ControlDep (block_at c2 3)) \<and> 2 \<notin> set (ControlDep (block_at c2 4))"
proof -
  let ?c = branch_prog_cfg
  note g = branch_prog_blocks
  have "card (keys (Blocks ?c)) \<le> 5" unfolding g(2) by simp
  moreover have "Entry ?c \<in> keys (Blocks ?c)" "Exit_node ?c \<in> keys (Blocks ?c)" using g by simp_all
  ultimately obtain c1 c2 where r: "BuildPostDomTree sorted_list_of_set sorted_list_of_set 5 ?c = Some (Inr c1)"
    "FindControlDeps c1 = Some (Inr c2)"
    "\<forall>n \<in> keys (Blocks ?c). set (ControlDep (block_at c2 n)) = {y. control_dependent ?c n y}"
    using control_dependences_correct [OF g(1) range_order_sorted range_order_sorted, of 5] branch_prog_exit by blast
  then show ?thesis using g(2) branch_control by blast
qed

end
