(* ===== verification/Dataflow_Props.thy ===== *)
theory Dataflow_Props
  imports Dataflow Cfg_Props
begin

text \<open>
  Correctness of the data flow analyses: the shared iteration terminates on every graph, for
  bit sets whose equality also compares lengths, and computes the least solution, described
  by the paths along which an element survives. Reaching definitions, the data dependence
  graph and live variables follow.
\<close>

section \<open>What survives along paths\<close>

text \<open>
  \<open>arrives j b\<close>: the element \<open>j\<close> is generated somewhere and reaches \<open>b\<close> along neighbours none
  of which kills it.
\<close>

inductive arrives :: "(node \<Rightarrow> node set) \<Rightarrow> (node \<Rightarrow> nat set) \<Rightarrow> (node \<Rightarrow> nat set) \<Rightarrow> node set \<Rightarrow> nat \<Rightarrow> node \<Rightarrow> bool"
  for ps gen kill Bs where
  arrives_gen: "b \<in> Bs \<Longrightarrow> p \<in> ps b \<Longrightarrow> p \<in> Bs \<Longrightarrow> j \<in> gen p \<Longrightarrow> arrives ps gen kill Bs j b"
| arrives_pass: "b \<in> Bs \<Longrightarrow> p \<in> ps b \<Longrightarrow> p \<in> Bs \<Longrightarrow> arrives ps gen kill Bs j p \<Longrightarrow> j \<notin> kill p \<Longrightarrow>
    arrives ps gen kill Bs j b"

definition bits_of :: "'b bitset_ops \<Rightarrow> (node \<rightharpoonup> 'b) \<Rightarrow> node \<Rightarrow> nat set" where
  "bits_of B m b = (case m b of None \<Rightarrow> {} | Some x \<Rightarrow> bits B x)"

definition length_of :: "'b bitset_ops \<Rightarrow> (node \<rightharpoonup> 'b) \<Rightarrow> node \<Rightarrow> nat" where
  "length_of B m b = (case m b of None \<Rightarrow> 0 | Some x \<Rightarrow> bs_len B x)"

lemma bits_of_upd [simp]: "bits_of B (m(k \<mapsto> x)) b = (if b = k then bits B x else bits_of B m b)"
  by (simp add: bits_of_def)

lemma length_of_upd [simp]: "length_of B (m(k \<mapsto> x)) b = (if b = k then bs_len B x else length_of B m b)"
  by (simp add: length_of_def)

lemma bits_of_Some: "m b = Some x \<Longrightarrow> bits_of B m b = bits B x"
  by (simp add: bits_of_def)

lemma length_of_Some: "m b = Some x \<Longrightarrow> length_of B m b = bs_len B x"
  by (simp add: length_of_def)

lemma deref_Some [simp]: "m k = Some x \<Longrightarrow> deref m k = Inr x"
  by (simp add: deref_def)

lemma map_of_keyed: "map_of (map (\<lambda>b. (b, f b)) xs) s = (if s \<in> set xs then Some (f s) else None)"
  by (induction xs) auto

text \<open>A problem on which the iteration does not fail: every block that is read is there.\<close>

definition flow_ok ::
  "(node \<Rightarrow> node list go) \<Rightarrow> (node \<Rightarrow> node list) \<Rightarrow> (node \<rightharpoonup> 'b) \<Rightarrow> (node \<rightharpoonup> 'b) \<Rightarrow> node list \<Rightarrow> node set \<Rightarrow> bool" where
  "flow_ok nbrs ps gen kill blocks K \<longleftrightarrow> distinct blocks \<and> set blocks \<subseteq> K \<and>
     (\<forall>b\<in>set blocks. nbrs b = Inr (ps b) \<and> set (ps b) \<subseteq> K \<and> (\<exists>g. gen b = Some g) \<and> (\<exists>k. kill b = Some k))"

abbreviation flow_arrives ::
  "'b bitset_ops \<Rightarrow> (node \<Rightarrow> node list) \<Rightarrow> (node \<rightharpoonup> 'b) \<Rightarrow> (node \<rightharpoonup> 'b) \<Rightarrow> node list \<Rightarrow> nat \<Rightarrow> node \<Rightarrow> bool" where
  "flow_arrives B ps gen kill blocks \<equiv>
     arrives (\<lambda>b. set (ps b)) (bits_of B gen) (bits_of B kill) (set blocks)"

text \<open>The invariant of the iteration; \<open>L\<close> bounds the lengths of the bit sets.\<close>

definition flow_inv ::
  "'b bitset_ops \<Rightarrow> (node \<Rightarrow> node list) \<Rightarrow> (node \<rightharpoonup> 'b) \<Rightarrow> (node \<rightharpoonup> 'b) \<Rightarrow> node list \<Rightarrow> node set \<Rightarrow> nat \<Rightarrow>
   (node \<rightharpoonup> 'b) \<Rightarrow> (node \<rightharpoonup> 'b) \<Rightarrow> bool" where
  "flow_inv B ps gen kill blocks K L near far \<longleftrightarrow>
     dom near = K \<and> dom far = K \<and>
     (\<forall>b. b \<notin> set blocks \<longrightarrow> bits_of B near b = {} \<and> bits_of B far b = {}) \<and>
     (\<forall>b\<in>set blocks. bits_of B far b \<subseteq> bits_of B gen b \<union> (bits_of B near b - bits_of B kill b) \<and>
        length_of B far b \<le> max (length_of B gen b) (length_of B near b) \<and>
        (\<forall>j\<in>bits_of B near b. flow_arrives B ps gen kill blocks j b)) \<and>
     (\<forall>b. length_of B near b \<le> L \<and> length_of B far b \<le> L)"

abbreviation var_bits :: "'b bitset_ops \<Rightarrow> (var \<rightharpoonup> 'b) \<Rightarrow> var \<Rightarrow> nat set" where
  "var_bits B okills d \<equiv> (case okills d of None \<Rightarrow> {} | Some x \<Rightarrow> bits B x)"

definition room :: "'b bitset_ops \<Rightarrow> node list \<Rightarrow> nat \<Rightarrow> (node \<rightharpoonup> 'b) \<Rightarrow> nat" where
  "room B blocks L far = (\<Sum>b\<in>set blocks. 2 * L - (card (bits_of B far b) + length_of B far b))"

text \<open>The definitions that share a variable with those of \<open>b\<close>, its own apart.\<close>

definition clash :: "(node \<Rightarrow> var list) \<Rightarrow> node list \<Rightarrow> node \<Rightarrow> nat set" where
  "clash df blocks b = {i. i < length blocks \<and> blocks ! i \<noteq> b \<and> set (df b) \<inter> set (df (blocks ! i)) \<noteq> {}}"

definition gk_inv :: "'b bitset_ops \<Rightarrow> (node \<Rightarrow> var list) \<Rightarrow> node list \<Rightarrow> 'b genkill \<Rightarrow> bool" where
  "gk_inv B df blocks = (\<lambda>(okills, gen, kill).
     (\<forall>d. var_bits B okills d \<subseteq> {i. i < length blocks \<and> d \<in> set (df (blocks ! i))}) \<and>
     (\<forall>b. bits B (gen b) \<subseteq> {i. i < length blocks \<and> blocks ! i = b \<and> df b \<noteq> []}) \<and>
     (\<forall>b. bits B (kill b) \<subseteq> clash df blocks b) \<and> (\<forall>b. bs_len B (gen b) \<le> length blocks))"

context bitset_api
begin

lemma card_bits_of: "card (bits_of B m b) \<le> length_of B m b"
  using card_bits by (simp add: bits_of_def length_of_def split: option.split)

lemma finite_bits_of [simp]: "finite (bits_of B m b)"
  using finite_bits by (simp add: bits_of_def split: option.split)

lemma fold_nbrs:
  "(\<And>p. p \<in> set ps \<Longrightarrow> \<exists>y. far p = Some y) \<Longrightarrow>
   \<exists>x'. foldR (\<lambda>x p. rbind (deref far p) (\<lambda>y. Inr (bs_union B x y))) x ps = Inr x' \<and>
     bits B x' = bits B x \<union> (\<Union>p\<in>set ps. bits_of B far p) \<and>
     bs_len B x \<le> bs_len B x' \<and> (\<forall>L. bs_len B x \<le> L \<longrightarrow> (\<forall>p\<in>set ps. length_of B far p \<le> L) \<longrightarrow> bs_len B x' \<le> L)"
proof (induction ps arbitrary: x)
  case (Cons p ps)
  obtain y where y: "far p = Some y" using Cons.prems [of p] by auto
  obtain x' where x': "foldR (\<lambda>x p. rbind (deref far p) (\<lambda>y. Inr (bs_union B x y))) (bs_union B x y) ps = Inr x'"
    "bits B x' = bits B (bs_union B x y) \<union> (\<Union>p\<in>set ps. bits_of B far p)"
    "bs_len B (bs_union B x y) \<le> bs_len B x'"
    "\<forall>L. bs_len B (bs_union B x y) \<le> L \<longrightarrow> (\<forall>p\<in>set ps. length_of B far p \<le> L) \<longrightarrow> bs_len B x' \<le> L"
    using Cons.IH [of "bs_union B x y"] Cons.prems by auto
  then show ?case
    using y by (intro exI [of _ x']) (auto simp: bits_union len_union bits_of_def length_of_def)
qed simp

text \<open>One visit: the new sets of the block, what changes, and that sets only grow.\<close>

lemma flow_visit:
  assumes ok: "flow_ok nbrs ps gen kill blocks K" and inv: "flow_inv B ps gen kill blocks K L near far"
    and L: "\<And>b. length_of B gen b \<le> L" and b: "b \<in> set blocks"
  obtains x y where
    "flow_visit B nbrs gen kill (near, far, ch) b =
       Inr (near(b \<mapsto> x), far(b \<mapsto> y), ch \<or> bits B y \<noteq> bits_of B far b \<or> bs_len B y \<noteq> length_of B far b)"
    "bits B x = bits_of B near b \<union> (\<Union>p\<in>set (ps b). bits_of B far p)"
    "bits B y = bits_of B gen b \<union> (bits B x - bits_of B kill b)"
    "bits_of B far b \<subseteq> bits B y" "length_of B far b \<le> bs_len B y"
    "flow_inv B ps gen kill blocks K L (near(b \<mapsto> x)) (far(b \<mapsto> y))"
proof -
  have bK: "b \<in> K" and nb: "nbrs b = Inr (ps b)" and psK: "set (ps b) \<subseteq> K"
    using ok b by (auto simp: flow_ok_def)
  obtain g k where g: "gen b = Some g" and k: "kill b = Some k" using ok b by (auto simp: flow_ok_def)
  have doms: "dom near = K" "dom far = K" using inv by (auto simp: flow_inv_def)
  obtain x0 where x0: "near b = Some x0" using doms(1) bK by blast
  obtain old where old: "far b = Some old" using doms(2) bK by blast
  have "\<exists>y. far p = Some y" if "p \<in> set (ps b)" for p using that psK doms(2) by blast
  from fold_nbrs [of "ps b" far x0, OF this] obtain x where
    x: "foldR (\<lambda>x p. rbind (deref far p) (\<lambda>y. Inr (bs_union B x y))) x0 (ps b) = Inr x"
      "bits B x = bits B x0 \<union> (\<Union>p\<in>set (ps b). bits_of B far p)"
      "bs_len B x0 \<le> bs_len B x" "bs_len B x0 \<le> L \<Longrightarrow> (\<forall>p\<in>set (ps b). length_of B far p \<le> L) \<Longrightarrow> bs_len B x \<le> L"
    by blast
  define y where "y = bs_union B g (bs_diff B x k)"
  have bx: "bits B x = bits_of B near b \<union> (\<Union>p\<in>set (ps b). bits_of B far p)"
    using x(2) x0 by (simp add: bits_of_Some)
  have by': "bits B y = bits_of B gen b \<union> (bits B x - bits_of B kill b)"
    using g k by (simp add: y_def bits_union bits_diff bits_of_Some)
  have ly: "bs_len B y = max (length_of B gen b) (bs_len B x)"
    using g by (simp add: y_def len_union len_diff length_of_Some)
  have lx: "bs_len B x \<le> L" using x(4) inv x0 by (auto simp: flow_inv_def length_of_def split: option.splits)
  have mono: "bits_of B far b \<subseteq> bits B y" "length_of B far b \<le> bs_len B y"
  proof -
    have "bits_of B far b \<subseteq> bits_of B gen b \<union> (bits_of B near b - bits_of B kill b)"
      "length_of B far b \<le> max (length_of B gen b) (length_of B near b)" using inv b by (auto simp: flow_inv_def)
    then show "bits_of B far b \<subseteq> bits B y" "length_of B far b \<le> bs_len B y"
      using bx by' ly x(3) x0 by (auto simp: length_of_Some)
  qed
  have sound: "flow_arrives B ps gen kill blocks j b" if j: "j \<in> bits B x" for j
  proof (cases "j \<in> bits_of B near b")
    case True
    then show ?thesis using inv b by (simp add: flow_inv_def)
  next
    case False
    with j bx obtain p where p: "p \<in> set (ps b)" "j \<in> bits_of B far p" by blast
    then have pb: "p \<in> set blocks" using inv unfolding flow_inv_def by blast
    then have "j \<in> bits_of B gen p \<or> j \<in> bits_of B near p \<and> j \<notin> bits_of B kill p"
      using inv p(2) by (auto simp: flow_inv_def)
    with p(1) pb b show ?thesis
      using inv unfolding flow_inv_def by (blast intro: arrives.intros)
  qed
  have "flow_inv B ps gen kill blocks K L (near(b \<mapsto> x)) (far(b \<mapsto> y))"
    using inv b bK bx by' ly lx L sound unfolding flow_inv_def by (simp add: insert_absorb)
  moreover have "flow_visit B nbrs gen kill (near, far, ch) b =
      Inr (near(b \<mapsto> x), far(b \<mapsto> y), ch \<or> bits B y \<noteq> bits_of B far b \<or> bs_len B y \<noteq> length_of B far b)"
    using nb x0 x(1) old g k by (auto simp: flow_visit_def y_def Let_def equal_iff bits_of_Some length_of_Some)
  ultimately show ?thesis using that bx by' mono by blast
qed

text \<open>A pass over distinct blocks.\<close>

lemma flow_pass:
  assumes ok: "flow_ok nbrs ps gen kill blocks K" and L: "\<And>b. length_of B gen b \<le> L"
  shows "flow_inv B ps gen kill blocks K L near far \<Longrightarrow> distinct bs \<Longrightarrow> set bs \<subseteq> set blocks \<Longrightarrow>
   \<exists>near' far' ch'. foldR (flow_visit B nbrs gen kill) (near, far, ch) bs = Inr (near', far', ch') \<and>
     flow_inv B ps gen kill blocks K L near' far' \<and>
     (\<forall>b. b \<notin> set bs \<longrightarrow> near' b = near b \<and> far' b = far b) \<and>
     (\<forall>b. bits_of B far b \<subseteq> bits_of B far' b \<and> length_of B far b \<le> length_of B far' b) \<and>
     (if ch' then ch \<or> (\<exists>b\<in>set bs. bits_of B far' b \<noteq> bits_of B far b \<or> length_of B far' b \<noteq> length_of B far b)
      else \<not> ch \<and> (\<forall>b. bits_of B far' b = bits_of B far b) \<and>
        (\<forall>b\<in>set bs. (\<forall>p\<in>set (ps b). bits_of B far' p \<subseteq> bits_of B near' b) \<and>
           bits_of B far' b = bits_of B gen b \<union> (bits_of B near' b - bits_of B kill b)))"
proof (induction bs arbitrary: near far ch)
  case (Cons b bs)
  have b: "b \<in> set blocks" and d: "distinct bs" "set bs \<subseteq> set blocks" using Cons.prems by simp_all
  obtain x y where v:
    "flow_visit B nbrs gen kill (near, far, ch) b =
       Inr (near(b \<mapsto> x), far(b \<mapsto> y), ch \<or> bits B y \<noteq> bits_of B far b \<or> bs_len B y \<noteq> length_of B far b)"
    "bits B x = bits_of B near b \<union> (\<Union>p\<in>set (ps b). bits_of B far p)"
    "bits B y = bits_of B gen b \<union> (bits B x - bits_of B kill b)"
    "bits_of B far b \<subseteq> bits B y" "length_of B far b \<le> bs_len B y"
    "flow_inv B ps gen kill blocks K L (near(b \<mapsto> x)) (far(b \<mapsto> y))"
    using flow_visit [OF ok Cons.prems(1) L b] by metis
  let ?ch = "ch \<or> bits B y \<noteq> bits_of B far b \<or> bs_len B y \<noteq> length_of B far b"
  obtain near' far' ch' where IH:
    "foldR (flow_visit B nbrs gen kill) (near(b \<mapsto> x), far(b \<mapsto> y), ?ch) bs = Inr (near', far', ch')"
    "flow_inv B ps gen kill blocks K L near' far'"
    "\<forall>c. c \<notin> set bs \<longrightarrow> near' c = (near(b \<mapsto> x)) c \<and> far' c = (far(b \<mapsto> y)) c"
    "\<forall>c. bits_of B (far(b \<mapsto> y)) c \<subseteq> bits_of B far' c \<and> length_of B (far(b \<mapsto> y)) c \<le> length_of B far' c"
    "if ch' then ?ch \<or> (\<exists>c\<in>set bs. bits_of B far' c \<noteq> bits_of B (far(b \<mapsto> y)) c \<or> length_of B far' c \<noteq> length_of B (far(b \<mapsto> y)) c)
      else \<not> ?ch \<and> (\<forall>c. bits_of B far' c = bits_of B (far(b \<mapsto> y)) c) \<and>
        (\<forall>c\<in>set bs. (\<forall>p\<in>set (ps c). bits_of B far' p \<subseteq> bits_of B near' c) \<and>
           bits_of B far' c = bits_of B gen c \<union> (bits_of B near' c - bits_of B kill c))"
    using Cons.IH [OF v(6) d, of ?ch] by blast
  have nb: "b \<notin> set bs" using Cons.prems by simp
  then have at_b: "near' b = Some x" "far' b = Some y" using IH(3) by auto
  have mono: "bits_of B far c \<subseteq> bits_of B far' c \<and> length_of B far c \<le> length_of B far' c" for c
    using IH(4) v(4,5) by (cases "c = b") (auto simp: le_trans split: if_splits)
  have fr: "near' c = near c \<and> far' c = far c" if "c \<notin> set (b # bs)" for c
    using that IH(3) by simp
  have ch: "if ch' then ch \<or> (\<exists>c\<in>set (b # bs). bits_of B far' c \<noteq> bits_of B far c \<or> length_of B far' c \<noteq> length_of B far c)
      else \<not> ch \<and> (\<forall>c. bits_of B far' c = bits_of B far c) \<and>
        (\<forall>c\<in>set (b # bs). (\<forall>p\<in>set (ps c). bits_of B far' p \<subseteq> bits_of B near' c) \<and>
           bits_of B far' c = bits_of B gen c \<union> (bits_of B near' c - bits_of B kill c))"
  proof (cases ch')
    case True
    have "ch \<or> (\<exists>c\<in>set (b # bs). bits_of B far' c \<noteq> bits_of B far c \<or> length_of B far' c \<noteq> length_of B far c)"
      using IH(5) True nb at_b by (auto simp: bits_of_Some length_of_Some split: if_splits)
    with True show ?thesis by simp
  next
    case False
    then have same: "\<not> ?ch" "\<forall>c. bits_of B far' c = bits_of B (far(b \<mapsto> y)) c" using IH(5) by auto
    then have far: "bits_of B far' c = bits_of B far c" for c by simp
    have far_b: "bits_of B far' b = bits B y" and near_b: "bits_of B near' b = bits B x"
      using at_b by (simp_all add: bits_of_Some)
    have "(\<forall>p\<in>set (ps b). bits_of B far' p \<subseteq> bits_of B near' b) \<and>
        bits_of B far' b = bits_of B gen b \<union> (bits_of B near' b - bits_of B kill b)"
      unfolding far_b near_b using v(2,3) far by auto
    moreover have "\<forall>c\<in>set bs. (\<forall>p\<in>set (ps c). bits_of B far' p \<subseteq> bits_of B near' c) \<and>
        bits_of B far' c = bits_of B gen c \<union> (bits_of B near' c - bits_of B kill c)"
      using IH(5) unfolding if_not_P [OF False] by blast
    ultimately show ?thesis
      using same(1) far unfolding if_not_P [OF False] set_simps by blast
  qed
  show ?case
    using v(1) IH(1,2) mono fr ch by (intro exI [of _ near'] exI [of _ far'] exI [of _ ch']) simp
qed simp

text \<open>Every pass that changes something makes the sets or their lengths grow.\<close>

lemma room_less:
  assumes mono: "\<And>b. bits_of B far b \<subseteq> bits_of B far' b \<and> length_of B far b \<le> length_of B far' b"
    and bound: "\<And>b. length_of B far' b \<le> L"
    and ch: "\<exists>b\<in>set blocks. bits_of B far' b \<noteq> bits_of B far b \<or> length_of B far' b \<noteq> length_of B far b"
  shows "room B blocks L far' < room B blocks L far"
proof -
  have card: "card (bits_of B far b) \<le> card (bits_of B far' b)" for b
    using mono by (simp add: card_mono)
  have top: "card (bits_of B far' b) + length_of B far' b \<le> 2 * L" for b
    using card_bits_of [of far' b] bound [of b] by linarith
  obtain b where b: "b \<in> set blocks" "bits_of B far' b \<noteq> bits_of B far b \<or> length_of B far' b \<noteq> length_of B far b"
    using ch by blast
  have "card (bits_of B far b) < card (bits_of B far' b) \<or> length_of B far b < length_of B far' b"
    using b(2) mono [of b] by (auto intro: psubset_card_mono simp: order_le_less)
  then have "2 * L - (card (bits_of B far' b) + length_of B far' b) < 2 * L - (card (bits_of B far b) + length_of B far b)"
    using card [of b] mono [of b] top [of b] by linarith
  moreover have "2 * L - (card (bits_of B far' c) + length_of B far' c) \<le> 2 * L - (card (bits_of B far c) + length_of B far c)" for c
    using card [of c] mono [of c] by linarith
  ultimately show ?thesis
    unfolding room_def using b(1) by (intro sum_strict_mono_ex1) auto
qed

lemma flow_loop_returns:
  assumes ok: "flow_ok nbrs ps gen kill blocks K" and L: "\<And>b. length_of B gen b \<le> L"
  shows "flow_inv B ps gen kill blocks K L near far \<Longrightarrow>
   \<exists>near' far'. flow_loop B nbrs gen kill blocks near far = Some (Inr (near', far')) \<and>
     flow_inv B ps gen kill blocks K L near' far' \<and>
     (\<forall>b\<in>set blocks. (\<forall>p\<in>set (ps b). bits_of B far' p \<subseteq> bits_of B near' b) \<and>
        bits_of B far' b = bits_of B gen b \<union> (bits_of B near' b - bits_of B kill b))"
proof (induction "room B blocks L far" arbitrary: near far rule: less_induct)
  case less
  have d: "distinct blocks" using ok by (simp add: flow_ok_def)
  obtain near' far' ch' where p:
    "foldR (flow_visit B nbrs gen kill) (near, far, False) blocks = Inr (near', far', ch')"
    "flow_inv B ps gen kill blocks K L near' far'"
    "\<forall>b. bits_of B far b \<subseteq> bits_of B far' b \<and> length_of B far b \<le> length_of B far' b"
    "if ch' then False \<or> (\<exists>b\<in>set blocks. bits_of B far' b \<noteq> bits_of B far b \<or> length_of B far' b \<noteq> length_of B far b)
      else \<not> False \<and> (\<forall>b. bits_of B far' b = bits_of B far b) \<and>
        (\<forall>b\<in>set blocks. (\<forall>p\<in>set (ps b). bits_of B far' p \<subseteq> bits_of B near' b) \<and>
           bits_of B far' b = bits_of B gen b \<union> (bits_of B near' b - bits_of B kill b))"
    using flow_pass [OF ok L less.prems d subset_refl, of False] by blast
  show ?case
  proof (cases ch')
    case True
    have "room B blocks L far' < room B blocks L far"
      using p(2-4) True by (intro room_less) (auto simp: flow_inv_def)
    from less.hyps [OF this p(2)] show ?thesis
      by (subst flow_loop.simps) (simp add: p(1) True)
  next
    case False
    from p(4) have "\<forall>b\<in>set blocks. (\<forall>p\<in>set (ps b). bits_of B far' p \<subseteq> bits_of B near' b) \<and>
        bits_of B far' b = bits_of B gen b \<union> (bits_of B near' b - bits_of B kill b)"
      unfolding if_not_P [OF False] by blast
    with p(1,2) False show ?thesis
      by (subst flow_loop.simps) simp
  qed
qed

text \<open>From empty sets the iteration returns, with exactly the elements that arrive.\<close>

lemma flow_loop_correct:
  assumes ok: "flow_ok nbrs ps gen kill blocks K"
    and near0: "dom near0 = K" "\<And>b. bits_of B near0 b = {}" "\<And>b. length_of B near0 b = 0"
    and far0: "dom far0 = K" "\<And>b. bits_of B far0 b = {}" "\<And>b. length_of B far0 b = 0"
    and L: "\<And>b. length_of B gen b \<le> L"
  shows "\<exists>near far. flow_loop B nbrs gen kill blocks near0 far0 = Some (Inr (near, far)) \<and>
    dom near = K \<and> dom far = K \<and>
    (\<forall>b. bits_of B near b = (if b \<in> set blocks then {j. flow_arrives B ps gen kill blocks j b} else {})) \<and>
    (\<forall>b. bits_of B far b = (if b \<in> set blocks then bits_of B gen b \<union> (bits_of B near b - bits_of B kill b) else {}))"
proof -
  have "flow_inv B ps gen kill blocks K L near0 far0"
    using near0 far0 by (simp add: flow_inv_def)
  from flow_loop_returns [OF ok L this] obtain near far where r:
    "flow_loop B nbrs gen kill blocks near0 far0 = Some (Inr (near, far))"
    "flow_inv B ps gen kill blocks K L near far"
    "\<forall>b\<in>set blocks. (\<forall>p\<in>set (ps b). bits_of B far p \<subseteq> bits_of B near b) \<and>
        bits_of B far b = bits_of B gen b \<union> (bits_of B near b - bits_of B kill b)" by blast
  have "j \<in> bits_of B near b" if "flow_arrives B ps gen kill blocks j b" for j b
    using that by (induction rule: arrives.induct) (use r(3) in blast)+
  with r(2) have n: "bits_of B near b = (if b \<in> set blocks then {j. flow_arrives B ps gen kill blocks j b} else {})" for b
    by (auto simp: flow_inv_def)
  have f: "bits_of B far b = (if b \<in> set blocks then bits_of B gen b \<union> (bits_of B near b - bits_of B kill b) else {})" for b
    using r(2,3) by (auto simp: flow_inv_def)
  have "dom near = K" "dom far = K" using r(2) by (simp_all add: flow_inv_def)
  with r(1) n f show ?thesis by blast
qed


section \<open>Definitions generated and killed\<close>

lemma gen_kill_block:
  assumes "gen_kill_block B df (j, b) (okills, gen, kill) = (okills', gen', kill')"
  shows "\<And>d. var_bits B okills' d = var_bits B okills d \<union> (if d \<in> set (df b) then {j} else {})"
    "\<And>c. bits B (gen' c) = bits B (gen c) \<union> (if c = b \<and> df b \<noteq> [] then {j} else {})"
    "\<And>c. bits B (kill' c) = (if c = b \<and> df b \<noteq> [] then
        (bits B (kill b) \<union> (\<Union>d\<in>set (df b). var_bits B okills d \<union> {j})) - (bits B (gen b) \<union> {j}) else bits B (kill c))"
    "\<And>c L. bs_len B (gen c) \<le> L \<Longrightarrow> j < L \<Longrightarrow> bs_len B (gen' c) \<le> L"
proof -
  have "fold (gen_kill_def B j b) ds (okills, gen, kill) = (okills', gen', kill') \<Longrightarrow>
     (\<forall>d. var_bits B okills' d = var_bits B okills d \<union> (if d \<in> set ds then {j} else {})) \<and>
     (\<forall>c. bits B (gen' c) = bits B (gen c) \<union> (if c = b \<and> ds \<noteq> [] then {j} else {})) \<and>
     (\<forall>c. bits B (kill' c) = (if c = b \<and> ds \<noteq> [] then
        (bits B (kill b) \<union> (\<Union>d\<in>set ds. var_bits B okills d \<union> {j})) - (bits B (gen b) \<union> {j}) else bits B (kill c))) \<and>
     (\<forall>c L. bs_len B (gen c) \<le> L \<longrightarrow> j < L \<longrightarrow> bs_len B (gen' c) \<le> L)" for ds
  proof (induction ds arbitrary: okills gen kill)
    case (Cons d ds)
    let ?ok = "bs_set B (case okills d of None \<Rightarrow> bs_new B | Some x \<Rightarrow> x) j"
    let ?gen = "gen(b := bs_set B (gen b) j)"
    let ?kill = "kill(b := bs_diff B (bs_union B (kill b) ?ok) (?gen b))"
    have ok: "bits B ?ok = var_bits B okills d \<union> {j}"
      by (simp add: bits_set bits_new split: option.split)
    have "gen_kill_def B j b d (okills, gen, kill) = (okills(d \<mapsto> ?ok), ?gen, ?kill)"
      by (simp add: gen_kill_def_def Let_def)
    with Cons.prems have "fold (gen_kill_def B j b) ds (okills(d \<mapsto> ?ok), ?gen, ?kill) = (okills', gen', kill')"
      by simp
    note IH = Cons.IH [OF this]
    show ?case
    proof (intro conjI allI impI)
      show "var_bits B okills' e = var_bits B okills e \<union> (if e \<in> set (d # ds) then {j} else {})" for e
        using IH ok by auto
      show "bits B (gen' c) = bits B (gen c) \<union> (if c = b \<and> d # ds \<noteq> [] then {j} else {})" for c
        using IH by (auto simp: bits_set)
      show "bits B (kill' c) = (if c = b \<and> d # ds \<noteq> [] then
        (bits B (kill b) \<union> (\<Union>d\<in>set (d # ds). var_bits B okills d \<union> {j})) - (bits B (gen b) \<union> {j}) else bits B (kill c))" for c
      proof -
        have v: "var_bits B (okills(d \<mapsto> ?ok)) e \<union> {j} = (if e = d then var_bits B okills d \<union> {j} else var_bits B okills e \<union> {j})" for e
          using ok by simp
        have k: "bits B (?kill b) = (bits B (kill b) \<union> (var_bits B okills d \<union> {j})) - (bits B (gen b) \<union> {j})"
          by (simp only: fun_upd_same bits_diff bits_union ok) (auto simp: bits_set)
        have "bits B (kill' c) = (if c = b \<and> ds \<noteq> [] then
            (bits B (?kill b) \<union> (\<Union>e\<in>set ds. var_bits B (okills(d \<mapsto> ?ok)) e \<union> {j})) - (bits B (?gen b) \<union> {j}) else bits B (?kill c))"
          using IH by blast
        then show ?thesis
          unfolding v k by (cases "c = b"; cases "ds = []") (auto simp: bits_set k [simplified] split: if_splits)
      qed
      show "bs_len B (gen' c) \<le> L" if "bs_len B (gen c) \<le> L" "j < L" for c L
      proof -
        have "bs_len B (?gen c) \<le> L" using that by (cases "c = b") (simp_all add: len_set)
        with IH that(2) show ?thesis by blast
      qed
    qed
  qed simp
  then have all: "(\<forall>d. var_bits B okills' d = var_bits B okills d \<union> (if d \<in> set (df b) then {j} else {})) \<and>
     (\<forall>c. bits B (gen' c) = bits B (gen c) \<union> (if c = b \<and> df b \<noteq> [] then {j} else {})) \<and>
     (\<forall>c. bits B (kill' c) = (if c = b \<and> df b \<noteq> [] then
        (bits B (kill b) \<union> (\<Union>d\<in>set (df b). var_bits B okills d \<union> {j})) - (bits B (gen b) \<union> {j}) else bits B (kill c))) \<and>
     (\<forall>c L. bs_len B (gen c) \<le> L \<longrightarrow> j < L \<longrightarrow> bs_len B (gen' c) \<le> L)"
    using assms by (simp add: gen_kill_block_def)
  then show "\<And>d. var_bits B okills' d = var_bits B okills d \<union> (if d \<in> set (df b) then {j} else {})"
    "\<And>c. bits B (gen' c) = bits B (gen c) \<union> (if c = b \<and> df b \<noteq> [] then {j} else {})"
    "\<And>c. bits B (kill' c) = (if c = b \<and> df b \<noteq> [] then
        (bits B (kill b) \<union> (\<Union>d\<in>set (df b). var_bits B okills d \<union> {j})) - (bits B (gen b) \<union> {j}) else bits B (kill c))"
    "\<And>c L. bs_len B (gen c) \<le> L \<Longrightarrow> j < L \<Longrightarrow> bs_len B (gen' c) \<le> L"
    by blast+
qed

lemma gk_inv_block:
  assumes d: "distinct blocks" and inv: "gk_inv B df blocks (okills, gen, kill)" and j: "j < length blocks"
    and st: "gen_kill_block B df (j, blocks ! j) (okills, gen, kill) = (okills', gen', kill')"
  shows "gk_inv B df blocks (okills', gen', kill')"
proof -
  note s = gen_kill_block [OF st]
  have ok: "\<And>e. var_bits B okills e \<subseteq> {i. i < length blocks \<and> e \<in> set (df (blocks ! i))}"
    and g: "\<And>b. bits B (gen b) \<subseteq> {i. i < length blocks \<and> blocks ! i = b \<and> df b \<noteq> []}"
    and k: "\<And>b. bits B (kill b) \<subseteq> clash df blocks b"
    and l: "\<And>b. bs_len B (gen b) \<le> length blocks"
    using inv by (auto simp: gk_inv_def)
  have c: "i \<in> clash df blocks (blocks ! j)" if "e \<in> set (df (blocks ! j))" "i \<in> var_bits B okills e" "i \<noteq> j" for e i
  proof -
    have "i < length blocks" "e \<in> set (df (blocks ! i))" using ok [of e] that(2) by auto
    with that(1,3) d j show ?thesis by (auto simp: clash_def nth_eq_iff_index_eq)
  qed
  have "bits B (kill' b) \<subseteq> clash df blocks b" for b
  proof (cases "b = blocks ! j \<and> df (blocks ! j) \<noteq> []")
    case True
    then show ?thesis using k c unfolding s(3) by auto
  next
    case False
    then show ?thesis using k unfolding s(3) by auto
  qed
  moreover have "var_bits B okills' e \<subseteq> {i. i < length blocks \<and> e \<in> set (df (blocks ! i))}" for e
    unfolding s(1) using ok [of e] j by auto
  moreover have "bits B (gen' b) \<subseteq> {i. i < length blocks \<and> blocks ! i = b \<and> df b \<noteq> []}" for b
    unfolding s(2) using g [of b] j by auto
  moreover have "bs_len B (gen' b) \<le> length blocks" for b using s(4) [OF l j] .
  ultimately show ?thesis by (simp add: gk_inv_def)
qed

lemma gen_kill_block_frame:
  assumes "gen_kill_block B df (j, b) (okills, gen, kill) = (okills', gen', kill')" "c \<noteq> b"
  shows "kill' c = kill c"
proof -
  have "snd (snd (fold (gen_kill_def B j b) ds st)) c = snd (snd st) c" for ds st
    using assms(2) by (induction ds arbitrary: st) (auto simp: gen_kill_def_def Let_def split: prod.splits)
  from this [of "df b" "(okills, gen, kill)"] show ?thesis using assms(1) by (simp add: gen_kill_block_def)
qed

text \<open>
  What a pass adds: every definition is recorded for its variables and generated by its
  block, and once all definitions are recorded every block it visits kills all that clash.
\<close>

lemma gk_pass:
  assumes d: "distinct blocks"
  shows "gk_inv B df blocks (okills, gen, kill) \<Longrightarrow> (\<And>j b. (j, b) \<in> set es \<Longrightarrow> j < length blocks \<and> blocks ! j = b) \<Longrightarrow>
    distinct (map snd es) \<Longrightarrow>
    \<exists>okills' gen' kill'. fold (gen_kill_block B df) es (okills, gen, kill) = (okills', gen', kill') \<and>
      gk_inv B df blocks (okills', gen', kill') \<and>
      (\<forall>e. var_bits B okills e \<union> {j. \<exists>b. (j, b) \<in> set es \<and> e \<in> set (df b)} \<subseteq> var_bits B okills' e) \<and>
      (\<forall>b. bits B (gen b) \<union> {j. (j, b) \<in> set es \<and> df b \<noteq> []} \<subseteq> bits B (gen' b)) \<and>
      (\<forall>b. b \<notin> snd ` set es \<longrightarrow> kill' b = kill b) \<and>
      ((\<forall>e. {i. i < length blocks \<and> e \<in> set (df (blocks ! i))} \<subseteq> var_bits B okills e) \<longrightarrow>
         (\<forall>b\<in>snd ` set es. clash df blocks b \<subseteq> bits B (kill' b)))"
proof (induction es arbitrary: okills gen kill)
  case (Cons x es)
  obtain j b where x: "x = (j, b)" by fastforce
  have j: "j < length blocks" "blocks ! j = b" using Cons.prems(2) [of j b] x by auto
  have nb: "b \<notin> snd ` set es" using Cons.prems(3) x by force
  obtain okills1 gen1 kill1 where st: "gen_kill_block B df (j, b) (okills, gen, kill) = (okills1, gen1, kill1)"
    by (metis prod_cases3)
  note s = gen_kill_block [OF st]
  have inv1: "gk_inv B df blocks (okills1, gen1, kill1)"
    using gk_inv_block [OF d Cons.prems(1) j(1)] st j(2) by simp
  have pr: "\<And>j b. (j, b) \<in> set es \<Longrightarrow> j < length blocks \<and> blocks ! j = b" "distinct (map snd es)"
    using Cons.prems(2,3) by auto
  from Cons.IH [OF inv1 pr] obtain okills' gen' kill' where IH:
    "fold (gen_kill_block B df) es (okills1, gen1, kill1) = (okills', gen', kill')"
    "gk_inv B df blocks (okills', gen', kill')"
    "\<forall>e. var_bits B okills1 e \<union> {j. \<exists>b. (j, b) \<in> set es \<and> e \<in> set (df b)} \<subseteq> var_bits B okills' e"
    "\<forall>b. bits B (gen1 b) \<union> {j. (j, b) \<in> set es \<and> df b \<noteq> []} \<subseteq> bits B (gen' b)"
    "\<forall>b. b \<notin> snd ` set es \<longrightarrow> kill' b = kill1 b"
    "(\<forall>e. {i. i < length blocks \<and> e \<in> set (df (blocks ! i))} \<subseteq> var_bits B okills1 e) \<longrightarrow>
         (\<forall>b\<in>snd ` set es. clash df blocks b \<subseteq> bits B (kill' b))"
    by blast
  have k1: "kill1 c = kill c" if "c \<noteq> b" for c
    using gen_kill_block_frame [OF st that] .
  have kb: "clash df blocks b \<subseteq> bits B (kill1 b)"
    if full: "\<And>e. {i. i < length blocks \<and> e \<in> set (df (blocks ! i))} \<subseteq> var_bits B okills e"
  proof
    fix i assume i: "i \<in> clash df blocks b"
    then obtain e where e: "e \<in> set (df b)" "i \<in> var_bits B okills e" "i < length blocks" "blocks ! i \<noteq> b"
      using full by (fastforce simp: clash_def)
    then have "i \<noteq> j" "i \<notin> bits B (gen b)" using j Cons.prems(1) by (auto simp: gk_inv_def)
    with e show "i \<in> bits B (kill1 b)" unfolding s(3) by auto
  qed
  have "\<forall>e. var_bits B okills e \<union> {j. \<exists>b. (j, b) \<in> set (x # es) \<and> e \<in> set (df b)} \<subseteq> var_bits B okills' e"
  proof -
    have "var_bits B okills e \<union> {j. \<exists>b. (j, b) \<in> set (x # es) \<and> e \<in> set (df b)} =
        var_bits B okills1 e \<union> {j. \<exists>b. (j, b) \<in> set es \<and> e \<in> set (df b)}" for e
      unfolding s(1) x by auto
    with IH(3) show ?thesis by simp
  qed
  moreover have "\<forall>b. bits B (gen b) \<union> {j. (j, b) \<in> set (x # es) \<and> df b \<noteq> []} \<subseteq> bits B (gen' b)"
  proof -
    have "bits B (gen b) \<union> {j. (j, b) \<in> set (x # es) \<and> df b \<noteq> []} =
        bits B (gen1 b) \<union> {j. (j, b) \<in> set es \<and> df b \<noteq> []}" for b
      unfolding s(2) x by auto
    with IH(4) show ?thesis by simp
  qed
  moreover have "\<forall>c. c \<notin> snd ` set (x # es) \<longrightarrow> kill' c = kill c"
    using IH(5) k1 x by simp
  moreover have "\<forall>c\<in>snd ` set (x # es). clash df blocks c \<subseteq> bits B (kill' c)"
    if full: "\<forall>e. {i. i < length blocks \<and> e \<in> set (df (blocks ! i))} \<subseteq> var_bits B okills e"
  proof -
    have "{i. i < length blocks \<and> e \<in> set (df (blocks ! i))} \<subseteq> var_bits B okills1 e" for e
      using full unfolding s(1) by blast
    then have "\<forall>b\<in>snd ` set es. clash df blocks b \<subseteq> bits B (kill' b)" using IH(6) by blast
    moreover have "kill' b = kill1 b" using IH(5) nb by blast
    ultimately show ?thesis using kb full x by simp
  qed
  ultimately show ?case
    using IH(1,2) st x by (intro exI [of _ okills'] exI [of _ gen'] exI [of _ kill']) simp
qed simp

text \<open>
  What \<open>genKillBitsets\<close> computes in its two passes: a block generates itself when it defines
  anything, and kills every other block that defines one of its variables.
\<close>

lemma genKillBitsets_bits:
  assumes d: "distinct blocks"
  shows "j < length blocks \<Longrightarrow> bits_of B (fst (genKillBitsets B df blocks)) (blocks ! j) = (if df (blocks ! j) = [] then {} else {j})"
    "j < length blocks \<Longrightarrow> bits_of B (snd (genKillBitsets B df blocks)) (blocks ! j) = clash df blocks (blocks ! j)"
    "length_of B (fst (genKillBitsets B df blocks)) b \<le> length blocks"
    "dom (fst (genKillBitsets B df blocks)) = set blocks" "dom (snd (genKillBitsets B df blocks)) = set blocks"
proof -
  let ?st0 = "(Map.empty, \<lambda>_. bs_new B, \<lambda>_. bs_new B) :: 'b genkill"
  let ?es = "enumerate 0 blocks"
  have es: "\<And>j b. (j, b) \<in> set ?es \<Longrightarrow> j < length blocks \<and> blocks ! j = b" "distinct (map snd ?es)"
    "\<And>i. i < length blocks \<Longrightarrow> (i, blocks ! i) \<in> set ?es" "snd ` set ?es = set blocks"
    using d by (auto simp: in_set_enumerate_eq simp flip: set_map)
  have "gk_inv B df blocks ?st0" by (simp add: gk_inv_def bits_new len_new)
  from gk_pass [OF d this es(1,2)] obtain ok1 g1 k1 where p1:
    "fold (gen_kill_block B df) ?es ?st0 = (ok1, g1, k1)" "gk_inv B df blocks (ok1, g1, k1)"
    "\<forall>e. var_bits B Map.empty e \<union> {j. \<exists>b. (j, b) \<in> set ?es \<and> e \<in> set (df b)} \<subseteq> var_bits B ok1 e"
    by blast
  from gk_pass [OF d p1(2) es(1,2)] obtain ok2 g2 k2 where p2:
    "fold (gen_kill_block B df) ?es (ok1, g1, k1) = (ok2, g2, k2)" "gk_inv B df blocks (ok2, g2, k2)"
    "\<forall>b. bits B (g1 b) \<union> {j. (j, b) \<in> set ?es \<and> df b \<noteq> []} \<subseteq> bits B (g2 b)"
    "(\<forall>e. {i. i < length blocks \<and> e \<in> set (df (blocks ! i))} \<subseteq> var_bits B ok1 e) \<longrightarrow>
         (\<forall>b\<in>snd ` set ?es. clash df blocks b \<subseteq> bits B (k2 b))"
    by blast
  have "{i. i < length blocks \<and> e \<in> set (df (blocks ! i))} \<subseteq> var_bits B ok1 e" for e
    using p1(3) es(3) by blast
  with p2(4) es(4) have kill: "clash df blocks b \<subseteq> bits B (k2 b)" if "b \<in> set blocks" for b using that by blast
  have gk: "genKillBitsets B df blocks = (map_of (map (\<lambda>b. (b, g2 b)) blocks), map_of (map (\<lambda>b. (b, k2 b)) blocks))"
    using p1(1) p2(1) by (simp add: genKillBitsets_def gen_kill_pass_def)
  note get = map_of_keyed
  show "bits_of B (fst (genKillBitsets B df blocks)) (blocks ! j) = (if df (blocks ! j) = [] then {} else {j})"
    if j: "j < length blocks"
  proof -
    have "bits B (g2 (blocks ! j)) \<subseteq> {i. i < length blocks \<and> blocks ! i = blocks ! j \<and> df (blocks ! j) \<noteq> []}"
      using p2(2) by (simp add: gk_inv_def)
    also have "\<dots> \<subseteq> {i. i = j \<and> df (blocks ! j) \<noteq> []}" using d j by (auto simp: nth_eq_iff_index_eq)
    finally have "bits B (g2 (blocks ! j)) \<subseteq> {i. i = j \<and> df (blocks ! j) \<noteq> []}" .
    moreover have "j \<in> bits B (g2 (blocks ! j))" if "df (blocks ! j) \<noteq> []"
      using p2(3) es(3) [OF j] that by blast
    moreover have "bits_of B (fst (genKillBitsets B df blocks)) (blocks ! j) = bits B (g2 (blocks ! j))"
      using j by (simp add: gk get bits_of_def)
    ultimately show ?thesis by auto
  qed
  show "bits_of B (snd (genKillBitsets B df blocks)) (blocks ! j) = clash df blocks (blocks ! j)"
    if j: "j < length blocks"
    using p2(2) kill [of "blocks ! j"] j by (auto simp: gk get bits_of_def gk_inv_def)
  show "length_of B (fst (genKillBitsets B df blocks)) b \<le> length blocks"
    using p2(2) by (simp add: gk get length_of_def gk_inv_def)
  show "dom (fst (genKillBitsets B df blocks)) = set blocks" "dom (snd (genKillBitsets B df blocks)) = set blocks"
    by (auto simp: gk get split: if_splits)
qed

text \<open>Reading bits back: the loop over the next set bit visits them all and ends.\<close>

lemma result_loop_correct:
  "bits B x \<subseteq> {..<length blocks} \<Longrightarrow>
   result_loop B blocks x i acc = Some (Inr (acc \<union> (!) blocks ` (bits B x \<inter> {i..})))"
proof (induction "length blocks - i" arbitrary: i acc rule: less_induct)
  case less
  show ?case
  proof (cases "bs_next B x i")
    case None
    then have "bits B x \<inter> {i..} = {}" by (simp add: next_None)
    with None show ?thesis by (subst result_loop.simps) simp
  next
    case (Some j)
    then have j: "j \<in> bits B x" "i \<le> j" "bits B x \<inter> {i..<j} = {}" using next_Some by blast+
    then have jl: "j < length blocks" using less.prems by blast
    have split: "bits B x \<inter> {i..} = insert j (bits B x \<inter> {j + 1..})"
    proof -
      have "{i..} = {i..<j} \<union> {j} \<union> {j + 1..}" using j(2) by auto
      with j(1,3) show ?thesis by blast
    qed
    have "length blocks - (j + 1) < length blocks - i" using jl j(2) by linarith
    then show ?thesis
      using less.hyps [of "j + 1" "insert (blocks ! j) acc"] less.prems Some jl split
      by (subst result_loop.simps) simp
  qed
qed

lemma reachingDefResultSets_correct:
  assumes "\<And>b. b \<in> set bs \<Longrightarrow> \<exists>x. ins b = Some x" "\<And>b. b \<in> set bs \<Longrightarrow> \<exists>x. outs b = Some x"
    "\<And>b. bits_of B ins b \<subseteq> {..<length blocks}" "\<And>b. bits_of B outs b \<subseteq> {..<length blocks}"
  shows "reachingDefResultSets B blocks ins outs bs =
    Some (Inr (map (\<lambda>b. (b, (!) blocks ` bits_of B ins b)) bs, map (\<lambda>b. (b, (!) blocks ` bits_of B outs b)) bs))"
  using assms(1,2)
proof (induction bs)
  case (Cons b bs)
  obtain x y where xy: "ins b = Some x" "outs b = Some y" using Cons.prems by fastforce
  then have "bits B x \<subseteq> {..<length blocks}" "bits B y \<subseteq> {..<length blocks}"
    using assms(3,4) [of b] by (auto simp: bits_of_Some)
  then have "result_set B blocks ins b = Some (Inr ((!) blocks ` bits_of B ins b))"
    "result_set B blocks outs b = Some (Inr ((!) blocks ` bits_of B outs b))"
    using xy by (simp_all add: result_set_def result_loop_correct bits_of_Some)
  with Cons show ?case by simp
qed simp

end

section \<open>Reaching definitions\<close>

text \<open>
  \<open>reaches df m d b\<close>: there is a path of the graph from the definition \<open>d\<close> to \<open>b\<close> on which no
  other statement defines a variable of \<open>d\<close>.
\<close>

inductive reaches :: "(node \<Rightarrow> var list) \<Rightarrow> blocks \<Rightarrow> node \<Rightarrow> node \<Rightarrow> bool" for df m where
  reaches_edge: "edge m d b \<Longrightarrow> df d \<noteq> [] \<Longrightarrow> reaches df m d b"
| reaches_pass: "reaches df m d p \<Longrightarrow> edge m p b \<Longrightarrow> p = d \<or> set (df p) \<inter> set (df d) = {} \<Longrightarrow> reaches df m d b"

lemma reaches_keys: "reaches df m d b \<Longrightarrow> wf_blocks m \<Longrightarrow> d \<in> keys m \<and> b \<in> keys m \<and> df d \<noteq> [] \<and> (\<exists>p. edge m p b)"
  by (induction rule: reaches.induct) (auto dest: edge_keys)

lemma primed_get: "primed B blocks b = (if b \<in> set blocks then Some (bs_new B) else None)"
  by (induction blocks) (auto simp: primed_def)

lemma CFG_Preds_wf:
  assumes "wf_blocks (Blocks c)" "b \<in> keys (Blocks c)"
  obtains ps where "CFG_Preds c b = Inr ps" "set ps = {p. edge (Blocks c) p b}"
proof -
  obtain bl where bl: "map_of (Blocks c) b = Some bl" using assms(2) by (auto simp: keys_dom)
  then show ?thesis using that [of "Preds bl"] pred_edge [OF assms(1) bl] by (auto simp: CFG_Preds_def)
qed

lemma GetBlocks_list: "range_order ord \<Longrightarrow> distinct (GetBlocks ord c) \<and> set (GetBlocks ord c) = keys (Blocks c)"
  by (simp add: GetBlocks_def keys_def range_order_def flip: set_map)

context bitset_api
begin

lemma arrives_reaches:
  assumes wf: "wf_blocks (Blocks c)" and en: "\<And>s. \<not> edge (Blocks c) s (Entry c)" "df (Entry c) = []"
    and bl: "distinct blocks" "set blocks = keys (Blocks c)" "set bs = keys (Blocks c) - {Entry c}"
    and gen: "\<And>j. j < length blocks \<Longrightarrow> bits_of B gen (blocks ! j) = (if df (blocks ! j) = [] then {} else {j})"
    and kill: "\<And>j. j < length blocks \<Longrightarrow> bits_of B kill (blocks ! j) = clash df blocks (blocks ! j)"
    and ps: "\<And>b. b \<in> keys (Blocks c) \<Longrightarrow> set (ps b) = {p. edge (Blocks c) p b}"
    and b: "b \<in> set bs"
  shows "flow_arrives B ps gen kill bs j b \<longleftrightarrow> j < length blocks \<and> reaches df (Blocks c) (blocks ! j) b"
proof
  assume "flow_arrives B ps gen kill bs j b"
  then show "j < length blocks \<and> reaches df (Blocks c) (blocks ! j) b"
  proof (induction rule: arrives.induct)
    case (arrives_gen b p j)
    have "p \<in> keys (Blocks c)" "b \<in> keys (Blocks c)" using arrives_gen bl(3) by auto
    then obtain i where i: "i < length blocks" "p = blocks ! i" using bl(2) by (metis in_set_conv_nth)
    with arrives_gen(4) gen [of i] have "df p \<noteq> []" "j = i" by (auto split: if_splits)
    moreover have "edge (Blocks c) p b" using arrives_gen(2) ps \<open>b \<in> keys (Blocks c)\<close> by auto
    ultimately show ?case using i by (auto intro: reaches_edge)
  next
    case (arrives_pass b p j)
    have k: "p \<in> keys (Blocks c)" "b \<in> keys (Blocks c)" using arrives_pass bl(3) by auto
    then obtain i where i: "i < length blocks" "p = blocks ! i" using bl(2) by (metis in_set_conv_nth)
    have "edge (Blocks c) p b" using arrives_pass(2) ps k by auto
    moreover have "p = blocks ! j \<or> set (df p) \<inter> set (df (blocks ! j)) = {}"
    proof -
      have "j \<notin> clash df blocks p" using arrives_pass.hyps(5) kill [OF i(1)] unfolding i(2) by simp
      moreover have "j < length blocks" using arrives_pass.IH by simp
      ultimately show ?thesis unfolding clash_def by blast
    qed
    ultimately show ?case using arrives_pass.IH reaches_pass by blast
  qed
next
  assume "j < length blocks \<and> reaches df (Blocks c) (blocks ! j) b"
  then have j: "j < length blocks" and r: "reaches df (Blocks c) (blocks ! j) b" by auto
  have inb: "b \<in> set bs" if "edge (Blocks c) p b" for p b
    using that edge_keys [OF wf that] en(1) bl(3) by auto
  from r j show "flow_arrives B ps gen kill bs j b"
  proof (induction "blocks ! j" b rule: reaches.induct)
    case (reaches_edge b)
    note k = edge_keys [OF wf reaches_edge(1)]
    have "blocks ! j \<noteq> Entry c" using reaches_edge(2) en(2) by metis
    then have "blocks ! j \<in> set bs" unfolding bl(3) using k by blast
    moreover have "j \<in> bits_of B gen (blocks ! j)" using gen [OF j] reaches_edge(2) by simp
    moreover have "blocks ! j \<in> set (ps b)" using ps k reaches_edge(1) by blast
    ultimately show ?case using inb [OF reaches_edge(1)] by (intro arrives_gen)
  next
    case (reaches_pass p b)
    have pb: "p \<in> set bs" using reaches_keys [OF reaches_pass(1) wf] inb by blast
    then obtain i where i: "i < length blocks" "p = blocks ! i" using bl(2,3) by (metis DiffD1 in_set_conv_nth)
    have "j \<notin> clash df blocks p" using reaches_pass(4) by (auto simp: clash_def)
    then have "j \<notin> bits_of B kill p" using kill [OF i(1)] unfolding i(2) by simp
    moreover have "p \<in> set (ps b)" using ps edge_keys [OF wf reaches_pass(3)] reaches_pass(3) by blast
    ultimately show ?case
      using pb inb [OF reaches_pass(3)] reaches_pass(2) [OF reaches_pass(5)] by (blast intro: arrives_pass)
  qed
qed

lemma primed_empty:
  "dom (primed B bs) = set bs" "bits_of B (primed B bs) b = {}" "length_of B (primed B bs) b = 0"
  by (auto simp: primed_get bits_of_def length_of_def bits_new len_new dom_def)

lemma ReachingDefs_sets:
  assumes wf: "wf_blocks (Blocks c)" and en: "\<And>s. \<not> edge (Blocks c) s (Entry c)" "df (Entry c) = []"
    and ord: "range_order ord" "range_order ord'"
  shows "ReachingDefs B ord ord' df c = Some (Inr
      (map (\<lambda>b. (b, {d. reaches df (Blocks c) d b})) (GetBlocks ord c),
       map (\<lambda>b. (b, {d. d = b \<and> df d \<noteq> [] \<or> reaches df (Blocks c) d b \<and> (d = b \<or> set (df b) \<inter> set (df d) = {})}))
         (GetBlocks ord c)))"
proof -
  define blocks where "blocks = GetBlocks ord c"
  define all where "all = GetBlocks ord' c"
  define bs where "bs = filter (\<lambda>b. b \<noteq> Entry c) all"
  define gen where "gen = fst (genKillBitsets B df blocks)"
  define kill where "kill = snd (genKillBitsets B df blocks)"
  define ps where "ps = (\<lambda>b. case CFG_Preds c b of Inl e \<Rightarrow> [] | Inr ps \<Rightarrow> ps)"
  have bl: "distinct blocks" "set blocks = keys (Blocks c)" using GetBlocks_list [OF ord(1)] by (auto simp: blocks_def)
  have al: "distinct all" "set all = keys (Blocks c)" using GetBlocks_list [OF ord(2)] by (auto simp: all_def)
  have bs: "distinct bs" "set bs = keys (Blocks c) - {Entry c}" using al by (auto simp: bs_def)
  have pr: "CFG_Preds c b = Inr (ps b)" "set (ps b) = {p. edge (Blocks c) p b}" if b: "b \<in> keys (Blocks c)" for b
  proof -
    obtain qs where "CFG_Preds c b = Inr qs" "set qs = {p. edge (Blocks c) p b}" using CFG_Preds_wf [OF wf b] .
    then show "CFG_Preds c b = Inr (ps b)" "set (ps b) = {p. edge (Blocks c) p b}" by (simp_all add: ps_def)
  qed
  note gk = genKillBitsets_bits [OF bl(1), where df = df, folded gen_def kill_def]
  have dom: "dom gen = keys (Blocks c)" "dom kill = keys (Blocks c)" using gk(4,5) bl(2) by simp_all
  have L: "length_of B gen b \<le> length blocks" for b using gk(3) .
  have ok: "flow_ok (CFG_Preds c) ps gen kill bs (keys (Blocks c))"
    unfolding flow_ok_def
  proof (intro conjI ballI)
    fix b assume "b \<in> set bs"
    then have b: "b \<in> keys (Blocks c)" using bs(2) by blast
    show "CFG_Preds c b = Inr (ps b)" using pr(1) [OF b] .
    show "set (ps b) \<subseteq> keys (Blocks c)" unfolding pr(2) [OF b] using edge_keys [OF wf] by blast
    show "\<exists>g. gen b = Some g" "\<exists>k. kill b = Some k" using dom b by blast+
  qed (use bs in auto)
  have p0: "dom (primed B all) = keys (Blocks c)" "bits_of B (primed B all) b = {}" "length_of B (primed B all) b = 0" for b
    using primed_empty [of all] al(2) by simp_all
  obtain ins outs where r: "flow_loop B (CFG_Preds c) gen kill bs (primed B all) (primed B all) = Some (Inr (ins, outs))"
    "dom ins = keys (Blocks c)" "dom outs = keys (Blocks c)"
    "\<forall>b. bits_of B ins b = (if b \<in> set bs then {j. flow_arrives B ps gen kill bs j b} else {})"
    "\<forall>b. bits_of B outs b = (if b \<in> set bs then bits_of B gen b \<union> (bits_of B ins b - bits_of B kill b) else {})"
    using flow_loop_correct [OF ok p0 p0 L] by blast
  have none: "\<not> reaches df (Blocks c) d b" if "b \<notin> set bs" for d b
    using reaches_keys [OF _ wf, of df d b] that en(1) bs(2) by blast
  have ins: "bits_of B ins b = {j. j < length blocks \<and> reaches df (Blocks c) (blocks ! j) b}" for b
  proof (cases "b \<in> set bs")
    case True
    then show ?thesis
      using arrives_reaches [OF wf en bl bs(2) gk(1,2) pr(2) True] unfolding r(4) [rule_format, of b] by simp
  next
    case False
    with none [of b] show ?thesis unfolding r(4) [rule_format, of b] by simp
  qed
  have im: "(!) blocks ` {j. j < length blocks \<and> P (blocks ! j)} = {d. d \<in> keys (Blocks c) \<and> P d}" for P
    unfolding bl(2) [symmetric] by (auto simp: in_set_conv_nth)
  have IN: "(!) blocks ` bits_of B ins b = {d. reaches df (Blocks c) d b}" for b
    unfolding ins using im [of "\<lambda>d. reaches df (Blocks c) d b"] reaches_keys [OF _ wf, of df _ b] by auto
  have outs: "bits_of B outs b = {j. j < length blocks \<and> (blocks ! j = b \<and> df (blocks ! j) \<noteq> [] \<or>
      reaches df (Blocks c) (blocks ! j) b \<and> (blocks ! j = b \<or> set (df b) \<inter> set (df (blocks ! j)) = {}))}"
    if b: "b \<in> keys (Blocks c)" for b
  proof (cases "b \<in> set bs")
    case True
    obtain i where i: "i < length blocks" "b = blocks ! i" using b bl(2) by (metis in_set_conv_nth)
    have "bits_of B outs b = (if df b = [] then {} else {i}) \<union>
        ({j. j < length blocks \<and> reaches df (Blocks c) (blocks ! j) b} - clash df blocks b)"
      using r(5) [rule_format, of b] True ins [of b] gk(1) [OF i(1)] gk(2) [OF i(1)] by (simp add: i(2))
    also have "\<dots> = {j. j < length blocks \<and> (blocks ! j = b \<and> df (blocks ! j) \<noteq> [] \<or>
      reaches df (Blocks c) (blocks ! j) b \<and> (blocks ! j = b \<or> set (df b) \<inter> set (df (blocks ! j)) = {}))}"
      using bl(1) i by (auto simp: clash_def nth_eq_iff_index_eq split: if_splits)
    finally show ?thesis .
  next
    case False
    then have "b = Entry c" using b bs(2) by blast
    with False show ?thesis using r(5) [rule_format, of b] none [of b] en(2) by auto
  qed
  have OUT: "(!) blocks ` bits_of B outs b = {d. d = b \<and> df d \<noteq> [] \<or> reaches df (Blocks c) d b \<and> (d = b \<or> set (df b) \<inter> set (df d) = {})}"
    if b: "b \<in> keys (Blocks c)" for b
    unfolding outs [OF b]
    using im [of "\<lambda>d. d = b \<and> df d \<noteq> [] \<or> reaches df (Blocks c) d b \<and> (d = b \<or> set (df b) \<inter> set (df d) = {})"]
      reaches_keys [OF _ wf, of df _ b] b by auto
  have bound: "bits_of B ins b \<subseteq> {..<length blocks}" "bits_of B outs b \<subseteq> {..<length blocks}" for b
  proof -
    show "bits_of B ins b \<subseteq> {..<length blocks}" unfolding ins by auto
    show "bits_of B outs b \<subseteq> {..<length blocks}"
    proof (cases "b \<in> keys (Blocks c)")
      case True
      then show ?thesis using outs by auto
    next
      case False
      then show ?thesis using r(5) [rule_format, of b] bs(2) by simp
    qed
  qed
  have "reachingDefResultSets B blocks ins outs blocks =
    Some (Inr (map (\<lambda>b. (b, (!) blocks ` bits_of B ins b)) blocks, map (\<lambda>b. (b, (!) blocks ` bits_of B outs b)) blocks))"
    using r(2,3) bl(2) bound by (intro reachingDefResultSets_correct) auto
  also have "map (\<lambda>b. (b, (!) blocks ` bits_of B ins b)) blocks = map (\<lambda>b. (b, {d. reaches df (Blocks c) d b})) blocks"
    unfolding IN ..
  also have "map (\<lambda>b. (b, (!) blocks ` bits_of B outs b)) blocks =
      map (\<lambda>b. (b, {d. d = b \<and> df d \<noteq> [] \<or> reaches df (Blocks c) d b \<and> (d = b \<or> set (df b) \<inter> set (df d) = {})})) blocks"
    using OUT bl(2) by (intro map_cong) auto
  finally show ?thesis
    using r(1) by (simp add: ReachingDefs_def Let_def split_beta reachingDefBitsets_def bs_def all_def blocks_def gen_def kill_def)
qed

end

text \<open>
  C18: Reaching definitions. On the graph of a function, whatever the order in which its map
  of blocks is ranged over and for any bit set implementation that keeps its documented
  promises, \<open>ReachingDefs\<close> terminates without failure, and the set computed for a statement
  holds exactly the statements \<open>d\<close> from which a path leads to it on which no other statement
  defines a variable of \<open>d\<close>.
\<close>

theorem ReachingDefs_correct:
  assumes "bitset_api B" "wf_blocks (Blocks c)" "\<And>s. \<not> edge (Blocks c) s (Entry c)" "df (Entry c) = []"
    "range_order ord" "range_order ord'"
  shows "\<exists>ins outs. ReachingDefs B ord ord' df c = Some (Inr (ins, outs)) \<and>
    map fst ins = GetBlocks ord c \<and> map fst outs = GetBlocks ord c \<and>
    (\<forall>s\<in>keys (Blocks c). map_of ins s = Some {d. reaches df (Blocks c) d s} \<and>
       map_of outs s = Some {d. d = s \<and> df d \<noteq> [] \<or>
         reaches df (Blocks c) d s \<and> (d = s \<or> set (df s) \<inter> set (df d) = {})})"
  using bitset_api.ReachingDefs_sets [where df = df, OF assms] GetBlocks_list [OF assms(5), of c]
  by (simp add: map_of_keyed comp_def)

definition loop_defs :: "node \<Rightarrow> var list" where
  "loop_defs n = (if n = 3 \<or> n = 4 then [100] else if n = 7 then [101] else [])"

lemma loop_cfg_entry: "\<not> edge (Blocks loop_cfg) s 0"
proof -
  have "block_nodes loop_prog = {2, 3, 4, 5, 6, 7, 8}" by (auto simp: loop_prog_def)
  then show ?thesis
    using FromStmts_graph(3) [of 0 1 loop_prog s 0] by (auto simp: loop_cfg_def)
qed

theorem ReachingDefs_correct_witness:
  "\<exists>ins outs. ReachingDefs list_bits sorted_list_of_set sorted_list_of_set loop_defs loop_cfg = Some (Inr (ins, outs)) \<and>
    map_of ins 2 = Some {d. reaches loop_defs (Blocks loop_cfg) d 2}"
proof -
  have "2 \<in> keys (Blocks loop_cfg)" by (simp add: loop_cfg_wf)
  then show ?thesis
    using ReachingDefs_correct [OF listb.bitset_api_axioms loop_cfg_wf(1), of loop_defs sorted_list_of_set sorted_list_of_set]
      loop_cfg_entry by (simp add: loop_defs_def) blast
qed

end
