(* ===== verification/Data_Deps.thy ===== *)
theory Data_Deps
  imports Dataflow_Props
begin

text \<open>
  The data dependence graph that \<open>CreateDataDepGraph\<close> draws from reaching definitions
  (\<open>src/programslicer/dataflow/reaching.go\<close>), and the live variables of
  \<open>src/programslicer/dataflow/live.go\<close>.
\<close>

section \<open>Data dependences\<close>

text \<open>\<open>m'\<close> is \<open>m\<close> with the dependences \<open>P\<close> added: \<open>(u, d) \<in> P\<close> when \<open>u\<close> depends on \<open>d\<close>.\<close>

definition adds_deps :: "(node \<times> node) set \<Rightarrow> blocks \<Rightarrow> blocks \<Rightarrow> bool" where
  "adds_deps P m m' \<longleftrightarrow> map fst m' = map fst m \<and>
     (\<forall>s b. map_of m s = Some b \<longrightarrow> (\<exists>dd de. map_of m' s = Some (b\<lparr>DataDep := dd, DataDepee := de\<rparr>) \<and>
        set dd = set (DataDep b) \<union> {d. (s, d) \<in> P} \<and> set de = set (DataDepee b) \<union> {u. (u, s) \<in> P}))"

lemma adds_deps_refl: "adds_deps {} m m"
proof -
  have "\<exists>dd de. Some b = Some (b\<lparr>DataDep := dd, DataDepee := de\<rparr>) \<and> set dd = set (DataDep b) \<and> set de = set (DataDepee b)"
    for b :: Block by (intro exI [of _ "DataDep b"] exI [of _ "DataDepee b"]) simp
  then show ?thesis by (simp add: adds_deps_def)
qed

lemma adds_deps_trans:
  assumes "adds_deps P m m1" "adds_deps Q m1 m2" shows "adds_deps (P \<union> Q) m m2"
  unfolding adds_deps_def
proof (intro conjI allI impI)
  show "map fst m2 = map fst m" using assms by (simp add: adds_deps_def)
  fix s b assume "map_of m s = Some b"
  then obtain dd de where 1: "map_of m1 s = Some (b\<lparr>DataDep := dd, DataDepee := de\<rparr>)"
    "set dd = set (DataDep b) \<union> {d. (s, d) \<in> P}" "set de = set (DataDepee b) \<union> {u. (u, s) \<in> P}"
    using assms(1) unfolding adds_deps_def by blast
  obtain dd' de' where "map_of m2 s = Some (b\<lparr>DataDep := dd, DataDepee := de\<rparr>\<lparr>DataDep := dd', DataDepee := de'\<rparr>)"
    "set dd' = set dd \<union> {d. (s, d) \<in> Q}" "set de' = set de \<union> {u. (u, s) \<in> Q}"
    using assms(2) 1(1) unfolding adds_deps_def by fastforce
  with 1(2,3) show "\<exists>dd de. map_of m2 s = Some (b\<lparr>DataDep := dd, DataDepee := de\<rparr>) \<and>
      set dd = set (DataDep b) \<union> {d. (s, d) \<in> P \<union> Q} \<and> set de = set (DataDepee b) \<union> {u. (u, s) \<in> P \<union> Q}"
    by (intro exI [of _ dd'] exI [of _ de']) auto
qed

lemma intersectDefUse_iff: "intersectDefUse ds us \<longleftrightarrow> set ds \<inter> set us \<noteq> {}"
  by (induction ds) auto

lemma adds_deps_keys: "adds_deps P m m' \<Longrightarrow> keys m' = keys m"
  by (simp add: adds_deps_def keys_def flip: set_map)

lemma data_dep_step:
  assumes "u \<in> keys m" "d \<in> keys m"
  shows "\<exists>m'. data_dep df us u d m = Inr m' \<and>
    adds_deps (if set (df d) \<inter> set (us u) = {} then {} else {(u, d)}) m m'"
proof (cases "set (df d) \<inter> set (us u) = {}")
  case True
  then show ?thesis by (simp add: data_dep_def intersectDefUse_iff adds_deps_refl)
next
  case False
  obtain bu bd where b: "map_of m u = Some bu" "map_of m d = Some bd" using assms by (auto simp: keys_dom)
  define m' where "m' = AList.map_entry d (\<lambda>b. b\<lparr>DataDepee := DataDepee b @ [u]\<rparr>)
                   (AList.map_entry u (\<lambda>b. b\<lparr>DataDep := DataDep b @ [d]\<rparr>) m)"
  have "data_dep df us u d m = Inr m'"
    using False b by (simp add: data_dep_def intersectDefUse_iff m'_def)
  moreover have "adds_deps {(u, d)} m m'"
    unfolding adds_deps_def
  proof (intro conjI allI impI)
    show "map fst m' = map fst m" by (simp add: m'_def)
    fix s b assume s: "map_of m s = Some b"
    show "\<exists>dd de. map_of m' s = Some (b\<lparr>DataDep := dd, DataDepee := de\<rparr>) \<and>
       set dd = set (DataDep b) \<union> {d'. (s, d') \<in> {(u, d)}} \<and> set de = set (DataDepee b) \<union> {u'. (u', s) \<in> {(u, d)}}"
      using s by (intro exI [of _ "DataDep b @ (if s = u then [d] else [])"]
          exI [of _ "DataDepee b @ (if s = d then [u] else [])"]) (auto simp: m'_def)
  qed
  ultimately show ?thesis using False by auto
qed

text \<open>Folding a step that adds dependences adds their union.\<close>

lemma fold_adds_deps:
  assumes "\<And>m x. x \<in> set xs \<Longrightarrow> keys m = K \<Longrightarrow> \<exists>m'. f m x = Inr m' \<and> adds_deps (P x) m m'"
  shows "keys m = K \<Longrightarrow> \<exists>m'. foldR f m xs = Inr m' \<and> adds_deps (\<Union>x\<in>set xs. P x) m m'"
  using assms
proof (induction xs arbitrary: m)
  case Nil
  then show ?case by (simp add: adds_deps_refl)
next
  case (Cons x xs)
  obtain m1 where m1: "f m x = Inr m1" "adds_deps (P x) m m1" using Cons.prems(2) [of x m] Cons.prems(1) by auto
  have "keys m1 = K" using adds_deps_keys [OF m1(2)] Cons.prems(1) by simp
  then obtain m2 where m2: "foldR f m1 xs = Inr m2" "adds_deps (\<Union>x\<in>set xs. P x) m1 m2"
    using Cons.IH [of m1] Cons.prems(2) by auto
  have "adds_deps (\<Union>x\<in>set (x # xs). P x) m m2" using adds_deps_trans [OF m1(2) m2(2)] by simp
  with m1(1) m2(1) show ?case by auto
qed

definition dep_pairs :: "(node \<Rightarrow> var list) \<Rightarrow> (node \<Rightarrow> var list) \<Rightarrow> blocks \<Rightarrow> (node \<times> node) set" where
  "dep_pairs df us m = {(u, d). reaches df m d u \<and> set (df d) \<inter> set (us u) \<noteq> {}}"

lemma CreateDataDepGraph_graph:
  assumes B: "bitset_api B" and wf: "wf_blocks (Blocks c)" and en: "\<And>s. \<not> edge (Blocks c) s (Entry c)" "df (Entry c) = []"
    and ord: "range_order ord" "range_order ord'" "range_order ord''"
  shows "\<exists>m'. CreateDataDepGraph B ord ord' ord'' df us c = Some (Inr (c\<lparr>Blocks := m'\<rparr>)) \<and>
    adds_deps (dep_pairs df us (Blocks c)) (Blocks c) m'"
proof -
  define K where "K = keys (Blocks c)"
  define ins where "ins = map (\<lambda>b. (b, {d. reaches df (Blocks c) d b})) (GetBlocks ord c)"
  have fin: "finite K" by (simp add: K_def keys_def)
  have sub: "{d. reaches df (Blocks c) d u} \<subseteq> K" for u using reaches_keys [OF _ wf] by (auto simp: K_def)
  then have ord_ds: "set (ord'' {d. reaches df (Blocks c) d u}) = {d. reaches df (Blocks c) d u}" for u
    using ord(3) fin finite_subset [OF sub] by (simp add: range_order_def)
  have fst: "set (map fst ins) = K" using GetBlocks_list [OF ord(1), of c] by (simp add: ins_def K_def comp_def)
  have ord_us: "set (ord'' (set (map fst ins))) = K" unfolding fst using ord(3) fin by (simp add: range_order_def)
  let ?inner = "\<lambda>u m d. data_dep df us u d m"
  let ?outer = "\<lambda>m u. case gomap_get ins u of None \<Rightarrow> Inr m | Some ds \<Rightarrow> foldR (?inner u) m (ord'' ds)"
  let ?P = "\<lambda>u d. if set (df d) \<inter> set (us u) = {} then {} else {(u, d)}"
  have inner: "\<exists>m'. foldR (?inner u) m (ord'' {d. reaches df (Blocks c) d u}) = Inr m' \<and>
      adds_deps (\<Union>d\<in>{d. reaches df (Blocks c) d u}. ?P u d) m m'" if "u \<in> K" "keys m = K" for m u
    using fold_adds_deps [of "ord'' {d. reaches df (Blocks c) d u}" K "?inner u" "?P u" m] data_dep_step that sub ord_ds
    by (auto simp: subset_iff)
  have look: "gomap_get ins u = Some {d. reaches df (Blocks c) d u}" if "u \<in> K" for u
    using GetBlocks_list [OF ord(1), of c] that by (simp add: ins_def map_of_keyed K_def)
  have outer: "\<exists>m'. foldR ?outer (Blocks c) (ord'' (set (map fst ins))) = Inr m' \<and>
      adds_deps (\<Union>u\<in>set (ord'' (set (map fst ins))). \<Union>d\<in>{d. reaches df (Blocks c) d u}. ?P u d) (Blocks c) m'"
    using inner look ord_us by (intro fold_adds_deps [where K = K]) (auto simp: K_def)
  have "(\<Union>u\<in>set (ord'' (set (map fst ins))). \<Union>d\<in>{d. reaches df (Blocks c) d u}. ?P u d) = dep_pairs df us (Blocks c)"
    unfolding ord_us dep_pairs_def using reaches_keys [OF _ wf] by (auto simp: K_def split: if_splits)
  with outer obtain m' where m': "foldR ?outer (Blocks c) (ord'' (set (map fst ins))) = Inr m'"
    "adds_deps (dep_pairs df us (Blocks c)) (Blocks c) m'" by auto
  have "CreateDataDepGraph B ord ord' ord'' df us c =
      Some (rbind (foldR ?outer (Blocks c) (ord'' (set (map fst ins)))) (\<lambda>m. Inr (c\<lparr>Blocks := m\<rparr>)))"
    unfolding CreateDataDepGraph_def bitset_api.ReachingDefs_sets [where df = df, OF B wf en ord(1,2)] ins_def [symmetric]
    by simp
  with m' show ?thesis by auto
qed


text \<open>
  C19: The data dependence graph. \<open>CreateDataDepGraph\<close> terminates without failure, and in the
  graph it returns a statement \<open>u\<close> depends on \<open>d\<close> exactly when a definition of \<open>d\<close> reaches
  \<open>u\<close> and \<open>u\<close> uses one of the variables that \<open>d\<close> defines; the reverse lists agree.
\<close>

theorem CreateDataDepGraph_correct:
  assumes "bitset_api B" "wf_blocks (Blocks c)" "\<And>s. \<not> edge (Blocks c) s (Entry c)" "df (Entry c) = []"
    "range_order ord" "range_order ord'" "range_order ord''"
    and fresh: "\<And>s b. map_of (Blocks c) s = Some b \<Longrightarrow> DataDep b = [] \<and> DataDepee b = []"
  shows "\<exists>c'. CreateDataDepGraph B ord ord' ord'' df us c = Some (Inr c') \<and> keys (Blocks c') = keys (Blocks c) \<and>
    (\<forall>s b. map_of (Blocks c') s = Some b \<longrightarrow>
       set (DataDep b) = {d. reaches df (Blocks c) d s \<and> set (df d) \<inter> set (us s) \<noteq> {}} \<and>
       set (DataDepee b) = {u. reaches df (Blocks c) s u \<and> set (df s) \<inter> set (us u) \<noteq> {}})"
proof -
  obtain m' where m': "CreateDataDepGraph B ord ord' ord'' df us c = Some (Inr (c\<lparr>Blocks := m'\<rparr>))"
    "adds_deps (dep_pairs df us (Blocks c)) (Blocks c) m'"
    using CreateDataDepGraph_graph [where df = df and us = us, OF assms(1-7)] by blast
  have "set (DataDep b) = {d. reaches df (Blocks c) d s \<and> set (df d) \<inter> set (us s) \<noteq> {}} \<and>
       set (DataDepee b) = {u. reaches df (Blocks c) s u \<and> set (df s) \<inter> set (us u) \<noteq> {}}"
    if b: "map_of m' s = Some b" for s b
  proof -
    obtain b0 where "map_of (Blocks c) s = Some b0"
      using b adds_deps_keys [OF m'(2)] by (metis keys_dom)
    with m'(2) b fresh show ?thesis by (fastforce simp: adds_deps_def dep_pairs_def)
  qed
  with m' adds_deps_keys [OF m'(2)] show ?thesis by simp
qed

definition loop_uses :: "node \<Rightarrow> var list" where
  "loop_uses n = (if n = 2 \<or> n = 4 \<or> n = 5 then [100] else [])"

lemma loop_cfg_fresh: "map_of (Blocks loop_cfg) s = Some b \<Longrightarrow> DataDep b = [] \<and> DataDepee b = []"
proof -
  have "list_all (\<lambda>(s, b). DataDep b = [] \<and> DataDepee b = []) (Blocks loop_cfg)" by code_simp
  then show "map_of (Blocks loop_cfg) s = Some b \<Longrightarrow> DataDep b = [] \<and> DataDepee b = []"
    by (auto simp: list_all_iff dest!: map_of_SomeD)
qed

theorem CreateDataDepGraph_correct_witness:
  "\<exists>c'. CreateDataDepGraph list_bits sorted_list_of_set sorted_list_of_set sorted_list_of_set loop_defs loop_uses loop_cfg = Some (Inr c') \<and>
    keys (Blocks c') = {0, 1, 2, 3, 4, 5, 6, 7, 8}"
  using CreateDataDepGraph_correct [OF listb.bitset_api_axioms loop_cfg_wf(1), of loop_defs sorted_list_of_set
      sorted_list_of_set sorted_list_of_set loop_uses] loop_cfg_entry loop_cfg_fresh loop_cfg_wf(2)
  by (simp add: loop_defs_def) blast

text \<open>
  A definition is a whole statement. In \<open>a, b = 1, 2; a = 3; f(b)\<close> the second statement kills
  the first although it leaves \<open>b\<close> alone, and the dependence of the call on the only
  definition of \<open>b\<close> is lost.
\<close>

definition pair_prog :: "stmt list" where
  "pair_prog = [AssignStmt 2 [Ident 20, Ident 21] ASSIGN [], AssignStmt 3 [Ident 22] ASSIGN [], ExprStmt 4 (Ident 23)]"

definition pair_defs :: "node \<Rightarrow> var list" where
  "pair_defs n = (if n = 2 then [100, 101] else if n = 3 then [100] else [])"

definition pair_cfg :: CFG where
  "pair_cfg = FromStmts 0 1 pair_prog"

inductive_cases reachesE: "reaches df m d b"

lemma pair_edges: "edge (Blocks pair_cfg) p b \<longleftrightarrow> (p, b) \<in> {(0, 2), (2, 3), (3, 4), (4, 1)}"
proof -
  have "Blocks pair_cfg =
     [(2, (new_Block 2)\<lparr>Preds := [0], Succs := [3]\<rparr>), (0, (new_Block 0)\<lparr>Succs := [2]\<rparr>),
      (3, (new_Block 3)\<lparr>Preds := [2], Succs := [4]\<rparr>), (4, (new_Block 4)\<lparr>Preds := [3], Succs := [1]\<rparr>),
      (1, (new_Block 1)\<lparr>Preds := [4]\<rparr>)]" by code_simp
  then show ?thesis by (auto simp: edge_def new_Block_def)
qed

lemma pair_definition_lost:
  "101 \<in> set (pair_defs 2) - set (pair_defs 3) \<and> edge (Blocks pair_cfg) 2 3 \<and>
   edge (Blocks pair_cfg) 3 4 \<and> \<not> reaches pair_defs (Blocks pair_cfg) 2 4"
proof -
  have "\<not> reaches pair_defs (Blocks pair_cfg) 2 4"
    by (auto elim!: reachesE [where b = 4] simp: pair_edges pair_defs_def)
  then show ?thesis by (simp add: pair_edges pair_defs_def)
qed


section \<open>Live variables\<close>

text \<open>
  \<open>live df us sc Bs v b\<close>: the variable \<open>v\<close> is live at the end of \<open>b\<close>, that is a path leads
  from \<open>b\<close> to a use of \<open>v\<close> without a definition of \<open>v\<close> on the way.
\<close>

inductive live :: "(node \<Rightarrow> var set) \<Rightarrow> (node \<Rightarrow> var set) \<Rightarrow> (node \<Rightarrow> node set) \<Rightarrow> node set \<Rightarrow> var \<Rightarrow> node \<Rightarrow> bool"
  for df us sc Bs where
  live_use: "b \<in> Bs \<Longrightarrow> s \<in> sc b \<Longrightarrow> v \<in> us s \<Longrightarrow> live df us sc Bs v b"
| live_pass: "b \<in> Bs \<Longrightarrow> s \<in> sc b \<Longrightarrow> live df us sc Bs v s \<Longrightarrow> v \<notin> df s \<Longrightarrow> live df us sc Bs v b"

definition indexed :: "(var \<rightharpoonup> nat) \<Rightarrow> var list \<Rightarrow> bool" where
  "indexed idx vars \<longleftrightarrow> distinct vars \<and> (\<forall>v k. idx v = Some k \<longleftrightarrow> k < length vars \<and> vars ! k = v)"

definition bit_vars :: "'b bitset_ops \<Rightarrow> var list \<Rightarrow> 'b \<Rightarrow> var set \<Rightarrow> bool" where
  "bit_vars B vars x V \<longleftrightarrow> bs_len B x \<le> length vars \<and> (\<forall>k. k \<in> bits B x \<longleftrightarrow> k < length vars \<and> vars ! k \<in> V) \<and> V \<subseteq> set vars"

definition def_use :: "'b bitset_ops \<Rightarrow> 'b defuse \<Rightarrow> (node \<Rightarrow> var set) \<Rightarrow> (node \<Rightarrow> var set) \<Rightarrow> bool" where
  "def_use B = (\<lambda>(idx, vars, def, use) D U.
     indexed idx vars \<and> (\<forall>b. bit_vars B vars (def b) (D b) \<and> bit_vars B vars (use b) (U b)))"

lemma indexed_var_index:
  assumes "indexed idx vars" "var_index v (idx, vars) = (k, idx', vars')"
  shows "indexed idx' vars' \<and> k < length vars' \<and> vars' ! k = v \<and> (\<exists>ws. vars' = vars @ ws)"
proof (cases "idx v")
  case None
  have "v \<notin> set vars"
  proof
    assume "v \<in> set vars"
    then obtain i where "i < length vars" "vars ! i = v" by (auto simp: in_set_conv_nth)
    with None assms(1) show False unfolding indexed_def by (metis option.distinct(1))
  qed
  with None assms show ?thesis
    by (auto simp: var_index_def indexed_def nth_append less_Suc_eq split: if_splits)
next
  case (Some j)
  with assms show ?thesis by (auto simp: var_index_def indexed_def)
qed

context bitset_api
begin

lemma bit_vars_append: "bit_vars B vars x V \<Longrightarrow> distinct (vars @ ws) \<Longrightarrow> bit_vars B (vars @ ws) x V"
proof -
  assume bv: "bit_vars B vars x V" and d: "distinct (vars @ ws)"
  have "(vars @ ws) ! k \<notin> V" if "\<not> k < length vars" "k < length (vars @ ws)" for k
  proof -
    have "(vars @ ws) ! k \<in> set ws" using that by (simp add: nth_append)
    then show ?thesis using d bv by (auto simp: bit_vars_def)
  qed
  then have "k < length vars \<and> vars ! k \<in> V \<longleftrightarrow> k < length (vars @ ws) \<and> (vars @ ws) ! k \<in> V" for k
    by (cases "k < length vars") (auto simp: nth_append)
  with bv show ?thesis by (auto simp: bit_vars_def)
qed

lemma bit_vars_insert:
  "bit_vars B vars x V \<Longrightarrow> distinct vars \<Longrightarrow> k < length vars \<Longrightarrow> bit_vars B vars (bs_set B x k) (insert (vars ! k) V)"
  by (auto simp: bit_vars_def bits_set len_set nth_eq_iff_index_eq)

lemma def_use_add:
  assumes "def_use B st D U"
  shows "def_use B (add_def B b v st) (D(b := insert v (D b))) U"
    "def_use B (add_use B b v st) D (U(b := insert v (U b)))"
proof -
  obtain idx vars def use where st: "st = (idx, vars, def, use)" by (metis prod_cases4)
  obtain k idx' vars' where vi: "var_index v (idx, vars) = (k, idx', vars')" by (metis prod_cases3)
  have i: "indexed idx vars" and bv: "\<And>b. bit_vars B vars (def b) (D b)" "\<And>b. bit_vars B vars (use b) (U b)"
    using assms by (auto simp: st def_use_def)
  obtain ws where v': "indexed idx' vars'" "k < length vars'" "vars' ! k = v" "vars' = vars @ ws"
    using indexed_var_index [OF i vi] by auto
  then have d: "distinct vars'" by (simp add: indexed_def)
  have bv': "bit_vars B vars' (def b) (D b)" "bit_vars B vars' (use b) (U b)" for b
    using bit_vars_append bv d v'(4) by blast+
  show "def_use B (add_def B b v st) (D(b := insert v (D b))) U"
    "def_use B (add_use B b v st) D (U(b := insert v (U b)))"
    using bv' bit_vars_insert [OF _ d v'(2)] v'(1,3) by (auto simp: st def_use_def add_def_def add_use_def vi)
qed

lemma def_use_fold:
  "def_use B st D U \<Longrightarrow> def_use B (fold (add_def B b) ds st) (D(b := D b \<union> set ds)) U"
  "def_use B st D U \<Longrightarrow> def_use B (fold (add_use B b) ds st) D (U(b := U b \<union> set ds))"
proof -
  have upd: "(F(b := insert d (F b)))(b := (F(b := insert d (F b))) b \<union> set ds) = F(b := F b \<union> set (d # ds))"
    for F :: "node \<Rightarrow> var set" and d ds by auto
  show "def_use B st D U \<Longrightarrow> def_use B (fold (add_def B b) ds st) (D(b := D b \<union> set ds)) U"
  proof (induction ds arbitrary: st D)
    case (Cons d ds)
    from Cons.IH [OF def_use_add(1) [OF Cons.prems, of b d]] show ?case unfolding upd by simp
  qed simp
  show "def_use B st D U \<Longrightarrow> def_use B (fold (add_use B b) ds st) D (U(b := U b \<union> set ds))"
  proof (induction ds arbitrary: st U)
    case (Cons d ds)
    from Cons.IH [OF def_use_add(2) [OF Cons.prems, of b d]] show ?case unfolding upd by simp
  qed simp
qed

lemma def_use_blocks:
  "def_use B st D U \<Longrightarrow>
   def_use B (fold (\<lambda>b st. fold (add_use B b) (us b) (fold (add_def B b) (df b) st)) bs st)
     (\<lambda>b. if b \<in> set bs then D b \<union> set (df b) else D b) (\<lambda>b. if b \<in> set bs then U b \<union> set (us b) else U b)"
proof (induction bs arbitrary: st D U)
  case (Cons b bs)
  have "def_use B (fold (add_use B b) (us b) (fold (add_def B b) (df b) st)) (D(b := D b \<union> set (df b))) (U(b := U b \<union> set (us b)))"
    by (intro def_use_fold Cons.prems)
  note IH = Cons.IH [OF this]
  have upd: "(\<lambda>x. if x \<in> set bs then (F(b := F b \<union> set (f b))) x \<union> set (f x) else (F(b := F b \<union> set (f b))) x) =
      (\<lambda>x. if x \<in> set (b # bs) then F x \<union> set (f x) else F x)" for F :: "node \<Rightarrow> var set" and f
    by (rule ext) auto
  from IH show ?case unfolding upd by simp
qed simp

lemma live_set_correct:
  assumes "bits B x \<subseteq> {..<length vars}"
  shows "live_set B vars x = Inr ((!) vars ` bits B x)"
proof -
  have "foldR (\<lambda>acc i. if bs_test B x i then rbind (index_go vars i) (\<lambda>v. Inr (insert v acc)) else Inr acc) acc is =
      Inr (acc \<union> (!) vars ` (bits B x \<inter> set is))" for acc "is"
  proof (induction "is" arbitrary: acc)
    case (Cons i "is")
    show ?case
    proof (cases "i \<in> bits B x")
      case True
      then have "i < length vars" "bs_test B x i" using assms by (auto simp: bits_def)
      then show ?thesis using Cons.IH [of "insert (vars ! i) acc"] True by (auto simp: insert_absorb)
    next
      case False
      then show ?thesis using Cons.IH [of acc] by (auto simp: bits_def)
    qed
  qed simp
  moreover have "bits B x \<inter> set [0..<bs_len B x] = bits B x" using bits_len [of x] by auto
  ultimately show ?thesis by (simp add: live_set_def)
qed

text \<open>What the iteration computes with bits, read as variables.\<close>

lemma arrives_live:
  assumes i: "distinct vars" and bv: "\<And>b. b \<in> set bs \<Longrightarrow> \<exists>x y. def b = Some x \<and> use b = Some y \<and>
      bit_vars B vars x (D b) \<and> bit_vars B vars y (U b)"
    and sc: "\<And>b. b \<in> set bs \<Longrightarrow> set (sc b) \<subseteq> set bs"
  shows "flow_arrives B sc use def bs j b \<longleftrightarrow> j < length vars \<and> live D U (\<lambda>b. set (sc b)) (set bs) (vars ! j) b"
proof -
  have mem: "j \<in> bits_of B use p \<longleftrightarrow> j < length vars \<and> vars ! j \<in> U p"
    "j \<in> bits_of B def p \<longleftrightarrow> j < length vars \<and> vars ! j \<in> D p" if p: "p \<in> set bs" for p j
    using bv [OF p] by (auto simp: bits_of_Some bit_vars_def)
  show ?thesis
  proof
    show "flow_arrives B sc use def bs j b \<Longrightarrow> j < length vars \<and> live D U (\<lambda>b. set (sc b)) (set bs) (vars ! j) b"
      by (induction rule: arrives.induct) (auto simp: mem intro: live.intros)
    have "live D U (\<lambda>b. set (sc b)) (set bs) v b \<Longrightarrow> v = vars ! j \<Longrightarrow> j < length vars \<Longrightarrow> flow_arrives B sc use def bs j b" for v
    proof (induction rule: live.induct)
      case (live_use b s v)
      then have "s \<in> set bs" using sc by blast
      with live_use show ?case by (intro arrives_gen [of b _ s]) (simp_all add: mem)
    next
      case (live_pass b s v)
      then have "s \<in> set bs" using sc by blast
      with live_pass show ?case by (intro arrives_pass [of b _ s]) (simp_all add: mem)
    qed
    then show "j < length vars \<and> live D U (\<lambda>b. set (sc b)) (set bs) (vars ! j) b \<Longrightarrow> flow_arrives B sc use def bs j b"
      by blast
  qed
qed

lemma LiveVars_sets:
  fixes df us :: "node \<Rightarrow> var list"
  assumes d: "distinct (x_Blocks g)" and sc: "\<And>b. b \<in> set (x_Blocks g) \<Longrightarrow> set (x_Succs g b) \<subseteq> set (x_Blocks g)"
  defines "D \<equiv> \<lambda>b. if b \<in> set (x_Blocks g) then set (df b) else {}"
    and "U \<equiv> \<lambda>b. if b \<in> set (x_Blocks g) then set (block_uses us g b) else {}"
  defines "lv \<equiv> live D U (\<lambda>b. set (x_Succs g b)) (set (x_Blocks g))"
  shows "LiveVars B df us g = Some (Inr
    (map (\<lambda>b. (b, U b \<union> ({v. lv v b} - D b))) (x_Blocks g), map (\<lambda>b. (b, {v. lv v b})) (x_Blocks g)))"
proof -
  define bs where "bs = x_Blocks g"
  define st where "st = fold (\<lambda>block st. fold (add_use B block) (block_uses us g block) (fold (add_def B block) (df block) st))
          (x_Blocks g) (Map.empty, [], \<lambda>_. bs_new B, \<lambda>_. bs_new B)"
  obtain idx vars df0 us0 where st: "st = (idx, vars, df0, us0)" by (metis prod_cases4)
  have "def_use B (Map.empty, [], \<lambda>_. bs_new B, \<lambda>_. bs_new B) (\<lambda>_. {}) (\<lambda>_. {})"
    by (simp add: def_use_def indexed_def bit_vars_def bits_new len_new)
  from def_use_blocks [OF this, of "block_uses us g" df "x_Blocks g", unfolded Un_empty_left] have du: "def_use B st D U"
    unfolding st_def D_def U_def .
  define def where "def = map_of (map (\<lambda>b. (b, df0 b)) bs)"
  define use where "use = map_of (map (\<lambda>b. (b, us0 b)) bs)"
  have dv: "distinct vars" and bv: "bit_vars B vars (df0 b) (D b)" "bit_vars B vars (us0 b) (U b)" for b
    using du by (auto simp: def_use_def st indexed_def)
  have get: "def b = Some (df0 b)" "use b = Some (us0 b)" if "b \<in> set bs" for b
    using that by (simp_all add: def_def use_def map_of_keyed)
  have ok: "flow_ok (\<lambda>b. Inr (x_Succs g b)) (x_Succs g) use def bs (set bs)"
    using d sc get by (auto simp: flow_ok_def bs_def)
  have L: "length_of B use b \<le> length vars" for b
    using bv(2) [of b] by (auto simp: use_def length_of_def map_of_keyed bit_vars_def)
  obtain out inn where r: "flow_loop B (\<lambda>b. Inr (x_Succs g b)) use def bs (primed B bs) (primed B bs) = Some (Inr (out, inn))"
    "dom out = set bs" "dom inn = set bs"
    "\<forall>b. bits_of B out b = (if b \<in> set bs then {j. flow_arrives B (x_Succs g) use def bs j b} else {})"
    "\<forall>b. bits_of B inn b = (if b \<in> set bs then bits_of B use b \<union> (bits_of B out b - bits_of B def b) else {})"
    using flow_loop_correct [OF ok primed_empty primed_empty L] by blast
  have arr: "flow_arrives B (x_Succs g) use def bs j b \<longleftrightarrow> j < length vars \<and> lv (vars ! j) b" for j b
    unfolding lv_def bs_def [symmetric] using dv get bv sc by (intro arrives_live) (auto simp: bs_def)
  have mem: "bits_of B use b = {j. j < length vars \<and> vars ! j \<in> U b}" "bits_of B def b = {j. j < length vars \<and> vars ! j \<in> D b}"
    if b: "b \<in> set bs" for b
    using get [OF b] bv [of b] by (auto simp: bits_of_Some bit_vars_def)
  have inU: "v \<in> set vars" if "lv v b" for v b
  proof -
    have "\<exists>s. v \<in> U s" using that unfolding lv_def by (induction rule: live.induct) auto
    then show ?thesis using bv(2) by (auto simp: bit_vars_def)
  qed
  have im: "(!) vars ` {j. j < length vars \<and> P (vars ! j)} = {v \<in> set vars. P v}" for P
    by (auto simp: in_set_conv_nth)
  have OUT: "(!) vars ` bits_of B out b = {v. lv v b}" "bits_of B out b \<subseteq> {..<length vars}" if b: "b \<in> set bs" for b
    using r(4) [rule_format, of b] b arr im [of "\<lambda>v. lv v b"] inU by auto
  have INs: "bits_of B inn b = {j. j < length vars \<and> (vars ! j \<in> U b \<or> lv (vars ! j) b \<and> vars ! j \<notin> D b)}" if b: "b \<in> set bs" for b
    using r(4) [rule_format, of b] r(5) [rule_format, of b] b arr mem [OF b] by auto
  have IN: "(!) vars ` bits_of B inn b = U b \<union> ({v. lv v b} - D b)" "bits_of B inn b \<subseteq> {..<length vars}" if b: "b \<in> set bs" for b
    using INs [OF b] im [of "\<lambda>v. v \<in> U b \<or> lv v b \<and> v \<notin> D b"] inU bv(2) [of b] by (auto simp: bit_vars_def)
  have one: "rbind (deref inn b) (\<lambda>x. rbind (live_set B vars x) (\<lambda>i. rbind (deref out b) (\<lambda>y. rbind (live_set B vars y) (\<lambda>ou.
      Inr ((b, i), (b, ou)))))) = Inr ((b, U b \<union> ({v. lv v b} - D b)), (b, {v. lv v b}))" if b: "b \<in> set bs" for b
  proof -
    obtain x y where xy: "inn b = Some x" "out b = Some y" using r(2,3) b by blast
    then have "live_set B vars x = Inr (U b \<union> ({v. lv v b} - D b))" "live_set B vars y = Inr {v. lv v b}"
      using IN [OF b] OUT [OF b] live_set_correct by (simp_all add: bits_of_Some)
    with xy show ?thesis by simp
  qed
  have "liveVarsResultSets B g vars inn out = Inr (map (\<lambda>b. (b, U b \<union> ({v. lv v b} - D b))) bs, map (\<lambda>b. (b, {v. lv v b})) bs)"
    unfolding liveVarsResultSets_def bs_def [symmetric] using traverse_pure [OF one, of bs] by (simp add: comp_def)
  moreover have "defUseBitsets B df us g = (vars, def, use)"
    using st by (simp add: defUseBitsets_def st_def def_def use_def bs_def)
  moreover have "liveVarsBitsets B g def use = Some (Inr (inn, out))"
    using r(1) by (simp add: liveVarsBitsets_def bs_def)
  ultimately show ?thesis by (simp add: LiveVars_def bs_def)
qed

end

text \<open>
  C24: Live variables. \<open>LiveVars\<close> terminates without failure on every graph whose successors
  are blocks; the set at the end of a block holds exactly the variables from which a path
  leads to a use with no definition on the way, and the set at its start the variables used
  by the block and those live at its end that it does not define. The deferred calls count
  as uses of the exit.
\<close>

theorem LiveVars_correct:
  fixes df us :: "node \<Rightarrow> var list"
  assumes "bitset_api B" "distinct (x_Blocks g)"
    "\<And>b. b \<in> set (x_Blocks g) \<Longrightarrow> set (x_Succs g b) \<subseteq> set (x_Blocks g)"
  defines "D \<equiv> \<lambda>b. if b \<in> set (x_Blocks g) then set (df b) else {}"
    and "U \<equiv> \<lambda>b. if b \<in> set (x_Blocks g) then set (us b) \<union> (if b = x_Exit g then \<Union>d\<in>set (x_Defers g). set (us d) else {}) else {}"
  shows "\<exists>ins outs. LiveVars B df us g = Some (Inr (ins, outs)) \<and>
    (\<forall>b\<in>set (x_Blocks g).
       map_of outs b = Some {v. live D U (\<lambda>b. set (x_Succs g b)) (set (x_Blocks g)) v b} \<and>
       map_of ins b = Some (U b \<union> ({v. live D U (\<lambda>b. set (x_Succs g b)) (set (x_Blocks g)) v b} - D b)))"
proof -
  have U: "(\<lambda>b. if b \<in> set (x_Blocks g) then set (block_uses us g b) else {}) = U"
    unfolding U_def by (rule ext) (auto simp: block_uses_def)
  have Ub: "set (block_uses us g b) = U b" and Db: "set (df b) = D b" if "b \<in> set (x_Blocks g)" for b
    using that by (auto simp: U_def D_def block_uses_def)
  show ?thesis
    using bitset_api.LiveVars_sets [OF assms(1-3), where df = df and us = us]
    unfolding U D_def [symmetric] by (simp add: map_of_keyed Ub Db)
qed

text \<open>\<open>x := 1; defer f(x); y := x\<close>\<close>

definition line_graph :: ext_cfg where
  "line_graph = \<lparr>x_Blocks = [0, 1, 2, 3], x_Succs = (\<lambda>n. if n = 0 then [2] else if n = 2 then [3] else if n = 3 then [1] else []),
     x_Exit = 1, x_Defers = [4]\<rparr>"

theorem LiveVars_correct_witness:
  "\<exists>ins outs. LiveVars list_bits (\<lambda>n. if n = 2 then [7] else []) (\<lambda>n. if n = 4 then [7] else []) line_graph = Some (Inr (ins, outs)) \<and>
    (\<exists>V. map_of outs 3 = Some V)"
proof -
  have bl: "distinct (x_Blocks line_graph)" "3 \<in> set (x_Blocks line_graph)" by code_simp+
  have sc: "\<And>b. b \<in> set (x_Blocks line_graph) \<Longrightarrow> set (x_Succs line_graph b) \<subseteq> set (x_Blocks line_graph)"
    by (auto simp: line_graph_def split: if_splits)
  show ?thesis
    using LiveVars_correct [OF listb.bitset_api_axioms bl(1) sc, of "\<lambda>n. if n = 2 then [7] else []" "\<lambda>n. if n = 4 then [7] else []"] bl(2)
    by blast
qed

end
