(* ===== verification/Backward_Slice.thy ===== *)
theory Backward_Slice
  imports Control_Deps Data_Deps Slicer
begin

text \<open>
  The backward slice of a function as a whole: \<open>ComputeBackwardSlice\<close> with the analyses it runs,
  against dependences defined on the paths of the graph.
\<close>

text \<open>A statement depends on a branch it is governed by and on a definition that reaches it.\<close>

definition depends :: "(node \<Rightarrow> var list) \<Rightarrow> (node \<Rightarrow> var list) \<Rightarrow> CFG \<Rightarrow> node \<Rightarrow> node \<Rightarrow> bool" where
  "depends df us c n y \<longleftrightarrow> control_dependent c n y \<or> (n, y) \<in> dep_pairs df us (Blocks c)"

text \<open>What slicing keeps of a graph: it may record data dependences already.\<close>

definition slice_graph :: "(node \<Rightarrow> var list) \<Rightarrow> (node \<Rightarrow> var list) \<Rightarrow> CFG \<Rightarrow> bool" where
  "slice_graph df us c \<longleftrightarrow> wf_blocks (Blocks c) \<and> (\<forall>s. \<not> edge (Blocks c) s (Entry c)) \<and> df (Entry c) = [] \<and>
     Entry c \<in> keys (Blocks c) \<and> Exit_node c \<in> keys (Blocks c) \<and>
     (\<forall>v \<in> keys (Blocks c). (edge (Blocks c))\<^sup>*\<^sup>* v (Exit_node c)) \<and>
     (\<forall>s b. map_of (Blocks c) s = Some b \<longrightarrow> set (DataDep b) \<subseteq> {d. (s, d) \<in> dep_pairs df us (Blocks c)})"

definition same_edges :: "CFG \<Rightarrow> CFG \<Rightarrow> bool" where
  "same_edges c c' \<longleftrightarrow> Entry c' = Entry c \<and> Exit_node c' = Exit_node c \<and> keys (Blocks c') = keys (Blocks c) \<and>
     edge (Blocks c') = edge (Blocks c)"

lemma reaches_edges: "edge m' = edge m \<Longrightarrow> reaches df m' d b \<Longrightarrow> reaches df m d b"
  by (rotate_tac, induction rule: reaches.induct) (auto intro: reaches.intros)

lemma dep_pairs_edges: "edge m' = edge m \<Longrightarrow> dep_pairs df us m' = dep_pairs df us m"
  using reaches_edges [of m' m df] reaches_edges [of m m' df] by (auto simp: dep_pairs_def)

lemma adds_deps_wf:
  assumes "adds_deps P m m'" "wf_blocks m"
  shows "wf_blocks m'" "keys m' = keys m" "edge m' = edge m"
proof -
  have mo: "map_of m' s = map_option (\<lambda>b. b\<lparr>DataDep := DataDep (the (map_of m' s)), DataDepee := DataDepee (the (map_of m' s))\<rparr>) (map_of m s)" for s
  proof (cases "map_of m s")
    case None
    then have "s \<notin> keys m'" using adds_deps_keys [OF assms(1)] keys_dom by (metis option.distinct(1))
    with None show ?thesis by (cases "map_of m' s") (auto simp: keys_dom)
  next
    case (Some b)
    then obtain dd de where "map_of m' s = Some (b\<lparr>DataDep := dd, DataDepee := de\<rparr>)"
      using assms(1) unfolding adds_deps_def by blast
    with Some show ?thesis by simp
  qed
  have "map fst m' = map fst m" using assms(1) by (simp add: adds_deps_def)
  with assms(2) have "wf_blocks m' \<and> keys m' = keys m \<and> edge m' = edge m"
    using mo by (rule wf_blocks_cong) simp
  then show "wf_blocks m'" "keys m' = keys m" "edge m' = edge m" by blast+
qed

lemma control_dependent_edges: "same_edges c c' \<Longrightarrow> control_dependent c' = control_dependent c"
  by (intro ext) (simp add: control_dependent_def post_dominates_def same_edges_def)

lemma depends_keys: "wf_blocks (Blocks c) \<Longrightarrow> depends df us c u v \<Longrightarrow> v \<in> keys (Blocks c)"
  using edge_keys reaches_keys by (auto simp: depends_def control_dependent_def dep_pairs_def)

lemma depends_star_keys:
  assumes "wf_blocks (Blocks c)" "u \<in> keys (Blocks c)" "(depends df us c)\<^sup>*\<^sup>* u v"
  shows "v \<in> keys (Blocks c)"
  using assms(3) by (induction rule: rtranclp_induct) (use assms(2) depends_keys [OF assms(1)] in blast)+

text \<open>A statement that is not a block of the graph has no dependences: its slice is the statement alone.\<close>

lemma backward_slice_any:
  assumes B: "bitset_api B" and c: "slice_graph df us c" and ord: "\<And>i. range_order (ord i)"
    and depth: "card (keys (Blocks c)) \<le> depth"
  shows "\<exists>c' ws. ComputeBackwardSlice B ord depth df us start c [] = Some (Inr (c', start # ws)) \<and>
    distinct (start # ws) \<and> set (start # ws) = (if start \<in> keys (Blocks c) then {v. (depends df us c)\<^sup>*\<^sup>* start v} else {start}) \<and>
    slice_graph df us c' \<and> same_edges c c'"
proof -
  let ?P = "dep_pairs df us (Blocks c)" and ?S = "keys (Blocks c)"
  have g: "wf_blocks (Blocks c)" "\<And>s. \<not> edge (Blocks c) s (Entry c)" "df (Entry c) = []"
    "Entry c \<in> ?S" "Exit_node c \<in> ?S" "\<forall>v \<in> ?S. (edge (Blocks c))\<^sup>*\<^sup>* v (Exit_node c)"
    "\<And>s b. map_of (Blocks c) s = Some b \<Longrightarrow> set (DataDep b) \<subseteq> {d. (s, d) \<in> ?P}"
    using c unfolding slice_graph_def by blast+
  obtain m where m: "CreateDataDepGraph B (ord 1) (ord 2) (ord 3) df us c = Some (Inr (c\<lparr>Blocks := m\<rparr>))" "adds_deps ?P (Blocks c) m"
    using CreateDataDepGraph_graph [where df = df and us = us, OF B g(1-3) ord [of 1] ord [of 2] ord [of 3]] by blast
  let ?c1 = "c\<lparr>Blocks := m\<rparr>"
  note w = adds_deps_wf [OF m(2) g(1)]
  have e1: "same_edges c ?c1" using w by (simp add: same_edges_def)
  have data: "set (DataDep (the (map_of m v))) = {d. (v, d) \<in> ?P}" if v: "v \<in> ?S" for v
  proof -
    obtain b where b: "map_of (Blocks c) v = Some b" using v by (auto simp: keys_dom)
    then obtain dd de where "map_of m v = Some (b\<lparr>DataDep := dd, DataDepee := de\<rparr>)" "set dd = set (DataDep b) \<union> {d. (v, d) \<in> ?P}"
      using m(2) unfolding adds_deps_def by blast
    with g(7) [OF b] show ?thesis by auto
  qed
  obtain c2 c3 where r: "BuildPostDomTree (ord 4) (ord 5) depth ?c1 = Some (Inr c2)" "FindControlDeps c2 = Some (Inr c3)"
    "\<forall>n \<in> keys (Blocks ?c1). set (ControlDep (block_at c3 n)) = {y. control_dependent ?c1 n y}"
    "keys (Blocks c3) = keys (Blocks ?c1)" "\<forall>n \<in> keys (Blocks ?c1). DataDep (block_at c3 n) = DataDep (block_at ?c1 n)"
    using control_dependences_total [of ?c1 "ord 4" "ord 5" depth] w g depth ord by auto
  have dep: "dep_edge back_deps (Blocks c3) u v \<longleftrightarrow> depends df us c u v" if u: "u \<in> ?S" for u v
  proof -
    have "u \<in> keys (Blocks c3)" using u r(4) w(2) by simp
    then obtain b where "map_of (Blocks c3) u = Some b" by (auto simp: keys_dom)
    then show ?thesis
      using r(3,5) u w(2) data [OF u] control_dependent_edges [OF e1] by (auto simp: dep_edge_def depends_def back_deps_def)
  qed
  note closed = depends_keys [OF g(1)]
  have "(depends df us c)\<^sup>+\<^sup>+ start v \<longleftrightarrow> (dep_edge back_deps (Blocks c3))\<^sup>+\<^sup>+ start v" if start: "start \<in> ?S" for v
  proof
    show "(dep_edge back_deps (Blocks c3))\<^sup>+\<^sup>+ start v" if "(depends df us c)\<^sup>+\<^sup>+ start v"
      using that
    proof (induction rule: tranclp_induct)
      case (step y z)
      then have "y \<in> ?S" using closed by (metis tranclp.cases)
      with step dep show ?case by (metis tranclp.trancl_into_trancl)
    qed (use dep start in blast)
    have "v \<in> ?S \<and> (depends df us c)\<^sup>+\<^sup>+ start v" if "(dep_edge back_deps (Blocks c3))\<^sup>+\<^sup>+ start v"
      using that
    proof (induction rule: tranclp_induct)
      case (base y)
      with dep start closed show ?case by blast
    next
      case (step y z)
      with dep closed show ?case by (metis tranclp.trancl_into_trancl)
    qed
    then show "(dep_edge back_deps (Blocks c3))\<^sup>+\<^sup>+ start v \<Longrightarrow> (depends df us c)\<^sup>+\<^sup>+ start v" by blast
  qed
  moreover have "\<not> (dep_edge back_deps (Blocks c3))\<^sup>+\<^sup>+ start v" if "start \<notin> ?S" for v
  proof
    assume "(dep_edge back_deps (Blocks c3))\<^sup>+\<^sup>+ start v"
    then obtain w where "dep_edge back_deps (Blocks c3) start w" by (meson tranclpD)
    then have "start \<in> keys (Blocks c3)" by (auto simp: dep_edge_def keys_dom)
    with that r(4) w(2) show False by simp
  qed
  ultimately have star: "{start} \<union> {v. \<exists>u \<in> set [start]. (dep_edge back_deps (Blocks c3))\<^sup>+\<^sup>+ u v} =
      (if start \<in> ?S then {v. (depends df us c)\<^sup>*\<^sup>* start v} else {start})"
    by (auto simp: Nitpick.rtranclp_unfold)
  let ?c' = "InitializeBlocks (ord 4) ?c1"
  have run: "ComputeBackwardSlice B ord depth df us start c [] =
      Some (Inr (?c', slice_loop back_deps (Blocks c3) [start] {start} [start]))"
    using m(1) r(1,2) by (simp add: ComputeBackwardSlice_def)
  obtain ws where ws: "slice_loop back_deps (Blocks c3) [start] {start} [start] = start # ws" "distinct (start # ws)"
    "set (start # ws) = (if start \<in> ?S then {v. (depends df us c)\<^sup>*\<^sup>* start v} else {start})"
    using slice_loop_correct [of back_deps "Blocks c3" start "[]"] star by metis
  have en: "Entry ?c1 \<in> keys (Blocks ?c1)" and wf1: "wf_blocks (Blocks ?c1)" using w g(4) by simp_all
  note i = InitializeBlocks_shape [OF wf1 ord en, of 4]
  have e': "same_edges c ?c'" using i(2-5) e1 by (simp add: same_edges_def)
  have "set (DataDep b) \<subseteq> {d. (s, d) \<in> ?P}" if b: "map_of (Blocks ?c') s = Some b" for s b
  proof -
    obtain b1 where b1: "map_of m s = Some b1" "DataDep b1 = DataDep b" using i(6) [of s] b by (cases "map_of m s") auto
    then have "s \<in> ?S" using w(2) keys_dom by metis
    with data [of s] b1 show ?thesis by simp
  qed
  then have "slice_graph df us ?c'"
    using i(1) g e' dep_pairs_edges [of "Blocks ?c'" "Blocks c" df us] unfolding slice_graph_def same_edges_def by simp
  moreover have "ComputeBackwardSlice B ord depth df us start c [] = Some (Inr (?c', start # ws))" using run ws(1) by simp
  ultimately show ?thesis using ws(2,3) e' by blast
qed

lemma backward_slice_total:
  assumes "bitset_api B" and "slice_graph df us c" and "\<And>i. range_order (ord i)"
    and "card (keys (Blocks c)) \<le> depth" and "start \<in> keys (Blocks c)"
  shows "\<exists>c' ws. ComputeBackwardSlice B ord depth df us start c [] = Some (Inr (c', start # ws)) \<and>
    distinct (start # ws) \<and> set (start # ws) = {v. (depends df us c)\<^sup>*\<^sup>* start v} \<and>
    slice_graph df us c' \<and> same_edges c c'"
  using backward_slice_any [of B df us c ord depth start, OF assms(1-4)] assms(5) by simp

text \<open>
  C22: backward slices. On a well-formed graph from whose statements the exit can be reached,
  whatever the order of the ranges over maps, \<open>ComputeBackwardSlice\<close> with its analyses (reaching
  definitions, post-dominators, control dependences) ends without a panic. The slice begins
  with the given statement, holds no statement twice, and holds exactly the statements it
  depends on, directly or not, by control dependence and by definitions that reach a use, both
  defined on the paths of the graph. The graph it leaves behind has the same paths and can be
  sliced again.
\<close>

theorem ComputeBackwardSlice_correct:
  assumes "bitset_api B" "slice_graph df us c" "\<And>i. range_order (ord i)"
    and "card (keys (Blocks c)) \<le> depth" "start \<in> keys (Blocks c)"
  shows "\<exists>c' ws. ComputeBackwardSlice B ord depth df us start c [] = Some (Inr (c', start # ws)) \<and>
    distinct (start # ws) \<and> set (start # ws) = {v. (depends df us c)\<^sup>*\<^sup>* start v} \<and>
    slice_graph df us c' \<and> same_edges c c'"
  using assms by (rule backward_slice_total)

lemma branch_prog_slice_graph: "df 0 = [] \<Longrightarrow> slice_graph df us branch_prog_cfg"
  unfolding slice_graph_def
proof (intro conjI allI ballI impI)
  show "(edge (Blocks branch_prog_cfg))\<^sup>*\<^sup>* v (Exit_node branch_prog_cfg)" if "v \<in> keys (Blocks branch_prog_cfg)" for v
    using that branch_prog_exit by blast
  fix s b
  assume b: "map_of (Blocks branch_prog_cfg) s = Some b"
  have "list_all (\<lambda>(s, b). DataDep b = []) (Blocks branch_prog_cfg)" by code_simp
  then have "DataDep b = []" using b by (auto simp: list_all_iff dest!: map_of_SomeD)
  then show "set (DataDep b) \<subseteq> {d. (s, d) \<in> dep_pairs df us (Blocks branch_prog_cfg)}" by simp
qed (use branch_prog_blocks in auto)

text \<open>The conditional defines and uses no variables; the slice of its body holds the condition.\<close>

theorem ComputeBackwardSlice_correct_witness:
  "\<exists>c ws. ComputeBackwardSlice list_bits (\<lambda>_. sorted_list_of_set) 5 (\<lambda>_. []) (\<lambda>_. []) 3 branch_prog_cfg [] = Some (Inr (c, 3 # ws)) \<and>
    distinct (3 # ws) \<and> 2 \<in> set (3 # ws)"
proof -
  let ?D = "depends (\<lambda>_. []) (\<lambda>_. []) branch_prog_cfg"
  have "?D 3 2" using branch_control by (simp add: depends_def)
  then have "?D\<^sup>*\<^sup>* 3 2" by blast
  moreover have "card (keys (Blocks branch_prog_cfg)) \<le> 5" unfolding branch_prog_blocks(2) by simp
  moreover have "3 \<in> keys (Blocks branch_prog_cfg)" unfolding branch_prog_blocks(2) by simp
  ultimately show ?thesis
    using ComputeBackwardSlice_correct [OF listb.bitset_api_axioms branch_prog_slice_graph range_order_sorted, of "\<lambda>_. []" 5 3 "\<lambda>_. []"]
    by blast
qed

end
