(* ===== verification/Slice_IP_Props.thy ===== *)
theory Slice_IP_Props
  imports Slice_IP Backward_Slice
begin

text \<open>
  Properties of the interprocedural slicer: given a slicer of one function that returns, the
  search over functions ends, and its result is closed under the calls it has sliced.
\<close>

section \<open>Functions of statements\<close>

text \<open>Slicing changes the graphs of a program and not its declarations.\<close>

definition same_decls :: "packages \<Rightarrow> packages \<Rightarrow> bool" where
  "same_decls a b \<longleftrightarrow> map (map src_Decls) a = map (map src_Decls) b"

lemma map_enumerate: "map (\<lambda>(i, x). (i, f x)) (enumerate n xs) = enumerate n (map f xs)"
  by (induction xs arbitrary: n) auto

definition source_decls :: "packages \<Rightarrow> (int \<times> int \<times> decl list) list" where
  "source_decls packages = map (\<lambda>(i, j, src). (i, j, src_Decls src)) (all_sources packages)"

lemma source_decls_eq:
  "source_decls packages =
     concat (map (\<lambda>(i, dss). map (\<lambda>(j, ds). (int i, int j, ds)) (enumerate 0 dss)) (enumerate 0 (map (map src_Decls) packages)))"
proof -
  have row: "map (\<lambda>(j, ds). (int i, int j, ds)) (enumerate 0 (map src_Decls srcs)) =
      map (\<lambda>x. (int i, int (fst x), src_Decls (snd x))) (enumerate 0 srcs)" for i :: nat and srcs :: "source list"
    by (simp flip: map_enumerate add: comp_def case_prod_beta)
  show ?thesis
    unfolding source_decls_def all_sources_def map_enumerate [of "map src_Decls", symmetric]
    by (simp add: map_concat comp_def case_prod_beta row)
qed

lemma search_sources_decls:
  "map (\<lambda>(i, j, src). (i, j, src_Decls src)) a = map (\<lambda>(i, j, src). (i, j, src_Decls src)) b \<Longrightarrow>
   search_sources p s a = search_sources p s b"
proof (induction a arbitrary: b)
  case (Cons x a)
  then obtain y b' where b: "b = y # b'" by (cases b) auto
  with Cons.prems have "map (\<lambda>(i, j, src). (i, j, src_Decls src)) a = map (\<lambda>(i, j, src). (i, j, src_Decls src)) b'"
    by simp
  then have "search_sources p s a = search_sources p s b'" by (rule Cons.IH)
  with Cons.prems b show ?case by (cases x; cases y) (simp cong: if_cong)
qed simp

lemma searchFunction_decls: "same_decls a b \<Longrightarrow> searchFunction p s a = searchFunction p s b"
  unfolding searchFunction_def
  by (rule search_sources_decls) (simp add: source_decls_eq same_decls_def flip: source_decls_def)

lemma findCallStmnts_decls:
  assumes "same_decls a b"
  shows "findCallStmnts p c a = findCallStmnts p c b"
proof -
  have "findCallStmnts p c a = foldl (\<lambda>ns ds. foldl (call_stmt p c) ns (concat (map inspect_decl ds))) [] (concat (map (map src_Decls) a))" for a
    by (simp add: findCallStmnts_def inspect_file_def foldl_map flip: map_concat)
  with assms show ?thesis by (simp add: same_decls_def)
qed

text \<open>Where a statement is found.\<close>

definition funcs_of :: "decl list \<Rightarrow> func_decl list" where
  "funcs_of ds = List.map_filter (\<lambda>d. case d of FDecl _ _ fd \<Rightarrow> Some fd | GDecl _ _ _ \<Rightarrow> None) ds"

lemma funcs_of_simps [simp]:
  "funcs_of [] = []" "funcs_of (FDecl a z fd # ds) = fd # funcs_of ds" "funcs_of (GDecl a z sp # ds) = funcs_of ds"
  by (simp_all add: funcs_of_def map_filter_simps)

lemma set_funcs_of: "set (funcs_of ds) = {fd. \<exists>a z. FDecl a z fd \<in> set ds}"
  by (induction ds) (auto simp: funcs_of_def map_filter_simps split: decl.splits)

lemma find_decl_some:
  "find_decl pos c ds = Inr (k, Some fd) \<Longrightarrow> 0 \<le> c + 1 \<Longrightarrow>
   c < k \<and> nat (k - c - 1) < length (funcs_of ds) \<and> funcs_of ds ! nat (k - c - 1) = fd"
proof (induction ds arbitrary: c)
  case (Cons d ds)
  show ?case
  proof (cases d)
    case (FDecl a z f)
    show ?thesis
    proof (cases "a < pos \<and> pos < z")
      case True
      with Cons.prems FDecl show ?thesis by (simp add: Let_def)
    next
      case False
      with Cons.prems FDecl have "find_decl pos (c + 1) ds = Inr (k, Some fd)" by (auto simp: Let_def)
      from Cons.IH [OF this] Cons.prems(2)
      have "c + 1 < k" "nat (k - c - 2) < length (funcs_of ds)" "funcs_of ds ! nat (k - c - 2) = fd" by (auto simp: algebra_simps)
      moreover from this(1) have "nat (k - c - 1) = Suc (nat (k - c - 2))" by linarith
      ultimately show ?thesis using FDecl by simp
    qed
  next
    case (GDecl a z sp)
    with Cons.prems have "find_decl pos c ds = Inr (k, Some fd)" by (auto simp: Let_def split: if_splits)
    from Cons.IH [OF this] Cons.prems(2) GDecl show ?thesis by simp
  qed
qed simp

lemma find_decl_none: "find_decl pos c ds = Inr (k, None) \<Longrightarrow> k = - 1"
  by (induction ds arbitrary: c) (auto simp: Let_def split: if_splits decl.splits)

lemma search_sources_some:
  "search_sources p s srcs = Inr (pn, sn, k, Some fd) \<Longrightarrow>
   \<exists>src. (pn, sn, src) \<in> set srcs \<and> 0 \<le> k \<and> nat k < length (funcs_of (src_Decls src)) \<and>
     funcs_of (src_Decls src) ! nat k = fd"
proof (induction srcs)
  case (Cons x srcs)
  obtain i j src where x: "x = (i, j, src)" by (cases x)
  obtain n where n: "stmt_Pos p s = Inr n" using Cons.prems x by (cases "stmt_Pos p s") (auto simp: findFunction_def)
  obtain k' f where f: "find_decl n (- 1) (src_Decls src) = Inr (k', f)"
    using Cons.prems x n by (cases "find_decl n (- 1) (src_Decls src)") (auto simp: findFunction_def)
  show ?case
  proof (cases "k' = - 1")
    case True
    with Cons.prems x n f have "search_sources p s srcs = Inr (pn, sn, k, Some fd)" by (simp add: findFunction_def)
    from Cons.IH [OF this] show ?thesis by auto
  next
    case False
    with Cons.prems x n f have r: "pn = i" "sn = j" "k' = k" "f = Some fd" by (simp_all add: findFunction_def)
    with find_decl_some [of n "- 1" "src_Decls src" k fd] f x show ?thesis by auto
  qed
qed simp

lemma all_sources_nth:
  assumes "(pn, sn, src) \<in> set (all_sources packages)"
  shows "0 \<le> pn" "0 \<le> sn" "nat pn < length packages" "nat sn < length (packages ! nat pn)"
    "src = packages ! nat pn ! nat sn"
proof -
  obtain i sources j where "(i, sources) \<in> set (enumerate 0 packages)" "(j, src) \<in> set (enumerate 0 sources)"
    "pn = int i" "sn = int j"
    using assms unfolding all_sources_def by (auto simp del: enumerate_simps)
  then show "0 \<le> pn" "0 \<le> sn" "nat pn < length packages" "nat sn < length (packages ! nat pn)"
    "src = packages ! nat pn ! nat sn"
    by (simp_all add: in_set_enumerate_eq)
qed

section \<open>The map of functions\<close>

definition has_pos :: "program \<Rightarrow> stmt \<Rightarrow> bool" where
  "has_pos p s \<longleftrightarrow> (\<exists>n. stmt_Pos p s = Inr n)"

definition pos_of :: "program \<Rightarrow> stmt \<Rightarrow> nat" where
  "pos_of p s = (case stmt_Pos p s of Inr n \<Rightarrow> n | Inl _ \<Rightarrow> 0)"

lemma stmt_Pos_eq: "has_pos p s \<Longrightarrow> stmt_Pos p s = Inr (pos_of p s)"
  by (auto simp: has_pos_def pos_of_def)

lemma contains_pos_eq:
  "\<forall>e\<in>set sl. has_pos p e \<Longrightarrow> has_pos p s \<Longrightarrow> contains_pos p sl s = Inr (pos_of p s \<in> pos_of p ` set sl)"
  by (induction sl) (auto simp: stmt_Pos_eq)

text \<open>
  \<open>fs_step f fs fs' W\<close>: from \<open>fs\<close> to \<open>fs'\<close> the slice of \<open>f\<close> gains the statements \<open>W\<close>, no other slice
  changes, and functions that are added have none.
\<close>

definition slice_in :: "fnodes \<Rightarrow> node \<Rightarrow> stmt set" where
  "slice_in fs g = (case gomap_get fs g of None \<Rightarrow> {} | Some x \<Rightarrow> set (fn_Slice x))"

definition calls_in :: "fnodes \<Rightarrow> node \<Rightarrow> node set" where
  "calls_in fs g = (case gomap_get fs g of None \<Rightarrow> {} | Some x \<Rightarrow> fn_Calls x)"

definition fs_dom :: "fnodes \<Rightarrow> node set" where
  "fs_dom fs = {g. gomap_get fs g \<noteq> None}"

definition fs_step :: "node \<Rightarrow> fnodes \<Rightarrow> fnodes \<Rightarrow> stmt set \<Rightarrow> bool" where
  "fs_step f fs fs' W \<longleftrightarrow> fs_dom fs \<subseteq> fs_dom fs' \<and>
     (\<forall>g. slice_in fs' g = slice_in fs g \<union> (if g = f then W else {}) \<and> calls_in fs g \<subseteq> calls_in fs' g)"

lemma fs_step_refl: "fs_step f fs fs {}"
  by (simp add: fs_step_def)

lemma fs_step_trans: "fs_step f a b V \<Longrightarrow> fs_step f b c W \<Longrightarrow> fs_step f a c (V \<union> W)"
  by (auto simp: fs_step_def) (meson subsetD)+

lemma fs_stepD:
  assumes "fs_step f fs fs' W"
  shows "fs_dom fs \<subseteq> fs_dom fs'" "slice_in fs' f = slice_in fs f \<union> W" "g \<noteq> f \<Longrightarrow> slice_in fs' g = slice_in fs g"
    "slice_in fs g \<subseteq> slice_in fs' g" "calls_in fs g \<subseteq> calls_in fs' g"
  using assms by (auto simp: fs_step_def)

lemma add_slice_step: "f \<in> fs_dom fs \<Longrightarrow> fs_step f fs (add_slice f s fs) {s}"
  by (auto simp: fs_step_def fs_dom_def slice_in_def calls_in_def add_slice_def split: option.splits)

lemma add_func_step: "fs_step f fs (add_func g root fs) {}" and add_func_dom: "fd_node g \<in> fs_dom (add_func g root fs)"
  by (auto simp: fs_step_def fs_dom_def slice_in_def calls_in_def add_func_def AList.update_conv' NewFuncNode_def split: option.splits)

lemma map_entry_step:
  assumes "\<And>x. fn_Slice (h x) = fn_Slice x" and "\<And>x. fn_Calls x \<subseteq> fn_Calls (h x)"
  shows "fs_step f fs (AList.map_entry g h fs) {}"
  using assms by (auto simp: fs_step_def fs_dom_def slice_in_def calls_in_def split: option.splits)

lemma fnode_eq: "f \<in> fs_dom fs \<Longrightarrow> \<exists>x. fnode fs f = Inr x \<and> gomap_get fs f = Some x \<and> set (fn_Slice x) = slice_in fs f"
  by (auto simp: fs_dom_def fnode_def slice_in_def)

text \<open>Folding a step that only adds to the map.\<close>

lemma foldR_fs_step:
  assumes "\<And>st c. c \<in> set cs \<Longrightarrow> f \<in> fs_dom (proj st) \<Longrightarrow> Q st \<Longrightarrow>
      \<exists>st'. step st c = Inr st' \<and> fs_step f (proj st) (proj st') (W c) \<and> Q st'"
    and "f \<in> fs_dom (proj st)" and "Q st"
  shows "\<exists>st'. foldR step st cs = Inr st' \<and> fs_step f (proj st) (proj st') (\<Union>c\<in>set cs. W c) \<and> Q st'"
  using assms
proof (induction cs arbitrary: st)
  case Nil
  then show ?case by (simp add: fs_step_refl)
next
  case (Cons c cs)
  obtain st1 where 1: "step st c = Inr st1" "fs_step f (proj st) (proj st1) (W c)" "Q st1"
    using Cons.prems(1) [of c st] Cons.prems(2,3) by auto
  obtain st2 where 2: "foldR step st1 cs = Inr st2" "fs_step f (proj st1) (proj st2) (\<Union>c\<in>set cs. W c)" "Q st2"
    using Cons.IH [of st1] Cons.prems(1) fs_stepD(1) [OF 1(2)] Cons.prems(2) 1(3) by (metis list.set_intros(2) subsetD)
  with 1 fs_step_trans [OF 1(2) 2(2)] show ?case by auto
qed


section \<open>Slicing over functions\<close>

text \<open>The assignments that \<open>GenCallJoin\<close> makes up; a parsed assignment has no token \<open>==\<close>.\<close>

definition is_join :: "stmt \<Rightarrow> bool" where
  "is_join s = (case s of AssignStmt n lhs tok rhs \<Rightarrow> tok = EQL | _ \<Rightarrow> False)"

definition points_of :: "func_decl \<Rightarrow> stmt list" where
  "points_of f = (if fd_Results f = 0 then [] else getExitPoints f)"

text \<open>\<open>GetTaintedPointsBackwards\<close> as \<open>ComputeSliceIP\<close> calls it.\<close>

definition backward_points :: "stmt list \<Rightarrow> stmt \<Rightarrow> func_decl \<Rightarrow> stmt list go" where
  "backward_points sl calledAt f = GetTaintedPointsBackwards f"

lemma backward_points_eq: "backward_points sl calledAt f = Inr (points_of f)"
  by (simp add: backward_points_def GetTaintedPointsBackwards_def points_of_def)

definition found_in :: "program \<Rightarrow> packages \<Rightarrow> stmt \<Rightarrow> func_decl \<Rightarrow> bool" where
  "found_in p packages s d \<longleftrightarrow> (\<exists>pn sn k. searchFunction p s packages = Inr (pn, sn, k, Some d))"

lemma found_in_unique: "found_in p packages s d \<Longrightarrow> found_in p packages s e \<Longrightarrow> e = d"
  by (auto simp: found_in_def)

text \<open>
  The calls the slicer can meet: those of declared functions on the right-hand side of an assignment
  in \<open>U\<close>, and those among the arguments of such calls, which become right-hand sides of the
  assignments made up for the parameters.
\<close>

inductive called_fun :: "program \<Rightarrow> stmt set \<Rightarrow> expr list \<Rightarrow> func_decl \<Rightarrow> bool" for p U where
  of_stmt: "s \<in> U \<Longrightarrow> (args, d, s') \<in> set (findCalledFunctions p [s]) \<Longrightarrow> called_fun p U args d"
| of_arg: "called_fun p U args d \<Longrightarrow> e \<in> set args \<Longrightarrow> resolved_call p e = Some (args', d') \<Longrightarrow> called_fun p U args' d'"

text \<open>
  A program in which every function has a graph that satisfies \<open>J\<close>; the statements that call a
  function by name are in \<open>U\<close> and lie in a function, \<open>s\<close> in \<open>D s\<close>; and a called function has a named
  parameter and contains its return statements.
\<close>

definition graphs_ok :: "(CFG \<Rightarrow> bool) \<Rightarrow> packages \<Rightarrow> bool" where
  "graphs_ok J packages \<longleftrightarrow>
     (\<forall>sources \<in> set packages. \<forall>src \<in> set sources. list_all2 (\<lambda>_. J) (funcs_of (src_Decls src)) (src_Cfgs src))"

definition sliceable :: "program \<Rightarrow> (CFG \<Rightarrow> bool) \<Rightarrow> stmt set \<Rightarrow> (stmt \<Rightarrow> func_decl) \<Rightarrow> packages \<Rightarrow> bool" where
  "sliceable p J U D packages \<longleftrightarrow> graphs_ok J packages \<and>
     (\<forall>f. \<forall>s \<in> set (findCallStmnts p f packages). s \<in> U \<and> found_in p packages s (D s)) \<and>
     (\<forall>args d. called_fun p U args d \<longrightarrow> (\<exists>gs. fd_Params d = Some gs \<and> concat gs \<noteq> []) \<and>
        (\<forall>s \<in> set (points_of d). s \<in> U \<and> D s = d \<and> found_in p packages s d))"

lemma list_all2_update_left: "list_all2 R xs ys \<Longrightarrow> k < length xs \<Longrightarrow> R (xs ! k) y \<Longrightarrow> list_all2 R xs (ys[k := y])"
  by (auto simp: list_all2_conv_all_nth nth_list_update)

lemma graphs_ok_get:
  assumes "graphs_ok J packages" "searchFunction p s packages = Inr (pn, sn, k, Some d)"
  shows "\<exists>c. get_cfg packages pn sn k = Inr c \<and> J c"
    "J c' \<Longrightarrow> graphs_ok J (set_cfg pn sn k c' packages)"
    "same_decls packages (set_cfg pn sn k c' packages)"
    "d \<in> set (funcs_of (concat (map src_Decls (concat packages))))"
proof -
  obtain src where src: "(pn, sn, src) \<in> set (all_sources packages)" "nat k < length (funcs_of (src_Decls src))"
    "funcs_of (src_Decls src) ! nat k = d"
    using search_sources_some assms(2) unfolding searchFunction_def by blast
  note n = all_sources_nth [OF src(1)]
  have mem: "packages ! nat pn \<in> set packages" "src \<in> set (packages ! nat pn)" using n by auto
  then have g: "list_all2 (\<lambda>_. J) (funcs_of (src_Decls src)) (src_Cfgs src)" using assms(1) by (auto simp: graphs_ok_def)
  let ?new = "src\<lparr>src_Cfgs := (src_Cfgs src)[nat k := c']\<rparr>"
  have set_eq: "set_cfg pn sn k c' packages = packages[nat pn := (packages ! nat pn)[nat sn := ?new]]"
    using n by (simp add: set_cfg_def)
  show "\<exists>c. get_cfg packages pn sn k = Inr c \<and> J c"
    using n src(2,3) g list_all2_nthD [OF g src(2)] list_all2_lengthD [OF g] by (simp add: get_cfg_def index_go_def)
  show "graphs_ok J (set_cfg pn sn k c' packages)" if "J c'"
    using assms(1) list_all2_update_left [OF g src(2), of c'] that src(3) mem unfolding set_eq graphs_ok_def
    by (auto dest!: set_update_subset_insert [THEN subsetD])
  show "same_decls packages (set_cfg pn sn k c' packages)"
  proof -
    have "(map src_Decls (packages ! nat pn))[nat sn := src_Decls src] = map src_Decls (packages ! nat pn)"
      using n by (simp add: list_update_same_conv)
    moreover have "(map (map src_Decls) packages)[nat pn := map src_Decls (packages ! nat pn)] = map (map src_Decls) packages"
      using n(3) by (simp add: list_update_same_conv)
    ultimately show ?thesis unfolding same_decls_def set_eq by (simp add: map_update)
  qed
  have "d \<in> set (funcs_of (src_Decls src))" using src(2,3) by auto
  then show "d \<in> set (funcs_of (concat (map src_Decls (concat packages))))" using mem by (fastforce simp: set_funcs_of)
qed

lemma sliceable_decls:
  assumes "sliceable p J U D a" "same_decls a b" "graphs_ok J b"
  shows "sliceable p J U D b"
proof -
  have "found_in p a = found_in p b" using searchFunction_decls [OF assms(2)] by (intro ext) (simp add: found_in_def)
  moreover have "findCallStmnts p f a = findCallStmnts p f b" for f by (rule findCallStmnts_decls [OF assms(2)])
  ultimately show ?thesis using assms(1,3) unfolding sliceable_def by simp
qed

lemma resolved_call_some:
  "resolved_call p e = Some (args, d) \<Longrightarrow> \<exists>n y. e = CallExpr n (Ident y) args \<and> ident_Decl p y = Some d"
  by (auto simp: resolved_call_def split: expr.splits)

lemma set_map_filter: "set (List.map_filter f xs) = {y. \<exists>x \<in> set xs. f x = Some y}"
  by (force simp: map_filter_def)

lemma findCalledFunctions_single:
  "set (findCalledFunctions p sl) = (\<Union>s \<in> set sl. set (findCalledFunctions p [s]))"
  by (auto simp: findCalledFunctions_def)

text \<open>The assignments made up for the parameters of called functions.\<close>

definition joins :: "program \<Rightarrow> stmt set \<Rightarrow> stmt set" where
  "joins p U = {s. is_join s \<and> has_pos p s \<and> (\<forall>(args, d, s') \<in> set (findCalledFunctions p [s]). called_fun p U args d)}"

lemma called_in_slices:
  assumes "set sl \<subseteq> U \<union> joins p U" and "(args, d, s) \<in> set (findCalledFunctions p sl)"
  shows "called_fun p U args d"
proof -
  obtain x where x: "x \<in> set sl" "(args, d, s) \<in> set (findCalledFunctions p [x])"
    using assms(2) findCalledFunctions_single [of p sl] by blast
  consider "x \<in> U" | "x \<in> joins p U" using assms(1) x(1) by blast
  then show ?thesis
  proof cases
    case 1
    then show ?thesis using x(2) by (rule called_fun.of_stmt)
  next
    case 2
    then have "case (args, d, s) of (args, d, s') \<Rightarrow> called_fun p U args d" using x(2) unfolding joins_def by blast
    then show ?thesis by simp
  qed
qed

lemma join_calls:
  assumes "called_fun p U args d"
  shows "\<forall>(args', d', s') \<in> set (findCalledFunctions p [AssignStmt n lhs tok args]). called_fun p U args' d'"
  using called_fun.of_arg [OF assms] by (auto simp: findCalledFunctions_def set_map_filter)

text \<open>
  A result in which every call of a sliced statement is recorded, and the points where the slice
  enters the called function are in the slice of that function.
\<close>

definition closed_slices  :: "program \<Rightarrow> fnodes \<Rightarrow> bool" where
  "closed_slices p fs \<longleftrightarrow> (\<forall>g. \<forall>s \<in> slice_in fs g. \<not> is_join s \<longrightarrow> (\<forall>(args, d, s') \<in> set (findCalledFunctions p [s]).
     fd_node d \<in> calls_in fs g \<and> fd_node d \<in> fs_dom fs \<and>
     (\<forall>pt \<in> set (points_of d). pos_of p pt \<in> pos_of p ` slice_in fs (fd_node d))))"

text \<open>The contract of the slicer of one function that \<open>ComputeSliceIP\<close> is given.\<close>

locale slicer_api =
  fixes p :: program and slicer :: "stmt \<Rightarrow> CFG \<Rightarrow> (CFG \<times> stmt list) go option"
    and J :: "CFG \<Rightarrow> bool" and U :: "stmt set" and D :: "stmt \<Rightarrow> func_decl"
  assumes finite_stmts: "finite U"
    and positions: "s \<in> U \<Longrightarrow> has_pos p s"
    and parsed: "s \<in> U \<Longrightarrow> \<not> is_join s"
    and slices: "s \<in> U \<Longrightarrow> J cf \<Longrightarrow>
      \<exists>cf' ss. slicer s cf = Some (Inr (cf', ss)) \<and> J cf' \<and> s \<in> set ss \<and> set ss \<subseteq> U"
begin

definition slices_ok :: "fnodes \<Rightarrow> bool" where
  "slices_ok fs \<longleftrightarrow> (\<forall>g. slice_in fs g \<subseteq> U \<union> joins p U)"

lemma slices_pos: "slices_ok fs \<Longrightarrow> s \<in> slice_in fs g \<Longrightarrow> has_pos p s"
  using positions by (auto simp: slices_ok_def joins_def)

lemma slices_ok_step: "slices_ok fs \<Longrightarrow> fs_step f fs fs' W \<Longrightarrow> W \<subseteq> U \<union> joins p U \<Longrightarrow> slices_ok fs'"
  unfolding slices_ok_def fs_step_def by (auto split: if_splits)

text \<open>Adding a slice: the positions of the function are then those it had and those of the slice.\<close>

definition gains :: "node \<Rightarrow> fnodes \<Rightarrow> bool \<Rightarrow> stmt set \<Rightarrow> fnodes \<Rightarrow> bool \<Rightarrow> bool" where
  "gains f fs b X fs' app \<longleftrightarrow> (\<exists>W \<subseteq> X. fs_step f fs fs' W) \<and>
     pos_of p ` slice_in fs' f = pos_of p ` slice_in fs f \<union> pos_of p ` X \<and>
     (app \<longleftrightarrow> b \<or> \<not> pos_of p ` X \<subseteq> pos_of p ` slice_in fs f) \<and>
     (pos_of p ` X \<subseteq> pos_of p ` slice_in fs f \<longrightarrow> fs' = fs)"

lemma gains_none: "gains f fs b {} fs b"
  using fs_step_refl [of f fs] by (auto simp: gains_def)

lemma gains_old:
  assumes "pos_of p s \<in> pos_of p ` slice_in fs f" "gains f fs b X fs' app"
  shows "gains f fs b (insert s X) fs' app"
  using assms by (simp add: gains_def insert_absorb subset_insertI2) blast

lemma gains_new:
  assumes "pos_of p s \<notin> pos_of p ` slice_in fs f" "f \<in> fs_dom fs" "gains f (add_slice f s fs) True X fs' app"
  shows "gains f fs b (insert s X) fs' app"
proof -
  note step = add_slice_step [OF assms(2), of s]
  obtain W where W: "W \<subseteq> X" "fs_step f (add_slice f s fs) fs' W" using assms(3) by (auto simp: gains_def)
  have "\<exists>W \<subseteq> insert s X. fs_step f fs fs' W"
    using fs_step_trans [OF step W(2)] W(1) by (intro exI [of _ "{s} \<union> W"]) auto
  moreover have "pos_of p ` slice_in (add_slice f s fs) f = insert (pos_of p s) (pos_of p ` slice_in fs f)"
    using fs_stepD(2) [OF step] by simp
  ultimately show ?thesis using assms(1,3) by (simp add: gains_def)
qed

lemma append_new_fold:
  assumes "f \<in> fs_dom fs" "slices_ok fs" "set ss \<subseteq> U"
  shows "\<exists>fs' app. foldR (append_new p f) (fs, b) ss = Inr (fs', app) \<and> gains f fs b (set ss) fs' app"
  using assms
proof (induction ss arbitrary: fs b)
  case Nil
  then show ?case by (simp add: gains_none)
next
  case (Cons s ss)
  have ss: "set ss \<subseteq> U" using Cons.prems(3) by simp
  obtain x where x: "fnode fs f = Inr x" "set (fn_Slice x) = slice_in fs f" using fnode_eq [OF Cons.prems(1)] by blast
  have "contains_pos p (fn_Slice x) s = Inr (pos_of p s \<in> pos_of p ` slice_in fs f)"
    using contains_pos_eq [of "fn_Slice x" p s] slices_pos [OF Cons.prems(2)] positions Cons.prems(3) x(2) by auto
  then have one: "append_new p f (fs, b) s =
      Inr (if pos_of p s \<in> pos_of p ` slice_in fs f then (fs, b) else (add_slice f s fs, True))"
    using x(1) by (simp add: append_new_def)
  show ?case
  proof (cases "pos_of p s \<in> pos_of p ` slice_in fs f")
    case True
    from Cons.IH [OF Cons.prems(1,2) ss, of b] one gains_old [OF True] show ?thesis unfolding foldR.simps list.set
      by (simp only: True if_True) auto
  next
    case False
    note step = add_slice_step [OF Cons.prems(1), of s]
    have dom: "f \<in> fs_dom (add_slice f s fs)" and ok: "slices_ok (add_slice f s fs)"
      using fs_stepD(1) [OF step] Cons.prems slices_ok_step [OF Cons.prems(2) step] by auto
    from Cons.IH [OF dom ok ss, of True] one gains_new [OF False Cons.prems(1)] show ?thesis unfolding foldR.simps list.set
      by (simp only: False if_False) auto
  qed
qed

lemma join_fold:
  assumes "sliceable p J U D packages" and "f \<in> fs_dom fs" and "\<forall>c \<in> set calls. called_fun p U (fst c) (fst (snd c))"
  shows "\<exists>fs' W. foldR (join_call p f) fs calls = Inr fs' \<and> fs_step f fs fs' W \<and> W \<subseteq> joins p U"
proof -
  define jn where "jn c = AssignStmt 0 (map Ident (concat (the (fd_Params (fst (snd c)))))) EQL (fst c)"
    for c :: "expr list \<times> func_decl \<times> stmt"
  have jn: "join_call p f fs c = Inr (add_slice f (jn c) fs) \<and> jn c \<in> joins p U" if c: "c \<in> set calls" for c fs
  proof -
    have called: "called_fun p U (fst c) (fst (snd c))" using c assms(3) by blast
    then obtain gs x xs where "fd_Params (fst (snd c)) = Some gs" "concat gs = x # xs"
      using assms(1) unfolding sliceable_def by (metis neq_Nil_conv)
    then show ?thesis using join_calls [OF called]
      by (simp add: join_call_def GenCallJoin_def joins_def jn_def is_join_def has_pos_def index_go_def)
  qed
  have "\<exists>fs'. foldR (join_call p f) fs calls = Inr fs' \<and> fs_step f fs fs' (\<Union>c\<in>set calls. {jn c}) \<and> True"
    by (rule foldR_fs_step [where proj = "\<lambda>x. x"]) (use jn add_slice_step assms(2) in auto)
  with jn show ?thesis by blast
qed

lemma tunnel_fold:
  assumes "f \<in> fs_dom fs"
  shows "\<exists>fs'. foldR (tunnel backward_points root f) (fs, tasks) calls =
      Inr (fs', tasks @ concat (map (\<lambda>(_, d, _). map (\<lambda>pt. (pt, Some d)) (points_of d)) calls)) \<and>
    fs_step f fs fs' {} \<and> (\<forall>c \<in> set calls. fd_node (fst (snd c)) \<in> calls_in fs' f \<inter> fs_dom fs')"
  using assms
proof (induction calls arbitrary: fs tasks)
  case Nil
  then show ?case by (simp add: fs_step_refl)
next
  case (Cons c calls)
  obtain args d s where c: "c = (args, d, s)" by (cases c)
  let ?h = "\<lambda>x. x\<lparr>fn_Calls := insert (fd_node d) (fn_Calls x)\<rparr>"
  define fs1 where "fs1 = AList.map_entry f ?h (add_func d root fs)"
  have s1: "fs_step f fs fs1 {}"
    using fs_step_trans [OF add_func_step map_entry_step [of ?h f _ f], of fs d root] by (auto simp: fs1_def)
  have f1: "f \<in> fs_dom fs1" "fd_node d \<in> fs_dom fs1" "fd_node d \<in> calls_in fs1 f"
  proof -
    show a: "f \<in> fs_dom fs1" using fs_stepD(1) [OF s1] Cons.prems by auto
    show "fd_node d \<in> fs_dom fs1" using add_func_dom [of d root fs] by (auto simp: fs1_def fs_dom_def)
    show "fd_node d \<in> calls_in fs1 f" using a by (auto simp: fs1_def fs_dom_def calls_in_def)
  qed
  have one: "tunnel backward_points root f (fs, tasks) c = Inr (fs1, tasks @ map (\<lambda>pt. (pt, Some d)) (points_of d))"
    using fnode_eq [OF f1(1)] by (auto simp: tunnel_def c fs1_def backward_points_eq Let_def)
  obtain fs' where r: "foldR (tunnel backward_points root f) (fs1, tasks @ map (\<lambda>pt. (pt, Some d)) (points_of d)) calls =
      Inr (fs', (tasks @ map (\<lambda>pt. (pt, Some d)) (points_of d)) @ concat (map (\<lambda>(_, d, _). map (\<lambda>pt. (pt, Some d)) (points_of d)) calls))"
    "fs_step f fs1 fs' {}" "\<forall>c \<in> set calls. fd_node (fst (snd c)) \<in> calls_in fs' f \<inter> fs_dom fs'"
    using Cons.IH [OF f1(1)] by blast
  from r(2) f1 have "fd_node d \<in> calls_in fs' f \<inter> fs_dom fs'" using fs_stepD(1,5) [OF r(2)] by auto
  with r one fs_step_trans [OF s1 r(2)] c show ?case by auto
qed

text \<open>The statements of tasks lie in functions that the map holds.\<close>

definition located :: "packages \<Rightarrow> fnodes \<Rightarrow> stmt set \<Rightarrow> bool" where
  "located packages fs X \<longleftrightarrow> (\<forall>s \<in> X. s \<in> U \<and> found_in p packages s (D s) \<and> fd_node (D s) \<in> fs_dom fs)"

lemma located_step: "located packages fs X \<Longrightarrow> fs_step f fs fs' W \<Longrightarrow> located packages fs' X"
  unfolding located_def using fs_stepD(1) by blast

lemma taint_fold:
  assumes "f \<in> fs_dom fs" "\<forall>s \<in> set ss. s \<in> U \<and> found_in p packages s (D s)"
  shows "\<exists>fs' ts. foldR (taint_caller p packages root f) (fs, tasks) ss = Inr (fs', tasks @ ts) \<and>
    fs_step f fs fs' {} \<and> located packages fs' (fst ` set ts)"
  using assms
proof (induction ss arbitrary: fs tasks)
  case Nil
  then show ?case by (simp add: fs_step_refl located_def)
next
  case (Cons s ss)
  let ?d = "D s"
  obtain pn sn k where found: "searchFunction p s packages = Inr (pn, sn, k, Some ?d)"
    using Cons.prems(2) by (auto simp: found_in_def)
  define h :: "bool \<Rightarrow> FuncNode \<Rightarrow> FuncNode" where "h t = fn_Tainted_update (\<lambda>_. t)" for t
  have add: "f \<in> fs_dom (add_func ?d root fs)" using add_func_step [of f fs ?d root] fs_stepD(1) Cons.prems(1) by blast
  obtain x where x: "fnode (add_func ?d root fs) f = Inr x" using fnode_eq [OF add] by blast
  define fs1 where "fs1 = AList.map_entry (fd_node ?d) (h (fn_Tainted x)) (add_func ?d root fs)"
  have s1: "fs_step f fs fs1 {}"
    using fs_step_trans [OF add_func_step map_entry_step [of "h (fn_Tainted x)" f _ "fd_node ?d"], of fs ?d root]
    by (auto simp: fs1_def h_def)
  have d1: "fd_node ?d \<in> fs_dom fs1" using add_func_dom [of ?d root fs] by (auto simp: fs1_def fs_dom_def)
  have one: "taint_caller p packages root f (fs, tasks) s = Inr (fs1, tasks @ [(s, Some ?d)])"
    using found x by (simp add: taint_caller_def fs1_def h_def Let_def)
  have f1: "f \<in> fs_dom fs1" using fs_stepD(1) [OF s1] Cons.prems(1) by blast
  have rest: "\<forall>s \<in> set ss. s \<in> U \<and> found_in p packages s (D s)" using Cons.prems(2) by simp
  obtain fs' ts where r: "foldR (taint_caller p packages root f) (fs1, tasks @ [(s, Some ?d)]) ss = Inr (fs', (tasks @ [(s, Some ?d)]) @ ts)"
    "fs_step f fs1 fs' {}" "located packages fs' (fst ` set ts)"
    using Cons.IH [OF f1 rest, of "tasks @ [(s, Some ?d)]"] by blast
  have "located packages fs' (fst ` set ((s, Some ?d) # ts))"
    using r(3) fs_stepD(1) [OF r(2)] d1 Cons.prems(2) by (auto simp: located_def)
  moreover have "fs_step f fs fs' {}" using fs_step_trans [OF s1 r(2)] by simp
  ultimately show ?case using one r(1) by (intro exI [of _ fs'] exI [of _ "(s, Some ?d) # ts"]) simp
qed

text \<open>The calls of the sliced statements of \<open>g\<close> are recorded, and the points of the callees satisfy \<open>P\<close>.\<close>

definition tunnelled :: "fnodes \<Rightarrow> (stmt \<Rightarrow> bool) \<Rightarrow> node \<Rightarrow> bool" where
  "tunnelled fs P g \<longleftrightarrow> (\<forall>s \<in> slice_in fs g. \<not> is_join s \<longrightarrow> (\<forall>(args, d, s') \<in> set (findCalledFunctions p [s]).
     fd_node d \<in> calls_in fs g \<inter> fs_dom fs \<and> (\<forall>pt \<in> set (points_of d). P pt)))"

lemma absorb:
  assumes "sliceable p J U D packages" "fd_node fd \<in> fs_dom fs" "slices_ok fs" "set ss \<subseteq> U"
  shows "\<exists>fs' ts. ip_absorb backward_points p packages root fd ss fs = Inr (fs', ts) \<and>
    (\<exists>W \<subseteq> U \<union> joins p U. fs_step (fd_node fd) fs fs' W) \<and>
    pos_of p ` set ss \<subseteq> pos_of p ` slice_in fs' (fd_node fd) \<and> located packages fs' (fst ` set ts) \<and>
    (if pos_of p ` set ss \<subseteq> pos_of p ` slice_in fs (fd_node fd) then fs' = fs \<and> ts = []
     else tunnelled fs' (\<lambda>pt. pt \<in> fst ` set ts) (fd_node fd))"
proof -
  let ?f = "fd_node fd"
  obtain fs1 app where 1: "foldR (append_new p ?f) (fs, False) ss = Inr (fs1, app)" "gains ?f fs False (set ss) fs1 app"
    using append_new_fold [OF assms(2-4)] by blast
  obtain W1 where W1: "W1 \<subseteq> set ss" "fs_step ?f fs fs1 W1" using 1(2) by (auto simp: gains_def)
  have pos: "pos_of p ` set ss \<subseteq> pos_of p ` slice_in fs1 ?f" using 1(2) by (auto simp: gains_def)
  show ?thesis
  proof (cases "pos_of p ` set ss \<subseteq> pos_of p ` slice_in fs ?f")
    case True
    then have "\<not> app" "fs1 = fs" using 1(2) by (auto simp: gains_def)
    then have "ip_absorb backward_points p packages root fd ss fs = Inr (fs, [])" using 1(1) by (simp add: ip_absorb_def)
    with True fs_step_refl [of ?f fs] show ?thesis by (intro exI [of _ fs] exI [of _ "[]"]) (auto simp: located_def)
  next
    case False
    then have app using 1(2) by (auto simp: gains_def)
    have f1: "?f \<in> fs_dom fs1" using fs_stepD(1) [OF W1(2)] assms(2) by blast
    obtain x where x: "fnode fs1 ?f = Inr x" "set (fn_Slice x) = slice_in fs1 ?f" using fnode_eq [OF f1] by blast
    let ?calls = "findCalledFunctions p (fn_Slice x)"
    have "slices_ok fs1" using slices_ok_step [OF assms(3) W1(2)] W1(1) assms(4) by blast
    then have "set (fn_Slice x) \<subseteq> U \<union> joins p U" using x(2) by (simp add: slices_ok_def)
    then have called: "called_fun p U args d" if "(args, d, s) \<in> set ?calls" for args d s using called_in_slices that by blast
    obtain fs2 W2 where 2: "foldR (join_call p ?f) fs1 ?calls = Inr fs2" "fs_step ?f fs1 fs2 W2" "W2 \<subseteq> joins p U"
      using join_fold [OF assms(1) f1, of ?calls] called by (metis prod.collapse)
    have f2: "?f \<in> fs_dom fs2" using fs_stepD(1) [OF 2(2)] f1 by blast
    define ts3 where "ts3 = concat (map (\<lambda>(_, d, _). map (\<lambda>pt. (pt, Some d)) (points_of d)) ?calls)"
    obtain fs3 where 3: "foldR (tunnel backward_points root ?f) (fs2, []) ?calls = Inr (fs3, ts3)" "fs_step ?f fs2 fs3 {}"
      "\<forall>c \<in> set ?calls. fd_node (fst (snd c)) \<in> calls_in fs3 ?f \<inter> fs_dom fs3"
      using tunnel_fold [OF f2, of root "[]" ?calls] by (auto simp: ts3_def)
    have f3: "?f \<in> fs_dom fs3" using fs_stepD(1) [OF 3(2)] f2 by blast
    obtain x3 where x3: "fnode fs3 ?f = Inr x3" using fnode_eq [OF f3] by blast
    have callers: "\<forall>s \<in> set (findCallStmnts p (fd_Obj fd) packages). s \<in> U \<and> found_in p packages s (D s)"
      using assms(1) unfolding sliceable_def by blast
    obtain fs4 ts4 where 4: "(if fn_Tainted x3 then foldR (taint_caller p packages root ?f) (fs3, ts3) (findCallStmnts p (fd_Obj fd) packages)
        else Inr (fs3, ts3)) = Inr (fs4, ts3 @ ts4)" "fs_step ?f fs3 fs4 {}" "located packages fs4 (fst ` set ts4)"
    proof (cases "fn_Tainted x3")
      case True
      with taint_fold [OF f3 callers, of root ts3] that show thesis by auto
    next
      case False
      with that [of fs3 "[]"] fs_step_refl [of ?f fs3] show thesis by (simp add: located_def)
    qed
    have run: "ip_absorb backward_points p packages root fd ss fs = Inr (fs4, ts3 @ ts4)"
      using 1(1) \<open>app\<close> x(1) 2(1) 3(1) x3 4(1) by (simp add: ip_absorb_def)
    have to4: "fs_step ?f fs1 fs4 W2" using fs_step_trans [OF fs_step_trans [OF 2(2) 3(2)] 4(2)] by simp
    have "fs_step ?f fs fs4 (W1 \<union> W2)" by (rule fs_step_trans [OF W1(2) to4])
    moreover have "W1 \<union> W2 \<subseteq> U \<union> joins p U" using W1(1) 2(3) assms(4) by blast
    moreover have "located packages fs3 (fst ` set ts3)"
      unfolding located_def
    proof
      fix pt
      assume "pt \<in> fst ` set ts3"
      then obtain args d s where c: "(args, d, s) \<in> set ?calls" "pt \<in> set (points_of d)" by (auto simp: ts3_def)
      have "pt \<in> U" "D pt = d" "found_in p packages pt d" using assms(1) called [OF c(1)] c(2) unfolding sliceable_def by blast+
      with 3(3) c(1) show "pt \<in> U \<and> found_in p packages pt (D pt) \<and> fd_node (D pt) \<in> fs_dom fs3" by force
    qed
    then have "located packages fs4 (fst ` set ts3)" by (rule located_step [OF _ 4(2)])
    with 4(3) have "located packages fs4 (fst ` set (ts3 @ ts4))" by (simp add: located_def image_Un ball_Un)
    moreover have "tunnelled fs4 (\<lambda>pt. pt \<in> fst ` set (ts3 @ ts4)) ?f"
      unfolding tunnelled_def
    proof (intro ballI impI, clarify)
      fix s args d s'
      assume s: "s \<in> slice_in fs4 ?f" "\<not> is_join s" and c: "(args, d, s') \<in> set (findCalledFunctions p [s])"
      then have "s \<in> set (fn_Slice x)" using fs_stepD(2) [OF to4] 2(3) x(2) by (auto simp: joins_def)
      then have c': "(args, d, s') \<in> set ?calls" using c findCalledFunctions_single [of p "fn_Slice x"] by blast
      then have "fd_node d \<in> calls_in fs3 ?f \<inter> fs_dom fs3" using 3(3) by force
      then have "fd_node d \<in> calls_in fs4 ?f \<inter> fs_dom fs4" using fs_stepD(1,5) [OF 4(2)] by blast
      moreover have "pt \<in> fst ` set (ts3 @ ts4)" if "pt \<in> set (points_of d)" for pt
        using c' that by (force simp: ts3_def)
      ultimately show "fd_node d \<in> calls_in fs4 ?f \<inter> fs_dom fs4 \<and> (\<forall>pt \<in> set (points_of d). pt \<in> fst ` set (ts3 @ ts4))" by blast
    qed
    moreover have "pos_of p ` set ss \<subseteq> pos_of p ` slice_in fs4 ?f" using pos fs_stepD(4) [OF to4, of ?f] by blast
    ultimately show ?thesis using run False by (intro exI [of _ fs4] exI [of _ "ts3 @ ts4"]) auto
  qed
qed

text \<open>The invariant of the search, and the pairs of function and position it can still add.\<close>

definition covered :: "fnodes \<Rightarrow> stmt set \<Rightarrow> stmt \<Rightarrow> bool" where
  "covered fs Q s \<longleftrightarrow> s \<in> Q \<or> pos_of p s \<in> pos_of p ` slice_in fs (fd_node (D s))"

definition ip_inv :: "packages \<Rightarrow> stmt \<Rightarrow> ip_state \<Rightarrow> bool" where
  "ip_inv packages0 root st = (case st of (queue, fs, packages) \<Rightarrow>
     same_decls packages0 packages \<and> sliceable p J U D packages \<and> slices_ok fs \<and>
     located packages fs (fst ` set queue) \<and> covered fs (fst ` set queue) root \<and>
     (\<forall>g. tunnelled fs (covered fs (fst ` set queue)) g))"

definition missing :: "packages \<Rightarrow> fnodes \<Rightarrow> (node \<times> nat) set" where
  "missing packages0 fs = fd_node ` set (funcs_of (concat (map src_Decls (concat packages0)))) \<times> pos_of p ` U -
     {(g, q). q \<in> pos_of p ` slice_in fs g}"

definition ip_less :: "packages \<Rightarrow> (ip_state \<times> ip_state) set" where
  "ip_less packages0 = measures [\<lambda>st. card (missing packages0 (fst (snd st))), \<lambda>st. length (fst st)]"

lemma same_decls_trans: "same_decls a b \<Longrightarrow> same_decls b c \<Longrightarrow> same_decls a c"
  by (simp add: same_decls_def)

lemma found_in_decls: "same_decls a b \<Longrightarrow> found_in p b = found_in p a"
  using searchFunction_decls [of a b p] by (intro ext) (simp add: found_in_def)

lemma missing_finite: "finite (missing packages0 fs)"
  unfolding missing_def using finite_stmts by blast

lemma missing_less:
  assumes "fs_step f fs fs' W" "f \<in> fd_node ` set (funcs_of (concat (map src_Decls (concat packages0))))"
    and "q \<in> pos_of p ` U" "q \<notin> pos_of p ` slice_in fs f" "q \<in> pos_of p ` slice_in fs' f"
  shows "card (missing packages0 fs') < card (missing packages0 fs)"
proof (rule psubset_card_mono [OF missing_finite])
  have "pos_of p ` slice_in fs g \<subseteq> pos_of p ` slice_in fs' g" for g using fs_stepD(4) [OF assms(1)] by (rule image_mono)
  then have "missing packages0 fs' \<subseteq> missing packages0 fs" unfolding missing_def by blast
  moreover have "(f, q) \<in> missing packages0 fs" "(f, q) \<notin> missing packages0 fs'"
    using assms(2-5) unfolding missing_def by blast+
  ultimately show "missing packages0 fs' \<subset> missing packages0 fs" by blast
qed

lemma ip_step:
  assumes "ip_inv packages0 root (t # queue, fs, packages)"
  shows "\<exists>st'. ip_task_step slicer backward_points p (fst t) (queue, fs, packages) = Some (Inr st') \<and>
    ip_inv packages0 root st' \<and> (st', (t # queue, fs, packages)) \<in> ip_less packages0"
proof -
  let ?s = "fst t" and ?f = "fd_node (D (fst t))"
  have inv: "same_decls packages0 packages" "sliceable p J U D packages" "slices_ok fs"
    "located packages fs (insert ?s (fst ` set queue))" "covered fs (insert ?s (fst ` set queue)) root"
    "\<And>g. tunnelled fs (covered fs (insert ?s (fst ` set queue))) g"
    using assms by (auto simp: ip_inv_def)
  have t: "?s \<in> U" "found_in p packages ?s (D ?s)" "?f \<in> fs_dom fs" using inv(4) by (auto simp: located_def)
  obtain pn sn k where found: "searchFunction p ?s packages = Inr (pn, sn, k, Some (D ?s))" using t(2) by (auto simp: found_in_def)
  have gr: "graphs_ok J packages" using inv(2) by (simp add: sliceable_def)
  note get = graphs_ok_get [OF gr found]
  obtain cf where cf: "get_cfg packages pn sn k = Inr cf" "J cf" using get(1) by blast
  obtain cf' ss where sl: "slicer ?s cf = Some (Inr (cf', ss))" "J cf'" "?s \<in> set ss" "set ss \<subseteq> U"
    using slices [OF t(1) cf(2)] by blast
  let ?pk = "set_cfg pn sn k cf' packages"
  have pk: "same_decls packages ?pk" "sliceable p J U D ?pk" using get(3) sliceable_decls [OF inv(2) get(3) get(2) [OF sl(2)]] by auto
  obtain fs' ts W where ab: "ip_absorb backward_points p ?pk ?s (D ?s) ss fs = Inr (fs', ts)"
    "fs_step ?f fs fs' W" "W \<subseteq> U \<union> joins p U"
    "pos_of p ` set ss \<subseteq> pos_of p ` slice_in fs' ?f" "located ?pk fs' (fst ` set ts)"
    "if pos_of p ` set ss \<subseteq> pos_of p ` slice_in fs ?f then fs' = fs \<and> ts = [] else tunnelled fs' (\<lambda>pt. pt \<in> fst ` set ts) ?f"
    using absorb [OF pk(2) t(3) inv(3) sl(4), of ?s] by blast
  have run: "ip_task_step slicer backward_points p ?s (queue, fs, packages) = Some (Inr (queue @ ts, fs', ?pk))"
    using found cf(1) sl(1) ab(1) by (simp add: ip_task_step_def Let_def)
  let ?Q = "fst ` set (queue @ ts)"
  have cov: "covered fs' ?Q x" if "covered fs (insert ?s (fst ` set queue)) x" for x
    using that ab(4) sl(3) fs_stepD(4) [OF ab(2), of "fd_node (D x)"] by (auto simp: covered_def)
  have "tunnelled fs' (covered fs' ?Q) g" for g
  proof (cases "g = ?f \<and> \<not> pos_of p ` set ss \<subseteq> pos_of p ` slice_in fs ?f")
    case True
    then have "tunnelled fs' (\<lambda>pt. pt \<in> fst ` set ts) g" using ab(6) by simp
    then show ?thesis unfolding tunnelled_def covered_def by fastforce
  next
    case False
    then have eq: "slice_in fs' g = slice_in fs g" using ab(6) fs_stepD(3) [OF ab(2), of g] by auto
    show ?thesis
      using inv(6) [of g] cov fs_stepD(1,5) [OF ab(2)] unfolding tunnelled_def eq by blast
  qed
  moreover have "located ?pk fs' ?Q"
    using inv(4) ab(5) fs_stepD(1) [OF ab(2)] found_in_decls [OF pk(1)] by (auto simp: located_def)
  ultimately have "ip_inv packages0 root (queue @ ts, fs', ?pk)"
    using same_decls_trans [OF inv(1) pk(1)] pk(2) slices_ok_step [OF inv(3) ab(2,3)] cov [OF inv(5)]
    unfolding ip_inv_def prod.case by blast
  moreover have "((queue @ ts, fs', ?pk), (t # queue, fs, packages)) \<in> ip_less packages0"
  proof (cases "pos_of p ` set ss \<subseteq> pos_of p ` slice_in fs ?f")
    case True
    with ab(6) show ?thesis by (simp add: ip_less_def)
  next
    case False
    then obtain q where q: "q \<in> pos_of p ` set ss" "q \<notin> pos_of p ` slice_in fs ?f" by blast
    have "map src_Decls (concat packages0) = map src_Decls (concat packages)" using inv(1) by (simp add: same_decls_def map_concat)
    then have "?f \<in> fd_node ` set (funcs_of (concat (map src_Decls (concat packages0))))" using get(4) by simp
    from missing_less [OF ab(2) this _ q(2)] q(1) ab(4) sl(4) have "card (missing packages0 fs') < card (missing packages0 fs)" by blast
    then show ?thesis by (simp add: ip_less_def)
  qed
  ultimately show ?thesis using run by blast
qed

lemma ip_loop_ends:
  assumes "ip_inv packages0 root st"
  shows "\<exists>fs packages. ip_loop slicer backward_points p st = Some (Inr (fs, packages)) \<and> ip_inv packages0 root ([], fs, packages)"
proof -
  have "wf (ip_less packages0)" by (simp add: ip_less_def)
  then show ?thesis
    using assms
  proof (induction st rule: wf_induct_rule)
    case (less st)
    obtain queue fs packages where st: "st = (queue, fs, packages)" by (cases st)
    show ?case
    proof (cases queue)
      case Nil
      with less.prems st show ?thesis by (simp add: ip_loop.simps)
    next
      case (Cons t queue')
      then have inv: "ip_inv packages0 root (t # queue', fs, packages)" using less.prems st by simp
      obtain st' where st': "ip_task_step slicer backward_points p (fst t) (queue', fs, packages) = Some (Inr st')"
        "ip_inv packages0 root st'" "(st', st) \<in> ip_less packages0"
        using ip_step [OF inv] unfolding st Cons by blast
      have "ip_loop slicer backward_points p st = ip_loop slicer backward_points p st'"
        using st'(1) st Cons by (subst ip_loop.simps) simp
      with less.IH [OF st'(3,2)] show ?thesis by simp
    qed
  qed
qed

lemma ComputeSliceIP_ends:
  assumes "sliceable p J U D packages" "root \<in> U" "found_in p packages root (D root)"
  shows "\<exists>fs packages'. ComputeSliceIP root p packages slicer backward_points = Some (Inr (fs, packages')) \<and>
    same_decls packages packages' \<and> pos_of p root \<in> pos_of p ` slice_in fs (fd_node (D root)) \<and>
    (\<forall>g. slice_in fs g \<subseteq> U \<union> {s. is_join s}) \<and> closed_slices p fs"
proof -
  let ?f = "fd_node (D root)"
  let ?fs = "[(?f, NewFuncNode (D root) root True)]"
  obtain pn sn k where found: "searchFunction p root packages = Inr (pn, sn, k, Some (D root))" using assms(3) by (auto simp: found_in_def)
  have "slice_in ?fs g = {}" "?f \<in> fs_dom ?fs" for g by (auto simp: slice_in_def fs_dom_def NewFuncNode_def)
  then have "ip_inv packages root ([(root, Some (D root))], ?fs, packages)"
    using assms by (simp add: ip_inv_def same_decls_def slices_ok_def located_def covered_def tunnelled_def)
  from ip_loop_ends [OF this] obtain fs packages' where
    r: "ip_loop slicer backward_points p ([(root, Some (D root))], ?fs, packages) = Some (Inr (fs, packages'))"
      "ip_inv packages root ([], fs, packages')" by blast
  have inv: "same_decls packages packages'" "sliceable p J U D packages'" "slices_ok fs" "covered fs {} root" "\<And>g. tunnelled fs (covered fs {}) g"
    using r(2) by (simp_all add: ip_inv_def)
  have "closed_slices p fs"
    unfolding closed_slices_def
  proof (intro allI ballI impI, clarify)
    fix g s args d s'
    assume s: "s \<in> slice_in fs g" "\<not> is_join s" and c: "(args, d, s') \<in> set (findCalledFunctions p [s])"
    have "s \<in> U" using inv(3) s by (auto simp: slices_ok_def joins_def)
    then have "called_fun p U args d" using c by (rule called_fun.of_stmt)
    then have D: "D pt = d" if "pt \<in> set (points_of d)" for pt using that assms(1) unfolding sliceable_def by blast
    have "fd_node d \<in> calls_in fs g \<inter> fs_dom fs \<and> (\<forall>pt \<in> set (points_of d). covered fs {} pt)"
      using inv(5) [of g] s c unfolding tunnelled_def by blast
    with D show "fd_node d \<in> calls_in fs g \<and> fd_node d \<in> fs_dom fs \<and>
        (\<forall>pt \<in> set (points_of d). pos_of p pt \<in> pos_of p ` slice_in fs (fd_node d))"
      by (auto simp: covered_def)
  qed
  moreover have "ComputeSliceIP root p packages slicer backward_points = Some (Inr (fs, packages'))"
    using found r(1) by (simp add: ComputeSliceIP_def)
  moreover have "\<forall>g. slice_in fs g \<subseteq> U \<union> {s. is_join s}" using inv(3) by (auto simp: slices_ok_def joins_def)
  ultimately show ?thesis using inv(1,4) by (simp add: covered_def)
qed

end

section \<open>The backward slicer\<close>

text \<open>
  The graph of a function that can be sliced, with the statements of its blocks in \<open>U\<close>. A statement of
  \<open>U\<close> need not be a block: none is made for a block statement, a deferred call or a statement in a function literal.
\<close>

definition slice_unit :: "program \<Rightarrow> nat \<Rightarrow> (node \<Rightarrow> var list) \<Rightarrow> (node \<Rightarrow> var list) \<Rightarrow> stmt set \<Rightarrow> CFG \<Rightarrow> bool" where
  "slice_unit p depth df us U c \<longleftrightarrow> slice_graph df us c \<and> card (keys (Blocks c)) \<le> depth \<and> (\<forall>v \<in> keys (Blocks c). stmt_at p v \<in> U)"

definition slice_stmts :: "'b bitset_ops \<Rightarrow> (nat \<Rightarrow> node set \<Rightarrow> node list) \<Rightarrow> program \<Rightarrow> stmt set \<Rightarrow> stmt set" where
  "slice_stmts B ord p U = (if bitset_api B \<and> (\<forall>i. range_order (ord i)) \<and> finite U \<and>
     (\<forall>s \<in> U. has_pos p s \<and> \<not> is_join s \<and> stmt_at p (addr s) = s) then U else {})"

interpretation bs: slicer_api p "slicer_of p (ComputeBackwardSlice B ord depth df us)"
  "slice_unit p depth df us (slice_stmts B ord p U)" "slice_stmts B ord p U" D
  for p B ord depth df us U D
proof
  show "finite (slice_stmts B ord p U)" by (simp add: slice_stmts_def)
  fix s
  assume s: "s \<in> slice_stmts B ord p U"
  then show "has_pos p s" "\<not> is_join s" by (simp_all add: slice_stmts_def split: if_splits)
  fix cf
  assume J: "slice_unit p depth df us (slice_stmts B ord p U) cf"
  have B: "bitset_api B" "\<And>i. range_order (ord i)" "stmt_at p (addr s) = s" using s by (auto simp: slice_stmts_def split: if_splits)
  have g: "slice_graph df us cf" "card (keys (Blocks cf)) \<le> depth" using J by (auto simp: slice_unit_def)
  obtain c' ws where r: "ComputeBackwardSlice B ord depth df us (addr s) cf [] = Some (Inr (c', addr s # ws))"
    "set (addr s # ws) = (if addr s \<in> keys (Blocks cf) then {v. (depends df us cf)\<^sup>*\<^sup>* (addr s) v} else {addr s})"
    "slice_graph df us c'" "same_edges cf c'"
    using backward_slice_any [of B df us cf ord depth "addr s", OF B(1) g(1) B(2) g(2)] by blast
  have "slicer_of p (ComputeBackwardSlice B ord depth df us) s cf = Some (Inr (c', map (stmt_at p) (addr s # ws)))"
    using r(1) by (simp add: slicer_of_def)
  moreover have "slice_unit p depth df us (slice_stmts B ord p U) c'"
    using J r(3,4) by (simp add: slice_unit_def same_edges_def)
  moreover have "s \<in> set (map (stmt_at p) (addr s # ws))" using B(3) by simp
  moreover have "set (addr s # ws) \<subseteq> insert (addr s) (keys (Blocks cf))"
    unfolding r(2) using depends_star_keys g(1) unfolding slice_graph_def by (auto split: if_splits)
  then have "set (map (stmt_at p) (addr s # ws)) \<subseteq> slice_stmts B ord p U" using J s B(3) by (auto simp: slice_unit_def)
  ultimately show "\<exists>cf' ss. slicer_of p (ComputeBackwardSlice B ord depth df us) s cf = Some (Inr (cf', ss)) \<and>
      slice_unit p depth df us (slice_stmts B ord p U) cf' \<and> s \<in> set ss \<and> set ss \<subseteq> slice_stmts B ord p U"
    by blast
qed

text \<open>
  C23: slices across functions. \<open>U\<close> are finitely many parsed statements with positions and distinct
  addresses, among them the statements of all blocks, the statements that call a function by name
  and the return statements of called functions; they need not be blocks of a graph. Every
  function has a graph that can be sliced (from each block the exit can be reached), a statement
  that calls a function by name lies in a function, a function called by an assignment has a named parameter,
  and its return statements lie in it. Then \<open>ComputeSliceIP\<close> with the backward slicer and its points of entry
  ends without a panic, although it puts tasks back into its queue. In the result the statement asked
  for is in the slice of its function, no statement is made up but the assignments of parameters,
  and the slices are closed under calls: of every sliced assignment that calls a declared function the call is
  recorded, and the return statements of the called function are in the slice of that function.
  Positions stand for statements, as in the code. The code can panic on a called function without
  named parameter, on a graph with a block that does not reach the exit and on a calling statement
  in a declaration that is not a function.
\<close>

theorem ComputeSliceIP_correct:
  assumes "bitset_api B" "\<forall>i. range_order (ord i)" "finite U"
    and "\<forall>s \<in> U. has_pos p s \<and> \<not> is_join s \<and> stmt_at p (addr s) = s"
    and "sliceable p (slice_unit p depth df us U) U D packages" "root \<in> U" "found_in p packages root (D root)"
  shows "\<exists>fs packages'. ComputeSliceIP root p packages (slicer_of p (ComputeBackwardSlice B ord depth df us)) backward_points =
      Some (Inr (fs, packages')) \<and>
    same_decls packages packages' \<and> pos_of p root \<in> pos_of p ` slice_in fs (fd_node (D root)) \<and>
    (\<forall>g. slice_in fs g \<subseteq> U \<union> {s. is_join s}) \<and> closed_slices p fs"
proof -
  have "slice_stmts B ord p U = U" using assms(1-4) by (simp add: slice_stmts_def)
  then show ?thesis using bs.ComputeSliceIP_ends [of p depth df us B ord U D packages root] assms(5-7) by simp
qed

text \<open>
  \<open>func main() { x := f(a); defer func() { f(c) }() }; func f(b T) R { return b }\<close>. The graph of \<open>main\<close> has
  no block for the deferred call and none for the call in the function literal, which the slice of the return statement reaches.
\<close>

definition call_main :: func_decl where
  "call_main = \<lparr>fd_node = 100, fd_Name = ''main'', fd_Obj = Some ''main'', fd_Params = Some [], fd_Results = 0,
     fd_Body = [AssignStmt 2 [Ident 20] DEFINE [CallExpr 21 (Ident 22) [Ident 23]],
       DeferStmt 6 (CallExpr 24 (FuncLit 25 [] [ExprStmt 7 (CallExpr 26 (Ident 27) [Ident 28])]) [])]\<rparr>"

definition inner_call :: stmt where
  "inner_call = ExprStmt 7 (CallExpr 26 (Ident 27) [Ident 28])"

definition call_f :: func_decl where
  "call_f = \<lparr>fd_node = 200, fd_Name = ''f'', fd_Obj = Some ''f'', fd_Params = Some [[31]], fd_Results = 1,
     fd_Body = [ReturnStmt 3 [Ident 30]]\<rparr>"

definition call_program :: program where
  "call_program = \<lparr>ident_Name = (\<lambda>n. if n \<in> {22, 27} then ''f'' else ''v''), ident_Decl = (\<lambda>n. if n \<in> {22, 27} then Some call_f else None),
     var_Name = (\<lambda>_. []), node_Pos = (\<lambda>n. if n = 3 then 70 else if n = 7 then 26 else n),
     stmt_at = (\<lambda>n. if n = 2 then hd (fd_Body call_main) else if n = 3 then hd (fd_Body call_f) else if n = 7 then inner_call else BadStmt n),
     prog_info = \<lparr>ObjectOf = (\<lambda>_. None), Implicits = (\<lambda>_. None)\<rparr>\<rparr>"

definition call_packages :: packages where
  "call_packages = [[\<lparr>src_Decls = [FDecl 10 50 call_main, FDecl 60 99 call_f],
     src_Cfgs = [FromStmts 0 1 (fd_Body call_main), FromStmts 4 5 (fd_Body call_f)]\<rparr>]]"

lemma chain_slice_graph:
  assumes m: "Blocks c = [(n, (new_Block n)\<lparr>Preds := [en], Succs := [ex]\<rparr>), (en, (new_Block en)\<lparr>Succs := [n]\<rparr>), (ex, (new_Block ex)\<lparr>Preds := [n]\<rparr>)]"
    and c: "Entry c = en" "Exit_node c = ex" "en \<noteq> n" "en \<noteq> ex" "n \<noteq> ex" and df: "df en = []"
  shows "slice_graph df us c" "keys (Blocks c) = {n, en, ex}"
proof -
  have e: "edge (Blocks c) x y \<longleftrightarrow> (x, y) \<in> {(en, n), (n, ex)}" for x y
    using c by (auto simp: m edge_def new_Block_def)
  have r: "redge (Blocks c) x y \<longleftrightarrow> (x, y) \<in> {(en, n), (n, ex)}" for x y
    using c by (auto simp: m redge_def new_Block_def)
  show k: "keys (Blocks c) = {n, en, ex}" by (auto simp: m keys_def)
  have "wf_blocks (Blocks c)"
    using c e r by (auto simp: wf_blocks_def gomap_wf_def m new_Block_def split: if_splits)
  moreover have "edge (Blocks c) en n" "edge (Blocks c) n ex" using e by auto
  then have "(edge (Blocks c))\<^sup>*\<^sup>* n ex" "(edge (Blocks c))\<^sup>*\<^sup>* en ex" by (blast intro: converse_rtranclp_into_rtranclp)+
  moreover have "DataDep b = []" if "map_of (Blocks c) s = Some b" for s b
    using that c by (auto simp: m new_Block_def split: if_splits)
  ultimately show "slice_graph df us c" using c e k df unfolding slice_graph_def by auto
qed

definition call_stmts :: "stmt set" where
  "call_stmts = {hd (fd_Body call_main), hd (fd_Body call_f), inner_call, BadStmt 0, BadStmt 1, BadStmt 4, BadStmt 5}"

definition call_func :: "stmt \<Rightarrow> func_decl" where
  "call_func s = (if addr s = 3 then call_f else call_main)"

lemma call_units:
  "slice_unit call_program 3 (\<lambda>_. []) (\<lambda>_. []) call_stmts (FromStmts 0 1 (fd_Body call_main))"
  "slice_unit call_program 3 (\<lambda>_. []) (\<lambda>_. []) call_stmts (FromStmts 4 5 (fd_Body call_f))"
proof -
  have "Blocks (FromStmts 0 1 (fd_Body call_main)) =
      [(2, (new_Block 2)\<lparr>Preds := [0], Succs := [1]\<rparr>), (0, (new_Block 0)\<lparr>Succs := [2]\<rparr>), (1, (new_Block 1)\<lparr>Preds := [2]\<rparr>)]"
    "Entry (FromStmts 0 1 (fd_Body call_main)) = 0" "Exit_node (FromStmts 0 1 (fd_Body call_main)) = 1"
    by (code_simp)+
  then show "slice_unit call_program 3 (\<lambda>_. []) (\<lambda>_. []) call_stmts (FromStmts 0 1 (fd_Body call_main))"
    using chain_slice_graph(1) [where df = "\<lambda>_. []" and us = "\<lambda>_. []"] chain_slice_graph(2) [where df = "\<lambda>_. []"]
    by (auto simp: slice_unit_def call_stmts_def call_program_def)
  have "Blocks (FromStmts 4 5 (fd_Body call_f)) =
      [(3, (new_Block 3)\<lparr>Preds := [4], Succs := [5]\<rparr>), (4, (new_Block 4)\<lparr>Succs := [3]\<rparr>), (5, (new_Block 5)\<lparr>Preds := [3]\<rparr>)]"
    "Entry (FromStmts 4 5 (fd_Body call_f)) = 4" "Exit_node (FromStmts 4 5 (fd_Body call_f)) = 5"
    by (code_simp)+
  then show "slice_unit call_program 3 (\<lambda>_. []) (\<lambda>_. []) call_stmts (FromStmts 4 5 (fd_Body call_f))"
    using chain_slice_graph(1) [where df = "\<lambda>_. []" and us = "\<lambda>_. []"] chain_slice_graph(2) [where df = "\<lambda>_. []"]
    by (auto simp: slice_unit_def call_stmts_def call_program_def)
qed

lemma call_found:
  "found_in call_program call_packages (hd (fd_Body call_main)) call_main"
  "found_in call_program call_packages inner_call call_main"
  "found_in call_program call_packages (hd (fd_Body call_f)) call_f"
  by (auto simp: found_in_def searchFunction_def all_sources_def call_packages_def call_program_def call_main_def call_f_def
      inner_call_def findFunction_def index_go_def)

lemma call_callers: "set (findCallStmnts call_program f call_packages) \<subseteq> {hd (fd_Body call_main), inner_call}"
  by (auto simp: findCallStmnts_def call_packages_def inspect_file_def inspect_body_def call_main_def call_f_def inner_call_def
      checkCallNode_def split: if_splits)

lemma call_called:
  assumes "called_fun call_program U args d"
  shows "d = call_f"
proof -
  have only: "resolved_call call_program e = Some (args, d) \<Longrightarrow> d = call_f" for e args d
    by (drule resolved_call_some) (auto simp: call_program_def split: if_splits)
  from assms show ?thesis
  proof cases
    case (of_stmt s s')
    then show ?thesis using only by (auto simp: findCalledFunctions_def set_map_filter split: stmt.splits)
  next
    case (of_arg args' d' e)
    then show ?thesis using only by blast
  qed
qed

lemma call_sliceable:
  "sliceable call_program (slice_unit call_program 3 (\<lambda>_. []) (\<lambda>_. []) call_stmts) call_stmts call_func call_packages"
  unfolding sliceable_def
proof (intro conjI ballI allI impI)
  show "graphs_ok (slice_unit call_program 3 (\<lambda>_. []) (\<lambda>_. []) call_stmts) call_packages"
    using call_units by (simp add: graphs_ok_def call_packages_def)
  have f: "call_func (hd (fd_Body call_main)) = call_main" "call_func inner_call = call_main"
    by (simp_all add: call_func_def call_main_def inner_call_def)
  fix g s
  assume "s \<in> set (findCallStmnts call_program g call_packages)"
  then have "s = hd (fd_Body call_main) \<or> s = inner_call" using call_callers [of g] by blast
  then show "s \<in> call_stmts" "found_in call_program call_packages s (call_func s)"
    using call_found f by (auto simp: call_stmts_def)
next
  fix args d
  assume "called_fun call_program call_stmts args d"
  then have d: "d = call_f" by (rule call_called)
  show "\<exists>gs. fd_Params d = Some gs \<and> concat gs \<noteq> []" by (simp add: d call_f_def)
  fix s
  assume "s \<in> set (points_of d)"
  then have s: "s = hd (fd_Body call_f)"
    by (simp add: d points_of_def getExitPoints_def inspect_body_def call_f_def map_filter_simps is_return_def)
  show "s \<in> call_stmts" "call_func s = d" "found_in call_program call_packages s d"
    using call_found(3) by (simp_all add: s d call_stmts_def) (simp add: call_func_def call_f_def)
qed

theorem ComputeSliceIP_correct_witness:
  "\<exists>fs packages'. ComputeSliceIP (hd (fd_Body call_f)) call_program call_packages
      (slicer_of call_program (ComputeBackwardSlice list_bits (\<lambda>_. sorted_list_of_set) 3 (\<lambda>_. []) (\<lambda>_. []))) backward_points =
      Some (Inr (fs, packages')) \<and> closed_slices call_program fs"
proof -
  let ?root = "hd (fd_Body call_f)"
  have "\<forall>i :: nat. range_order ((\<lambda>_. sorted_list_of_set) i)" "finite call_stmts" "?root \<in> call_stmts"
    by (simp_all add: call_stmts_def)
  moreover have "\<forall>s \<in> call_stmts. has_pos call_program s \<and> \<not> is_join s \<and> stmt_at call_program (addr s) = s"
    by (simp add: call_stmts_def call_main_def call_f_def call_program_def inner_call_def has_pos_def is_join_def index_go_def)
  moreover have "call_func ?root = call_f" by (simp add: call_func_def call_f_def)
  then have "found_in call_program call_packages ?root (call_func ?root)" using call_found(3) by simp
  ultimately show ?thesis
    using ComputeSliceIP_correct [OF listb.bitset_api_axioms _ _ _ call_sliceable, of "\<lambda>_. sorted_list_of_set" ?root] by blast
qed

end
