(* ===== verification/Assert_RT.thy ===== *)
theory Assert_RT
  imports Dinv_RT
begin

text \<open>
  \<open>dinvRT/assert.go\<close>: distributed assertions at run time. The package variables are the record
  \<open>node\<close>; its field \<open>rt\<close> holds the variables of \<open>api.go\<close>. Goroutines are the values of
  \<open>task\<close> in \<open>tasks\<close>, cut where the code sleeps or waits for a channel: running a task executes
  the code up to its next wait. Channels and response maps are shared between goroutines and
  are stores, referred to by index. A schedule is a list of actions: calls of the exported
  functions, and the choice of the task that runs next.

  Arguments are the logger (\<open>govec\<close>, which also encodes and decodes messages) and, for each
  action, the surroundings \<open>aenv\<close>: those of \<open>api.go\<close>, the clock, the memory of the program,
  the network, and the printed form of a response map. A \<open>time.Time\<close> counts nanoseconds from
  the zero time, a \<open>time.Duration\<close> is an \<open>int64\<close> of nanoseconds.
\<close>

section \<open>Definitions\<close>

subsection \<open>Messages\<close>

datatype messageType =
    RTT_REQUEST | RTT_RETURN | ASSERT_REQUEST | ASSERT_RETURN | TIME_REQUEST | TIME_RETURN
  | SYNC_REQUEST | ASSERT_FAILED | UnknownType int

definition msgTypeToString :: "messageType \<Rightarrow> string" where
  "msgTypeToString msgT =
     (case msgT of
        RTT_REQUEST \<Rightarrow> ''RTT_REQUEST''
      | RTT_RETURN \<Rightarrow> ''RTT_RETURN''
      | ASSERT_REQUEST \<Rightarrow> ''ASSERT_REQUEST''
      | ASSERT_RETURN \<Rightarrow> ''ASSERT_RETURN''
      | TIME_REQUEST \<Rightarrow> ''TIME_REQUEST''
      | TIME_RETURN \<Rightarrow> ''TIME_RETURN''
      | SYNC_REQUEST \<Rightarrow> ''SYNC_REQUEST''
      | ASSERT_FAILED \<Rightarrow> ''ASSERT_FAILED''
      | UnknownType _ \<Rightarrow> ''UNDEFINED'')"

text \<open>
  Values of interface type by their dynamic type: \<open>int64\<close>, \<open>time.Duration\<close>, \<open>string\<close>, \<open>[]uint8\<close>,
  \<open>[]string\<close>, \<open>[]interface{}\<close>, \<open>map[string]interface{}\<close>, \<open>map[interface{}]interface{}\<close>,
  pointers into the memory of the program, \<open>reflect.Value\<close>, and all others.
\<close>

datatype dyn =
    DNil
  | DInt64 int
  | DDuration int
  | DString string
  | DBytes bytes
  | DStrings "string list"
  | DList "dyn list"
  | DStringMap "(string \<times> dyn) list"
  | DMap "(dyn \<times> dyn) list"
  | DPtr "nat option"
  | DValue "dyn option"
  | DOther string

type_synonym nameToValueMap = "(string, dyn) gomap"
type_synonym response_map = "(string, nameToValueMap) gomap"
type_synonym memory = "nat \<Rightarrow> dyn"
type_synonym assertionFunction = "response_map \<Rightarrow> bool"
type_synonym processFunction = "memory \<Rightarrow> dyn \<Rightarrow> dyn"

record message =
  MessageType :: messageType
  RequestingNode :: string
  RoundNumber :: int
  MessageTime :: int
  Result :: dyn

subsection \<open>Times and counters\<close>

definition time_Sub :: "int \<Rightarrow> int \<Rightarrow> int" where
  "time_Sub t u = max (- (2 ^ 63)) (min (2 ^ 63 - 1) (t - u))"

definition dur_add :: "int \<Rightarrow> int \<Rightarrow> int" where
  "dur_add a b = signed_take_bit 63 (a + b)"

text \<open>Integer division rounds towards zero.\<close>

definition dur_half :: "int \<Rightarrow> int" where
  "dur_half d = (if d < 0 then - ((- d) div 2) else d div 2)"

definition int_inc :: "int \<Rightarrow> int" where
  "int_inc n = signed_take_bit 63 (n + 1)"

abbreviation Millisecond :: int where "Millisecond \<equiv> 1000000"
abbreviation Second :: int where "Second \<equiv> 1000000000"

subsection \<open>State and surroundings\<close>

datatype task =
    TReceive nat
  | TProcess nat
  | THandleAssert message
  | TAnswer message string "dyn list" int
  | TSend message string string
  | THandleRTT int
  | TSyncRequest int
  | TSyncDiff int
  | TAssert assertionFunction "(string, string list) gomap" int nat int int
  | TExit int

text \<open>What a read from the socket yields: nothing yet, an error, or a datagram and its sender.\<close>

datatype udp_read = NoData | ReadError | Datagram string bytes

record aenv =
  host :: "message rt_env"
  Now :: int
  mem :: memory
  ResolveUDPAddr :: "string \<Rightarrow> string option"
  ListenUDP :: "string option \<Rightarrow> bool"
  ReadFromUDP :: udp_read
  show_responses :: "response_map \<Rightarrow> string"

text \<open>
  \<open>listening\<close> tells whether \<open>listener\<close> is non-nil; \<open>maps_made\<close> whether the maps are, which are
  all created by \<open>InitDistributedAssert\<close>; \<open>sent\<close> are the datagrams written to the socket.
\<close>

record 'g node =
  rt :: "'g rt_state"
  address :: string
  peers :: "string list"
  listening :: bool
  maps_made :: bool
  assertableDictionary :: "(string, dyn) gomap"
  assertableFunctions :: "(string, processFunction option) gomap"
  roundToResponseMap :: "(int, nat) gomap"
  roundTripTimeMap :: "(string, int) gomap"
  timeOffset :: int
  roundNumber :: int
  roundNumberRTT :: int
  roundNumberTime :: int
  roundTripTime :: "(string, int) gomap"
  syncClientTime :: "(string, int) gomap"
  syncLocalTime :: "(string, int) gomap"
  responses :: "response_map list"
  chans :: "message option list"
  tasks :: "task list"
  sent :: "(string \<times> bytes) list"

definition node_start :: "bool \<Rightarrow> 'g node" where
  "node_start remote =
     \<lparr>rt = rt_start remote, address = '''', peers = [], listening = False, maps_made = False,
      assertableDictionary = [], assertableFunctions = [], roundToResponseMap = [],
      roundTripTimeMap = [], timeOffset = 0, roundNumber = 0, roundNumberRTT = 0,
      roundNumberTime = 0, roundTripTime = [], syncClientTime = [], syncLocalTime = [],
      responses = [], chans = [], tasks = [], sent = []\<rparr>"

definition spawn :: "task \<Rightarrow> 'g node \<Rightarrow> 'g node" where
  "spawn t n = n\<lparr>tasks := tasks n @ [t]\<rparr>"

definition node_Local :: "('g, message) govec \<Rightarrow> aenv \<Rightarrow> string \<Rightarrow> 'g node \<Rightarrow> 'g node go" where
  "node_Local G E msg n = rbind (Local G (host E) msg (rt n)) (\<lambda>s. Inr (n\<lparr>rt := s\<rparr>))"

subsection \<open>Helpers\<close>

definition getValue :: "aenv \<Rightarrow> dyn \<Rightarrow> dyn" where
  "getValue E pointer =
     (case pointer of
        DPtr None \<Rightarrow> DValue None
      | DPtr (Some a) \<Rightarrow> DValue (Some (mem E a))
      | DNil \<Rightarrow> DValue None
      | _ \<Rightarrow> DValue (Some pointer))"

definition B2S :: "bytes \<Rightarrow> string" where
  "B2S bs = map (\<lambda>b. char_of (unat b)) bs"

definition getTime :: "aenv \<Rightarrow> 'g node \<Rightarrow> int" where
  "getTime E n = Now E + timeOffset n"

subsection \<open>Communication\<close>

text \<open>A write to a nil listener is an error that the code ignores.\<close>

definition sendToAddr :: "('g, message) govec \<Rightarrow> aenv \<Rightarrow> message \<Rightarrow> string \<Rightarrow> string \<Rightarrow> 'g node \<Rightarrow> 'g node go" where
  "sendToAddr G E payload addr logMessage n =
     (case ResolveUDPAddr E addr of
        None \<Rightarrow> Inl (Exit (-1))
      | Some a \<Rightarrow>
          rbind (PackM G (host E) payload logMessage (rt n)) (\<lambda>(buf, s).
            Inr (n\<lparr>rt := s, sent := (if listening n then sent n @ [(a, buf)] else sent n)\<rparr>)))"

definition broadcastMessage :: "message \<Rightarrow> string \<Rightarrow> 'g node \<Rightarrow> 'g node" where
  "broadcastMessage payload logMessage n = foldl (\<lambda>n v. spawn (TSend payload v logMessage) n) n (peers n)"

text \<open>The verb \<open>%d\<close> of the format is applied to a string.\<close>

definition received_text :: "message \<Rightarrow> string \<Rightarrow> nat \<Rightarrow> string" where
  "received_text m addr k =
     ''Received message [MessageType: %!d(string='' @ msgTypeToString (MessageType m) @ '')] from [''
       @ addr @ ''] of size '' @ show_nat k"

definition receive :: "('g, message) govec \<Rightarrow> aenv \<Rightarrow> string \<Rightarrow> bytes \<Rightarrow> 'g node \<Rightarrow> (message \<times> 'g node) go" where
  "receive G E addr buf n =
     rbind (UnpackM G (host E) buf ''Received Message From Node'' (rt n)) (\<lambda>(m, s).
     rbind (node_Local G E (received_text m addr (length buf)) (n\<lparr>rt := s\<rparr>)) (\<lambda>n. Inr (m, n)))"

text \<open>
  One turn of the reading goroutine; it waits while its message has not been taken from the
  channel. The last component of the result tells what remains of the goroutine.
\<close>

definition receiveConnections :: "('g, message) govec \<Rightarrow> aenv \<Rightarrow> nat \<Rightarrow> 'g node \<Rightarrow> ('g node \<times> task list) go" where
  "receiveConnections G E c n =
     (if chans n ! c \<noteq> None then Inr (n, [TReceive c])
      else case ReadFromUDP E of
        NoData \<Rightarrow> Inr (n, [TReceive c])
      | ReadError \<Rightarrow> rbind (receive G E ''<nil>'' [] n) (\<lambda>(m, n). Inr (n, []))
      | Datagram addr b \<Rightarrow>
          rbind (receive G E addr (take 8192 b) n) (\<lambda>(m, n).
            Inr (n\<lparr>chans := (chans n)[c := Some m]\<rparr>, [TReceive c])))"

subsection \<open>Answers to assertions\<close>

definition handleAssert :: "aenv \<Rightarrow> message \<Rightarrow> 'g node \<Rightarrow> task list go" where
  "handleAssert E msg n =
     (case Result msg of
        DList requestedValues \<Rightarrow>
          Inr [TAnswer (msg\<lparr>MessageType := ASSERT_RETURN, RequestingNode := address n\<rparr>)
                 (RequestingNode msg) requestedValues
                 (Now E + time_Sub (MessageTime msg) (getTime E n))]
      | _ \<Rightarrow> Inl TypeAssertion)"

definition assert_value :: "aenv \<Rightarrow> 'g node \<Rightarrow> nameToValueMap \<Rightarrow> dyn \<Rightarrow> nameToValueMap go" where
  "assert_value E n valMap val =
     (case val of
        DBytes intArr \<Rightarrow>
          (let v = B2S intArr;
               localVal = (case gomap_get (assertableDictionary n) v of None \<Rightarrow> DNil | Some p \<Rightarrow> p);
               localVal = (case gomap_get (assertableFunctions n) v of
                             Some (Some f) \<Rightarrow> f (mem E) localVal
                           | _ \<Rightarrow> localVal)
           in Inr (gomap_set v (getValue E localVal) valMap))
      | _ \<Rightarrow> Inl TypeAssertion)"

definition answerAssert :: "('g, message) govec \<Rightarrow> aenv \<Rightarrow> message \<Rightarrow> string \<Rightarrow> dyn list \<Rightarrow> 'g node \<Rightarrow> 'g node go" where
  "answerAssert G E msg respondTo requestedValues n =
     rbind (foldR (assert_value E n) [] requestedValues) (\<lambda>valMap.
       sendToAddr G E (msg\<lparr>Result := DStringMap valMap\<rparr>) respondTo ''Assert Response'' n)"

subsection \<open>Processing of messages\<close>

fun copy_values :: "(dyn \<times> dyn) list \<Rightarrow> nameToValueMap go" where
  "copy_values [] = Inr []"
| "copy_values ((k, v) # kvs) =
     (case k of
        DString s \<Rightarrow> rbind (copy_values kvs) (\<lambda>m. Inr (gomap_set s v m))
      | _ \<Rightarrow> Inl TypeAssertion)"

definition returned_values :: "dyn \<Rightarrow> nameToValueMap go" where
  "returned_values r = (case r of DMap kvs \<Rightarrow> copy_values kvs | _ \<Rightarrow> Inl TypeAssertion)"

text \<open>A failed assertion to \<open>int64\<close> leaves \<open>result\<close> zero.\<close>

definition processData :: "('g, message) govec \<Rightarrow> aenv \<Rightarrow> message \<Rightarrow> 'g node \<Rightarrow> 'g node go" where
  "processData G E message n =
     (let respondTo = RequestingNode message
      in case MessageType message of
        RTT_REQUEST \<Rightarrow>
          sendToAddr G E (message\<lparr>MessageType := RTT_RETURN, RequestingNode := address n\<rparr>)
            respondTo ''Round Trip Response'' n
      | RTT_RETURN \<Rightarrow>
          Inr (if roundNumberRTT n = RoundNumber message
               then n\<lparr>roundTripTimeMap := gomap_set (RequestingNode message)
                        (time_Sub (getTime E n) (gomap_get0 (roundTripTime n) (RequestingNode message)))
                        (roundTripTimeMap n)\<rparr>
               else n)
      | ASSERT_REQUEST \<Rightarrow> Inr (spawn (THandleAssert message) n)
      | ASSERT_RETURN \<Rightarrow>
          (case gomap_get (roundToResponseMap n) (RoundNumber message) of
             None \<Rightarrow> Inr n
           | Some r \<Rightarrow>
               rbind (returned_values (Result message)) (\<lambda>returnedValuesCopy.
                 Inr (n\<lparr>responses := (responses n)
                        [r := gomap_set (RequestingNode message) returnedValuesCopy (responses n ! r)]\<rparr>)))
      | TIME_REQUEST \<Rightarrow>
          (if roundNumberTime n \<le> RoundNumber message then
             (let n = n\<lparr>roundNumberTime := RoundNumber message\<rparr>
              in sendToAddr G E
                   (message\<lparr>MessageType := TIME_RETURN, RequestingNode := address n, MessageTime := getTime E n\<rparr>)
                   respondTo ''Round Trip Response'' n)
           else Inr n)
      | TIME_RETURN \<Rightarrow>
          Inr (if roundNumberTime n = RoundNumber message
               then n\<lparr>syncClientTime := gomap_set (RequestingNode message)
                        (gomap_get0 (roundTripTime n) (RequestingNode message)) (syncClientTime n),
                      syncLocalTime := gomap_set (RequestingNode message)
                        (0 + dur_half (time_Sub (gomap_get0 (syncLocalTime n) (RequestingNode message)
                                                 + time_Sub (getTime E n) 0) 0)) (syncLocalTime n)\<rparr>
               else n)
      | SYNC_REQUEST \<Rightarrow>
          Inr (if roundNumberTime n \<le> RoundNumber message then
                 (let n = n\<lparr>roundNumberTime := RoundNumber message\<rparr>;
                      (result, err) = (case Result message of DInt64 i \<Rightarrow> (i, True) | _ \<Rightarrow> (0, False))
                  in if err then n else n\<lparr>timeOffset := dur_add (timeOffset n) result\<rparr>)
               else n)
      | ASSERT_FAILED \<Rightarrow> rbind (node_Local G E ''Received ASSERTION FAILED'' n) (\<lambda>n. Inl (Exit (-1)))
      | UnknownType _ \<Rightarrow> Inr n)"

subsection \<open>Round trip times\<close>

definition getRTT :: "('g, message) govec \<Rightarrow> aenv \<Rightarrow> 'g node \<Rightarrow> string \<Rightarrow> 'g node go" where
  "getRTT G E n addr =
     (let RTTmessage = \<lparr>MessageType = RTT_REQUEST, RequestingNode = address n,
                        RoundNumber = roundNumberRTT n, MessageTime = 0, Result = DNil\<rparr>
      in sendToAddr G E RTTmessage addr ''Round Trip Request''
           (n\<lparr>roundTripTime := gomap_set addr (getTime E n) (roundTripTime n)\<rparr>))"

definition handleRTT :: "('g, message) govec \<Rightarrow> aenv \<Rightarrow> 'g node \<Rightarrow> ('g node \<times> task list) go" where
  "handleRTT G E n =
     (let n = n\<lparr>roundNumberRTT := int_inc (roundNumberRTT n)\<rparr>
      in rbind (foldR (getRTT G E) n (peers n)) (\<lambda>n. Inr (n, [THandleRTT (Now E + 5 * Second)])))"

definition GetAssertDelay :: "('g, message) govec \<Rightarrow> aenv \<Rightarrow> 'g node \<Rightarrow> (int \<times> 'g node) go" where
  "GetAssertDelay G E n = rbind (node_Local G E ''RTT: 50ms'' n) (\<lambda>n. Inr (10 * Millisecond, n))"

subsection \<open>Clock synchronisation\<close>

definition syncTime :: "('g, message) govec \<Rightarrow> aenv \<Rightarrow> 'g node \<Rightarrow> string \<Rightarrow> 'g node go" where
  "syncTime G E n addr =
     (let RTTmessage = \<lparr>MessageType = TIME_REQUEST, RequestingNode = address n,
                        RoundNumber = roundNumberTime n, MessageTime = 0, Result = DNil\<rparr>
      in sendToAddr G E RTTmessage addr ''Get Time Request''
           (n\<lparr>syncLocalTime := gomap_set addr (getTime E n) (syncLocalTime n)\<rparr>))"

definition sendDiffTime :: "('g, message) govec \<Rightarrow> aenv \<Rightarrow> 'g node \<Rightarrow> string \<Rightarrow> 'g node go" where
  "sendDiffTime G E n addr =
     (let RTTmessage = \<lparr>MessageType = SYNC_REQUEST, RequestingNode = address n,
                        RoundNumber = roundNumberTime n, MessageTime = 0,
                        Result = DDuration (time_Sub (gomap_get0 (syncClientTime n) addr)
                                                     (gomap_get0 (syncLocalTime n) addr))\<rparr>
      in sendToAddr G E RTTmessage addr ''Sync Time Request'' n)"

definition sync_request :: "('g, message) govec \<Rightarrow> aenv \<Rightarrow> 'g node \<Rightarrow> ('g node \<times> task list) go" where
  "sync_request G E n =
     rbind (foldR (\<lambda>n v. syncTime G E (n\<lparr>syncClientTime := AList.delete v (syncClientTime n)\<rparr>) v) n (peers n))
       (\<lambda>n. Inr (n, [TSyncDiff (Now E + 2 * Second)]))"

definition sync_diff :: "('g, message) govec \<Rightarrow> aenv \<Rightarrow> 'g node \<Rightarrow> ('g node \<times> task list) go" where
  "sync_diff G E n =
     (let n = n\<lparr>roundNumberTime := int_inc (roundNumberTime n)\<rparr>
      in rbind (foldR (sendDiffTime G E) n (range_keys (host E) (map fst (syncClientTime n))))
           (\<lambda>n. Inr (n, [TSyncRequest (Now E + 4 * Second)])))"

subsection \<open>Exported functions\<close>

definition assert_address :: "aenv \<Rightarrow> string \<Rightarrow> string go" where
  "assert_address E addr =
     (if addr \<noteq> '''' then Inr addr
      else if Getenv (host E) ''DINV_ASSERT_LISTEN'' \<noteq> '''' then Inr (Getenv (host E) ''DINV_ASSERT_LISTEN'')
      else Inl (Exit 1))"

definition assert_peers :: "aenv \<Rightarrow> string list option \<Rightarrow> string list go" where
  "assert_peers E assertPeers =
     (case assertPeers of
        Some ps \<Rightarrow> Inr ps
      | None \<Rightarrow> if Getenv (host E) ''DINV_ASSERT_PEERS'' \<noteq> ''''
                then Inr (split_comma (Getenv (host E) ''DINV_ASSERT_PEERS''))
                else Inl (Exit 1))"

text \<open>The test for the lowest peer is made with the argument, not with the address in use.\<close>

definition InitDistributedAssert :: "('g, message) govec \<Rightarrow> aenv \<Rightarrow> string \<Rightarrow> string list option \<Rightarrow> 'g node \<Rightarrow> 'g node go" where
  "InitDistributedAssert G E addr assertPeers n =
     rbind (initDinv G (host E) '''' (rt n)) (\<lambda>s.
     rbind (assert_address E addr) (\<lambda>a.
     rbind (assert_peers E assertPeers) (\<lambda>ps.
       let tmpNeighbours = filter (\<lambda>p. p \<noteq> a) ps
       in if \<not> ListenUDP E (ResolveUDPAddr E a) then Inl (Exit (-1))
          else
            (let c = length (chans n);
                 lowest = list_all (\<lambda>v. \<not> v < addr) tmpNeighbours;
                 n = n\<lparr>rt := s, address := a, peers := tmpNeighbours, listening := True, maps_made := True,
                       assertableDictionary := [], assertableFunctions := [],
                       chans := chans n @ [None],
                       syncClientTime := [], syncLocalTime := [], roundTripTime := [],
                       roundTripTimeMap := foldl (\<lambda>m v. gomap_set v Second m) [] tmpNeighbours,
                       roundToResponseMap := []\<rparr>;
                 n = spawn (TProcess c) (spawn (TReceive c) n);
                 n = (if lowest then spawn (TSyncRequest (Now E + 4 * Second)) n else n)
             in Inr (spawn (THandleRTT (Now E + 5 * Second)) n)))))"

text \<open>Writing to a nil map panics; \<open>reflect.TypeOf(nil)\<close> is nil and has no kind.\<close>

definition AddAssertable :: "string \<Rightarrow> dyn \<Rightarrow> processFunction option \<Rightarrow> 'g node \<Rightarrow> 'g node go" where
  "AddAssertable name pointer f n =
     (case pointer of
        DNil \<Rightarrow> Inl NilPointer
      | DPtr _ \<Rightarrow>
          if \<not> maps_made n then Inl (Panic ''assignment to entry in nil map'')
          else Inr (n\<lparr>assertableDictionary := gomap_set name pointer (assertableDictionary n),
                      assertableFunctions := gomap_set name f (assertableFunctions n)\<rparr>)
      | _ \<Rightarrow> Inl (Exit (-1)))"

definition assert_request :: "'g node \<Rightarrow> int \<Rightarrow> int \<Rightarrow> string list \<Rightarrow> message" where
  "assert_request n k assertTime v =
     \<lparr>MessageType = ASSERT_REQUEST, RequestingNode = address n, RoundNumber = k,
      MessageTime = assertTime, Result = DStrings v\<rparr>"

definition assert_failed :: "'g node \<Rightarrow> int \<Rightarrow> int \<Rightarrow> message" where
  "assert_failed n k assertTime =
     \<lparr>MessageType = ASSERT_FAILED, RequestingNode = address n, RoundNumber = k,
      MessageTime = assertTime, Result = DNil\<rparr>"

text \<open>\<open>Assert\<close> up to its sleep.\<close>

definition Assert_begin :: "('g, message) govec \<Rightarrow> aenv \<Rightarrow> assertionFunction \<Rightarrow> (string, string list) gomap \<Rightarrow> 'g node \<Rightarrow> 'g node go" where
  "Assert_begin G E f requestedValues n =
     (let k = roundNumber n;
          n = n\<lparr>roundNumber := int_inc (roundNumber n)\<rparr>
      in rbind (GetAssertDelay G E n) (\<lambda>(maxRTT, n).
           let r = length (responses n);
               n = n\<lparr>responses := responses n @ [[]]\<rparr>
           in if \<not> maps_made n then Inl (Panic ''assignment to entry in nil map'')
              else
                (let n = n\<lparr>roundToResponseMap := gomap_set k r (roundToResponseMap n)\<rparr>;
                     assertTime = getTime E n + maxRTT;
                     n = foldl (\<lambda>n (a, v). spawn (TSend (assert_request n k assertTime v) a ''Requesting Assertion'') n) n
                           [(a, v). a \<leftarrow> range_keys (host E) (map fst requestedValues),
                                    Some v \<leftarrow> [gomap_get requestedValues a]]
                 in Inr (spawn (TAssert f requestedValues k r assertTime (Now E + 2 * maxRTT)) n))))"

text \<open>\<open>Assert\<close> after its sleep; a failed assertion is announced, and the process exits after another sleep.\<close>

definition Assert_end :: "('g, message) govec \<Rightarrow> aenv \<Rightarrow> assertionFunction \<Rightarrow> (string, string list) gomap \<Rightarrow> int \<Rightarrow> nat \<Rightarrow> int \<Rightarrow> 'g node \<Rightarrow> ('g node \<times> task list) go" where
  "Assert_end G E f requestedValues k r assertTime n =
     (let n = n\<lparr>roundToResponseMap := AList.delete k (roundToResponseMap n)\<rparr>;
          responseMap = responses n ! r
      in if \<not> f responseMap then
           rbind (node_Local G E (''ASSERTION FAILED: '' @ show_responses E responseMap) n) (\<lambda>n.
           rbind (foldR (\<lambda>n a. sendToAddr G E (assert_failed n k assertTime) a ''Assertion Failed'' n) n
                    (range_keys (host E) (map fst requestedValues))) (\<lambda>n.
             Inr (n, [TExit (Now E + 10 * Millisecond)])))
         else
           rbind (node_Local G E (''ASSERTION PASSED: '' @ show_responses E responseMap) n) (\<lambda>n. Inr (n, [])))"

definition GetPeers :: "'g node \<Rightarrow> string list" where
  "GetPeers n = peers n"

subsection \<open>Schedules\<close>

text \<open>
  One turn of a goroutine: the new state and what remains of the goroutine. A goroutine that
  sleeps or waits for a message is left as it is.
\<close>

definition run_task :: "('g, message) govec \<Rightarrow> aenv \<Rightarrow> task \<Rightarrow> 'g node \<Rightarrow> ('g node \<times> task list) go" where
  "run_task G E t n =
     (case t of
        TReceive c \<Rightarrow> receiveConnections G E c n
      | TProcess c \<Rightarrow>
          (case chans n ! c of
             None \<Rightarrow> Inr (n, [t])
           | Some m \<Rightarrow> rbind (processData G E m (n\<lparr>chans := (chans n)[c := None]\<rparr>)) (\<lambda>n. Inr (n, [t])))
      | THandleAssert m \<Rightarrow> rbind (handleAssert E m n) (\<lambda>ts. Inr (n, ts))
      | TAnswer m to vs wake \<Rightarrow>
          if Now E < wake then Inr (n, [t]) else rbind (answerAssert G E m to vs n) (\<lambda>n. Inr (n, []))
      | TSend m a info \<Rightarrow> rbind (sendToAddr G E m a info n) (\<lambda>n. Inr (n, []))
      | THandleRTT wake \<Rightarrow> if Now E < wake then Inr (n, [t]) else handleRTT G E n
      | TSyncRequest wake \<Rightarrow> if Now E < wake then Inr (n, [t]) else sync_request G E n
      | TSyncDiff wake \<Rightarrow> if Now E < wake then Inr (n, [t]) else sync_diff G E n
      | TAssert f req k r assertTime wake \<Rightarrow>
          if Now E < wake then Inr (n, [t]) else Assert_end G E f req k r assertTime n
      | TExit wake \<Rightarrow> if Now E < wake then Inr (n, [t]) else Inl (Exit (-1)))"

datatype action =
    ARun nat
  | AInit string "string list option"
  | AAdd string dyn "processFunction option"
  | AAssert assertionFunction "(string, string list) gomap"

definition node_act :: "('g, message) govec \<Rightarrow> 'g node \<Rightarrow> aenv \<times> action \<Rightarrow> 'g node go" where
  "node_act G n ea =
     (case ea of (E, a) \<Rightarrow>
        (case a of
           ARun i \<Rightarrow>
             if i < length (tasks n) then
               rbind (run_task G E (tasks n ! i) n) (\<lambda>(n', ts).
                 Inr (n'\<lparr>tasks := take i (tasks n') @ ts @ drop (Suc i) (tasks n')\<rparr>))
             else Inr n
         | AInit addr ps \<Rightarrow> InitDistributedAssert G E addr ps n
         | AAdd name p f \<Rightarrow> AddAssertable name p f n
         | AAssert f req \<Rightarrow> Assert_begin G E f req n))"

definition node_run :: "('g, message) govec \<Rightarrow> 'g node \<Rightarrow> (aenv \<times> action) list \<Rightarrow> 'g node go" where
  "node_run G = foldR (node_act G)"

text \<open>The states a process can be in, over all schedules in surroundings that satisfy \<open>ok\<close>.\<close>

inductive reachable :: "('g, message) govec \<Rightarrow> (aenv \<Rightarrow> bool) \<Rightarrow> 'g node \<Rightarrow> bool" for G ok where
  start: "reachable G ok (node_start remote)"
| act: "reachable G ok n \<Longrightarrow> ok E \<Longrightarrow> node_act G n (E, a) = Inr n' \<Longrightarrow> reachable G ok n'"

end
