(* ===== verification/Assert_RT_Props.thy ===== *)
theory Assert_RT_Props
  imports Assert_RT
begin

text \<open>
  Properties of the run-time assertions. The locale \<open>node_invariant\<close> is the contract of a state
  predicate that every action keeps, and gives the predicate in all reachable states; it is
  interpreted for the references between goroutines and shared stores, for the clock offset,
  and for the times the clock synchronisation records.
\<close>

section \<open>Sending and logging\<close>

text \<open>Sending and logging change the variables of \<open>api.go\<close> and the datagrams written, nothing else.\<close>

definition quiet :: "'g node \<Rightarrow> 'g node \<Rightarrow> bool" where
  "quiet n n' \<longleftrightarrow> n' = n\<lparr>rt := rt n', sent := sent n'\<rparr>"

lemma quiet_refl [simp]: "quiet n n"
  by (simp add: quiet_def)

lemma quiet_trans: "quiet a b \<Longrightarrow> quiet b c \<Longrightarrow> quiet a c"
  by (cases a; cases b; cases c) (simp add: quiet_def)

lemma quiet_rt [simp]: "quiet n (n\<lparr>rt := s\<rparr>)" "quiet n (n\<lparr>rt := s, sent := out\<rparr>)"
  by (cases n; simp add: quiet_def)+

text \<open>The fields a quiet change keeps.\<close>

lemma quietD:
  assumes "quiet n n'"
  shows "address n' = address n" "peers n' = peers n" "listening n' = listening n"
    "maps_made n' = maps_made n" "assertableDictionary n' = assertableDictionary n"
    "assertableFunctions n' = assertableFunctions n" "roundToResponseMap n' = roundToResponseMap n"
    "roundTripTimeMap n' = roundTripTimeMap n" "timeOffset n' = timeOffset n"
    "roundNumber n' = roundNumber n" "roundNumberRTT n' = roundNumberRTT n"
    "roundNumberTime n' = roundNumberTime n" "roundTripTime n' = roundTripTime n"
    "syncClientTime n' = syncClientTime n" "syncLocalTime n' = syncLocalTime n"
    "responses n' = responses n" "chans n' = chans n" "tasks n' = tasks n"
  using assms by (cases n; cases n'; simp add: quiet_def)+

lemma sendToAddr_quiet: "sendToAddr G E m a info n = Inr n' \<Longrightarrow> quiet n n'"
  by (auto simp: sendToAddr_def go_bind split: option.splits if_splits)

lemma node_Local_quiet: "node_Local G E msg n = Inr n' \<Longrightarrow> quiet n n'"
  by (auto simp: node_Local_def go_bind)

lemma receive_quiet: "receive G E addr b n = Inr (m, n') \<Longrightarrow> quiet n n'"
  by (auto simp: receive_def go_bind dest!: node_Local_quiet intro: quiet_trans [OF quiet_rt(1)])

lemma answerAssert_quiet: "answerAssert G E m to vs n = Inr n' \<Longrightarrow> quiet n n'"
  by (auto simp: answerAssert_def go_bind dest: sendToAddr_quiet)

lemma GetAssertDelay_quiet: "GetAssertDelay G E n = Inr (d, n') \<Longrightarrow> quiet n n' \<and> d = 10 * Millisecond"
  by (auto simp: GetAssertDelay_def go_bind dest: node_Local_quiet)

lemma foldR_invariant:
  assumes "\<And>s x s'. I s \<Longrightarrow> step s x = Inr s' \<Longrightarrow> I s'"
  shows "foldR step s xs = Inr s' \<Longrightarrow> I s \<Longrightarrow> I s'"
proof (induction xs arbitrary: s)
  case (Cons x xs)
  then obtain s1 where "step s x = Inr s1" "foldR step s1 xs = Inr s'" by (auto simp: go_bind)
  with Cons.IH [of s1] Cons.prems(2) assms [of s x s1] show ?case by blast
qed simp

lemma foldR_quiet:
  assumes "\<And>n x n'. step n x = Inr n' \<Longrightarrow> quiet n n'"
  shows "foldR step n xs = Inr n' \<Longrightarrow> quiet n n'"
  by (rule foldR_invariant [where I = "quiet n"]) (auto intro: quiet_trans assms)

lemma Assert_end_quiet:
  assumes "Assert_end G E f req k r t n = Inr (n', ts)"
  shows "quiet (n\<lparr>roundToResponseMap := AList.delete k (roundToResponseMap n)\<rparr>) n'"
    and "ts \<in> {[], [TExit (Now E + 10 * Millisecond)]}"
proof -
  have "quiet x n'" if "foldR (\<lambda>n a. sendToAddr G E (assert_failed n k t) a ''Assertion Failed'' n) x xs = Inr n'" for x xs
    using that by (rule foldR_quiet [rotated]) (rule sendToAddr_quiet)
  with assms show "quiet (n\<lparr>roundToResponseMap := AList.delete k (roundToResponseMap n)\<rparr>) n'"
    and "ts \<in> {[], [TExit (Now E + 10 * Millisecond)]}"
    by (auto simp: Assert_end_def Let_def go_bind dest!: node_Local_quiet split: if_splits intro: quiet_trans)
qed

section \<open>The timers\<close>

text \<open>The part of the state that the timers for round trips and clocks leave alone.\<close>

definition core where
  "core n = (tasks n, chans n, roundToResponseMap n, responses n, listening n, maps_made n, peers n,
     address n, timeOffset n, roundNumber n)"

lemma core_eq_iff:
  "core n' = core n \<longleftrightarrow> tasks n' = tasks n \<and> chans n' = chans n \<and>
     roundToResponseMap n' = roundToResponseMap n \<and> responses n' = responses n \<and>
     listening n' = listening n \<and> maps_made n' = maps_made n \<and> peers n' = peers n \<and>
     address n' = address n \<and> timeOffset n' = timeOffset n \<and> roundNumber n' = roundNumber n"
  by (auto simp: core_def)

lemma quiet_core: "quiet n n' \<Longrightarrow> core n' = core n"
  by (simp add: core_eq_iff quietD)

lemma core_updates [simp]:
  "core (n\<lparr>roundTripTime := m\<rparr>) = core n" "core (n\<lparr>syncClientTime := m\<rparr>) = core n"
  "core (n\<lparr>syncLocalTime := m\<rparr>) = core n" "core (n\<lparr>roundTripTimeMap := m\<rparr>) = core n"
  "core (n\<lparr>roundNumberRTT := i\<rparr>) = core n" "core (n\<lparr>roundNumberTime := i\<rparr>) = core n"
  by (simp_all add: core_def)

lemma foldR_core:
  assumes "\<And>n x n'. step n x = Inr n' \<Longrightarrow> core n' = core n"
  shows "foldR step n xs = Inr n' \<Longrightarrow> core n' = core n"
  by (rule foldR_invariant [where I = "\<lambda>x. core x = core n"]) (auto dest: assms)

lemma getRTT_core: "getRTT G E n a = Inr n' \<Longrightarrow> core n' = core n"
  by (auto simp: getRTT_def Let_def dest!: sendToAddr_quiet quiet_core)

lemma syncTime_core: "syncTime G E n a = Inr n' \<Longrightarrow> core n' = core n"
  by (auto simp: syncTime_def Let_def dest!: sendToAddr_quiet quiet_core)

lemma sendDiffTime_quiet: "sendDiffTime G E n a = Inr n' \<Longrightarrow> quiet n n'"
  by (auto simp: sendDiffTime_def Let_def dest: sendToAddr_quiet)

lemma getRTTs_core: "foldR (getRTT G E) n xs = Inr n' \<Longrightarrow> core n' = core n"
  by (rule foldR_core) (rule getRTT_core)

lemma sendDiffTimes_core: "foldR (sendDiffTime G E) n xs = Inr n' \<Longrightarrow> core n' = core n"
  by (rule foldR_core) (rule sendDiffTime_quiet [THEN quiet_core])

lemma handleRTT_core:
  "handleRTT G E n = Inr (n', ts) \<Longrightarrow> core n' = core n \<and> ts = [THandleRTT (Now E + 5 * Second)]"
  by (auto simp: handleRTT_def Let_def go_bind dest!: getRTTs_core)

lemma sync_request_core:
  "sync_request G E n = Inr (n', ts) \<Longrightarrow> core n' = core n \<and> ts = [TSyncDiff (Now E + 2 * Second)]"
  by (auto simp: sync_request_def go_bind dest!: foldR_core [rotated] dest: syncTime_core)

lemma sync_diff_core:
  "sync_diff G E n = Inr (n', ts) \<Longrightarrow> core n' = core n \<and> ts = [TSyncRequest (Now E + 4 * Second)]"
  by (auto simp: sync_diff_def Let_def go_bind dest!: sendDiffTimes_core)

section \<open>Invariants\<close>

locale node_invariant =
  fixes G :: "('g, message) govec" and ok :: "aenv \<Rightarrow> bool" and I :: "'g node \<Rightarrow> bool"
  assumes start: "I (node_start remote)"
    and act: "I n \<Longrightarrow> ok E \<Longrightarrow> node_act G n (E, a) = Inr n' \<Longrightarrow> I n'"
begin

lemma reachable_holds: "reachable G ok n \<Longrightarrow> I n"
  by (induction rule: reachable.induct) (auto intro: start act)

end

text \<open>
  References are in range: a channel of a goroutine exists, an open round has a response map of
  its own. Goroutines exist only after the initialisation, and a node is not its own peer.
\<close>

definition task_ok :: "'g node \<Rightarrow> task \<Rightarrow> bool" where
  "task_ok n t \<longleftrightarrow>
     (case t of
        TReceive c \<Rightarrow> c < length (chans n)
      | TProcess c \<Rightarrow> c < length (chans n)
      | TAssert f req k r assertTime wake \<Rightarrow> r < length (responses n)
      | _ \<Rightarrow> True)"

definition node_inv :: "'g node \<Rightarrow> bool" where
  "node_inv n \<longleftrightarrow>
     list_all (task_ok n) (tasks n) \<and>
     (\<forall>k r. gomap_get (roundToResponseMap n) k = Some r \<longrightarrow> r < length (responses n)) \<and>
     (\<forall>k k' r. gomap_get (roundToResponseMap n) k = Some r \<longrightarrow> gomap_get (roundToResponseMap n) k' = Some r \<longrightarrow> k = k') \<and>
     (tasks n \<noteq> [] \<longrightarrow> maps_made n) \<and>
     (maps_made n \<longrightarrow> listening n) \<and>
     timeOffset n = 0 \<and>
     (peers n \<noteq> [] \<longrightarrow> maps_made n) \<and>
     address n \<notin> set (peers n)"

lemma node_inv_start: "node_inv (node_start remote)"
  by (simp add: node_inv_def node_start_def)

lemma task_ok_core: "core n' = core n \<Longrightarrow> task_ok n' = task_ok n"
  by (simp add: fun_eq_iff core_eq_iff task_ok_def split: task.split)

lemma node_inv_core: "core n' = core n \<Longrightarrow> node_inv n' \<longleftrightarrow> node_inv n"
  using task_ok_core [of n' n] by (simp add: node_inv_def core_eq_iff)


lemma core_inv:
  "node_inv n \<Longrightarrow> core n' = core n \<Longrightarrow> node_inv n' \<and> tasks n' = tasks n \<and> task_ok n' = task_ok n \<and> chans n' = chans n"
  using node_inv_core [of n' n] task_ok_core [of n' n] by (simp add: core_eq_iff)

lemmas quiet_inv = core_inv [OF _ quiet_core]

lemma node_inv_spawn:
  "node_inv n \<Longrightarrow> maps_made n \<Longrightarrow> task_ok n t \<Longrightarrow> node_inv (spawn t n)"
  by (simp add: node_inv_def spawn_def task_ok_def [abs_def] cong: task.case_cong)

text \<open>What a turn of a goroutine leaves replaces it.\<close>

lemma node_inv_replace:
  assumes "node_inv n" "list_all (task_ok n) ts" "i < length (tasks n)"
  shows "node_inv (n\<lparr>tasks := take i (tasks n) @ ts @ drop (Suc i) (tasks n)\<rparr>)"
proof -
  have "set (take i (tasks n) @ ts @ drop (Suc i) (tasks n)) \<subseteq> set (tasks n) \<union> set ts"
    by (auto dest: in_set_takeD in_set_dropD)
  with assms show ?thesis
    by (auto simp: node_inv_def task_ok_def [abs_def] list_all_iff cong: task.case_cong)
qed

lemma processData_core:
  assumes "processData G E m n = Inr n'" "MessageType m \<notin> {ASSERT_REQUEST, ASSERT_RETURN}" "timeOffset n = 0"
  shows "core n' = core n"
  using assms(1,2)
proof (cases "MessageType m")
  case SYNC_REQUEST
  with assms(1,3) have "n' = n \<or> n' = n\<lparr>roundNumberTime := RoundNumber m\<rparr> \<or> n' = n\<lparr>roundNumberTime := RoundNumber m, timeOffset := 0\<rparr>"
    by (simp add: processData_def Let_def dur_add_def split: if_splits dyn.splits)
  with assms(3) show ?thesis by (elim disjE) (simp_all add: core_def)
qed (auto simp: processData_def Let_def go_bind dest!: sendToAddr_quiet quiet_core split: if_splits)

lemma processData_inv:
  assumes "node_inv n" "tasks n \<noteq> []" "processData G E m n = Inr n'"
  shows "node_inv n' \<and> (\<exists>ts. tasks n' = tasks n @ ts) \<and> task_ok n' = task_ok n"
proof (cases "MessageType m \<in> {ASSERT_REQUEST, ASSERT_RETURN}")
  case True
  with assms show ?thesis
    by (auto simp: processData_def go_bind node_inv_def spawn_def task_ok_def [abs_def] split: option.splits cong: task.case_cong)
next
  case False
  then have "core n' = core n" using processData_core [OF assms(3)] assms(1) by (simp add: node_inv_def)
  with assms(1) node_inv_core [of n' n] task_ok_core [of n' n] show ?thesis by (simp add: core_eq_iff)
qed


lemma delete_get: "gomap_get (AList.delete k m) k' = (if k' = k then None else gomap_get m k')"
  by (simp add: delete_conv')

lemma Assert_end_inv:
  assumes "node_inv n" "Assert_end G E f req k r t n = Inr (n', ts)"
  shows "node_inv n' \<and> list_all (task_ok n') ts \<and> tasks n' = tasks n"
proof -
  let ?n = "n\<lparr>roundToResponseMap := AList.delete k (roundToResponseMap n)\<rparr>"
  from assms(1) have "node_inv ?n"
    by (auto simp: node_inv_def delete_get task_ok_def [abs_def] split: if_splits cong: task.case_cong)
  from quiet_inv [OF this Assert_end_quiet(1) [OF assms(2)]] Assert_end_quiet(2) [OF assms(2)] show ?thesis
    by (auto simp: task_ok_def)
qed

lemma receiveConnections_inv:
  assumes "node_inv n" "c < length (chans n)" "receiveConnections G E c n = Inr (n', ts)"
  shows "node_inv n' \<and> list_all (task_ok n') ts \<and> tasks n' = tasks n"
proof -
  have upd: "node_inv (x\<lparr>chans := (chans x)[c := v]\<rparr>)" if "node_inv x" for x :: "'a node" and v
    using that by (simp add: node_inv_def task_ok_def [abs_def] cong: task.case_cong)
  show ?thesis
  proof (cases "chans n ! c = None \<and> ReadFromUDP E \<noteq> NoData")
    case False
    with assms have "n' = n" "ts = [TReceive c]" by (auto simp: receiveConnections_def split: if_splits)
    with assms show ?thesis by (simp add: task_ok_def)
  next
    case True
    show ?thesis
    proof (cases "ReadFromUDP E")
      case ReadError
      with True assms(3) have "quiet n n'" "ts = []"
        by (auto simp: receiveConnections_def go_bind intro: receive_quiet)
      with quiet_inv [OF assms(1), of n'] show ?thesis by simp
    next
      case (Datagram addr b)
      with True assms(3) obtain m x where "quiet n x" "n' = x\<lparr>chans := (chans x)[c := Some m]\<rparr>" "ts = [TReceive c]"
        by (auto simp: receiveConnections_def go_bind dest: receive_quiet)
      with upd [of x] assms(2) quiet_inv [OF assms(1), of x] show ?thesis by (simp add: task_ok_def)
    qed (use True in simp)
  qed
qed

lemma run_task_inv:
  assumes "node_inv n" "t \<in> set (tasks n)" "run_task G E t n = Inr (n', ts)"
  shows "node_inv n' \<and> list_all (task_ok n') ts \<and> (\<exists>us. tasks n' = tasks n @ us)"
proof (cases t)
  case (TReceive c)
  with assms have "c < length (chans n)" by (auto simp: node_inv_def list_all_iff task_ok_def)
  from receiveConnections_inv [OF assms(1) this] assms(3) TReceive show ?thesis by (simp add: run_task_def)
next
  case (TProcess c)
  have "node_inv (n\<lparr>chans := (chans n)[c := None]\<rparr>)" "task_ok (n\<lparr>chans := (chans n)[c := None]\<rparr>) = task_ok n"
    using assms(1) by (simp_all add: node_inv_def task_ok_def [abs_def] cong: task.case_cong)
  moreover have "task_ok n t" using assms(1,2) by (simp add: node_inv_def list_all_iff)
  moreover have "tasks n \<noteq> []" using assms(2) by auto
  ultimately show ?thesis
    using assms TProcess processData_inv [of "n\<lparr>chans := (chans n)[c := None]\<rparr>" G E _ n']
    by (auto simp: run_task_def go_bind split: option.splits)
next
  case (TAssert f req k r at wake)
  moreover have "task_ok n t" using assms(1,2) by (simp add: node_inv_def list_all_iff)
  ultimately show ?thesis using assms Assert_end_inv [of n G E f req k r at n' ts]
    by (auto simp: run_task_def split: if_splits)
next
  case (THandleAssert m)
  with assms show ?thesis by (auto simp: run_task_def go_bind handleAssert_def task_ok_def split: dyn.splits)
next
  case (TAnswer m to vs wake)
  with assms quiet_inv [OF assms(1) answerAssert_quiet, of G E m to vs n'] show ?thesis
    by (auto simp: run_task_def go_bind task_ok_def split: if_splits)
next
  case (TSend m a info)
  with assms quiet_inv [OF assms(1) sendToAddr_quiet, of G E m a info n'] show ?thesis
    by (auto simp: run_task_def go_bind)
qed (use assms core_inv [OF assms(1), of n'] in \<open>auto simp: run_task_def task_ok_def
       dest!: handleRTT_core sync_request_core sync_diff_core split: if_splits\<close>)



text \<open>The requests of an \<open>Assert\<close> are sent by goroutines of their own.\<close>

lemma spawn_requests:
  "foldl (\<lambda>n (a, v). spawn (TSend (assert_request n k t v) a info) n) n xs
   = n\<lparr>tasks := tasks n @ map (\<lambda>(a, v). TSend (assert_request n k t v) a info) xs\<rparr>"
  by (induction xs arbitrary: n) (auto simp: spawn_def assert_request_def)

definition request_tasks :: "aenv \<Rightarrow> 'g node \<Rightarrow> (string, string list) gomap \<Rightarrow> task list" where
  "request_tasks E n requestedValues =
     map (\<lambda>(a, v). TSend (assert_request n (roundNumber n) (Now E + timeOffset n + 10 * Millisecond) v) a ''Requesting Assertion'')
       [(a, v). a \<leftarrow> range_keys (host E) (map fst requestedValues), Some v \<leftarrow> [gomap_get requestedValues a]]"

lemma Assert_begin_result:
  assumes "Assert_begin G E f req n = Inr n'"
  obtains x where "quiet (n\<lparr>roundNumber := int_inc (roundNumber n)\<rparr>) x" and "maps_made n"
    and "n' = x\<lparr>responses := responses n @ [[]],
                roundToResponseMap := gomap_set (roundNumber n) (length (responses n)) (roundToResponseMap n),
                tasks := tasks n @ request_tasks E n req @
                  [TAssert f req (roundNumber n) (length (responses n)) (Now E + timeOffset n + 10 * Millisecond)
                     (Now E + 20 * Millisecond)]\<rparr>"
proof -
  let ?n = "n\<lparr>roundNumber := int_inc (roundNumber n)\<rparr>"
  from assms obtain x where x: "GetAssertDelay G E ?n = Inr (10 * Millisecond, x)" and m: "maps_made x"
    and n': "n' = spawn (TAssert f req (roundNumber n) (length (responses x)) (getTime E x + 10 * Millisecond) (Now E + 20 * Millisecond))
      (foldl (\<lambda>n' (a, v). spawn (TSend (assert_request n' (roundNumber n) (getTime E x + 10 * Millisecond) v) a ''Requesting Assertion'') n')
        (x\<lparr>responses := responses x @ [[]], roundToResponseMap := gomap_set (roundNumber n) (length (responses x)) (roundToResponseMap x)\<rparr>)
        [(a, v). a \<leftarrow> range_keys (host E) (map fst req), Some v \<leftarrow> [gomap_get req a]])"
    by (auto simp: Assert_begin_def Let_def go_bind getTime_def split: if_splits dest!: GetAssertDelay_quiet)
  from GetAssertDelay_quiet [OF x] have q: "quiet ?n x" by simp
  then have "maps_made n" "n' = x\<lparr>responses := responses n @ [[]],
                roundToResponseMap := gomap_set (roundNumber n) (length (responses n)) (roundToResponseMap n),
                tasks := tasks n @ request_tasks E n req @
                  [TAssert f req (roundNumber n) (length (responses n)) (Now E + timeOffset n + 10 * Millisecond)
                     (Now E + 20 * Millisecond)]\<rparr>"
    using m n' unfolding spawn_requests
    by (simp_all add: quietD [OF q] spawn_def getTime_def request_tasks_def assert_request_def)
  with q that show thesis by blast
qed



lemma Assert_begin_inv:
  assumes "node_inv n" "Assert_begin G E f req n = Inr n'"
  shows "node_inv n'"
proof -
  from Assert_begin_result [OF assms(2)] obtain x where
    q: "quiet (n\<lparr>roundNumber := int_inc (roundNumber n)\<rparr>) x" and m: "maps_made n" and
    n': "n' = x\<lparr>responses := responses n @ [[]],
                roundToResponseMap := gomap_set (roundNumber n) (length (responses n)) (roundToResponseMap n),
                tasks := tasks n @ request_tasks E n req @
                  [TAssert f req (roundNumber n) (length (responses n)) (Now E + timeOffset n + 10 * Millisecond)
                     (Now E + 20 * Millisecond)]\<rparr>" .
  have "list_all (task_ok n') (request_tasks E n req)"
    by (auto simp: request_tasks_def list_all_iff task_ok_def)
  moreover have "task_ok n t \<Longrightarrow> task_ok n' t" for t
    using quietD [OF q] n' by (auto simp: task_ok_def split: task.splits)
  ultimately have "list_all (task_ok n') (tasks n')"
    using assms(1) n' by (auto simp: node_inv_def list_all_iff task_ok_def [of _ "TAssert _ _ _ _ _ _"])
  moreover have "r < length (responses n)" if "gomap_get (roundToResponseMap n) k = Some r" for k r
    using assms(1) that by (auto simp: node_inv_def)
  ultimately show ?thesis
    using assms(1) m quietD [OF q] n' by (auto simp: node_inv_def gomap_simps split: if_splits)
      (metis less_irrefl less_SucI)+
qed



definition init_node :: "aenv \<Rightarrow> string \<Rightarrow> 'g rt_state \<Rightarrow> string \<Rightarrow> string list \<Rightarrow> 'g node \<Rightarrow> 'g node" where
  "init_node E addr s a ps n =
     n\<lparr>rt := s, address := a, peers := ps, listening := True, maps_made := True,
       assertableDictionary := [], assertableFunctions := [], chans := chans n @ [None],
       syncClientTime := [], syncLocalTime := [], roundTripTime := [],
       roundTripTimeMap := foldl (\<lambda>m v. gomap_set v Second m) [] ps, roundToResponseMap := [],
       tasks := tasks n @ [TReceive (length (chans n)), TProcess (length (chans n))]
         @ (if list_all (\<lambda>v. \<not> v < addr) ps then [TSyncRequest (Now E + 4 * Second)] else [])
         @ [THandleRTT (Now E + 5 * Second)]\<rparr>"

lemma InitDistributedAssert_result:
  assumes "InitDistributedAssert G E addr assertPeers n = Inr n'"
  obtains s a ps where "initDinv G (host E) '''' (rt n) = Inr s" "assert_address E addr = Inr a"
    "assert_peers E assertPeers = Inr ps" "n' = init_node E addr s a (filter (\<lambda>p. p \<noteq> a) ps) n"
proof -
  from assms obtain s a ps where *: "initDinv G (host E) '''' (rt n) = Inr s" "assert_address E addr = Inr a"
    "assert_peers E assertPeers = Inr ps" unfolding InitDistributedAssert_def go_bind by blast
  with assms have "n' = init_node E addr s a (filter (\<lambda>p. p \<noteq> a) ps) n"
    by (simp add: InitDistributedAssert_def Let_def spawn_def init_node_def split: if_splits)
  with * that show thesis by blast
qed

lemma InitDistributedAssert_inv:
  assumes "node_inv n" "InitDistributedAssert G E addr assertPeers n = Inr n'"
  shows "node_inv n'"
proof -
  from InitDistributedAssert_result [OF assms(2)] obtain s a ps where
    n': "n' = init_node E addr s a (filter (\<lambda>p. p \<noteq> a) ps) n" by blast
  have "task_ok n t \<Longrightarrow> task_ok n' t" for t
    using n' by (auto simp: init_node_def task_ok_def split: task.splits)
  with assms(1) have "list_all (task_ok n') (tasks n)" by (auto simp: node_inv_def list_all_iff)
  then have "list_all (task_ok n') (tasks n')" unfolding n' by (simp add: init_node_def task_ok_def)
  with assms(1) show ?thesis unfolding n' by (simp add: init_node_def node_inv_def)
qed

lemma AddAssertable_core: "AddAssertable name p f n = Inr n' \<Longrightarrow> core n' = core n"
  by (auto simp: AddAssertable_def core_def split: dyn.splits if_splits)

lemma node_act_inv:
  assumes "node_inv n" "node_act G n (E, a) = Inr n'"
  shows "node_inv n'"
proof (cases a)
  case (ARun i)
  show ?thesis
  proof (cases "i < length (tasks n)")
    case True
    with assms(2) ARun obtain x ts where x: "run_task G E (tasks n ! i) n = Inr (x, ts)"
      and n': "n' = x\<lparr>tasks := take i (tasks x) @ ts @ drop (Suc i) (tasks x)\<rparr>"
      by (auto simp: node_act_def go_bind)
    have "node_inv x" "list_all (task_ok x) ts" "i < length (tasks x)"
      using run_task_inv [OF assms(1) nth_mem [OF True] x] True by auto
    then show ?thesis unfolding n' by (rule node_inv_replace)
  qed (use assms ARun in \<open>simp add: node_act_def\<close>)
next
  case (AInit addr ps)
  with assms show ?thesis by (auto simp: node_act_def intro: InitDistributedAssert_inv)
next
  case (AAdd name p f)
  with assms AddAssertable_core [of name p f n n'] core_inv [of n n'] show ?thesis by (simp add: node_act_def)
next
  case (AAssert f req)
  with assms show ?thesis by (auto simp: node_act_def intro: Assert_begin_inv)
qed

interpretation refs: node_invariant G "\<lambda>_. True" node_inv for G :: "('g, message) govec"
  by unfold_locales (rule node_inv_start, rule node_act_inv)



section \<open>The window of an assertion\<close>

text \<open>The message that a turn of \<open>processData\<close> takes from its channel, and all that a schedule takes.\<close>

definition delivered :: "'g node \<Rightarrow> action \<Rightarrow> message option" where
  "delivered n a =
     (case a of
        ARun i \<Rightarrow> if i < length (tasks n)
                  then (case tasks n ! i of TProcess c \<Rightarrow> chans n ! c | _ \<Rightarrow> None)
                  else None
      | _ \<Rightarrow> None)"

fun taken :: "('g, message) govec \<Rightarrow> 'g node \<Rightarrow> (aenv \<times> action) list \<Rightarrow> message list" where
  "taken G n [] = []"
| "taken G n ((E, a) # eas) =
     (case node_act G n (E, a) of
        Inl e \<Rightarrow> []
      | Inr n' \<Rightarrow> (case delivered n a of None \<Rightarrow> [] | Some m \<Rightarrow> [m]) @ taken G n' eas)"

text \<open>The answers to a round: the last one of every node counts.\<close>

definition hear :: "int \<Rightarrow> response_map \<Rightarrow> message \<Rightarrow> response_map" where
  "hear k m msg =
     (if MessageType msg = ASSERT_RETURN \<and> RoundNumber msg = k
      then (case returned_values (Result msg) of Inr vs \<Rightarrow> gomap_set (RequestingNode msg) vs m | Inl e \<Rightarrow> m)
      else m)"

lemma processData_responses:
  assumes "node_inv n" "processData G E m n = Inr n'"
  shows "roundToResponseMap n' = roundToResponseMap n" "length (responses n') = length (responses n)"
    "gomap_get (roundToResponseMap n) k = Some r \<Longrightarrow> responses n' ! r = hear k (responses n ! r) m"
proof -
  have "roundToResponseMap n' = roundToResponseMap n \<and> length (responses n') = length (responses n) \<and>
    (gomap_get (roundToResponseMap n) k = Some r \<longrightarrow> responses n' ! r = hear k (responses n ! r) m)"
  proof (cases "MessageType m \<in> {ASSERT_REQUEST, ASSERT_RETURN}")
    case True
    have "r < length (responses n)" if "gomap_get (roundToResponseMap n) k = Some r" for k r
      using assms(1) that by (auto simp: node_inv_def)
    moreover have "k = k'" if "gomap_get (roundToResponseMap n) k = Some r" "gomap_get (roundToResponseMap n) k' = Some r" for k k' r
      using assms(1) that unfolding node_inv_def by blast
    ultimately show ?thesis
      using True assms(2)
      by (auto simp: processData_def go_bind spawn_def hear_def nth_list_update split: option.splits)
  next
    case False
    then have "core n' = core n" using processData_core [OF assms(2)] assms(1) by (simp add: node_inv_def)
    with False show ?thesis by (auto simp: core_eq_iff hear_def)
  qed
  then show "roundToResponseMap n' = roundToResponseMap n" "length (responses n') = length (responses n)"
    "gomap_get (roundToResponseMap n) k = Some r \<Longrightarrow> responses n' ! r = hear k (responses n ! r) m"
    by simp_all
qed



lemma receiveConnections_responses:
  assumes "receiveConnections G E c n = Inr (n', ts)"
  shows "roundToResponseMap n' = roundToResponseMap n \<and> responses n' = responses n"
proof (cases "chans n ! c = None \<and> ReadFromUDP E \<noteq> NoData")
  case False
  with assms show ?thesis by (auto simp: receiveConnections_def split: if_splits)
next
  case True
  with assms show ?thesis
    by (cases "ReadFromUDP E") (auto simp: receiveConnections_def go_bind quietD dest!: receive_quiet)
qed

lemma run_task_other_responses:
  assumes "run_task G E t n = Inr (n', ts)" "\<forall>c. t \<noteq> TProcess c"
  shows "responses n' = responses n \<and> (\<exists>ks. roundToResponseMap n' = fold AList.delete ks (roundToResponseMap n))"
proof (cases t)
  case (TAssert f req k r at wake)
  show ?thesis
  proof (cases "Now E < wake")
    case False
    with assms TAssert have "Assert_end G E f req k r at n = Inr (n', ts)" by (simp add: run_task_def)
    from quietD [OF Assert_end_quiet(1) [OF this]] show ?thesis by (auto intro: exI [of _ "[k]"])
  qed (use assms TAssert in \<open>auto simp: run_task_def intro: exI [of _ "[]"]\<close>)
next
  case (TReceive c)
  with assms receiveConnections_responses [of G E c n n' ts] show ?thesis
    by (auto simp: run_task_def intro: exI [of _ "[]"])
qed (use assms in \<open>auto simp: run_task_def go_bind quietD core_eq_iff
       dest!: handleRTT_core sync_request_core sync_diff_core answerAssert_quiet sendToAddr_quiet
       split: if_splits intro: exI [of _ "[]"]\<close>)

lemma fold_delete_get: "gomap_get (fold AList.delete ks m) k = Some r \<Longrightarrow> gomap_get m k = Some r"
proof (induction ks arbitrary: m)
  case (Cons a ks)
  from Cons.IH [of "AList.delete a m"] Cons.prems show ?case by (simp add: delete_get split: if_splits)
qed simp

lemma node_act_responses:
  assumes inv: "node_inv n" and act: "node_act G n (E, a) = Inr n'" and r: "r < length (responses n)"
  shows "length (responses n) \<le> length (responses n')"
    and "gomap_get (roundToResponseMap n') k = Some r \<Longrightarrow>
      gomap_get (roundToResponseMap n) k = Some r \<and>
      responses n' ! r = (case delivered n a of None \<Rightarrow> responses n ! r | Some m \<Rightarrow> hear k (responses n ! r) m)"
proof -
  have "length (responses n) \<le> length (responses n') \<and> (gomap_get (roundToResponseMap n') k = Some r \<longrightarrow>
      gomap_get (roundToResponseMap n) k = Some r \<and>
      responses n' ! r = (case delivered n a of None \<Rightarrow> responses n ! r | Some m \<Rightarrow> hear k (responses n ! r) m))"
  proof (cases a)
    case (ARun i)
    show ?thesis
    proof (cases "i < length (tasks n)")
      case True
      with act ARun obtain x ts where x: "run_task G E (tasks n ! i) n = Inr (x, ts)"
        and n': "responses n' = responses x" "roundToResponseMap n' = roundToResponseMap x"
        by (auto simp: node_act_def go_bind)
      show ?thesis
      proof (cases "\<exists>c m. tasks n ! i = TProcess c \<and> chans n ! c = Some m")
        case True
        then obtain c m where c: "tasks n ! i = TProcess c" "chans n ! c = Some m" by blast
        let ?n = "n\<lparr>chans := (chans n)[c := None]\<rparr>"
        have "node_inv ?n" using inv by (simp add: node_inv_def task_ok_def [abs_def] cong: task.case_cong)
        moreover from x c have "processData G E m ?n = Inr x" by (auto simp: run_task_def go_bind)
        ultimately have "roundToResponseMap x = roundToResponseMap ?n" "length (responses x) = length (responses ?n)"
          "gomap_get (roundToResponseMap ?n) k = Some r \<longrightarrow> responses x ! r = hear k (responses ?n ! r) m"
          using processData_responses by blast+
        then show ?thesis
          using c n' ARun \<open>i < length (tasks n)\<close> by (simp add: delivered_def)
      next
        case False
        then have "responses x = responses n \<and> (\<exists>ks. roundToResponseMap x = fold AList.delete ks (roundToResponseMap n))"
          using run_task_other_responses [OF x] x
          by (cases "\<forall>c. tasks n ! i \<noteq> TProcess c") (auto simp: run_task_def intro: exI [of _ "[]"])
        moreover have "delivered n a = None" using False ARun by (auto simp: delivered_def split: task.splits)
        ultimately show ?thesis using n' by (auto dest: fold_delete_get)
      qed
    qed (use act ARun in \<open>simp add: node_act_def delivered_def\<close>)
  next
    case (AInit addr ps)
    with act have "InitDistributedAssert G E addr ps n = Inr n'" by (simp add: node_act_def)
    then obtain s a' ps' where "n' = init_node E addr s a' ps' n" by (rule InitDistributedAssert_result)
    then show ?thesis by (simp add: init_node_def)
  next
    case (AAdd name p f)
    with act AddAssertable_core [of name p f n n'] show ?thesis by (simp add: node_act_def core_eq_iff delivered_def)
  next
    case (AAssert f req)
    with act have "Assert_begin G E f req n = Inr n'" by (simp add: node_act_def)
    then obtain x xs where "quiet (n\<lparr>roundNumber := int_inc (roundNumber n)\<rparr>) x" and
      "n' = x\<lparr>responses := responses n @ [[]],
              roundToResponseMap := gomap_set (roundNumber n) (length (responses n)) (roundToResponseMap n), tasks := xs\<rparr>"
      by (rule Assert_begin_result)
    with r AAssert show ?thesis by (simp add: gomap_simps delivered_def nth_append)
  qed
  then show "length (responses n) \<le> length (responses n')"
    and "gomap_get (roundToResponseMap n') k = Some r \<Longrightarrow>
      gomap_get (roundToResponseMap n) k = Some r \<and>
      responses n' ! r = (case delivered n a of None \<Rightarrow> responses n ! r | Some m \<Rightarrow> hear k (responses n ! r) m)"
    by simp_all
qed



lemma node_run_responses:
  assumes "node_inv n" "r < length (responses n)" "node_run G n eas = Inr n'"
    "gomap_get (roundToResponseMap n') k = Some r"
  shows "gomap_get (roundToResponseMap n) k = Some r \<and> responses n' ! r = foldl (hear k) (responses n ! r) (taken G n eas)"
  using assms
proof (induction eas arbitrary: n)
  case (Cons ea eas)
  obtain E a where ea: "ea = (E, a)" by (cases ea)
  with Cons.prems obtain x where x: "node_act G n (E, a) = Inr x" and run: "node_run G x eas = Inr n'"
    by (auto simp: node_run_def go_bind)
  note step = node_act_responses [OF Cons.prems(1) x Cons.prems(2)]
  from step(1) Cons.prems(2) have "r < length (responses x)" by simp
  from Cons.IH [OF node_act_inv [OF Cons.prems(1) x] this run Cons.prems(4)] step(2) [of k]
  show ?case by (cases "delivered n a") (simp_all add: ea x)
qed (simp add: node_run_def)

section \<open>The end of an assertion\<close>

lemma sendToAddr_sent:
  assumes "sendToAddr G E m a info n = Inr n'" "listening n"
  shows "\<exists>to g. ResolveUDPAddr E a = Some to \<and> sent n' = sent n @ [(to, fst (PrepareSend G g info m))]"
  using assms
  by (auto simp: sendToAddr_def go_bind PackM_def send_event_def Let_def split_def split: option.splits)

lemma node_Local_sent: "node_Local G E msg n = Inr n' \<Longrightarrow> sent n' = sent n"
  by (auto simp: node_Local_def go_bind)

text \<open>Datagrams to the given addresses, in order, each with an encoding of the message.\<close>

definition announces :: "('g, message) govec \<Rightarrow> aenv \<Rightarrow> string list \<Rightarrow> string \<Rightarrow> message \<Rightarrow> (string \<times> bytes) list \<Rightarrow> bool" where
  "announces G E as info m ds \<longleftrightarrow>
     list_all2 (\<lambda>a d. ResolveUDPAddr E a = Some (fst d) \<and> (\<exists>g. snd d = fst (PrepareSend G g info m))) as ds"

lemma send_failed_sent:
  assumes "foldR (\<lambda>n a. sendToAddr G E (assert_failed n k t) a info n) n as = Inr n'" "listening n"
  shows "\<exists>ds. sent n' = sent n @ ds \<and> announces G E as info (assert_failed n k t) ds"
  using assms
proof (induction as arbitrary: n)
  case (Cons a as)
  then obtain x where x: "sendToAddr G E (assert_failed n k t) a info n = Inr x"
    and run: "foldR (\<lambda>n a. sendToAddr G E (assert_failed n k t) a info n) x as = Inr n'" by (auto simp: go_bind)
  from sendToAddr_quiet [OF x] Cons.prems(2) have l: "listening x" and f: "assert_failed x k t = assert_failed n k t"
    by (simp_all add: quietD assert_failed_def)
  from sendToAddr_sent [OF x Cons.prems(2)] obtain to g where
    d: "ResolveUDPAddr E a = Some to" "sent x = sent n @ [(to, fst (PrepareSend G g info (assert_failed n k t)))]" by blast
  from Cons.IH [OF run l] f obtain ds where "sent n' = sent x @ ds" "announces G E as info (assert_failed n k t) ds" by auto
  with d show ?case
    by (intro exI [of _ "(to, fst (PrepareSend G g info (assert_failed n k t))) # ds"]) (auto simp: announces_def)
qed (simp add: announces_def)

lemma Assert_end_sent:
  assumes "Assert_end G E f req k r t n = Inr (n', ts)" "listening n"
  shows "if f (responses n ! r) then sent n' = sent n \<and> ts = []
    else (\<exists>ds. sent n' = sent n @ ds \<and> announces G E (range_keys (host E) (map fst req)) ''Assertion Failed'' (assert_failed n k t) ds)
      \<and> ts = [TExit (Now E + 10 * Millisecond)]"
proof (cases "f (responses n ! r)")
  case True
  with assms show ?thesis by (auto simp: Assert_end_def Let_def go_bind dest: node_Local_sent)
next
  case False
  let ?n = "n\<lparr>roundToResponseMap := AList.delete k (roundToResponseMap n)\<rparr>"
  from False assms(1) obtain x where x: "node_Local G E (''ASSERTION FAILED: '' @ show_responses E (responses n ! r)) ?n = Inr x"
    and run: "foldR (\<lambda>n a. sendToAddr G E (assert_failed n k t) a ''Assertion Failed'' n) x (range_keys (host E) (map fst req)) = Inr n'"
    and ts: "ts = [TExit (Now E + 10 * Millisecond)]"
    by (auto simp: Assert_end_def Let_def go_bind)
  have "listening x" "assert_failed x k t = assert_failed n k t"
    using quietD [OF node_Local_quiet [OF x]] assms(2) by (simp_all add: assert_failed_def)
  with send_failed_sent [OF run] node_Local_sent [OF x] ts False show ?thesis by simp
qed



section \<open>Clock synchronisation\<close>

text \<open>
  \<open>Sub\<close> saturates after about 292 years, so that the distance of a time after the year 439 to the
  zero time, or to half the largest duration, is the largest duration.
\<close>

definition modern :: "aenv \<Rightarrow> bool" where
  "modern E \<longleftrightarrow> 2 ^ 63 + 2 ^ 62 \<le> Now E"

lemma time_Sub_modern:
  "2 ^ 63 - 1 + u \<le> t \<Longrightarrow> time_Sub t u = 2 ^ 63 - 1"
  by (simp add: time_Sub_def)

definition sync_inv :: "'g node \<Rightarrow> bool" where
  "sync_inv n \<longleftrightarrow>
     (\<forall>p t. gomap_get (roundTripTime n) p = Some t \<longrightarrow> 2 ^ 63 + 2 ^ 62 \<le> t) \<and>
     (\<forall>p t. gomap_get (syncLocalTime n) p = Some t \<longrightarrow> 0 \<le> t) \<and>
     (\<forall>p t. gomap_get (syncClientTime n) p = Some t \<longrightarrow>
        gomap_get0 (syncLocalTime n) p = 2 ^ 62 - 1 \<and> (t = 0 \<or> 2 ^ 63 + 2 ^ 62 \<le> t))"

definition clocks :: "'g node \<Rightarrow> _" where
  "clocks n = (roundTripTime n, syncLocalTime n, syncClientTime n)"

lemma clocks_eq_iff:
  "clocks n' = clocks n \<longleftrightarrow> roundTripTime n' = roundTripTime n \<and> syncLocalTime n' = syncLocalTime n \<and> syncClientTime n' = syncClientTime n"
  by (auto simp: clocks_def)

lemma sync_inv_clocks: "sync_inv n \<Longrightarrow> clocks n' = clocks n \<Longrightarrow> sync_inv n'"
  by (simp add: sync_inv_def clocks_eq_iff)

lemma quiet_clocks: "quiet n n' \<Longrightarrow> clocks n' = clocks n"
  by (simp add: clocks_eq_iff quietD)

lemma sync_inv_return:
  assumes "sync_inv n" "modern E"
  shows "sync_inv (n\<lparr>syncClientTime := gomap_set p (gomap_get0 (roundTripTime n) p) (syncClientTime n),
    syncLocalTime := gomap_set p (0 + dur_half (time_Sub (gomap_get0 (syncLocalTime n) p + time_Sub (Now E) 0) 0)) (syncLocalTime n)\<rparr>)"
proof -
  have "0 \<le> gomap_get0 (syncLocalTime n) p"
    using assms(1) by (auto simp: gomap_get0_def sync_inv_def split: option.split)
  then have "time_Sub (gomap_get0 (syncLocalTime n) p + time_Sub (Now E) 0) 0 = 2 ^ 63 - 1"
    using assms(2) by (simp add: time_Sub_def modern_def)
  then have "dur_half (time_Sub (gomap_get0 (syncLocalTime n) p + time_Sub (Now E) 0) 0) = 2 ^ 62 - 1"
    by (simp add: dur_half_def)
  moreover have "gomap_get0 (roundTripTime n) p = 0 \<or> 2 ^ 63 + 2 ^ 62 \<le> gomap_get0 (roundTripTime n) p"
    using assms(1) by (auto simp: gomap_get0_def sync_inv_def split: option.split)
  ultimately show ?thesis using assms(1) by (auto simp: sync_inv_def gomap_simps split: if_splits)
qed

lemma processData_sync_inv:
  assumes "sync_inv n" "timeOffset n = 0" "modern E" "processData G E m n = Inr n'"
  shows "sync_inv n'"
proof (cases "MessageType m = TIME_RETURN")
  case True
  with assms sync_inv_return [OF assms(1,3), of "RequestingNode m"] show ?thesis
    by (auto simp: processData_def getTime_def)
next
  case False
  have "clocks n' = clocks n"
  proof (cases "MessageType m")
    case SYNC_REQUEST
    with assms(4) show ?thesis by (auto simp: processData_def Let_def clocks_def split: if_splits dyn.splits)
  qed (use False assms(4) in \<open>auto simp: processData_def Let_def go_bind clocks_eq_iff spawn_def quietD
         dest!: sendToAddr_quiet split: option.splits if_splits\<close>)
  with assms(1) show ?thesis by (rule sync_inv_clocks)
qed



definition synced :: "'g node \<Rightarrow> bool" where
  "synced n \<longleftrightarrow> sync_inv n \<and> timeOffset n = 0"

lemma getRTT_synced:
  assumes "synced n" "modern E" "getRTT G E n a = Inr n'"
  shows "synced n'"
proof -
  have "sync_inv (n\<lparr>roundTripTime := gomap_set a (getTime E n) (roundTripTime n)\<rparr>)"
    using assms(1,2) by (auto simp: synced_def sync_inv_def gomap_simps getTime_def modern_def)
  moreover have "timeOffset n' = timeOffset n" using getRTT_core [OF assms(3)] by (simp add: core_eq_iff)
  ultimately show ?thesis
    using assms(1,3) by (auto simp: getRTT_def Let_def synced_def dest!: sendToAddr_quiet quiet_clocks intro: sync_inv_clocks)
qed

lemma syncTime_synced:
  assumes "synced n" "modern E" "syncTime G E (n\<lparr>syncClientTime := AList.delete a (syncClientTime n)\<rparr>) a = Inr n'"
  shows "synced n'"
proof -
  let ?n = "n\<lparr>syncClientTime := AList.delete a (syncClientTime n)\<rparr>"
  have "sync_inv (?n\<lparr>syncLocalTime := gomap_set a (getTime E ?n) (syncLocalTime ?n)\<rparr>)"
    using assms(1,2) by (auto simp: synced_def sync_inv_def gomap_simps delete_get getTime_def modern_def split: if_splits)
  moreover have "timeOffset n' = timeOffset n" using syncTime_core [OF assms(3)] by (simp add: core_eq_iff)
  ultimately show ?thesis
    using assms(1,3) by (auto simp: syncTime_def Let_def synced_def dest!: sendToAddr_quiet quiet_clocks intro: sync_inv_clocks)
qed

lemma timers_synced:
  assumes "synced n" "modern E"
  shows "handleRTT G E n = Inr (n', ts) \<Longrightarrow> synced n'"
    and "sync_request G E n = Inr (n', ts) \<Longrightarrow> synced n'"
    and "sync_diff G E n = Inr (n', ts) \<Longrightarrow> synced n'"
proof -
  show "synced n'" if "handleRTT G E n = Inr (n', ts)"
  proof (rule foldR_invariant [where I = synced])
    show "foldR (getRTT G E) (n\<lparr>roundNumberRTT := int_inc (roundNumberRTT n)\<rparr>) (peers n) = Inr n'"
      using that by (auto simp: handleRTT_def Let_def go_bind)
    show "synced (n\<lparr>roundNumberRTT := int_inc (roundNumberRTT n)\<rparr>)"
      using assms(1) by (simp add: synced_def sync_inv_def)
  qed (rule getRTT_synced [OF _ assms(2)])
  show "synced n'" if "sync_request G E n = Inr (n', ts)"
  proof (rule foldR_invariant [where I = synced])
    show "foldR (\<lambda>n v. syncTime G E (n\<lparr>syncClientTime := AList.delete v (syncClientTime n)\<rparr>) v) n (peers n) = Inr n'"
      using that by (auto simp: sync_request_def go_bind)
  qed (rule syncTime_synced [OF _ assms(2)], assumption+, rule assms(1))
  show "synced n'" if "sync_diff G E n = Inr (n', ts)"
  proof -
    let ?n = "n\<lparr>roundNumberTime := int_inc (roundNumberTime n)\<rparr>"
    have "quiet ?n n'"
    proof (rule foldR_quiet)
      show "foldR (sendDiffTime G E) ?n (range_keys (host E) (map fst (syncClientTime n))) = Inr n'"
        using that by (auto simp: sync_diff_def Let_def go_bind)
    qed (rule sendDiffTime_quiet)
    with assms(1) show ?thesis
      by (auto simp: synced_def quietD clocks_eq_iff intro: sync_inv_clocks [of n])
  qed
qed

lemma receiveConnections_synced:
  assumes "synced n" "receiveConnections G E c n = Inr (n', ts)"
  shows "synced n'"
proof -
  have "clocks n' = clocks n \<and> timeOffset n' = timeOffset n"
    using assms(2)
    by (cases "chans n ! c"; cases "ReadFromUDP E")
      (auto simp: receiveConnections_def go_bind clocks_eq_iff quietD dest!: receive_quiet)
  with assms(1) show ?thesis by (auto simp: synced_def intro: sync_inv_clocks)
qed



lemma processData_offset:
  assumes "timeOffset n = 0" "processData G E m n = Inr n'"
  shows "timeOffset n' = 0"
proof (cases "MessageType m \<in> {ASSERT_REQUEST, ASSERT_RETURN}")
  case True
  with assms show ?thesis by (auto simp: processData_def go_bind spawn_def split: option.splits)
next
  case False
  from processData_core [OF assms(2) False assms(1)] assms(1) show ?thesis by (simp add: core_eq_iff)
qed

lemma synced_quiet: "synced n \<Longrightarrow> quiet n n' \<Longrightarrow> synced n'"
  by (auto simp: synced_def quietD intro: sync_inv_clocks quiet_clocks)

lemma run_task_synced:
  assumes "synced n" "modern E" "run_task G E t n = Inr (n', ts)"
  shows "synced n'"
proof (cases t)
  case (TReceive c)
  with assms receiveConnections_synced show ?thesis by (auto simp: run_task_def)
next
  case (TProcess c)
  show ?thesis
  proof (cases "chans n ! c")
    case (Some m)
    let ?n = "n\<lparr>chans := (chans n)[c := None]\<rparr>"
    have n: "sync_inv ?n" "timeOffset ?n = 0" using assms(1) by (simp_all add: synced_def sync_inv_def)
    from Some TProcess assms(3) have p: "processData G E m ?n = Inr n'" by (auto simp: run_task_def go_bind)
    from processData_sync_inv [OF n assms(2) p] processData_offset [OF n(2) p] show ?thesis by (simp add: synced_def)
  qed (use assms TProcess in \<open>simp add: run_task_def\<close>)
next
  case (TAssert f req k r at wake)
  show ?thesis
  proof (cases "Now E < wake")
    case False
    with TAssert assms have "Assert_end G E f req k r at n = Inr (n', ts)" by (simp add: run_task_def)
    note Assert_end_quiet(1) [OF this]
    moreover have "synced (n\<lparr>roundToResponseMap := m\<rparr>)" for m using assms(1) by (simp add: synced_def sync_inv_def)
    ultimately show ?thesis using synced_quiet by blast
  qed (use assms TAssert in \<open>simp add: run_task_def\<close>)
qed (use assms timers_synced [OF assms(1,2)] in
     \<open>auto simp: run_task_def go_bind split: if_splits
        intro: synced_quiet [OF assms(1) answerAssert_quiet] synced_quiet [OF assms(1) sendToAddr_quiet]\<close>)

lemma node_act_synced:
  assumes "synced n" "modern E" "node_act G n (E, a) = Inr n'"
  shows "synced n'"
proof (cases a)
  case (ARun i)
  show ?thesis
  proof (cases "i < length (tasks n)")
    case True
    with ARun assms(3) obtain x ts where "run_task G E (tasks n ! i) n = Inr (x, ts)"
      and n': "n' = x\<lparr>tasks := take i (tasks x) @ ts @ drop (Suc i) (tasks x)\<rparr>"
      by (auto simp: node_act_def go_bind)
    with run_task_synced [OF assms(1,2)] have "synced x" by blast
    then show ?thesis unfolding n' by (simp add: synced_def sync_inv_def)
  qed (use ARun assms in \<open>simp add: node_act_def\<close>)
next
  case (AInit addr ps)
  with assms(3) have "InitDistributedAssert G E addr ps n = Inr n'" by (simp add: node_act_def)
  then obtain s b ps' where "n' = init_node E addr s b ps' n" by (rule InitDistributedAssert_result)
  with assms(1) show ?thesis by (simp add: init_node_def synced_def sync_inv_def)
next
  case (AAdd name p f)
  with assms(3) obtain d fs where n': "n' = n\<lparr>assertableDictionary := d, assertableFunctions := fs\<rparr>"
    by (auto simp: node_act_def AddAssertable_def split: dyn.splits if_splits)
  from assms(1) show ?thesis unfolding n' by (simp add: synced_def sync_inv_def)
next
  case (AAssert f req)
  with assms(3) have "Assert_begin G E f req n = Inr n'" by (simp add: node_act_def)
  then obtain x rs m ts where q: "quiet (n\<lparr>roundNumber := int_inc (roundNumber n)\<rparr>) x"
    and n': "n' = x\<lparr>responses := rs, roundToResponseMap := m, tasks := ts\<rparr>" by (rule Assert_begin_result)
  from assms(1) have "synced (n\<lparr>roundNumber := int_inc (roundNumber n)\<rparr>)" by (simp add: synced_def sync_inv_def)
  from synced_quiet [OF this q] show ?thesis unfolding n' by (simp add: synced_def sync_inv_def)
qed

interpretation sync: node_invariant G modern synced for G :: "('g, message) govec"
proof unfold_locales
  show "synced (node_start remote)" for remote by (simp add: node_start_def synced_def sync_inv_def)
qed (rule node_act_synced)



section \<open>Properties\<close>

text \<open>A concrete node: the logger writes and reads a fixed answer, every address resolves to itself.\<close>

definition fixed_govec :: "message \<Rightarrow> (nat, message) govec" where
  "fixed_govec m =
     \<lparr>InitGoVector = (\<lambda>_ _. 1), PrepareSend = (\<lambda>g _ _. ([], g + 1)), UnpackReceive = (\<lambda>g _ _. (m, g + 1)),
      LogLocalEvent = (\<lambda>g _. g + 1), GetCurrentVC = (\<lambda>g. [of_nat g])\<rparr>"

definition node_env :: "int \<Rightarrow> udp_read \<Rightarrow> aenv" where
  "node_env t d =
     \<lparr>host = \<lparr>Getenv = (\<lambda>_. ''x''), Nanosecond = 7, create_ok = (\<lambda>_. True), dial_ok = (\<lambda>_. True),
        stack_matches = [], encode_other = (\<lambda>_. False), marshal_state = (\<lambda>_. Some []), marshal_trace = (\<lambda>_. []),
        msg_fields = (\<lambda>_. []), marshal_fields = (\<lambda>_. []),
        rpc_Log = (\<lambda>r. \<lparr>Project = ''p'', Session = ''s'', LogNode = ''n''\<rparr>), range_keys = (\<lambda>ks. ks), Hash = (\<lambda>x. x)\<rparr>,
      Now = t, mem = (\<lambda>_. DInt64 0), ResolveUDPAddr = Some, ListenUDP = (\<lambda>_. True), ReadFromUDP = d,
      show_responses = (\<lambda>_. [])\<rparr>"

definition an_answer :: message where
  "an_answer = \<lparr>MessageType = ASSERT_RETURN, RequestingNode = ''b'', RoundNumber = 0, MessageTime = 0,
     Result = DMap [(DString ''v'', DInt64 5)]\<rparr>"

text \<open>
  C35: an \<open>Assert\<close> decides on exactly the answers of its window. However the goroutines of the
  node are scheduled after the call, as long as the round is open its response map is what
  the answers with this round number give that were taken from the channel since: the values
  of the last answer of every node, no answer of another round, nothing else. The round opens with an
  empty map and a goroutine that sleeps twice the assertion delay.
\<close>

theorem Assert_collects_answers:
  assumes "reachable G (\<lambda>_. True) n" "node_act G n (E, AAssert f req) = Inr n1" "node_run G n1 acts = Inr n2"
    "gomap_get (roundToResponseMap n2) (roundNumber n) = Some (length (responses n))"
  shows "responses n2 ! length (responses n) = foldl (hear (roundNumber n)) [] (taken G n1 acts)
    \<and> last (tasks n1) = TAssert f req (roundNumber n) (length (responses n)) (Now E + 10 * Millisecond) (Now E + 20 * Millisecond)"
proof -
  note inv = refs.reachable_holds [OF assms(1)]
  then have off: "timeOffset n = 0" by (simp add: node_inv_def)
  from assms(2) have "Assert_begin G E f req n = Inr n1" by (simp add: node_act_def)
  then obtain x where n1: "n1 = x\<lparr>responses := responses n @ [[]],
      roundToResponseMap := gomap_set (roundNumber n) (length (responses n)) (roundToResponseMap n),
      tasks := tasks n @ request_tasks E n req @
        [TAssert f req (roundNumber n) (length (responses n)) (Now E + timeOffset n + 10 * Millisecond) (Now E + 20 * Millisecond)]\<rparr>"
    by (rule Assert_begin_result)
  then have "length (responses n) < length (responses n1)" "responses n1 ! length (responses n) = []" by simp_all
  from node_run_responses [OF node_act_inv [OF inv assms(2)] this(1) assms(3,4)] this(2) n1 off show ?thesis by simp
qed

text \<open>
  C36: the verdict. The goroutine of an \<open>Assert\<close> closes its round and applies the assertion to the
  collected answers. If it holds, nothing is sent and the goroutine ends. If it
  does not, every node that was asked is sent one failure message, in the order of the range
  over the request, and the goroutine goes on to exit the process.
\<close>

theorem Assert_verdict:
  assumes "reachable G (\<lambda>_. True) n" "i < length (tasks n)" "tasks n ! i = TAssert f req k r t wake"
    "wake \<le> Now E" "node_act G n (E, ARun i) = Inr n'"
  shows "gomap_get (roundToResponseMap n') k = None \<and> responses n' = responses n \<and>
    (if f (responses n ! r) then sent n' = sent n \<and> tasks n' = take i (tasks n) @ drop (Suc i) (tasks n)
     else (\<exists>ds. sent n' = sent n @ ds \<and> announces G E (range_keys (host E) (map fst req)) ''Assertion Failed'' (assert_failed n k t) ds)
       \<and> tasks n' = (tasks n)[i := TExit (Now E + 10 * Millisecond)])"
proof -
  have "tasks n \<noteq> []" using assms(2) by auto
  with refs.reachable_holds [OF assms(1)] have l: "listening n" by (simp add: node_inv_def)
  from assms(2-5) obtain x ts where x: "Assert_end G E f req k r t n = Inr (x, ts)"
    and n': "n' = x\<lparr>tasks := take i (tasks x) @ ts @ drop (Suc i) (tasks x)\<rparr>"
    by (auto simp: node_act_def run_task_def go_bind)
  from quietD [OF Assert_end_quiet(1) [OF x]] Assert_end_sent [OF x l] assms(2) show ?thesis
    unfolding n' by (auto simp: delete_get upd_conv_take_nth_drop split: if_splits)
qed

text \<open>
  C38: the clock offset of a node stays zero. No schedule and no message ever changes it, so that all
  times of the protocol are those of the local clock: \<open>SYNC_REQUEST\<close> adds the result only when
  it is not an \<open>int64\<close>, and then the result is zero.
\<close>

theorem timeOffset_stays_zero:
  assumes "reachable G (\<lambda>_. True) n"
  shows "timeOffset n = 0 \<and> getTime E n = Now E"
  using refs.reachable_holds [OF assms] by (simp add: node_inv_def getTime_def)

text \<open>
  C39: the offset a node computes for a peer carries no information about either clock. If all clock
  readings are later than the year 439, the difference it sends in a \<open>SYNC_REQUEST\<close> is either
  the largest duration or \<open>1 - 2 ^ 62\<close> nanoseconds: \<open>Sub\<close> saturates, and the
  answer's time is not used.
\<close>

theorem sendDiffTime_saturates:
  assumes "reachable G modern n" "p \<in> dom (gomap_get (syncClientTime n))"
  shows "\<exists>d \<in> {2 ^ 63 - 1, 1 - 2 ^ 62}. sendDiffTime G E n p =
    sendToAddr G E \<lparr>MessageType = SYNC_REQUEST, RequestingNode = address n, RoundNumber = roundNumberTime n,
      MessageTime = 0, Result = DDuration d\<rparr> p ''Sync Time Request'' n"
proof -
  from assms(2) obtain t where t: "gomap_get (syncClientTime n) p = Some t" by auto
  have "sync_inv n" using sync.reachable_holds [OF assms(1)] by (simp add: synced_def)
  with t have "gomap_get0 (syncLocalTime n) p = 2 ^ 62 - 1" "t = 0 \<or> 2 ^ 63 + 2 ^ 62 \<le> t"
    unfolding sync_inv_def by blast+
  with t show ?thesis by (auto simp: sendDiffTime_def gomap_get0_def time_Sub_def)
qed



lemma reachable_run:
  assumes "reachable G ok n" "list_all (\<lambda>ea. ok (fst ea)) eas" "node_run G n eas = Inr n'"
  shows "reachable G ok n'"
  using assms
proof (induction eas arbitrary: n)
  case (Cons ea eas)
  obtain E a where ea: "ea = (E, a)" by (cases ea)
  with Cons.prems obtain x where x: "node_act G n (E, a) = Inr x" "node_run G x eas = Inr n'"
    by (auto simp: node_run_def go_bind)
  from Cons.prems(2) have ok: "ok E" "list_all (\<lambda>ea. ok (fst ea)) eas" by (simp_all add: ea)
  show ?case by (rule Cons.IH [OF reachable.act [OF Cons.prems(1) ok(1) x(1)] ok(2) x(2)])
qed (simp add: node_run_def)

lemmas node_eval = node_run_def node_act_def run_task_def InitDistributedAssert_def assert_address_def assert_peers_def
  Assert_begin_def Assert_end_def GetAssertDelay_def node_Local_def sendToAddr_def receiveConnections_def receive_def
  processData_def returned_values_def spawn_def assert_request_def assert_failed_def getTime_def int_inc_def hear_def delivered_def
  handleRTT_def sync_request_def sync_diff_def getRTT_def syncTime_def sendDiffTime_def
  PackM_def UnpackM_def Local_def initDinv_def send_event_def receive_event_def log_event_def logVarStore_def
  logPairList_def GetLogger_def smearedDumpID_def store_pairs_def sort_ByName_def concatStrings_def Encode_def encodable_def
  getHashedId_def GetId_def getCallingFunctionID_def DumpID_String_def
  node_start_def rt_start_def fixed_govec_def node_env_def an_answer_def Let_def


text \<open>A node with one peer that has begun an assertion.\<close>

abbreviation demo_init where
  "demo_init t \<equiv> [(node_env t NoData, AInit ''a'' (Some [''a'', ''b'']))]"

abbreviation demo_assert where
  "demo_assert t f \<equiv> (node_env t NoData, AAssert f [(''b'', [''v''])])"

lemma demo_reachable:
  "node_run G (node_start False) eas = Inr n \<Longrightarrow> list_all (\<lambda>ea. ok (fst ea)) eas \<Longrightarrow> reachable G ok n"
  by (rule reachable_run [OF reachable.start])

theorem Assert_collects_answers_witness:
  "\<exists>n n1 n2. reachable (fixed_govec an_answer) (\<lambda>_. True) n \<and>
    node_act (fixed_govec an_answer) n (demo_assert 0 (\<lambda>_. True)) = Inr n1 \<and>
    node_run (fixed_govec an_answer) n1 [(node_env 0 (Datagram ''b'' []), ARun 0), (node_env 0 NoData, ARun 1)] = Inr n2 \<and>
    responses n2 ! length (responses n) = [(''b'', [(''v'', DInt64 5)])]"
proof -
  let ?G = "fixed_govec an_answer" and ?acts = "[(node_env 0 (Datagram ''b'' []), ARun 0), (node_env 0 NoData, ARun 1)]"
  have "\<exists>n. node_run ?G (node_start False) (demo_init 0) = Inr n \<and>
    (\<exists>n1. node_act ?G n (demo_assert 0 (\<lambda>_. True)) = Inr n1 \<and> (\<exists>n2. node_run ?G n1 ?acts = Inr n2 \<and>
      gomap_get (roundToResponseMap n2) (roundNumber n) = Some (length (responses n)) \<and>
      foldl (hear (roundNumber n)) [] (taken ?G n1 ?acts) = [(''b'', [(''v'', DInt64 5)])]))"
    by (simp add: node_eval)
  then obtain n n1 n2 where n: "node_run ?G (node_start False) (demo_init 0) = Inr n"
    and n1: "node_act ?G n (demo_assert 0 (\<lambda>_. True)) = Inr n1" and n2: "node_run ?G n1 ?acts = Inr n2"
    and k: "gomap_get (roundToResponseMap n2) (roundNumber n) = Some (length (responses n))"
    and h: "foldl (hear (roundNumber n)) [] (taken ?G n1 ?acts) = [(''b'', [(''v'', DInt64 5)])]" by blast
  have r: "reachable ?G (\<lambda>_. True) n" by (rule demo_reachable [OF n]) simp
  from Assert_collects_answers [OF r n1 n2 k] h have "responses n2 ! length (responses n) = [(''b'', [(''v'', DInt64 5)])]" by metis
  with r n1 n2 show ?thesis by blast
qed

theorem Assert_verdict_witness:
  "\<exists>n n'. reachable (fixed_govec an_answer) (\<lambda>_. True) n \<and>
    node_act (fixed_govec an_answer) n (node_env (20 * Millisecond) NoData, ARun 5) = Inr n' \<and>
    gomap_get (roundToResponseMap n') 0 = None \<and> tasks n' ! 5 = TExit (30 * Millisecond)"
proof -
  let ?G = "fixed_govec an_answer" and ?E = "node_env (20 * Millisecond) NoData"
  have "\<exists>n. node_run ?G (node_start False) (demo_init 0 @ [demo_assert 0 (\<lambda>_. False)]) = Inr n \<and> 5 < length (tasks n) \<and>
    tasks n ! 5 = TAssert (\<lambda>_. False) [(''b'', [''v''])] 0 0 (10 * Millisecond) (20 * Millisecond) \<and>
    (\<exists>n'. node_act ?G n (?E, ARun 5) = Inr n')"
    by (simp add: node_eval)
  then obtain n n' where n: "node_run ?G (node_start False) (demo_init 0 @ [demo_assert 0 (\<lambda>_. False)]) = Inr n"
    and t: "5 < length (tasks n)" "tasks n ! 5 = TAssert (\<lambda>_. False) [(''b'', [''v''])] 0 0 (10 * Millisecond) (20 * Millisecond)"
    and n': "node_act ?G n (?E, ARun 5) = Inr n'" by blast
  have r: "reachable ?G (\<lambda>_. True) n" by (rule demo_reachable [OF n]) simp
  have "20 * Millisecond \<le> Now ?E" by (simp add: node_env_def)
  from Assert_verdict [OF r t this n'] t(1) have "gomap_get (roundToResponseMap n') 0 = None \<and> tasks n' ! 5 = TExit (30 * Millisecond)"
    by (simp add: node_env_def)
  with r n' show ?thesis by blast
qed

theorem timeOffset_stays_zero_witness:
  "\<exists>n. reachable (fixed_govec (an_answer\<lparr>MessageType := SYNC_REQUEST, Result := DInt64 7\<rparr>)) (\<lambda>_. True) n \<and>
    roundNumberTime n = 0 \<and> timeOffset n = 0"
proof -
  let ?G = "fixed_govec (an_answer\<lparr>MessageType := SYNC_REQUEST, Result := DInt64 7\<rparr>)"
  let ?acts = "demo_init 0 @ [(node_env 0 (Datagram ''b'' []), ARun 0), (node_env 0 NoData, ARun 1)]"
  have "\<exists>n. node_run ?G (node_start False) ?acts = Inr n \<and> roundNumberTime n = 0"
    by (simp add: node_eval)
  then obtain n where n: "node_run ?G (node_start False) ?acts = Inr n" "roundNumberTime n = 0" by blast
  have r: "reachable ?G (\<lambda>_. True) n" by (rule demo_reachable [OF n(1)]) simp
  with n(2) timeOffset_stays_zero [OF r] show ?thesis by blast
qed

theorem sendDiffTime_saturates_witness:
  "\<exists>n. reachable (fixed_govec (an_answer\<lparr>MessageType := TIME_RETURN\<rparr>)) modern n \<and>
    (\<exists>d \<in> {2 ^ 63 - 1, 1 - 2 ^ 62}. sendDiffTime (fixed_govec (an_answer\<lparr>MessageType := TIME_RETURN\<rparr>)) (node_env 0 NoData) n ''b'' =
      sendToAddr (fixed_govec (an_answer\<lparr>MessageType := TIME_RETURN\<rparr>)) (node_env 0 NoData)
        \<lparr>MessageType = SYNC_REQUEST, RequestingNode = address n, RoundNumber = roundNumberTime n,
         MessageTime = 0, Result = DDuration d\<rparr> ''b'' ''Sync Time Request'' n)"
proof -
  let ?G = "fixed_govec (an_answer\<lparr>MessageType := TIME_RETURN\<rparr>)"
  let ?acts = "demo_init (2 ^ 65) @ [(node_env (2 ^ 66) NoData, ARun 2), (node_env (2 ^ 66) (Datagram ''b'' []), ARun 0),
    (node_env (2 ^ 66) NoData, ARun 1)]"
  have "\<exists>n. node_run ?G (node_start False) ?acts = Inr n \<and> ''b'' \<in> dom (gomap_get (syncClientTime n))"
    by (simp add: node_eval)
  then obtain n where n: "node_run ?G (node_start False) ?acts = Inr n" and b: "''b'' \<in> dom (gomap_get (syncClientTime n))" by blast
  have r: "reachable ?G modern n" by (rule demo_reachable [OF n]) (simp add: modern_def node_env_def)
  with sendDiffTime_saturates [OF r b] show ?thesis by blast
qed



text \<open>What a node answers for a name.\<close>

definition asked_value :: "aenv \<Rightarrow> 'g node \<Rightarrow> string \<Rightarrow> dyn" where
  "asked_value E n v =
     (let p = (case gomap_get (assertableDictionary n) v of None \<Rightarrow> DNil | Some p \<Rightarrow> p)
      in getValue E (case gomap_get (assertableFunctions n) v of Some (Some f) \<Rightarrow> f (mem E) p | _ \<Rightarrow> p))"

lemma assert_value_name:
  "assert_value E n m (DBytes b) = Inr (gomap_set (B2S b) (asked_value E n (B2S b)) m)"
  by (simp add: assert_value_def asked_value_def Let_def)

lemma assert_values:
  "\<exists>vals. foldR (assert_value E n) m (map DBytes names) = Inr vals \<and>
     gomap_get vals = (\<lambda>v. if v \<in> B2S ` set names then Some (asked_value E n v) else gomap_get m v)"
proof (induction names arbitrary: m)
  case (Cons b names)
  from Cons [of "gomap_set (B2S b) (asked_value E n (B2S b)) m"] show ?case
    by (auto simp: assert_value_name gomap_simps fun_eq_iff)
qed simp

lemma run_task_replaces:
  assumes "i < length (tasks n)" "run_task G E (tasks n ! i) n = Inr (n, [t])"
  shows "node_act G n (E, ARun i) = Inr (n\<lparr>tasks := (tasks n)[i := t]\<rparr>)"
  using assms by (simp add: node_act_def upd_conv_take_nth_drop)

text \<open>
  C37: the answer to a request. The goroutine of a request waits until the time named in it, as long
  as that time is within the range of a duration. It then sends one datagram to the requesting
  node, whose values are, for the names asked and no others, what the process function makes of
  the registered pointer, read at that moment; a name nobody registered yields the zero \<open>Value\<close>.
\<close>

theorem handleAssert_answers:
  assumes "reachable G (\<lambda>_. True) n" "i < length (tasks n)"
  shows "(tasks n ! i = THandleAssert m \<and> Result m = DList vs \<and> \<bar>MessageTime m - Now E\<bar> < 2 ^ 63 \<longrightarrow>
      node_act G n (E, ARun i) = Inr (n\<lparr>tasks := (tasks n)[i :=
        TAnswer (m\<lparr>MessageType := ASSERT_RETURN, RequestingNode := address n\<rparr>) (RequestingNode m) vs (MessageTime m)]\<rparr>)) \<and>
    (tasks n ! i = TAnswer a to (map DBytes names) wake \<longrightarrow>
      (if Now E < wake then node_act G n (E, ARun i) = Inr n
       else \<forall>n'. node_act G n (E, ARun i) = Inr n' \<longrightarrow>
         (\<exists>dest g vals. ResolveUDPAddr E to = Some dest \<and>
           sent n' = sent n @ [(dest, fst (PrepareSend G g ''Assert Response'' (a\<lparr>Result := DStringMap vals\<rparr>)))] \<and>
           gomap_get vals = (\<lambda>v. if v \<in> B2S ` set names then Some (asked_value E n v) else None))))"
    (is "?A \<and> (_ \<longrightarrow> ?B)")
proof -
  have off: "timeOffset n = 0" and l: "listening n"
    using refs.reachable_holds [OF assms(1)] assms(2) by (auto simp: node_inv_def)
  have ?A
    using off by (intro impI run_task_replaces [OF assms(2)])
      (auto simp: run_task_def handleAssert_def time_Sub_def getTime_def)
  moreover have ?B
    if t: "tasks n ! i = TAnswer a to (map DBytes names) wake"
  proof (cases "Now E < wake")
    case True
    then have "run_task G E (tasks n ! i) n = Inr (n, [tasks n ! i])" using t by (simp add: run_task_def)
    from run_task_replaces [OF assms(2) this] True show ?thesis by simp
  next
    case False
    from assert_values [of E n "[]" names] obtain vals where
      vals: "foldR (assert_value E n) [] (map DBytes names) = Inr vals"
      "gomap_get vals = (\<lambda>v. if v \<in> B2S ` set names then Some (asked_value E n v) else None)"
      unfolding map_of.simps by blast
    {
      fix n' assume "node_act G n (E, ARun i) = Inr n'"
      with False t assms(2) vals(1) obtain x where
        x: "sendToAddr G E (a\<lparr>Result := DStringMap vals\<rparr>) to ''Assert Response'' n = Inr x" "sent n' = sent x"
        by (auto simp: node_act_def run_task_def answerAssert_def go_bind)
      from sendToAddr_sent [OF x(1) l] obtain dest g where "ResolveUDPAddr E to = Some dest"
        "sent n' = sent n @ [(dest, fst (PrepareSend G g ''Assert Response'' (a\<lparr>Result := DStringMap vals\<rparr>)))]"
        unfolding x(2) by blast
      with vals(2) have "\<exists>dest g vals. ResolveUDPAddr E to = Some dest \<and>
           sent n' = sent n @ [(dest, fst (PrepareSend G g ''Assert Response'' (a\<lparr>Result := DStringMap vals\<rparr>)))] \<and>
           gomap_get vals = (\<lambda>v. if v \<in> B2S ` set names then Some (asked_value E n v) else None)" by blast
    }
    with False show ?thesis by simp
  qed
  ultimately show ?thesis by blast
qed

theorem handleAssert_answers_witness:
  "\<exists>n. reachable (fixed_govec (an_answer\<lparr>MessageType := ASSERT_REQUEST, MessageTime := 9, Result := DList []\<rparr>)) (\<lambda>_. True) n \<and>
    node_act (fixed_govec (an_answer\<lparr>MessageType := ASSERT_REQUEST, MessageTime := 9, Result := DList []\<rparr>)) n (node_env 3 NoData, ARun 4)
    = Inr (n\<lparr>tasks := (tasks n)[4 := TAnswer (an_answer\<lparr>RequestingNode := ''a'', MessageTime := 9, Result := DList []\<rparr>) ''b'' [] 9]\<rparr>)"
proof -
  let ?m = "an_answer\<lparr>MessageType := ASSERT_REQUEST, MessageTime := 9, Result := DList []\<rparr>"
  let ?acts = "demo_init 0 @ [(node_env 0 (Datagram ''b'' []), ARun 0), (node_env 0 NoData, ARun 1)]"
  have "\<exists>n. node_run (fixed_govec ?m) (node_start False) ?acts = Inr n \<and> 4 < length (tasks n) \<and> tasks n ! 4 = THandleAssert ?m \<and> address n = ''a''"
    by (simp add: node_eval)
  then obtain n where n: "node_run (fixed_govec ?m) (node_start False) ?acts = Inr n" and t: "4 < length (tasks n)" "tasks n ! 4 = THandleAssert ?m"
    and a: "address n = ''a''" by blast
  have r: "reachable (fixed_govec ?m) (\<lambda>_. True) n" by (rule demo_reachable [OF n]) simp
  from handleAssert_answers [OF r t(1), of ?m "[]" "node_env 3 NoData"] t(2) r a show ?thesis
    by (intro exI [of _ n]) (simp add: node_env_def an_answer_def)
qed


end
