(* ===== verification/Instrumenter.thy ===== *)
theory Instrumenter
  imports Dinv_RT
begin

text \<open>
  \<open>instrumenter/instrumenter.go\<close>: the tool that replaces annotated comments of Go sources by
  calls of the run-time library, together with \<open>FindFile\<close> of \<open>programslicer/programBuilder.go\<close>.
  Syntax trees are records of what the code reads: declarations with their positions, comments,
  the objects of the package scope, and the type and value specifications in the order in which
  \<open>ast.Inspect\<close> meets them.

  Arguments, collected in \<open>ienv\<close>, are the functions of \<open>go/printer\<close>, \<open>go/token\<close> and \<open>astutil\<close>,
  the file system, the orders of ranges over maps and the depth of the stack. The variables
  affected by communication are an argument of the functions that use them.
\<close>

section \<open>Definitions\<close>

subsection \<open>Syntax\<close>

text \<open>A function with its position, its address and the parameter names of its fields; any other declaration.\<close>

datatype top_decl = FuncDecl int nat "string list list" | GenDecl int

primrec decl_pos :: "top_decl \<Rightarrow> int" where
  "decl_pos (FuncDecl p a ps) = p"
| "decl_pos (GenDecl p) = p"

record comment =
  c_Pos :: int
  c_Text :: string

definition comment_End :: "comment \<Rightarrow> int" where
  "comment_End c = c_Pos c + int (length (c_Text c))"

datatype obj_kind = OBad | OPkg | OCon | OTyp | OVar | OFun | OLbl

text \<open>A struct has the names and, if it is an identifier, the type of each field.\<close>

datatype type_expr = TStruct "(string list \<times> string option) list" | TOtherType

datatype value_spec = VSpec "string list" "string option" "value_spec list"

text \<open>Expression statements: a call of a selector on an identifier, an identifier, others; with the statements inside.\<close>

datatype xexpr = XSelCall string string | XIdent string | XOther
datatype xstmt = XStmt xexpr "xstmt list"

text \<open>The syntax of a file; \<open>token_file\<close> are base and size of its \<open>token.File\<close>.\<close>

record afile =
  file_addr :: nat
  file_Pos :: int
  file_End :: int
  token_file :: "(int \<times> int) option"
  Decls :: "top_decl list"
  comment_groups :: "comment list list"
  scope_objects :: "(string \<times> obj_kind) list"
  type_specs :: "(string \<times> type_expr) list"
  value_specs :: "value_spec list"
  expr_stmts :: "xstmt list"

text \<open>
  A node of a path with its position and end; of a block, the statements as far as they are
  read: the specifications of a declaration, with the identifiers and positions of a value
  specification, or the identifiers of the left-hand sides of a definition.
\<close>

datatype bspec = BValueSpec "(string \<times> int) list" | BOtherSpec
datatype bstmt = BDecl "bspec list option" | BDefine "(string \<times> int) list list" | BOther
datatype path_node = PBlock int int "bstmt list" | PNode int int

primrec path_pos :: "path_node \<Rightarrow> int" where
  "path_pos (PBlock p e ss) = p"
| "path_pos (PNode p e) = p"

primrec path_end :: "path_node \<Rightarrow> int" where
  "path_end (PBlock p e ss) = e"
| "path_end (PNode p e) = e"

record SourceWrapper =
  sw_Comments :: afile
  sw_Source :: afile
  sw_Filename :: string
  sw_Text :: string

record PackageWrapper =
  PackageName :: string
  Sources :: "SourceWrapper list"

type_synonym ProgramWrapper = "PackageWrapper list"
type_synonym localScope = "int \<times> int"

record ienv =
  PathEnclosingInterval :: "afile \<Rightarrow> int \<Rightarrow> int \<Rightarrow> path_node list"
  line_of :: "int \<Rightarrow> nat"
  Fprint :: "afile \<Rightarrow> string"
  AddImport :: "string \<Rightarrow> afile \<Rightarrow> afile"
  DeleteImport :: "string \<Rightarrow> afile \<Rightarrow> afile"
  UsesImport :: "string \<Rightarrow> afile \<Rightarrow> bool"
  range_scopes :: "localScope list \<Rightarrow> localScope list"
  range_objects :: "string list \<Rightarrow> string list"
  create_file :: "string \<Rightarrow> bool"
  fs_ok :: "string \<Rightarrow> bool"
  stack_depth :: nat

text \<open>The package variables; \<open>written\<close> are the files written, \<open>moved\<close> the directories made and files renamed.\<close>

record inst_state =
  clean :: bool
  dataflow :: bool
  debug :: bool
  dumpsLocalEvents :: bool
  instDirectory :: string
  instFile :: string
  globals :: "(nat, string list) gomap"
  locals :: "(localScope, string list) gomap"
  written :: "(string \<times> string) list"
  moved :: "(string \<times> string) list"

definition Inside :: "localScope \<Rightarrow> int \<Rightarrow> bool" where
  "Inside l pos \<longleftrightarrow> pos \<ge> fst l \<and> pos \<le> snd l"

definition initializeInstrumenter :: "(string, string) gomap \<Rightarrow> inst_state \<Rightarrow> inst_state" where
  "initializeInstrumenter options st =
     (foldl (\<lambda>st (setting, v).
        if setting = ''clean'' then st\<lparr>clean := True\<rparr>
        else if setting = ''debug'' then st\<lparr>debug := True\<rparr>
        else if setting = ''dataflow'' then st\<lparr>dataflow := True\<rparr>
        else if setting = ''directory'' then st\<lparr>instDirectory := v\<rparr>
        else if setting = ''file'' then st\<lparr>instFile := v\<rparr>
        else if setting = ''local'' then st\<lparr>dumpsLocalEvents := True\<rparr>
        else st) st options)\<lparr>globals := [], locals := []\<rparr>"

subsection \<open>Strings\<close>

definition has_prefix :: "string \<Rightarrow> string \<Rightarrow> bool" where
  "has_prefix p s \<longleftrightarrow> take (length p) s = p"

fun str_contains :: "string \<Rightarrow> string \<Rightarrow> bool" where
  "str_contains sub [] = (sub = [])"
| "str_contains sub (c # s) = (has_prefix sub (c # s) \<or> str_contains sub s)"

text \<open>\<open>strings.Replace(s, old, new, 1)\<close> and \<open>strings.Replace(s, old, new, -1)\<close> for a non-empty \<open>old\<close>.\<close>

fun replace_first :: "string \<Rightarrow> string \<Rightarrow> string \<Rightarrow> string" where
  "replace_first old new [] = []"
| "replace_first old new (c # s) =
     (if has_prefix old (c # s) then new @ drop (length old) (c # s) else c # replace_first old new s)"

function replace_all :: "string \<Rightarrow> string \<Rightarrow> string \<Rightarrow> string" where
  "replace_all old new [] = []"
| "replace_all old new (c # s) =
     (if old \<noteq> [] \<and> has_prefix old (c # s) then new @ replace_all old new (drop (length old) (c # s))
      else c # replace_all old new s)"
  by pat_completeness auto
termination
  by (relation "measure (\<lambda>(old, new, s). length s)") (auto simp: has_prefix_def)

definition base_name :: "string \<Rightarrow> string" where
  "base_name path = rev (takeWhile (\<lambda>c. c \<noteq> CHR ''/'') (rev path))"

definition file_ext :: "string \<Rightarrow> string" where
  "file_ext path =
     (if CHR ''.'' \<in> set (base_name path)
      then CHR ''.'' # rev (takeWhile (\<lambda>c. c \<noteq> CHR ''.'') (rev (base_name path))) else [])"

definition is_lower :: "char \<Rightarrow> bool" where
  "is_lower c \<longleftrightarrow> 97 \<le> (of_char c :: nat) \<and> (of_char c :: nat) \<le> 122"

text \<open>\<open>strings.Title\<close> on a word of lower-case letters.\<close>

fun title :: "string \<Rightarrow> string" where
  "title [] = []"
| "title (c # s) = char_of ((of_char c :: nat) - 32) # s"

text \<open>The group of the pattern \<open>//@([a-z]*)\<close> in its first match.\<close>

fun find_annotation :: "string \<Rightarrow> string option" where
  "find_annotation [] = None"
| "find_annotation (c # s) =
     (if has_prefix ''//@'' (c # s) then Some (takeWhile is_lower (drop 3 (c # s))) else find_annotation s)"

subsection \<open>Finding declarations and files\<close>

text \<open>All but the last declaration are compared with the position of the next one.\<close>

fun find_between :: "int \<Rightarrow> int \<Rightarrow> top_decl list \<Rightarrow> (int \<times> top_decl option) go" where
  "find_between p fcount [] = Inl IndexOutOfRange"
| "find_between p fcount [d] =
     (if p > decl_pos d then
        (case d of FuncDecl _ _ _ \<Rightarrow> Inr (fcount + 1, Some d) | GenDecl _ \<Rightarrow> Inl TypeAssertion)
      else Inr (- 1, None))"
| "find_between p fcount (d # d' # ds) =
     (let fcount = (case d of FuncDecl _ _ _ \<Rightarrow> fcount + 1 | GenDecl _ \<Rightarrow> fcount)
      in if p > decl_pos d \<and> p < decl_pos d' then
           (case d of FuncDecl _ _ _ \<Rightarrow> Inr (fcount, Some d) | GenDecl _ \<Rightarrow> Inl TypeAssertion)
         else find_between p fcount (d' # ds))"

definition FindFunction :: "int \<Rightarrow> top_decl list \<Rightarrow> (int \<times> top_decl option) go" where
  "FindFunction p decls = find_between p (- 1) decls"

text \<open>The results \<open>pnum\<close> and \<open>snum\<close> are never assigned.\<close>

definition in_source :: "int \<Rightarrow> int \<Rightarrow> SourceWrapper \<Rightarrow> bool" where
  "in_source p e s \<longleftrightarrow>
     file_Pos (sw_Comments s) \<le> p \<and> file_End (sw_Comments s) \<ge> e \<or>
     file_Pos (sw_Source s) \<le> p \<and> file_End (sw_Source s) \<ge> e"

definition FindFile :: "ProgramWrapper \<Rightarrow> int \<Rightarrow> int \<Rightarrow> int \<times> int" where
  "FindFile prog p e =
     (if list_ex (\<lambda>pack. list_ex (in_source p e) (Sources pack)) prog then (0, 0) else (- 1, - 1))"

subsection \<open>Structs\<close>

record structIds =
  st_fields :: "string list"
  st_types :: "string list"

definition no_fields :: structIds where
  "no_fields = \<lparr>st_fields = [], st_types = []\<rparr>"

text \<open>
  A struct with an embedded field, or with a field whose type is not an identifier, is left out. A
  declaration of several fields, \<open>x, y int\<close>, counts as one field: only its first name is kept, the
  others are lost.
\<close>

fun struct_fields :: "(string list \<times> string option) list \<Rightarrow> structIds \<Rightarrow> structIds option" where
  "struct_fields [] tmp = Some tmp"
| "struct_fields ((names, t) # fs) tmp =
     (case names of
        [] \<Rightarrow> None
      | n # _ \<Rightarrow>
          (case t of
             None \<Rightarrow> None
           | Some ty \<Rightarrow> struct_fields fs (tmp\<lparr>st_fields := st_fields tmp @ [n], st_types := st_types tmp @ [ty]\<rparr>)))"

definition struct_table :: "(string \<times> type_expr) list \<Rightarrow> (string, structIds) gomap" where
  "struct_table specs =
     foldl (\<lambda>m (name, t).
       case t of
         TStruct fs \<Rightarrow> (case struct_fields fs no_fields of None \<Rightarrow> m | Some ids \<Rightarrow> gomap_set name ids m)
       | TOtherType \<Rightarrow> m) [] specs"

primrec structClosure :: "nat \<Rightarrow> (string, structIds) gomap \<Rightarrow> string \<Rightarrow> string \<Rightarrow> string list go" where
  "structClosure 0 s name stype = Inl (Fatal ''stack overflow'')"
| "structClosure (Suc depth) s name stype =
     (let ids = (case gomap_get s stype of None \<Rightarrow> no_fields | Some i \<Rightarrow> i)
      in rbind (traverse (\<lambda>i.
                  rbind (index_go (st_types ids) i) (\<lambda>ty.
                    let n = name @ ''.'' @ (st_fields ids ! i)
                    in if gomap_get s ty \<noteq> None
                       then rbind (structClosure depth s n ty) (\<lambda>ns. Inr (n # ns))
                       else Inr [n])) [0..<length (st_fields ids)])
           (\<lambda>xss. Inr (concat xss)))"

text \<open>The variables of one specification: the results, and whether the inspection goes on inside.\<close>

fun spec_vars :: "nat \<Rightarrow> (string, structIds) gomap \<Rightarrow> string list \<Rightarrow> string option \<Rightarrow> string list \<Rightarrow> string list \<Rightarrow> (string list \<times> bool) go" where
  "spec_vars depth structs names ty [] acc = Inr (acc, True)"
| "spec_vars depth structs names ty (v # vs) acc =
     rbind (index_go names 0) (\<lambda>x.
       if x = v then
         (case ty of
            None \<Rightarrow> Inr (acc, False)
          | Some t \<Rightarrow>
              if gomap_get structs t \<noteq> None
              then rbind (structClosure depth structs x t) (\<lambda>ns. spec_vars depth structs names ty vs (acc @ ns))
              else spec_vars depth structs names ty vs acc)
       else spec_vars depth structs names ty vs acc)"

fun visit_spec :: "nat \<Rightarrow> (string, structIds) gomap \<Rightarrow> string list \<Rightarrow> string list \<Rightarrow> value_spec \<Rightarrow> string list go"
  and visit_specs :: "nat \<Rightarrow> (string, structIds) gomap \<Rightarrow> string list \<Rightarrow> string list \<Rightarrow> value_spec list \<Rightarrow> string list go" where
  "visit_spec depth structs vars acc (VSpec names ty nested) =
     rbind (spec_vars depth structs names ty vars acc) (\<lambda>(acc, inside).
       if inside then visit_specs depth structs vars acc nested else Inr acc)"
| "visit_specs depth structs vars acc [] = Inr acc"
| "visit_specs depth structs vars acc (s # ss) =
     rbind (visit_spec depth structs vars acc s) (\<lambda>acc. visit_specs depth structs vars acc ss)"

definition collectStructs :: "ienv \<Rightarrow> string list \<Rightarrow> afile \<Rightarrow> string list go" where
  "collectStructs E varNames file =
     visit_specs (stack_depth E) (struct_table (type_specs file)) varNames [] (value_specs file)"

subsection \<open>Variables in scope\<close>

definition GetGlobalVariablesFromFile :: "ienv \<Rightarrow> afile \<Rightarrow> inst_state \<Rightarrow> (string list \<times> inst_state) go" where
  "GetGlobalVariablesFromFile E file st =
     (case gomap_get (globals st) (file_addr file) of
        Some vs \<Rightarrow> Inr (vs, st)
      | None \<Rightarrow>
          (let results = [i. i \<leftarrow> range_objects E (map fst (scope_objects file)),
                             gomap_get (scope_objects file) i \<in> {Some OVar, Some OCon}]
           in rbind (collectStructs E results file) (\<lambda>structVars.
                Inr (results @ structVars,
                     st\<lparr>globals := gomap_set (file_addr file) (results @ structVars) (globals st)\<rparr>))))"

definition GetGlobalVariables :: "ienv \<Rightarrow> ProgramWrapper \<Rightarrow> inst_state \<Rightarrow> (string list \<times> inst_state) go" where
  "GetGlobalVariables E prog st =
     foldR (\<lambda>(results, st) s.
       rbind (GetGlobalVariablesFromFile E (sw_Source s) st) (\<lambda>(vs, st). Inr (results @ vs, st)))
       ([], st) (concat (map Sources prog))"

text \<open>The variables a block declares before the position.\<close>

definition names_before :: "int \<Rightarrow> (string \<times> int) list \<Rightarrow> string list" where
  "names_before p is = [n. (n, q) \<leftarrow> is, q < p \<and> n \<noteq> ''_'']"

definition stmt_vars :: "int \<Rightarrow> bstmt \<Rightarrow> string list go" where
  "stmt_vars p s =
     (case s of
        BDecl (Some specs) \<Rightarrow>
          rbind (index_go specs 0) (\<lambda>sp.
            case sp of BValueSpec is \<Rightarrow> Inr (names_before p is) | BOtherSpec \<Rightarrow> Inl TypeAssertion)
      | BDecl None \<Rightarrow> Inl TypeAssertion
      | BDefine lhs \<Rightarrow> Inr (concat (map (names_before p) lhs))
      | BOther \<Rightarrow> Inr [])"

definition path_vars :: "int \<Rightarrow> path_node list \<Rightarrow> string list go" where
  "path_vars p path =
     rbind (traverse (\<lambda>n. case n of
                 PBlock _ _ stmts \<Rightarrow> rbind (traverse (stmt_vars p) stmts) (\<lambda>xss. Inr (concat xss))
               | PNode _ _ \<Rightarrow> Inr []) path)
       (\<lambda>xss. Inr (concat xss))"

definition param_vars :: "path_node list \<Rightarrow> afile \<Rightarrow> string list go" where
  "param_vars path file =
     (case path of
        [] \<Rightarrow> Inr []
      | n # _ \<Rightarrow>
          rbind (FindFunction (path_pos n) (Decls file)) (\<lambda>(_, f).
            case f of Some (FuncDecl _ _ ps) \<Rightarrow> Inr (concat ps) | _ \<Rightarrow> Inr []))"

text \<open>A cached scope that contains the position answers for it; positions are used as offsets into the file.\<close>

definition GetLocalVariables :: "ienv \<Rightarrow> int \<Rightarrow> afile \<Rightarrow> inst_state \<Rightarrow> (string list \<times> inst_state) go" where
  "GetLocalVariables E dumpPosition file st =
     (case token_file file of
        None \<Rightarrow> Inl NilPointer
      | Some (base, siz) \<Rightarrow>
          if dumpPosition > siz \<or> dumpPosition + 2 > siz then Inr ([], st)
          else case List.find (\<lambda>l. Inside l dumpPosition) (range_scopes E (map fst (locals st))) of
            Some l \<Rightarrow> Inr (case gomap_get (locals st) l of None \<Rightarrow> [] | Some vs \<Rightarrow> vs, st)
          | None \<Rightarrow>
              (let path = PathEnclosingInterval E file (base + dumpPosition) (base + dumpPosition + 2)
               in rbind (param_vars path file) (\<lambda>params.
                  rbind (path_vars dumpPosition path) (\<lambda>blockVars.
                  rbind (collectStructs E (params @ blockVars) file) (\<lambda>structVars.
                    let results = params @ blockVars @ structVars
                    in case path of
                         [] \<Rightarrow> Inl IndexOutOfRange
                       | n # _ \<Rightarrow> Inr (results, st\<lparr>locals := gomap_set (path_pos n, path_end n) results (locals st)\<rparr>))))))"

definition file_at :: "ProgramWrapper \<Rightarrow> int \<Rightarrow> int \<Rightarrow> SourceWrapper go" where
  "file_at prog pnum snum =
     rbind (index_go prog (nat pnum)) (\<lambda>pack. index_go (Sources pack) (nat snum))"

definition GetAccessibleVarsInScope :: "ienv \<Rightarrow> int \<Rightarrow> ProgramWrapper \<Rightarrow> int \<Rightarrow> int \<Rightarrow> inst_state \<Rightarrow> (string list \<times> inst_state) go" where
  "GetAccessibleVarsInScope E dumpPosition prog pnum snum st =
     rbind (GetGlobalVariables E prog st) (\<lambda>(gs, st).
     rbind (file_at prog pnum snum) (\<lambda>s.
     rbind (GetLocalVariables E dumpPosition (sw_Source s) st) (\<lambda>(ls, st). Inr (gs @ ls, st))))"

fun dedup_loop :: "string list \<Rightarrow> string list \<Rightarrow> string list \<Rightarrow> string list" where
  "dedup_loop encountered noDups [] = noDups"
| "dedup_loop encountered noDups (e # es) =
     (if e \<notin> set encountered then dedup_loop (e # encountered) (noDups @ [e]) es
      else dedup_loop encountered noDups es)"

definition removedups :: "string list \<Rightarrow> string list" where
  "removedups sl = dedup_loop [] [] sl"

text \<open>\<open>affectedFuncs\<close> maps the address of a function to the names of the variables of its nodes.\<close>

definition getAccessedAffectedVars ::
  "ienv \<Rightarrow> comment \<Rightarrow> (nat, string list list) gomap \<Rightarrow> ProgramWrapper \<Rightarrow> inst_state \<Rightarrow> (string list \<times> inst_state) go" where
  "getAccessedAffectedVars E dump affectedFuncs prog st =
     (let (pnum, snum) = FindFile prog (c_Pos dump) (comment_End dump)
      in if pnum < 0 \<or> snum < 0 then Inr ([], st)
         else
           rbind (file_at prog pnum snum) (\<lambda>s.
           rbind (FindFunction (c_Pos dump) (Decls (sw_Source s))) (\<lambda>(_, f).
             case f of
               Some (FuncDecl _ a _) \<Rightarrow>
                 rbind (GetAccessibleVarsInScope E (c_Pos dump) prog pnum snum st) (\<lambda>(inScope, st).
                 rbind (traverse (\<lambda>names.
                          rbind (collectStructs E names (sw_Comments s)) (\<lambda>ss. Inr (names @ ss)))
                          (case gomap_get affectedFuncs a of None \<Rightarrow> [] | Some fns \<Rightarrow> fns)) (\<lambda>xss.
                   let inScope = removedups inScope;
                       affected = removedups (concat xss)
                   in Inr (if dataflow st then filter (\<lambda>v. v \<in> set affected) inScope else inScope, st)))
             | _ \<Rightarrow> Inr ([], st))))"

subsection \<open>Generated code\<close>

text \<open>The references of the comments that contain the annotation.\<close>

definition GetLogNodes :: "afile \<Rightarrow> string \<Rightarrow> (nat \<times> nat) list" where
  "GetLogNodes file annotation =
     [(i, j). (i, g) \<leftarrow> enumerate 0 (comment_groups file), (j, c) \<leftarrow> enumerate 0 g, str_contains annotation (c_Text c)]"

fun join_comma :: "string list \<Rightarrow> string" where
  "join_comma [] = []"
| "join_comma [v] = v"
| "join_comma (v # w # vs) = v @ '','' @ join_comma (w # vs)"

definition dump_id :: "nat \<Rightarrow> string \<Rightarrow> string \<Rightarrow> string" where
  "dump_id lineNumber path packagename =
     packagename @ ''_'' @ (if file_ext path = [] then base_name path else replace_first (file_ext path) [] (base_name path))
       @ ''_'' @ show_nat lineNumber @ ''_''"

definition GenerateDumpCode :: "string list \<Rightarrow> nat \<Rightarrow> string \<Rightarrow> string \<Rightarrow> string \<Rightarrow> string go" where
  "GenerateDumpCode vars lineNumber annotation path packagename =
     (case find_annotation annotation of
        None \<Rightarrow> Inl IndexOutOfRange
      | Some word \<Rightarrow>
          (let runtimeFunctionCall = title word
           in if length vars \<le> 0 then
                Inr (annotation @ '' (This line ['' @ show_nat lineNumber @ ''] contains no in-scope networking variables)'')
              else
                (let i = dump_id lineNumber path packagename;
                     namedVarList = join_comma (map (\<lambda>v. i @ v) vars);
                     varlist = join_comma vars
                 in Inr (''dinvRT.'' @ runtimeFunctionCall @ ''('' @ [dquote] @ i @ [dquote] @ '','' @ [dquote] @ namedVarList
                         @ [dquote] @ '','' @ varlist @ '')''))))"

definition comment_at :: "afile \<Rightarrow> nat \<times> nat \<Rightarrow> comment" where
  "comment_at file ij = comment_groups file ! fst ij ! snd ij"

definition set_text :: "nat \<times> nat \<Rightarrow> string \<Rightarrow> afile \<Rightarrow> afile" where
  "set_text ij t file =
     file\<lparr>comment_groups := (comment_groups file)
       [fst ij := (comment_groups file ! fst ij)[snd ij := (comment_at file ij)\<lparr>c_Text := t\<rparr>]]\<rparr>"

definition set_source :: "nat \<Rightarrow> nat \<Rightarrow> (SourceWrapper \<Rightarrow> SourceWrapper) \<Rightarrow> ProgramWrapper \<Rightarrow> ProgramWrapper" where
  "set_source pnum snum f prog =
     prog[pnum := (prog ! pnum)\<lparr>Sources := (Sources (prog ! pnum))[snum := f (Sources (prog ! pnum) ! snum)]\<rparr>]"

definition dinvRT_path :: string where
  "dinvRT_path = ''bitbucket.org/bestchai/dinv/dinvRT''"

definition addImports :: "ienv \<Rightarrow> afile \<Rightarrow> afile" where
  "addImports E file = foldl (\<lambda>f pack. AddImport E pack f) file [dinvRT_path]"

definition removeImports :: "ienv \<Rightarrow> afile \<Rightarrow> afile" where
  "removeImports E file =
     foldl (\<lambda>f pack. if \<not> UsesImport E pack f then DeleteImport E pack f else f) file [dinvRT_path]"

definition log_node :: "ienv \<Rightarrow> (nat, string list list) gomap \<Rightarrow> nat \<Rightarrow> nat \<Rightarrow> ProgramWrapper \<times> inst_state \<Rightarrow> nat \<times> nat \<Rightarrow> (ProgramWrapper \<times> inst_state) go" where
  "log_node E affected pnum snum ps ij =
     (let (prog, st) = ps;
          s = Sources (prog ! pnum) ! snum;
          c = comment_at (sw_Comments s) ij
      in rbind (getAccessedAffectedVars E c affected prog st) (\<lambda>(vars, st).
         rbind (GenerateDumpCode vars (line_of E (c_Pos c)) (c_Text c) (sw_Filename s) (PackageName (prog ! pnum))) (\<lambda>logcode.
           Inr (set_source pnum snum (\<lambda>s. s\<lparr>sw_Comments := set_text ij logcode (sw_Comments s)\<rparr>) prog, st))))"

text \<open>\<open>affected\<close> is the result of \<open>getAffectedVars\<close>.\<close>

definition InsturmentSource :: "ienv \<Rightarrow> (nat, string list list) gomap \<Rightarrow> nat \<Rightarrow> nat \<Rightarrow> ProgramWrapper \<Rightarrow> inst_state \<Rightarrow> (ProgramWrapper \<times> inst_state) go" where
  "InsturmentSource E affected pnum snum prog st =
     (let file = sw_Comments (Sources (prog ! pnum) ! snum);
          allNodes = GetLogNodes file ''@dump'' @ GetLogNodes file ''@track'';
          prog = (if length allNodes > 0
                  then set_source pnum snum (\<lambda>s. s\<lparr>sw_Comments := addImports E (sw_Comments s)\<rparr>) prog else prog)
      in rbind (foldR (log_node E affected pnum snum) (prog, st) allNodes) (\<lambda>(prog, st).
           Inr (set_source pnum snum (\<lambda>s. s\<lparr>sw_Text := Fprint E (sw_Comments s)\<rparr>) prog, st)))"

definition writeInstrumentedFile :: "ienv \<Rightarrow> nat \<Rightarrow> nat \<Rightarrow> ProgramWrapper \<Rightarrow> inst_state \<Rightarrow> inst_state go" where
  "writeInstrumentedFile E pnum snum prog st =
     (let s = Sources (prog ! pnum) ! snum
      in if create_file E (sw_Filename s) then Inr (st\<lparr>written := written st @ [(sw_Filename s, sw_Text s)]\<rparr>)
         else Inl (Panic ''create''))"

subsection \<open>Cleaning and moving\<close>

definition clean_expr :: "xexpr \<Rightarrow> xexpr" where
  "clean_expr x =
     (case x of
        XSelCall X Sel \<Rightarrow>
          if X = ''dinvRT'' \<and> Sel = ''Track'' then XIdent ''//@track''
          else if X = ''dinvRT'' \<and> Sel = ''Dump'' then XIdent ''//@dump''
          else x
      | _ \<Rightarrow> x)"

text \<open>The inspection goes on inside the new expression, an identifier, if there is one.\<close>

fun clean_stmt :: "xstmt \<Rightarrow> xstmt" where
  "clean_stmt (XStmt x inner) =
     (if clean_expr x = x then XStmt x (map clean_stmt inner) else XStmt (clean_expr x) [])"

definition clean_file :: "ienv \<Rightarrow> afile \<Rightarrow> afile" where
  "clean_file E file = removeImports E (file\<lparr>expr_stmts := map clean_stmt (expr_stmts file)\<rparr>)"

definition source_refs :: "ProgramWrapper \<Rightarrow> (nat \<times> nat) list" where
  "source_refs prog = [(i, j). i \<leftarrow> [0..<length prog], j \<leftarrow> [0..<length (Sources (prog ! i))]]"

definition cleanSources :: "ienv \<Rightarrow> ProgramWrapper \<Rightarrow> inst_state \<Rightarrow> (ProgramWrapper \<times> inst_state) go" where
  "cleanSources E prog st =
     foldR (\<lambda>(prog, st) (pnum, snum).
       let prog = set_source pnum snum (\<lambda>s. s\<lparr>sw_Comments := clean_file E (sw_Comments s)\<rparr>) prog;
           prog = set_source pnum snum (\<lambda>s. s\<lparr>sw_Text := Fprint E (sw_Comments s)\<rparr>) prog
       in rbind (writeInstrumentedFile E pnum snum prog st) (\<lambda>st. Inr (prog, st)))
     (prog, st) (source_refs prog)"

text \<open>The entries of the directory are those of \<open>filepath.Walk\<close>, with their paths in its order; the walk stops at an error.\<close>

fun swap_entries :: "ienv \<Rightarrow> string \<Rightarrow> string list \<Rightarrow> inst_state \<Rightarrow> bool \<times> inst_state" where
  "swap_entries E dir [] st = (True, st)"
| "swap_entries E dir (path # ps) st =
     (let newPath = replace_all dir (dir @ ''_orig'') path
      in if fs_ok E newPath then swap_entries E dir ps (st\<lparr>moved := moved st @ [(path, newPath)]\<rparr>)
         else (False, st))"

definition InplaceDirectorySwap :: "ienv \<Rightarrow> string \<Rightarrow> string list \<Rightarrow> inst_state \<Rightarrow> bool \<times> inst_state" where
  "InplaceDirectorySwap E dir entries st = swap_entries E dir entries st"

text \<open>
  \<open>getProgramWrapper\<close>: the program read from the directory or the file is \<open>None\<close> after an
  error; without directory and file there is a nil program, whose packages cannot be read.
\<close>

definition getProgramWrapper :: "ienv \<Rightarrow> (string \<Rightarrow> ProgramWrapper option) \<Rightarrow> (string \<Rightarrow> ProgramWrapper option) \<Rightarrow> string list \<Rightarrow> inst_state \<Rightarrow> (ProgramWrapper \<times> inst_state) go" where
  "getProgramWrapper E fromDirectory fromFile entries st =
     (if instDirectory st \<noteq> '''' then
        (case fromDirectory (instDirectory st) of
           None \<Rightarrow> Inl (Fatal ''Error'')
         | Some prog \<Rightarrow>
             (let (ok, st) = InplaceDirectorySwap E (instDirectory st) entries st
              in if ok then Inr (prog, st) else Inl (Fatal ''Error'')))
      else if instFile st \<noteq> '''' then
        (case fromFile (instFile st) of None \<Rightarrow> Inl (Fatal ''Error'') | Some prog \<Rightarrow> Inr (prog, st))
      else Inl NilPointer)"

definition Instrument :: "ienv \<Rightarrow> (ProgramWrapper \<Rightarrow> (nat, string list list) gomap) \<Rightarrow> (string \<Rightarrow> ProgramWrapper option) \<Rightarrow> (string \<Rightarrow> ProgramWrapper option)
    \<Rightarrow> string list \<Rightarrow> (string, string) gomap \<Rightarrow> inst_state \<Rightarrow> (ProgramWrapper \<times> inst_state) go" where
  "Instrument E affected fromDirectory fromFile entries options st =
     rbind (getProgramWrapper E fromDirectory fromFile entries (initializeInstrumenter options st)) (\<lambda>(prog, st).
       if clean st then cleanSources E prog st
       else
         foldR (\<lambda>(prog, st) (pnum, snum).
           rbind (InsturmentSource E (affected prog) pnum snum prog st) (\<lambda>(prog, st).
           rbind (writeInstrumentedFile E pnum snum prog st) (\<lambda>st. Inr (prog, st))))
         (prog, st) (source_refs prog))"

end
