(* ===== verification/Instrumenter_Props.thy ===== *)
theory Instrumenter_Props
  imports Instrumenter Dinv_RT_Props
begin

text \<open>
  Properties of the instrumenter: the calls it generates run, the access paths it computes for
  structs, the function it finds for a position, the scopes it remembers, and what it
  changes in a source.
\<close>

section \<open>Names\<close>

lemma dedup_loop:
  "set encountered = set noDups \<Longrightarrow> dedup_loop encountered noDups es = noDups @ rev (remdups (rev [e \<leftarrow> es. e \<notin> set noDups]))"
proof (induction es arbitrary: encountered noDups)
  case (Cons e es)
  have [simp]: "rev (remdups (xs @ [e])) = e # rev (remdups [x \<leftarrow> xs. x \<noteq> e])" for xs
    by (induction xs) auto
  show ?case
  proof (cases "e \<in> set noDups")
    case False
    have "[x \<leftarrow> es. x \<notin> set (noDups @ [e])] = [x \<leftarrow> [x \<leftarrow> es. x \<notin> set noDups]. x \<noteq> e]"
      by (auto intro: filter_cong)
    with False Cons.IH [of "e # encountered" "noDups @ [e]"] Cons.prems show ?thesis by (simp add: rev_filter conj_commute)
  qed (use Cons in simp)
qed simp

text \<open>The first occurrences are kept, in order.\<close>

lemma removedups_eq: "removedups xs = rev (remdups (rev xs))"
  by (simp add: removedups_def dedup_loop)

lemma removedups_props: "set (removedups xs) = set xs" "distinct (removedups xs)"
  by (simp_all add: removedups_eq)

lemma split_comma_word:
  "CHR '','' \<notin> set w \<Longrightarrow> split_comma w = [w]"
  by (induction w) auto

lemma split_comma_append:
  "CHR '','' \<notin> set w \<Longrightarrow> split_comma (w @ CHR '','' # s) = w # split_comma s"
  by (induction w) auto

lemma split_join_comma:
  "vs \<noteq> [] \<Longrightarrow> (\<And>v. v \<in> set vs \<Longrightarrow> CHR '','' \<notin> set v) \<Longrightarrow> split_comma (join_comma vs) = vs"
  by (induction vs rule: join_comma.induct) (auto simp: split_comma_word split_comma_append)

section \<open>Structs\<close>

text \<open>
  The struct type declared for a name. Types are known by name over all scopes of a file, the last
  declaration counts; only structs whose fields all have a name and an identifier as type are known.
\<close>

definition plain_struct :: "(string list \<times> string option) list \<Rightarrow> bool" where
  "plain_struct fs \<longleftrightarrow> list_all (\<lambda>(names, t). names \<noteq> [] \<and> t \<noteq> None) fs"

fun struct_decl :: "(string \<times> type_expr) list \<Rightarrow> string \<Rightarrow> (string list \<times> string option) list option" where
  "struct_decl [] T = None"
| "struct_decl ((name, t) # specs) T =
     (case struct_decl specs T of
        Some fs \<Rightarrow> Some fs
      | None \<Rightarrow> (case t of TStruct fs \<Rightarrow> if name = T \<and> plain_struct fs then Some fs else None | TOtherType \<Rightarrow> None))"

text \<open>
  The paths of fields of a declared struct, through nested structs. Of a field declaration the
  names in \<open>sel\<close> of its list of names count: all of them in the language, \<open>sel = set\<close>.
\<close>

inductive field_path :: "(string list \<Rightarrow> string set) \<Rightarrow> (string \<times> type_expr) list \<Rightarrow> string \<Rightarrow> string list \<Rightarrow> bool" for sel specs where
  field: "struct_decl specs T = Some fs \<Longrightarrow> (names, t) \<in> set fs \<Longrightarrow> n \<in> sel names \<Longrightarrow> field_path sel specs T [n]"
| nested: "struct_decl specs T = Some fs \<Longrightarrow> (names, Some ty) \<in> set fs \<Longrightarrow> n \<in> sel names \<Longrightarrow>
    field_path sel specs ty p \<Longrightarrow> field_path sel specs T (n # p)"

text \<open>The paths in the table the instrumenter keeps.\<close>

inductive access :: "(string, structIds) gomap \<Rightarrow> string \<Rightarrow> string list \<Rightarrow> bool" for s where
  field: "gomap_get s T = Some ids \<Longrightarrow> i < length (st_fields ids) \<Longrightarrow> access s T [st_fields ids ! i]"
| nested: "gomap_get s T = Some ids \<Longrightarrow> i < length (st_fields ids) \<Longrightarrow> gomap_get s (st_types ids ! i) \<noteq> None \<Longrightarrow>
    access s (st_types ids ! i) p \<Longrightarrow> access s T (st_fields ids ! i # p)"

definition access_name :: "string \<Rightarrow> string list \<Rightarrow> string" where
  "access_name name p = name @ concat (map (\<lambda>f. ''.'' @ f) p)"

definition table_ok :: "(string, structIds) gomap \<Rightarrow> bool" where
  "table_ok s \<longleftrightarrow> (\<forall>T ids. gomap_get s T = Some ids \<longrightarrow> length (st_types ids) = length (st_fields ids))"

definition table_entry :: "(string list \<times> string option) list \<Rightarrow> structIds" where
  "table_entry fs = \<lparr>st_fields = map (\<lambda>f. hd (fst f)) fs, st_types = map (\<lambda>f. the (snd f)) fs\<rparr>"

lemma struct_fields_entry:
  "struct_fields fs tmp = (if plain_struct fs
     then Some \<lparr>st_fields = st_fields tmp @ map (\<lambda>f. hd (fst f)) fs, st_types = st_types tmp @ map (\<lambda>f. the (snd f)) fs\<rparr> else None)"
  by (induction fs tmp rule: struct_fields.induct) (auto simp: plain_struct_def split: list.splits option.splits)

text \<open>The table holds, for every declared struct, the first names of its field declarations and their types.\<close>

lemma struct_decl_snoc:
  "struct_decl (specs @ [(name, t)]) T =
     (case t of TStruct fs \<Rightarrow> if name = T \<and> plain_struct fs then Some fs else struct_decl specs T | TOtherType \<Rightarrow> struct_decl specs T)"
  by (induction specs T rule: struct_decl.induct) (auto split: option.splits type_expr.splits)

lemma struct_fields_none: "struct_fields fs no_fields = (if plain_struct fs then Some (table_entry fs) else None)"
  by (simp add: struct_fields_entry no_fields_def table_entry_def)

lemma struct_table_snoc:
  "struct_table (specs @ [(name, t)]) =
     (case t of
        TStruct fs \<Rightarrow> if plain_struct fs then gomap_set name (table_entry fs) (struct_table specs) else struct_table specs
      | TOtherType \<Rightarrow> struct_table specs)"
  unfolding struct_table_def struct_fields_none by (cases t) simp_all

lemma struct_table_decl: "gomap_get (struct_table specs) T = map_option table_entry (struct_decl specs T)"
proof (induction specs rule: rev_induct)
  case (snoc spec specs)
  obtain name t where spec: "spec = (name, t)" by (cases spec)
  from snoc show ?case unfolding spec struct_decl_snoc struct_table_snoc
    by (cases t) (simp_all add: gomap_simps)
qed (simp add: struct_table_def)

lemma struct_table_ok: "table_ok (struct_table specs)"
  by (auto simp: table_ok_def struct_table_decl table_entry_def)

lemma struct_decl_plain: "struct_decl specs T = Some fs \<Longrightarrow> plain_struct fs"
  by (induction specs T rule: struct_decl.induct) (auto split: option.splits type_expr.splits if_splits)

lemma decl_entry:
  assumes "struct_decl specs T = Some fs" and "i < length fs"
  shows "fs ! i = (fst (fs ! i), Some (st_types (table_entry fs) ! i)) \<and> st_fields (table_entry fs) ! i = hd (fst (fs ! i))"
proof -
  obtain names t where "fs ! i = (names, t)" by (cases "fs ! i")
  moreover from this have "t \<noteq> None" using struct_decl_plain [OF assms(1)] nth_mem [OF assms(2)] by (auto simp: plain_struct_def list_all_iff)
  ultimately show ?thesis using assms(2) by (auto simp: table_entry_def)
qed

lemma access_field_path: "access (struct_table specs) T p \<longleftrightarrow> field_path (\<lambda>names. {hd names}) specs T p"
proof
  assume "access (struct_table specs) T p"
  then show "field_path (\<lambda>names. {hd names}) specs T p"
  proof induction
    case (field T ids i)
    then obtain fs where fs: "struct_decl specs T = Some fs" "ids = table_entry fs" "i < length fs"
      by (auto simp: struct_table_decl table_entry_def)
    from decl_entry [OF fs(1,3)] nth_mem [OF fs(3)] fs show ?case by (metis field_path.field singletonI)
  next
    case (nested T ids i p)
    then obtain fs where fs: "struct_decl specs T = Some fs" "ids = table_entry fs" "i < length fs"
      by (auto simp: struct_table_decl table_entry_def)
    from decl_entry [OF fs(1,3)] nth_mem [OF fs(3)] fs nested.IH show ?case by (metis field_path.nested singletonI)
  qed
next
  assume "field_path (\<lambda>names. {hd names}) specs T p"
  then show "access (struct_table specs) T p"
  proof induction
    case (field T fs names t n)
    then obtain i where i: "i < length fs" "fs ! i = (names, t)" by (auto simp: in_set_conv_nth)
    then have "access (struct_table specs) T [st_fields (table_entry fs) ! i]"
      by (intro access.field) (auto simp: struct_table_decl field table_entry_def)
    with field i show ?case by (simp add: table_entry_def)
  next
    case (nested T fs names ty n p)
    then obtain i where i: "i < length fs" "fs ! i = (names, Some ty)" by (auto simp: in_set_conv_nth)
    have "gomap_get (struct_table specs) ty \<noteq> None" using nested.IH by (cases rule: access.cases) auto
    then have "access (struct_table specs) T (st_fields (table_entry fs) ! i # p)"
      using i nested by (intro access.nested) (auto simp: struct_table_decl table_entry_def)
    with nested i show ?case by (simp add: table_entry_def)
  qed
qed

text \<open>If every declaration has one name, the first names are all names.\<close>

lemma field_path_single:
  assumes "\<forall>T fs names t. struct_decl specs T = Some fs \<longrightarrow> (names, t) \<in> set fs \<longrightarrow> length names = 1"
  shows "field_path (\<lambda>names. {hd names}) specs T p \<longleftrightarrow> field_path set specs T p"
proof -
  have one: "set names = {hd names}" if "struct_decl specs T = Some fs" "(names, t) \<in> set fs" for T fs names t
  proof -
    have "length names = 1" using assms that by blast
    then show ?thesis by (cases names) auto
  qed
  show ?thesis
  proof
    assume "field_path (\<lambda>names. {hd names}) specs T p"
    then show "field_path set specs T p" by induction (auto simp: one intro: field_path.intros)
  next
    assume "field_path set specs T p"
    then show "field_path (\<lambda>names. {hd names}) specs T p" by induction (auto simp: one intro: field_path.intros)
  qed
qed

lemma structClosure_fields:
  assumes "table_ok s" "gomap_get s T = Some ids"
    and "\<And>i. i < length (st_fields ids) \<Longrightarrow> gomap_get s (st_types ids ! i) \<noteq> None \<Longrightarrow>
      \<exists>ns. structClosure depth s (name @ ''.'' @ (st_fields ids ! i)) (st_types ids ! i) = Inr ns \<and> set ns = N i"
  shows "\<exists>ns. structClosure (Suc depth) s name T = Inr ns \<and>
    set ns = (\<Union>i < length (st_fields ids). insert (name @ ''.'' @ (st_fields ids ! i)) (if gomap_get s (st_types ids ! i) \<noteq> None then N i else {}))"
proof -
  let ?n = "\<lambda>i. name @ ''.'' @ (st_fields ids ! i)"
  let ?step = "\<lambda>i. rbind (index_go (st_types ids) i) (\<lambda>ty. let n = ?n i
                    in if gomap_get s ty \<noteq> None then rbind (structClosure depth s n ty) (\<lambda>ns. Inr (n # ns)) else Inr [n])"
  have len: "length (st_types ids) = length (st_fields ids)" using assms(1,2) by (simp add: table_ok_def)
  have "\<exists>ns. ?step i = Inr ns \<and> set ns = insert (?n i) (if gomap_get s (st_types ids ! i) \<noteq> None then N i else {})"
    if "i < length (st_fields ids)" for i
    using assms(3) [OF that] that len by (auto simp: Let_def)
  then have "\<forall>i \<in> {..<length (st_fields ids)}. \<exists>ns. ?step i = Inr ns \<and> set ns = insert (?n i) (if gomap_get s (st_types ids ! i) \<noteq> None then N i else {})"
    by blast
  from bchoice [OF this] obtain F where F: "\<And>i. i < length (st_fields ids) \<Longrightarrow> ?step i = Inr (F i)"
    "\<And>i. i < length (st_fields ids) \<Longrightarrow> set (F i) = insert (?n i) (if gomap_get s (st_types ids ! i) \<noteq> None then N i else {})"
    by blast
  have "traverse ?step [0..<length (st_fields ids)] = Inr (map F [0..<length (st_fields ids)])"
    using F(1) by (intro traverse_pure) auto
  then have "structClosure (Suc depth) s name T = Inr (concat (map F [0..<length (st_fields ids)]))"
    using assms(2) by (simp add: Let_def)
  moreover have "set (concat (map F [0..<length (st_fields ids)])) = (\<Union>i < length (st_fields ids). set (F i))"
    by auto
  ultimately show ?thesis using F(2) by (intro exI [of _ "concat (map F [0..<length (st_fields ids)])"]) simp
qed


lemma structClosure_access:
  assumes "table_ok s" and rank: "\<And>T ids i. gomap_get s T = Some ids \<Longrightarrow> i < length (st_fields ids) \<Longrightarrow>
      gomap_get s (st_types ids ! i) \<noteq> None \<Longrightarrow> rank (st_types ids ! i) < (rank T :: nat)"
  shows "rank T < depth \<Longrightarrow> gomap_get s T = Some ids \<Longrightarrow>
    \<exists>ns. structClosure depth s name T = Inr ns \<and> set ns = access_name name ` {p. access s T p}"
proof (induction depth arbitrary: T name ids)
  case (Suc depth)
  let ?n = "\<lambda>i. name @ ''.'' @ (st_fields ids ! i)"
  have "\<exists>ns. structClosure depth s (?n i) (st_types ids ! i) = Inr ns \<and> set ns = access_name (?n i) ` {p. access s (st_types ids ! i) p}"
    if i: "i < length (st_fields ids)" "gomap_get s (st_types ids ! i) \<noteq> None" for i
  proof -
    from i(2) obtain ids' where "gomap_get s (st_types ids ! i) = Some ids'" by blast
    with Suc.IH [of "st_types ids ! i" ids' "?n i"] rank [OF Suc.prems(2) i] Suc.prems(1) show ?thesis by simp
  qed
  from structClosure_fields [OF assms(1) Suc.prems(2) this]
  obtain ns where ns: "structClosure (Suc depth) s name T = Inr ns"
    "set ns = (\<Union>i < length (st_fields ids). insert (?n i)
       (if gomap_get s (st_types ids ! i) \<noteq> None then access_name (?n i) ` {p. access s (st_types ids ! i) p} else {}))" by blast
  have "set ns = access_name name ` {p. access s T p}" (is "_ = ?R")
  proof
    have "access_name name [f] = name @ ''.'' @ f" "access_name name (f # p) = access_name (name @ ''.'' @ f) p" for f p
      by (simp_all add: access_name_def)
    note nm = this
    show "set ns \<subseteq> ?R"
    proof
      fix x assume "x \<in> set ns"
      then obtain i where i: "i < length (st_fields ids)" and x: "x = ?n i \<or>
          (gomap_get s (st_types ids ! i) \<noteq> None \<and> (\<exists>p. access s (st_types ids ! i) p \<and> x = access_name (?n i) p))"
        unfolding ns(2) by (auto split: if_splits)
      from x show "x \<in> ?R"
      proof (elim disjE conjE exE)
        assume "x = ?n i"
        with access.field [OF Suc.prems(2) i] show ?thesis by (metis imageI mem_Collect_eq nm(1))
      next
        fix p assume "gomap_get s (st_types ids ! i) \<noteq> None" "access s (st_types ids ! i) p" "x = access_name (?n i) p"
        with access.nested [OF Suc.prems(2) i] show ?thesis by (metis imageI mem_Collect_eq nm(2))
      qed
    qed
    show "?R \<subseteq> set ns"
    proof
      fix x assume "x \<in> ?R"
      then obtain p where p: "access s T p" and x: "x = access_name name p" by blast
      from p show "x \<in> set ns"
      proof (cases rule: access.cases)
        case (field ids' i)
        with Suc.prems(2) x nm show ?thesis unfolding ns(2) by auto
      next
        case (nested ids' i q)
        with Suc.prems(2) x nm show ?thesis unfolding ns(2) by auto
      qed
    qed
  qed
  with ns(1) show ?case by blast
qed simp

lemma traverse_fails:
  assumes "x \<in> set xs" "f x = Inl e"
  shows "\<exists>e. traverse f xs = Inl e"
proof (cases "traverse f xs")
  case (Inr ys)
  then have "\<forall>i < length xs. \<exists>y. f (xs ! i) = Inr y" by (auto simp: traverse_Inr_iff)
  with assms show ?thesis by (metis in_set_conv_nth sum.distinct(1))
qed simp

text \<open>Types that contain each other exhaust the stack.\<close>

lemma structClosure_cycle:
  assumes "table_ok s" and C: "\<And>T. T \<in> C \<Longrightarrow> \<exists>ids. gomap_get s T = Some ids \<and> (\<exists>i < length (st_fields ids). st_types ids ! i \<in> C)"
  shows "T \<in> C \<Longrightarrow> \<exists>e. structClosure depth s name T = Inl e"
proof (induction depth arbitrary: T name)
  case (Suc depth)
  from C [OF Suc.prems] obtain ids i where ids: "gomap_get s T = Some ids" and i: "i < length (st_fields ids)" "st_types ids ! i \<in> C" by blast
  from assms(1) ids i(1) have "i < length (st_types ids)" by (simp add: table_ok_def)
  from Suc.IH [OF i(2), of "name @ ''.'' @ (st_fields ids ! i)"] obtain e where
    e: "structClosure depth s (name @ ''.'' @ (st_fields ids ! i)) (st_types ids ! i) = Inl e" by blast
  let ?step = "\<lambda>i. rbind (index_go (st_types ids) i) (\<lambda>ty. let n = name @ ''.'' @ (st_fields ids ! i)
     in if gomap_get s ty \<noteq> None then rbind (structClosure depth s n ty) (\<lambda>ns. Inr (n # ns)) else Inr [n])"
  have "gomap_get s (st_types ids ! i) \<noteq> None" using C [OF i(2)] by auto
  with e \<open>i < length (st_types ids)\<close> have "?step i = Inl e" by (simp add: Let_def)
  with i(1) traverse_fails [of i "[0..<length (st_fields ids)]" ?step e] obtain e' where
    "traverse ?step [0..<length (st_fields ids)] = Inl e'" by auto
  with ids show ?case by (simp add: Let_def)
qed simp

text \<open>
  Structs are collected by name over all scopes of a file. In this file the package declares \<open>B\<close>, one
  function declares \<open>A\<close> and a \<open>B\<close> with a field of that \<open>A\<close>, a later function an \<open>A\<close> with a field of
  the \<open>B\<close> of the package: no type contains itself, but the collected table has a cycle.
\<close>

lemma struct_names_clash:
  "\<exists>e. structClosure depth (struct_table [(''B'', TStruct [([''z''], Some ''int'')]), (''A'', TStruct [([''y''], Some ''int'')]),
     (''B'', TStruct [([''a''], Some ''A'')]), (''A'', TStruct [([''b''], Some ''B'')])]) name ''A'' = Inl e"
  by (rule structClosure_cycle [OF struct_table_ok, of "{''A'', ''B''}"]) (auto simp: struct_table_def no_fields_def)

section \<open>Positions\<close>

definition is_func_decl :: "top_decl \<Rightarrow> bool" where
  "is_func_decl d \<longleftrightarrow> (case d of FuncDecl _ _ _ \<Rightarrow> True | GenDecl _ \<Rightarrow> False)"

lemma find_between_before: "ds \<noteq> [] \<Longrightarrow> sorted_wrt (<) (map decl_pos ds) \<Longrightarrow> p < decl_pos (hd ds) \<Longrightarrow> find_between p c ds = Inr (- 1, None)"
  by (induction p c ds rule: find_between.induct) (auto simp: Let_def)

lemma find_between_after:
  assumes "ds \<noteq> []" "sorted_wrt (<) (map decl_pos ds)" "decl_pos (hd ds) < p" "p \<notin> set (map decl_pos ds)"
  shows "find_between p c ds =
    (let before = takeWhile (\<lambda>d. decl_pos d < p) ds
     in if is_func_decl (last before) then Inr (c + int (length (filter is_func_decl before)), Some (last before)) else Inl TypeAssertion)"
  using assms
proof (induction p c ds rule: find_between.induct)
  case (2 p c d)
  then show ?case by (cases d) (simp_all add: is_func_decl_def)
next
  case (3 p c d d' ds)
  show ?case
  proof (cases "p < decl_pos d'")
    case True
    with 3(2-) show ?thesis by (cases d) (auto simp: is_func_decl_def)
  next
    case False
    with 3(5) have "decl_pos d' < p" by auto
    moreover have "sorted_wrt (<) (map decl_pos (d' # ds))" "p \<notin> set (map decl_pos (d' # ds))" using 3(3,5) by auto
    ultimately show ?thesis
      using 3(1) [of "case d of FuncDecl _ _ _ \<Rightarrow> c + 1 | GenDecl _ \<Rightarrow> c"] False 3(2-)
      by (cases d) (auto simp: is_func_decl_def Let_def)
  qed
qed simp



section \<open>Rewriting of comments\<close>

definition valid_ref :: "afile \<Rightarrow> nat \<times> nat \<Rightarrow> bool" where
  "valid_ref f ij \<longleftrightarrow> fst ij < length (comment_groups f) \<and> snd ij < length (comment_groups f ! fst ij)"

abbreviation source_at :: "ProgramWrapper \<Rightarrow> nat \<Rightarrow> nat \<Rightarrow> SourceWrapper" where
  "source_at prog pnum snum \<equiv> Sources (prog ! pnum) ! snum"

definition in_program :: "ProgramWrapper \<Rightarrow> nat \<Rightarrow> nat \<Rightarrow> bool" where
  "in_program prog pnum snum \<longleftrightarrow> pnum < length prog \<and> snum < length (Sources (prog ! pnum))"

lemma GetLogNodes_iff: "ij \<in> set (GetLogNodes f a) \<longleftrightarrow> valid_ref f ij \<and> str_contains a (c_Text (comment_at f ij))"
proof (cases ij)
  case (Pair i j)
  have "ij \<in> set (GetLogNodes f a) \<longleftrightarrow> (\<exists>g c. (i, g) \<in> set (enumerate 0 (comment_groups f)) \<and> (j, c) \<in> set (enumerate 0 g) \<and> str_contains a (c_Text c))"
    unfolding GetLogNodes_def Pair by fastforce
  then show ?thesis by (auto simp: Pair valid_ref_def comment_at_def in_set_enumerate_eq)
qed

lemma distinct_refs:
  "distinct (concat (map (\<lambda>(i, g). [(i, j). (j, c) \<leftarrow> enumerate 0 g, P c]) (enumerate k gs)))"
proof (induction gs arbitrary: k)
  case (Cons g gs)
  have inner: "distinct [(k, j). (j, c) \<leftarrow> enumerate m g, P c]" for m
    by (induction g arbitrary: m) (auto simp: in_set_enumerate_eq)
  have "fst x = k" if "x \<in> set [(k, j). (j, c) \<leftarrow> enumerate 0 g, P c]" for x
    using that by auto
  moreover have "Suc k \<le> fst x" if "x \<in> set (concat (map (\<lambda>(i, g). [(i, j). (j, c) \<leftarrow> enumerate 0 g, P c]) (enumerate (Suc k) gs)))" for x
    using that by (auto simp: in_set_enumerate_eq)
  ultimately have "set [(k, j). (j, c) \<leftarrow> enumerate 0 g, P c] \<inter>
      set (concat (map (\<lambda>(i, g). [(i, j). (j, c) \<leftarrow> enumerate 0 g, P c]) (enumerate (Suc k) gs))) = {}" by fastforce
  with inner [of 0] Cons [of "Suc k"] show ?case by simp
qed simp

lemma distinct_GetLogNodes: "distinct (GetLogNodes f a)"
  using distinct_refs [of "\<lambda>c. str_contains a (c_Text c)" 0 "comment_groups f"] by (simp add: GetLogNodes_def)

lemma set_text_at:
  assumes "valid_ref f ij"
  shows "comment_at (set_text ij t f) ij' = (if ij' = ij then (comment_at f ij)\<lparr>c_Text := t\<rparr> else comment_at f ij')"
    and "valid_ref (set_text ij t f) ij' = valid_ref f ij'"
  using assms by (cases ij; cases ij'; auto simp: comment_at_def set_text_def valid_ref_def nth_list_update)+

lemma set_source_at:
  assumes "in_program prog pnum snum"
  shows "source_at (set_source pnum snum f prog) pnum snum = f (source_at prog pnum snum)"
    and "in_program (set_source pnum snum f prog) pnum snum"
    and "PackageName (set_source pnum snum f prog ! pnum) = PackageName (prog ! pnum)"
    and "(i, j) \<noteq> (pnum, snum) \<Longrightarrow> source_at (set_source pnum snum f prog) i j = source_at prog i j"
  using assms by (auto simp: set_source_def in_program_def nth_list_update)

lemma log_node_result:
  assumes "log_node E aff pnum snum (prog, st) ij = Inr (prog', st')"
  obtains vars code where
    "GenerateDumpCode vars (line_of E (c_Pos (comment_at (sw_Comments (source_at prog pnum snum)) ij)))
       (c_Text (comment_at (sw_Comments (source_at prog pnum snum)) ij)) (sw_Filename (source_at prog pnum snum))
       (PackageName (prog ! pnum)) = Inr code"
    "prog' = set_source pnum snum (\<lambda>s. s\<lparr>sw_Comments := set_text ij code (sw_Comments s)\<rparr>) prog"
  using assms by (auto simp: log_node_def Let_def go_bind)

text \<open>The comment that instrumentation makes of a comment.\<close>

definition logged :: "ienv \<Rightarrow> string \<Rightarrow> string \<Rightarrow> comment \<Rightarrow> comment \<Rightarrow> bool" where
  "logged E filename packagename c c' \<longleftrightarrow> c_Pos c' = c_Pos c \<and>
     (\<exists>vars. GenerateDumpCode vars (line_of E (c_Pos c)) (c_Text c) filename packagename = Inr (c_Text c'))"

lemma log_nodes_result:
  assumes "foldR (log_node E aff pnum snum) (prog, st) nodes = Inr (prog', st')" "in_program prog pnum snum" "distinct nodes"
    "\<And>ij. ij \<in> set nodes \<Longrightarrow> valid_ref (sw_Comments (source_at prog pnum snum)) ij"
  shows "in_program prog' pnum snum \<and>
    sw_Filename (source_at prog' pnum snum) = sw_Filename (source_at prog pnum snum) \<and>
    (\<forall>i j. (i, j) \<noteq> (pnum, snum) \<longrightarrow> source_at prog' i j = source_at prog i j) \<and>
    (\<forall>ij. if ij \<in> set nodes
       then logged E (sw_Filename (source_at prog pnum snum)) (PackageName (prog ! pnum))
         (comment_at (sw_Comments (source_at prog pnum snum)) ij) (comment_at (sw_Comments (source_at prog' pnum snum)) ij)
       else comment_at (sw_Comments (source_at prog' pnum snum)) ij = comment_at (sw_Comments (source_at prog pnum snum)) ij)"
  using assms
proof (induction nodes arbitrary: prog st)
  case (Cons ij nodes)
  from Cons.prems(1) obtain x st1 where x: "log_node E aff pnum snum (prog, st) ij = Inr (x, st1)"
    and run: "foldR (log_node E aff pnum snum) (x, st1) nodes = Inr (prog', st')" by (auto simp: go_bind)
  from x obtain vars code where
    code: "GenerateDumpCode vars (line_of E (c_Pos (comment_at (sw_Comments (source_at prog pnum snum)) ij)))
       (c_Text (comment_at (sw_Comments (source_at prog pnum snum)) ij)) (sw_Filename (source_at prog pnum snum))
       (PackageName (prog ! pnum)) = Inr code"
    and x': "x = set_source pnum snum (\<lambda>s. s\<lparr>sw_Comments := set_text ij code (sw_Comments s)\<rparr>) prog"
    by (rule log_node_result)
  have v: "valid_ref (sw_Comments (source_at prog pnum snum)) ij" using Cons.prems(4) by simp
  note at = set_source_at [OF Cons.prems(2), where f = "\<lambda>s. s\<lparr>sw_Comments := set_text ij code (sw_Comments s)\<rparr>", folded x']
  have IH: "in_program prog' pnum snum \<and>
    sw_Filename (source_at prog' pnum snum) = sw_Filename (source_at x pnum snum) \<and>
    (\<forall>i j. (i, j) \<noteq> (pnum, snum) \<longrightarrow> source_at prog' i j = source_at x i j) \<and>
    (\<forall>ij. if ij \<in> set nodes
       then logged E (sw_Filename (source_at x pnum snum)) (PackageName (x ! pnum))
         (comment_at (sw_Comments (source_at x pnum snum)) ij) (comment_at (sw_Comments (source_at prog' pnum snum)) ij)
       else comment_at (sw_Comments (source_at prog' pnum snum)) ij = comment_at (sw_Comments (source_at x pnum snum)) ij)"
    using Cons.prems(3,4) by (intro Cons.IH [OF run at(2)]) (simp_all add: at(1) set_text_at [OF v])
  have "logged E (sw_Filename (source_at prog pnum snum)) (PackageName (prog ! pnum))
      (comment_at (sw_Comments (source_at prog pnum snum)) ij) (comment_at (sw_Comments (source_at x pnum snum)) ij)"
    using code by (auto simp: logged_def at(1) set_text_at [OF v])
  moreover have "comment_at (sw_Comments (source_at x pnum snum)) kl = comment_at (sw_Comments (source_at prog pnum snum)) kl"
    if "kl \<noteq> ij" for kl
    using that by (simp add: at(1) set_text_at(1) [OF v])
  moreover have "sw_Filename (source_at x pnum snum) = sw_Filename (source_at prog pnum snum)" by (simp add: at(1))
  ultimately have "if kl \<in> set (ij # nodes)
       then logged E (sw_Filename (source_at prog pnum snum)) (PackageName (prog ! pnum))
         (comment_at (sw_Comments (source_at prog pnum snum)) kl) (comment_at (sw_Comments (source_at prog' pnum snum)) kl)
       else comment_at (sw_Comments (source_at prog' pnum snum)) kl = comment_at (sw_Comments (source_at prog pnum snum)) kl" for kl
    using conjunct2 [OF conjunct2 [OF conjunct2 [OF IH]], rule_format, of kl] Cons.prems(3) at(3)
    by (cases "kl = ij") (simp_all split: if_splits)
  moreover have "\<forall>i j. (i, j) \<noteq> (pnum, snum) \<longrightarrow> source_at prog' i j = source_at prog i j"
    using IH at(4) by simp
  ultimately show ?case using IH at(1) by simp
qed simp



section \<open>Cleaning\<close>

fun calls_dinvRT :: "xstmt \<Rightarrow> bool" where
  "calls_dinvRT (XStmt x inner) \<longleftrightarrow> x \<in> {XSelCall ''dinvRT'' ''Dump'', XSelCall ''dinvRT'' ''Track''} \<or> list_ex calls_dinvRT inner"

text \<open>No call of the library is left, and cleaning twice changes nothing more.\<close>

lemma clean_stmt_no_calls: "\<not> calls_dinvRT (clean_stmt s)"
proof (induction s)
  case (XStmt x inner)
  then show ?case by (cases x) (auto simp: clean_expr_def list_ex_iff split: if_splits)
qed

lemma clean_stmt_idem: "clean_stmt (clean_stmt s) = clean_stmt s"
proof (induction s)
  case (XStmt x inner)
  then show ?case by (cases x) (auto simp: clean_expr_def)
qed

text \<open>All occurrences of the directory in a path are replaced, also those inside other names.\<close>

lemma swap_renames_inside: "replace_all ''a'' (''a'' @ ''_orig'') ''a/bar.go'' = ''a_orig/ba_origr.go''"
  by (simp add: has_prefix_def)

section \<open>Properties\<close>

text \<open>
  C29: generated calls run. For an annotation \<open>//@word\<close> and at least one variable, the text put in
  place of the comment is a call of the library function named by the word, with the id of the
  place, a list of qualified names and the list of variables; if no name contains a comma,
  splitting the list of names gives one name per variable. So on every host that
  logs locally, once initialised, the call \<open>Dump\<close> and the call \<open>Track\<close> it stands for succeed, for any values.
\<close>

theorem generated_code_runs:
  assumes "find_annotation annotation = Some word" "vars \<noteq> []"
    and comma: "CHR '','' \<notin> set (dump_id line path packagename)" "\<And>v. v \<in> set vars \<Longrightarrow> CHR '','' \<notin> set v"
    and host: "run_calls G E (rt_start False) cs = Inr s" "cs \<noteq> []" "length vals = length vars"
  shows "\<exists>names variables. GenerateDumpCode vars line annotation path packagename =
      Inr (''dinvRT.'' @ title word @ ''('' @ [dquote] @ dump_id line path packagename @ [dquote] @ '','' @ [dquote] @ names @ [dquote]
           @ '','' @ variables @ '')'') \<and>
    split_comma names = map (\<lambda>v. dump_id line path packagename @ v) vars \<and> split_comma variables = vars \<and>
    (\<exists>s'. Dump_call G E (dump_id line path packagename) names vals s = Inr s') \<and>
    (\<exists>s'. Track G E (dump_id line path packagename) names vals s = Inr s')"
proof -
  let ?i = "dump_id line path packagename"
  let ?names = "join_comma (map (\<lambda>v. ?i @ v) vars)"
  have names: "split_comma ?names = map (\<lambda>v. ?i @ v) vars" using assms(2) comma by (intro split_join_comma) auto
  have "split_comma (join_comma vars) = vars" using assms(2) comma(2) by (intro split_join_comma)
  moreover have u: "up s" and "remotelogging s = False"
    using run_calls_up [OF rt_inv_start host(1)] run_calls_frame [OF rt_inv_start host(1)] host(2) by (auto simp: rt_start_def)
  then obtain ps m where "Encoder s = Some ps" and m: "varStore s = Some m" by (auto simp: up_def rt_inv_def)
  then have "\<exists>s'. Dump_call G E ?i ?names vals s = Inr s'"
    using u host(3) names by (simp add: Dump_call_def logPairList_up)
  moreover have "\<exists>s'. Track G E ?i ?names vals s = Inr s'"
    using Track_up [OF u m, of ?names vals G E ?i] host(3) names by (metis length_map)
  ultimately show ?thesis
    using assms(1,2) names by (intro exI [of _ ?names] exI [of _ "join_comma vars"]) (simp add: GenerateDumpCode_def Let_def)
qed

theorem generated_code_runs_witness:
  "\<exists>names variables. GenerateDumpCode [''x'', ''y.z''] 12 ''//@dump'' ''src/main.go'' ''main'' =
      Inr (''dinvRT.Dump('' @ [dquote] @ ''main_main_12_'' @ [dquote] @ '','' @ [dquote] @ names @ [dquote] @ '','' @ variables @ '')'') \<and>
    split_comma names = [''main_main_12_x'', ''main_main_12_y.z''] \<and> split_comma variables = [''x'', ''y.z'']"
proof -
  have a: "find_annotation ''//@dump'' = Some ''dump''" by (simp add: has_prefix_def is_lower_def)
  have i: "dump_id 12 ''src/main.go'' ''main'' = ''main_main_12_''"
    by (simp add: dump_id_def file_ext_def base_name_def has_prefix_def show_nat.simps digit_char_def char_of_def bit_0)
  have t: "title ''dump'' = ''Dump''" by code_simp
  obtain s where s: "run_calls counter_govec plain_env (rt_start False) [CInitalize ''a''] = Inr s"
    by (auto simp: run_calls_def run_call_def Initalize_def initDinv_def rt_start_def plain_env_def counter_govec_def
        is_space_def Let_def)
  have c: "CHR '','' \<notin> set v" if "v \<in> set [''x'', ''y.z'']" for v using that by auto
  show ?thesis
    using generated_code_runs [OF a _ _ c s, where vars = "[''x'', ''y.z'']" and line = 12 and path = "''src/main.go''" and packagename = "''main''" and vals = "[None, None]"]
    unfolding i t by auto
qed



text \<open>
  C32: the access paths of structs, from their declarations. If no struct contains itself through its
  fields, the closure of a variable of a declared struct type returns when the stack is deeper
  than the nesting of the structs. It consists of exactly the paths of fields, nested ones included,
  that use the first name of every field declaration; a further name, as \<open>y\<close> in \<open>x, y int\<close>, is
  left out with all that lies below it. If every field is declared on its own, these are all paths of fields of the type.
\<close>

theorem structClosure_correct:
  assumes "struct_decl specs T \<noteq> None" and "rank T < depth"
    and "\<forall>T fs names ty. struct_decl specs T = Some fs \<longrightarrow> (names, Some ty) \<in> set fs \<longrightarrow> struct_decl specs ty \<noteq> None \<longrightarrow>
      rank ty < (rank T :: nat)"
  shows "\<exists>ns. structClosure depth (struct_table specs) name T = Inr ns \<and>
    set ns = access_name name ` {p. field_path (\<lambda>names. {hd names}) specs T p} \<and>
    ((\<forall>T fs names t. struct_decl specs T = Some fs \<longrightarrow> (names, t) \<in> set fs \<longrightarrow> length names = 1) \<longrightarrow>
      set ns = access_name name ` {p. field_path set specs T p})"
proof -
  obtain ids where ids: "gomap_get (struct_table specs) T = Some ids" using assms(1) by (auto simp: struct_table_decl)
  have "rank (st_types ids ! i) < rank T" if i: "gomap_get (struct_table specs) T = Some ids" "i < length (st_fields ids)"
    "gomap_get (struct_table specs) (st_types ids ! i) \<noteq> None" for T ids i
  proof -
    obtain fs where fs: "struct_decl specs T = Some fs" "ids = table_entry fs" "i < length fs"
      using i(1,2) by (auto simp: struct_table_decl table_entry_def)
    then show ?thesis using decl_entry [OF fs(1,3)] nth_mem [OF fs(3)] i(3) assms(3) by (metis option.map_disc_iff struct_table_decl)
  qed
  from structClosure_access [OF struct_table_ok this assms(2) ids, of name] obtain ns where
    "structClosure depth (struct_table specs) name T = Inr ns" "set ns = access_name name ` {p. field_path (\<lambda>names. {hd names}) specs T p}"
    unfolding access_field_path by blast
  moreover have "{p. field_path (\<lambda>names. {hd names}) specs T p} = {p. field_path set specs T p}"
    if "\<forall>T fs names t. struct_decl specs T = Some fs \<longrightarrow> (names, t) \<in> set fs \<longrightarrow> length names = 1"
    using field_path_single [OF that] by blast
  ultimately show ?thesis by metis
qed

text \<open>A struct with a nested one, and one that declares two fields together.\<close>

definition demo_structs :: "(string \<times> type_expr) list" where
  "demo_structs = [(''A'', TStruct [([''x''], Some ''int''), ([''b''], Some ''B'')]), (''B'', TStruct [([''y'', ''z''], Some ''int'')])]"

lemma demo_decls:
  "struct_decl demo_structs T =
     (if T = ''A'' then Some [([''x''], Some ''int''), ([''b''], Some ''B'')]
      else if T = ''B'' then Some [([''y'', ''z''], Some ''int'')] else None)"
  by (simp add: demo_structs_def plain_struct_def)

lemma demo_A: "struct_decl demo_structs ''A'' = Some [([''x''], Some ''int''), ([''b''], Some ''B'')]"
  and demo_B: "struct_decl demo_structs ''B'' = Some [([''y'', ''z''], Some ''int'')]"
  and demo_int: "\<not> field_path sel demo_structs ''int'' p"
  by (auto simp: demo_decls elim: field_path.cases)

lemma demo_paths_B: "field_path (\<lambda>names. {hd names}) demo_structs ''B'' p \<longleftrightarrow> p = [''y'']"
proof
  assume "field_path (\<lambda>names. {hd names}) demo_structs ''B'' p"
  then show "p = [''y'']" by (cases rule: field_path.cases) (auto simp: demo_B demo_int)
next
  assume "p = [''y'']"
  then show "field_path (\<lambda>names. {hd names}) demo_structs ''B'' p" using field_path.field [OF demo_B] by auto
qed

lemma demo_paths_A: "field_path (\<lambda>names. {hd names}) demo_structs ''A'' p \<longleftrightarrow> p = [''x''] \<or> p = [''b''] \<or> p = [''b'', ''y'']"
proof
  assume "field_path (\<lambda>names. {hd names}) demo_structs ''A'' p"
  then show "p = [''x''] \<or> p = [''b''] \<or> p = [''b'', ''y'']" by (cases rule: field_path.cases) (auto simp: demo_A demo_int demo_paths_B)
next
  assume "p = [''x''] \<or> p = [''b''] \<or> p = [''b'', ''y'']"
  then show "field_path (\<lambda>names. {hd names}) demo_structs ''A'' p"
    using field_path.field [OF demo_A, of "[''x'']" "Some ''int''" "''x''"] field_path.field [OF demo_A, of "[''b'']" "Some ''B''" "''b''"]
      field_path.nested [OF demo_A, of "[''b'']" "''B''" "''b''"] by (auto simp: demo_paths_B)
qed

lemma demo_path_lost: "field_path set demo_structs ''A'' [''b'', ''z'']"
  using field_path.nested [OF demo_A, of "[''b'']" "''B''" "''b''" set] field_path.field [OF demo_B, of _ _ "''z''" set] by auto

theorem structClosure_correct_witness:
  "\<exists>ns. structClosure 2 (struct_table demo_structs) ''v'' ''A'' = Inr ns \<and> set ns = {''v.x'', ''v.b'', ''v.b.y''} \<and>
    field_path set demo_structs ''A'' [''b'', ''z''] \<and> access_name ''v'' [''b'', ''z''] \<notin> set ns"
proof -
  have rank: "\<forall>T fs names ty. struct_decl demo_structs T = Some fs \<longrightarrow> (names, Some ty) \<in> set fs \<longrightarrow> struct_decl demo_structs ty \<noteq> None \<longrightarrow>
      (if ty = ''A'' then 1 else 0) < (if T = ''A'' then 1 else (0 :: nat))"
    by (simp add: demo_decls)
  obtain ns where "structClosure 2 (struct_table demo_structs) ''v'' ''A'' = Inr ns"
    "set ns = access_name ''v'' ` {p. field_path (\<lambda>names. {hd names}) demo_structs ''A'' p}"
    using structClosure_correct [of demo_structs "''A''" "\<lambda>T. if T = ''A'' then 1 else 0" 2 "''v''", OF _ _ rank] demo_A by auto
  moreover have "access_name ''v'' ` {p. field_path (\<lambda>names. {hd names}) demo_structs ''A'' p} = {''v.x'', ''v.b'', ''v.b.y''}"
    unfolding demo_paths_A Collect_disj_eq image_Un by (simp add: access_name_def insert_commute)
  moreover have "access_name ''v'' [''b'', ''z''] \<notin> {''v.x'', ''v.b'', ''v.b.y''}" by (simp add: access_name_def)
  ultimately show ?thesis using demo_path_lost by metis
qed

text \<open>
  C31: the function of a position. With the declarations of a file in order, a position after the
  start of a declaration, up to the start of the next one, is attributed to that declaration:
  to a function with its number, while a position in or after any other declaration makes
  the instrumenter panic. A position before all declarations belongs to no function.
\<close>

theorem FindFunction_correct:
  assumes "decls \<noteq> []" "sorted_wrt (<) (map decl_pos decls)" "p \<notin> set (map decl_pos decls)"
  shows "FindFunction p decls =
    (let before = takeWhile (\<lambda>d. decl_pos d < p) decls
     in if before = [] then Inr (- 1, None)
        else if is_func_decl (last before) then Inr (int (length (filter is_func_decl before)) - 1, Some (last before))
        else Inl TypeAssertion)"
proof (cases "decl_pos (hd decls) < p")
  case True
  then have "takeWhile (\<lambda>d. decl_pos d < p) decls \<noteq> []" using assms(1) by (cases decls) auto
  with find_between_after [OF assms(1,2) True assms(3)] show ?thesis by (simp add: FindFunction_def Let_def)
next
  case False
  with assms(1,3) have "p < decl_pos (hd decls)" by (cases decls) auto
  with find_between_before [OF assms(1,2) this] False assms(1) show ?thesis
    by (cases decls) (simp_all add: FindFunction_def)
qed

theorem FindFunction_correct_witness:
  "FindFunction 7 [GenDecl 1, FuncDecl 5 0 [], GenDecl 20] = Inr (0, Some (FuncDecl 5 0 [])) \<and>
   FindFunction 25 [GenDecl 1, FuncDecl 5 0 [], GenDecl 20] = Inl TypeAssertion"
  using FindFunction_correct [of "[GenDecl 1, FuncDecl 5 0 [], GenDecl 20]" 7]
    FindFunction_correct [of "[GenDecl 1, FuncDecl 5 0 [], GenDecl 20]" 25]
  by (simp add: is_func_decl_def)

text \<open>
  The cache of scopes is stale. Once the variables at a position have been computed, every
  position inside the innermost node found there gets the same variables, whatever is declared at
  or before it and even if it lies in another file: a variable declared between two annotations of
  a block is not logged by the second, and one declared after both can be logged by the first.
\<close>

lemma scope_cache_stale:
  assumes "locals st = []" "GetLocalVariables E p file st = Inr (vs, st')" "locals st' = [((a, b), ws)]"
    and "a \<le> q" "q \<le> b" "token_file file' = Some (base, siz)" "q + 2 \<le> siz" "range_scopes E [(a, b)] = [(a, b)]"
  shows "GetLocalVariables E q file' st' = Inr (vs, st')"
proof -
  have "st' \<noteq> st" using assms(1,3) by auto
  with assms(1,2) obtain n where "locals st' = [((path_pos n, path_end n), vs)]"
    by (cases "PathEnclosingInterval E file (fst (the (token_file file)) + p) (fst (the (token_file file)) + p + 2)")
      (auto simp: GetLocalVariables_def go_bind Let_def split: option.splits if_splits)
  with assms(3) have "ws = vs" by simp
  with assms(3-) show ?thesis by (simp add: GetLocalVariables_def Inside_def)
qed

text \<open>One file, a block that declares \<open>x\<close> at 5 and \<open>y\<close> at 20.\<close>

definition demo_file :: afile where
  "demo_file = \<lparr>file_addr = 0, file_Pos = 1, file_End = 100, token_file = Some (1, 100), Decls = [FuncDecl 1 0 []],
     comment_groups = [], scope_objects = [], type_specs = [], value_specs = [], expr_stmts = []\<rparr>"

definition demo_ienv :: ienv where
  "demo_ienv = \<lparr>PathEnclosingInterval = (\<lambda>_ _ _. [PBlock 2 90 [BDefine [[(''x'', 5)]], BDefine [[(''y'', 20)]]]]),
     line_of = nat, Fprint = (\<lambda>f. concat (map (\<lambda>c. c_Text c) (concat (comment_groups f)))), AddImport = (\<lambda>_ f. f), DeleteImport = (\<lambda>_ f. f),
     UsesImport = (\<lambda>_ _. True), range_scopes = (\<lambda>ls. ls), range_objects = (\<lambda>ns. ns), create_file = (\<lambda>_. True),
     fs_ok = (\<lambda>_. True), stack_depth = 10\<rparr>"

definition demo_inst :: inst_state where
  "demo_inst = \<lparr>clean = False, dataflow = False, debug = False, dumpsLocalEvents = False, instDirectory = [], instFile = [],
     globals = [], locals = [], written = [], moved = []\<rparr>"

lemmas inst_eval = GetLocalVariables_def param_vars_def path_vars_def stmt_vars_def names_before_def FindFunction_def
  collectStructs_def struct_table_def demo_file_def demo_ienv_def demo_inst_def Let_def

lemma scope_cache_stale_witness:
  "\<exists>st. GetLocalVariables demo_ienv 10 demo_file demo_inst = Inr ([''x''], st) \<and>
    GetLocalVariables demo_ienv 30 demo_file st = Inr ([''x''], st) \<and>
    GetLocalVariables demo_ienv 30 demo_file demo_inst \<noteq> Inr ([''x''], st)"
proof -
  obtain st where st: "GetLocalVariables demo_ienv 10 demo_file demo_inst = Inr ([''x''], st)" "locals st = [((2, 90), [''x''])]"
    by (simp add: inst_eval)
  have "GetLocalVariables demo_ienv 30 demo_file st = Inr ([''x''], st)"
    using scope_cache_stale [OF _ st(1,2), of 30 demo_file 1 100] by (simp add: demo_inst_def demo_file_def demo_ienv_def)
  moreover have "GetLocalVariables demo_ienv 30 demo_file demo_inst \<noteq> Inr ([''x''], st)"
    by (simp add: inst_eval)
  ultimately show ?thesis using st(1) by blast
qed

text \<open>
  C30: instrumentation of a source. If it succeeds, every comment with one of the annotations is replaced by the
  code generated for it and keeps its position, all other comments and all other sources stay
  as they are, and the text of the source is what is printed for it. This supposes that adding an import
  keeps the comments, and that no comment carries both annotations.
\<close>

theorem InsturmentSource_correct:
  assumes "InsturmentSource E aff pnum snum prog st = Inr (prog', st')" "in_program prog pnum snum"
    and imp: "\<And>pack f. comment_groups (AddImport E pack f) = comment_groups f"
    and one: "\<And>ij. valid_ref (sw_Comments (source_at prog pnum snum)) ij \<Longrightarrow>
      \<not> (str_contains ''@dump'' (c_Text (comment_at (sw_Comments (source_at prog pnum snum)) ij)) \<and>
         str_contains ''@track'' (c_Text (comment_at (sw_Comments (source_at prog pnum snum)) ij)))"
    and ij: "valid_ref (sw_Comments (source_at prog pnum snum)) ij"
  shows "let c = comment_at (sw_Comments (source_at prog pnum snum)) ij; c' = comment_at (sw_Comments (source_at prog' pnum snum)) ij
     in (if str_contains ''@dump'' (c_Text c) \<or> str_contains ''@track'' (c_Text c)
         then logged E (sw_Filename (source_at prog pnum snum)) (PackageName (prog ! pnum)) c c' else c' = c) \<and>
        (\<forall>i j. (i, j) \<noteq> (pnum, snum) \<longrightarrow> source_at prog' i j = source_at prog i j) \<and>
        sw_Text (source_at prog' pnum snum) = Fprint E (sw_Comments (source_at prog' pnum snum))"
proof -
  let ?f = "sw_Comments (source_at prog pnum snum)"
  let ?nodes = "GetLogNodes ?f ''@dump'' @ GetLogNodes ?f ''@track''"
  let ?prog = "if length ?nodes > 0 then set_source pnum snum (\<lambda>s. s\<lparr>sw_Comments := addImports E (sw_Comments s)\<rparr>) prog else prog"
  from assms(1) obtain x st1 where run: "foldR (log_node E aff pnum snum) (?prog, st) ?nodes = Inr (x, st1)"
    and prog': "prog' = set_source pnum snum (\<lambda>s. s\<lparr>sw_Text := Fprint E (sw_Comments s)\<rparr>) x"
    by (auto simp: InsturmentSource_def Let_def go_bind)
  have same: "comment_groups (addImports E f) = comment_groups f" for f by (simp add: addImports_def imp)
  have cg: "comment_groups (sw_Comments (source_at ?prog pnum snum)) = comment_groups ?f"
    and p: "in_program ?prog pnum snum" "sw_Filename (source_at ?prog pnum snum) = sw_Filename (source_at prog pnum snum)"
      "PackageName (?prog ! pnum) = PackageName (prog ! pnum)"
      "\<And>i j. (i, j) \<noteq> (pnum, snum) \<Longrightarrow> source_at ?prog i j = source_at prog i j"
    using assms(2) by (simp_all add: set_source_at [OF assms(2)] same)
  have at: "comment_at (sw_Comments (source_at ?prog pnum snum)) kl = comment_at ?f kl" for kl
    using cg by (simp add: comment_at_def)
  have "distinct ?nodes" using one by (auto simp: distinct_GetLogNodes GetLogNodes_iff)
  moreover have "valid_ref (sw_Comments (source_at ?prog pnum snum)) kl" if "kl \<in> set ?nodes" for kl
    using that cg by (auto simp: GetLogNodes_iff valid_ref_def)
  ultimately have res: "in_program x pnum snum \<and>
    sw_Filename (source_at x pnum snum) = sw_Filename (source_at ?prog pnum snum) \<and>
    (\<forall>i j. (i, j) \<noteq> (pnum, snum) \<longrightarrow> source_at x i j = source_at ?prog i j) \<and>
    (\<forall>ij. if ij \<in> set ?nodes
       then logged E (sw_Filename (source_at ?prog pnum snum)) (PackageName (?prog ! pnum))
         (comment_at (sw_Comments (source_at ?prog pnum snum)) ij) (comment_at (sw_Comments (source_at x pnum snum)) ij)
       else comment_at (sw_Comments (source_at x pnum snum)) ij = comment_at (sw_Comments (source_at ?prog pnum snum)) ij)"
    by (intro log_nodes_result [OF run p(1)])
  then have xp: "in_program x pnum snum" by simp
  note at' = set_source_at [OF xp, where f = "\<lambda>s. s\<lparr>sw_Text := Fprint E (sw_Comments s)\<rparr>", folded prog']
  from res [THEN conjunct2, THEN conjunct2, THEN conjunct2, rule_format, of ij] ij
  have "if str_contains ''@dump'' (c_Text (comment_at ?f ij)) \<or> str_contains ''@track'' (c_Text (comment_at ?f ij))
    then logged E (sw_Filename (source_at prog pnum snum)) (PackageName (prog ! pnum)) (comment_at ?f ij)
      (comment_at (sw_Comments (source_at prog' pnum snum)) ij)
    else comment_at (sw_Comments (source_at prog' pnum snum)) ij = comment_at ?f ij"
    unfolding at p(2,3) at'(1) by (simp add: GetLogNodes_iff)
  moreover have "\<forall>i j. (i, j) \<noteq> (pnum, snum) \<longrightarrow> source_at prog' i j = source_at prog i j"
    using res at'(4) p(4) by simp
  moreover have "sw_Text (source_at prog' pnum snum) = Fprint E (sw_Comments (source_at prog' pnum snum))"
    by (simp add: at'(1))
  ultimately show ?thesis unfolding Let_def by blast
qed

definition demo_program :: ProgramWrapper where
  "demo_program = [\<lparr>PackageName = ''main'', Sources = [\<lparr>
     sw_Comments = demo_file\<lparr>comment_groups := [[\<lparr>c_Pos = 10, c_Text = ''//@dump''\<rparr>, \<lparr>c_Pos = 30, c_Text = ''//ok''\<rparr>]]\<rparr>,
     sw_Source = demo_file, sw_Filename = ''m.go'', sw_Text = []\<rparr>]\<rparr>]"

theorem InsturmentSource_correct_witness:
  "\<exists>prog' st'. InsturmentSource demo_ienv [] 0 0 demo_program demo_inst = Inr (prog', st') \<and>
    logged demo_ienv ''m.go'' ''main'' \<lparr>c_Pos = 10, c_Text = ''//@dump''\<rparr> (comment_at (sw_Comments (source_at prog' 0 0)) (0, 0))"
proof -
  have "\<exists>r. InsturmentSource demo_ienv [] 0 0 demo_program demo_inst = Inr r"
    by (simp add: InsturmentSource_def demo_program_def GetLogNodes_def has_prefix_def addImports_def log_node_def set_source_def set_text_def
        comment_at_def getAccessedAffectedVars_def FindFile_def in_source_def comment_End_def file_at_def GetAccessibleVarsInScope_def
        GetGlobalVariables_def GetGlobalVariablesFromFile_def removedups_def GenerateDumpCode_def Inside_def is_lower_def inst_eval)
  then obtain prog' st' where run: "InsturmentSource demo_ienv [] 0 0 demo_program demo_inst = Inr (prog', st')" by auto
  have refs: "valid_ref (sw_Comments (source_at demo_program 0 0)) ij \<longleftrightarrow> ij = (0, 0) \<or> ij = (0, 1)" for ij
    by (cases ij) (auto simp: valid_ref_def demo_program_def demo_file_def less_Suc_eq)
  have src: "comment_at (sw_Comments (source_at demo_program 0 0)) (0, 0) = \<lparr>c_Pos = 10, c_Text = ''//@dump''\<rparr>"
    "comment_at (sw_Comments (source_at demo_program 0 0)) (0, Suc 0) = \<lparr>c_Pos = 30, c_Text = ''//ok''\<rparr>"
    "sw_Filename (source_at demo_program 0 0) = ''m.go''" "PackageName (demo_program ! 0) = ''main''"
    by (simp_all add: comment_at_def demo_program_def)
  have p: "in_program demo_program 0 0" by (simp add: in_program_def demo_program_def)
  have imp: "comment_groups (AddImport demo_ienv pack f) = comment_groups f" for pack f by (simp add: demo_ienv_def)
  have one: "\<not> (str_contains ''@dump'' (c_Text (comment_at (sw_Comments (source_at demo_program 0 0)) ij)) \<and>
         str_contains ''@track'' (c_Text (comment_at (sw_Comments (source_at demo_program 0 0)) ij)))"
    if "valid_ref (sw_Comments (source_at demo_program 0 0)) ij" for ij
    using that unfolding refs by (auto simp: src has_prefix_def)
  have ij: "valid_ref (sw_Comments (source_at demo_program 0 0)) (0, 0)" by (simp add: refs)
  have "str_contains ''@dump'' ''//@dump''" by (simp add: has_prefix_def)
  with InsturmentSource_correct [OF run p imp one ij]
  have "logged demo_ienv ''m.go'' ''main'' \<lparr>c_Pos = 10, c_Text = ''//@dump''\<rparr> (comment_at (sw_Comments (source_at prog' 0 0)) (0, 0))"
    by (simp only: Let_def src comment.simps if_True simp_thms)
  with run show ?thesis by blast
qed

end
