(* ===== verification/Capture.thy ===== *)
theory Capture
  imports Dinv_RT
begin

text \<open>
  Package \<open>capture\<close>. \<open>capture/inst.go\<close> finds the networking calls of a program and wraps them;
  \<open>capture/capture.go\<close> are the wrappers, which add vector clocks to the functions of packages
  \<open>net\<close> and \<open>net/rpc\<close>.

  A call expression is the function called, the printed arguments and the calls inside it, a
  networking variable its type-checker object. Arguments of the model are the printed forms of
  expressions and objects, the networking functions that are wrapped, and the streams of package
  \<open>gob\<close> (record \<open>gob_ops\<close>). The output on the terminal is left out.
\<close>

section \<open>Networking calls\<close>

subsection \<open>The table of networking types\<close>

record NetFunc =
  NetFuncName :: string
  Args :: int
  Returns :: int
  PrimaryArgLoc :: int
  ReturnSizeLoc :: int

definition netFunc :: "string \<Rightarrow> int \<Rightarrow> int \<Rightarrow> int \<Rightarrow> int \<Rightarrow> NetFunc" where
  "netFunc n a r p s = \<lparr>NetFuncName = n, Args = a, Returns = r, PrimaryArgLoc = p, ReturnSizeLoc = s\<rparr>"

record NetConn =
  NetType :: string
  SenderFunctions :: "NetFunc list"
  ReceivingFunctions :: "NetFunc list"
  ConnectionFunctions :: "NetFunc list"

definition NetDB :: "(string, NetConn) gomap" where
  "NetDB = [
     (''net.UDPConn'',
      \<lparr>NetType = ''net.UDPConn'',
       SenderFunctions = [netFunc ''Write'' 1 2 0 0,
                          netFunc ''WriteMsgUDP'' 2 2 0 0,
                          netFunc ''WriteTo'' 2 2 0 0,
                          netFunc ''WriteToUDP'' 2 2 0 0],
       ReceivingFunctions = [netFunc ''Read'' 1 2 0 0,
                             netFunc ''ReadFrom'' 1 3 0 0,
                             netFunc ''ReadFromUDP'' 1 3 0 0,
                             netFunc ''ReadMsgUDP'' 2 5 0 0],
       ConnectionFunctions = []\<rparr>),
     (''net.UnixConn'',
      \<lparr>NetType = ''net.UnixConn'',
       SenderFunctions = [netFunc ''Write'' 1 2 0 0,
                          netFunc ''WriteMsgUnix'' 3 3 0 0,
                          netFunc ''WriteTo'' 2 2 0 0,
                          netFunc ''WriteToUnix'' 2 2 0 0],
       ReceivingFunctions = [netFunc ''Read'' 1 2 0 0,
                             netFunc ''ReadFrom'' 1 3 0 0,
                             netFunc ''ReadFromUDP'' 1 3 0 0,
                             netFunc ''ReadMsgUDP'' 2 5 0 0],
       ConnectionFunctions = []\<rparr>),
     (''net.IPConn'',
      \<lparr>NetType = ''net.IPConn'',
       SenderFunctions = [netFunc ''Write'' 1 2 0 0,
                          netFunc ''WriteMsgIP'' 2 2 0 0,
                          netFunc ''WriteTo'' 2 2 0 0,
                          netFunc ''WriteToIP'' 2 2 0 0],
       ReceivingFunctions = [netFunc ''Read'' 1 2 0 0,
                             netFunc ''ReadFrom'' 1 3 0 0,
                             netFunc ''ReadFromIP'' 1 3 0 0,
                             netFunc ''ReadMsgIP'' 2 5 0 0],
       ConnectionFunctions = []\<rparr>),
     (''net.TCPConn'',
      \<lparr>NetType = ''net.TCPConn'',
       SenderFunctions = [netFunc ''Write'' 1 2 0 0],
       ReceivingFunctions = [netFunc ''Read'' 1 2 0 0],
       ConnectionFunctions = []\<rparr>),
     (''net.PacketConn'',
      \<lparr>NetType = ''net.PacketConn'',
       SenderFunctions = [netFunc ''WriteTo'' 2 2 0 0],
       ReceivingFunctions = [netFunc ''ReadFrom'' 1 3 0 0],
       ConnectionFunctions = []\<rparr>),
     (''net.Conn'',
      \<lparr>NetType = ''net.Conn'',
       SenderFunctions = [netFunc ''Write'' 2 2 0 0],
       ReceivingFunctions = [netFunc ''Read'' 1 3 0 0],
       ConnectionFunctions = []\<rparr>),
     (''net/rpc'',
      \<lparr>NetType = ''rpc'',
       SenderFunctions = [],
       ReceivingFunctions = [],
       ConnectionFunctions = [netFunc ''Dial'' 2 2 0 0,
                              netFunc ''DialHTTP'' 3 2 0 0,
                              netFunc ''DialHTTPPath'' 3 2 0 0,
                              netFunc ''NewClient'' 1 0 0 0,
                              netFunc ''NewClientWithCodec'' 1 0 0 0,
                              netFunc ''ServeCodec'' 1 0 0 0,
                              netFunc ''ServeConn'' 1 0 0 0,
                              netFunc ''ServeRequest'' 1 0 0 0]\<rparr>)]"

subsection \<open>Networking objects\<close>

text \<open>An object of the type checker: its address, position, the name of its package and its printed form.\<close>

record tobject =
  obj_addr :: nat
  obj_Pos :: int
  obj_Pkg :: string
  ObjectString :: string

definition is_word :: "char \<Rightarrow> bool" where
  "is_word c \<longleftrightarrow> is_digit c \<or> 65 \<le> (of_char c :: nat) \<and> (of_char c :: nat) \<le> 90 \<or>
     97 \<le> (of_char c :: nat) \<and> (of_char c :: nat) \<le> 122 \<or> c = CHR ''_''"

text \<open>The second group of \<open>var ([A-Za-z0-9_]+) \**([*.A-Za-z0-9_]+)\<close> in a match at the start.\<close>

definition match_var :: "string \<Rightarrow> string option" where
  "match_var s =
     (if take 4 s \<noteq> ''var '' then None
      else
        (let r = dropWhile is_word (drop 4 s)
         in if takeWhile is_word (drop 4 s) = [] \<or> take 1 r \<noteq> '' '' then None
            else
              (let stars = takeWhile (\<lambda>c. c = CHR ''*'') (drop 1 r);
                   t = takeWhile (\<lambda>c. is_word c \<or> c \<in> {CHR ''*'', CHR ''.''}) (drop (length stars) (drop 1 r))
               in if t \<noteq> [] then Some t else if stars \<noteq> [] then Some ''*'' else None)))"

text \<open>The first group of \<open>func ([A-Za-z0-9_/]+).([A-Za-z0-9_]+)\(\<close> in a match at the start; the longest group is tried first.\<close>

fun match_path :: "string \<Rightarrow> nat \<Rightarrow> string option" where
  "match_path r 0 = None"
| "match_path r (Suc k) =
     (let after = drop (Suc (Suc k)) r
      in if Suc k < length r \<and> r ! Suc k \<noteq> newline \<and> takeWhile is_word after \<noteq> [] \<and> take 1 (dropWhile is_word after) = ''(''
         then Some (take (Suc k) r) else match_path r k)"

definition match_func :: "string \<Rightarrow> string option" where
  "match_func s =
     (if take 5 s \<noteq> ''func '' then None
      else match_path (drop 5 s) (length (takeWhile (\<lambda>c. is_word c \<or> c = CHR ''/'') (drop 5 s))))"

fun leftmost :: "(string \<Rightarrow> string option) \<Rightarrow> string \<Rightarrow> string option" where
  "leftmost m [] = m []"
| "leftmost m (c # s) = (case m (c # s) of Some r \<Rightarrow> Some r | None \<Rightarrow> leftmost m s)"

definition db_entry :: "string option \<Rightarrow> NetConn option" where
  "db_entry t = (case t of None \<Rightarrow> None | Some x \<Rightarrow> gomap_get NetDB x)"

text \<open>One object: an entry found through its function replaces one found through its type.\<close>

definition net_conn :: "tobject \<Rightarrow> NetConn option" where
  "net_conn obj =
     (case db_entry (leftmost match_func (ObjectString obj)) of
        Some c \<Rightarrow> Some c
      | None \<Rightarrow> db_entry (leftmost match_var (ObjectString obj)))"

text \<open>\<open>objs\<close> are the objects used in the first package, in the order of the range over them.\<close>

definition GetNetConns :: "tobject list \<Rightarrow> (tobject \<times> NetConn) list" where
  "GetNetConns objs = [(obj, c). obj \<leftarrow> objs, Some c \<leftarrow> [net_conn obj]]"

subsection \<open>Calls\<close>

text \<open>
  The function of a call: a selector on an identifier, with its name, the position of the object it
  is resolved to, the selected name and the printed form; or another expression, printed.
\<close>

datatype callee = Selector string "int option" string string | OtherFun string
datatype call_expr = CallExpr (call_fun: callee) (call_args: "string list") (call_inner: "call_expr list")

primrec getFunctionString :: "callee \<Rightarrow> string" where
  "getFunctionString (Selector x pos sel t) = t"
| "getFunctionString (OtherFun t) = t"

text \<open>The last argument is read after the loop, also when there is none.\<close>

definition getArgsString :: "string list \<Rightarrow> string go" where
  "getArgsString args =
     (if args = [] then Inl IndexOutOfRange
      else Inr (concat (map (\<lambda>a. a @ '','') (butlast args)) @ last args))"

definition instrumentCall :: "call_expr \<Rightarrow> NetFunc \<Rightarrow> call_expr go" where
  "instrumentCall call f =
     rbind (getArgsString (call_args call)) (\<lambda>args.
       Inr (CallExpr (OtherFun (''capture.'' @ NetFuncName f)) [getFunctionString (call_fun call) @ '','' @ args] []))"

definition checkAndInstrument :: "string \<Rightarrow> NetFunc list \<Rightarrow> call_expr \<Rightarrow> (bool \<times> call_expr) go" where
  "checkAndInstrument varName netfuncs call =
     (case List.find (\<lambda>f. varName = NetFuncName f) netfuncs of
        Some f \<Rightarrow> rbind (instrumentCall call f) (\<lambda>call. Inr (True, call))
      | None \<Rightarrow> Inr (False, call))"

definition matches :: "string \<Rightarrow> int option \<Rightarrow> tobject \<Rightarrow> bool" where
  "matches x pos obj \<longleftrightarrow> pos = Some (obj_Pos obj) \<or> obj_Pkg obj = x"

definition instrument_conn :: "string \<Rightarrow> int option \<Rightarrow> string \<Rightarrow> bool \<times> call_expr \<Rightarrow> tobject \<times> NetConn \<Rightarrow> (bool \<times> call_expr) go" where
  "instrument_conn x pos sel ic oc =
     (case (ic, oc) of ((injected, call), (obj, conn)) \<Rightarrow>
        if matches x pos obj then
          rbind (checkAndInstrument sel (ReceivingFunctions conn) call) (\<lambda>(a, call).
          rbind (checkAndInstrument sel (SenderFunctions conn) call) (\<lambda>(b, call).
          rbind (checkAndInstrument sel (ConnectionFunctions conn) call) (\<lambda>(c, call).
            Inr (a \<or> b \<or> c \<or> injected, call))))
        else Inr (injected, call))"

text \<open>The calls inside are visited after the call itself; a wrapped call has no more calls inside, only text.\<close>

definition instrument_one :: "(tobject \<times> NetConn) list \<Rightarrow> call_expr \<Rightarrow> (bool \<times> call_expr) go" where
  "instrument_one netConns call =
     (case call_fun call of
        Selector x pos sel t \<Rightarrow> foldR (instrument_conn x pos sel) (False, call) netConns
      | OtherFun t \<Rightarrow> Inr (False, call))"

fun instrument_call :: "(tobject \<times> NetConn) list \<Rightarrow> call_expr \<Rightarrow> (bool \<times> call_expr) go"
  and instrument_calls :: "(tobject \<times> NetConn) list \<Rightarrow> call_expr list \<Rightarrow> (bool \<times> call_expr list) go" where
  "instrument_call netConns (CallExpr f args inner) =
     rbind (instrument_one netConns (CallExpr f args inner)) (\<lambda>(i, c).
       if i then Inr (True, c)
       else rbind (instrument_calls netConns inner) (\<lambda>(j, inner). Inr (j, CallExpr f args inner)))"
| "instrument_calls netConns [] = Inr (False, [])"
| "instrument_calls netConns (c # cs) =
     rbind (instrument_call netConns c) (\<lambda>(i, c).
     rbind (instrument_calls netConns cs) (\<lambda>(j, cs). Inr (i \<or> j, c # cs)))"

text \<open>The calls of the file afterwards, and whether the import of the package is added.\<close>

definition InstrumentCalls :: "(tobject \<times> NetConn) list \<Rightarrow> call_expr list \<Rightarrow> (bool \<times> call_expr list) go" where
  "InstrumentCalls netConns calls = instrument_calls netConns calls"

subsection \<open>Classification of statements\<close>

datatype comm = SENDING | RECEIVING | BOTH | NOT

definition check :: "string \<Rightarrow> NetFunc list \<Rightarrow> bool" where
  "check varName netfuncs = list_ex (\<lambda>f. varName = NetFuncName f) netfuncs"

fun check_conns :: "string \<Rightarrow> int option \<Rightarrow> string \<Rightarrow> (tobject \<times> NetConn) list \<Rightarrow> comm" where
  "check_conns x pos sel [] = NOT"
| "check_conns x pos sel ((obj, conn) # cs) =
     (if matches x pos obj then
        (if check sel (ReceivingFunctions conn) then RECEIVING
         else if check sel (SenderFunctions conn) then SENDING
         else if check sel (ConnectionFunctions conn) then BOTH
         else NOT)
      else check_conns x pos sel cs)"

definition checkCall :: "(tobject \<times> NetConn) list \<Rightarrow> callee \<Rightarrow> comm" where
  "checkCall netConns f =
     (case f of Selector x pos sel t \<Rightarrow> check_conns x pos sel netConns | OtherFun t \<Rightarrow> NOT)"

text \<open>
  The statements met by the inspection, with their addresses: for an expression statement the
  function of its call, if it is one, for an assignment the functions called by its right-hand
  sides. An assignment always has one.
\<close>

datatype comm_stmt = CExprStmt nat "callee option" | CAssignStmt nat "callee option list"

definition stmt_status :: "(tobject \<times> NetConn) list \<Rightarrow> comm_stmt \<Rightarrow> (nat \<times> comm) go" where
  "stmt_status netConns s =
     (case s of
        CExprStmt a f \<Rightarrow> Inr (a, case f of None \<Rightarrow> NOT | Some g \<Rightarrow> checkCall netConns g)
      | CAssignStmt a rhs \<Rightarrow>
          rbind (index_go rhs 0) (\<lambda>f. Inr (a, case f of None \<Rightarrow> NOT | Some g \<Rightarrow> checkCall netConns g)))"

definition GetCommNodes :: "(tobject \<times> NetConn) list \<Rightarrow> comm_stmt list \<Rightarrow> (nat list \<times> nat list \<times> nat list) go" where
  "GetCommNodes netConns stmts =
     rbind (traverse (stmt_status netConns) stmts) (\<lambda>ss.
       Inr ([a. (a, k) \<leftarrow> ss, k = SENDING], [a. (a, k) \<leftarrow> ss, k = RECEIVING], [a. (a, k) \<leftarrow> ss, k = BOTH]))"

section \<open>Wrappers\<close>

text \<open>
  A reading function fills the buffer it is given and has further results; the value decoded from
  the buffer is what the wrapper assigns. \<open>Read\<close>, \<open>ReadFrom\<close>, \<open>ReadFromIP\<close>, \<open>ReadMsgIP\<close>, \<open>ReadFromUDP\<close> and
  \<open>ReadFromUnix\<close> differ only in these results.
\<close>

definition Read :: "('g, 'm) govec \<Rightarrow> 'm rt_env \<Rightarrow> (bytes \<Rightarrow> bytes \<times> 'r) \<Rightarrow> bytes \<Rightarrow> 'g rt_state \<Rightarrow> ('r \<times> 'm \<times> 'g rt_state) go" where
  "Read G E read b s =
     (let (buf, r) = read (replicate (length b) 0)
      in rbind (Unpack G E buf s) (\<lambda>(v, s). Inr (r, v, s)))"

definition ReadFrom :: "('g, 'm) govec \<Rightarrow> 'm rt_env \<Rightarrow> (bytes \<Rightarrow> bytes \<times> 'r) \<Rightarrow> bytes \<Rightarrow> 'g rt_state \<Rightarrow> ('r \<times> 'm \<times> 'g rt_state) go" where
  "ReadFrom G E readFrom b s =
     (let (buf, r) = readFrom (replicate (length b) 0)
      in rbind (Unpack G E buf s) (\<lambda>(v, s). Inr (r, v, s)))"

definition ReadFromIP :: "('g, 'm) govec \<Rightarrow> 'm rt_env \<Rightarrow> (bytes \<Rightarrow> bytes \<times> 'r) \<Rightarrow> bytes \<Rightarrow> 'g rt_state \<Rightarrow> ('r \<times> 'm \<times> 'g rt_state) go" where
  "ReadFromIP G E readfromip b s =
     (let (buf, r) = readfromip (replicate (length b) 0)
      in rbind (Unpack G E buf s) (\<lambda>(v, s). Inr (r, v, s)))"

definition ReadMsgIP :: "('g, 'm) govec \<Rightarrow> 'm rt_env \<Rightarrow> (bytes \<Rightarrow> bytes \<times> 'r) \<Rightarrow> bytes \<Rightarrow> 'g rt_state \<Rightarrow> ('r \<times> 'm \<times> 'g rt_state) go" where
  "ReadMsgIP G E readmsgip b s =
     (let (buf, r) = readmsgip (replicate (length b) 0)
      in rbind (Unpack G E buf s) (\<lambda>(v, s). Inr (r, v, s)))"

definition ReadFromUDP :: "('g, 'm) govec \<Rightarrow> 'm rt_env \<Rightarrow> (bytes \<Rightarrow> bytes \<times> 'r) \<Rightarrow> bytes \<Rightarrow> 'g rt_state \<Rightarrow> ('r \<times> 'm \<times> 'g rt_state) go" where
  "ReadFromUDP G E readfromudp b s =
     (let (buf, r) = readfromudp (replicate (length b) 0)
      in rbind (Unpack G E buf s) (\<lambda>(v, s). Inr (r, v, s)))"

definition ReadFromUnix :: "('g, 'm) govec \<Rightarrow> 'm rt_env \<Rightarrow> (bytes \<Rightarrow> bytes \<times> 'r) \<Rightarrow> bytes \<Rightarrow> 'g rt_state \<Rightarrow> ('r \<times> 'm \<times> 'g rt_state) go" where
  "ReadFromUnix G E readfromunix b s =
     (let (buf, r) = readfromunix (replicate (length b) 0)
      in rbind (Unpack G E buf s) (\<lambda>(v, s). Inr (r, v, s)))"

text \<open>These two read into the argument and decode the fresh buffer.\<close>

definition ReadMsgUDP :: "('g, 'm) govec \<Rightarrow> 'm rt_env \<Rightarrow> (bytes \<Rightarrow> bytes \<times> 'r) \<Rightarrow> bytes \<Rightarrow> 'g rt_state \<Rightarrow> ('r \<times> 'm \<times> 'g rt_state) go" where
  "ReadMsgUDP G E readmsgudp b s =
     (let buf = replicate (length b) 0;
          (_, r) = readmsgudp b
      in rbind (Unpack G E buf s) (\<lambda>(v, s). Inr (r, v, s)))"

definition ReadMsgUnix :: "('g, 'm) govec \<Rightarrow> 'm rt_env \<Rightarrow> (bytes \<Rightarrow> bytes \<times> 'r) \<Rightarrow> bytes \<Rightarrow> 'g rt_state \<Rightarrow> ('r \<times> 'm \<times> 'g rt_state) go" where
  "ReadMsgUnix G E readmsgunix b s =
     (let buf = replicate (length b) 0;
          (_, r) = readmsgunix b
      in rbind (Unpack G E buf s) (\<lambda>(v, s). Inr (r, v, s)))"

text \<open>The writing functions differ in the further arguments of the wrapped function, here a part of \<open>write\<close>.\<close>

definition Write :: "('g, 'm) govec \<Rightarrow> 'm rt_env \<Rightarrow> (bytes \<Rightarrow> 'r) \<Rightarrow> 'm \<Rightarrow> 'g rt_state \<Rightarrow> ('r \<times> 'g rt_state) go" where
  "Write G E write b s = rbind (Pack G E b s) (\<lambda>(buf, s). Inr (write buf, s))"

definition WriteTo :: "('g, 'm) govec \<Rightarrow> 'm rt_env \<Rightarrow> (bytes \<Rightarrow> 'a \<Rightarrow> 'r) \<Rightarrow> 'm \<Rightarrow> 'a \<Rightarrow> 'g rt_state \<Rightarrow> ('r \<times> 'g rt_state) go" where
  "WriteTo G E writeTo b addr s = rbind (Pack G E b s) (\<lambda>(buf, s). Inr (writeTo buf addr, s))"

definition WriteToIP :: "('g, 'm) govec \<Rightarrow> 'm rt_env \<Rightarrow> (bytes \<Rightarrow> 'a \<Rightarrow> 'r) \<Rightarrow> 'm \<Rightarrow> 'a \<Rightarrow> 'g rt_state \<Rightarrow> ('r \<times> 'g rt_state) go" where
  "WriteToIP G E writetoip b addr s = rbind (Pack G E b s) (\<lambda>(buf, s). Inr (writetoip buf addr, s))"

definition WriteToUDP :: "('g, 'm) govec \<Rightarrow> 'm rt_env \<Rightarrow> (bytes \<Rightarrow> 'a \<Rightarrow> 'r) \<Rightarrow> 'm \<Rightarrow> 'a \<Rightarrow> 'g rt_state \<Rightarrow> ('r \<times> 'g rt_state) go" where
  "WriteToUDP G E writetoudp b addr s = rbind (Pack G E b s) (\<lambda>(buf, s). Inr (writetoudp buf addr, s))"

definition WriteToUnix :: "('g, 'm) govec \<Rightarrow> 'm rt_env \<Rightarrow> (bytes \<Rightarrow> 'a \<Rightarrow> 'r) \<Rightarrow> 'm \<Rightarrow> 'a \<Rightarrow> 'g rt_state \<Rightarrow> ('r \<times> 'g rt_state) go" where
  "WriteToUnix G E writetounix b addr s = rbind (Pack G E b s) (\<lambda>(buf, s). Inr (writetounix buf addr, s))"

definition WriteMsgIP :: "('g, 'm) govec \<Rightarrow> 'm rt_env \<Rightarrow> (bytes \<Rightarrow> bytes \<Rightarrow> 'a \<Rightarrow> 'r) \<Rightarrow> 'm \<Rightarrow> bytes \<Rightarrow> 'a \<Rightarrow> 'g rt_state \<Rightarrow> ('r \<times> 'g rt_state) go" where
  "WriteMsgIP G E writemsgip b oob addr s = rbind (Pack G E b s) (\<lambda>(buf, s). Inr (writemsgip buf oob addr, s))"

definition WriteMsgUDP :: "('g, 'm) govec \<Rightarrow> 'm rt_env \<Rightarrow> (bytes \<Rightarrow> bytes \<Rightarrow> 'a \<Rightarrow> 'r) \<Rightarrow> 'm \<Rightarrow> bytes \<Rightarrow> 'a \<Rightarrow> 'g rt_state \<Rightarrow> ('r \<times> 'g rt_state) go" where
  "WriteMsgUDP G E writemsgudp b oob addr s = rbind (Pack G E b s) (\<lambda>(buf, s). Inr (writemsgudp buf oob addr, s))"

definition WriteMsgUnix :: "('g, 'm) govec \<Rightarrow> 'm rt_env \<Rightarrow> (bytes \<Rightarrow> bytes \<Rightarrow> 'a \<Rightarrow> 'r) \<Rightarrow> 'm \<Rightarrow> bytes \<Rightarrow> 'a \<Rightarrow> 'g rt_state \<Rightarrow> ('r \<times> 'g rt_state) go" where
  "WriteMsgUnix G E writemsgunix b oob addr s = rbind (Pack G E b s) (\<lambda>(buf, s). Inr (writemsgunix buf oob addr, s))"

section \<open>Codecs for remote procedure calls\<close>

text \<open>
  The values on a \<open>gob\<close> stream: headers and byte slices. A connection \<open>'c\<close> joins two ends, each with
  the encoder, the buffered writer below it and the decoder of the codec there; the operations say at
  which end they are called and may report an error, \<open>None\<close> being no error. An encoded value is in
  the buffered writer of its end until \<open>Flush\<close> writes it to the connection.
\<close>

datatype 'h gob = GHeader 'h | GBytes bytes
datatype rpc_end = ClientEnd | ServerEnd

record ('c, 'h) gob_ops =
  gob_Encode :: "rpc_end \<Rightarrow> 'c \<Rightarrow> 'h gob \<Rightarrow> string option \<times> 'c"
  gob_Decode :: "rpc_end \<Rightarrow> 'c \<Rightarrow> (string + 'h gob) \<times> 'c"
  gob_Flush :: "rpc_end \<Rightarrow> 'c \<Rightarrow> string option \<times> 'c"
  gob_Close :: "rpc_end \<Rightarrow> 'c \<Rightarrow> string option \<times> 'c"

text \<open>The client's codec has nothing beside the connection; the server's also whether it was closed.\<close>

record 'c ServerClockCodec =
  Rwc :: 'c
  Closed :: bool

definition NewServerCodec :: "'c \<Rightarrow> 'c ServerClockCodec" where
  "NewServerCodec conn = \<lparr>Rwc = conn, Closed = False\<rparr>"

definition WriteRequest :: "('g, 'm) govec \<Rightarrow> 'm rt_env \<Rightarrow> ('c, 'h) gob_ops \<Rightarrow> 'h \<Rightarrow> 'm \<Rightarrow> 'c \<Rightarrow> 'g rt_state \<Rightarrow> (string option \<times> 'c \<times> 'g rt_state) go" where
  "WriteRequest G E S req param c s =
     (case gob_Encode S ClientEnd c (GHeader req) of
        (Some e, c) \<Rightarrow> Inr (Some e, c, s)
      | (None, c) \<Rightarrow>
          rbind (Pack G E param s) (\<lambda>(buf, s).
            case gob_Encode S ClientEnd c (GBytes buf) of
              (Some e, c) \<Rightarrow> Inr (Some e, c, s)
            | (None, c) \<Rightarrow> (case gob_Flush S ClientEnd c of (e, c) \<Rightarrow> Inr (e, c, s))))"

text \<open>Decoding a value into a variable of another type is an error.\<close>

definition read_header :: "rpc_end \<Rightarrow> ('c, 'h) gob_ops \<Rightarrow> 'c \<Rightarrow> (string + 'h) \<times> 'c" where
  "read_header x S c =
     (case gob_Decode S x c of
        (Inr (GHeader h), c) \<Rightarrow> (Inr h, c)
      | (Inr (GBytes b), c) \<Rightarrow> (Inl ''gob: type mismatch'', c)
      | (Inl e, c) \<Rightarrow> (Inl e, c))"

definition read_bytes :: "rpc_end \<Rightarrow> ('c, 'h) gob_ops \<Rightarrow> 'c \<Rightarrow> (string + bytes) \<times> 'c" where
  "read_bytes x S c =
     (case gob_Decode S x c of
        (Inr (GBytes b), c) \<Rightarrow> (Inr b, c)
      | (Inr (GHeader h), c) \<Rightarrow> (Inl ''gob: type mismatch'', c)
      | (Inl e, c) \<Rightarrow> (Inl e, c))"

definition ReadResponseHeader :: "('c, 'h) gob_ops \<Rightarrow> 'c \<Rightarrow> (string + 'h) \<times> 'c" where
  "ReadResponseHeader S c = read_header ClientEnd S c"

definition ReadResponseBody :: "('g, 'm) govec \<Rightarrow> 'm rt_env \<Rightarrow> ('c, 'h) gob_ops \<Rightarrow> 'c \<Rightarrow> 'g rt_state \<Rightarrow> ((string + 'm) \<times> 'c \<times> 'g rt_state) go" where
  "ReadResponseBody G E S c s =
     (case read_bytes ClientEnd S c of
        (Inl e, c) \<Rightarrow> Inr (Inl e, c, s)
      | (Inr buf, c) \<Rightarrow> rbind (Unpack G E buf s) (\<lambda>(body, s). Inr (Inr body, c, s)))"

definition client_Close :: "('c, 'h) gob_ops \<Rightarrow> 'c \<Rightarrow> string option \<times> 'c" where
  "client_Close S c = gob_Close S ClientEnd c"

definition ReadRequestHeader :: "('c, 'h) gob_ops \<Rightarrow> 'c ServerClockCodec \<Rightarrow> (string + 'h) \<times> 'c ServerClockCodec" where
  "ReadRequestHeader S c = (case read_header ServerEnd S (Rwc c) of (r, w) \<Rightarrow> (r, c\<lparr>Rwc := w\<rparr>))"

definition ReadRequestBody :: "('g, 'm) govec \<Rightarrow> 'm rt_env \<Rightarrow> ('c, 'h) gob_ops \<Rightarrow> 'c ServerClockCodec \<Rightarrow> 'g rt_state \<Rightarrow> ((string + 'm) \<times> 'c ServerClockCodec \<times> 'g rt_state) go" where
  "ReadRequestBody G E S c s =
     (case read_bytes ServerEnd S (Rwc c) of
        (Inl e, w) \<Rightarrow> Inr (Inl e, c\<lparr>Rwc := w\<rparr>, s)
      | (Inr buf, w) \<Rightarrow> rbind (Unpack G E buf s) (\<lambda>(body, s). Inr (Inr body, c\<lparr>Rwc := w\<rparr>, s)))"

definition server_Close :: "('c, 'h) gob_ops \<Rightarrow> 'c ServerClockCodec \<Rightarrow> string option \<times> 'c ServerClockCodec" where
  "server_Close S c =
     (if Closed c then (None, c)
      else (case gob_Close S ServerEnd (Rwc c) of (e, w) \<Rightarrow> (e, c\<lparr>Closed := True, Rwc := w\<rparr>)))"

text \<open>After an encoding error the connection is closed if what was written before can be flushed.\<close>

definition encode_response :: "('c, 'h) gob_ops \<Rightarrow> 'h gob \<Rightarrow> 'c ServerClockCodec \<Rightarrow> string option \<times> 'c ServerClockCodec" where
  "encode_response S v c =
     (case gob_Encode S ServerEnd (Rwc c) v of
        (None, w) \<Rightarrow> (None, c\<lparr>Rwc := w\<rparr>)
      | (Some e, w) \<Rightarrow>
          (case gob_Flush S ServerEnd w of
             (None, w) \<Rightarrow> (Some e, snd (server_Close S (c\<lparr>Rwc := w\<rparr>)))
           | (Some _, w) \<Rightarrow> (Some e, c\<lparr>Rwc := w\<rparr>)))"

definition WriteResponse :: "('g, 'm) govec \<Rightarrow> 'm rt_env \<Rightarrow> ('c, 'h) gob_ops \<Rightarrow> 'h \<Rightarrow> 'm \<Rightarrow> 'c ServerClockCodec \<Rightarrow> 'g rt_state \<Rightarrow> (string option \<times> 'c ServerClockCodec \<times> 'g rt_state) go" where
  "WriteResponse G E S r body c s =
     (case encode_response S (GHeader r) c of
        (Some e, c) \<Rightarrow> Inr (Some e, c, s)
      | (None, c) \<Rightarrow>
          rbind (Pack G E body s) (\<lambda>(buf, s).
            case encode_response S (GBytes buf) c of
              (Some e, c) \<Rightarrow> Inr (Some e, c, s)
            | (None, c) \<Rightarrow> (case gob_Flush S ServerEnd (Rwc c) of (e, w) \<Rightarrow> Inr (e, c\<lparr>Rwc := w\<rparr>, s))))"

end
