(* ===== verification/Capture_Props.thy ===== *)
theory Capture_Props
  imports Capture Dinv_RT_Props
begin

text \<open>
  Properties of package \<open>capture\<close>: how often a networking call is wrapped, and that a remote
  procedure call through the codecs delivers request and response.
\<close>

section \<open>Wrapping of calls\<close>

text \<open>How often a call of \<open>sel\<close> is wrapped for one networking object.\<close>

definition conn_wraps :: "string \<Rightarrow> NetConn \<Rightarrow> nat" where
  "conn_wraps sel conn =
     (if check sel (ReceivingFunctions conn) then 1 else 0) + (if check sel (SenderFunctions conn) then 1 else 0)
     + (if check sel (ConnectionFunctions conn) then 1 else 0)"

text \<open>Every function has one role for a type.\<close>

lemma NetDB_roles: "gomap_get NetDB t = Some conn \<Longrightarrow> conn_wraps sel conn \<le> 1"
  by (auto simp: NetDB_def conn_wraps_def check_def netFunc_def split: if_splits)

fun wrap :: "nat \<Rightarrow> string \<Rightarrow> call_expr \<Rightarrow> call_expr" where
  "wrap 0 sel c = c"
| "wrap (Suc n) sel c =
     (let d = wrap n sel c
      in CallExpr (OtherFun (''capture.'' @ sel))
           [getFunctionString (call_fun d) @ '','' @ concat (map (\<lambda>a. a @ '','') (butlast (call_args d))) @ last (call_args d)] [])"

lemma wrap_args: "call_args c \<noteq> [] \<Longrightarrow> call_args (wrap n sel c) \<noteq> []"
  by (cases n) (simp_all add: Let_def)

lemma check_find: "check sel fs \<longleftrightarrow> (\<exists>f. List.find (\<lambda>f. sel = NetFuncName f) fs = Some f)"
  by (induction fs) (auto simp: check_def)

lemma find_name: "List.find (\<lambda>f. sel = NetFuncName f) fs = Some f \<Longrightarrow> NetFuncName f = sel"
  by (auto simp: find_Some_iff)

lemma checkAndInstrument_wrap:
  assumes "call_args c \<noteq> []"
  shows "checkAndInstrument sel fs (wrap n sel c) = Inr (check sel fs, wrap (n + (if check sel fs then 1 else 0)) sel c)"
proof (cases "List.find (\<lambda>f. sel = NetFuncName f) fs")
  case (Some f)
  with wrap_args [OF assms, of n sel] find_name [OF Some] check_find [of sel fs] show ?thesis
    by (auto simp: checkAndInstrument_def instrumentCall_def getArgsString_def Let_def)
next
  case None
  with check_find [of sel fs] show ?thesis by (simp add: checkAndInstrument_def)
qed

lemma instrument_conn_wrap:
  assumes "call_args c \<noteq> []"
  shows "instrument_conn x pos sel (i, wrap n sel c) (obj, conn) =
    Inr (i \<or> matches x pos obj \<and> conn_wraps sel conn > 0, wrap (n + (if matches x pos obj then conn_wraps sel conn else 0)) sel c)"
  by (auto simp: instrument_conn_def checkAndInstrument_wrap [OF assms] conn_wraps_def simp del: wrap.simps)

definition call_wraps :: "string \<Rightarrow> int option \<Rightarrow> string \<Rightarrow> (tobject \<times> NetConn) list \<Rightarrow> nat" where
  "call_wraps x pos sel netConns = sum_list [conn_wraps sel conn. (obj, conn) \<leftarrow> netConns, matches x pos obj]"

lemma instrument_conns_wrap:
  assumes "call_args c \<noteq> []"
  shows "foldR (instrument_conn x pos sel) (i, wrap n sel c) ncs =
    Inr (i \<or> call_wraps x pos sel ncs > 0, wrap (n + call_wraps x pos sel ncs) sel c)"
proof (induction ncs arbitrary: i n)
  case (Cons nc ncs)
  obtain obj conn where "nc = (obj, conn)" by (cases nc)
  with Cons show ?case
    by (auto simp: instrument_conn_wrap [OF assms] call_wraps_def add.assoc simp del: wrap.simps)
qed (simp add: call_wraps_def)

lemma wrap_Suc:
  "wrap (Suc n) sel (CallExpr f args inner) =
     CallExpr (OtherFun (''capture.'' @ sel))
       [concat (replicate n (''capture.'' @ sel @ '','')) @ getFunctionString f @ '','' @ concat (map (\<lambda>a. a @ '','') (butlast args)) @ last args] []"
proof (induction n)
  case (Suc n)
  have "wrap (Suc (Suc n)) sel (CallExpr f args inner) =
    (let d = wrap (Suc n) sel (CallExpr f args inner)
      in CallExpr (OtherFun (''capture.'' @ sel))
           [getFunctionString (call_fun d) @ '','' @ concat (map (\<lambda>a. a @ '','') (butlast (call_args d))) @ last (call_args d)] [])"
    by (rule wrap.simps(2))
  then show ?case unfolding Suc.IH by simp
qed (simp add: Let_def)

section \<open>Codecs\<close>

primrec other_end :: "rpc_end \<Rightarrow> rpc_end" where
  "other_end ClientEnd = ServerEnd"
| "other_end ServerEnd = ClientEnd"

text \<open>
  Documented behaviour of \<open>gob\<close>, \<open>bufio.Writer\<close> and a connection that delivers, over two views of a
  connection: \<open>buffered x\<close> are the values encoded at end \<open>x\<close> that are still in its buffered writer,
  \<open>wire x\<close> those written to the connection at \<open>x\<close> and not yet read at the other end. A value encoded
  without error joins the buffered ones; the writer may hand on values from the front of its buffer
  when it is full, but need not. Only a flush without error hands on all of them. What is on the wire
  is decoded at the other end in order. Nothing is known of a connection after an operation that
  reports an error.
\<close>

definition gob_conn :: "('c, 'h) gob_ops \<Rightarrow> (rpc_end \<Rightarrow> 'c \<Rightarrow> 'h gob list) \<Rightarrow> (rpc_end \<Rightarrow> 'c \<Rightarrow> 'h gob list) \<Rightarrow> bool" where
  "gob_conn S buffered wire \<longleftrightarrow>
     (\<forall>x c v c'. gob_Encode S x c v = (None, c') \<longrightarrow>
        wire x c' @ buffered x c' = wire x c @ buffered x c @ [v] \<and> length (wire x c) \<le> length (wire x c') \<and>
        buffered (other_end x) c' = buffered (other_end x) c \<and> wire (other_end x) c' = wire (other_end x) c) \<and>
     (\<forall>x c c'. gob_Flush S x c = (None, c') \<longrightarrow>
        buffered x c' = [] \<and> wire x c' = wire x c @ buffered x c \<and>
        buffered (other_end x) c' = buffered (other_end x) c \<and> wire (other_end x) c' = wire (other_end x) c) \<and>
     (\<forall>x c v vs. wire (other_end x) c = v # vs \<longrightarrow>
        (\<exists>c'. gob_Decode S x c = (Inr v, c') \<and> wire (other_end x) c' = vs \<and> buffered (other_end x) c' = buffered (other_end x) c \<and>
           wire x c' = wire x c \<and> buffered x c' = buffered x c))"

text \<open>A connection on which nothing is under way.\<close>

definition idle :: "(rpc_end \<Rightarrow> 'c \<Rightarrow> 'h gob list) \<Rightarrow> (rpc_end \<Rightarrow> 'c \<Rightarrow> 'h gob list) \<Rightarrow> 'c \<Rightarrow> bool" where
  "idle buffered wire c \<longleftrightarrow> (\<forall>x. buffered x c = [] \<and> wire x c = [])"

text \<open>Documented behaviour of \<open>govec\<close>: a received message is the one that was sent.\<close>

definition delivers :: "('g, 'm) govec \<Rightarrow> bool" where
  "delivers G \<longleftrightarrow> (\<forall>g i m g' i'. fst (UnpackReceive G g' i' (fst (PrepareSend G g i m))) = m)"

definition local_host :: "'g rt_state \<Rightarrow> bool" where
  "local_host s \<longleftrightarrow> up s \<and> \<not> remotelogging s"

lemma log_event_local:
  assumes "local_host s"
  shows "\<exists>s'. log_event G E msg ty info s = Inr s' \<and> local_host s'"
proof -
  have u: "up s" and r: "\<not> remotelogging s" using assms by (simp_all add: local_host_def)
  then obtain ps where "Encoder s = Some ps" by (auto simp: up_def rt_inv_def)
  with u r have "log_event G E msg ty info s = Inr (s\<lparr>kvDumpIds := [], varStore := Some [], Encoder := Some (Encode E (store_point G E s) ps)\<rparr>)"
    by (simp add: log_event_def logVarStore_up)
  with log_event_inv [OF u this] r show ?thesis by (simp add: local_host_def)
qed

lemma local_host_clock: "local_host s \<Longrightarrow> local_host (s\<lparr>goVecLogger := Some g\<rparr>)"
  by (simp add: local_host_def)

lemma Pack_local:
  assumes "local_host s"
  shows "\<exists>g info s'. Pack G E m s = Inr (fst (PrepareSend G g info m), s') \<and> local_host s'"
proof -
  have u: "up s" using assms by (simp add: local_host_def)
  then obtain g where g: "goVecLogger s = Some g" by (rule up_obtains)
  let ?i = "event_info E (fast s) (rt_id s) ''Sending from ''"
  from log_event_local [OF local_host_clock [OF assms]] obtain s' where
    "log_event G E (Some m) SEND ?i (s\<lparr>goVecLogger := Some (snd (PrepareSend G g ?i m))\<rparr>) = Inr s'" "local_host s'" by blast
  with u g show ?thesis
    by (intro exI [of _ g] exI [of _ ?i] exI [of _ s']) (simp add: Pack_def event_text_up send_event_def case_prod_unfold Let_def)
qed

lemma Unpack_local:
  assumes "local_host s"
  shows "\<exists>g info s'. Unpack G E b s = Inr (fst (UnpackReceive G g info b), s') \<and> local_host s'"
proof -
  have u: "up s" using assms by (simp add: local_host_def)
  then obtain g where g: "goVecLogger s = Some g" by (rule up_obtains)
  let ?i = "event_info E (fast s) (rt_id s) ''Received on ''"
  from log_event_local [OF local_host_clock [OF assms]] obtain s' where
    "log_event G E (Some (fst (UnpackReceive G g ?i b))) REC ?i (s\<lparr>goVecLogger := Some (snd (UnpackReceive G g ?i b))\<rparr>) = Inr s'" "local_host s'" by blast
  with u g show ?thesis
    by (intro exI [of _ g] exI [of _ ?i] exI [of _ s']) (simp add: Unpack_def event_text_up receive_event_def case_prod_unfold Let_def)
qed


lemma gob_connD:
  assumes "gob_conn S buffered wire"
  shows "gob_Encode S x c v = (None, c') \<Longrightarrow> wire x c' @ buffered x c' = wire x c @ buffered x c @ [v] \<and>
      buffered (other_end x) c' = buffered (other_end x) c \<and> wire (other_end x) c' = wire (other_end x) c"
    and "gob_Flush S x c = (None, c') \<Longrightarrow> buffered x c' = [] \<and> wire x c' = wire x c @ buffered x c \<and>
      buffered (other_end x) c' = buffered (other_end x) c \<and> wire (other_end x) c' = wire (other_end x) c"
    and "wire (other_end x) c = v # vs \<Longrightarrow>
      \<exists>c'. gob_Decode S x c = (Inr v, c') \<and> wire (other_end x) c' = vs \<and> buffered (other_end x) c' = buffered (other_end x) c \<and>
        wire x c' = wire x c \<and> buffered x c' = buffered x c"
  using assms unfolding gob_conn_def by blast+

lemma end_cases: "(\<forall>x. P x) \<longleftrightarrow> P y \<and> P (other_end y)"
  by (cases y) (auto intro: rpc_end.induct)

text \<open>A message is on its way from \<open>x\<close>, and nothing else.\<close>

definition carries ::
  "(rpc_end \<Rightarrow> 'c \<Rightarrow> 'h gob list) \<Rightarrow> (rpc_end \<Rightarrow> 'c \<Rightarrow> 'h gob list) \<Rightarrow> rpc_end \<Rightarrow> 'h gob list \<Rightarrow> 'c \<Rightarrow> bool" where
  "carries buffered wire x vs c \<longleftrightarrow>
     wire x c = vs \<and> buffered x c = [] \<and> wire (other_end x) c = [] \<and> buffered (other_end x) c = []"

lemma carries_nil: "carries buffered wire x [] c \<longleftrightarrow> idle buffered wire c"
  unfolding carries_def idle_def end_cases [of _ x] by blast

lemma written:
  assumes conn: "gob_conn S buffered wire" and idle: "idle buffered wire c"
    and "gob_Encode S x c v = (None, c1)" and "gob_Encode S x c1 u = (None, c2)" and "gob_Flush S x c2 = (None, c3)"
  shows "carries buffered wire x [v, u] c3"
  using gob_connD(1) [OF conn assms(3)] gob_connD(1) [OF conn assms(4)] gob_connD(2) [OF conn assms(5)] idle
  unfolding carries_def idle_def by simp

lemma decoded:
  assumes "gob_conn S buffered wire" and "carries buffered wire (other_end x) (v # vs) c"
  shows "\<exists>c'. gob_Decode S x c = (Inr v, c') \<and> carries buffered wire (other_end x) vs c'"
  using gob_connD(3) [OF assms(1), of x c v vs] assms(2) unfolding carries_def by (cases x) auto

lemma message_read:
  assumes conn: "gob_conn S buffered wire" and "carries buffered wire (other_end x) [GHeader h, GBytes b] c"
  shows "\<exists>c1 c2. read_header x S c = (Inr h, c1) \<and> read_bytes x S c1 = (Inr b, c2) \<and> idle buffered wire c2"
proof -
  from decoded [OF assms] obtain c1 where c1: "gob_Decode S x c = (Inr (GHeader h), c1)" "carries buffered wire (other_end x) [GBytes b] c1" by blast
  from decoded [OF conn c1(2)] obtain c2 where "gob_Decode S x c1 = (Inr (GBytes b), c2)" "carries buffered wire (other_end x) [] c2" by blast
  with c1(1) show ?thesis by (simp add: read_header_def read_bytes_def carries_nil)
qed

lemma WriteRequest_local:
  assumes "gob_conn S buffered wire" and "idle buffered wire c" and "local_host s"
  shows "\<exists>e c' s' g i. WriteRequest G E S req param c s = Inr (e, c', s') \<and> local_host s' \<and>
    (e = None \<longrightarrow> carries buffered wire ClientEnd [GHeader req, GBytes (fst (PrepareSend G g i param))] c')"
proof -
  obtain g i s1 where p: "Pack G E param s = Inr (fst (PrepareSend G g i param), s1)" "local_host s1"
    using Pack_local [OF assms(3), of G E param] by blast
  obtain e1 c1 where e1: "gob_Encode S ClientEnd c (GHeader req) = (e1, c1)" by fastforce
  obtain e2 c2 where e2: "gob_Encode S ClientEnd c1 (GBytes (fst (PrepareSend G g i param))) = (e2, c2)" by fastforce
  obtain e3 c3 where e3: "gob_Flush S ClientEnd c2 = (e3, c3)" by fastforce
  show ?thesis
  proof (cases "e1 = None \<and> e2 = None")
    case True
    then have "WriteRequest G E S req param c s = Inr (e3, c3, s1)" using e1 e2 e3 p(1) by (simp add: WriteRequest_def)
    with written [OF assms(1,2)] e1 e2 e3 True p(2) show ?thesis by blast
  next
    case False
    with e1 e2 p assms(3) show ?thesis by (cases e1; cases e2) (simp_all add: WriteRequest_def)
  qed
qed

lemma encode_response_none:
  "encode_response S v w = (None, w') \<longleftrightarrow> (\<exists>c. gob_Encode S ServerEnd (Rwc w) v = (None, c) \<and> w' = w\<lparr>Rwc := c\<rparr>)"
  by (auto simp: encode_response_def split: prod.splits option.splits)

lemma WriteResponse_local:
  assumes "gob_conn S buffered wire" and "idle buffered wire (Rwc w)" and "local_host s"
  shows "\<exists>e w' s' g i. WriteResponse G E S r body w s = Inr (e, w', s') \<and> local_host s' \<and>
    (e = None \<longrightarrow> carries buffered wire ServerEnd [GHeader r, GBytes (fst (PrepareSend G g i body))] (Rwc w'))"
proof -
  obtain g i s1 where p: "Pack G E body s = Inr (fst (PrepareSend G g i body), s1)" "local_host s1"
    using Pack_local [OF assms(3), of G E body] by blast
  obtain e1 w1 where e1: "encode_response S (GHeader r) w = (e1, w1)" by fastforce
  obtain e2 w2 where e2: "encode_response S (GBytes (fst (PrepareSend G g i body))) w1 = (e2, w2)" by fastforce
  obtain e3 c3 where e3: "gob_Flush S ServerEnd (Rwc w2) = (e3, c3)" by fastforce
  show ?thesis
  proof (cases "e1 = None \<and> e2 = None")
    case True
    then have "WriteResponse G E S r body w s = Inr (e3, w2\<lparr>Rwc := c3\<rparr>, s1)" using e1 e2 e3 p(1) by (simp add: WriteResponse_def)
    moreover have "carries buffered wire ServerEnd [GHeader r, GBytes (fst (PrepareSend G g i body))] c3" if "e3 = None"
      using True e1 e2 e3 that by (auto simp: encode_response_none intro: written [OF assms(1,2)])
    ultimately show ?thesis using p(2) by (intro exI [of _ e3] exI [of _ "w2\<lparr>Rwc := c3\<rparr>"] exI [of _ s1]) auto
  next
    case False
    with e1 e2 p assms(3) show ?thesis by (cases e1; cases e2) (simp_all add: WriteResponse_def)
  qed
qed

lemma server_reads:
  assumes "gob_conn S buffered wire" and "delivers G" and "local_host t"
    and "carries buffered wire ClientEnd [GHeader h, GBytes (fst (PrepareSend G g i m))] c"
  shows "\<exists>w1 w2 t1. ReadRequestHeader S (NewServerCodec c) = (Inr h, w1) \<and>
    ReadRequestBody G E S w1 t = Inr (Inr m, w2, t1) \<and> local_host t1 \<and> idle buffered wire (Rwc w2)"
proof -
  obtain c1 c2 where "read_header ServerEnd S c = (Inr h, c1)" "read_bytes ServerEnd S c1 = (Inr (fst (PrepareSend G g i m)), c2)"
    "idle buffered wire c2"
    using message_read [OF assms(1), of ServerEnd h "fst (PrepareSend G g i m)" c] assms(4) by auto
  moreover obtain t1 where "Unpack G E (fst (PrepareSend G g i m)) t = Inr (m, t1)" "local_host t1"
    using Unpack_local [OF assms(3), of G E "fst (PrepareSend G g i m)"] assms(2) unfolding delivers_def by metis
  ultimately show ?thesis by (simp add: ReadRequestHeader_def ReadRequestBody_def NewServerCodec_def)
qed

lemma client_reads:
  assumes "gob_conn S buffered wire" and "delivers G" and "local_host s"
    and "carries buffered wire ServerEnd [GHeader h, GBytes (fst (PrepareSend G g i m))] c"
  shows "\<exists>c1 c2 s1. ReadResponseHeader S c = (Inr h, c1) \<and>
    ReadResponseBody G E S c1 s = Inr (Inr m, c2, s1) \<and> local_host s1 \<and> idle buffered wire c2"
proof -
  obtain c1 c2 where "read_header ClientEnd S c = (Inr h, c1)" "read_bytes ClientEnd S c1 = (Inr (fst (PrepareSend G g i m)), c2)"
    "idle buffered wire c2"
    using message_read [OF assms(1), of ClientEnd h "fst (PrepareSend G g i m)" c] assms(4) by auto
  moreover obtain s1 where "Unpack G E (fst (PrepareSend G g i m)) s = Inr (m, s1)" "local_host s1"
    using Unpack_local [OF assms(3), of G E "fst (PrepareSend G g i m)"] assms(2) unfolding delivers_def by metis
  ultimately show ?thesis by (simp add: ReadResponseHeader_def ReadResponseBody_def)
qed

section \<open>Properties\<close>

text \<open>
  C34: how a networking call is rewritten. A call of a selector with arguments is wrapped once for
  every networking object that matches its receiver, by position or by the name of its package,
  and knows the selected function. Without such an object it is left alone; with one it becomes the call of the
  wrapper with the old function as first argument; with \<open>n\<close> more, the wrapper is passed to itself
  \<open>n\<close> times, which is not a call of the wrapper's type.
\<close>

theorem instrument_one_wraps:
  assumes "args \<noteq> []"
  shows "instrument_one netConns (CallExpr (Selector x pos sel t) args inner) =
    (case call_wraps x pos sel netConns of
       0 \<Rightarrow> Inr (False, CallExpr (Selector x pos sel t) args inner)
     | Suc n \<Rightarrow> Inr (True, CallExpr (OtherFun (''capture.'' @ sel))
         [concat (replicate n (''capture.'' @ sel @ '','')) @ t @ '','' @ concat (map (\<lambda>a. a @ '','') (butlast args)) @ last args] []))"
  using instrument_conns_wrap [of "CallExpr (Selector x pos sel t) args inner" x pos sel False 0 netConns] assms
  by (auto simp: instrument_one_def wrap_Suc split: nat.split simp del: wrap.simps(2))

text \<open>Two functions of package \<open>rpc\<close> in use.\<close>

definition rpc_objects :: "tobject list" where
  "rpc_objects =
     [\<lparr>obj_addr = 1, obj_Pos = 0, obj_Pkg = ''rpc'', ObjectString = ''func net/rpc.Dial(network, address string)''\<rparr>,
      \<lparr>obj_addr = 2, obj_Pos = 0, obj_Pkg = ''rpc'', ObjectString = ''func net/rpc.NewClient(conn io.ReadWriteCloser)''\<rparr>]"

lemma rpc_net_conns: "map (\<lambda>oc. NetType (snd oc)) (GetNetConns rpc_objects) = [''rpc'', ''rpc'']"
  by code_simp

lemma rpc_wraps: "call_wraps ''rpc'' None ''Dial'' (GetNetConns rpc_objects) = 2"
  by code_simp

theorem instrument_one_wraps_witness:
  "instrument_one (GetNetConns rpc_objects) (CallExpr (Selector ''rpc'' None ''Dial'' ''rpc.Dial'') [''n'', ''a''] []) =
    Inr (True, CallExpr (OtherFun ''capture.Dial'') [''capture.Dial,rpc.Dial,n,a''] [])"
  using instrument_one_wraps [of "[''n'', ''a'']" "GetNetConns rpc_objects" "''rpc''" None "''Dial''" "''rpc.Dial''" "[]"]
  by (simp add: rpc_wraps numeral_2_eq_2)

text \<open>
  C33: a remote procedure call through the codecs. Two hosts log locally and nothing is under way on
  the connection between them. \<open>WriteRequest\<close> returns; if it reports no error, the server reads the
  header and the parameter that were written. \<open>WriteResponse\<close> then returns; if it reports no error,
  the client, in the state in which the request left it, reads the header and the body of the
  response, and nothing is under way again. Both hosts keep running. That the messages arrive
  rests on the flush at the end of both writers: what is only encoded may stay in the buffer.
\<close>

theorem rpc_exchange:
  assumes "gob_conn S buffered wire" and "delivers G" and "local_host s" and "local_host t" and "idle buffered wire c"
  shows "\<exists>e c1 s1. WriteRequest G E S req param c s = Inr (e, c1, s1) \<and> local_host s1 \<and> (e = None \<longrightarrow>
    (\<exists>w1 w2 t1. ReadRequestHeader S (NewServerCodec c1) = (Inr req, w1) \<and>
      ReadRequestBody G E' S w1 t = Inr (Inr param, w2, t1) \<and> local_host t1 \<and>
      (\<exists>e' w3 t2. WriteResponse G E' S resp body w2 t1 = Inr (e', w3, t2) \<and> local_host t2 \<and> (e' = None \<longrightarrow>
        (\<exists>c2 c3 s2. ReadResponseHeader S (Rwc w3) = (Inr resp, c2) \<and>
          ReadResponseBody G E S c2 s1 = Inr (Inr body, c3, s2) \<and> local_host s2 \<and> idle buffered wire c3)))))"
proof -
  obtain e c1 s1 g i where req: "WriteRequest G E S req param c s = Inr (e, c1, s1)" "local_host s1"
    "e = None \<longrightarrow> carries buffered wire ClientEnd [GHeader req, GBytes (fst (PrepareSend G g i param))] c1"
    using WriteRequest_local [OF assms(1,5,3)] by metis
  have "\<exists>w1 w2 t1. ReadRequestHeader S (NewServerCodec c1) = (Inr req, w1) \<and>
      ReadRequestBody G E' S w1 t = Inr (Inr param, w2, t1) \<and> local_host t1 \<and> idle buffered wire (Rwc w2)" if "e = None"
    using server_reads [OF assms(1,2,4)] req(3) that by blast
  moreover have "\<exists>e' w3 t2. WriteResponse G E' S resp body w2 t1 = Inr (e', w3, t2) \<and> local_host t2 \<and> (e' = None \<longrightarrow>
        (\<exists>c2 c3 s2. ReadResponseHeader S (Rwc w3) = (Inr resp, c2) \<and>
          ReadResponseBody G E S c2 s1 = Inr (Inr body, c3, s2) \<and> local_host s2 \<and> idle buffered wire c3))"
    if "idle buffered wire (Rwc w2)" "local_host t1" for w2 t1
    using WriteResponse_local [OF assms(1) that] client_reads [OF assms(1,2) req(2)] by metis
  ultimately show ?thesis using req(1,2) by blast
qed

text \<open>
  A connection whose writers hold at most two values and hand on all of them with the third; a logger
  that sends a number as one byte.
\<close>

type_synonym pipes = "(rpc_end \<Rightarrow> nat gob list) \<times> (rpc_end \<Rightarrow> nat gob list)"

definition pipe_put :: "rpc_end \<Rightarrow> pipes \<Rightarrow> nat gob \<Rightarrow> pipes" where
  "pipe_put x c v =
     (let b = fst c; w = snd c
      in if length (b x) < 2 then (b(x := b x @ [v]), w) else (b(x := []), w(x := w x @ b x @ [v])))"

definition pipe_flush :: "rpc_end \<Rightarrow> pipes \<Rightarrow> pipes" where
  "pipe_flush x c = ((fst c)(x := []), (snd c)(x := snd c x @ fst c x))"

definition pipe_gob :: "(pipes, nat) gob_ops" where
  "pipe_gob =
     \<lparr>gob_Encode = (\<lambda>x c v. (None, pipe_put x c v)),
      gob_Decode = (\<lambda>x c. case snd c (other_end x) of [] \<Rightarrow> (Inl ''EOF'', c) | v # vs \<Rightarrow> (Inr v, (fst c, (snd c)(other_end x := vs)))),
      gob_Flush = (\<lambda>x c. (None, pipe_flush x c)),
      gob_Close = (\<lambda>x c. (None, c))\<rparr>"

lemma pipe_conn: "gob_conn pipe_gob (\<lambda>x c. fst c x) (\<lambda>x c. snd c x)"
proof -
  have "other_end x \<noteq> x" "x \<noteq> other_end x" for x by (cases x; simp)+
  then show ?thesis unfolding gob_conn_def pipe_gob_def by (auto simp: pipe_put_def pipe_flush_def Let_def split: if_splits)
qed

definition bool_govec :: "(nat, bool) govec" where
  "bool_govec =
     \<lparr>InitGoVector = (\<lambda>_ _. 1), PrepareSend = (\<lambda>g _ m. (if m then [1] else [], g + 1)), UnpackReceive = (\<lambda>g _ b. (b \<noteq> [], g + 1)),
      LogLocalEvent = (\<lambda>g _. g + 1), GetCurrentVC = (\<lambda>g. [of_nat g])\<rparr>"

definition bool_env :: "bool rt_env" where
  "bool_env =
     \<lparr>Getenv = (\<lambda>_. ''x''), Nanosecond = 7, create_ok = (\<lambda>_. True), dial_ok = (\<lambda>_. True), stack_matches = [],
      encode_other = (\<lambda>_. False), marshal_state = (\<lambda>_. Some []), marshal_trace = (\<lambda>_. []),
      msg_fields = (\<lambda>_. []), marshal_fields = (\<lambda>_. []), rpc_Log = (\<lambda>r. \<lparr>Project = ''p'', Session = ''s'', LogNode = ''n''\<rparr>),
      range_keys = (\<lambda>ks. ks), Hash = (\<lambda>x. x)\<rparr>"

lemma pipe_no_error:
  "WriteRequest G E pipe_gob req param c s = Inr (e, r) \<Longrightarrow> e = None"
  "WriteResponse G E pipe_gob resp body w s = Inr (e, q) \<Longrightarrow> e = None"
  by (auto simp: WriteRequest_def WriteResponse_def encode_response_def pipe_gob_def go_bind)

theorem rpc_exchange_witness:
  "\<exists>s c1 s1 w1 w2 t1 w3 t2 c2 c3 s2. local_host s \<and>
    WriteRequest bool_govec bool_env pipe_gob 5 True (\<lambda>_. [], \<lambda>_. []) s = Inr (None, c1, s1) \<and>
    ReadRequestHeader pipe_gob (NewServerCodec c1) = (Inr 5, w1) \<and>
    ReadRequestBody bool_govec bool_env pipe_gob w1 s = Inr (Inr True, w2, t1) \<and>
    WriteResponse bool_govec bool_env pipe_gob 6 False w2 t1 = Inr (None, w3, t2) \<and>
    ReadResponseHeader pipe_gob (Rwc w3) = (Inr 6, c2) \<and>
    ReadResponseBody bool_govec bool_env pipe_gob c2 s1 = Inr (Inr False, c3, s2)"
proof -
  obtain s where s: "run_calls bool_govec bool_env (rt_start False) [CLocal ''e''] = Inr s"
    by (simp add: run_calls_def run_call_def Local_def initDinv_def rt_start_def bool_env_def bool_govec_def log_event_def logVarStore_def
        smearedDumpID_def store_pairs_def sort_ByName_def concatStrings_def logPairList_def GetLogger_def getHashedId_def GetId_def
        getCallingFunctionID_def Encode_def Let_def)
  have l: "local_host s"
    using run_calls_up [OF rt_inv_start s] run_calls_frame [OF rt_inv_start s] by (simp add: local_host_def rt_start_def)
  have G: "delivers bool_govec" by (auto simp: delivers_def bool_govec_def)
  have c: "idle (\<lambda>x c. fst c x) (\<lambda>x c. snd c x) (\<lambda>_. [], \<lambda>_. [])" by (simp add: idle_def)
  from rpc_exchange [OF pipe_conn G l l c, of bool_env 5 True bool_env 6 False] obtain c1 s1 w1 w2 t1 w3 t2 c2 c3 s2 where
    "WriteRequest bool_govec bool_env pipe_gob 5 True (\<lambda>_. [], \<lambda>_. []) s = Inr (None, c1, s1)"
    "ReadRequestHeader pipe_gob (NewServerCodec c1) = (Inr 5, w1)"
    "ReadRequestBody bool_govec bool_env pipe_gob w1 s = Inr (Inr True, w2, t1)"
    "WriteResponse bool_govec bool_env pipe_gob 6 False w2 t1 = Inr (None, w3, t2)"
    "ReadResponseHeader pipe_gob (Rwc w3) = (Inr 6, c2)"
    "ReadResponseBody bool_govec bool_env pipe_gob c2 s1 = Inr (Inr False, c3, s2)"
    using pipe_no_error by metis
  with l show ?thesis by blast
qed

end
