(* ===== verification/Spec2Isabelle.thy ===== *)
theory Spec2Isabelle
  imports Merging_Props Dinv_RT_Props Slice_IP_Props Assert_RT_Props Instrumenter_Props Capture_Props
begin

text \<open>
  Verification of Dinv, a detector of likely data invariants in distributed Go programs.

  \<^bold>\<open>The program.\<close> Dinv works in three stages, all of which are modelled here.
    \<^item> Before a run, the instrumenter (\<open>src/instrumenter\<close>) replaces comments such as \<open>//@dump\<close>
      by calls of the runtime that name the variables in scope; the capture tool
      (\<open>src/capture\<close>) wraps the networking calls of the program so that messages carry vector
      clocks; the program slicer (\<open>src/programslicer\<close>) builds control flow graphs, data and
      control dependences and slices for them.
    \<^item> During a run, every host is linked with the runtime (\<open>src/dinvRT\<close>). It logs the values of
      tracked variables as program points, one JSON object per point, beside the log of
      vector clocks that the package govec writes; its distributed assertions ask the other
      hosts for the values of variables at a common moment.
    \<^item> After a run, the log merger (\<open>src/logmerger\<close>) reads both kinds of log of all hosts, builds
      the lattice of consistent cuts, keeps the cuts in which no message is in flight, merges
      the points of every such state in one of several ways and writes traces for Daikon.

  \<^bold>\<open>Theories of the log merger.\<close>
    \<^item> \<open>Dinv_Prelude\<close>: the Go types, \<open>rt_error + 'a\<close> for code that may panic (\<open>rbind\<close>, \<open>foldR\<close>), Go
      maps as association lists, decimal texts, generic lemmas.
    \<^item> \<open>Vclock\<close>: the package vclock, an argument \<open>V\<close> of all functions that use clocks.
    \<^item> \<open>Clock_Utils\<close> (\<open>utils.go\<close>): the owner of a log, binary search, the matching of sends and
      receives, building and parsing of clocks.
    \<^item> \<open>Consistent_Cuts\<close>: consistent cuts of an abstract execution, independent of the program.
    \<^item> \<open>Lattice\<close>, \<open>Lattice_Build\<close> (\<open>lattice.go\<close>): the lattice wrapper with its levels in memory and
      on disk, the three constructions, and their correctness.
    \<^item> \<open>Cuts\<close>, \<open>Cut_Mining\<close> (\<open>cuts.go\<close>): communication deltas, mining, chains of hosts.
    \<^item> \<open>Point_Logs\<close>, \<open>Point_Log_Props\<close> (\<open>logs.go\<close>, \<open>state.go\<close>, \<open>utils.go\<close>): program points, reading,
      completing, renaming and writing of logs.
    \<^item> \<open>Merging\<close>, \<open>Merging_Props\<close> (\<open>logmerger.go\<close>): options, the assembly line from logs to states,
      merge plans, trace files.

  \<^bold>\<open>Theories of the slicer.\<close>
    \<^item> \<open>Go_Ast\<close> (\<open>dataflow/dataflow.go\<close>): statements of \<open>go/ast\<close>, the variables they define and use.
    \<^item> \<open>Cfg\<close>, \<open>Cfg_Props\<close> (\<open>cfg/cfg.go\<close>): the builder of control flow graphs, numbering, inversion.
    \<^item> \<open>Bitset\<close>, \<open>Dataflow\<close>, \<open>Dataflow_Props\<close>, \<open>Data_Deps\<close> (\<open>dataflow/reaching.go\<close>, \<open>live.go\<close>): reaching
      definitions, data dependences, live variables.
    \<^item> \<open>Dom\<close>, \<open>Dom_Props\<close> (\<open>cfg/dom.go\<close>): the dominator tree, dominance, control dependences.
      \<open>Lengauer_Tarjan\<close> is the theory of semidominators on depth-first numbers, \<open>Dom_Tree\<close> the search of
      \<open>BuildDomTree\<close>, \<open>Dom_Rounds\<close> its loops, \<open>Dom_Correct\<close> its result; \<open>Control_Deps\<close> is post-dominance
      and control dependence of a whole graph.
    \<^item> \<open>Slicer\<close>, \<open>Backward_Slice\<close>, \<open>Slice_IP\<close>, \<open>Slice_IP_Props\<close> (\<open>programslicer.go\<close>): forward and backward
      slices of one function, and slices that follow calls and callers.

  \<^bold>\<open>Theories of the instrumenter and the runtime.\<close>
    \<^item> \<open>Instrumenter\<close>, \<open>Instrumenter_Props\<close> (\<open>instrumenter/instrumenter.go\<close>): annotations, variables in
      scope, structs, generated code, rewriting, cleaning and moving of sources.
    \<^item> \<open>Capture\<close>, \<open>Capture_Props\<close> (\<open>capture/inst.go\<close>, \<open>capture/capture.go\<close>): recognition and wrapping
      of networking calls, the wrappers and the codecs of remote procedure calls.
    \<^item> \<open>Dinv_RT\<close>, \<open>Dinv_RT_Props\<close> (\<open>dinvRT/api.go\<close>): the state of the runtime package and its calls.
    \<^item> \<open>Assert_RT\<close>, \<open>Assert_RT_Props\<close> (\<open>dinvRT/assert.go\<close>): a node of the assertion protocol, its
      goroutines as tasks, its reachable states as an inductive predicate.

  \<^bold>\<open>State and failures.\<close> Package variables are records (\<open>rt_state\<close>, \<open>node\<close>, \<open>ltState\<close>,
  \<open>LatticeWrapper\<close>) that the functions take and return. A panic, a failed type assertion, an index
  out of range, a nil dereference and a call of \<open>os.Exit\<close> or \<open>log.Fatal\<close> are values \<open>Inl e\<close>. A loop
  whose end is not evident is a \<open>partial_function (option)\<close> in which \<open>None\<close> is a loop that does not
  end; the theorems about them state that the result is \<open>Some\<close>. The two recursive searches with
  an explicit bound (the depth-first search of the dominator tree and the closure of a struct)
  take the depth of the stack as an argument, and their theorems give a depth that is enough.
  A value of type \<open>uint64\<close> is a \<open>64 word\<close>, a \<open>time.Duration\<close> an integer with the wrap-around and
  the saturation of the source written out; lengths and indices are natural numbers or integers.

  \<^bold>\<open>What is shown.\<close>
    \<^item> \<^emph>\<open>Log merger.\<close> The lattice has as its levels exactly the consistent cuts; mining keeps
      exactly those with no matched message in flight; the mined states hold the points of
      exactly these cuts, completed by blank points; matching, search and ordering
      are characterised on every branch; clocks and logs survive printing and parsing; no merge
      plan panics on the states of cuts, and what each returns is given exactly from the chains of
      the state; the trace loop ends with one trace per identifier.
    \<^item> \<^emph>\<open>Slicer.\<close> Graphs have exactly the blocks of the function and symmetric edges; inversion is
      exact for every order of iteration; reaching definitions and liveness terminate and
      are exactly the path-based notions; the backward slice, with all the analyses it runs, is
      exactly the closure of the dependences defined on paths; the construction of Lengauer and Tarjan ends and yields exactly the dominators
      of the paths, and control dependences are exactly those of post-dominance on the paths;
      unreachable blocks make the construction panic. The interprocedural backward slicer ends,
      also from statements that are not blocks of a graph, and its result is closed under the
      calls of the sliced statements.
    \<^item> \<^emph>\<open>Runtime.\<close> A tracking host refines an abstract tracker; the package keeps its invariant
      under all calls; what the log merger reads back of the log it writes is given for values of
      every basic type. An assertion decides
      on exactly the answers taken while its round was open, under every schedule; a failed
      one is announced to every node; the clock offset of a node never changes, and the
      offsets sent are one of two constants.
    \<^item> \<^emph>\<open>Instrumenter and capture.\<close> Instrumentation replaces exactly the annotations; the calls it
      generates run on the runtime; the function of a position is characterised, and the closure of
      a struct from its declaration, of which it follows the first name of every field declaration;
      a networking call is wrapped once per matching object; a remote procedure call passes through
      the codecs and their buffered writers in both directions when the writers report no error.

  \<^bold>\<open>Interfaces.\<close> Every interface is a locale with an interpretation on the definitions of the
  model. \<open>vclock_api\<close> and \<open>bitset_api\<close> state the laws of the packages vclock and bitset, with
  association lists (\<open>alist\<close>) and lists of bits (\<open>listb\<close>) as instances; \<open>fifo_api\<close> is the queue of
  \<open>BuildLattice\<close> (\<open>list_queue\<close>). \<open>clock_search\<close> is the contract of the binary search (\<open>by_clock\<close>),
  \<open>causal_system\<close> that of logs that stem from an execution (\<open>logs\<close>), \<open>merge_plan\<close> that of the merge
  plans, which merge groups of the points of a state (\<open>toln\<close>, \<open>srm\<close>, \<open>etm\<close>, \<open>scm\<close>, \<open>none\<close>), \<open>call_simulation\<close> the simulation of the tracker
  (\<open>tracked\<close>), \<open>node_invariant\<close> an invariant of all schedules of a node (\<open>refs\<close>, \<open>sync\<close>),
  \<open>dfs_numbering\<close> the numbers and the tree of a depth-first search (\<open>lt\<close>, on the search of \<open>dom.go\<close>),
  \<open>slicer_api\<close> the slicer of one function that the interprocedural one is given (\<open>bs\<close>, on the
  backward slicer).

  \<^bold>\<open>Parameters and hypotheses.\<close> Code outside the repository is an argument: clocks \<open>V\<close>, bit sets
  \<open>B\<close>, the logger of govec \<open>G\<close>, a connection with its gob streams and buffered writers \<open>S\<close>, the environment of the runtime (flags, files, JSON
  texts), of a node (clock, sockets, the memory of the program) and of the instrumenter (parser,
  printer, type checker, imports). The hypotheses about it are laws its documentation states:
  equality of bit sets compares lengths too, a decoder yields what was flushed at the other end, in
  order, an import added to a file keeps its comments. The order in which Go ranges over a map is an
  argument that permutes the keys, and the theorems hold for all of them; one such order serves a
  run of the runtime. The digest of \<open>logmerger.Hash\<close> (SHA-1) is an argument too, \<open>sort.Sort\<close> is a
  stable sort (the theorem on the merge plans holds for any order of points with equal ids), and files
  of the lattice can be created and closed. Further hypotheses
  bound the input: fewer than \<open>2 ^ 63\<close> events, at least two hosts, no more cuts than the lattice
  keeps in memory (5,000,000), levels that divide evenly among the goroutines of the
  construction, and \<open>modern\<close> for clocks that are more than \<open>2 ^ 63 + 2 ^ 62\<close> nanoseconds after the
  zero of \<open>time.Time\<close>. In \<open>Assert_RT\<close> a goroutine runs without interruption from one wait
  (a channel, a sleep, a socket) to the next; any order of these pieces is a schedule.

  \<^bold>\<open>Not modelled.\<close>
    \<^item> \<open>dinv.go\<close> (flags) and \<open>daikonWrapper\<close> (runs Daikon as a process): input and output only.
    \<^item> \<open>programslicer/programBuilder.go\<close>, but for \<open>FindFile\<close>: it reads directories and calls the
      parser, the loader and the type checker.
    \<^item> \<open>getAffectedVars\<close> of the instrumenter, which calls the slicer on the program it loads.
    \<^item> The rest of \<open>partitionLogs\<close> behind its early return, all printers of graphs and debug output.
    \<^item> Example systems, benchmarks and test programs.
\<close>

end
